(* ===== verification/Prelude.thy ===== *)
theory Prelude
  imports Main "HOL-Library.Word" "HOL-Library.Product_Lexorder"
begin

text \<open>
  The shared vocabulary of the MiniDB++ development.

  \<^item> machine integers: \<open>byte\<close> is \<open>std::byte\<close>, \<open>u16\<close>, \<open>u32\<close>, \<open>u64\<close> the unsigned fixed-width
    integers, each an unsigned word whose arithmetic wraps; \<open>std::size_t\<close> quantities that
    count or index bytes of a buffer are \<open>nat\<close>;
  \<^item> exceptions: \<open>exn\<close> has one constructor per exception class the modelled sources throw,
    carrying what the class carries; a function that may throw returns \<open>exn + 'a\<close>
    (\<open>'a res\<close>), sequenced by \<open>res_bind\<close>;
  \<^item> \<open>overwrite\<close>, the effect of \<open>std::copy\<close> into a buffer at an offset, and its algebra,
    on which every byte-level layout proof rests;
  \<^item> the collection \<open>res_simps\<close>, inversion of the result monad.
\<close>

section \<open>Machine integers\<close>

unbundle bit_operations_syntax

type_synonym byte = "8 word"
type_synonym u16 = "16 word"
type_synonym u32 = "32 word"
type_synonym u64 = "64 word"

named_theorems res_simps "inversion and evaluation of the result monad"

section \<open>Exceptions as values\<close>

datatype storage_error_kind = NoFrameAvailable | CorruptPage | InvalidPage | PinnedPageRelease

datatype wal_error_kind =
  WalInvalidArgument | WalIo | WalDurability | WalCorruptHeader | WalCorruptRecord | WalTruncatedTail

record source_location =
  srcOffset :: nat
  srcLine :: nat
  srcColumn :: nat

record source_span =
  spanBegin :: source_location
  spanEnd :: source_location

datatype sql_error_kind = Lexer | Parser

datatype sql_execution_error_kind = Semantic | Constraint | Execution

datatype exn =
    RuntimeError string
  | InvalidArgument string
  | OutOfRange string
  | LogicError string
  | OverflowError string
  | StorageError storage_error_kind string
  | WalError wal_error_kind string
  | ProtocolError string "u64 option"
  | SqlError sql_error_kind string source_span
  | SqlExecutionError sql_execution_error_kind string source_span
  | BadVariantAccess

type_synonym 'a res = "exn + 'a"

definition res_bind :: "'a res \<Rightarrow> ('a \<Rightarrow> 'b res) \<Rightarrow> 'b res" where
  "res_bind m k = (case m of Inl e \<Rightarrow> Inl e | Inr x \<Rightarrow> k x)"

definition throw_if :: "bool \<Rightarrow> exn \<Rightarrow> unit res" where
  "throw_if c e = (if c then Inl e else Inr ())"

lemma res_bind_simps [simp, res_simps]:
  "res_bind (Inl e) k = Inl e"
  "res_bind (Inr x) k = k x"
  by (simp_all add: res_bind_def)

lemma res_bind_eq_Inr [res_simps]:
  "res_bind m k = Inr y \<longleftrightarrow> (\<exists>x. m = Inr x \<and> k x = Inr y)"
  by (cases m) auto

lemma res_bind_eq_Inl [res_simps]:
  "res_bind m k = Inl e \<longleftrightarrow> m = Inl e \<or> (\<exists>x. m = Inr x \<and> k x = Inl e)"
  by (cases m) auto

lemma throw_if_eq [simp, res_simps]:
  "throw_if c e = Inr u \<longleftrightarrow> \<not> c"
  "throw_if c e = Inl e' \<longleftrightarrow> c \<and> e' = e"
  by (auto simp: throw_if_def)

lemma res_bind_throw_if [simp, res_simps]:
  "res_bind (throw_if c e) k = (if c then Inl e else k ())"
  by (simp add: throw_if_def)

lemma res_bind_cong [fundef_cong]:
  "m = m' \<Longrightarrow> (\<And>x. m' = Inr x \<Longrightarrow> k x = k' x) \<Longrightarrow> res_bind m k = res_bind m' k'"
  by (cases m) auto

section \<open>Decimal rendering, \<open>std::to_string\<close>\<close>

definition digit_char :: "nat \<Rightarrow> char" where
  "digit_char d = char_of (48 + d)"

fun to_string :: "nat \<Rightarrow> string" where
  "to_string n = (if n < 10 then [digit_char n] else to_string (n div 10) @ [digit_char (n mod 10)])"

declare to_string.simps [simp del]

section \<open>Copying into a buffer\<close>

definition overwrite :: "'a list \<Rightarrow> nat \<Rightarrow> 'a list \<Rightarrow> 'a list" where
  "overwrite xs off ys = take off xs @ ys @ drop (off + length ys) xs"

text \<open>\<open>subspan xs off n\<close> is the half-open range \<open>[off, off + n)\<close> of a buffer.\<close>

definition subspan :: "'a list \<Rightarrow> nat \<Rightarrow> nat \<Rightarrow> 'a list" where
  "subspan xs off n = take n (drop off xs)"

lemma length_overwrite [simp]:
  "off + length ys \<le> length xs \<Longrightarrow> length (overwrite xs off ys) = length xs"
  by (simp add: overwrite_def)

lemma nth_overwrite:
  "off + length ys \<le> length xs \<Longrightarrow> i < length xs \<Longrightarrow>
   overwrite xs off ys ! i = (if off \<le> i \<and> i < off + length ys then ys ! (i - off) else xs ! i)"
  by (auto simp: overwrite_def nth_append min_def)

lemma length_subspan [simp]: "length (subspan xs off n) = min n (length xs - off)"
  by (simp add: subspan_def)

lemma nth_subspan: "i < n \<Longrightarrow> off + i < length xs \<Longrightarrow> subspan xs off n ! i = xs ! (off + i)"
  by (simp add: subspan_def)

lemma subspan_overwrite_same:
  "off + length ys \<le> length xs \<Longrightarrow> n = length ys \<Longrightarrow> subspan (overwrite xs off ys) off n = ys"
  by (simp add: subspan_def overwrite_def)

lemma subspan_cong:
  assumes "length xs = length ys"
    and "\<And>i. off \<le> i \<Longrightarrow> i < off + n \<Longrightarrow> i < length xs \<Longrightarrow> xs ! i = ys ! i"
  shows "subspan xs off n = subspan ys off n"
  by (rule nth_equalityI) (use assms in \<open>auto simp: subspan_def\<close>)

lemma subspan_overwrite_disjoint:
  assumes "off + length ys \<le> length xs" and "o' + n \<le> off \<or> off + length ys \<le> o'"
  shows "subspan (overwrite xs off ys) o' n = subspan xs o' n"
  by (rule subspan_cong) (use assms in \<open>auto simp: nth_overwrite\<close>)

lemma overwrite_id: "off + n \<le> length xs \<Longrightarrow> overwrite xs off (subspan xs off n) = xs"
  by (rule nth_equalityI) (auto simp: nth_overwrite nth_subspan)

lemma subspan_subspan: "i + m \<le> n \<Longrightarrow> subspan (subspan xs off n) i m = subspan xs (off + i) m"
  by (simp add: subspan_def take_drop add.commute min_def)

lemma subspan_full [simp]: "subspan xs 0 (length xs) = xs"
  by (simp add: subspan_def)

lemma subspan_0_len [simp]: "subspan xs off 0 = []"
  by (simp add: subspan_def)

lemma subspan_append_left: "off + n \<le> length xs \<Longrightarrow> subspan (xs @ ys) off n = subspan xs off n"
  by (simp add: subspan_def)

lemma subspan_append_right: "length xs \<le> off \<Longrightarrow> subspan (xs @ ys) off n = subspan ys (off - length xs) n"
  by (simp add: subspan_def)

lemma subspan_prefix: "length xs = n \<Longrightarrow> subspan (xs @ ys) 0 n = xs"
  by (simp add: subspan_def)

lemma subspan_skip: "length pre = off \<Longrightarrow> length xs = n \<Longrightarrow> subspan (pre @ xs @ ys) off n = xs"
  by (simp add: subspan_def)

lemma subspan_Suc: "off < length xs \<Longrightarrow> subspan xs off (Suc n) = xs ! off # subspan xs (Suc off) n"
  by (simp add: subspan_def Cons_nth_drop_Suc [symmetric])

lemma subspan_add: "subspan xs off (m + n) = subspan xs off m @ subspan xs (off + m) n"
  by (simp add: subspan_def take_add add.commute)

lemma list_update_overwrite: "i < length xs \<Longrightarrow> xs[i := x] = overwrite xs i [x]"
  by (simp add: overwrite_def upd_conv_take_nth_drop)

lemma overwrite_overwrite:
  "off' = off + length ys \<Longrightarrow> off' + length zs \<le> length xs \<Longrightarrow>
   overwrite (overwrite xs off ys) off' zs = overwrite xs off (ys @ zs)"
  by (rule nth_equalityI) (auto simp: nth_overwrite nth_append)

lemma overwrite_full: "length ys = length xs \<Longrightarrow> overwrite xs 0 ys = ys"
  by (simp add: overwrite_def)

lemma overwrite_append: "length xs = off \<Longrightarrow> overwrite (xs @ ys) off zs = xs @ overwrite ys 0 zs"
  by (simp add: overwrite_def)

lemma subspan_eq_iff:
  "off + n \<le> length xs \<Longrightarrow> off' + n \<le> length ys \<Longrightarrow>
   subspan xs off n = subspan ys off' n \<longleftrightarrow> (\<forall>i<n. xs ! (off + i) = ys ! (off' + i))"
  by (auto simp: list_eq_iff_nth_eq nth_subspan)

section \<open>Byte strings\<close>

text \<open>The bytes of an ASCII literal such as a page magic.\<close>

definition magic_bytes :: "string \<Rightarrow> byte list" where
  "magic_bytes s = map (\<lambda>c. of_nat (of_char c)) s"

lemma length_magic_bytes [simp]: "length (magic_bytes s) = length s"
  by (simp add: magic_bytes_def)

text \<open>\<open>std::all_of(\<dots>, value == std::byte{0})\<close>.\<close>

definition all_zero :: "byte list \<Rightarrow> bool" where
  "all_zero bs \<longleftrightarrow> list_all (\<lambda>b. b = 0) bs"

lemma all_zero_nth: "all_zero bs \<longleftrightarrow> (\<forall>i<length bs. bs ! i = 0)"
  by (simp add: all_zero_def list_all_length)

lemma all_zero_subspan:
  "off + n \<le> length bs \<Longrightarrow> all_zero (subspan bs off n) \<longleftrightarrow> (\<forall>i. off \<le> i \<and> i < off + n \<longrightarrow> bs ! i = 0)"
proof -
  assume "off + n \<le> length bs"
  then have "all_zero (subspan bs off n) \<longleftrightarrow> (\<forall>i<n. bs ! (off + i) = 0)"
    by (simp add: all_zero_nth nth_subspan)
  also have "\<dots> \<longleftrightarrow> (\<forall>i. off \<le> i \<and> i < off + n \<longrightarrow> bs ! i = 0)"
    by (metis add_less_cancel_left le_add1 le_add_diff_inverse)
  finally show ?thesis .
qed

lemma all_zero_replicate [simp]: "all_zero (replicate n 0)"
  by (simp add: all_zero_nth)

lemma all_zero_iff_replicate: "all_zero bs \<longleftrightarrow> bs = replicate (length bs) 0"
  by (auto simp: all_zero_nth list_eq_iff_nth_eq)

section \<open>Searching an index range\<close>

lemma find_upt_Some: "List.find P [0..<n] = Some i \<longleftrightarrow> i < n \<and> P i \<and> (\<forall>j<i. \<not> P j)"
proof
  assume "i < n \<and> P i \<and> (\<forall>j<i. \<not> P j)"
  then show "List.find P [0..<n] = Some i"
    unfolding find_Some_iff by (intro exI [of _ i]) auto
qed (auto simp: find_Some_iff)

lemma find_upt_None: "List.find P [0..<n] = None \<longleftrightarrow> (\<forall>i<n. \<not> P i)"
  by (auto simp: find_None_iff)

section \<open>Characters\<close>

definition char_byte :: "char \<Rightarrow> byte" where
  "char_byte c = of_nat (of_char c)"

definition byte_char :: "byte \<Rightarrow> char" where
  "byte_char b = char_of (unat b)"

lemma unat_char_byte [simp]: "unat (char_byte c) = of_char c"
proof -
  have "of_char c < (256::nat)" by (rule nat_of_char_less_256)
  then show ?thesis unfolding char_byte_def by (simp add: unat_of_nat take_bit_nat_eq_self)
qed

lemma byte_char_byte [simp]: "byte_char (char_byte c) = c"
  by (simp add: byte_char_def)

lemma char_byte_char [simp]: "char_byte (byte_char b) = b"
proof -
  have "unat b < 256" using unsigned_less [of b, where ?'a = nat] by simp
  then have "unat (char_byte (byte_char b)) = unat b" by (simp add: byte_char_def)
  then show ?thesis by (simp only: word_unat_eq_iff)
qed

lemma map_byte_char_byte [simp]: "map (byte_char \<circ> char_byte) s = s" "map (char_byte \<circ> byte_char) b = b"
  by (simp_all add: comp_def)

section \<open>Actions\<close>

text \<open>
  A mutating member function that may throw: what it returns or throws, and the object it leaves
  behind in either case. The state after an exception is kept, because C++ keeps it.
\<close>

type_synonym ('s, 'a) action = "'s \<Rightarrow> 'a res \<times> 's"

definition act_return :: "'a \<Rightarrow> ('s, 'a) action" where
  "act_return x = (\<lambda>s. (Inr x, s))"

definition act_throw :: "exn \<Rightarrow> ('s, 'a) action" where
  "act_throw e = (\<lambda>s. (Inl e, s))"

definition act_lift :: "('s \<Rightarrow> 'a res) \<Rightarrow> ('s, 'a) action" where
  "act_lift f = (\<lambda>s. (f s, s))"

definition act_modify :: "('s \<Rightarrow> 's) \<Rightarrow> ('s, unit) action" where
  "act_modify f = (\<lambda>s. (Inr (), f s))"

definition act_bind :: "('s, 'a) action \<Rightarrow> ('a \<Rightarrow> ('s, 'b) action) \<Rightarrow> ('s, 'b) action" where
  "act_bind m f = (\<lambda>s. case m s of (Inl e, s') \<Rightarrow> (Inl e, s') | (Inr x, s') \<Rightarrow> f x s')"

lemma act_simps [simp]:
  "act_return x s = (Inr x, s)" "act_throw e s = (Inl e, s)" "act_lift f s = (f s, s)"
  "act_modify g s = (Inr (), g s)"
  by (simp_all add: act_return_def act_throw_def act_lift_def act_modify_def)

lemma act_bind_Inr [simp]: "m s = (Inr x, s') \<Longrightarrow> act_bind m f s = f x s'"
  by (simp add: act_bind_def)

lemma act_bind_Inl [simp]: "m s = (Inl e, s') \<Longrightarrow> act_bind m f s = (Inl e, s')"
  by (simp add: act_bind_def)

lemma act_bind_eq_Inr:
  "act_bind m f s = (Inr y, s'') \<longleftrightarrow> (\<exists>x s'. m s = (Inr x, s') \<and> f x s' = (Inr y, s''))"
  by (auto simp: act_bind_def split: sum.splits prod.splits)

lemma act_bind_eq_Inl:
  "act_bind m f s = (Inl e, s'') \<longleftrightarrow>
     m s = (Inl e, s'') \<or> (\<exists>x s'. m s = (Inr x, s') \<and> f x s' = (Inl e, s''))"
  by (auto simp: act_bind_def split: sum.splits prod.splits)

section \<open>Words\<close>

lemma unat_of_nat_small: "n < 2 ^ LENGTH('a) \<Longrightarrow> unat (of_nat n :: 'a::len word) = n"
  by (simp add: unat_of_nat take_bit_nat_eq_self)

lemma unat_succ: "x \<noteq> - 1 \<Longrightarrow> unat (x + 1) = Suc (unat (x :: 'a::len word))"
proof -
  assume "x \<noteq> - 1"
  then have "1 + x \<noteq> 0" by (metis add.commute add_eq_0_iff)
  then show ?thesis by (simp add: unatSuc add.commute)
qed

lemma max_word_numerals: "(- 1 :: u32) = 0xFFFFFFFF" "(- 1 :: u64) = 0xFFFFFFFFFFFFFFFF"
  by simp_all

lemma unat_succ_max:
  "(x :: u32) \<noteq> 0xFFFFFFFF \<Longrightarrow> unat (x + 1) = Suc (unat x)"
  "(y :: u64) \<noteq> 0xFFFFFFFFFFFFFFFF \<Longrightarrow> unat (y + 1) = Suc (unat y)"
  using unat_succ [of x] unat_succ [of y] unfolding max_word_numerals by simp_all

lemma unat_16_small [simp]: "n < 65536 \<Longrightarrow> unat (of_nat n :: u16) = n"
  by (rule unat_of_nat_small) simp

end
