(* ===== verification/Byte_Codec.thy ===== *)
theory Byte_Codec
  imports Prelude
begin

text \<open>
  The little-endian integer codec every persistent format is built on
  (\<open>include/minidb/byte_codec.hpp\<close>).

  The three widths of the header share one loop; \<open>put_le\<close> and \<open>get_le\<close> are that loop for any
  width, \<open>writeUint16\<close> \<dots> \<open>readUint64\<close> add the range check, \<open>appendUint16\<close> \<dots> the resize.
  Formats whose span has a static extent read fields at constant offsets, where the check
  cannot fail; they use \<open>get16\<close>, \<open>put16\<close> \<dots>, the unchecked loop bodies, and \<open>readUint16_in\<close>
  \<dots> justify that.

  The lemmas give the codec's contract: reading back what was written, no effect outside the
  written bytes, and injectivity (a field determines its bytes and the bytes the field).
\<close>

section \<open>The loops\<close>

definition requireRange :: "byte list \<Rightarrow> nat \<Rightarrow> nat \<Rightarrow> unit res" where
  "requireRange bytes offset width =
     throw_if (offset > length bytes \<or> width > length bytes - offset)
       (RuntimeError ''Persistent byte sequence is truncated.'')"

definition put_le :: "nat \<Rightarrow> byte list \<Rightarrow> nat \<Rightarrow> 'a::len word \<Rightarrow> byte list" where
  "put_le width bytes offset value =
     fold (\<lambda>index bs. bs[offset + index := ucast (drop_bit (index * 8) value AND 0xFF)])
       [0..<width] bytes"

definition get_le :: "nat \<Rightarrow> byte list \<Rightarrow> nat \<Rightarrow> 'a::len word" where
  "get_le width bytes offset =
     fold (\<lambda>index value. value OR push_bit (index * 8) (ucast (bytes ! (offset + index))))
       [0..<width] 0"

abbreviation put16 :: "byte list \<Rightarrow> nat \<Rightarrow> u16 \<Rightarrow> byte list" where "put16 \<equiv> put_le 2"
abbreviation put32 :: "byte list \<Rightarrow> nat \<Rightarrow> u32 \<Rightarrow> byte list" where "put32 \<equiv> put_le 4"
abbreviation put64 :: "byte list \<Rightarrow> nat \<Rightarrow> u64 \<Rightarrow> byte list" where "put64 \<equiv> put_le 8"
abbreviation get16 :: "byte list \<Rightarrow> nat \<Rightarrow> u16" where "get16 \<equiv> get_le 2"
abbreviation get32 :: "byte list \<Rightarrow> nat \<Rightarrow> u32" where "get32 \<equiv> get_le 4"
abbreviation get64 :: "byte list \<Rightarrow> nat \<Rightarrow> u64" where "get64 \<equiv> get_le 8"

definition writeUint16 :: "byte list \<Rightarrow> nat \<Rightarrow> u16 \<Rightarrow> byte list res" where
  "writeUint16 bytes offset value =
     res_bind (requireRange bytes offset 2) (\<lambda>_. Inr (put16 bytes offset value))"

definition writeUint32 :: "byte list \<Rightarrow> nat \<Rightarrow> u32 \<Rightarrow> byte list res" where
  "writeUint32 bytes offset value =
     res_bind (requireRange bytes offset 4) (\<lambda>_. Inr (put32 bytes offset value))"

definition writeUint64 :: "byte list \<Rightarrow> nat \<Rightarrow> u64 \<Rightarrow> byte list res" where
  "writeUint64 bytes offset value =
     res_bind (requireRange bytes offset 8) (\<lambda>_. Inr (put64 bytes offset value))"

definition readUint16 :: "byte list \<Rightarrow> nat \<Rightarrow> u16 res" where
  "readUint16 bytes offset =
     res_bind (requireRange bytes offset 2) (\<lambda>_. Inr (get16 bytes offset))"

definition readUint32 :: "byte list \<Rightarrow> nat \<Rightarrow> u32 res" where
  "readUint32 bytes offset =
     res_bind (requireRange bytes offset 4) (\<lambda>_. Inr (get32 bytes offset))"

definition readUint64 :: "byte list \<Rightarrow> nat \<Rightarrow> u64 res" where
  "readUint64 bytes offset =
     res_bind (requireRange bytes offset 8) (\<lambda>_. Inr (get64 bytes offset))"

definition appendUint16 :: "byte list \<Rightarrow> u16 \<Rightarrow> byte list" where
  "appendUint16 bytes value =
     (let offset = length bytes in put16 (bytes @ replicate 2 0) offset value)"

definition appendUint32 :: "byte list \<Rightarrow> u32 \<Rightarrow> byte list" where
  "appendUint32 bytes value =
     (let offset = length bytes in put32 (bytes @ replicate 4 0) offset value)"

definition appendUint64 :: "byte list \<Rightarrow> u64 \<Rightarrow> byte list" where
  "appendUint64 bytes value =
     (let offset = length bytes in put64 (bytes @ replicate 8 0) offset value)"

section \<open>Range checks\<close>

lemma requireRange_iff [simp]:
  "requireRange bytes offset width = Inr u \<longleftrightarrow> offset + width \<le> length bytes"
  by (auto simp: requireRange_def)

lemma requireRange_in: "offset + width \<le> length bytes \<Longrightarrow> requireRange bytes offset width = Inr ()"
  by simp

lemma readUint_in:
  "offset + 2 \<le> length bytes \<Longrightarrow> readUint16 bytes offset = Inr (get16 bytes offset)"
  "offset + 4 \<le> length bytes \<Longrightarrow> readUint32 bytes offset = Inr (get32 bytes offset)"
  "offset + 8 \<le> length bytes \<Longrightarrow> readUint64 bytes offset = Inr (get64 bytes offset)"
  by (simp_all add: readUint16_def readUint32_def readUint64_def requireRange_in)

lemma readUint_eq_Inr:
  "readUint16 bytes offset = Inr v \<longleftrightarrow> offset + 2 \<le> length bytes \<and> v = get16 bytes offset"
  "readUint32 bytes offset = Inr v32 \<longleftrightarrow> offset + 4 \<le> length bytes \<and> v32 = get32 bytes offset"
  "readUint64 bytes offset = Inr v64 \<longleftrightarrow> offset + 8 \<le> length bytes \<and> v64 = get64 bytes offset"
  by (auto simp: readUint16_def readUint32_def readUint64_def res_simps)

lemma writeUint_in:
  "offset + 2 \<le> length bytes \<Longrightarrow> writeUint16 bytes offset v = Inr (put16 bytes offset v)"
  "offset + 4 \<le> length bytes \<Longrightarrow> writeUint32 bytes offset v32 = Inr (put32 bytes offset v32)"
  "offset + 8 \<le> length bytes \<Longrightarrow> writeUint64 bytes offset v64 = Inr (put64 bytes offset v64)"
  by (simp_all add: writeUint16_def writeUint32_def writeUint64_def requireRange_in)

section \<open>Writing\<close>

definition le_bytes :: "nat \<Rightarrow> 'a::len word \<Rightarrow> byte list" where
  "le_bytes width value = map (\<lambda>index. ucast (drop_bit (index * 8) value)) [0..<width]"

lemma length_le_bytes [simp]: "length (le_bytes w v) = w"
  by (simp add: le_bytes_def)

lemma nth_le_bytes: "i < w \<Longrightarrow> le_bytes w v ! i = ucast (drop_bit (i * 8) v)"
  by (simp add: le_bytes_def)

lemma ucast_and_FF: "(ucast (x AND 0xFF) :: byte) = ucast (x :: 'a::len word)"
proof (rule bit_word_eqI)
  fix n assume n: "n < LENGTH(8)"
  have FF: "(0xFF :: 'a word) = mask 8"
    by (simp add: mask_eq_exp_minus_1)
  have "bit (0xFF :: 'a word) n \<longleftrightarrow> n < LENGTH('a)"
    using n unfolding FF bit_mask_iff by (simp add: possible_bit_word)
  then show "bit (ucast (x AND 0xFF) :: byte) n = bit (ucast x :: byte) n"
    using n by (auto simp: bit_simps dest: bit_imp_le_length)
qed

lemma put_le_Suc:
  "put_le (Suc w) bytes off v = (put_le w bytes off v)[off + w := ucast (drop_bit (w * 8) v)]"
  by (simp add: put_le_def ucast_and_FF)

lemma put_le_0 [simp]: "put_le 0 bytes off v = bytes"
  by (simp add: put_le_def)

lemma length_put_le [simp]: "length (put_le w bytes off v) = length bytes"
  by (induction w) (simp_all add: put_le_Suc)

lemma nth_put_le:
  "off + w \<le> length bytes \<Longrightarrow> i < length bytes \<Longrightarrow>
   put_le w bytes off v ! i =
     (if off \<le> i \<and> i < off + w then ucast (drop_bit ((i - off) * 8) v) else bytes ! i)"
  by (induction w) (auto simp: put_le_Suc nth_list_update)

lemma put_le_overwrite:
  "off + w \<le> length bytes \<Longrightarrow> put_le w bytes off v = overwrite bytes off (le_bytes w v)"
  by (rule nth_equalityI) (auto simp: nth_put_le nth_overwrite nth_le_bytes)

lemma appendUint_eq:
  "appendUint16 bytes v = bytes @ le_bytes 2 v"
  "appendUint32 bytes v32 = bytes @ le_bytes 4 v32"
  "appendUint64 bytes v64 = bytes @ le_bytes 8 v64"
  by (simp_all add: appendUint16_def appendUint32_def appendUint64_def Let_def
      put_le_overwrite overwrite_def)

section \<open>Reading\<close>

lemma get_le_Suc:
  "get_le (Suc w) bytes off = get_le w bytes off OR push_bit (w * 8) (ucast (bytes ! (off + w)))"
  by (simp add: get_le_def)

lemma get_le_0 [simp]: "get_le 0 bytes off = 0"
  by (simp add: get_le_def)

lemma get_le_cong:
  "(\<And>i. i < w \<Longrightarrow> xs ! (off + i) = ys ! (off' + i)) \<Longrightarrow> get_le w xs off = get_le w ys off'"
  by (induction w) (simp_all add: get_le_Suc)

lemma bit_get_le:
  "bit (get_le w bytes off :: 'a::len word) k \<longleftrightarrow>
     k < LENGTH('a) \<and> k < 8 * w \<and> bit (bytes ! (off + k div 8)) (k mod 8)"
proof (induction w)
  case 0
  then show ?case by simp
next
  case (Suc w)
  have *: "bit (bytes ! (off + w)) (k - w * 8) \<Longrightarrow> k - w * 8 < 8"
    using bit_imp_le_length [of "bytes ! (off + w)" "k - w * 8"] by simp
  show ?case
  proof (cases "w * 8 \<le> k")
    case True
    then show ?thesis
    proof (cases "k < w * 8 + 8")
      case True
      with \<open>w * 8 \<le> k\<close> have "k div 8 = w" by (simp add: div_nat_eqI)
      moreover from this have "k mod 8 = k - w * 8"
        by (simp add: minus_div_mult_eq_mod [symmetric])
      ultimately
      show ?thesis
        using True \<open>w * 8 \<le> k\<close>
        by (auto simp: get_le_Suc Suc bit_simps)
    next
      case False
      with * \<open>w * 8 \<le> k\<close> show ?thesis
        by (auto simp: get_le_Suc Suc bit_simps)
    qed
  next
    case False
    then show ?thesis by (auto simp: get_le_Suc Suc bit_simps)
  qed
qed

lemma mod_8_less [simp]: "k mod 8 < Suc (Suc (Suc (Suc (Suc (Suc (Suc (Suc 0)))))))"
  using mod_less_divisor [of 8 k] by linarith

lemma get_put_le_same:
  fixes v :: "'a::len word"
  assumes "off + w \<le> length bytes" and "8 * w = LENGTH('a)"
  shows "get_le w (put_le w bytes off v) off = v"
proof (rule bit_word_eqI)
  fix k assume k: "k < LENGTH('a)"
  with assms have "k div 8 < w" by simp
  with k assms show "bit (get_le w (put_le w bytes off v) off :: 'a word) k = bit v k"
    by (simp add: bit_get_le nth_put_le bit_simps add.commute)
qed

lemma get_put_same [simp]:
  "off + 2 \<le> length bytes \<Longrightarrow> get16 (put16 bytes off v) off = v"
  "off + 4 \<le> length bytes \<Longrightarrow> get32 (put32 bytes off v32) off = v32"
  "off + 8 \<le> length bytes \<Longrightarrow> get64 (put64 bytes off v64) off = v64"
  by (simp_all add: get_put_le_same)

lemma get_put_le_disjoint [simp]:
  "off + w \<le> length bytes \<Longrightarrow> o' + w' \<le> length bytes \<Longrightarrow> o' + w' \<le> off \<or> off + w \<le> o' \<Longrightarrow>
   get_le w' (put_le w bytes off v) o' = get_le w' bytes o'"
  by (rule get_le_cong) (auto simp: nth_put_le)

lemma get_le_overwrite_disjoint [simp]:
  "off + length ys \<le> length bytes \<Longrightarrow> o' + w' \<le> length bytes \<Longrightarrow>
   o' + w' \<le> off \<or> off + length ys \<le> o' \<Longrightarrow>
   get_le w' (overwrite bytes off ys) o' = get_le w' bytes o'"
  by (rule get_le_cong) (auto simp: nth_overwrite)

lemma subspan_put_le_disjoint [simp]:
  "off + w \<le> length bytes \<Longrightarrow> o' + n \<le> off \<or> off + w \<le> o' \<Longrightarrow>
   subspan (put_le w bytes off v) o' n = subspan bytes o' n"
  by (rule subspan_cong) (auto simp: nth_put_le)

lemma get_le_subspan:
  "i + w \<le> n \<Longrightarrow> off + n \<le> length bytes \<Longrightarrow> get_le w (subspan bytes off n) i = get_le w bytes (off + i)"
  by (rule get_le_cong) (simp add: nth_subspan add.assoc)

lemma get_le_append_left:
  "off + w \<le> length xs \<Longrightarrow> get_le w (xs @ ys) off = get_le w xs off"
  by (rule get_le_cong) (simp add: nth_append)

lemma get_le_append_right:
  "length xs \<le> off \<Longrightarrow> get_le w (xs @ ys) off = get_le w ys (off - length xs)"
  by (rule get_le_cong) (simp add: nth_append)

lemma get_le_skip:
  "length pre = cursor \<Longrightarrow> get_le w (pre @ xs) (cursor + i) = get_le w xs i"
  "length pre = cursor \<Longrightarrow> get_le w (pre @ xs) cursor = get_le w xs 0"
  "length pre \<le> i \<Longrightarrow> get_le w (pre @ xs) i = get_le w xs (i - length pre)"
  by (simp_all add: get_le_append_right)

lemma get_le_Cons: "0 < i \<Longrightarrow> get_le w (x # xs) i = get_le w xs (i - 1)"
  by (rule get_le_cong) (simp add: nth_Cons')

lemma get_le_le_bytes:
  "8 * w = LENGTH('a) \<Longrightarrow> get_le w (le_bytes w v @ ys) 0 = (v :: 'a::len word)"
  using get_put_le_same [of 0 w "replicate w 0 @ ys" v]
  by (simp add: put_le_overwrite overwrite_def)

lemma get_le_bytes [simp]:
  "get16 (le_bytes 2 v @ ys) 0 = v"
  "get32 (le_bytes 4 v32 @ ys) 0 = v32"
  "get64 (le_bytes 8 v64 @ ys) 0 = v64"
  by (simp_all add: get_le_le_bytes)

text \<open>A field determines its bytes: writing back the value read changes nothing.\<close>

lemma le_bytes_get_le:
  assumes "off + w \<le> length bytes" and "8 * w = LENGTH('a)"
  shows "le_bytes w (get_le w bytes off :: 'a::len word) = subspan bytes off w"
proof (rule nth_equalityI)
  fix i assume "i < length (le_bytes w (get_le w bytes off :: 'a word))"
  then have i: "i < w" by simp
  have "ucast (drop_bit (i * 8) (get_le w bytes off :: 'a word)) = bytes ! (off + i)"
  proof (rule bit_word_eqI)
    fix n assume n: "n < LENGTH(8)"
    with i assms have "i * 8 + n < 8 * w" and "i * 8 + n < LENGTH('a)"
      by simp_all
    moreover have "(i * 8 + n) div 8 = i" and "(i * 8 + n) mod 8 = n"
      using n by simp_all
    ultimately show "bit (ucast (drop_bit (i * 8) (get_le w bytes off :: 'a word)) :: byte) n
        = bit (bytes ! (off + i)) n"
      using n by (simp add: bit_simps bit_get_le)
  qed
  with i assms show "le_bytes w (get_le w bytes off :: 'a word) ! i = subspan bytes off w ! i"
    by (simp add: nth_le_bytes nth_subspan)
qed (use assms in simp)

lemma put_get_le_id:
  "off + w \<le> length bytes \<Longrightarrow> 8 * w = LENGTH('a) \<Longrightarrow>
   put_le w bytes off (get_le w bytes off :: 'a::len word) = bytes"
  by (simp add: put_le_overwrite le_bytes_get_le overwrite_id)

end
