(* ===== verification/Page_Formats.thy ===== *)
theory Page_Formats
  imports Byte_Codec
begin

text \<open>
  The versioned page formats shared by every storage component:

  \<^item> \<open>include/minidb/database_format.hpp\<close>, \<open>src/database_format.cpp\<close>: the metadata page
    (page 0), its header record, \<open>serializeDatabaseHeader\<close> and \<open>deserializeDatabaseHeader\<close>;
  \<^item> \<open>include/minidb/record_id.hpp\<close>: record identifiers;
  \<^item> \<open>src/page_lsn.cpp\<close>: where each page type keeps its persistent PageLSN, and reading,
    writing and clearing it.

  A page is a \<open>byte list\<close>; the operations on a span of static extent are used on lists of
  length \<open>PAGE_SIZE\<close>. The lemmas show that the header codec round-trips in both directions,
  that a page's PageLSN can be read back after it is written, and that writing it changes
  nothing else of the page.
\<close>

section \<open>Identifiers\<close>

type_synonym page = "byte list"
type_synonym page_id = u32
type_synonym lsn = u64

abbreviation INVALID_PAGE_ID :: page_id where "INVALID_PAGE_ID \<equiv> 0xFFFFFFFF"
abbreviation METADATA_PAGE_ID :: page_id where "METADATA_PAGE_ID \<equiv> 0"
abbreviation INVALID_SLOT_ID :: nat where "INVALID_SLOT_ID \<equiv> 0xFFFF"
abbreviation INVALID_LSN :: lsn where "INVALID_LSN \<equiv> 0xFFFFFFFFFFFFFFFF"
abbreviation PAGE_SIZE :: nat where "PAGE_SIZE \<equiv> 4096"

definition isValidLsn :: "lsn \<Rightarrow> bool" where
  "isValidLsn l \<longleftrightarrow> l \<noteq> INVALID_LSN"

record record_id =
  pageId :: page_id
  slotId :: u16

definition recordIdIsValid :: "record_id \<Rightarrow> bool" where
  "recordIdIsValid r \<longleftrightarrow>
     pageId r \<noteq> INVALID_PAGE_ID \<and> pageId r \<noteq> METADATA_PAGE_ID \<and> slotId r \<noteq> 0xFFFF"

section \<open>The database header\<close>

record database_header =
  formatVersion :: u32
  pageSizeField :: u32
  headerSizeField :: u32
  catalogRootPageId :: page_id
  freeListRootPageId :: page_id

abbreviation LEGACY_VERSION :: u32 where "LEGACY_VERSION \<equiv> 1"
abbreviation CURRENT_VERSION :: u32 where "CURRENT_VERSION \<equiv> 2"
abbreviation DB_MAGIC :: "byte list" where "DB_MAGIC \<equiv> magic_bytes ''MINIDB++''"
abbreviation DB_FORMAT_VERSION_OFFSET :: nat where "DB_FORMAT_VERSION_OFFSET \<equiv> 8"
abbreviation DB_PAGE_SIZE_OFFSET :: nat where "DB_PAGE_SIZE_OFFSET \<equiv> 12"
abbreviation DB_HEADER_SIZE_OFFSET :: nat where "DB_HEADER_SIZE_OFFSET \<equiv> 16"
abbreviation DB_CATALOG_ROOT_OFFSET :: nat where "DB_CATALOG_ROOT_OFFSET \<equiv> 20"
abbreviation DB_FREE_LIST_ROOT_OFFSET :: nat where "DB_FREE_LIST_ROOT_OFFSET \<equiv> 24"
abbreviation DB_PAGE_LSN_OFFSET :: nat where "DB_PAGE_LSN_OFFSET \<equiv> 28"
abbreviation DB_HEADER_SIZE :: u32 where "DB_HEADER_SIZE \<equiv> 64"

definition makeCurrentDatabaseHeader :: database_header where
  "makeCurrentDatabaseHeader =
     \<lparr>formatVersion = CURRENT_VERSION, pageSizeField = 4096, headerSizeField = DB_HEADER_SIZE,
      catalogRootPageId = INVALID_PAGE_ID, freeListRootPageId = INVALID_PAGE_ID\<rparr>"

definition serializeDatabaseHeader :: "database_header \<Rightarrow> page \<Rightarrow> page res" where
  "serializeDatabaseHeader h metadataPage =
     (if length metadataPage \<noteq> PAGE_SIZE
      then Inl (InvalidArgument ''Database metadata page has an invalid size.'')
      else Inr
        (let p0 = replicate PAGE_SIZE 0;
             p1 = overwrite p0 0 DB_MAGIC;
             p2 = put32 p1 DB_FORMAT_VERSION_OFFSET (formatVersion h);
             p3 = put32 p2 DB_PAGE_SIZE_OFFSET (pageSizeField h);
             p4 = put32 p3 DB_HEADER_SIZE_OFFSET (headerSizeField h);
             p5 = put32 p4 DB_CATALOG_ROOT_OFFSET (catalogRootPageId h)
         in put32 p5 DB_FREE_LIST_ROOT_OFFSET (freeListRootPageId h)))"

definition deserializeDatabaseHeader :: "page \<Rightarrow> database_header res" where
  "deserializeDatabaseHeader p =
     (if length p \<noteq> PAGE_SIZE
      then Inl (RuntimeError ''Database metadata page has an invalid size.'')
      else if subspan p 0 8 \<noteq> DB_MAGIC
      then Inl (RuntimeError ''Invalid database magic: file is not a MiniDB++ database.'')
      else
        let h = \<lparr>formatVersion = get32 p DB_FORMAT_VERSION_OFFSET,
                 pageSizeField = get32 p DB_PAGE_SIZE_OFFSET,
                 headerSizeField = get32 p DB_HEADER_SIZE_OFFSET,
                 catalogRootPageId = get32 p DB_CATALOG_ROOT_OFFSET,
                 freeListRootPageId = get32 p DB_FREE_LIST_ROOT_OFFSET\<rparr>
        in if formatVersion h \<noteq> LEGACY_VERSION \<and> formatVersion h \<noteq> CURRENT_VERSION
        then Inl (RuntimeError (''Unsupported database format version '' @ to_string (unat (formatVersion h))
               @ ''; supported versions are '' @ to_string 1 @ '' and '' @ to_string 2 @ ''.''))
        else if pageSizeField h \<noteq> 4096
        then Inl (RuntimeError (''Database page size '' @ to_string (unat (pageSizeField h))
               @ '' does not match the compiled page size '' @ to_string PAGE_SIZE @ ''.''))
        else if headerSizeField h \<noteq> DB_HEADER_SIZE
        then Inl (RuntimeError (''Database header size '' @ to_string (unat (headerSizeField h))
               @ '' does not match the supported header size '' @ to_string 64 @ ''.''))
        else let encodedPageLsn = get64 p DB_PAGE_LSN_OFFSET
        in if (formatVersion h = LEGACY_VERSION \<and> encodedPageLsn \<noteq> 0) \<or> encodedPageLsn = INVALID_LSN
        then Inl (RuntimeError ''Database metadata page has an invalid PageLSN encoding.'')
        else if \<not> all_zero (drop (DB_PAGE_LSN_OFFSET + 8) p)
        then Inl (RuntimeError ''Database metadata page reserved bytes are not zero.'')
        else Inr h)"

text \<open>The headers the format admits.\<close>

definition header_ok :: "database_header \<Rightarrow> bool" where
  "header_ok h \<longleftrightarrow> (formatVersion h = LEGACY_VERSION \<or> formatVersion h = CURRENT_VERSION) \<and>
     pageSizeField h = 4096 \<and> headerSizeField h = DB_HEADER_SIZE"

section \<open>Persistent PageLSNs\<close>

datatype persistent_page_type =
  DatabaseMetadata | Free | Slotted | TupleHeapMetadata | IndexMetadata | BPlusLeaf | BPlusInternal
  | CatalogMetadata

type_synonym persistent_page_lsn_slot = "persistent_page_type \<times> nat"

abbreviation FREE_MAGIC :: "byte list" where "FREE_MAGIC \<equiv> magic_bytes ''MDBFREEP''"
abbreviation SLOTTED_MAGIC :: "byte list" where "SLOTTED_MAGIC \<equiv> magic_bytes ''MDBSLTPG''"
abbreviation HEAP_META_MAGIC :: "byte list" where "HEAP_META_MAGIC \<equiv> magic_bytes ''MDBHPMET''"
abbreviation INDEX_META_MAGIC :: "byte list" where "INDEX_META_MAGIC \<equiv> magic_bytes ''MDBIDXMD''"
abbreviation LEAF_MAGIC :: "byte list" where "LEAF_MAGIC \<equiv> magic_bytes ''MDBIDXLF''"
abbreviation INTERNAL_MAGIC :: "byte list" where "INTERNAL_MAGIC \<equiv> magic_bytes ''MDBIDXIN''"
abbreviation CATALOG_MAGIC :: "byte list" where "CATALOG_MAGIC \<equiv> magic_bytes ''MDBCAMET''"

definition hasMagic :: "page \<Rightarrow> byte list \<Rightarrow> bool" where
  "hasMagic p magic \<longleftrightarrow> subspan p 0 (length magic) = magic"

definition requireUint32 :: "page \<Rightarrow> nat \<Rightarrow> u32 \<Rightarrow> string \<Rightarrow> unit res" where
  "requireUint32 p offset expected message =
     throw_if (get32 p offset \<noteq> expected) (RuntimeError message)"

definition encodePersistentPageLsn :: "lsn \<Rightarrow> u64 res" where
  "encodePersistentPageLsn l =
     (if \<not> isValidLsn l then Inr 0
      else if l = 0
      then Inl (InvalidArgument ''LSN zero is reserved by the persistent PageLSN encoding'')
      else Inr l)"

definition decodePersistentPageLsn :: "u64 \<Rightarrow> lsn res" where
  "decodePersistentPageLsn encoded =
     (if encoded = 0 then Inr INVALID_LSN
      else if encoded = INVALID_LSN
      then Inl (RuntimeError ''Persistent PageLSN contains the in-memory invalid sentinel'')
      else Inr encoded)"

text \<open>
  \<open>layoutSlot\<close> is the branch shared by the page types whose layout version is at offset 8 and
  whose header size is at offset 12.
\<close>

definition layoutSlot ::
  "page \<Rightarrow> u32 \<Rightarrow> string \<Rightarrow> u32 \<Rightarrow> string \<Rightarrow> persistent_page_type \<Rightarrow> nat
   \<Rightarrow> persistent_page_lsn_slot option res" where
  "layoutSlot p version versionMessage headerSize headerMessage type lsnOffset =
     res_bind (requireUint32 p 8 version versionMessage) (\<lambda>_.
     res_bind (requireUint32 p 12 headerSize headerMessage) (\<lambda>_.
     Inr (Some (type, lsnOffset))))"

definition persistentPageLsnSlot :: "page \<Rightarrow> persistent_page_lsn_slot option res" where
  "persistentPageLsnSlot p =
     (if hasMagic p DB_MAGIC then
        res_bind (requireUint32 p DB_HEADER_SIZE_OFFSET DB_HEADER_SIZE
          ''Database metadata page has an invalid header size'') (\<lambda>_.
        let version = get32 p DB_FORMAT_VERSION_OFFSET in
        if version \<noteq> LEGACY_VERSION \<and> version \<noteq> CURRENT_VERSION
        then Inl (RuntimeError ''Database metadata page has an unsupported format version'')
        else if version = LEGACY_VERSION then Inr None
        else Inr (Some (DatabaseMetadata, DB_PAGE_LSN_OFFSET)))
      else if hasMagic p FREE_MAGIC then
        layoutSlot p 1 ''Free page has an unsupported layout version''
          32 ''Free page has an invalid header size'' Free 20
      else if hasMagic p SLOTTED_MAGIC then
        layoutSlot p 1 ''Slotted page has an unsupported layout version''
          48 ''Slotted page has an invalid header size'' Slotted 36
      else if hasMagic p HEAP_META_MAGIC then
        layoutSlot p 1 ''Tuple heap metadata has an unsupported layout version''
          64 ''Tuple heap metadata has an invalid header size'' TupleHeapMetadata 32
      else if hasMagic p INDEX_META_MAGIC then
        layoutSlot p 1 ''Index metadata has an unsupported layout version''
          64 ''Index metadata has an invalid header size'' IndexMetadata 36
      else if hasMagic p LEAF_MAGIC then
        (let version = get32 p 8 in
         if version = 1 then
           res_bind (requireUint32 p 12 32 ''Legacy B+ leaf has an invalid header size'') (\<lambda>_. Inr None)
         else layoutSlot p 2 ''B+ leaf has an unsupported layout version''
           36 ''B+ leaf has an invalid header size'' BPlusLeaf 28)
      else if hasMagic p INTERNAL_MAGIC then
        layoutSlot p 1 ''B+ internal page has an unsupported layout version''
          32 ''B+ internal page has an invalid header size'' BPlusInternal 24
      else if hasMagic p CATALOG_MAGIC then
        layoutSlot p 1 ''Catalog metadata has an unsupported layout version''
          64 ''Catalog metadata has an invalid header size'' CatalogMetadata 40
      else Inr None)"

definition supportsPersistentPageLsn :: "page \<Rightarrow> bool res" where
  "supportsPersistentPageLsn p =
     res_bind (persistentPageLsnSlot p) (\<lambda>slot. Inr (slot \<noteq> None))"

definition readPersistentPageLsn :: "page \<Rightarrow> lsn res" where
  "readPersistentPageLsn p =
     res_bind (persistentPageLsnSlot p) (\<lambda>slot.
       case slot of
         None \<Rightarrow> Inr INVALID_LSN
       | Some (_, offset) \<Rightarrow> decodePersistentPageLsn (get64 p offset))"

definition writePersistentPageLsn :: "page \<Rightarrow> lsn \<Rightarrow> page res" where
  "writePersistentPageLsn p l =
     res_bind (persistentPageLsnSlot p) (\<lambda>slot.
       case slot of
         None \<Rightarrow> Inl (InvalidArgument ''Page type does not support persistent PageLSN metadata'')
       | Some (_, offset) \<Rightarrow>
           res_bind (encodePersistentPageLsn l) (\<lambda>encoded. Inr (put64 p offset encoded)))"

definition clearPersistentPageLsn :: "page \<Rightarrow> page res" where
  "clearPersistentPageLsn p =
     res_bind (persistentPageLsnSlot p) (\<lambda>slot.
       case slot of
         None \<Rightarrow> Inr p
       | Some (_, offset) \<Rightarrow> Inr (put64 p offset 0))"

section \<open>The header codec\<close>

lemma serialize_fields:
  assumes "serializeDatabaseHeader h m = Inr p"
  shows "length p = PAGE_SIZE" and "subspan p 0 8 = DB_MAGIC"
    and "get32 p DB_FORMAT_VERSION_OFFSET = formatVersion h"
    and "get32 p DB_PAGE_SIZE_OFFSET = pageSizeField h"
    and "get32 p DB_HEADER_SIZE_OFFSET = headerSizeField h"
    and "get32 p DB_CATALOG_ROOT_OFFSET = catalogRootPageId h"
    and "get32 p DB_FREE_LIST_ROOT_OFFSET = freeListRootPageId h"
    and "28 \<le> i \<Longrightarrow> i < PAGE_SIZE \<Longrightarrow> p ! i = 0"
proof -
  have p: "p = put32 (put32 (put32 (put32 (put32 (overwrite (replicate PAGE_SIZE 0) 0 DB_MAGIC)
      8 (formatVersion h)) 12 (pageSizeField h)) 16 (headerSizeField h))
      20 (catalogRootPageId h)) 24 (freeListRootPageId h)"
    using assms by (simp add: serializeDatabaseHeader_def Let_def split: if_splits)
  show "length p = PAGE_SIZE" by (simp add: p)
  show "subspan p 0 8 = DB_MAGIC" by (simp add: p subspan_overwrite_same)
  show "get32 p 8 = formatVersion h" by (simp add: p)
  show "get32 p 12 = pageSizeField h" by (simp add: p)
  show "get32 p 16 = headerSizeField h" by (simp add: p)
  show "get32 p 20 = catalogRootPageId h" by (simp add: p)
  show "get32 p 24 = freeListRootPageId h" by (simp add: p)
  show "p ! i = 0" if "28 \<le> i" "i < PAGE_SIZE"
    using that by (simp add: p nth_put_le nth_overwrite)
qed

lemma get_le_zeros:
  assumes "\<And>i. i < w \<Longrightarrow> bs ! (off + i) = 0"
  shows "get_le w bs off = 0"
  by (rule bit_word_eqI) (simp add: bit_get_le assms)

lemma deserialize_serialize:
  assumes "header_ok h" and "serializeDatabaseHeader h m = Inr p"
  shows "deserializeDatabaseHeader p = Inr h"
proof -
  note f = serialize_fields [OF assms(2)]
  have "get64 p 28 = 0"
    by (rule get_le_zeros) (simp add: f(8))
  moreover have "all_zero (drop 36 p)"
    using f(1) by (simp add: all_zero_nth f(8))
  ultimately show ?thesis
    using assms(1) f(1-7) by (simp add: deserializeDatabaseHeader_def header_ok_def Let_def)
qed

lemma deserialize_ok:
  assumes "deserializeDatabaseHeader p = Inr h"
  shows "header_ok h" and "length p = PAGE_SIZE"
  using assms by (auto simp: deserializeDatabaseHeader_def header_ok_def Let_def split: if_splits)

text \<open>
  A page that deserializes is the serialization of its header with its PageLSN field written:
  nothing else can be stored in a metadata page.
\<close>

lemma subspan_eq_of_get_le:
  assumes "get_le w p off = (get_le w q off :: 'a::len word)" and "8 * w = LENGTH('a)"
    and "off + w \<le> length p" and "off + w \<le> length q"
  shows "subspan p off w = subspan q off w"
  using assms le_bytes_get_le [of off w p, where ?'a = 'a] le_bytes_get_le [of off w q, where ?'a = 'a]
  by simp

lemma metadata_page_split:
  assumes "length r = PAGE_SIZE"
  shows "r = subspan r 0 8 @ subspan r 8 4 @ subspan r 12 4 @ subspan r 16 4 @ subspan r 20 4
      @ subspan r 24 4 @ subspan r 28 8 @ drop 36 r"
proof -
  have "subspan r 0 (8 + (4 + (4 + (4 + (4 + (4 + 8)))))) @ drop 36 r = r"
    by (simp add: subspan_def)
  then show ?thesis
    unfolding subspan_add by simp
qed

lemma page_eq_by_ranges:
  assumes len: "length p = PAGE_SIZE" "length q = PAGE_SIZE"
    and "subspan p 0 8 = subspan q 0 8"
    and f: "get32 p 8 = get32 q 8" "get32 p 12 = get32 q 12" "get32 p 16 = get32 q 16"
      "get32 p 20 = get32 q 20" "get32 p 24 = get32 q 24" "get64 p 28 = get64 q 28"
    and "drop 36 p = drop 36 q"
  shows "p = q"
proof -
  note f [THEN subspan_eq_of_get_le]
  then have "subspan p 8 4 = subspan q 8 4" "subspan p 12 4 = subspan q 12 4"
    "subspan p 16 4 = subspan q 16 4" "subspan p 20 4 = subspan q 20 4"
    "subspan p 24 4 = subspan q 24 4" "subspan p 28 8 = subspan q 28 8"
    using len by simp_all
  then show ?thesis
    using metadata_page_split [OF len(1)] metadata_page_split [OF len(2)] assms(3,10) by argo
qed

lemma deserialize_canonical:
  assumes "deserializeDatabaseHeader p = Inr h"
  shows "\<exists>q. serializeDatabaseHeader h p = Inr q \<and> p = put64 q DB_PAGE_LSN_OFFSET (get64 p DB_PAGE_LSN_OFFSET)"
proof -
  from assms have len: "length p = PAGE_SIZE" by (rule deserialize_ok)
  then obtain q where q: "serializeDatabaseHeader h p = Inr q"
    by (simp add: serializeDatabaseHeader_def)
  note f = serialize_fields [OF q]
  have zero: "drop 36 p = drop 36 (put64 q 28 (get64 p 28))"
  proof (rule nth_equalityI)
    fix i assume "i < length (drop 36 p)"
    then have i: "36 + i < 4096" using len by simp
    have "all_zero (drop 36 p)"
      using assms by (auto simp: deserializeDatabaseHeader_def Let_def split: if_splits)
    with i len f(1) show "drop 36 p ! i = drop 36 (put64 q 28 (get64 p 28)) ! i"
      by (simp add: all_zero_nth nth_put_le f(8))
  qed (simp add: len f(1))
  have "p = put64 q 28 (get64 p 28)"
  proof (rule page_eq_by_ranges)
    show "drop 36 p = drop 36 (put64 q 28 (get64 p 28))" by (rule zero)
  qed (use assms len f(1-7) in
      \<open>auto simp: deserializeDatabaseHeader_def Let_def split: if_splits\<close>)
  with q show ?thesis by blast
qed

section \<open>PageLSN laws\<close>

lemma hasMagic_8: "length s = 8 \<Longrightarrow> hasMagic p (magic_bytes s) \<longleftrightarrow> subspan p 0 8 = magic_bytes s"
  by (simp add: hasMagic_def)

lemma layoutSlot_Inr:
  "layoutSlot p v vm hs hm t off = Inr s \<longleftrightarrow> get32 p 8 = v \<and> get32 p 12 = hs \<and> s = Some (t, off)"
  by (auto simp: layoutSlot_def requireUint32_def)

text \<open>
  The slot is decided by the first 20 bytes of a page and always lies above them, inside the
  page: this is what makes writing it harmless.
\<close>

lemma persistentPageLsnSlot_bounds:
  assumes "persistentPageLsnSlot p = Inr (Some (t, off))"
  shows "20 \<le> off" and "off + 8 \<le> 64"
  using assms
  by (auto simp: persistentPageLsnSlot_def layoutSlot_Inr requireUint32_def Let_def split: if_splits)

lemma persistentPageLsnSlot_cong:
  assumes "subspan p 0 8 = subspan q 0 8" "get32 p 8 = get32 q 8"
    "get32 p 12 = get32 q 12" "get32 p 16 = get32 q 16"
  shows "persistentPageLsnSlot p = persistentPageLsnSlot q"
proof -
  have "hasMagic p (magic_bytes s) = hasMagic q (magic_bytes s)" if "length s = 8" for s
    using that assms(1) by (simp add: hasMagic_def)
  then have m: "hasMagic p DB_MAGIC = hasMagic q DB_MAGIC" "hasMagic p FREE_MAGIC = hasMagic q FREE_MAGIC"
    "hasMagic p SLOTTED_MAGIC = hasMagic q SLOTTED_MAGIC"
    "hasMagic p HEAP_META_MAGIC = hasMagic q HEAP_META_MAGIC"
    "hasMagic p INDEX_META_MAGIC = hasMagic q INDEX_META_MAGIC"
    "hasMagic p LEAF_MAGIC = hasMagic q LEAF_MAGIC"
    "hasMagic p INTERNAL_MAGIC = hasMagic q INTERNAL_MAGIC"
    "hasMagic p CATALOG_MAGIC = hasMagic q CATALOG_MAGIC"
    by simp_all
  show ?thesis
    unfolding persistentPageLsnSlot_def layoutSlot_def requireUint32_def m assms(2-4) ..
qed

lemma persistentPageLsnSlot_put:
  assumes "length p = PAGE_SIZE" "20 \<le> off" "off + w \<le> PAGE_SIZE"
  shows "persistentPageLsnSlot (put_le w p off v) = persistentPageLsnSlot p"
  by (rule persistentPageLsnSlot_cong) (use assms in simp_all)

lemma read_write_PageLsn:
  assumes len: "length p = PAGE_SIZE" and w: "writePersistentPageLsn p l = Inr q"
  shows "readPersistentPageLsn q = Inr l"
    and "length q = PAGE_SIZE"
    and "persistentPageLsnSlot q = persistentPageLsnSlot p"
    and "\<exists>t off. persistentPageLsnSlot p = Inr (Some (t, off)) \<and>
          (\<forall>i<PAGE_SIZE. \<not> (off \<le> i \<and> i < off + 8) \<longrightarrow> q ! i = p ! i)"
proof -
  from w obtain t off e where slot: "persistentPageLsnSlot p = Inr (Some (t, off))"
    and e: "encodePersistentPageLsn l = Inr e" and q: "q = put64 p off e"
    by (auto simp: writePersistentPageLsn_def res_simps split: option.splits)
  note b = persistentPageLsnSlot_bounds [OF slot]
  show slot': "persistentPageLsnSlot q = persistentPageLsnSlot p"
    unfolding q by (rule persistentPageLsnSlot_put) (use len b in simp_all)
  show "length q = PAGE_SIZE" by (simp add: q len)
  have "decodePersistentPageLsn e = Inr l"
    using e by (auto simp: encodePersistentPageLsn_def decodePersistentPageLsn_def isValidLsn_def
        split: if_splits)
  moreover have "get64 q off = e"
    using b len by (simp add: q)
  ultimately show "readPersistentPageLsn q = Inr l"
    by (simp add: readPersistentPageLsn_def slot' slot)
  show "\<exists>t off. persistentPageLsnSlot p = Inr (Some (t, off)) \<and>
          (\<forall>i<PAGE_SIZE. \<not> (off \<le> i \<and> i < off + 8) \<longrightarrow> q ! i = p ! i)"
    using slot b len by (auto simp: q nth_put_le)
qed

lemma clear_PageLsn:
  assumes len: "length p = PAGE_SIZE" and c: "clearPersistentPageLsn p = Inr q"
  shows "readPersistentPageLsn q = Inr INVALID_LSN"
proof (cases "persistentPageLsnSlot p")
  case (Inr s)
  show ?thesis
  proof (cases s)
    case None
    with Inr c show ?thesis
      by (simp add: clearPersistentPageLsn_def readPersistentPageLsn_def)
  next
    case (Some a)
    then obtain t off where s: "s = Some (t, off)" by (cases a) simp
    with Inr have slot: "persistentPageLsnSlot p = Inr (Some (t, off))" by simp
    note b = persistentPageLsnSlot_bounds [OF slot]
    from slot c have q: "q = put64 p off 0" by (simp add: clearPersistentPageLsn_def)
    have "persistentPageLsnSlot q = persistentPageLsnSlot p"
      unfolding q by (rule persistentPageLsnSlot_put) (use len b in simp_all)
    moreover have "get64 q off = 0" using b len by (simp add: q)
    ultimately show ?thesis
      by (simp add: readPersistentPageLsn_def slot decodePersistentPageLsn_def)
  qed
qed (use c in \<open>simp add: clearPersistentPageLsn_def\<close>)

section \<open>Properties\<close>

text \<open>
  every header the format admits survives a write to page 0 and a read back, whatever the
  page buffer held before.
\<close>

theorem header_roundtrip:
  assumes "header_ok h" and "length m = PAGE_SIZE"
  shows "\<exists>p. serializeDatabaseHeader h m = Inr p \<and> deserializeDatabaseHeader p = Inr h"
proof -
  from assms(2) obtain p where p: "serializeDatabaseHeader h m = Inr p"
    by (simp add: serializeDatabaseHeader_def)
  with deserialize_serialize [OF assms(1) p] show ?thesis by blast
qed

theorem header_roundtrip_witness:
  "\<exists>p. serializeDatabaseHeader makeCurrentDatabaseHeader (replicate PAGE_SIZE 7) = Inr p
     \<and> deserializeDatabaseHeader p = Inr makeCurrentDatabaseHeader"
  by (rule header_roundtrip) (simp_all add: header_ok_def makeCurrentDatabaseHeader_def)

text \<open>
  C19: a metadata page that \<open>deserializeDatabaseHeader\<close> accepts stores nothing but its header and
  its PageLSN: it is the serialization of the header it yields with the PageLSN field written.
\<close>

theorem header_canonical:
  assumes "deserializeDatabaseHeader p = Inr h"
  shows "header_ok h \<and> (\<exists>q. serializeDatabaseHeader h p = Inr q \<and>
    p = put64 q DB_PAGE_LSN_OFFSET (get64 p DB_PAGE_LSN_OFFSET))"
  using deserialize_ok [OF assms] deserialize_canonical [OF assms] by simp

theorem header_canonical_witness:
  "\<exists>p. deserializeDatabaseHeader p = Inr makeCurrentDatabaseHeader \<and>
     header_ok makeCurrentDatabaseHeader \<and>
     (\<exists>q. serializeDatabaseHeader makeCurrentDatabaseHeader p = Inr q \<and>
       p = put64 q DB_PAGE_LSN_OFFSET (get64 p DB_PAGE_LSN_OFFSET))"
proof -
  obtain p where p: "serializeDatabaseHeader makeCurrentDatabaseHeader (replicate PAGE_SIZE 0) = Inr p"
    by (simp add: serializeDatabaseHeader_def)
  have "deserializeDatabaseHeader p = Inr makeCurrentDatabaseHeader"
    by (rule deserialize_serialize [OF _ p]) (simp add: header_ok_def makeCurrentDatabaseHeader_def)
  with header_canonical [OF this] show ?thesis by blast
qed

text \<open>
  writing a PageLSN to a page of any recognised layout is read back exactly, keeps the page
  recognised as the same layout, and changes no byte outside the eight bytes of its LSN slot.
\<close>

theorem page_lsn_read_after_write:
  assumes "length p = PAGE_SIZE" and "writePersistentPageLsn p l = Inr q"
  shows "readPersistentPageLsn q = Inr l \<and> persistentPageLsnSlot q = persistentPageLsnSlot p \<and>
    (\<exists>t off. persistentPageLsnSlot p = Inr (Some (t, off)) \<and>
      (\<forall>i<PAGE_SIZE. \<not> (off \<le> i \<and> i < off + 8) \<longrightarrow> q ! i = p ! i))"
  using read_write_PageLsn [OF assms] by simp

theorem page_lsn_read_after_write_witness:
  "\<exists>p q. writePersistentPageLsn p 5 = Inr q \<and> readPersistentPageLsn q = Inr 5 \<and>
     persistentPageLsnSlot q = persistentPageLsnSlot p"
proof -
  obtain p where p: "serializeDatabaseHeader makeCurrentDatabaseHeader (replicate PAGE_SIZE 0) = Inr p"
    by (simp add: serializeDatabaseHeader_def)
  note f = serialize_fields [OF p]
  have m: "hasMagic p DB_MAGIC" by (simp add: hasMagic_8 f)
  have "persistentPageLsnSlot p = Inr (Some (DatabaseMetadata, 28))"
    unfolding persistentPageLsnSlot_def if_P [OF m] requireUint32_def
    by (simp add: f makeCurrentDatabaseHeader_def)
  then obtain q where q: "writePersistentPageLsn p 5 = Inr q"
    by (simp add: writePersistentPageLsn_def encodePersistentPageLsn_def isValidLsn_def)
  from page_lsn_read_after_write [OF f(1) q] q show ?thesis by blast
qed

end
