(* ===== verification/Slotted_Page.thy ===== *)
theory Slotted_Page
  imports Page_Formats "HOL-Library.Multiset"
begin

text \<open>
  Slotted data pages (\<open>include/minidb/slotted_page.hpp\<close>, \<open>src/slotted_page.cpp\<close>), at byte level.

  A page holds a 48-byte header, tuple payloads packed upwards from byte 48 to the lower
  boundary, zero-filled free space up to the upper boundary, and an 8-byte slot entry per slot
  growing downwards from the end of the page. A view of a page is constructed only when
  \<open>validate\<close> accepts it (\<open>ConstSlottedPageView\<close>'s constructor), and the operations then mutate
  the bytes in place; here they return the new bytes. An operation that throws does so before
  it writes, so an \<open>Inl\<close> result is also "page unchanged".

  The abstract specification is the directory \<open>slotsOf\<close>: a list with the tuple of every live
  slot and \<open>None\<close> for every free one. The lemmas show that every operation keeps \<open>validate\<close>
  true, implements the corresponding list operation on the directory (\<open>dirInsert\<close>, list
  update), fails exactly when the directory has no room, and that slot identifiers are stable
  under compaction.
\<close>

section \<open>Layout\<close>

abbreviation SP_LAYOUT_VERSION_OFFSET :: nat where "SP_LAYOUT_VERSION_OFFSET \<equiv> 8"
abbreviation SP_HEADER_SIZE_OFFSET :: nat where "SP_HEADER_SIZE_OFFSET \<equiv> 12"
abbreviation SLOT_COUNT_OFFSET :: nat where "SLOT_COUNT_OFFSET \<equiv> 16"
abbreviation LIVE_COUNT_OFFSET :: nat where "LIVE_COUNT_OFFSET \<equiv> 18"
abbreviation LOWER_BOUNDARY_OFFSET :: nat where "LOWER_BOUNDARY_OFFSET \<equiv> 20"
abbreviation UPPER_BOUNDARY_OFFSET :: nat where "UPPER_BOUNDARY_OFFSET \<equiv> 22"
abbreviation NEXT_PAGE_ID_OFFSET :: nat where "NEXT_PAGE_ID_OFFSET \<equiv> 24"
abbreviation PREVIOUS_PAGE_ID_OFFSET :: nat where "PREVIOUS_PAGE_ID_OFFSET \<equiv> 28"
abbreviation HEAP_METADATA_PAGE_ID_OFFSET :: nat where "HEAP_METADATA_PAGE_ID_OFFSET \<equiv> 32"
abbreviation SP_PAGE_LSN_OFFSET :: nat where "SP_PAGE_LSN_OFFSET \<equiv> 36"
abbreviation HEADER_SIZE :: nat where "HEADER_SIZE \<equiv> 48"
abbreviation SLOT_SIZE :: nat where "SLOT_SIZE \<equiv> 8"
abbreviation SLOT_FREE :: u16 where "SLOT_FREE \<equiv> 0"
abbreviation SLOT_LIVE :: u16 where "SLOT_LIVE \<equiv> 1"
abbreviation MAX_SLOT_COUNT :: nat where "MAX_SLOT_COUNT \<equiv> 506"
abbreviation MAX_TUPLE_SIZE :: nat where "MAX_TUPLE_SIZE \<equiv> 4040"

definition slotOffset :: "nat \<Rightarrow> nat" where
  "slotOffset i = PAGE_SIZE - (i + 1) * SLOT_SIZE"

record slot_entry =
  tupleOffset :: u16
  tupleLength :: u16
  flags :: u16
  reserved :: u16

section \<open>Header access\<close>

definition requireExistingDataPage :: "page_id \<Rightarrow> page_id \<Rightarrow> page_id \<Rightarrow> string \<Rightarrow> unit res" where
  "requireExistingDataPage pageCount pid excluded description =
     throw_if (pid = METADATA_PAGE_ID \<or> pid = INVALID_PAGE_ID \<or> pid = excluded \<or> pid \<ge> pageCount)
       (StorageError InvalidPage (description @ '' is not a legal data-page reference.''))"

definition heapMetadataPageId :: "page \<Rightarrow> page_id" where
  "heapMetadataPageId p = get32 p HEAP_METADATA_PAGE_ID_OFFSET"

definition nextPageId :: "page \<Rightarrow> page_id" where
  "nextPageId p = get32 p NEXT_PAGE_ID_OFFSET"

definition previousPageId :: "page \<Rightarrow> page_id" where
  "previousPageId p = get32 p PREVIOUS_PAGE_ID_OFFSET"

definition slotCount :: "page \<Rightarrow> nat" where
  "slotCount p = unat (get16 p SLOT_COUNT_OFFSET)"

definition liveCount :: "page \<Rightarrow> nat" where
  "liveCount p = unat (get16 p LIVE_COUNT_OFFSET)"

definition lowerBoundary :: "page \<Rightarrow> nat" where
  "lowerBoundary p = unat (get16 p LOWER_BOUNDARY_OFFSET)"

definition upperBoundary :: "page \<Rightarrow> nat" where
  "upperBoundary p = unat (get16 p UPPER_BOUNDARY_OFFSET)"

text \<open>The subtraction is on \<open>int\<close>, then converted to the 64-bit \<open>std::size_t\<close>.\<close>

definition freeSpace :: "page \<Rightarrow> nat" where
  "freeSpace p = unat (of_int (int (upperBoundary p) - int (lowerBoundary p)) :: u64)"

definition readSlot :: "page \<Rightarrow> nat \<Rightarrow> slot_entry" where
  "readSlot p i =
     (let offset = slotOffset i in
      \<lparr>tupleOffset = get16 p offset, tupleLength = get16 p (offset + 2),
       flags = get16 p (offset + 4), reserved = get16 p (offset + 6)\<rparr>)"

definition writeSlot :: "page \<Rightarrow> nat \<Rightarrow> slot_entry \<Rightarrow> page" where
  "writeSlot p i slot =
     (let offset = slotOffset i;
          p1 = put16 p offset (tupleOffset slot);
          p2 = put16 p1 (offset + 2) (tupleLength slot);
          p3 = put16 p2 (offset + 4) (flags slot)
      in put16 p3 (offset + 6) (reserved slot))"

definition validateSlotId :: "page \<Rightarrow> nat \<Rightarrow> unit res" where
  "validateSlotId p i =
     throw_if (i \<ge> slotCount p) (OutOfRange ''Slot ID is outside the slotted-page directory.'')"

definition validateLink :: "page \<Rightarrow> page_id \<Rightarrow> page_id \<Rightarrow> page_id \<Rightarrow> unit res" where
  "validateLink p pid pageCount linked =
     (if linked = INVALID_PAGE_ID then Inr ()
      else res_bind (requireExistingDataPage pageCount linked pid ''Slotted-page link'') (\<lambda>_.
        throw_if (linked = heapMetadataPageId p)
          (StorageError InvalidPage ''Slotted-page link references heap metadata.'')))"

definition validateTupleSize :: "nat \<Rightarrow> unit res" where
  "validateTupleSize tupleSize =
     (if tupleSize = 0 then Inl (InvalidArgument ''Zero-length tuples are not supported.'')
      else throw_if (tupleSize > MAX_TUPLE_SIZE \<or> tupleSize > 0xFFFF)
        (InvalidArgument ''Tuple exceeds the maximum inline slotted-page size.''))"

section \<open>Validation\<close>

definition validateHeader :: "page \<Rightarrow> page_id \<Rightarrow> page_id \<Rightarrow> unit res" where
  "validateHeader p pid pageCount =
     (if subspan p 0 8 \<noteq> SLOTTED_MAGIC
      then Inl (StorageError CorruptPage ''Invalid slotted-page magic/type.'')
      else if get32 p SP_LAYOUT_VERSION_OFFSET \<noteq> 1
      then Inl (StorageError CorruptPage (''Unsupported slotted-page layout version ''
             @ to_string (unat (get32 p SP_LAYOUT_VERSION_OFFSET)) @ ''.''))
      else if get32 p SP_HEADER_SIZE_OFFSET \<noteq> 48
      then Inl (StorageError CorruptPage ''Slotted page has an invalid header size.'')
      else if \<not> all_zero (subspan p (SP_PAGE_LSN_OFFSET + 8) 4)
      then Inl (StorageError CorruptPage ''Slotted-page reserved header bytes are not zero.'')
      else
        res_bind (readPersistentPageLsn p) (\<lambda>_.
        res_bind (requireExistingDataPage pageCount (heapMetadataPageId p) pid ''Heap metadata page ID'') (\<lambda>_.
        res_bind (validateLink p pid pageCount (nextPageId p)) (\<lambda>_.
        res_bind (validateLink p pid pageCount (previousPageId p)) (\<lambda>_.
        throw_if (nextPageId p \<noteq> INVALID_PAGE_ID \<and> nextPageId p = previousPageId p)
          (StorageError CorruptPage ''Slotted page has identical next and previous links.''))))))"

definition validateCounts :: "page \<Rightarrow> unit res" where
  "validateCounts p =
     (if slotCount p > MAX_SLOT_COUNT \<or> liveCount p > slotCount p
      then Inl (StorageError CorruptPage ''Slotted page has invalid slot/live counts.'')
      else let expectedUpper = PAGE_SIZE - slotCount p * SLOT_SIZE in
        throw_if (upperBoundary p \<noteq> expectedUpper \<or> lowerBoundary p < HEADER_SIZE
            \<or> lowerBoundary p > upperBoundary p)
          (StorageError CorruptPage ''Slotted page has invalid free-space boundaries.''))"

fun validateSlots ::
  "page \<Rightarrow> nat list \<Rightarrow> nat \<Rightarrow> (nat \<times> nat) list \<Rightarrow> (nat \<times> (nat \<times> nat) list) res" where
  "validateSlots p [] observed ranges = Inr (observed, ranges)"
| "validateSlots p (i # is) observed ranges =
     (let slot = readSlot p i in
      if flags slot = SLOT_FREE then
        (if tupleOffset slot \<noteq> 0 \<or> tupleLength slot \<noteq> 0 \<or> reserved slot \<noteq> 0
         then Inl (StorageError CorruptPage ''Slotted page contains a malformed free slot.'')
         else validateSlots p is observed ranges)
      else if flags slot \<noteq> SLOT_LIVE \<or> reserved slot \<noteq> 0 \<or> tupleLength slot = 0
      then Inl (StorageError CorruptPage ''Slotted page contains an invalid live slot.'')
      else
        let rbegin = unat (tupleOffset slot); rend = rbegin + unat (tupleLength slot) in
        if rbegin < HEADER_SIZE \<or> rend > lowerBoundary p \<or> rend > upperBoundary p
        then Inl (StorageError CorruptPage ''Slotted-page tuple range is outside the payload area.'')
        else validateSlots p is (observed + 1) (ranges @ [(rbegin, rend)]))"

fun validateRanges :: "nat \<Rightarrow> (nat \<times> nat) list \<Rightarrow> nat res" where
  "validateRanges cursor [] = Inr cursor"
| "validateRanges cursor ((rbegin, rend) # rs) =
     (if rbegin \<noteq> cursor
      then Inl (StorageError CorruptPage ''Slotted-page tuple payloads overlap or are not compact.'')
      else validateRanges rend rs)"

definition validatePayload :: "page \<Rightarrow> unit res" where
  "validatePayload p =
     res_bind (validateSlots p [0..<slotCount p] 0 []) (\<lambda>(observed, ranges).
       if observed \<noteq> liveCount p
       then Inl (StorageError CorruptPage ''Slotted-page live count disagrees with slot states.'')
       else res_bind (validateRanges HEADER_SIZE (sort ranges)) (\<lambda>cursor.
         if cursor \<noteq> lowerBoundary p
         then Inl (StorageError CorruptPage ''Slotted-page lower boundary disagrees with tuple payloads.'')
         else throw_if (\<not> all_zero (subspan p (lowerBoundary p) (upperBoundary p - lowerBoundary p)))
           (StorageError CorruptPage ''Slotted-page contiguous free space is not zero-filled.'')))"

definition validate :: "page \<Rightarrow> page_id \<Rightarrow> page_id \<Rightarrow> unit res" where
  "validate p pid pageCount =
     res_bind (validateHeader p pid pageCount) (\<lambda>_.
     res_bind (validateCounts p) (\<lambda>_. validatePayload p))"

section \<open>Operations\<close>

definition initializeLink :: "page_id \<Rightarrow> page_id \<Rightarrow> page_id \<Rightarrow> page_id \<Rightarrow> string \<Rightarrow> unit res" where
  "initializeLink pageCount pid heapMeta link description =
     (if link = INVALID_PAGE_ID then Inr ()
      else res_bind (requireExistingDataPage pageCount link pid description) (\<lambda>_.
        throw_if (link = heapMeta)
          (StorageError InvalidPage (description @ '' references heap metadata.''))))"

definition initialize ::
  "page_id \<Rightarrow> page_id \<Rightarrow> page_id \<Rightarrow> page_id \<Rightarrow> page_id \<Rightarrow> page res" where
  "initialize pid pageCount heapMeta next previous =
     res_bind (requireExistingDataPage pageCount pid heapMeta ''Slotted page ID'') (\<lambda>_.
     res_bind (requireExistingDataPage pageCount heapMeta pid ''Heap metadata page ID'') (\<lambda>_.
     res_bind (initializeLink pageCount pid heapMeta next ''Next slotted-page ID'') (\<lambda>_.
     res_bind (initializeLink pageCount pid heapMeta previous ''Previous slotted-page ID'') (\<lambda>_.
     if next \<noteq> INVALID_PAGE_ID \<and> next = previous
     then Inl (StorageError InvalidPage ''Slotted page next and previous links are identical.'')
     else Inr
       (let p0 = overwrite (replicate PAGE_SIZE 0) 0 SLOTTED_MAGIC;
            p1 = put32 p0 SP_LAYOUT_VERSION_OFFSET 1;
            p2 = put32 p1 SP_HEADER_SIZE_OFFSET 48;
            p3 = put16 p2 SLOT_COUNT_OFFSET 0;
            p4 = put16 p3 LIVE_COUNT_OFFSET 0;
            p5 = put16 p4 LOWER_BOUNDARY_OFFSET 48;
            p6 = put16 p5 UPPER_BOUNDARY_OFFSET 4096;
            p7 = put32 p6 NEXT_PAGE_ID_OFFSET next;
            p8 = put32 p7 PREVIOUS_PAGE_ID_OFFSET previous
        in put32 p8 HEAP_METADATA_PAGE_ID_OFFSET heapMeta)))))"

definition setNextPageId :: "page \<Rightarrow> page_id \<Rightarrow> page_id \<Rightarrow> page_id \<Rightarrow> page res" where
  "setNextPageId p pid pageCount linked =
     res_bind (validateLink p pid pageCount linked) (\<lambda>_.
       if linked \<noteq> INVALID_PAGE_ID \<and> linked = previousPageId p
       then Inl (StorageError InvalidPage ''Slotted page next and previous links cannot match.'')
       else Inr (put32 p NEXT_PAGE_ID_OFFSET linked))"

definition setPreviousPageId :: "page \<Rightarrow> page_id \<Rightarrow> page_id \<Rightarrow> page_id \<Rightarrow> page res" where
  "setPreviousPageId p pid pageCount linked =
     res_bind (validateLink p pid pageCount linked) (\<lambda>_.
       if linked \<noteq> INVALID_PAGE_ID \<and> linked = nextPageId p
       then Inl (StorageError InvalidPage ''Slotted page next and previous links cannot match.'')
       else Inr (put32 p PREVIOUS_PAGE_ID_OFFSET linked))"

text \<open>The scan for a reusable slot, shared by \<open>canFit\<close> and \<open>insert\<close>.\<close>

definition firstFreeSlot :: "page \<Rightarrow> nat option" where
  "firstFreeSlot p = List.find (\<lambda>i. flags (readSlot p i) = SLOT_FREE) [0..<slotCount p]"

definition canFit :: "page \<Rightarrow> nat \<Rightarrow> bool" where
  "canFit p tupleSize \<longleftrightarrow>
     tupleSize \<noteq> 0 \<and> tupleSize \<le> MAX_TUPLE_SIZE \<and>
     tupleSize + (if firstFreeSlot p \<noteq> None then 0 else SLOT_SIZE) \<le> freeSpace p"

definition isOccupied :: "page \<Rightarrow> nat \<Rightarrow> bool res" where
  "isOccupied p i = res_bind (validateSlotId p i) (\<lambda>_. Inr (flags (readSlot p i) = SLOT_LIVE))"

definition insertAt :: "page \<Rightarrow> nat \<Rightarrow> byte list \<Rightarrow> page" where
  "insertAt p i tuple =
     (let offset = get16 p LOWER_BOUNDARY_OFFSET;
          p1 = overwrite p (unat offset) tuple;
          p2 = writeSlot p1 i \<lparr>tupleOffset = offset, tupleLength = of_nat (length tuple),
                               flags = SLOT_LIVE, reserved = 0\<rparr>;
          p3 = put16 p2 LOWER_BOUNDARY_OFFSET (of_nat (unat offset + length tuple))
      in put16 p3 LIVE_COUNT_OFFSET (get16 p3 LIVE_COUNT_OFFSET + 1))"

definition insert :: "page \<Rightarrow> byte list \<Rightarrow> (page \<times> nat) res" where
  "insert p tuple =
     res_bind (validateTupleSize (length tuple)) (\<lambda>_.
       if \<not> canFit p (length tuple)
       then Inl (OverflowError ''Slotted page has insufficient space for tuple and slot.'')
       else case firstFreeSlot p of
         Some i \<Rightarrow> Inr (insertAt p i tuple, i)
       | None \<Rightarrow>
           if slotCount p \<ge> MAX_SLOT_COUNT
           then Inl (OverflowError ''Slotted page slot directory is full.'')
           else let i = slotCount p;
                    p1 = put16 p SLOT_COUNT_OFFSET (get16 p SLOT_COUNT_OFFSET + 1);
                    p2 = put16 p1 UPPER_BOUNDARY_OFFSET (get16 p1 UPPER_BOUNDARY_OFFSET - 8)
                in Inr (insertAt p2 i tuple, i))"

definition tupleAt :: "page \<Rightarrow> nat \<Rightarrow> byte list" where
  "tupleAt p i = subspan p (unat (tupleOffset (readSlot p i))) (unat (tupleLength (readSlot p i)))"

definition requireLive :: "page \<Rightarrow> nat \<Rightarrow> unit res" where
  "requireLive p i =
     throw_if (flags (readSlot p i) \<noteq> SLOT_LIVE) (RuntimeError ''Slotted-page slot is not occupied.'')"

definition get :: "page \<Rightarrow> nat \<Rightarrow> byte list res" where
  "get p i =
     res_bind (validateSlotId p i) (\<lambda>_.
     res_bind (requireLive p i) (\<lambda>_. Inr (tupleAt p i)))"

definition liveTuples :: "page \<Rightarrow> (nat \<times> byte list) list" where
  "liveTuples p =
     map (\<lambda>i. (i, tupleAt p i)) (filter (\<lambda>i. flags (readSlot p i) = SLOT_LIVE) [0..<slotCount p])"

fun rewriteLoop :: "page \<Rightarrow> nat \<Rightarrow> (nat \<times> byte list) list \<Rightarrow> page \<times> nat" where
  "rewriteLoop p cursor [] = (p, cursor)"
| "rewriteLoop p cursor ((i, tuple) # rest) =
     rewriteLoop
       (writeSlot (overwrite p cursor tuple) i
          \<lparr>tupleOffset = of_nat cursor, tupleLength = of_nat (length tuple),
           flags = SLOT_LIVE, reserved = 0\<rparr>)
       (cursor + length tuple) rest"

definition rewritePayload :: "page \<Rightarrow> (nat \<times> byte list) list \<Rightarrow> page" where
  "rewritePayload p tuples =
     (let p0 = overwrite p HEADER_SIZE (replicate (upperBoundary p - HEADER_SIZE) 0);
          (p1, cursor) = rewriteLoop p0 HEADER_SIZE tuples
      in put16 p1 LOWER_BOUNDARY_OFFSET (of_nat cursor))"

definition compact :: "page \<Rightarrow> page" where
  "compact p = rewritePayload p (liveTuples p)"

fun assignFirst :: "nat \<Rightarrow> byte list \<Rightarrow> (nat \<times> byte list) list \<Rightarrow> (nat \<times> byte list) list" where
  "assignFirst i tuple [] = []"
| "assignFirst i tuple ((j, t) # rest) =
     (if j = i then (j, tuple) # rest else (j, t) # assignFirst i tuple rest)"

definition tryUpdate :: "page \<Rightarrow> nat \<Rightarrow> byte list \<Rightarrow> (page \<times> bool) res" where
  "tryUpdate p i tuple =
     res_bind (validateTupleSize (length tuple)) (\<lambda>_.
     res_bind (validateSlotId p i) (\<lambda>_.
     res_bind (requireLive p i) (\<lambda>_.
       let slot = readSlot p i in
       if length tuple > freeSpace p + unat (tupleLength slot) then Inr (p, False)
       else if length tuple = unat (tupleLength slot)
       then Inr (overwrite p (unat (tupleOffset slot)) tuple, True)
       else Inr (rewritePayload p (assignFirst i tuple (liveTuples p)), True))))"

definition erase :: "page \<Rightarrow> nat \<Rightarrow> page res" where
  "erase p i =
     res_bind (validateSlotId p i) (\<lambda>_.
     res_bind (requireLive p i) (\<lambda>_.
       let p1 = writeSlot p i \<lparr>tupleOffset = 0, tupleLength = 0, flags = SLOT_FREE, reserved = 0\<rparr>;
           p2 = put16 p1 LIVE_COUNT_OFFSET (get16 p1 LIVE_COUNT_OFFSET - 1)
       in Inr (compact p2)))"

section \<open>Slot entries and frames\<close>

lemma slotOffset_bounds: "i < n \<Longrightarrow> n \<le> 506 \<Longrightarrow> 4096 - 8 * n \<le> slotOffset i \<and> slotOffset i + 8 \<le> 4096"
  by (simp add: slotOffset_def)

lemma slotOffset_low: "i < 506 \<Longrightarrow> 48 \<le> slotOffset i \<and> slotOffset i + 8 \<le> 4096"
  by (simp add: slotOffset_def)

lemma slotOffset_disjoint:
  "i \<noteq> j \<Longrightarrow> i < 506 \<Longrightarrow> j < 506 \<Longrightarrow> slotOffset i + 8 \<le> slotOffset j \<or> slotOffset j + 8 \<le> slotOffset i"
  by (auto simp: slotOffset_def)

lemma readSlot_cong:
  assumes "\<And>k. slotOffset i \<le> k \<Longrightarrow> k < slotOffset i + 8 \<Longrightarrow> p ! k = q ! k"
  shows "readSlot p i = readSlot q i"
proof -
  have "get16 p (slotOffset i + d) = get16 q (slotOffset i + d)" if "d \<le> 6" for d
    by (rule get_le_cong) (use assms that in simp)
  from this [of 0] this [of 2] this [of 4] this [of 6] show ?thesis
    by (simp add: readSlot_def Let_def)
qed

lemma length_writeSlot [simp]: "length (writeSlot p i s) = length p"
  by (simp add: writeSlot_def Let_def)

lemma nth_writeSlot_other:
  "length p = 4096 \<Longrightarrow> i < 506 \<Longrightarrow> k < 4096 \<Longrightarrow> k < slotOffset i \<or> slotOffset i + 8 \<le> k
   \<Longrightarrow> writeSlot p i s ! k = p ! k"
  using slotOffset_low [of i] by (auto simp: writeSlot_def Let_def nth_put_le)

lemma readSlot_writeSlot_same [simp]:
  "length p = 4096 \<Longrightarrow> i < 506 \<Longrightarrow> readSlot (writeSlot p i s) i = s"
  using slotOffset_low [of i] by (simp add: writeSlot_def readSlot_def Let_def)

lemma readSlot_writeSlot_other:
  assumes "length p = 4096" "i < 506" "j < 506" "i \<noteq> j"
  shows "readSlot (writeSlot p i s) j = readSlot p j"
  by (rule readSlot_cong, rule nth_writeSlot_other)
    (use assms slotOffset_disjoint [of i j] slotOffset_low [of j] in auto)

lemma get_le_cong_range:
  assumes "\<And>k. off \<le> k \<Longrightarrow> k < off + w \<Longrightarrow> p ! k = q ! k"
  shows "get_le w p off = get_le w q off"
  by (rule get_le_cong) (simp add: assms)

text \<open>
  The bytes of the header other than the counts and boundaries; every payload operation leaves
  them alone.
\<close>

definition sameHeader :: "page \<Rightarrow> page \<Rightarrow> bool" where
  "sameHeader p q \<longleftrightarrow> (\<forall>k. k < 16 \<or> (24 \<le> k \<and> k < 48) \<longrightarrow> p ! k = q ! k)"

lemma sameHeader_nth: "sameHeader p q \<Longrightarrow> k < 16 \<or> (24 \<le> k \<and> k < 48) \<Longrightarrow> p ! k = q ! k"
  by (auto simp: sameHeader_def)

lemma sameHeader_refl [simp]: "sameHeader p p"
  by (simp add: sameHeader_def)

lemma sameHeader_trans [trans]: "sameHeader p q \<Longrightarrow> sameHeader q r \<Longrightarrow> sameHeader p r"
  by (simp add: sameHeader_def)

lemma sameHeader_get_le:
  assumes "sameHeader p q" "off + w \<le> 16 \<or> (24 \<le> off \<and> off + w \<le> 48)"
  shows "get_le w p off = get_le w q off"
  by (rule get_le_cong_range) (use assms in \<open>auto simp: sameHeader_def\<close>)

lemma sameHeader_subspan:
  assumes "sameHeader p q" "length p = length q" "off + w \<le> 16 \<or> (24 \<le> off \<and> off + w \<le> 48)"
  shows "subspan p off w = subspan q off w"
  by (rule subspan_cong) (use assms in \<open>auto simp: sameHeader_def\<close>)

section \<open>What validation establishes\<close>

definition linksOk :: "page_id \<Rightarrow> page_id \<Rightarrow> page_id \<Rightarrow> page_id \<Rightarrow> page_id \<Rightarrow> bool" where
  "linksOk heapMeta next previous pid pageCount \<longleftrightarrow>
     heapMeta \<noteq> 0 \<and> heapMeta \<noteq> INVALID_PAGE_ID \<and> heapMeta \<noteq> pid \<and> heapMeta < pageCount \<and>
     (\<forall>l\<in>{next, previous}. l = INVALID_PAGE_ID \<or>
        (l \<noteq> 0 \<and> l \<noteq> pid \<and> l \<noteq> heapMeta \<and> l < pageCount)) \<and>
     (next = previous \<longrightarrow> next = INVALID_PAGE_ID)"

definition headerOk :: "page \<Rightarrow> page_id \<Rightarrow> page_id \<Rightarrow> bool" where
  "headerOk p pid pageCount \<longleftrightarrow>
     subspan p 0 8 = SLOTTED_MAGIC \<and> get32 p 8 = 1 \<and> get32 p 12 = 48 \<and>
     all_zero (subspan p 44 4) \<and> get64 p 36 \<noteq> INVALID_LSN \<and>
     linksOk (heapMetadataPageId p) (nextPageId p) (previousPageId p) pid pageCount"

definition slotOk :: "page \<Rightarrow> nat \<Rightarrow> bool" where
  "slotOk p i \<longleftrightarrow> (let s = readSlot p i in
     s = \<lparr>tupleOffset = 0, tupleLength = 0, flags = 0, reserved = 0\<rparr> \<or>
     flags s = 1 \<and> reserved s = 0 \<and> tupleLength s \<noteq> 0 \<and> 48 \<le> unat (tupleOffset s) \<and>
       unat (tupleOffset s) + unat (tupleLength s) \<le> lowerBoundary p)"

definition liveIds :: "page \<Rightarrow> nat list" where
  "liveIds p = filter (\<lambda>i. flags (readSlot p i) = 1) [0..<slotCount p]"

definition slotRange :: "page \<Rightarrow> nat \<Rightarrow> nat \<times> nat" where
  "slotRange p i = (let s = readSlot p i in
     (unat (tupleOffset s), unat (tupleOffset s) + unat (tupleLength s)))"

definition bodyOk :: "page \<Rightarrow> bool" where
  "bodyOk p \<longleftrightarrow> slotCount p \<le> 506 \<and> upperBoundary p = 4096 - 8 * slotCount p \<and>
     48 \<le> lowerBoundary p \<and> lowerBoundary p \<le> upperBoundary p \<and>
     (\<forall>i < slotCount p. slotOk p i) \<and> liveCount p = length (liveIds p) \<and>
     validateRanges 48 (sort (map (slotRange p) (liveIds p))) = Inr (lowerBoundary p) \<and>
     (\<forall>k. lowerBoundary p \<le> k \<and> k < upperBoundary p \<longrightarrow> p ! k = 0)"

lemma slotted_PageLsn:
  assumes "subspan p 0 8 = SLOTTED_MAGIC" "get32 p 8 = 1" "get32 p 12 = 48"
  shows "readPersistentPageLsn p = decodePersistentPageLsn (get64 p 36)"
proof -
  have m: "hasMagic p (magic_bytes s) \<longleftrightarrow> SLOTTED_MAGIC = magic_bytes s" if "length s = 8" for s
    using that by (simp add: hasMagic_8 assms)
  have "SLOTTED_MAGIC \<noteq> DB_MAGIC" "SLOTTED_MAGIC \<noteq> FREE_MAGIC"
    by (simp_all add: magic_bytes_def)
  then have n: "\<not> hasMagic p DB_MAGIC" "\<not> hasMagic p FREE_MAGIC"
    by (simp_all add: m)
  have s: "hasMagic p SLOTTED_MAGIC" by (simp add: m)
  have "persistentPageLsnSlot p = Inr (Some (Slotted, 36))"
    unfolding persistentPageLsnSlot_def if_not_P [OF n(1)] if_not_P [OF n(2)] if_P [OF s] layoutSlot_Inr
    by (simp add: assms)
  then show ?thesis by (simp add: readPersistentPageLsn_def)
qed

lemma requireExistingDataPage_ok:
  "requireExistingDataPage pc l x d = Inr u \<longleftrightarrow> l \<noteq> 0 \<and> l \<noteq> INVALID_PAGE_ID \<and> l \<noteq> x \<and> l < pc"
  by (auto simp: requireExistingDataPage_def throw_if_eq)

lemma validateLink_ok:
  "validateLink p pid pc l = Inr u \<longleftrightarrow>
     l = INVALID_PAGE_ID \<or> (l \<noteq> 0 \<and> l \<noteq> pid \<and> l \<noteq> heapMetadataPageId p \<and> l < pc)"
  by (auto simp: validateLink_def throw_if_eq requireExistingDataPage_ok res_bind_eq_Inr)

lemma validateHeader_ok: "validateHeader p pid pc = Inr () \<longleftrightarrow> headerOk p pid pc"
proof (cases "subspan p 0 8 = SLOTTED_MAGIC \<and> get32 p 8 = 1 \<and> get32 p 12 = 48")
  case True
  then show ?thesis
    by (auto simp: validateHeader_def headerOk_def slotted_PageLsn decodePersistentPageLsn_def
        res_bind_eq_Inr validateLink_ok requireExistingDataPage_ok throw_if_eq linksOk_def)
next
  case False
  then show ?thesis by (auto simp: validateHeader_def headerOk_def)
qed

lemma headerOk_cong:
  assumes "sameHeader p q" "length p = length q"
  shows "headerOk p pid pc = headerOk q pid pc"
  by (simp add: headerOk_def heapMetadataPageId_def nextPageId_def previousPageId_def
      sameHeader_get_le [OF assms(1)] sameHeader_subspan [OF assms])

lemma validateSlots_ok:
  "validateSlots p is ob rs = Inr (ob', rs') \<longleftrightarrow>
     (\<forall>i\<in>set is. slotOk p i \<and> (flags (readSlot p i) = 1 \<longrightarrow> snd (slotRange p i) \<le> upperBoundary p)) \<and>
     ob' = ob + length (filter (\<lambda>i. flags (readSlot p i) = 1) is) \<and>
     rs' = rs @ map (slotRange p) (filter (\<lambda>i. flags (readSlot p i) = 1) is)"
proof (induction "is" arbitrary: ob rs)
  case (Cons i "is")
  have eq: "readSlot p i = \<lparr>tupleOffset = 0, tupleLength = 0, flags = 0, reserved = 0\<rparr> \<longleftrightarrow>
      flags (readSlot p i) = 0 \<and> tupleOffset (readSlot p i) = 0 \<and> tupleLength (readSlot p i) = 0 \<and>
      reserved (readSlot p i) = 0"
    by (cases "readSlot p i") auto
  show ?case
    by (auto simp: Cons.IH Let_def slotOk_def slotRange_def eq)
qed auto

lemma validatePayload_ok:
  assumes "lowerBoundary p \<le> upperBoundary p" "upperBoundary p \<le> length p"
  shows "validatePayload p = Inr () \<longleftrightarrow>
     (\<forall>i < slotCount p. slotOk p i) \<and> liveCount p = length (liveIds p) \<and>
     validateRanges 48 (sort (map (slotRange p) (liveIds p))) = Inr (lowerBoundary p) \<and>
     (\<forall>k. lowerBoundary p \<le> k \<and> k < upperBoundary p \<longrightarrow> p ! k = 0)"
proof -
  have up: "snd (slotRange p i) \<le> upperBoundary p" if "slotOk p i" "flags (readSlot p i) = 1" for i
    using that assms(1) by (auto simp: slotOk_def slotRange_def Let_def)
  have zero: "all_zero (subspan p (lowerBoundary p) (upperBoundary p - lowerBoundary p)) \<longleftrightarrow>
      (\<forall>k. lowerBoundary p \<le> k \<and> k < upperBoundary p \<longrightarrow> p ! k = 0)"
  proof -
    have "all_zero (subspan p (lowerBoundary p) (upperBoundary p - lowerBoundary p)) \<longleftrightarrow>
      (\<forall>k<upperBoundary p - lowerBoundary p. p ! (lowerBoundary p + k) = 0)"
      using assms by (auto simp: all_zero_nth nth_subspan)
    also have "\<dots> \<longleftrightarrow> (\<forall>k. lowerBoundary p \<le> k \<and> k < upperBoundary p \<longrightarrow> p ! k = 0)"
      by (metis add.commute le_add1 le_add_diff_inverse less_diff_conv)
    finally show ?thesis .
  qed
  show ?thesis
    unfolding validatePayload_def res_bind_eq_Inr
    by (auto simp: validateSlots_ok res_bind_eq_Inr throw_if_eq zero liveIds_def up split: if_splits)
qed

lemma slotted_validate_ok:
  assumes "length p = 4096"
  shows "validate p pid pc = Inr () \<longleftrightarrow> headerOk p pid pc \<and> bodyOk p"
proof -
  have "validateCounts p = Inr () \<longleftrightarrow> slotCount p \<le> 506 \<and> liveCount p \<le> slotCount p \<and>
     upperBoundary p = 4096 - 8 * slotCount p \<and> 48 \<le> lowerBoundary p \<and> lowerBoundary p \<le> upperBoundary p"
    by (auto simp: validateCounts_def throw_if_eq Let_def)
  moreover have "length (liveIds p) \<le> slotCount p"
    using length_filter_le [of _ "[0..<slotCount p]"] by (simp add: liveIds_def)
  ultimately show ?thesis
    using validatePayload_ok [of p] assms
    by (auto simp: validate_def res_bind_eq_Inr validateHeader_ok bodyOk_def)
qed

section \<open>Payload chains\<close>

lemma validateRanges_snoc:
  "validateRanges c rs = Inr b \<Longrightarrow> validateRanges c (rs @ [(b, e)]) = Inr e"
  by (induction c rs rule: validateRanges.induct) (auto split: if_splits)

lemma validateRanges_sum:
  "validateRanges c rs = Inr e \<Longrightarrow> (\<forall>(b, e')\<in>set rs. b \<le> e') \<Longrightarrow>
   e = c + (\<Sum>(b, e')\<leftarrow>rs. e' - b)"
  by (induction c rs rule: validateRanges.induct) (auto split: if_splits)

lemma sort_map_sum:
  fixes f :: "'a::linorder \<Rightarrow> nat"
  shows "(\<Sum>x\<leftarrow>sort xs. f x) = (\<Sum>x\<leftarrow>xs. f x)"
  by (metis mset_map mset_sort sum_mset_sum_list)

lemma sort_snoc_greatest:
  assumes "\<forall>x\<in>set xs. x \<le> y" "mset zs = mset (y # xs)"
  shows "sort zs = sort xs @ [y]"
  by (rule properties_for_sort) (use assms in \<open>auto simp: sorted_append\<close>)

text \<open>The payload bytes in use: exactly the bytes of the live tuples.\<close>

lemma lowerBoundary_eq:
  assumes "bodyOk p"
  shows "lowerBoundary p = 48 + (\<Sum>i\<leftarrow>liveIds p. unat (tupleLength (readSlot p i)))"
proof -
  have "lowerBoundary p = 48 + (\<Sum>(b, e')\<leftarrow>sort (map (slotRange p) (liveIds p)). e' - b)"
    by (rule validateRanges_sum) (use assms in \<open>auto simp: bodyOk_def slotRange_def Let_def\<close>)
  then show ?thesis
    by (simp add: sort_map_sum comp_def slotRange_def Let_def)
qed

section \<open>Rewriting the payload area\<close>

fun placed :: "page \<Rightarrow> nat \<Rightarrow> (nat \<times> byte list) list \<Rightarrow> bool" where
  "placed q c [] \<longleftrightarrow> True"
| "placed q c ((i, t) # r) \<longleftrightarrow>
     readSlot q i = \<lparr>tupleOffset = of_nat c, tupleLength = of_nat (length t), flags = 1, reserved = 0\<rparr> \<and>
     subspan q c (length t) = t \<and> placed q (c + length t) r"

abbreviation bytesOf :: "(nat \<times> byte list) list \<Rightarrow> nat" where
  "bytesOf ts \<equiv> (\<Sum>(i, t)\<leftarrow>ts. length t)"

lemma rewriteLoop_props:
  assumes "rewriteLoop p c ts = (q, e)" "length p = 4096" "n \<le> 506" "48 \<le> c"
    and "c + bytesOf ts \<le> 4096 - 8 * n" "distinct (map fst ts)" "\<forall>i\<in>fst ` set ts. i < n"
  shows "length q = 4096 \<and> e = c + bytesOf ts \<and>
    (\<forall>k < 4096 - 8 * n. k < c \<or> e \<le> k \<longrightarrow> q ! k = p ! k) \<and>
    (\<forall>j < n. j \<notin> fst ` set ts \<longrightarrow> readSlot q j = readSlot p j) \<and> placed q c ts"
  using assms
proof (induction p c ts rule: rewriteLoop.induct)
  case (2 p c i t r)
  let ?s = "\<lparr>tupleOffset = of_nat c, tupleLength = of_nat (length t), flags = 1, reserved = 0\<rparr>"
  let ?p = "writeSlot (overwrite p c t) i ?s"
  have i: "i < n" "i < 506" using "2.prems" by auto
  have fit: "c + length t + bytesOf r \<le> 4096 - 8 * n" using "2.prems" by simp
  have IH: "length q = 4096 \<and> e = c + length t + bytesOf r \<and>
    (\<forall>k < 4096 - 8 * n. k < c + length t \<or> e \<le> k \<longrightarrow> q ! k = ?p ! k) \<and>
    (\<forall>j < n. j \<notin> fst ` set r \<longrightarrow> readSlot q j = readSlot ?p j) \<and> placed q (c + length t) r"
    by (rule "2.IH") (use "2.prems" in auto)
  have nth: "?p ! k = (if c \<le> k \<and> k < c + length t then t ! (k - c) else p ! k)"
    if "k < 4096 - 8 * n" for k
    using that slotOffset_bounds [OF i(1)] "2.prems" fit i
    by (simp add: nth_writeSlot_other nth_overwrite)
  have slot: "readSlot ?p j = readSlot p j" if "j < n" "j \<noteq> i" for j
  proof -
    have "readSlot ?p j = readSlot (overwrite p c t) j"
      using that i "2.prems" by (simp add: readSlot_writeSlot_other)
    also have "\<dots> = readSlot p j"
      by (rule readSlot_cong)
        (use slotOffset_bounds [OF that(1)] "2.prems" fit in \<open>auto simp: nth_overwrite\<close>)
    finally show ?thesis .
  qed
  have "subspan q c (length t) = t"
    by (rule nth_equalityI) (use IH nth fit "2.prems" in \<open>auto simp: nth_subspan\<close>)
  moreover have "readSlot q i = ?s"
    using IH i "2.prems" by force
  moreover have "q ! k = p ! k" if "k < 4096 - 8 * n" "k < c \<or> e \<le> k" for k
    using IH that nth [OF that(1)] by auto
  moreover have "readSlot q j = readSlot p j" if "j < n" "j \<noteq> i" "j \<notin> fst ` set r" for j
    using IH that slot by auto
  ultimately show ?case using IH by auto
qed auto

lemma placed_lookup:
  assumes "placed q c ts" "(i, t) \<in> set ts" "c + bytesOf ts \<le> 4096"
  shows "flags (readSlot q i) = 1 \<and> reserved (readSlot q i) = 0 \<and>
    tupleAt q i = t \<and> unat (tupleLength (readSlot q i)) = length t \<and>
    c \<le> unat (tupleOffset (readSlot q i)) \<and> snd (slotRange q i) \<le> c + bytesOf ts"
  using assms
proof (induction q c ts rule: placed.induct)
  case (2 q c j u r)
  have "unat (of_nat c :: u16) = c" "unat (of_nat (length u) :: u16) = length u"
    using "2.prems" by (auto simp: unat_of_nat)
  then show ?case
    using 2 by (auto simp: tupleAt_def slotRange_def Let_def)
qed auto

lemma placed_ranges:
  assumes "placed q c ts" "c + bytesOf ts \<le> 4096" "\<forall>(i, t)\<in>set ts. t \<noteq> []"
  shows "sorted (map (slotRange q) (map fst ts)) \<and>
    validateRanges c (map (slotRange q) (map fst ts)) = Inr (c + bytesOf ts)"
  using assms
proof (induction q c ts rule: placed.induct)
  case (2 q c i t r)
  have u: "unat (of_nat c :: u16) = c" "unat (of_nat (length t) :: u16) = length t"
    using "2.prems" by (auto simp: unat_of_nat)
  have "slotRange q i = (c, c + length t)"
    using "2.prems" u by (simp add: slotRange_def)
  moreover have "c < fst (slotRange q j)" if "(j, s) \<in> set r" for j s
    using placed_lookup [of q "c + length t" r j s] that "2.prems"
    by (cases t) (auto simp: slotRange_def Let_def)
  ultimately show ?case
    using 2 by (force simp: less_eq_prod_def add.assoc)
qed auto

section \<open>The slot directory\<close>

text \<open>
  The abstract page: the tuple of every live slot, \<open>None\<close> for a free slot. \<open>dirSlot\<close> is the slot
  an insertion uses and \<open>dirPut\<close> stores at it; \<open>dirSpace\<close> is the payload space left.
\<close>

definition slotsOf :: "page \<Rightarrow> byte list option list" where
  "slotsOf p = map (\<lambda>i. if flags (readSlot p i) = SLOT_LIVE then Some (tupleAt p i) else None) [0..<slotCount p]"

definition dirUsed :: "byte list option list \<Rightarrow> nat" where
  "dirUsed ds = (\<Sum>d\<leftarrow>ds. case d of None \<Rightarrow> 0 | Some t \<Rightarrow> length t)"

definition dirSpace :: "byte list option list \<Rightarrow> nat" where
  "dirSpace ds = PAGE_SIZE - HEADER_SIZE - SLOT_SIZE * length ds - dirUsed ds"

definition dirSlot :: "byte list option list \<Rightarrow> nat" where
  "dirSlot ds = (case List.find (\<lambda>i. ds ! i = None) [0..<length ds] of Some i \<Rightarrow> i | None \<Rightarrow> length ds)"

definition dirPut :: "byte list option list \<Rightarrow> nat \<Rightarrow> byte list \<Rightarrow> byte list option list" where
  "dirPut ds i t = (if i < length ds then ds[i := Some t] else ds @ [Some t])"

definition dirFits :: "byte list option list \<Rightarrow> nat \<Rightarrow> bool" where
  "dirFits ds n \<longleftrightarrow> n + (if None \<in> set ds then 0 else SLOT_SIZE) \<le> dirSpace ds"

lemma length_slotsOf [simp]: "length (slotsOf p) = slotCount p"
  by (simp add: slotsOf_def)

lemma nth_slotsOf:
  "i < slotCount p \<Longrightarrow> slotsOf p ! i = (if flags (readSlot p i) = 1 then Some (tupleAt p i) else None)"
  by (simp add: slotsOf_def)

lemma liveIds_set: "i \<in> set (liveIds p) \<longleftrightarrow> i < slotCount p \<and> flags (readSlot p i) = 1"
  by (auto simp: liveIds_def)

lemma slotOk_cases:
  assumes "bodyOk p" "i < slotCount p"
  obtains (free) "readSlot p i = \<lparr>tupleOffset = 0, tupleLength = 0, flags = 0, reserved = 0\<rparr>" "slotsOf p ! i = None"
  | (live) "flags (readSlot p i) = 1" "reserved (readSlot p i) = 0" "tupleLength (readSlot p i) \<noteq> 0"
      "48 \<le> unat (tupleOffset (readSlot p i))"
      "unat (tupleOffset (readSlot p i)) + unat (tupleLength (readSlot p i)) \<le> lowerBoundary p"
      "slotsOf p ! i = Some (tupleAt p i)"
  using assms by (auto simp: bodyOk_def slotOk_def nth_slotsOf Let_def)

lemma live_range:
  assumes "bodyOk p" "i < slotCount p" "flags (readSlot p i) = 1"
  shows "48 \<le> fst (slotRange p i)" "fst (slotRange p i) < snd (slotRange p i)"
    "snd (slotRange p i) \<le> lowerBoundary p" "lowerBoundary p \<le> upperBoundary p" "upperBoundary p \<le> 4096"
  using assms by (cases rule: slotOk_cases [OF assms(1,2)];
      auto simp: slotRange_def Let_def bodyOk_def unat_gt_0)+

lemma length_tupleAt:
  assumes "bodyOk p" "length p = 4096" "i < slotCount p" "flags (readSlot p i) = 1"
  shows "length (tupleAt p i) = unat (tupleLength (readSlot p i))"
  using assms by (cases rule: slotOk_cases [OF assms(1,3)]) (auto simp: tupleAt_def bodyOk_def)

lemma sum_list_filter_cases:
  "(\<Sum>i\<leftarrow>xs. if P i then f i else (0::nat)) = (\<Sum>i\<leftarrow>filter P xs. f i)"
  by (induction xs) auto

lemma dirUsed_slotsOf:
  assumes "bodyOk p" "length p = 4096"
  shows "dirUsed (slotsOf p) = lowerBoundary p - 48"
proof -
  have "dirUsed (slotsOf p) =
      (\<Sum>i\<leftarrow>[0..<slotCount p]. if flags (readSlot p i) = 1 then unat (tupleLength (readSlot p i)) else 0)"
    unfolding dirUsed_def slotsOf_def map_map
    by (intro arg_cong [where f = sum_list] map_cong)
      (auto simp: length_tupleAt [OF assms])
  also have "\<dots> = (\<Sum>i\<leftarrow>liveIds p. unat (tupleLength (readSlot p i)))"
    by (simp add: sum_list_filter_cases liveIds_def)
  finally show ?thesis using lowerBoundary_eq [OF assms(1)] by simp
qed

lemma freeSpace_eq:
  assumes "bodyOk p"
  shows "freeSpace p = upperBoundary p - lowerBoundary p"
proof -
  have i: "int (upperBoundary p) - int (lowerBoundary p) = int (upperBoundary p - lowerBoundary p)"
    and b: "upperBoundary p - lowerBoundary p < 2 ^ LENGTH(64)"
    using assms by (auto simp: bodyOk_def)
  show ?thesis
    unfolding freeSpace_def i of_int_of_nat_eq by (rule unat_of_nat_small [OF b])
qed

lemma freeSpace_dirSpace:
  assumes "bodyOk p" "length p = 4096"
  shows "freeSpace p = dirSpace (slotsOf p)"
  using assms by (auto simp: freeSpace_eq dirSpace_def dirUsed_slotsOf bodyOk_def)

lemma flags_free_iff:
  assumes "bodyOk p" "i < slotCount p"
  shows "flags (readSlot p i) = 0 \<longleftrightarrow> slotsOf p ! i = None"
  by (cases rule: slotOk_cases [OF assms]) auto

lemma find_cong_set: "(\<And>x. x \<in> set xs \<Longrightarrow> P x = Q x) \<Longrightarrow> List.find P xs = List.find Q xs"
  by (induction xs) auto

lemma firstFreeSlot_eq:
  assumes "bodyOk p"
  shows "firstFreeSlot p = List.find (\<lambda>i. slotsOf p ! i = None) [0..<length (slotsOf p)]"
  unfolding firstFreeSlot_def length_slotsOf
  by (rule find_cong_set) (simp add: flags_free_iff [OF assms])

lemma find_None_slot:
  "List.find (\<lambda>i. ds ! i = None) [0..<length ds] = None \<longleftrightarrow> None \<notin> set ds"
  by (auto simp: find_None_iff in_set_conv_nth)

lemma canFit_eq:
  assumes "bodyOk p" "length p = 4096"
  shows "canFit p n \<longleftrightarrow> n \<noteq> 0 \<and> n \<le> 4040 \<and> dirFits (slotsOf p) n"
  unfolding canFit_def dirFits_def firstFreeSlot_eq [OF assms(1)] freeSpace_dirSpace [OF assms]
  using find_None_slot [of "slotsOf p"] by auto

section \<open>Frames of the header fields\<close>

lemma readSlot_put_header:
  assumes "length p = 4096" "off + w \<le> 48" "i < 506"
  shows "readSlot (put_le w p off v) i = readSlot p i"
  by (rule readSlot_cong) (use assms slotOffset_low [of i] in \<open>auto simp: nth_put_le\<close>)

lemma sameHeader_put:
  "length p = 4096 \<Longrightarrow> 16 \<le> off \<Longrightarrow> off + w \<le> 24 \<Longrightarrow> sameHeader (put_le w p off v) p"
  by (auto simp: sameHeader_def nth_put_le)

lemma length_bounds_slotOffset:
  "bodyOk p \<Longrightarrow> i < slotCount p \<Longrightarrow> upperBoundary p \<le> slotOffset i \<and> slotOffset i + 8 \<le> 4096"
  using slotOffset_bounds [of i "slotCount p"] by (auto simp: bodyOk_def)

section \<open>Preservation and refinement\<close>

lemma zero_readSlot:
  assumes "\<And>k. slotOffset i \<le> k \<Longrightarrow> k < slotOffset i + 8 \<Longrightarrow> p ! k = 0"
  shows "readSlot p i = \<lparr>tupleOffset = 0, tupleLength = 0, flags = 0, reserved = 0\<rparr>"
  unfolding readSlot_def Let_def by (auto intro!: get_le_zeros assms)

lemma tupleAt_cong:
  assumes "readSlot q i = readSlot p i" "length q = length p"
    and "\<And>k. fst (slotRange p i) \<le> k \<Longrightarrow> k < snd (slotRange p i) \<Longrightarrow> q ! k = p ! k"
  shows "tupleAt q i = tupleAt p i"
  unfolding tupleAt_def assms(1)
  by (rule subspan_cong) (use assms in \<open>auto simp: slotRange_def Let_def\<close>)

text \<open>A new slot at the end of the directory.\<close>

definition extendDirectory :: "page \<Rightarrow> page" where
  "extendDirectory p =
     (let p1 = put16 p SLOT_COUNT_OFFSET (get16 p SLOT_COUNT_OFFSET + 1)
      in put16 p1 UPPER_BOUNDARY_OFFSET (get16 p1 UPPER_BOUNDARY_OFFSET - 8))"

lemma extendDirectory_props:
  assumes "bodyOk p" "length p = 4096" "8 \<le> freeSpace p"
  shows "bodyOk (extendDirectory p)" "slotsOf (extendDirectory p) = slotsOf p @ [None]"
    "length (extendDirectory p) = 4096" "sameHeader (extendDirectory p) p"
    "lowerBoundary (extendDirectory p) = lowerBoundary p"
proof -
  let ?q = "extendDirectory p" and ?n = "slotCount p"
  have body: "lowerBoundary p + 8 \<le> upperBoundary p" "48 \<le> lowerBoundary p" "upperBoundary p = 4096 - 8 * ?n"
    using assms by (auto simp: bodyOk_def freeSpace_eq)
  then have n: "?n < 506" by linarith
  show len: "length ?q = 4096" using assms(2) by (simp add: extendDirectory_def Let_def)
  show sh: "sameHeader ?q p"
    using assms(2) by (auto simp: extendDirectory_def Let_def sameHeader_def nth_put_le)
  have nth: "?q ! k = p ! k" if "48 \<le> k" "k < 4096" for k
    using that assms(2) by (simp add: extendDirectory_def Let_def nth_put_le)
  have sc: "slotCount ?q = Suc ?n"
    using n assms(2) by (simp add: extendDirectory_def Let_def slotCount_def unat_word_ariths)
  have lc: "liveCount ?q = liveCount p"
    using assms(2) by (simp add: extendDirectory_def Let_def liveCount_def)
  show lo: "lowerBoundary ?q = lowerBoundary p"
    using assms(2) by (simp add: extendDirectory_def Let_def lowerBoundary_def)
  have "(8::u16) \<le> get16 p 22"
    using body(1) by (simp add: word_le_nat_alt upperBoundary_def)
  then have up: "upperBoundary ?q = upperBoundary p - 8"
    using assms(2) by (simp add: extendDirectory_def Let_def upperBoundary_def unat_sub)
  have slot: "readSlot ?q i = readSlot p i" if "i < 506" for i
    by (rule readSlot_cong) (use slotOffset_low [OF that] nth in auto)
  have "slotOffset ?n = upperBoundary p - 8"
    using n body by (simp add: slotOffset_def)
  then have new: "readSlot p ?n = \<lparr>tupleOffset = 0, tupleLength = 0, flags = 0, reserved = 0\<rparr>"
    using assms(1) body by (intro zero_readSlot) (auto simp: bodyOk_def)
  have live: "liveIds ?q = liveIds p"
    using n by (auto simp: liveIds_def sc slot new intro!: filter_cong)
  have ids: "i < ?n" if "i \<in> set (liveIds p)" for i using that by (simp add: liveIds_set)
  have rng: "slotRange ?q i = slotRange p i" if "i < ?n" for i
    using that n by (simp add: slotRange_def slot)
  have ok: "slotOk ?q i" if "i < Suc ?n" for i
    using that n assms(1) new by (cases "i = ?n") (auto simp: slotOk_def slot lo bodyOk_def)
  have rs: "map (slotRange ?q) (liveIds p) = map (slotRange p) (liveIds p)"
    by (simp add: rng ids)
  have z: "?q ! k = 0" if "lowerBoundary p \<le> k" "k < upperBoundary p - 8" for k
    using that assms(1) body nth [of k] by (auto simp: bodyOk_def)
  show "bodyOk ?q"
    unfolding bodyOk_def sc lc lo up live rs using assms(1) n body ok z by (auto simp: bodyOk_def)
  have "tupleAt ?q i = tupleAt p i" if "i < ?n" "flags (readSlot p i) = 1" for i
    using live_range [OF assms(1) that] that n assms(2) len nth slot
    by (intro tupleAt_cong) auto
  then show "slotsOf ?q = slotsOf p @ [None]"
    using n by (auto simp: slotsOf_def sc slot new)
qed

lemma insertAt_slots:
  assumes "bodyOk p" "length p = 4096" "i < slotCount p" "lowerBoundary p + length t \<le> upperBoundary p"
  defines "q \<equiv> insertAt p i t"
  shows "length q = 4096" "sameHeader q p" "slotCount q = slotCount p" "upperBoundary q = upperBoundary p"
    "lowerBoundary q = lowerBoundary p + length t" "get16 q LIVE_COUNT_OFFSET = get16 p LIVE_COUNT_OFFSET + 1"
    "readSlot q i = \<lparr>tupleOffset = get16 p LOWER_BOUNDARY_OFFSET, tupleLength = of_nat (length t),
                     flags = 1, reserved = 0\<rparr>"
    "j < slotCount p \<Longrightarrow> j \<noteq> i \<Longrightarrow> readSlot q j = readSlot p j"
    "48 \<le> k \<Longrightarrow> k < upperBoundary p \<Longrightarrow>
       q ! k = (if lowerBoundary p \<le> k \<and> k < lowerBoundary q then t ! (k - lowerBoundary p) else p ! k)"
proof -
  let ?off = "get16 p LOWER_BOUNDARY_OFFSET"
  let ?p1 = "overwrite p (lowerBoundary p) t"
  let ?p2 = "writeSlot ?p1 i \<lparr>tupleOffset = ?off, tupleLength = of_nat (length t), flags = 1, reserved = 0\<rparr>"
  let ?p3 = "put16 ?p2 LOWER_BOUNDARY_OFFSET (of_nat (lowerBoundary p + length t))"
  have q: "q = put16 ?p3 LIVE_COUNT_OFFSET (get16 ?p3 LIVE_COUNT_OFFSET + 1)"
    by (simp add: q_def insertAt_def Let_def lowerBoundary_def)
  have n: "i < 506" "slotCount p \<le> 506" and b: "48 \<le> lowerBoundary p" "upperBoundary p = 4096 - 8 * slotCount p"
    using assms(1,3) by (auto simp: bodyOk_def)
  have ib: "upperBoundary p \<le> slotOffset i" "slotOffset i + 8 \<le> 4096"
    using slotOffset_bounds [OF assms(3) n(2)] b by auto
  have l1 [simp]: "length ?p1 = 4096" using assms(2,4) b by simp
  show len: "length q = 4096" by (simp add: q)
  have nth2: "?p2 ! k = (if lowerBoundary p \<le> k \<and> k < lowerBoundary p + length t
      then t ! (k - lowerBoundary p) else p ! k)" if "k < upperBoundary p" for k
    using that n ib b assms(2,4) by (simp add: nth_writeSlot_other nth_overwrite)
  then have hdr: "?p2 ! k = p ! k" if "k < 48" for k
    using that b assms(4) by auto
  have g: "get_le w ?p2 off = (get_le w p off :: u16)" if "off + w \<le> 48" for w off
    by (rule get_le_cong_range) (use that hdr in auto)
  show "sameHeader q p"
    using assms(2) hdr by (auto simp: q sameHeader_def nth_put_le)
  show "slotCount q = slotCount p" "upperBoundary q = upperBoundary p"
    using assms(2) by (simp_all add: q slotCount_def upperBoundary_def g)
  show lo: "lowerBoundary q = lowerBoundary p + length t"
    using assms(2,4) b by (simp add: q lowerBoundary_def del: of_nat_add)
  show "get16 q LIVE_COUNT_OFFSET = get16 p LIVE_COUNT_OFFSET + 1"
    using assms(2) by (simp add: q g)
  have slot: "readSlot q j = readSlot ?p2 j" if "j < 506" for j
    using that assms(2) by (simp add: q readSlot_put_header)
  show "readSlot q i = \<lparr>tupleOffset = ?off, tupleLength = of_nat (length t), flags = 1, reserved = 0\<rparr>"
    using assms(2) n slot by simp
  show "readSlot q j = readSlot p j" if "j < slotCount p" "j \<noteq> i"
  proof -
    have "readSlot q j = readSlot ?p1 j"
      using that n assms(2) slot by (simp add: readSlot_writeSlot_other)
    also have "\<dots> = readSlot p j"
      by (rule readSlot_cong)
        (use slotOffset_bounds [OF that(1) n(2)] b assms(2,4) in \<open>auto simp: nth_overwrite\<close>)
    finally show ?thesis .
  qed
  show "q ! k = (if lowerBoundary p \<le> k \<and> k < lowerBoundary q then t ! (k - lowerBoundary p) else p ! k)"
    if "48 \<le> k" "k < upperBoundary p"
    using that assms(2) b unfolding lo by (simp add: q nth_put_le nth2)
qed

lemma filter_insert_live:
  assumes "i < n" "\<not> P i" "Q i" "\<And>j. j < n \<Longrightarrow> j \<noteq> i \<Longrightarrow> Q j = P j"
  shows "mset (filter Q [0..<n]) = mset (i # filter P [0..<n])"
proof -
  have split: "[0..<n] = [0..<i] @ i # [Suc i..<n]"
    using assms(1) by (metis less_imp_le upt_add_eq_append upt_conv_Cons zero_le le_add_diff_inverse)
  have "filter Q [0..<i] = filter P [0..<i]" "filter Q [Suc i..<n] = filter P [Suc i..<n]"
    using assms by (auto intro: filter_cong)
  then show ?thesis unfolding split using assms(2,3) by simp
qed

lemma insertAt_props:
  assumes "bodyOk p" "length p = 4096" "i < slotCount p" "slotsOf p ! i = None"
    and "lowerBoundary p + length t \<le> upperBoundary p" "t \<noteq> []"
  shows "bodyOk (insertAt p i t)" "slotsOf (insertAt p i t) = (slotsOf p)[i := Some t]"
    "length (insertAt p i t) = 4096" "sameHeader (insertAt p i t) p"
proof -
  let ?q = "insertAt p i t" and ?lo = "lowerBoundary p"
  note q = insertAt_slots [OF assms(1,2,3,5)]
  show "length ?q = 4096" "sameHeader ?q p" by (rule q)+
  have body: "slotCount p \<le> 506" "48 \<le> ?lo" "upperBoundary p = 4096 - 8 * slotCount p"
    "liveCount p = length (liveIds p)"
    using assms(1) by (auto simp: bodyOk_def)
  have nl: "flags (readSlot p i) \<noteq> 1" using assms(3,4) by (simp add: nth_slotsOf split: if_splits)
  have lu: "unat (get16 p LOWER_BOUNDARY_OFFSET) = ?lo" by (simp add: lowerBoundary_def)
  have lt: "unat (of_nat (length t) :: u16) = length t" using assms(5) body by simp
  have rng_i: "slotRange ?q i = (?lo, ?lo + length t)"
    by (simp add: slotRange_def q lu lt)
  have rng: "slotRange ?q j = slotRange p j" if "j < slotCount p" "j \<noteq> i" for j
    using that by (simp add: slotRange_def q)
  have ms: "mset (liveIds ?q) = mset (i # liveIds p)"
    unfolding liveIds_def q(3) by (rule filter_insert_live) (use nl assms(3) q in auto)
  have "i \<notin> set (liveIds p)" using nl by (simp add: liveIds_set)
  then have "map (slotRange ?q) (liveIds p) = map (slotRange p) (liveIds p)"
    by (auto simp: liveIds_set intro!: rng)
  then have "mset (map (slotRange ?q) (liveIds ?q)) = mset ((?lo, ?lo + length t) # map (slotRange p) (liveIds p))"
    using ms rng_i by (metis list.map(2) mset_map)
  moreover have "slotRange p j \<le> (?lo, ?lo + length t)" if "j \<in> set (liveIds p)" for j
    using live_range [OF assms(1), of j] that by (cases "slotRange p j") (simp add: liveIds_set)
  ultimately have sort: "sort (map (slotRange ?q) (liveIds ?q)) =
      sort (map (slotRange p) (liveIds p)) @ [(?lo, ?lo + length t)]"
    by (intro sort_snoc_greatest) simp_all
  have "length (liveIds p) < length (liveIds ?q)" using ms [THEN arg_cong [where f = size]] by simp
  moreover have "length (liveIds ?q) \<le> slotCount p"
    using length_filter_le [of _ "[0..<slotCount p]"] by (simp add: liveIds_def q)
  ultimately have live: "liveCount ?q = length (liveIds ?q)"
    using body ms [THEN arg_cong [where f = size]] by (simp add: liveCount_def q unat_word_ariths)
  have "tupleLength (readSlot ?q i) \<noteq> 0" using lt assms(6) by (auto simp: q)
  then have ok: "slotOk ?q j" if "j < slotCount p" for j
    using that assms(1) q rng_i body
    by (cases "j = i") (fastforce simp: slotOk_def slotRange_def bodyOk_def Let_def)+
  have "validateRanges 48 (sort (map (slotRange ?q) (liveIds ?q))) = Inr (lowerBoundary ?q)"
    using assms(1) unfolding sort q(5) by (intro validateRanges_snoc) (simp add: bodyOk_def)
  moreover have "?q ! k = 0" if "lowerBoundary ?q \<le> k" "k < upperBoundary p" for k
    using that q(9) [of k] body assms(1) unfolding q(5) by (auto simp: bodyOk_def)
  ultimately show "bodyOk ?q"
    using body ok live assms(5) by (auto simp: bodyOk_def q(3-5))
  have "tupleAt ?q i = t"
  proof (rule nth_equalityI)
    show "length (tupleAt ?q i) = length t"
      using q(1) assms(5) body by (simp add: tupleAt_def q(7) lu lt)
    then show "tupleAt ?q i ! k = t ! k" if "k < length (tupleAt ?q i)" for k
      using that q(9) [of "?lo + k"] q(1,5) body assms(5)
      by (simp add: tupleAt_def q(7) lu lt nth_subspan)
  qed
  moreover have "tupleAt ?q j = tupleAt p j" if "j < slotCount p" "j \<noteq> i" "flags (readSlot p j) = 1" for j
    using live_range [OF assms(1) that(1,3)] q that assms(2)
    by (intro tupleAt_cong) auto
  ultimately show "slotsOf ?q = (slotsOf p)[i := Some t]"
    using assms(3) q by (intro nth_equalityI) (auto simp: nth_slotsOf nth_list_update)
qed

lemma insert_ok:
  assumes "bodyOk p" "length p = 4096" "t \<noteq> []" "length t \<le> 4040" "dirFits (slotsOf p) (length t)"
  shows "\<exists>q. insert p t = Inr (q, dirSlot (slotsOf p)) \<and> bodyOk q \<and> length q = 4096 \<and> sameHeader q p \<and>
    slotsOf q = dirPut (slotsOf p) (dirSlot (slotsOf p)) t"
proof -
  have v: "validateTupleSize (length t) = Inr ()" "canFit p (length t)"
    using assms by (simp_all add: validateTupleSize_def throw_if_eq canFit_eq)
  have sp: "upperBoundary p - lowerBoundary p = dirSpace (slotsOf p)"
    using assms(1,2) by (simp add: freeSpace_eq [symmetric] freeSpace_dirSpace)
  show ?thesis
  proof (cases "firstFreeSlot p")
    case (Some i)
    then have f: "List.find (\<lambda>i. slotsOf p ! i = None) [0..<length (slotsOf p)] = Some i"
      by (simp add: firstFreeSlot_eq [OF assms(1)])
    then have i: "i < slotCount p" "slotsOf p ! i = None" by (auto simp: find_Some_iff)
    have slot: "dirSlot (slotsOf p) = i" unfolding dirSlot_def f by simp
    have "lowerBoundary p + length t \<le> upperBoundary p"
      using assms(1,3,5) sp by (cases t) (auto simp: dirFits_def bodyOk_def split: if_splits)
    note q = insertAt_props [OF assms(1,2) i this assms(3)]
    with Some i slot v show ?thesis by (auto simp: insert_def dirPut_def)
  next
    case None
    then have full: "None \<notin> set (slotsOf p)" and slot: "dirSlot (slotsOf p) = slotCount p"
      by (simp_all add: firstFreeSlot_eq [OF assms(1)] find_None_slot [symmetric] dirSlot_def)
    let ?p = "extendDirectory p"
    have room: "length t + 8 \<le> upperBoundary p - lowerBoundary p"
      using assms(5) full sp by (simp add: dirFits_def)
    then have free: "8 \<le> freeSpace p" and n: "slotCount p < 506"
      using assms(1) by (auto simp: freeSpace_eq bodyOk_def)
    note e = extendDirectory_props [OF assms(1,2) free]
    have sc: "slotCount ?p = Suc (slotCount p)"
      using e(2) by (metis length_slotsOf length_append_singleton)
    have "upperBoundary ?p = upperBoundary p - 8"
      using e(1) assms(1) sc by (auto simp: bodyOk_def)
    then have "lowerBoundary ?p + length t \<le> upperBoundary ?p"
      using room e(5) assms(1) by (auto simp: bodyOk_def)
    moreover have "slotsOf ?p ! slotCount p = None"
      unfolding e(2) by (metis length_slotsOf nth_append_length)
    ultimately have q: "bodyOk (insertAt ?p (slotCount p) t)"
      "slotsOf (insertAt ?p (slotCount p) t) = (slotsOf ?p)[slotCount p := Some t]"
      "length (insertAt ?p (slotCount p) t) = 4096" "sameHeader (insertAt ?p (slotCount p) t) ?p"
      using insertAt_props [OF e(1,3), of "slotCount p" t] sc assms(3) by auto
    have "insert p t = Inr (insertAt ?p (slotCount p) t, slotCount p)"
      using None v n by (simp add: insert_def extendDirectory_def Let_def)
    moreover have "(slotsOf ?p)[slotCount p := Some t] = slotsOf p @ [Some t]"
      unfolding e(2) by (metis length_slotsOf list_update_length)
    ultimately show ?thesis
      using q slot sameHeader_trans [OF q(4) e(4)] by (auto simp: dirPut_def)
  qed
qed

lemma insert_error:
  assumes "bodyOk p" "length p = 4096"
  shows "insert p t = Inl x \<longleftrightarrow>
    (if t = [] then x = InvalidArgument ''Zero-length tuples are not supported.''
     else if length t > 4040 then x = InvalidArgument ''Tuple exceeds the maximum inline slotted-page size.''
     else \<not> dirFits (slotsOf p) (length t) \<and>
       x = OverflowError ''Slotted page has insufficient space for tuple and slot.'')"
proof (cases "t \<noteq> [] \<and> length t \<le> 4040 \<and> dirFits (slotsOf p) (length t)")
  case True
  with insert_ok [OF assms, of t] show ?thesis by auto
next
  case False
  then show ?thesis
    using canFit_eq [OF assms, of "length t"]
    by (auto simp: insert_def validateTupleSize_def throw_if_def)
qed

lemma rewritePayload_props:
  assumes len: "length p = 4096" and n: "slotCount p \<le> 506" and up: "upperBoundary p = 4096 - 8 * slotCount p"
    and lc: "liveCount p = length ts" and ids: "map fst ts = liveIds p"
    and ne: "\<forall>(i, t)\<in>set ts. t \<noteq> []" and fit: "48 + bytesOf ts \<le> upperBoundary p"
    and free: "\<And>i. i < slotCount p \<Longrightarrow> flags (readSlot p i) \<noteq> 1 \<Longrightarrow>
      readSlot p i = \<lparr>tupleOffset = 0, tupleLength = 0, flags = 0, reserved = 0\<rparr>"
  shows "bodyOk (rewritePayload p ts)" "slotsOf (rewritePayload p ts) = map (map_of ts) [0..<slotCount p]"
    "length (rewritePayload p ts) = 4096" "sameHeader (rewritePayload p ts) p"
proof -
  let ?q = "rewritePayload p ts" and ?n = "slotCount p" and ?e = "48 + bytesOf ts"
  let ?p0 = "overwrite p HEADER_SIZE (replicate (upperBoundary p - HEADER_SIZE) 0)"
  have l0: "length ?p0 = 4096" using len up n by simp
  have in_ids: "i < ?n \<and> flags (readSlot p i) = 1 \<longleftrightarrow> i \<in> fst ` set ts" for i
    by (metis ids liveIds_set set_map)
  have dist: "distinct (map fst ts)" unfolding ids liveIds_def by simp
  obtain r e where loop: "rewriteLoop ?p0 48 ts = (r, e)" by fastforce
  then have q: "?q = put16 r LOWER_BOUNDARY_OFFSET (of_nat e)"
    by (simp add: rewritePayload_def Let_def)
  have R: "length r = 4096 \<and> e = ?e \<and> (\<forall>k < 4096 - 8 * ?n. k < 48 \<or> e \<le> k \<longrightarrow> r ! k = ?p0 ! k) \<and>
    (\<forall>j < ?n. j \<notin> fst ` set ts \<longrightarrow> readSlot r j = readSlot ?p0 j) \<and> placed r 48 ts"
    by (rule rewriteLoop_props [OF loop l0 n]) (use fit up dist in_ids in auto)
  then have e: "e = ?e" and lr: "length r = 4096" by auto
  show lq: "length ?q = 4096" using lr by (simp add: q)
  have hdr: "r ! k = p ! k" if "k < 48" for k
    using R that len n up by (auto simp: nth_overwrite)
  have g: "get_le w r off = (get_le w p off :: u16)" if "off + w \<le> 48" for w off
    by (rule get_le_cong_range) (use that hdr in auto)
  show sh: "sameHeader ?q p" using hdr lr by (auto simp: q sameHeader_def nth_put_le)
  have sc: "slotCount ?q = ?n" and uq: "upperBoundary ?q = upperBoundary p" and lcq: "liveCount ?q = liveCount p"
    using lr by (simp_all add: q slotCount_def upperBoundary_def liveCount_def g)
  have lo: "lowerBoundary ?q = ?e"
    using fit up lr by (simp add: q lowerBoundary_def e del: of_nat_add)
  have slot: "readSlot ?q j = readSlot r j" if "j < ?n" for j
    using that n lr by (simp add: q readSlot_put_header)
  have nth: "?q ! k = r ! k" if "48 \<le> k" "k < 4096" for k
    using that lr by (simp add: q nth_put_le)
  have e': "?e \<le> 4096" using fit up by simp
  have freeq: "readSlot ?q j = \<lparr>tupleOffset = 0, tupleLength = 0, flags = 0, reserved = 0\<rparr>"
    if "j < ?n" "j \<notin> fst ` set ts" for j
  proof -
    have "readSlot ?p0 j = readSlot p j"
      by (rule readSlot_cong)
        (use slotOffset_bounds [OF that(1) n] n up len in \<open>auto simp: nth_overwrite\<close>)
    with that R slot free in_ids show ?thesis by auto
  qed
  have liveq: "flags (readSlot ?q j) = 1 \<and> reserved (readSlot ?q j) = 0 \<and> tupleAt ?q j = t \<and>
      unat (tupleLength (readSlot ?q j)) = length t \<and> 48 \<le> fst (slotRange ?q j) \<and> snd (slotRange ?q j) \<le> ?e"
    if "(j, t) \<in> set ts" for j t
  proof -
    have j: "j < ?n" using in_ids that by force
    have L: "flags (readSlot r j) = 1 \<and> reserved (readSlot r j) = 0 \<and> tupleAt r j = t \<and>
      unat (tupleLength (readSlot r j)) = length t \<and> 48 \<le> unat (tupleOffset (readSlot r j)) \<and>
      snd (slotRange r j) \<le> ?e"
      by (rule placed_lookup) (use R that e' in auto)
    have "tupleAt ?q j = tupleAt r j"
      by (rule tupleAt_cong) (use slot [OF j] lq lr nth L e' in \<open>auto simp: slotRange_def Let_def\<close>)
    with L slot [OF j] show ?thesis by (simp add: slotRange_def Let_def)
  qed
  have "flags (readSlot ?q j) = 1 \<longleftrightarrow> flags (readSlot p j) = 1" if "j < ?n" for j
    using liveq freeq [OF that] that in_ids [of j] by (cases "j \<in> fst ` set ts") fastforce+
  then have live: "liveIds ?q = map fst ts"
    unfolding ids by (auto simp: liveIds_def sc intro!: filter_cong)
  have "slotRange ?q j = slotRange r j" if "j \<in> fst ` set ts" for j
    using that slot [of j] in_ids [of j] by (simp add: slotRange_def)
  then have rng: "map (slotRange ?q) (map fst ts) = map (slotRange r) (map fst ts)"
    by simp
  have pr: "sorted (map (slotRange r) (map fst ts)) \<and>
      validateRanges 48 (map (slotRange r) (map fst ts)) = Inr ?e"
    by (rule placed_ranges) (use R e' ne in auto)
  have ok: "slotOk ?q j" if j: "j < ?n" for j
  proof (cases "j \<in> fst ` set ts")
    case True
    then obtain t where t: "(j, t) \<in> set ts" by auto
    with ne have "length t \<noteq> 0" by auto
    then have "tupleLength (readSlot ?q j) \<noteq> 0" using liveq [OF t] by force
    then show ?thesis using liveq [OF t] by (simp add: slotOk_def slotRange_def lo Let_def)
  qed (simp add: freeq j slotOk_def)
  have zero: "?q ! k = 0" if "?e \<le> k" "k < upperBoundary p" for k
  proof -
    have "?q ! k = ?p0 ! k" using that R e up nth [of k] n by auto
    then show ?thesis using that len up n by (simp add: nth_overwrite)
  qed
  show "bodyOk ?q"
    unfolding bodyOk_def sc uq lcq lo live rng
    using n up fit ok zero pr lc by (auto simp: sorted_sort_id)
  have "map_of ts j = (if flags (readSlot ?q j) = 1 then Some (tupleAt ?q j) else None)" if "j < ?n" for j
  proof (cases "j \<in> fst ` set ts")
    case True
    then obtain t where "(j, t) \<in> set ts" by auto
    with liveq [OF this] dist show ?thesis by simp
  next
    case False
    with freeq [OF that] show ?thesis by (simp add: map_of_eq_None_iff)
  qed
  then show "slotsOf ?q = map (map_of ts) [0..<?n]"
    by (auto simp: slotsOf_def sc)
qed


lemma liveTuples_eq: "liveTuples p = map (\<lambda>i. (i, tupleAt p i)) (liveIds p)"
  by (simp add: liveTuples_def liveIds_def)

lemma liveTuples_fst: "map fst (liveTuples p) = liveIds p"
  by (simp add: liveTuples_def liveIds_def comp_def)

lemma map_of_liveTuples:
  "map_of (liveTuples p) i =
     (if i < slotCount p \<and> flags (readSlot p i) = 1 then Some (tupleAt p i) else None)"
  by (auto simp: liveTuples_def map_of_map_restrict restrict_map_def)

lemma liveTuples_nonempty:
  assumes "bodyOk p" "length p = 4096" "(i, t) \<in> set (liveTuples p)"
  shows "t \<noteq> []"
proof -
  from assms(3) have i: "i < slotCount p" "flags (readSlot p i) = 1" "t = tupleAt p i"
    by (auto simp: liveTuples_def)
  show ?thesis
    using length_tupleAt [OF assms(1,2) i(1,2)] live_range [OF assms(1) i(1,2)]
    by (auto simp: i(3) slotRange_def Let_def)
qed

lemma bytesOf_liveTuples:
  assumes "bodyOk p" "length p = 4096"
  shows "bytesOf (liveTuples p) = lowerBoundary p - 48"
proof -
  have "bytesOf (liveTuples p) = (\<Sum>i\<leftarrow>liveIds p. length (tupleAt p i))"
    by (simp add: liveTuples_def liveIds_def comp_def)
  also have "\<dots> = (\<Sum>i\<leftarrow>liveIds p. unat (tupleLength (readSlot p i)))"
    by (intro arg_cong [where f = sum_list] map_cong) (auto simp: liveIds_set length_tupleAt [OF assms])
  finally show ?thesis using lowerBoundary_eq [OF assms(1)] by simp
qed

lemma free_slot_zero:
  assumes "bodyOk p" "i < slotCount p" "flags (readSlot p i) \<noteq> 1"
  shows "readSlot p i = \<lparr>tupleOffset = 0, tupleLength = 0, flags = 0, reserved = 0\<rparr>"
  using assms by (cases rule: slotOk_cases [OF assms(1,2)]) auto

lemma compact_props:
  assumes "bodyOk p" "length p = 4096"
  shows "bodyOk (compact p)" "slotsOf (compact p) = slotsOf p" "length (compact p) = 4096"
    "sameHeader (compact p) p"
proof -
  have "48 + bytesOf (liveTuples p) \<le> upperBoundary p"
    using assms by (auto simp: bytesOf_liveTuples bodyOk_def)
  moreover have "liveCount p = length (liveTuples p)"
    using assms(1) liveTuples_fst [of p, THEN arg_cong [where f = length]] by (simp add: bodyOk_def)
  moreover have "slotCount p \<le> 506" "upperBoundary p = 4096 - 8 * slotCount p"
    using assms(1) by (simp_all add: bodyOk_def)
  moreover have "\<forall>(i, t)\<in>set (liveTuples p). t \<noteq> []"
    using liveTuples_nonempty [OF assms] by auto
  ultimately have R: "bodyOk (compact p)" "slotsOf (compact p) = map (map_of (liveTuples p)) [0..<slotCount p]"
    "length (compact p) = 4096" "sameHeader (compact p) p"
    unfolding compact_def
    using rewritePayload_props [OF assms(2), of "liveTuples p"] free_slot_zero [OF assms(1)] liveTuples_fst [of p]
    by blast+
  then show "bodyOk (compact p)" "length (compact p) = 4096" "sameHeader (compact p) p" by auto
  show "slotsOf (compact p) = slotsOf p"
    unfolding R(2) by (auto simp: slotsOf_def map_of_liveTuples)
qed

lemma assignFirst_fst [simp]: "map fst (assignFirst i t ts) = map fst ts"
  by (induction i t ts rule: assignFirst.induct) auto

lemma length_assignFirst [simp]: "length (assignFirst i t ts) = length ts"
  by (induction i t ts rule: assignFirst.induct) auto

lemma map_of_assignFirst:
  "map_of (assignFirst i t ts) j = (if j = i \<and> map_of ts i \<noteq> None then Some t else map_of ts j)"
  by (induction i t ts rule: assignFirst.induct) auto

lemma bytesOf_assignFirst:
  "map_of ts i = Some u \<Longrightarrow> bytesOf (assignFirst i t ts) + length u = bytesOf ts + length t"
  by (induction i t ts rule: assignFirst.induct) (auto split: if_splits)

lemma set_assignFirst: "(j, s) \<in> set (assignFirst i t ts) \<Longrightarrow> s = t \<or> (j, s) \<in> set ts"
  by (induction i t ts rule: assignFirst.induct) (auto split: if_splits)

lemma tryUpdate_rewrite:
  assumes "bodyOk p" "length p = 4096" "i < slotCount p" "slotsOf p ! i = Some u"
    and "t \<noteq> []" "length t \<le> freeSpace p + length u"
  defines "q \<equiv> rewritePayload p (assignFirst i t (liveTuples p))"
  shows "bodyOk q" "slotsOf q = (slotsOf p)[i := Some t]" "length q = 4096" "sameHeader q p"
proof -
  let ?ts = "assignFirst i t (liveTuples p)"
  have live: "flags (readSlot p i) = 1" "u = tupleAt p i"
    using assms(3,4) by (auto simp: nth_slotsOf split: if_splits)
  then have mo: "map_of (liveTuples p) i = Some u" using assms(3) by (simp add: map_of_liveTuples)
  have "48 + bytesOf ?ts \<le> upperBoundary p"
    using bytesOf_assignFirst [OF mo, of t] bytesOf_liveTuples [OF assms(1,2)] assms(1,6)
    by (auto simp: freeSpace_eq bodyOk_def)
  moreover have "liveCount p = length ?ts"
    using assms(1) liveTuples_fst [of p, THEN arg_cong [where f = length]] by (simp add: bodyOk_def)
  moreover have "slotCount p \<le> 506" "upperBoundary p = 4096 - 8 * slotCount p"
    using assms(1) by (simp_all add: bodyOk_def)
  moreover have "\<forall>(j, s)\<in>set ?ts. s \<noteq> []"
    using liveTuples_nonempty [OF assms(1,2)] set_assignFirst assms(5) by fastforce
  moreover have "map fst ?ts = liveIds p" by (simp add: liveTuples_fst)
  ultimately have R: "bodyOk q" "slotsOf q = map (map_of ?ts) [0..<slotCount p]" "length q = 4096" "sameHeader q p"
    unfolding q_def
    using rewritePayload_props [OF assms(2), of ?ts] free_slot_zero [OF assms(1)] by blast+
  then show "bodyOk q" "length q = 4096" "sameHeader q p" by auto
  show "slotsOf q = (slotsOf p)[i := Some t]"
    unfolding R(2)
    by (rule nth_equalityI)
      (auto simp: map_of_assignFirst live nth_slotsOf map_of_liveTuples nth_list_update)
qed

lemma pair_in_mset_nth:
  assumes "{#x, y#} \<subseteq># mset xs"
  obtains m n where "m < length xs" "n < length xs" "m \<noteq> n" "xs ! m = x" "xs ! n = y"
proof -
  from assms have "x \<in> set xs" by (metis insert_subset_eq_iff set_mset_mset add_mset_add_single)
  then obtain m where m: "m < length xs" "xs ! m = x" by (auto simp: in_set_conv_nth)
  let ?r = "take m xs @ drop (Suc m) xs"
  have ms: "mset xs = add_mset x (mset ?r)"
    using id_take_nth_drop [OF m(1)] m(2) by (metis mset.simps(2) mset_append union_mset_add_mset_right)
  have "y \<in> set ?r" using assms unfolding ms by (simp add: single_subset_iff)
  then obtain k where k: "k < length ?r" "?r ! k = y" by (metis in_set_conv_nth)
  have "xs ! (if k < m then k else Suc k) = y"
    using k m by (auto simp: nth_append)
  then show ?thesis
    using k m that [of m "if k < m then k else Suc k"] by (auto split: if_splits)
qed

lemma filter_eq_singleton: "i < n \<Longrightarrow> P i \<Longrightarrow> filter (\<lambda>j. j = i) (filter P [0..<n]) = [i]"
  by (induction n) (auto simp: less_Suc_eq)

text \<open>Contiguous ranges are pairwise disjoint, so live tuples never share a byte.\<close>

lemma validateRanges_lower:
  "validateRanges c rs = Inr e \<Longrightarrow> \<forall>(b, e')\<in>set rs. b \<le> e' \<Longrightarrow> (b, e') \<in> set rs \<Longrightarrow> c \<le> b"
  by (induction c rs rule: validateRanges.induct) (fastforce split: if_splits)+

lemma validateRanges_disjoint:
  assumes "validateRanges c rs = Inr e" "\<forall>(b, e')\<in>set rs. b < e'" "m < length rs" "n < length rs" "m < n"
  shows "snd (rs ! m) \<le> fst (rs ! n)"
  using assms
proof (induction c rs arbitrary: m n rule: validateRanges.induct)
  case (2 c b e' rs)
  then have IH: "validateRanges e' rs = Inr e" by (simp split: if_splits)
  obtain n' where n: "n = Suc n'" using "2.prems" by (cases n) auto
  show ?case
  proof (cases m)
    case 0
    have "e' \<le> fst (rs ! n')"
      by (rule validateRanges_lower [OF IH, where e' = "snd (rs ! n')"])
        (use "2.prems" n in \<open>auto intro: less_imp_le\<close>)
    with 0 n show ?thesis by simp
  next
    case (Suc m')
    then show ?thesis using "2.IH" [of m' n'] "2.prems" n IH by (auto split: if_splits)
  qed
qed auto

lemma live_ranges_disjoint:
  assumes "bodyOk p" "i < slotCount p" "flags (readSlot p i) = 1"
    and "j < slotCount p" "flags (readSlot p j) = 1" "j \<noteq> i"
  shows "snd (slotRange p i) \<le> fst (slotRange p j) \<or> snd (slotRange p j) \<le> fst (slotRange p i)"
proof -
  let ?xs = "map (slotRange p) (liveIds p)"
  have ok: "validateRanges 48 (sort ?xs) = Inr (lowerBoundary p)" using assms(1) by (simp add: bodyOk_def)
  have ne: "\<forall>(b, e')\<in>set (sort ?xs). b < e'"
    using live_range(2) [OF assms(1)] by (auto simp: liveIds_set) (metis fst_conv snd_conv)
  have sep: "snd r \<le> fst r' \<or> snd r' \<le> fst r" if "{#r, r'#} \<subseteq># mset ?xs" for r r'
  proof -
    have "{#r, r'#} \<subseteq># mset (sort ?xs)" using that by simp
    then obtain m n where "m < length (sort ?xs)" "n < length (sort ?xs)" "m \<noteq> n"
      "sort ?xs ! m = r" "sort ?xs ! n = r'"
      by (rule pair_in_mset_nth)
    then show ?thesis using validateRanges_disjoint [OF ok ne, of m n] validateRanges_disjoint [OF ok ne, of n m]
      by (cases "m < n") auto
  qed
  have "{#i, j#} \<subseteq># mset (liveIds p)"
    using assms by (auto simp: insert_subset_eq_iff liveIds_set in_diff_count)
  then have "image_mset (slotRange p) {#i, j#} \<subseteq># mset ?xs"
    unfolding mset_map by (rule image_mset_subseteq_mono)
  then show ?thesis using sep by simp
qed

lemma update_in_place:
  assumes "bodyOk p" "length p = 4096" "i < slotCount p" "slotsOf p ! i = Some u" "length t = length u"
  defines "q \<equiv> overwrite p (fst (slotRange p i)) t"
  shows "bodyOk q" "slotsOf q = (slotsOf p)[i := Some t]" "length q = 4096" "sameHeader q p"
proof -
  have live: "flags (readSlot p i) = 1" "u = tupleAt p i"
    using assms(3,4) by (auto simp: nth_slotsOf split: if_splits)
  note r = live_range [OF assms(1,3) live(1)]
  have lt: "snd (slotRange p i) = fst (slotRange p i) + length t"
    using length_tupleAt [OF assms(1-3) live(1)] live(2) assms(5) by (simp add: slotRange_def Let_def)
  have nth: "q ! k = (if fst (slotRange p i) \<le> k \<and> k < snd (slotRange p i)
      then t ! (k - fst (slotRange p i)) else p ! k)" if "k < 4096" for k
    using that r lt assms(2) by (simp add: q_def nth_overwrite)
  show lq: "length q = 4096" using r lt assms(2) by (simp add: q_def)
  show "sameHeader q p" using r nth by (auto simp: sameHeader_def)
  have g: "get_le w q off = (get_le w p off :: u16)" if "off + w \<le> 48" for w off
    by (rule get_le_cong_range) (use that r nth in auto)
  have f: "slotCount q = slotCount p" "liveCount q = liveCount p" "lowerBoundary q = lowerBoundary p"
    "upperBoundary q = upperBoundary p"
    by (simp_all add: slotCount_def liveCount_def lowerBoundary_def upperBoundary_def g)
  have slot: "readSlot q j = readSlot p j" if "j < slotCount p" for j
    by (rule readSlot_cong) (use length_bounds_slotOffset [OF assms(1) that] r nth in auto)
  then have live_eq: "liveIds q = liveIds p" by (auto simp: liveIds_def f intro!: filter_cong)
  have "slotRange q j = slotRange p j" if "j < slotCount p" for j
    using slot [OF that] by (simp add: slotRange_def)
  then have rs: "map (slotRange q) (liveIds p) = map (slotRange p) (liveIds p)"
    by (simp add: liveIds_set)
  have zero: "q ! k = 0" if "lowerBoundary p \<le> k" "k < upperBoundary p" for k
    using that r nth [of k] assms(1) by (auto simp: bodyOk_def)
  have "slotOk q j" if "j < slotCount p" for j
    using that slot assms(1) by (simp add: slotOk_def bodyOk_def f)
  then show "bodyOk q"
    unfolding bodyOk_def f live_eq rs using assms(1) zero by (auto simp: bodyOk_def)
  have "tupleAt q i = t"
  proof -
    have "tupleAt q i = subspan q (fst (slotRange p i)) (length t)"
      using slot [OF assms(3)] lt by (simp add: tupleAt_def slotRange_def Let_def)
    also have "\<dots> = t" unfolding q_def by (rule subspan_overwrite_same) (use r lt assms(2) in auto)
    finally show ?thesis .
  qed
  moreover have "tupleAt q j = tupleAt p j" if j: "j < slotCount p" "flags (readSlot p j) = 1" "j \<noteq> i" for j
  proof (rule tupleAt_cong [OF slot [OF j(1)]])
    have "snd (slotRange p i) \<le> fst (slotRange p j) \<or> snd (slotRange p j) \<le> fst (slotRange p i)"
      by (rule live_ranges_disjoint) (use assms(1,3) live j in auto)
    then show "q ! k = p ! k" if "fst (slotRange p j) \<le> k" "k < snd (slotRange p j)" for k
      using that live_range [OF assms(1) j(1,2)] nth [of k] by auto
  qed (simp add: lq assms(2))
  ultimately show "slotsOf q = (slotsOf p)[i := Some t]"
    using assms(3) slot live f by (intro nth_equalityI) (auto simp: nth_slotsOf nth_list_update)
qed

lemma get_spec:
  assumes "bodyOk p"
  shows "get p i =
    (if i \<ge> slotCount p then Inl (OutOfRange ''Slot ID is outside the slotted-page directory.'')
     else case slotsOf p ! i of None \<Rightarrow> Inl (RuntimeError ''Slotted-page slot is not occupied.'')
       | Some t \<Rightarrow> Inr t)"
  by (simp add: get_def validateSlotId_def requireLive_def throw_if_def nth_slotsOf)

lemma tryUpdate_error:
  assumes "bodyOk p"
  shows "tryUpdate p i t = Inl x \<longleftrightarrow>
    (if t = [] then x = InvalidArgument ''Zero-length tuples are not supported.''
     else if length t > 4040 then x = InvalidArgument ''Tuple exceeds the maximum inline slotted-page size.''
     else if i \<ge> slotCount p then x = OutOfRange ''Slot ID is outside the slotted-page directory.''
     else slotsOf p ! i = None \<and> x = RuntimeError ''Slotted-page slot is not occupied.'')"
  by (auto simp: tryUpdate_def validateTupleSize_def validateSlotId_def requireLive_def throw_if_def
      nth_slotsOf Let_def)

lemma tryUpdate_ok:
  assumes "bodyOk p" "length p = 4096" "i < slotCount p" "slotsOf p ! i = Some u" "t \<noteq> []" "length t \<le> 4040"
  shows "if length t \<le> dirSpace (slotsOf p) + length u
    then \<exists>q. tryUpdate p i t = Inr (q, True) \<and> bodyOk q \<and> length q = 4096 \<and> sameHeader q p \<and>
      slotsOf q = (slotsOf p)[i := Some t]
    else tryUpdate p i t = Inr (p, False)"
proof -
  have live: "flags (readSlot p i) = 1" "u = tupleAt p i"
    using assms(3,4) by (auto simp: nth_slotsOf split: if_splits)
  then have u: "unat (tupleLength (readSlot p i)) = length u"
    using length_tupleAt [OF assms(1-3)] by simp
  have eq: "tryUpdate p i t =
      (if length t > freeSpace p + length u then Inr (p, False)
       else if length t = length u then Inr (overwrite p (fst (slotRange p i)) t, True)
       else Inr (rewritePayload p (assignFirst i t (liveTuples p)), True))"
    using assms(3,5,6) live(1)
    by (simp add: tryUpdate_def validateTupleSize_def validateSlotId_def requireLive_def throw_if_def
        slotRange_def u Let_def)
  show ?thesis
    using update_in_place [OF assms(1-4)] tryUpdate_rewrite [OF assms(1-5)]
    by (auto simp: eq freeSpace_dirSpace [OF assms(1,2)])
qed

lemma erase_error:
  assumes "bodyOk p"
  shows "erase p i = Inl x \<longleftrightarrow>
    (if i \<ge> slotCount p then x = OutOfRange ''Slot ID is outside the slotted-page directory.''
     else slotsOf p ! i = None \<and> x = RuntimeError ''Slotted-page slot is not occupied.'')"
  by (auto simp: erase_def validateSlotId_def requireLive_def throw_if_def nth_slotsOf Let_def)

lemma erase_ok:
  assumes "bodyOk p" "length p = 4096" "i < slotCount p" "slotsOf p ! i = Some u"
  shows "\<exists>q. erase p i = Inr q \<and> bodyOk q \<and> length q = 4096 \<and> sameHeader q p \<and>
    slotsOf q = (slotsOf p)[i := None]"
proof -
  let ?z = "\<lparr>tupleOffset = 0, tupleLength = 0, flags = 0, reserved = 0\<rparr> :: slot_entry"
  let ?p1 = "writeSlot p i ?z"
  define r where "r = put16 ?p1 LIVE_COUNT_OFFSET (get16 ?p1 LIVE_COUNT_OFFSET - 1)"
  let ?q = "rewritePayload r (liveTuples r)"
  have live: "flags (readSlot p i) = 1"
    using assms(3,4) by (auto simp: nth_slotsOf split: if_splits)
  have n: "i < 506" "slotCount p \<le> 506" and up: "upperBoundary p = 4096 - 8 * slotCount p"
    using assms(1,3) by (auto simp: bodyOk_def)
  have lr: "length r = 4096" using assms(2) by (simp add: r_def)
  note ib = length_bounds_slotOffset [OF assms(1,3)]
  have nth: "r ! k = p ! k" if "k < upperBoundary p" "k < 18 \<or> 20 \<le> k" for k
    using that ib n assms(2) by (auto simp: r_def nth_put_le nth_writeSlot_other)
  have "48 \<le> slotOffset i" using slotOffset_low [OF n(1)] by simp
  then have h: "?p1 ! k = p ! k" if "k < 48" for k
    using that n assms(2) by (simp add: nth_writeSlot_other)
  have g: "get_le w ?p1 off = (get_le w p off :: u16)" if "off + w \<le> 48" for w off
    by (rule get_le_cong_range) (use that h in auto)
  have f: "slotCount r = slotCount p" "upperBoundary r = upperBoundary p" "get16 r 18 = get16 p 18 - 1"
    using assms(2) by (simp_all add: r_def slotCount_def upperBoundary_def g)
  have slot: "readSlot r j = (if j = i then ?z else readSlot p j)" if "j < slotCount p" for j
    using that n assms(2) by (simp add: r_def readSlot_put_header readSlot_writeSlot_other)
  then have fl: "flags (readSlot r j) = 1 \<longleftrightarrow> j \<noteq> i \<and> flags (readSlot p j) = 1" if "j < slotCount p" for j
    using that by simp
  have tup: "tupleAt r j = tupleAt p j" if "j < slotCount p" "j \<noteq> i" "flags (readSlot p j) = 1" for j
    by (rule tupleAt_cong) (use that slot live_range [OF assms(1) that(1,3)] lr assms(2) nth in auto)
  have ids: "liveIds r = filter (\<lambda>j. j \<noteq> i) (liveIds p)"
    using fl by (auto simp: liveIds_def f intro!: filter_cong)
  have "filter (\<lambda>j. j = i) (liveIds p) = [i]"
    unfolding liveIds_def by (rule filter_eq_singleton) (rule assms(3), rule live)
  then have cnt: "length (liveIds p) = Suc (length (liveIds r))"
    using sum_length_filter_compl [of "\<lambda>j. j \<noteq> i" "liveIds p"] by (simp add: ids)
  have c: "unat (get16 p 18) = length (liveIds p)"
    using assms(1) by (simp add: bodyOk_def liveCount_def)
  then have "get16 p 18 \<noteq> 0" using cnt by auto
  then have lc: "liveCount r = length (liveTuples r)"
    using liveTuples_fst [of r, THEN arg_cong [where f = length]] cnt c
    by (simp add: liveCount_def f unat_minus_one)
  have lt: "liveTuples r = filter (\<lambda>(j, t). j \<noteq> i) (liveTuples p)"
    using tup by (auto simp: liveTuples_eq ids filter_map comp_def liveIds_set)
  have le: "bytesOf (filter P ts) \<le> bytesOf ts" for P and ts :: "(nat \<times> byte list) list"
    by (induction ts) auto
  have "48 + bytesOf (liveTuples r) \<le> upperBoundary r"
    using le [of "\<lambda>(j, t). j \<noteq> i" "liveTuples p"] bytesOf_liveTuples [OF assms(1,2)] assms(1)
    unfolding lt f by (auto simp: bodyOk_def)
  moreover have "\<forall>(j, t)\<in>set (liveTuples r). t \<noteq> []"
    using liveTuples_nonempty [OF assms(1,2)] unfolding lt by auto
  moreover have "readSlot r j = ?z" if "j < slotCount r" "flags (readSlot r j) \<noteq> 1" for j
    using that slot free_slot_zero [OF assms(1)] f(1) by auto
  ultimately have R: "bodyOk ?q" "slotsOf ?q = map (map_of (liveTuples r)) [0..<slotCount r]"
    "length ?q = 4096" "sameHeader ?q r"
    using rewritePayload_props [OF lr _ _ lc liveTuples_fst] n(2) up f by metis+
  have "slotsOf ?q = (slotsOf p)[i := None]"
    unfolding R(2) using fl tup f(1) assms(3)
    by (intro nth_equalityI) (auto simp: map_of_liveTuples nth_slotsOf nth_list_update)
  moreover have "sameHeader r p" using nth up n(2) ib by (auto simp: sameHeader_def)
  moreover have "erase p i = Inr ?q"
    using assms(3) live
    by (simp add: erase_def compact_def validateSlotId_def requireLive_def throw_if_def Let_def r_def)
  ultimately show ?thesis using R sameHeader_trans by blast
qed

section \<open>Page creation and links\<close>

text \<open>The pages a view can be constructed on.\<close>

definition pageOk :: "page_id \<Rightarrow> page_id \<Rightarrow> page \<Rightarrow> bool" where
  "pageOk pid pageCount p \<longleftrightarrow> length p = PAGE_SIZE \<and> validate p pid pageCount = Inr ()"

lemma pageOk_iff: "pageOk pid pc p \<longleftrightarrow> length p = 4096 \<and> headerOk p pid pc \<and> bodyOk p"
  by (auto simp: pageOk_def slotted_validate_ok)

lemma pageOk_sameHeader:
  "pageOk pid pc p \<Longrightarrow> bodyOk q \<Longrightarrow> length q = 4096 \<Longrightarrow> sameHeader q p \<Longrightarrow> pageOk pid pc q"
  by (simp add: pageOk_iff headerOk_cong)

definition initialized :: "page_id \<Rightarrow> page_id \<Rightarrow> page_id \<Rightarrow> page" where
  "initialized heapMeta next previous =
     put32 (put32 (put32 (put16 (put16 (put16 (put16 (put32 (put32
       (overwrite (replicate 4096 0) 0 SLOTTED_MAGIC) 8 1) 12 48) 16 0) 18 0) 20 48) 22 4096)
       24 next) 28 previous) 32 heapMeta"

lemma initialize_eq:
  "initialize pid pc hm nx pv = Inr p \<longleftrightarrow>
     pid \<noteq> 0 \<and> pid \<noteq> INVALID_PAGE_ID \<and> pid < pc \<and> linksOk hm nx pv pid pc \<and> p = initialized hm nx pv"
  by (auto simp: initialize_def initialized_def res_bind_eq_Inr requireExistingDataPage_ok
      initializeLink_def throw_if_eq linksOk_def Let_def split: if_splits)

lemma initialized_fields:
  "length (initialized hm nx pv) = 4096"
  "subspan (initialized hm nx pv) 0 8 = SLOTTED_MAGIC"
  "get32 (initialized hm nx pv) 8 = 1" "get32 (initialized hm nx pv) 12 = 48"
  "get16 (initialized hm nx pv) 16 = 0" "get16 (initialized hm nx pv) 18 = 0"
  "get16 (initialized hm nx pv) 20 = 48" "get16 (initialized hm nx pv) 22 = 4096"
  "get32 (initialized hm nx pv) 24 = nx" "get32 (initialized hm nx pv) 28 = pv"
  "get32 (initialized hm nx pv) 32 = hm"
  by (simp_all add: initialized_def subspan_overwrite_same)

lemma initialized_zero: "36 \<le> k \<Longrightarrow> k < 4096 \<Longrightarrow> initialized hm nx pv ! k = 0"
  by (simp add: initialized_def nth_put_le nth_overwrite)

lemma initialized_ok:
  assumes "linksOk hm nx pv pid pc"
  shows "pageOk pid pc (initialized hm nx pv)" "slotsOf (initialized hm nx pv) = []"
proof -
  let ?p = "initialized hm nx pv"
  note f = initialized_fields [of hm nx pv]
  have "get64 ?p 36 = 0" by (rule get_le_zeros) (simp add: initialized_zero)
  moreover have "all_zero (subspan ?p 44 4)"
    using f(1) by (simp add: all_zero_nth nth_subspan initialized_zero)
  ultimately have "headerOk ?p pid pc"
    using assms by (simp add: headerOk_def f heapMetadataPageId_def nextPageId_def previousPageId_def)
  moreover have "bodyOk ?p"
    by (simp add: bodyOk_def slotCount_def liveCount_def lowerBoundary_def upperBoundary_def f liveIds_def
        initialized_zero)
  ultimately show "pageOk pid pc ?p" using f(1) by (simp add: pageOk_iff)
  show "slotsOf ?p = []" by (simp add: slotsOf_def slotCount_def f)
qed

text \<open>Writing a link changes the header only; the directory is unaffected.\<close>

lemma put_header_body:
  fixes v :: "'a::len word"
  assumes "length p = 4096" "bodyOk p" "24 \<le> off" "off + w \<le> 48"
  defines "q \<equiv> put_le w p off v"
  shows "bodyOk q" "slotsOf q = slotsOf p"
proof -
  have nth: "q ! k = p ! k" if "k < 4096" "48 \<le> k" for k
    using that assms(1,3,4) by (simp add: q_def nth_put_le)
  have f: "slotCount q = slotCount p" "liveCount q = liveCount p" "lowerBoundary q = lowerBoundary p"
    "upperBoundary q = upperBoundary p"
    using assms(1,3,4)
    by (simp_all add: q_def slotCount_def liveCount_def lowerBoundary_def upperBoundary_def)
  have slot: "readSlot q i = readSlot p i" if "i < slotCount p" for i
    using that assms(1,2,4) by (simp add: q_def readSlot_put_header bodyOk_def)
  then have live: "liveIds q = liveIds p" by (auto simp: liveIds_def f intro!: filter_cong)
  have rs: "map (slotRange q) (liveIds p) = map (slotRange p) (liveIds p)"
    using slot by (simp add: liveIds_set slotRange_def)
  have "q ! k = 0" if "lowerBoundary p \<le> k" "k < upperBoundary p" for k
    using that nth [of k] assms(2) by (auto simp: bodyOk_def)
  moreover have "slotOk q i" if "i < slotCount p" for i
    using that slot assms(2) by (simp add: slotOk_def bodyOk_def f)
  ultimately show "bodyOk q"
    unfolding bodyOk_def f live rs using assms(2) by (auto simp: bodyOk_def)
  have "tupleAt q i = tupleAt p i" if "i < slotCount p" "flags (readSlot p i) = 1" for i
    by (rule tupleAt_cong)
      (use that slot live_range [OF assms(2) that] assms(1) nth in \<open>auto simp: q_def\<close>)
  then show "slotsOf q = slotsOf p" using slot by (simp add: slotsOf_def f)
qed

lemma setNextPageId_ok:
  assumes "pageOk pid pc p" "setNextPageId p pid pc l = Inr q"
  shows "pageOk pid pc q" "slotsOf q = slotsOf p" "nextPageId q = l" "previousPageId q = previousPageId p"
proof -
  have q: "q = put32 p 24 l" and l: "l = INVALID_PAGE_ID \<or> (l \<noteq> 0 \<and> l \<noteq> pid \<and> l \<noteq> heapMetadataPageId p \<and> l < pc)"
    "l \<noteq> INVALID_PAGE_ID \<longrightarrow> l \<noteq> previousPageId p"
    using assms(2) by (auto simp: setNextPageId_def res_bind_eq_Inr validateLink_ok split: if_splits)
  have p: "length p = 4096" "headerOk p pid pc" "bodyOk p" using assms(1) by (auto simp: pageOk_iff)
  note b = put_header_body [OF p(1,3), of 24 4 l, folded q]
  have "headerOk q pid pc"
    using p l by (auto simp: q headerOk_def heapMetadataPageId_def nextPageId_def previousPageId_def linksOk_def)
  then show "pageOk pid pc q" using b p(1) by (simp add: pageOk_iff q)
  show "slotsOf q = slotsOf p" using b by simp
  show "nextPageId q = l" "previousPageId q = previousPageId p"
    using p(1) by (simp_all add: q nextPageId_def previousPageId_def)
qed

lemma setPreviousPageId_ok:
  assumes "pageOk pid pc p" "setPreviousPageId p pid pc l = Inr q"
  shows "pageOk pid pc q" "slotsOf q = slotsOf p" "previousPageId q = l" "nextPageId q = nextPageId p"
proof -
  have q: "q = put32 p 28 l" and l: "l = INVALID_PAGE_ID \<or> (l \<noteq> 0 \<and> l \<noteq> pid \<and> l \<noteq> heapMetadataPageId p \<and> l < pc)"
    "l \<noteq> INVALID_PAGE_ID \<longrightarrow> l \<noteq> nextPageId p"
    using assms(2) by (auto simp: setPreviousPageId_def res_bind_eq_Inr validateLink_ok split: if_splits)
  have p: "length p = 4096" "headerOk p pid pc" "bodyOk p" using assms(1) by (auto simp: pageOk_iff)
  note b = put_header_body [OF p(1,3), of 28 4 l, folded q]
  have "headerOk q pid pc"
    using p l by (auto simp: q headerOk_def heapMetadataPageId_def nextPageId_def previousPageId_def linksOk_def)
  then show "pageOk pid pc q" using b p(1) by (simp add: pageOk_iff q)
  show "slotsOf q = slotsOf p" using b by simp
  show "previousPageId q = l" "nextPageId q = nextPageId p"
    using p(1) by (simp_all add: q nextPageId_def previousPageId_def)
qed

section \<open>The contract of a slotted page\<close>

text \<open>
  What a client of a page may rely on, over the directory alone: what each operation returns or
  throws and what it does to the directory. Sequences of operations are verified against the
  contract; \<open>SlottedPageView\<close> provides it.
\<close>

datatype page_op = InsertOp "byte list" | UpdateOp nat "byte list" | EraseOp nat | CompactOp | GetOp nat

datatype page_result = SlotIs nat | Updated bool | Erased | Compacted | TupleIs "byte list"

definition tupleSizeOk :: "byte list \<Rightarrow> bool" where
  "tupleSizeOk t \<longleftrightarrow> t \<noteq> [] \<and> length t \<le> MAX_TUPLE_SIZE"

definition tupleSizeError :: "byte list \<Rightarrow> exn" where
  "tupleSizeError t = InvalidArgument (if t = [] then ''Zero-length tuples are not supported.''
     else ''Tuple exceeds the maximum inline slotted-page size.'')"

definition dirGet :: "byte list option list \<Rightarrow> nat \<Rightarrow> byte list res" where
  "dirGet ds i = (if i \<ge> length ds then Inl (OutOfRange ''Slot ID is outside the slotted-page directory.'')
     else case ds ! i of None \<Rightarrow> Inl (RuntimeError ''Slotted-page slot is not occupied.'') | Some t \<Rightarrow> Inr t)"

fun dirApply :: "byte list option list \<Rightarrow> page_op \<Rightarrow> page_result res \<times> byte list option list" where
  "dirApply ds (InsertOp t) =
     (if \<not> tupleSizeOk t then (Inl (tupleSizeError t), ds)
      else if \<not> dirFits ds (length t)
      then (Inl (OverflowError ''Slotted page has insufficient space for tuple and slot.''), ds)
      else (Inr (SlotIs (dirSlot ds)), dirPut ds (dirSlot ds) t))"
| "dirApply ds (UpdateOp i t) =
     (if \<not> tupleSizeOk t then (Inl (tupleSizeError t), ds)
      else case dirGet ds i of Inl x \<Rightarrow> (Inl x, ds)
      | Inr u \<Rightarrow> if length t \<le> dirSpace ds + length u then (Inr (Updated True), ds[i := Some t])
          else (Inr (Updated False), ds))"
| "dirApply ds (EraseOp i) = (case dirGet ds i of Inl x \<Rightarrow> (Inl x, ds) | Inr _ \<Rightarrow> (Inr Erased, ds[i := None]))"
| "dirApply ds CompactOp = (Inr Compacted, ds)"
| "dirApply ds (GetOp i) = (case dirGet ds i of Inl x \<Rightarrow> (Inl x, ds) | Inr t \<Rightarrow> (Inr (TupleIs t), ds))"

fun runOps :: "('p \<Rightarrow> page_op \<Rightarrow> page_result res \<times> 'p) \<Rightarrow> 'p \<Rightarrow> page_op list \<Rightarrow> page_result res list \<times> 'p" where
  "runOps f p [] = ([], p)"
| "runOps f p (op # ops) = (case f p op of (r, q) \<Rightarrow> case runOps f q ops of (rs, q') \<Rightarrow> (r # rs, q'))"

locale tuple_page =
  fixes inv :: "'p \<Rightarrow> bool"
    and dir :: "'p \<Rightarrow> byte list option list"
    and exec :: "'p \<Rightarrow> page_op \<Rightarrow> page_result res \<times> 'p"
  assumes exec_refines: "inv p \<Longrightarrow> fst (exec p op) = fst (dirApply (dir p) op) \<and> inv (snd (exec p op)) \<and>
      dir (snd (exec p op)) = snd (dirApply (dir p) op)"
begin

lemma run_refines:
  "inv p \<Longrightarrow> fst (runOps exec p ops) = fst (runOps dirApply (dir p) ops) \<and> inv (snd (runOps exec p ops)) \<and>
    dir (snd (runOps exec p ops)) = snd (runOps dirApply (dir p) ops)"
proof (induction ops arbitrary: p)
  case (Cons op ops)
  then show ?case using exec_refines [of p op] by (simp add: case_prod_unfold)
qed simp

lemma get_after_insert:
  assumes "inv p" "exec p (InsertOp t) = (Inr (SlotIs i), q)"
  shows "fst (exec q (GetOp i)) = Inr (TupleIs t)"
    and "j \<noteq> i \<Longrightarrow> fst (exec p (GetOp j)) = Inr s \<Longrightarrow> fst (exec q (GetOp j)) = Inr s"
    and "fst (exec p (GetOp i)) \<noteq> Inr s"
proof -
  have "fst (dirApply (dir p) (InsertOp t)) = Inr (SlotIs i)" "inv q" "dir q = snd (dirApply (dir p) (InsertOp t))"
    using exec_refines [OF assms(1), of "InsertOp t"] assms(2) by auto
  then have i: "i = dirSlot (dir p)" and q: "inv q" "dir q = dirPut (dir p) i t" by (auto split: if_splits)
  have s: "i < length (dir p) \<and> dir p ! i = None \<or> i = length (dir p)"
    unfolding i dirSlot_def by (auto simp: find_Some_iff split: option.split)
  note get = conjunct1 [OF exec_refines [OF q(1), of "GetOp k" for k]] conjunct1 [OF exec_refines [OF assms(1), of "GetOp k" for k]]
  show "fst (exec q (GetOp i)) = Inr (TupleIs t)" using s q(2) by (auto simp: get dirGet_def dirPut_def)
  show "fst (exec q (GetOp j)) = Inr s" if "j \<noteq> i" "fst (exec p (GetOp j)) = Inr s"
    using that s q(2) by (auto simp: get dirGet_def dirPut_def nth_append split: if_splits option.splits)
  show "fst (exec p (GetOp i)) \<noteq> Inr s" using s by (auto simp: get dirGet_def split: option.splits)
qed

end

text \<open>An operation as a caller runs it, with its result or exception: one that throws leaves the page as it was.\<close>

fun applyOp :: "page \<Rightarrow> page_op \<Rightarrow> page_result res \<times> page" where
  "applyOp p (InsertOp t) = (case insert p t of Inl x \<Rightarrow> (Inl x, p) | Inr (q, i) \<Rightarrow> (Inr (SlotIs i), q))"
| "applyOp p (UpdateOp i t) = (case tryUpdate p i t of Inl x \<Rightarrow> (Inl x, p) | Inr (q, b) \<Rightarrow> (Inr (Updated b), q))"
| "applyOp p (EraseOp i) = (case erase p i of Inl x \<Rightarrow> (Inl x, p) | Inr q \<Rightarrow> (Inr Erased, q))"
| "applyOp p CompactOp = (Inr Compacted, compact p)"
| "applyOp p (GetOp i) = (case get p i of Inl x \<Rightarrow> (Inl x, p) | Inr t \<Rightarrow> (Inr (TupleIs t), p))"

definition refinesOp :: "page_id \<Rightarrow> page_id \<Rightarrow> page \<Rightarrow> page_op \<Rightarrow> bool" where
  "refinesOp pid pageCount p op \<longleftrightarrow> fst (applyOp p op) = fst (dirApply (slotsOf p) op) \<and>
     pageOk pid pageCount (snd (applyOp p op)) \<and> slotsOf (snd (applyOp p op)) = snd (dirApply (slotsOf p) op)"

lemma dirGet_slots: "bodyOk p \<Longrightarrow> get p i = dirGet (slotsOf p) i"
  by (simp add: get_spec dirGet_def)

lemma refines_insert:
  assumes "pageOk pid pageCount p"
  shows "refinesOp pid pageCount p (InsertOp t)"
proof -
  have p: "length p = 4096" "bodyOk p" using assms by (auto simp: pageOk_iff)
  consider (size) "\<not> tupleSizeOk t" | (space) "tupleSizeOk t" "\<not> dirFits (slotsOf p) (length t)"
    | (ok) "t \<noteq> []" "length t \<le> 4040" "dirFits (slotsOf p) (length t)"
    by (auto simp: tupleSizeOk_def)
  then show ?thesis
  proof cases
    case size
    then have "insert p t = Inl (tupleSizeError t)"
      unfolding insert_error [OF p(2,1)] by (auto simp: tupleSizeOk_def tupleSizeError_def)
    then show ?thesis using size assms by (simp add: refinesOp_def)
  next
    case space
    then have "insert p t = Inl (OverflowError ''Slotted page has insufficient space for tuple and slot.'')"
      unfolding insert_error [OF p(2,1)] by (auto simp: tupleSizeOk_def)
    then show ?thesis using space assms by (simp add: refinesOp_def)
  next
    case ok
    obtain q where "insert p t = Inr (q, dirSlot (slotsOf p))" "bodyOk q" "length q = 4096" "sameHeader q p"
        "slotsOf q = dirPut (slotsOf p) (dirSlot (slotsOf p)) t"
      using insert_ok [OF p(2,1) ok] by blast
    then show ?thesis using ok pageOk_sameHeader [OF assms] by (simp add: refinesOp_def tupleSizeOk_def)
  qed
qed

lemma refines_update:
  assumes "pageOk pid pageCount p"
  shows "refinesOp pid pageCount p (UpdateOp i t)"
proof -
  have p: "length p = 4096" "bodyOk p" using assms by (auto simp: pageOk_iff)
  consider (size) "\<not> tupleSizeOk t" | (slot) x where "tupleSizeOk t" "dirGet (slotsOf p) i = Inl x"
    | (ok) u where "tupleSizeOk t" "i < slotCount p" "slotsOf p ! i = Some u" "dirGet (slotsOf p) i = Inr u"
    by (cases "dirGet (slotsOf p) i") (auto simp: dirGet_def split: if_splits option.splits)
  then show ?thesis
  proof cases
    case size
    then have "tryUpdate p i t = Inl (tupleSizeError t)"
      unfolding tryUpdate_error [OF p(2)] by (auto simp: tupleSizeOk_def tupleSizeError_def)
    then show ?thesis using size assms by (simp add: refinesOp_def)
  next
    case slot
    then have "tryUpdate p i t = Inl x"
      unfolding tryUpdate_error [OF p(2)] by (auto simp: tupleSizeOk_def dirGet_def split: if_splits option.splits)
    then show ?thesis using slot assms by (simp add: refinesOp_def)
  next
    case ok
    then have t: "t \<noteq> []" "length t \<le> 4040" by (simp_all add: tupleSizeOk_def)
    show ?thesis
      using tryUpdate_ok [OF p(2,1) ok(2,3) t] ok(1,4) assms pageOk_sameHeader [OF assms]
      by (auto simp: refinesOp_def split: if_splits)
  qed
qed

lemma refines_erase:
  assumes "pageOk pid pageCount p"
  shows "refinesOp pid pageCount p (EraseOp i)"
proof -
  have p: "length p = 4096" "bodyOk p" using assms by (auto simp: pageOk_iff)
  show ?thesis
  proof (cases "dirGet (slotsOf p) i")
    case (Inl x)
    then have "erase p i = Inl x"
      unfolding erase_error [OF p(2)] by (auto simp: dirGet_def split: if_splits option.splits)
    then show ?thesis using Inl assms by (simp add: refinesOp_def)
  next
    case (Inr u)
    then have "i < slotCount p" "slotsOf p ! i = Some u" by (auto simp: dirGet_def split: if_splits option.splits)
    then show ?thesis
      using erase_ok [OF p(2,1)] Inr pageOk_sameHeader [OF assms] by (fastforce simp: refinesOp_def)
  qed
qed

lemma refines_op: "pageOk pid pageCount p \<Longrightarrow> refinesOp pid pageCount p op"
proof (cases op)
  case CompactOp
  assume ok: "pageOk pid pageCount p"
  then have p: "bodyOk p" "length p = 4096" by (auto simp: pageOk_iff)
  show ?thesis using compact_props [OF p] pageOk_sameHeader [OF ok] CompactOp by (simp add: refinesOp_def)
next
  case (GetOp i)
  assume ok: "pageOk pid pageCount p"
  then have "bodyOk p" by (auto simp: pageOk_iff)
  then show ?thesis using ok GetOp by (auto simp: refinesOp_def dirGet_slots split: sum.splits)
qed (simp_all add: refines_insert refines_update refines_erase)

interpretation slotted: tuple_page "pageOk pid pageCount" slotsOf applyOp
  for pid pageCount
  by unfold_locales (use refines_op in \<open>simp add: refinesOp_def\<close>)

section \<open>Properties\<close>

text \<open>
  C2: any sequence of insertions, updates, erasures, compactions and reads, successful or not, keeps a
  slotted page valid byte for byte, does to its directory exactly what the list specification
  does, and gives the caller exactly the results and exceptions of the specification: insertion
  takes and returns the first free slot or appends one, an update that does not fit is refused with
  \<open>false\<close>, compaction moves bytes only, a read returns the tuple of the slot, slot numbers never move,
  and every refusal throws the exception that names its cause.
\<close>

theorem slotted_page_refines_directory:
  assumes "pageOk pid pageCount p"
  shows "fst (runOps applyOp p ops) = fst (runOps dirApply (slotsOf p) ops) \<and>
    pageOk pid pageCount (snd (runOps applyOp p ops)) \<and>
    slotsOf (snd (runOps applyOp p ops)) = snd (runOps dirApply (slotsOf p) ops)"
  by (rule slotted.run_refines [OF assms])

definition sampleOps :: "page_op list" where
  "sampleOps = [InsertOp [1, 2], InsertOp [3], EraseOp 0, UpdateOp 1 [5, 6, 7], CompactOp, GetOp 0, InsertOp [4], InsertOp [],
     UpdateOp 9 [1], GetOp 1]"

theorem slotted_page_refines_directory_witness:
  "runOps applyOp (initialized 1 INVALID_PAGE_ID INVALID_PAGE_ID) sampleOps =
     ([Inr (SlotIs 0), Inr (SlotIs 1), Inr Erased, Inr (Updated True), Inr Compacted,
       Inl (RuntimeError ''Slotted-page slot is not occupied.''), Inr (SlotIs 0),
       Inl (InvalidArgument ''Zero-length tuples are not supported.''),
       Inl (OutOfRange ''Slot ID is outside the slotted-page directory.''), Inr (TupleIs [5, 6, 7])],
      snd (runOps applyOp (initialized 1 INVALID_PAGE_ID INVALID_PAGE_ID) sampleOps))
   \<and> slotsOf (snd (runOps applyOp (initialized 1 INVALID_PAGE_ID INVALID_PAGE_ID) sampleOps)) = [Some [4], Some [5, 6, 7]]"
proof -
  have l: "linksOk 1 INVALID_PAGE_ID INVALID_PAGE_ID 2 3" by (simp add: linksOk_def)
  have "runOps dirApply [] sampleOps =
     ([Inr (SlotIs 0), Inr (SlotIs 1), Inr Erased, Inr (Updated True), Inr Compacted,
       Inl (RuntimeError ''Slotted-page slot is not occupied.''), Inr (SlotIs 0),
       Inl (InvalidArgument ''Zero-length tuples are not supported.''),
       Inl (OutOfRange ''Slot ID is outside the slotted-page directory.''), Inr (TupleIs [5, 6, 7])], [Some [4], Some [5, 6, 7]])"
    by (simp add: sampleOps_def tupleSizeOk_def tupleSizeError_def dirGet_def dirFits_def dirSpace_def dirUsed_def dirSlot_def
        dirPut_def)
  then show ?thesis
    using slotted_page_refines_directory [OF initialized_ok(1) [OF l], of sampleOps]
    unfolding initialized_ok(2) [OF l] by (metis fst_conv snd_conv prod.collapse)
qed

text \<open>
  an insertion succeeds exactly when the tuple has a legal size and the page has room for it
  (and for a slot entry, unless a free one can be reused); the tuple is then read back under the
  returned slot, that slot was free before, every other tuple is still there, and the error
  otherwise names the cause. The "slot directory is full" branch is unreachable.
\<close>

theorem slotted_insert_get:
  assumes "pageOk pid pageCount p"
  shows "(case insert p t of
      Inr (q, i) \<Rightarrow> pageOk pid pageCount q \<and> get q i = Inr t \<and> (\<forall>s. get p i \<noteq> Inr s) \<and>
        (\<forall>j s. get p j = Inr s \<longrightarrow> get q j = Inr s)
    | Inl x \<Rightarrow> (if t = [] then x = InvalidArgument ''Zero-length tuples are not supported.''
        else if length t > MAX_TUPLE_SIZE
        then x = InvalidArgument ''Tuple exceeds the maximum inline slotted-page size.''
        else \<not> dirFits (slotsOf p) (length t) \<and>
          x = OverflowError ''Slotted page has insufficient space for tuple and slot.''))"
proof -
  have p: "length p = 4096" "bodyOk p" using assms by (auto simp: pageOk_iff)
  have "pageOk pid pageCount q \<and> get q i = Inr t \<and> (\<forall>s. get p i \<noteq> Inr s) \<and>
      (\<forall>j s. get p j = Inr s \<longrightarrow> get q j = Inr s)" if q: "insert p t = Inr (q, i)" for q i
  proof -
    have e: "applyOp p (InsertOp t) = (Inr (SlotIs i), q)" using q by simp
    have inv: "pageOk pid pageCount q" using slotted.exec_refines [OF assms, of "InsertOp t"] e by simp
    note g = slotted.get_after_insert [OF assms e]
    have "get q i = Inr t" using g(1) by (auto split: sum.splits)
    moreover have "get p i \<noteq> Inr s" for s using g(3) [of "TupleIs s"] by auto
    moreover have "get q j = Inr s" if "get p j = Inr s" for j s
      using g(2) [of j "TupleIs s"] that calculation(2) [of s] by (cases "j = i") (auto split: sum.splits)
    ultimately show ?thesis using inv by blast
  qed
  then show ?thesis
  proof (cases "insert p t")
    case (Inl x)
    with insert_error [OF p(2,1), of t x] show ?thesis by simp
  qed (simp split: prod.split)
qed

theorem slotted_insert_get_witness:
  "\<exists>q i. insert (initialized 1 INVALID_PAGE_ID INVALID_PAGE_ID) [7, 8] = Inr (q, i) \<and> get q i = Inr [7, 8]"
proof -
  have l: "linksOk 1 INVALID_PAGE_ID INVALID_PAGE_ID 2 3" by (simp add: linksOk_def)
  show ?thesis
    using slotted_insert_get [OF initialized_ok(1) [OF l], of "[7, 8]"]
    by (auto simp: initialized_ok(2) [OF l] dirFits_def dirSpace_def dirUsed_def split: sum.splits)
qed

text \<open>
  C25: the tuples of a valid page lie between the header and the slot directory at the end of the
  page: every live tuple starts behind the header and ends before the lower boundary, which is not beyond any
  entry of the directory, and the directory ends with the page. Two different live slots never share
  a byte.
\<close>

theorem slotted_tuples_disjoint:
  assumes "pageOk pid pageCount p"
    and "i < slotCount p" "flags (readSlot p i) = SLOT_LIVE"
    and "j < slotCount p" "flags (readSlot p j) = SLOT_LIVE" "i \<noteq> j"
  shows "HEADER_SIZE \<le> fst (slotRange p i) \<and> snd (slotRange p i) \<le> lowerBoundary p \<and>
    (\<forall>k < slotCount p. lowerBoundary p \<le> slotOffset k \<and> slotOffset k + SLOT_SIZE \<le> PAGE_SIZE) \<and>
    (snd (slotRange p i) \<le> fst (slotRange p j) \<or> snd (slotRange p j) \<le> fst (slotRange p i))"
proof -
  have p: "bodyOk p" using assms(1) by (auto simp: pageOk_iff)
  then have u: "lowerBoundary p \<le> 4096 - 8 * slotCount p" "slotCount p \<le> 506" by (auto simp: bodyOk_def)
  have "lowerBoundary p \<le> slotOffset k \<and> slotOffset k + SLOT_SIZE \<le> PAGE_SIZE" if "k < slotCount p" for k
    using slotOffset_bounds [OF that u(2)] u(1) by simp
  with live_range [OF p assms(2,3)] live_ranges_disjoint [OF p assms(2-5)] assms(6) show ?thesis by auto
qed

theorem slotted_tuples_disjoint_witness:
  "\<exists>p. slotsOf p = [Some [1], Some [2]] \<and> HEADER_SIZE \<le> fst (slotRange p 0) \<and> snd (slotRange p 0) \<le> slotOffset 1 \<and>
     (snd (slotRange p 0) \<le> fst (slotRange p 1) \<or> snd (slotRange p 1) \<le> fst (slotRange p 0))"
proof -
  have l: "linksOk 1 INVALID_PAGE_ID INVALID_PAGE_ID 2 3" by (simp add: linksOk_def)
  define q where "q = snd (runOps applyOp (initialized 1 INVALID_PAGE_ID INVALID_PAGE_ID) [InsertOp [1], InsertOp [2]])"
  have p: "pageOk 2 3 q \<and> slotsOf q = [Some [1], Some [2]]"
    using slotted.run_refines [OF initialized_ok(1) [OF l], of "[InsertOp [1], InsertOp [2]]"]
    unfolding initialized_ok(2) [OF l] q_def [symmetric]
    by (simp add: tupleSizeOk_def dirFits_def dirSpace_def dirUsed_def dirSlot_def dirPut_def)
  then have n: "slotCount q = 2" by (metis length_slotsOf length_Cons list.size(3) numeral_2_eq_2)
  have "flags (readSlot q 0) = 1" "flags (readSlot q 1) = 1"
    using p n nth_slotsOf [of 0 q] nth_slotsOf [of 1 q] by (auto split: if_splits)
  then have "HEADER_SIZE \<le> fst (slotRange q 0) \<and> snd (slotRange q 0) \<le> lowerBoundary q \<and>
      (\<forall>k < slotCount q. lowerBoundary q \<le> slotOffset k \<and> slotOffset k + SLOT_SIZE \<le> PAGE_SIZE) \<and>
      (snd (slotRange q 0) \<le> fst (slotRange q 1) \<or> snd (slotRange q 1) \<le> fst (slotRange q 0))"
    using slotted_tuples_disjoint [of 2 3 q 0 1] p n by simp
  moreover from this have "lowerBoundary q \<le> slotOffset 1" using n by auto
  ultimately have "HEADER_SIZE \<le> fst (slotRange q 0)" "snd (slotRange q 0) \<le> slotOffset 1"
    "snd (slotRange q 0) \<le> fst (slotRange q 1) \<or> snd (slotRange q 1) \<le> fst (slotRange q 0)" by linarith+
  with p show ?thesis by blast
qed

text \<open>
  \<open>initialize\<close> accepts exactly the legal page numbers and links, and the page it makes
  validates, carries those links and holds no slots.
\<close>

theorem slotted_initialize:
  "(\<exists>p. initialize pid pageCount heapMeta next previous = Inr p) =
     (pid \<noteq> METADATA_PAGE_ID \<and> pid \<noteq> INVALID_PAGE_ID \<and> pid < pageCount \<and>
      linksOk heapMeta next previous pid pageCount) \<and>
   (case initialize pid pageCount heapMeta next previous of Inl _ \<Rightarrow> True
    | Inr p \<Rightarrow> pageOk pid pageCount p \<and> slotsOf p = [] \<and> nextPageId p = next \<and>
        previousPageId p = previous \<and> heapMetadataPageId p = heapMeta)"
  by (auto simp: initialize_eq initialized_ok nextPageId_def previousPageId_def heapMetadataPageId_def
      initialized_fields split: sum.split)

text \<open>
  compaction changes no tuple and no slot number, and leaves the page valid with its live
  tuples packed directly after the header.
\<close>

theorem slotted_compact:
  assumes "pageOk pid pageCount p"
  shows "pageOk pid pageCount (compact p) \<and> (\<forall>i. get (compact p) i = get p i) \<and>
    lowerBoundary (compact p) = HEADER_SIZE + dirUsed (slotsOf p)"
proof -
  have p: "length p = 4096" "bodyOk p" using assms by (auto simp: pageOk_iff)
  note c = compact_props [OF p(2,1)]
  have n: "slotCount (compact p) = slotCount p" using c(2) by (metis length_slotsOf)
  have "48 \<le> lowerBoundary (compact p)" using c(1) by (simp add: bodyOk_def)
  then show ?thesis
    using pageOk_sameHeader [OF assms c(1,3,4)] dirUsed_slotsOf [OF c(1,3)] n
    by (simp add: get_spec [OF c(1)] get_spec [OF p(2)] c(2))
qed

theorem slotted_compact_witness:
  "\<forall>i. get (compact (initialized 1 2 3)) i = get (initialized 1 2 3) i"
proof -
  have l: "linksOk 1 2 3 4 5" by (simp add: linksOk_def)
  show ?thesis using slotted_compact [OF initialized_ok(1) [OF l]] by simp
qed

text \<open>
  relinking a page in its heap's page list keeps it valid, sets exactly the requested link
  and leaves every tuple alone.
\<close>

theorem slotted_relink:
  assumes "pageOk pid pageCount p"
  shows "(case setNextPageId p pid pageCount l of Inl _ \<Rightarrow> True
     | Inr q \<Rightarrow> pageOk pid pageCount q \<and> nextPageId q = l \<and> previousPageId q = previousPageId p \<and>
         slotsOf q = slotsOf p) \<and>
   (case setPreviousPageId p pid pageCount l of Inl _ \<Rightarrow> True
     | Inr q \<Rightarrow> pageOk pid pageCount q \<and> previousPageId q = l \<and> nextPageId q = nextPageId p \<and>
         slotsOf q = slotsOf p)"
  using setNextPageId_ok [OF assms] setPreviousPageId_ok [OF assms] by (auto split: sum.splits)

theorem slotted_relink_witness:
  "\<exists>q. setNextPageId (initialized 1 2 3) 4 9 5 = Inr q \<and> nextPageId q = 5 \<and> previousPageId q = 3"
proof -
  have l: "linksOk 1 2 3 4 9" by (simp add: linksOk_def)
  let ?p = "initialized 1 2 3"
  have "setNextPageId ?p 4 9 5 = Inr (put32 ?p 24 5)"
    by (simp add: setNextPageId_def validateLink_def requireExistingDataPage_def throw_if_def
        heapMetadataPageId_def previousPageId_def initialized_fields)
  then show ?thesis
    using slotted_relink [OF initialized_ok(1) [OF l], of 5]
    by (simp add: previousPageId_def initialized_fields)
qed

end
