(* ===== verification/LRU_K.thy ===== *)
theory LRU_K
  imports Prelude
begin

text \<open>
  The LRU-K replacer (\<open>include/minidb/lru_k_replacer.hpp\<close>, \<open>src/lru_k_replacer.cpp\<close>).

  Frames are indices of \<open>entries\<close>; \<open>candidates\<close> is the ordered \<open>std::set\<close> of evictable frames,
  a list strictly increasing in \<open>CandidateLess\<close> (its first element is \<open>begin()\<close>). An operation
  returns its result or exception together with the replacer it leaves behind, so exception
  safety is visible.

  The lemmas show that \<open>validate\<close> accepts every state reachable through successful operations,
  that the incremental candidate index always yields the frame an exhaustive search of the
  access histories would pick, and that the bounded histories implement the LRU-K policy over
  the full access history. They also show the one operation that is not exception safe.
\<close>

section \<open>State\<close>

record lru_entry =
  history :: "u64 list"
  tracked :: bool
  evictable :: bool

record candidate =
  infiniteDistance :: bool
  priorityTimestamp :: u64
  candFrameId :: nat

record lru_k =
  kParam :: nat
  currentTimestamp :: u64
  trackedCount :: nat
  entries :: "lru_entry list"
  candidates :: "candidate list"

definition emptyEntry :: lru_entry where
  "emptyEntry = \<lparr>history = [], tracked = False, evictable = False\<rparr>"

definition candidateLess :: "candidate \<Rightarrow> candidate \<Rightarrow> bool" where
  "candidateLess l r \<longleftrightarrow>
     (if infiniteDistance l \<noteq> infiniteDistance r then infiniteDistance l
      else if priorityTimestamp l \<noteq> priorityTimestamp r then priorityTimestamp l < priorityTimestamp r
      else candFrameId l < candFrameId r)"

text \<open>\<open>std::set\<close> insertion at the position the comparator gives.\<close>

fun setInsert :: "candidate \<Rightarrow> candidate list \<Rightarrow> candidate list" where
  "setInsert c [] = [c]"
| "setInsert c (d # ds) = (if candidateLess c d then c # d # ds else d # setInsert c ds)"

section \<open>Operations\<close>

definition LRUKReplacer :: "nat \<Rightarrow> nat \<Rightarrow> lru_k res" where
  "LRUKReplacer frameCapacity k =
     (if frameCapacity = 0 then Inl (InvalidArgument ''LRU-K capacity must be positive'')
      else if frameCapacity > 0xFFFFFFFF then Inl (InvalidArgument ''LRU-K capacity exceeds FrameId range'')
      else if k = 0 then Inl (InvalidArgument ''LRU-K K must be positive'')
      else Inr \<lparr>kParam = k, currentTimestamp = 0, trackedCount = 0,
                entries = replicate frameCapacity emptyEntry, candidates = []\<rparr>)"

definition requireEntry :: "lru_k \<Rightarrow> nat \<Rightarrow> lru_entry res" where
  "requireEntry s f =
     (if f \<ge> length (entries s) then Inl (OutOfRange ''FrameId exceeds LRU-K capacity'')
      else Inr (entries s ! f))"

definition candidateFor :: "lru_k \<Rightarrow> nat \<Rightarrow> candidate res" where
  "candidateFor s f =
     res_bind (requireEntry s f) (\<lambda>entry.
       if \<not> tracked entry \<or> history entry = []
       then Inl (LogicError ''Untracked frame has no LRU-K candidate'')
       else Inr \<lparr>infiniteDistance = length (history entry) < kParam s,
                 priorityTimestamp = hd (history entry), candFrameId = f\<rparr>)"

definition eraseCandidate :: "nat \<Rightarrow> (lru_k, unit) action" where
  "eraseCandidate f =
     act_bind (act_lift (\<lambda>s. candidateFor s f)) (\<lambda>c s.
       if c \<notin> set (candidates s) then (Inl (LogicError ''LRU-K candidate index is inconsistent''), s)
       else (Inr (), s\<lparr>candidates := remove1 c (candidates s)\<rparr>))"

definition insertCandidate :: "nat \<Rightarrow> (lru_k, unit) action" where
  "insertCandidate f =
     act_bind (act_lift (\<lambda>s. candidateFor s f)) (\<lambda>c s.
       if c \<in> set (candidates s) then (Inl (LogicError ''Duplicate LRU-K candidate''), s)
       else (Inr (), s\<lparr>candidates := setInsert c (candidates s)\<rparr>))"

definition setEntry :: "nat \<Rightarrow> (lru_entry \<Rightarrow> lru_entry) \<Rightarrow> lru_k \<Rightarrow> lru_k" where
  "setEntry f g s = s\<lparr>entries := (entries s)[f := g (entries s ! f)]\<rparr>"

definition whenAct :: "bool \<Rightarrow> ('s, unit) action \<Rightarrow> ('s, unit) action" where
  "whenAct b m = (if b then m else act_return ())"

definition pushAccess :: "nat \<Rightarrow> (lru_k, unit) action" where
  "pushAccess f s =
     (let now = currentTimestamp s + 1;
          s1 = s\<lparr>currentTimestamp := now,
                 trackedCount := trackedCount s + (if tracked (entries s ! f) then 0 else 1)\<rparr>;
          h = history (entries s ! f) @ [now];
          h' = (if length h > kParam s then tl h else h)
      in (Inr (), setEntry f (\<lambda>e. e\<lparr>tracked := True, history := h'\<rparr>) s1))"

definition recordAccess :: "nat \<Rightarrow> (lru_k, unit) action" where
  "recordAccess f =
     act_bind (act_lift (\<lambda>s. requireEntry s f)) (\<lambda>entry.
     act_bind (whenAct (evictable entry) (eraseCandidate f)) (\<lambda>_.
     act_bind (act_lift (\<lambda>s. throw_if (currentTimestamp s = 0xFFFFFFFFFFFFFFFF)
       (OverflowError ''LRU-K logical timestamp exhausted''))) (\<lambda>_.
     act_bind (pushAccess f) (\<lambda>_.
     whenAct (evictable entry) (insertCandidate f)))))"

definition setEvictable :: "nat \<Rightarrow> bool \<Rightarrow> (lru_k, unit) action" where
  "setEvictable f ev =
     act_bind (act_lift (\<lambda>s. requireEntry s f)) (\<lambda>entry.
       if \<not> tracked entry then act_throw (LogicError ''Cannot change untracked frame evictability'')
       else if evictable entry = ev then act_return ()
       else
         act_bind (whenAct (evictable entry) (eraseCandidate f)) (\<lambda>_.
         act_bind (act_modify (setEntry f (\<lambda>e. e\<lparr>evictable := ev\<rparr>))) (\<lambda>_.
         whenAct ev (insertCandidate f))))"

definition victim :: "lru_k \<Rightarrow> nat option" where
  "victim s = (case candidates s of [] \<Rightarrow> None | c # _ \<Rightarrow> Some (candFrameId c))"

definition remove :: "nat \<Rightarrow> (lru_k, bool) action" where
  "remove f =
     act_bind (act_lift (\<lambda>s. requireEntry s f)) (\<lambda>entry.
       if \<not> tracked entry then act_return False
       else if \<not> evictable entry then act_throw (LogicError ''Cannot remove a non-evictable frame'')
       else
         act_bind (eraseCandidate f) (\<lambda>_.
         act_bind (act_modify (setEntry f (\<lambda>_. emptyEntry))) (\<lambda>_.
         act_bind (act_modify (\<lambda>s. s\<lparr>trackedCount := trackedCount s - 1\<rparr>)) (\<lambda>_.
         act_return True))))"

definition evict :: "(lru_k, nat option) action" where
  "evict s =
     (case victim s of
        None \<Rightarrow> (Inr None, s)
      | Some f \<Rightarrow>
          act_bind (remove f) (\<lambda>removed.
            if \<not> removed then act_throw (LogicError ''LRU-K victim disappeared'')
            else act_return (Some f)) s)"

definition isTracked :: "lru_k \<Rightarrow> nat \<Rightarrow> bool res" where
  "isTracked s f = res_bind (requireEntry s f) (\<lambda>entry. Inr (tracked entry))"

definition isEvictable :: "lru_k \<Rightarrow> nat \<Rightarrow> bool res" where
  "isEvictable s f = res_bind (requireEntry s f) (\<lambda>entry. Inr (evictable entry))"

section \<open>Validation\<close>

fun validateEntries :: "lru_k \<Rightarrow> nat list \<Rightarrow> nat \<Rightarrow> nat \<Rightarrow> (nat \<times> nat) res" where
  "validateEntries s [] nt ne = Inr (nt, ne)"
| "validateEntries s (f # fs) nt ne =
     (let entry = entries s ! f in
      if \<not> tracked entry then
        (if evictable entry \<or> history entry \<noteq> []
         then Inl (LogicError ''Untracked LRU-K entry has state'')
         else validateEntries s fs nt ne)
      else if history entry = [] \<or> length (history entry) > kParam s
      then Inl (LogicError ''LRU-K history length is invalid'')
      else if \<not> sorted (history entry) \<or> last (history entry) > currentTimestamp s \<or> hd (history entry) = 0
      then Inl (LogicError ''LRU-K history timestamps are invalid'')
      else if evictable entry then
        res_bind (candidateFor s f) (\<lambda>c.
          if c \<notin> set (candidates s)
          then Inl (LogicError ''Evictable LRU-K frame is absent from candidate index'')
          else validateEntries s fs (nt + 1) (ne + 1))
      else validateEntries s fs (nt + 1) ne)"

fun validateCandidates :: "lru_k \<Rightarrow> candidate list \<Rightarrow> nat list \<Rightarrow> unit res" where
  "validateCandidates s [] indexed = Inr ()"
| "validateCandidates s (c # cs) indexed =
     (let f = candFrameId c; bad = Inl (LogicError ''LRU-K candidate index entry is inconsistent'') in
      if f \<ge> length (entries s) \<or> f \<in> set indexed \<or> \<not> tracked (entries s ! f) \<or> \<not> evictable (entries s ! f)
      then bad
      else res_bind (candidateFor s f) (\<lambda>c'.
        if candidateLess c c' \<or> candidateLess c' c then bad
        else validateCandidates s cs (f # indexed)))"

definition validate :: "lru_k \<Rightarrow> unit res" where
  "validate s =
     (if kParam s = 0 \<or> entries s = [] then Inl (LogicError ''Invalid LRU-K configuration'')
      else
        res_bind (validateEntries s [0..<length (entries s)] 0 0) (\<lambda>(nt, ne).
        res_bind (validateCandidates s (candidates s) []) (\<lambda>_.
        throw_if (nt \<noteq> trackedCount s \<or> ne \<noteq> length (candidates s))
          (LogicError ''LRU-K accounting is inconsistent''))))"

section \<open>The candidate order\<close>

lemma candidateLess_irrefl [simp]: "\<not> candidateLess c c"
  by (simp add: candidateLess_def)

lemma candidateLess_trans: "candidateLess a b \<Longrightarrow> candidateLess b c \<Longrightarrow> candidateLess a c"
  by (auto simp: candidateLess_def split: if_splits)

lemma candidateLess_linear: "a \<noteq> b \<Longrightarrow> candidateLess a b \<or> candidateLess b a"
  by (cases a; cases b) (auto simp: candidateLess_def)

lemma candidateLess_eq: "\<not> candidateLess a b \<Longrightarrow> \<not> candidateLess b a \<Longrightarrow> a = b"
  using candidateLess_linear by blast

abbreviation ordered :: "candidate list \<Rightarrow> bool" where
  "ordered \<equiv> sorted_wrt candidateLess"

lemma ordered_distinct: "ordered cs \<Longrightarrow> distinct cs"
  by (induction cs) auto

lemma set_setInsert [simp]: "set (setInsert c cs) = insert c (set cs)"
  by (induction cs) auto

lemma ordered_setInsert: "ordered cs \<Longrightarrow> c \<notin> set cs \<Longrightarrow> ordered (setInsert c cs)"
proof (induction cs)
  case (Cons d ds)
  then have "candidateLess c d \<or> candidateLess d c" using candidateLess_linear [of c d] by auto
  with Cons show ?case by (auto intro: candidateLess_trans)
qed simp

lemma ordered_remove1: "ordered cs \<Longrightarrow> ordered (remove1 c cs)"
  by (induction cs) (auto dest: notin_set_remove1 set_remove1_subset [THEN subsetD])

section \<open>The invariant\<close>

definition candOf :: "nat \<Rightarrow> nat \<Rightarrow> lru_entry \<Rightarrow> candidate" where
  "candOf k f e = \<lparr>infiniteDistance = length (history e) < k, priorityTimestamp = hd (history e),
     candFrameId = f\<rparr>"

definition entryOk :: "nat \<Rightarrow> u64 \<Rightarrow> lru_entry \<Rightarrow> bool" where
  "entryOk k now e \<longleftrightarrow>
     (if tracked e then history e \<noteq> [] \<and> length (history e) \<le> k \<and> sorted (history e) \<and>
        last (history e) \<le> now \<and> hd (history e) \<noteq> 0
      else e = emptyEntry)"

definition candSet :: "lru_k \<Rightarrow> candidate set" where
  "candSet s = {candOf (kParam s) f (entries s ! f) | f. f < length (entries s) \<and> evictable (entries s ! f)}"

definition lruInv :: "lru_k \<Rightarrow> bool" where
  "lruInv s \<longleftrightarrow> kParam s > 0 \<and> entries s \<noteq> [] \<and> (\<forall>e\<in>set (entries s). entryOk (kParam s) (currentTimestamp s) e) \<and>
     set (candidates s) = candSet s \<and> ordered (candidates s) \<and>
     trackedCount s = length (filter tracked (entries s))"

lemma candFrameId_candOf [simp]: "candFrameId (candOf k f e) = f"
  by (simp add: candOf_def)

lemma candOf_inject: "candOf k f e = candOf k' g e' \<Longrightarrow> f = g"
  by (simp add: candOf_def)

lemma entryOk_evictable: "entryOk k now e \<Longrightarrow> evictable e \<Longrightarrow> tracked e"
  by (auto simp: entryOk_def emptyEntry_def split: if_splits)

lemma candidateFor_eq:
  "f < length (entries s) \<Longrightarrow> tracked (entries s ! f) \<Longrightarrow> history (entries s ! f) \<noteq> [] \<Longrightarrow>
   candidateFor s f = Inr (candOf (kParam s) f (entries s ! f))"
  by (simp add: candidateFor_def requireEntry_def candOf_def)

lemma length_filter_update:
  assumes "i < length xs"
  shows "length (filter P (xs[i := x])) + (if P (xs ! i) then 1 else 0) =
     length (filter P xs) + (if P x then 1 else 0)"
proof -
  have "xs[i := x] = take i xs @ x # drop (Suc i) xs" using assms by (rule upd_conv_take_nth_drop)
  moreover have "filter P xs = filter P (take i xs @ xs ! i # drop (Suc i) xs)"
    using id_take_nth_drop [OF assms] by simp
  ultimately show ?thesis by simp
qed

lemma candSet_update:
  assumes "f < length (entries s)" "entries s' = (entries s)[f := e']" "kParam s' = kParam s"
  shows "candSet s' = (candSet s - {candOf (kParam s) f (entries s ! f)}) \<union>
     (if evictable e' then {candOf (kParam s) f e'} else {})"
  using assms by (auto simp: candSet_def nth_list_update dest: candOf_inject)

text \<open>Replacing one entry, with the candidate index adjusted for it, keeps the invariant.\<close>

lemma lruInv_update:
  assumes inv: "lruInv s" and f: "f < length (entries s)"
    and e: "entries s' = (entries s)[f := e']" "kParam s' = kParam s"
    and ok: "entryOk (kParam s) (currentTimestamp s') e'" and now: "currentTimestamp s \<le> currentTimestamp s'"
    and cs: "set (candidates s') = (set (candidates s) - {candOf (kParam s) f (entries s ! f)}) \<union>
       (if evictable e' then {candOf (kParam s) f e'} else {})" "ordered (candidates s')"
    and tc: "trackedCount s' + (if tracked (entries s ! f) then 1 else 0) =
       trackedCount s + (if tracked e' then 1 else 0)"
  shows "lruInv s'"
proof -
  have mono: "entryOk (kParam s) (currentTimestamp s') e" if "e \<in> set (entries s)" for e
    using inv that now by (auto simp: lruInv_def entryOk_def split: if_splits)
  then have "\<forall>e\<in>set (entries s'). entryOk (kParam s) (currentTimestamp s') e"
    using ok set_update_subset_insert [of "entries s" f e'] by (auto simp: e)
  moreover have "set (candidates s') = candSet s'"
    using inv cs(1) candSet_update [OF f e] by (simp add: lruInv_def)
  moreover have "trackedCount s' = length (filter tracked (entries s'))"
    using tc inv length_filter_update [OF f, of tracked e'] by (simp add: e lruInv_def split: if_splits)
  ultimately show ?thesis using inv cs(2) e by (auto simp: lruInv_def)
qed

section \<open>Validation decides the invariant\<close>

lemma validateEntries_ok:
  assumes "\<forall>f\<in>set fs. f < length (entries s)"
  shows "validateEntries s fs nt ne = Inr (nt', ne') \<longleftrightarrow>
    (\<forall>f\<in>set fs. entryOk (kParam s) (currentTimestamp s) (entries s ! f) \<and>
       (evictable (entries s ! f) \<longrightarrow> candOf (kParam s) f (entries s ! f) \<in> set (candidates s))) \<and>
    nt' = nt + length (filter (\<lambda>f. tracked (entries s ! f)) fs) \<and>
    ne' = ne + length (filter (\<lambda>f. evictable (entries s ! f)) fs)"
  using assms
proof (induction fs arbitrary: nt ne)
  case (Cons f fs)
  let ?e = "entries s ! f"
  have eq: "?e = emptyEntry \<longleftrightarrow> \<not> tracked ?e \<and> \<not> evictable ?e \<and> history ?e = []"
    by (cases ?e) (auto simp: emptyEntry_def)
  show ?case
  proof (cases "tracked ?e \<and> history ?e \<noteq> []")
    case True
    then have "candidateFor s f = Inr (candOf (kParam s) f ?e)"
      using Cons.prems by (simp add: candidateFor_eq)
    with True Cons show ?thesis
      by (auto simp: entryOk_def Let_def not_le not_less split: if_splits)
  next
    case False
    with Cons show ?thesis by (auto simp: entryOk_def eq Let_def split: if_splits)
  qed
qed auto

lemma validateCandidates_ok:
  assumes "\<forall>e\<in>set (entries s). entryOk (kParam s) (currentTimestamp s) e"
  shows "validateCandidates s cs ix = Inr () \<longleftrightarrow>
    distinct (map candFrameId cs) \<and> set (map candFrameId cs) \<inter> set ix = {} \<and>
    (\<forall>c\<in>set cs. candFrameId c < length (entries s) \<and> evictable (entries s ! candFrameId c) \<and>
       c = candOf (kParam s) (candFrameId c) (entries s ! candFrameId c))"
proof (induction cs arbitrary: ix)
  case (Cons c cs)
  let ?f = "candFrameId c"
  show ?case
  proof (cases "?f < length (entries s) \<and> evictable (entries s ! ?f)")
    case True
    then have "entryOk (kParam s) (currentTimestamp s) (entries s ! ?f)" using assms by auto
    then have t: "tracked (entries s ! ?f)" "history (entries s ! ?f) \<noteq> []"
      using True by (auto simp: entryOk_def emptyEntry_def split: if_splits)
    have "\<not> candidateLess c d \<and> \<not> candidateLess d c \<longleftrightarrow> c = d" for d
      using candidateLess_eq by auto
    with t True Cons show ?thesis
      by (auto simp: candidateFor_eq Let_def)
  qed (use Cons in \<open>auto simp: Let_def\<close>)
qed auto

lemma filter_nth_length: "length (filter (\<lambda>f. P (xs ! f)) [0..<length xs]) = length (filter P xs)"
proof -
  have "filter P xs = filter P (map ((!) xs) [0..<length xs])" by (simp only: map_nth)
  then show ?thesis by (simp add: filter_map comp_def)
qed

lemma inj_candFrameId: "inj_on candFrameId (candSet s)"
  by (auto simp: candSet_def intro!: inj_onI)

lemma candidates_length:
  assumes "distinct cs" "set cs = candSet s"
  shows "length cs = length (filter evictable (entries s))"
proof -
  let ?F = "{f. f < length (entries s) \<and> evictable (entries s ! f)}"
  have "candSet s = (\<lambda>f. candOf (kParam s) f (entries s ! f)) ` ?F" by (auto simp: candSet_def)
  moreover have "inj_on (\<lambda>f. candOf (kParam s) f (entries s ! f)) ?F"
    by (auto intro: inj_onI dest: candOf_inject)
  ultimately have "card (set cs) = card ?F" using assms(2) by (simp add: card_image)
  then show ?thesis using assms(1) by (simp add: distinct_card length_filter_conv_card)
qed

lemma lru_validate_ok:
  assumes "ordered (candidates s)"
  shows "validate s = Inr () \<longleftrightarrow> lruInv s"
proof -
  let ?n = "length (entries s)" and ?ok = "\<forall>e\<in>set (entries s). entryOk (kParam s) (currentTimestamp s) e"
  have E: "validateEntries s [0..<?n] 0 0 = Inr (nt, ne) \<longleftrightarrow>
      ?ok \<and> candSet s \<subseteq> set (candidates s) \<and> nt = length (filter tracked (entries s)) \<and>
      ne = length (filter evictable (entries s))" for nt ne
  proof -
    have "candSet s \<subseteq> set (candidates s) \<longleftrightarrow>
        (\<forall>f < ?n. evictable (entries s ! f) \<longrightarrow> candOf (kParam s) f (entries s ! f) \<in> set (candidates s))"
      by (auto simp: candSet_def)
    then show ?thesis
      by (subst validateEntries_ok) (auto simp: filter_nth_length all_set_conv_all_nth)
  qed
  have C: "validateCandidates s (candidates s) [] = Inr () \<longleftrightarrow> set (candidates s) \<subseteq> candSet s" if ?ok
  proof -
    have "distinct (map candFrameId (candidates s))" if "set (candidates s) \<subseteq> candSet s"
      using that ordered_distinct [OF assms] inj_on_subset [OF inj_candFrameId]
      by (simp add: distinct_map)
    moreover have "c \<in> candSet s \<longleftrightarrow> candFrameId c < ?n \<and> evictable (entries s ! candFrameId c) \<and>
        c = candOf (kParam s) (candFrameId c) (entries s ! candFrameId c)" for c
      by (auto simp: candSet_def)
    ultimately show ?thesis unfolding validateCandidates_ok [OF that] by auto
  qed
  have "length (candidates s) = length (filter evictable (entries s))" if "set (candidates s) = candSet s"
    using candidates_length [OF ordered_distinct [OF assms] that] .
  then show ?thesis
    using E C assms by (auto simp: validate_def lruInv_def res_bind_eq_Inr throw_if_eq split: if_splits)
qed

section \<open>Operations keep the invariant\<close>

definition touch :: "nat \<Rightarrow> u64 \<Rightarrow> lru_entry \<Rightarrow> lru_entry" where
  "touch k now e = e\<lparr>tracked := True,
     history := (let h = history e @ [now] in if length h > k then tl h else h)\<rparr>"

lemma next_timestamp:
  assumes "(now::u64) \<noteq> 0xFFFFFFFFFFFFFFFF"
  shows "unat (now + 1) = Suc (unat now)" "now < now + 1"
proof -
  show n: "unat (now + 1) = Suc (unat now)" using assms by (rule unat_succ_max)
  show "now < now + 1" by (simp add: word_less_nat_alt n)
qed

lemma entryOk_touch:
  assumes "entryOk k now e" "k > 0" "now \<noteq> 0xFFFFFFFFFFFFFFFF"
  shows "entryOk k (now + 1) (touch k (now + 1) e)"
proof -
  note up = next_timestamp(2) [OF assms(3)]
  then have pos: "0 < now + 1" using word_neq_0_conv by fastforce
  show ?thesis
  proof (cases "history e")
    case Nil
    with assms(2) pos show ?thesis by (auto simp: entryOk_def touch_def)
  next
    case (Cons x xs)
    with assms(1) have h: "length (x # xs) \<le> k" "sorted (x # xs)" "last (x # xs) \<le> now" "x \<noteq> 0"
      by (auto simp: entryOk_def emptyEntry_def split: if_splits)
    have le: "y \<le> now" if "y \<in> set (x # xs)" for y
    proof -
      from that have "y \<le> last (x # xs)"
        using h(2) by (metis append_butlast_last_id list.distinct(1) rotate1.simps(2) set_ConsD set_rotate1 sorted_append list.set_intros(1) order_refl)
      with h(3) show ?thesis by simp
    qed
    then have s: "sorted ((x # xs) @ [now + 1])"
      using h(2) up by (auto simp: sorted_append intro!: order_trans [OF le less_imp_le])
    have "hd (xs @ [now + 1]) \<noteq> 0"
      using h(2,4) pos by (cases xs) (auto simp: word_neq_0_conv dest: order_trans)
    then show ?thesis using Cons h s by (auto simp: entryOk_def touch_def Let_def)
  qed
qed

lemma eraseCandidate_ok:
  assumes "lruInv s" "f < length (entries s)" "evictable (entries s ! f)"
  shows "eraseCandidate f s =
    (Inr (), s\<lparr>candidates := remove1 (candOf (kParam s) f (entries s ! f)) (candidates s)\<rparr>)"
proof -
  have "entryOk (kParam s) (currentTimestamp s) (entries s ! f)" using assms by (auto simp: lruInv_def)
  then have "candidateFor s f = Inr (candOf (kParam s) f (entries s ! f))"
    using assms by (intro candidateFor_eq) (auto simp: entryOk_def emptyEntry_def split: if_splits)
  moreover have "candOf (kParam s) f (entries s ! f) \<in> set (candidates s)"
    using assms by (auto simp: lruInv_def candSet_def)
  ultimately show ?thesis by (simp add: eraseCandidate_def)
qed

lemma not_candidate:
  "lruInv s \<Longrightarrow> f < length (entries s) \<Longrightarrow> \<not> evictable (entries s ! f) \<Longrightarrow> candOf k f e \<notin> set (candidates s)"
  by (auto simp: lruInv_def candSet_def dest: candOf_inject)

lemma removed_candidate:
  assumes "lruInv s" "f < length (entries s)"
  shows "candOf k f e \<notin> set (remove1 (candOf (kParam s) f (entries s ! f)) (candidates s))"
  using assms ordered_distinct [of "candidates s"]
  by (auto simp: lruInv_def candSet_def dest: candOf_inject)

lemma insertCandidate_ok:
  assumes "f < length (entries s)" "tracked (entries s ! f)" "history (entries s ! f) \<noteq> []"
    and "candOf (kParam s) f (entries s ! f) \<notin> set (candidates s)"
  shows "insertCandidate f s =
    (Inr (), s\<lparr>candidates := setInsert (candOf (kParam s) f (entries s ! f)) (candidates s)\<rparr>)"
  using assms by (simp add: insertCandidate_def candidateFor_eq)

lemma touch_simps [simp]:
  "tracked (touch k now e)" "evictable (touch k now e) = evictable e"
  by (simp_all add: touch_def)

lemma history_touch: "k > 0 \<Longrightarrow> history (touch k now e) \<noteq> []"
  by (cases "history e") (auto simp: touch_def Let_def)

lemma pushAccess_eq:
  "pushAccess f s = (Inr (), s\<lparr>currentTimestamp := currentTimestamp s + 1,
     trackedCount := trackedCount s + (if tracked (entries s ! f) then 0 else 1),
     entries := (entries s)[f := touch (kParam s) (currentTimestamp s + 1) (entries s ! f)]\<rparr>)"
  by (simp add: pushAccess_def setEntry_def touch_def Let_def)

lemma recordAccess_ok:
  assumes inv: "lruInv s" and f: "f < length (entries s)" and now: "currentTimestamp s \<noteq> 0xFFFFFFFFFFFFFFFF"
  shows "\<exists>s'. recordAccess f s = (Inr (), s') \<and> lruInv s' \<and> kParam s' = kParam s \<and>
    currentTimestamp s' = currentTimestamp s + 1 \<and>
    entries s' = (entries s)[f := touch (kParam s) (currentTimestamp s + 1) (entries s ! f)]"
proof -
  let ?e = "entries s ! f" and ?e' = "touch (kParam s) (currentTimestamp s + 1) (entries s ! f)"
  let ?c = "candOf (kParam s) f ?e" and ?c' = "candOf (kParam s) f ?e'"
  define cs where "cs = (if evictable ?e then remove1 ?c (candidates s) else candidates s)"
  define s2 where "s2 = s\<lparr>candidates := cs, currentTimestamp := currentTimestamp s + 1,
     trackedCount := trackedCount s + (if tracked ?e then 0 else 1), entries := (entries s)[f := ?e']\<rparr>"
  define s3 where "s3 = s2\<lparr>candidates := (if evictable ?e then setInsert ?c' cs else cs)\<rparr>"
  have k: "kParam s > 0" and ord: "ordered (candidates s)" using inv by (auto simp: lruInv_def)
  have ok: "entryOk (kParam s) (currentTimestamp s) ?e" using inv f by (auto simp: lruInv_def)
  have nc: "?c' \<notin> set cs" "?c \<notin> set cs" "ordered cs"
    using removed_candidate [OF inv f] not_candidate [OF inv f] ord ordered_remove1
    by (auto simp: cs_def)
  have scs: "set cs = set (candidates s) - {?c}"
    using not_candidate [OF inv f] ordered_distinct [OF ord] by (auto simp: cs_def)
  have "whenAct (evictable ?e) (eraseCandidate f) s = (Inr (), s\<lparr>candidates := cs\<rparr>)"
    by (simp add: whenAct_def cs_def eraseCandidate_ok [OF inv f])
  moreover have "pushAccess f (s\<lparr>candidates := cs\<rparr>) = (Inr (), s2)"
    by (simp add: pushAccess_eq s2_def)
  moreover have "whenAct (evictable ?e) (insertCandidate f) s2 = (Inr (), s3)"
    using insertCandidate_ok [of f s2] nc(1) f k
    by (simp add: whenAct_def s3_def s2_def history_touch)
  ultimately have "recordAccess f s = (Inr (), s3)"
    using f now by (simp add: recordAccess_def requireEntry_def throw_if_def)
  moreover have "lruInv s3"
    by (rule lruInv_update [OF inv f, of _ ?e'])
      (use entryOk_touch [OF ok k now] next_timestamp(2) [OF now] nc scs ordered_setInsert
       in \<open>auto simp: s3_def s2_def\<close>)
  ultimately show ?thesis by (auto simp: s3_def s2_def)
qed

lemma setEvictable_ok:
  assumes inv: "lruInv s" and f: "f < length (entries s)" and t: "tracked (entries s ! f)"
  shows "\<exists>s'. setEvictable f ev s = (Inr (), s') \<and> lruInv s' \<and> kParam s' = kParam s \<and>
    currentTimestamp s' = currentTimestamp s \<and> entries s' = (entries s)[f := (entries s ! f)\<lparr>evictable := ev\<rparr>]"
proof (cases "evictable (entries s ! f) = ev")
  case True
  then have "(entries s)[f := (entries s ! f)\<lparr>evictable := ev\<rparr>] = entries s"
    using f by (auto simp: list_eq_iff_nth_eq nth_list_update)
  then show ?thesis using assms True by (simp add: setEvictable_def requireEntry_def)
next
  case False
  let ?e = "entries s ! f" and ?e' = "(entries s ! f)\<lparr>evictable := ev\<rparr>"
  let ?c = "candOf (kParam s) f ?e"
  define s' where "s' = s\<lparr>entries := (entries s)[f := ?e'],
    candidates := (if ev then setInsert ?c (candidates s) else remove1 ?c (candidates s))\<rparr>"
  have ord: "ordered (candidates s)" using inv by (auto simp: lruInv_def)
  have ok: "entryOk (kParam s) (currentTimestamp s) ?e" using inv f by (auto simp: lruInv_def)
  then have h: "history ?e \<noteq> []" "entryOk (kParam s) (currentTimestamp s) ?e'"
    using t by (auto simp: entryOk_def)
  have same: "candOf k f (e\<lparr>evictable := b\<rparr>) = candOf k f e" for k e b by (simp add: candOf_def)
  have "setEvictable f ev s = (Inr (), s')"
    using f t h False eraseCandidate_ok [OF inv f] not_candidate [OF inv f]
      insertCandidate_ok [of f "setEntry f (\<lambda>e. e\<lparr>evictable := ev\<rparr>) s"]
    by (auto simp: setEvictable_def requireEntry_def whenAct_def setEntry_def s'_def same)
  moreover have "lruInv s'"
    by (rule lruInv_update [OF inv f, of _ ?e'])
      (use f t h False ord not_candidate [OF inv f] ordered_setInsert ordered_remove1
         ordered_distinct [OF ord] in \<open>auto simp: s'_def same\<close>)
  ultimately show ?thesis by (auto simp: s'_def)
qed

lemma remove_ok:
  assumes inv: "lruInv s" and f: "f < length (entries s)" and ev: "evictable (entries s ! f)"
  shows "\<exists>s'. remove f s = (Inr True, s') \<and> lruInv s' \<and> kParam s' = kParam s \<and>
    currentTimestamp s' = currentTimestamp s \<and> entries s' = (entries s)[f := emptyEntry]"
proof -
  let ?c = "candOf (kParam s) f (entries s ! f)"
  define s' where "s' = s\<lparr>candidates := remove1 ?c (candidates s), entries := (entries s)[f := emptyEntry],
    trackedCount := trackedCount s - 1\<rparr>"
  have ord: "ordered (candidates s)" using inv by (auto simp: lruInv_def)
  have t: "tracked (entries s ! f)"
    using inv f ev entryOk_evictable [of "kParam s" "currentTimestamp s"] by (auto simp: lruInv_def)
  have "entries s ! f \<in> set (filter tracked (entries s))" using t f by simp
  then have "length (filter tracked (entries s)) > 0" by (rule length_pos_if_in_set)
  then have pos: "trackedCount s > 0" using inv by (simp add: lruInv_def)
  have "remove f s = (Inr True, s')"
    using f t ev eraseCandidate_ok [OF inv f ev]
    by (simp add: remove_def requireEntry_def setEntry_def s'_def act_bind_def)
  moreover have "lruInv s'"
    by (rule lruInv_update [OF inv f, of _ emptyEntry])
      (use t pos ord ordered_remove1 ordered_distinct [OF ord]
       in \<open>auto simp: s'_def entryOk_def emptyEntry_def\<close>)
  ultimately show ?thesis by (auto simp: s'_def)
qed

section \<open>Choosing a victim\<close>

lemma victim_None:
  assumes "lruInv s"
  shows "victim s = None \<longleftrightarrow> (\<forall>f < length (entries s). \<not> evictable (entries s ! f))"
proof -
  have "victim s = None \<longleftrightarrow> set (candidates s) = {}" by (simp add: victim_def split: list.split)
  also have "set (candidates s) = candSet s" using assms by (simp add: lruInv_def)
  finally show ?thesis by (auto simp: candSet_def)
qed

lemma victim_Some:
  assumes "lruInv s" "victim s = Some f"
  shows "f < length (entries s)" "evictable (entries s ! f)"
    and "\<And>g. g < length (entries s) \<Longrightarrow> evictable (entries s ! g) \<Longrightarrow> g \<noteq> f \<Longrightarrow>
      candidateLess (candOf (kParam s) f (entries s ! f)) (candOf (kParam s) g (entries s ! g))"
proof -
  from assms(2) obtain c cs where c: "candidates s = c # cs" "candFrameId c = f"
    by (auto simp: victim_def split: list.splits)
  have S: "set (candidates s) = candSet s" and o: "ordered (candidates s)" using assms(1) by (auto simp: lruInv_def)
  have "c \<in> candSet s" using S c by auto
  then show f: "f < length (entries s)" "evictable (entries s ! f)"
    using c(2) by (auto simp: candSet_def)
  have ceq: "c = candOf (kParam s) f (entries s ! f)" using \<open>c \<in> candSet s\<close> c(2) by (auto simp: candSet_def)
  fix g assume g: "g < length (entries s)" "evictable (entries s ! g)" "g \<noteq> f"
  then have "candOf (kParam s) g (entries s ! g) \<in> set (c # cs)" using S c by (auto simp: candSet_def)
  moreover have "candOf (kParam s) g (entries s ! g) \<noteq> c" using g(3) c(2) by auto
  ultimately show "candidateLess (candOf (kParam s) f (entries s ! f)) (candOf (kParam s) g (entries s ! g))"
    using o c(1) ceq by auto
qed

lemma evict_ok:
  assumes "lruInv s"
  shows "\<exists>s'. evict s = (Inr (victim s), s') \<and> lruInv s' \<and> kParam s' = kParam s \<and>
    currentTimestamp s' = currentTimestamp s \<and>
    entries s' = (case victim s of None \<Rightarrow> entries s | Some f \<Rightarrow> (entries s)[f := emptyEntry])"
proof (cases "victim s")
  case (Some f)
  obtain s' where s': "remove f s = (Inr True, s')" "lruInv s'" "kParam s' = kParam s"
    "currentTimestamp s' = currentTimestamp s" "entries s' = (entries s)[f := emptyEntry]"
    using remove_ok [OF assms victim_Some(1,2) [OF assms Some]] by auto
  with Some show ?thesis by (simp add: evict_def)
qed (simp add: evict_def assms)

lemma out_of_range:
  assumes "f \<ge> length (entries s)"
  shows "recordAccess f s = (Inl (OutOfRange ''FrameId exceeds LRU-K capacity''), s)"
    "setEvictable f ev s = (Inl (OutOfRange ''FrameId exceeds LRU-K capacity''), s)"
    "remove f s = (Inl (OutOfRange ''FrameId exceeds LRU-K capacity''), s)"
  using assms by (simp_all add: recordAccess_def setEvictable_def remove_def requireEntry_def)

lemma untracked_ops:
  assumes "f < length (entries s)" "\<not> tracked (entries s ! f)"
  shows "setEvictable f ev s = (Inl (LogicError ''Cannot change untracked frame evictability''), s)"
    "remove f s = (Inr False, s)"
  using assms by (simp_all add: setEvictable_def remove_def requireEntry_def)

lemma pinned_remove:
  assumes "f < length (entries s)" "tracked (entries s ! f)" "\<not> evictable (entries s ! f)"
  shows "remove f s = (Inl (LogicError ''Cannot remove a non-evictable frame''), s)"
  using assms by (simp add: remove_def requireEntry_def)

section \<open>The policy over full histories\<close>

text \<open>
  The specification keeps every access of a frame since it was last forgotten, oldest first, and
  picks as victim the evictable frame with fewer than \<open>k\<close> accesses and the earliest first access,
  or else the one whose \<open>k\<close>-th most recent access is earliest.
\<close>

datatype lru_op = Access nat | SetEv nat bool | Remove nat | Evict

type_synonym lru_spec = "nat \<times> (nat \<rightharpoonup> nat list \<times> bool)"

definition specKey :: "nat \<Rightarrow> nat \<Rightarrow> nat list \<Rightarrow> bool \<times> nat \<times> nat" where
  "specKey k f acc = (length acc \<ge> k, acc ! (length acc - k), f)"

definition specVictim :: "nat \<Rightarrow> nat \<Rightarrow> (nat \<rightharpoonup> nat list \<times> bool) \<Rightarrow> nat option" where
  "specVictim k cap A =
     (let keys = {specKey k f acc | f acc. f < cap \<and> A f = Some (acc, True)} in
      if keys = {} then None else Some (snd (snd (Min keys))))"

fun specStep :: "nat \<Rightarrow> nat \<Rightarrow> lru_op \<Rightarrow> lru_spec \<Rightarrow> nat option \<times> lru_spec" where
  "specStep k cap (Access f) (t, A) =
     (None, if f < cap then (t + 1, A(f \<mapsto> (case A f of None \<Rightarrow> ([t + 1], False) | Some (acc, ev) \<Rightarrow> (acc @ [t + 1], ev))))
        else (t, A))"
| "specStep k cap (SetEv f ev) (t, A) =
     (None, t, case A f of None \<Rightarrow> A | Some (acc, _) \<Rightarrow> A(f \<mapsto> (acc, ev)))"
| "specStep k cap (Remove f) (t, A) =
     (None, t, case A f of Some (acc, True) \<Rightarrow> A(f := None) | _ \<Rightarrow> A)"
| "specStep k cap Evict (t, A) =
     (case specVictim k cap A of None \<Rightarrow> (None, t, A) | Some f \<Rightarrow> (Some f, t, A(f := None)))"

fun lruStep :: "lru_op \<Rightarrow> lru_k \<Rightarrow> nat option \<times> lru_k" where
  "lruStep (Access f) s = (None, snd (recordAccess f s))"
| "lruStep (SetEv f ev) s = (None, snd (setEvictable f ev s))"
| "lruStep (Remove f) s = (None, snd (remove f s))"
| "lruStep Evict s = (case evict s of (Inl _, s') \<Rightarrow> (None, s') | (Inr r, s') \<Rightarrow> (r, s'))"

fun lruRun :: "lru_op list \<Rightarrow> lru_k \<Rightarrow> nat option list \<times> lru_k" where
  "lruRun [] s = ([], s)"
| "lruRun (op # ops) s = (let (r, s') = lruStep op s; (rs, s'') = lruRun ops s' in (r # rs, s''))"

fun specRun :: "nat \<Rightarrow> nat \<Rightarrow> lru_op list \<Rightarrow> lru_spec \<Rightarrow> nat option list \<times> lru_spec" where
  "specRun k cap [] s = ([], s)"
| "specRun k cap (op # ops) s =
     (let (r, s') = specStep k cap op s; (rs, s'') = specRun k cap ops s' in (r # rs, s''))"

definition lastN :: "nat \<Rightarrow> 'a list \<Rightarrow> 'a list" where
  "lastN k xs = drop (length xs - k) xs"

definition frameRel :: "nat \<Rightarrow> lru_entry \<Rightarrow> (nat list \<times> bool) option \<Rightarrow> bool" where
  "frameRel k e a \<longleftrightarrow> (case a of None \<Rightarrow> e = emptyEntry
     | Some (acc, ev) \<Rightarrow> tracked e \<and> evictable e = ev \<and> acc \<noteq> [] \<and> map unat (history e) = lastN k acc)"

definition lruRel :: "nat \<Rightarrow> nat \<Rightarrow> lru_k \<Rightarrow> lru_spec \<Rightarrow> bool" where
  "lruRel k cap s S \<longleftrightarrow> lruInv s \<and> kParam s = k \<and> length (entries s) = cap \<and>
     unat (currentTimestamp s) = fst S \<and> (\<forall>f. snd S f \<noteq> None \<longrightarrow> f < cap) \<and>
     (\<forall>f < cap. frameRel k (entries s ! f) (snd S f))"

lemma lastN_snoc:
  assumes "k > 0"
  shows "lastN k (xs @ [x]) = (let h = lastN k xs @ [x] in if length h > k then tl h else h)"
proof (cases "length xs < k")
  case True
  then show ?thesis using assms by (simp add: lastN_def Let_def)
next
  case False
  then have "Suc (length xs) - k = Suc (length xs - k)" by simp
  then show ?thesis using False assms by (simp add: lastN_def Let_def drop_Suc tl_drop flip: drop_Suc)
qed

lemma length_lastN: "length (lastN k xs) = min k (length xs)"
  by (simp add: lastN_def)

lemma hd_lastN: "xs \<noteq> [] \<Longrightarrow> k > 0 \<Longrightarrow> hd (lastN k xs) = xs ! (length xs - k)"
  by (simp add: lastN_def hd_drop_conv_nth)

lemma candidateLess_specKey:
  assumes "frameRel k e (Some (acc, ev))" "frameRel k e' (Some (acc', ev'))" "k > 0"
  shows "candidateLess (candOf k f e) (candOf k g e') \<longleftrightarrow> specKey k f acc < specKey k g acc'"
proof -
  have eq: "(length (history e) < k) = (length acc < k)" "unat (hd (history e)) = acc ! (length acc - k)"
    if "frameRel k e (Some (acc, ev))" for e acc ev
  proof -
    from that have m: "map unat (history e) = lastN k acc" and ne: "acc \<noteq> []" by (auto simp: frameRel_def)
    from m have l: "length (history e) = min k (length acc)" by (metis length_lastN length_map)
    then show "(length (history e) < k) = (length acc < k)" by auto
    have "history e \<noteq> []" using l ne assms(3) by (cases acc) auto
    then show "unat (hd (history e)) = acc ! (length acc - k)"
      using m hd_lastN [OF ne assms(3)] by (metis hd_map)
  qed
  have "priorityTimestamp (candOf k f e) = priorityTimestamp (candOf k g e') \<longleftrightarrow>
      acc ! (length acc - k) = acc' ! (length acc' - k)"
    "priorityTimestamp (candOf k f e) < priorityTimestamp (candOf k g e') \<longleftrightarrow>
      acc ! (length acc - k) < acc' ! (length acc' - k)"
    using eq(2) [OF assms(1)] eq(2) [OF assms(2)]
    by (simp_all add: candOf_def word_unat_eq_iff word_less_nat_alt)
  then show ?thesis
    using eq(1) [OF assms(1)] eq(1) [OF assms(2)]
    by (auto simp: candidateLess_def specKey_def candOf_def not_less)
qed

lemma victim_spec:
  assumes "lruRel k cap s (t, A)"
  shows "victim s = specVictim k cap A"
proof -
  have inv: "lruInv s" and k: "kParam s = k" "k > 0" and n: "length (entries s) = cap"
    and R: "\<And>f. f < cap \<Longrightarrow> frameRel k (entries s ! f) (A f)"
    using assms by (auto simp: lruRel_def lruInv_def)
  let ?K = "{specKey k f acc | f acc. f < cap \<and> A f = Some (acc, True)}"
  have ev: "evictable (entries s ! f) \<longleftrightarrow> (\<exists>acc. A f = Some (acc, True))" if "f < cap" for f
    using R [OF that] by (auto simp: frameRel_def emptyEntry_def split: option.splits)
  have "finite ?K"
  proof (rule finite_subset)
    show "?K \<subseteq> (\<lambda>f. specKey k f (fst (the (A f)))) ` {..<cap}" by force
  qed simp
  show ?thesis
  proof (cases "victim s")
    case None
    then have "?K = {}" using victim_None [OF inv] ev n by auto
    with None show ?thesis by (simp add: specVictim_def)
  next
    case (Some f)
    note v = victim_Some [OF inv Some]
    obtain acc where acc: "A f = Some (acc, True)" using ev v n by auto
    have mem: "specKey k f acc \<in> ?K" using acc v n by auto
    have "Min ?K = specKey k f acc"
    proof (rule Min_eqI [OF \<open>finite ?K\<close> _ mem])
      fix key assume "key \<in> ?K"
      then obtain g acc' where g: "key = specKey k g acc'" "g < cap" "A g = Some (acc', True)" by auto
      show "specKey k f acc \<le> key"
      proof (cases "g = f")
        case True
        with g acc show ?thesis by simp
      next
        case False
        have "candidateLess (candOf k f (entries s ! f)) (candOf k g (entries s ! g))"
          using v(3) [of g] g False ev n k(1) by auto
        then have "specKey k f acc < specKey k g acc'"
          using candidateLess_specKey [OF _ _ k(2)] R [of f] R [of g] acc g v(1) n by metis
        then show ?thesis by (simp add: g(1))
      qed
    qed
    moreover have "?K \<noteq> {}" using mem by blast
    ultimately show ?thesis using Some by (simp add: specVictim_def specKey_def)
  qed
qed

lemma frameRel_touch:
  assumes "frameRel k e a" "k > 0" "unat now = t"
  shows "frameRel k (touch k now e)
    (Some (case a of None \<Rightarrow> ([t], False) | Some (acc, ev) \<Rightarrow> (acc @ [t], ev)))"
proof (cases a)
  case None
  with assms show ?thesis
    by (auto simp: frameRel_def touch_def emptyEntry_def lastN_def Let_def)
next
  case (Some p)
  obtain acc ev where p: "p = (acc, ev)" by (cases p)
  with Some assms(1) have m: "map unat (history e) = lastN k acc" and r: "tracked e" "evictable e = ev" "acc \<noteq> []"
    by (auto simp: frameRel_def)
  have "length (history e) = length (lastN k acc)" by (metis m length_map)
  then have "map unat (history (touch k now e)) = lastN k (acc @ [t])"
    unfolding lastN_snoc [OF assms(2)] m [symmetric]
    by (auto simp: touch_def Let_def assms(3) map_tl)
  with Some p r show ?thesis by (simp add: frameRel_def)
qed

lemma lruRel_frame:
  assumes "lruRel k cap s (t, A)" "lruInv s'" "kParam s' = k" "f < cap"
    and "entries s' = (entries s)[f := e']" "unat (currentTimestamp s') = t'" "frameRel k e' a"
  shows "lruRel k cap s' (t', A(f := a))"
  using assms by (auto simp: lruRel_def nth_list_update)

lemma step_spec:
  assumes R: "lruRel k cap s (t, A)" and t: "t < 2 ^ 64 - 1"
  shows "fst (lruStep op s) = fst (specStep k cap op (t, A)) \<and>
    lruRel k cap (snd (lruStep op s)) (snd (specStep k cap op (t, A)))"
proof -
  have inv: "lruInv s" and k: "kParam s = k" "k > 0" and n: "length (entries s) = cap"
    and fr: "\<And>f. f < cap \<Longrightarrow> frameRel k (entries s ! f) (A f)" and now: "unat (currentTimestamp s) = t"
    using R by (auto simp: lruRel_def lruInv_def)
  have dom: "A f = None" if "\<not> f < cap" for f
    using R that by (cases "A f") (auto simp: lruRel_def)
  have tracked: "tracked (entries s ! f) \<longleftrightarrow> A f \<noteq> None" if "f < cap" for f
    using fr [OF that] by (auto simp: frameRel_def emptyEntry_def split: option.splits)
  show ?thesis
  proof (cases op)
    case (Access f)
    show ?thesis
    proof (cases "f < cap")
      case True
      have ne: "currentTimestamp s \<noteq> 0xFFFFFFFFFFFFFFFF" using now t by auto
      obtain s' where s': "recordAccess f s = (Inr (), s')" "lruInv s'" "kParam s' = k"
        "currentTimestamp s' = currentTimestamp s + 1"
        "entries s' = (entries s)[f := touch k (currentTimestamp s + 1) (entries s ! f)]"
        using recordAccess_ok [OF inv _ ne] True n k(1) by auto
      have u: "unat (currentTimestamp s + 1) = t + 1" using next_timestamp(1) [OF ne] now by simp
      have "lruRel k cap s' (t + 1, A(f \<mapsto> (case A f of None \<Rightarrow> ([t + 1], False) | Some (acc, ev) \<Rightarrow> (acc @ [t + 1], ev))))"
        by (rule lruRel_frame [OF R s'(2,3) True s'(5)]) (use s'(4) u frameRel_touch [OF fr [OF True] k(2) u] in auto)
      then show ?thesis using Access True s'(1) by simp
    next
      case False
      then show ?thesis using Access R n out_of_range(1) [of s f] by simp
    qed
  next
    case (SetEv f ev)
    show ?thesis
    proof (cases "f < cap \<and> A f \<noteq> None")
      case True
      then obtain acc ev0 where a: "A f = Some (acc, ev0)" by auto
      obtain s' where s': "setEvictable f ev s = (Inr (), s')" "lruInv s'" "kParam s' = k"
        "currentTimestamp s' = currentTimestamp s" "entries s' = (entries s)[f := (entries s ! f)\<lparr>evictable := ev\<rparr>]"
        using setEvictable_ok [OF inv, of f ev] True tracked n k(1) by auto
      have "lruRel k cap s' (t, A(f \<mapsto> (acc, ev)))"
        by (rule lruRel_frame [OF R s'(2,3) _ s'(5)])
          (use True s'(4) now fr [of f] a in \<open>auto simp: frameRel_def\<close>)
      then show ?thesis using SetEv s'(1) a by simp
    next
      case False
      then have "A f = None" using dom by blast
      then show ?thesis
        using SetEv R n tracked out_of_range(2) [of s f ev] untracked_ops(1) [of f s ev] by (cases "f < cap") auto
    qed
  next
    case (Remove f)
    show ?thesis
    proof (cases "\<exists>acc. f < cap \<and> A f = Some (acc, True)")
      case True
      then obtain acc where a: "A f = Some (acc, True)" "f < cap" by auto
      then have "evictable (entries s ! f)" using fr [of f] by (simp add: frameRel_def)
      then obtain s' where s': "remove f s = (Inr True, s')" "lruInv s'" "kParam s' = k"
        "currentTimestamp s' = currentTimestamp s" "entries s' = (entries s)[f := emptyEntry]"
        using remove_ok [OF inv, of f] a n k(1) by auto
      have "lruRel k cap s' (t, A(f := None))"
        by (rule lruRel_frame [OF R s'(2,3) a(2) s'(5)]) (use s'(4) now in \<open>auto simp: frameRel_def\<close>)
      then show ?thesis using Remove s'(1) a by simp
    next
      case False
      then have "(case A f of Some (acc, True) \<Rightarrow> A(f := None) | _ \<Rightarrow> A) = A"
        using dom by (auto split: option.splits bool.splits)
      moreover have "snd (remove f s) = s"
      proof (cases "f < cap \<and> A f \<noteq> None")
        case True
        then have "\<not> evictable (entries s ! f)" "tracked (entries s ! f)"
          using False fr [of f] by (auto simp: frameRel_def)
        then show ?thesis using pinned_remove True n by simp
      qed (use out_of_range(3) [of s f] untracked_ops(2) [of f s] tracked n in \<open>cases "f < cap"; auto\<close>)
      ultimately show ?thesis using Remove R by simp
    qed
  next
    case Evict
    obtain s' where s': "evict s = (Inr (victim s), s')" "lruInv s'" "kParam s' = k"
      "currentTimestamp s' = currentTimestamp s"
      "entries s' = (case victim s of None \<Rightarrow> entries s | Some f \<Rightarrow> (entries s)[f := emptyEntry])"
      using evict_ok [OF inv] k(1) by auto
    have "lruRel k cap s' (t, case victim s of None \<Rightarrow> A | Some f \<Rightarrow> A(f := None))"
    proof (cases "victim s")
      case None
      then show ?thesis using R s' now by (auto simp: lruRel_def)
    next
      case (Some f)
      have "lruRel k cap s' (t, A(f := None))"
        by (rule lruRel_frame [OF R s'(2,3)])
          (use s'(4,5) now Some victim_Some(1) [OF inv Some] n in \<open>auto simp: frameRel_def\<close>)
      then show ?thesis using Some by simp
    qed
    then show ?thesis using Evict s'(1) victim_spec [OF R] by (auto split: option.splits)
  qed
qed

lemma specStep_time: "fst (snd (specStep k cap op (t, A))) \<le> t + 1"
  by (cases op) (auto split: option.splits)

lemma run_spec:
  assumes "lruRel k cap s S" "fst S + length ops < 2 ^ 64"
  shows "fst (lruRun ops s) = fst (specRun k cap ops S) \<and> lruRel k cap (snd (lruRun ops s)) (snd (specRun k cap ops S))"
  using assms
proof (induction ops arbitrary: s S)
  case (Cons op ops)
  obtain t A where S: "S = (t, A)" by (cases S)
  have step: "fst (lruStep op s) = fst (specStep k cap op S)"
    "lruRel k cap (snd (lruStep op s)) (snd (specStep k cap op S))"
    using step_spec [of k cap s t A op] Cons.prems S by auto
  have "fst (snd (specStep k cap op S)) + length ops < 2 ^ 64"
    using specStep_time [of k cap op t A] Cons.prems S by simp
  from Cons.IH [OF step(2) this] step(1) show ?case
    by (simp add: case_prod_beta Let_def)
qed simp

lemma LRUKReplacer_ok:
  assumes "LRUKReplacer cap k = Inr s"
  shows "lruInv s" "lruRel k cap s (0, Map.empty)"
proof -
  have s: "s = \<lparr>kParam = k, currentTimestamp = 0, trackedCount = 0, entries = replicate cap emptyEntry,
      candidates = []\<rparr>" and p: "k > 0" "cap > 0"
    using assms by (auto simp: LRUKReplacer_def split: if_splits)
  show "lruInv s" using p by (auto simp: s lruInv_def entryOk_def emptyEntry_def candSet_def)
  then show "lruRel k cap s (0, Map.empty)" by (simp add: s lruRel_def frameRel_def)
qed

section \<open>Exceptions\<close>

text \<open>Every exception but one is thrown before anything is changed.\<close>

lemma recordAccess_exhausted:
  assumes inv: "lruInv s" and f: "f < length (entries s)" and now: "currentTimestamp s = 0xFFFFFFFFFFFFFFFF"
  shows "recordAccess f s =
    (Inl (OverflowError ''LRU-K logical timestamp exhausted''),
     if evictable (entries s ! f)
     then s\<lparr>candidates := remove1 (candOf (kParam s) f (entries s ! f)) (candidates s)\<rparr> else s)"
  using f now eraseCandidate_ok [OF inv f]
  by (auto simp: recordAccess_def requireEntry_def whenAct_def throw_if_def act_bind_def)

lemma setEvictable_error:
  assumes "lruInv s" "setEvictable f ev s = (Inl x, s')"
  shows "s' = s"
proof (cases "f < length (entries s)")
  case True
  then show ?thesis
    using setEvictable_ok [OF assms(1) True, of ev] untracked_ops(1) [OF True, of ev] assms(2) by auto
qed (use out_of_range [of s f] assms(2) in auto)

lemma remove_result:
  assumes "lruInv s" "remove f s = (r, s')"
  shows "lruInv s' \<and> (r \<noteq> Inr True \<longrightarrow> s' = s)"
proof (cases "f < length (entries s)")
  case True
  then show ?thesis
    using remove_ok [OF assms(1) True] untracked_ops(2) [OF True] pinned_remove [OF True] assms
    by (cases "evictable (entries s ! f)"; cases "tracked (entries s ! f)") auto
qed (use out_of_range [of s f] assms in auto)

section \<open>The contract of a replacer\<close>

text \<open>
  What a buffer pool relies on: the frames that are tracked and evictable, how the operations
  change them, and that a victim is always a tracked evictable frame.
\<close>

locale replacer =
  fixes inv :: "'r \<Rightarrow> bool" and capacity :: "'r \<Rightarrow> nat"
    and trackedSet :: "'r \<Rightarrow> nat set" and evictableSet :: "'r \<Rightarrow> nat set"
    and fresh :: "'r \<Rightarrow> bool"
    and access :: "nat \<Rightarrow> ('r, unit) action" and setEv :: "nat \<Rightarrow> bool \<Rightarrow> ('r, unit) action"
    and rem :: "nat \<Rightarrow> ('r, bool) action" and pick :: "'r \<Rightarrow> nat option"
  assumes sets: "inv r \<Longrightarrow> evictableSet r \<subseteq> trackedSet r" "inv r \<Longrightarrow> trackedSet r \<subseteq> {..<capacity r}"
    and access_spec: "inv r \<Longrightarrow> f < capacity r \<Longrightarrow> fresh r \<Longrightarrow> \<exists>r'. access f r = (Inr (), r') \<and> inv r' \<and>
      capacity r' = capacity r \<and> trackedSet r' = Set.insert f (trackedSet r) \<and> evictableSet r' = evictableSet r"
    and setEv_spec: "inv r \<Longrightarrow> f \<in> trackedSet r \<Longrightarrow> \<exists>r'. setEv f b r = (Inr (), r') \<and> inv r' \<and>
      capacity r' = capacity r \<and> trackedSet r' = trackedSet r \<and> (fresh r' = fresh r) \<and>
      evictableSet r' = (if b then Set.insert f (evictableSet r) else evictableSet r - {f})"
    and rem_spec: "inv r \<Longrightarrow> f \<in> evictableSet r \<Longrightarrow> \<exists>r'. rem f r = (Inr True, r') \<and> inv r' \<and>
      capacity r' = capacity r \<and> trackedSet r' = trackedSet r - {f} \<and> (fresh r' = fresh r) \<and>
      evictableSet r' = evictableSet r - {f}"
    and pick_spec: "inv r \<Longrightarrow> pick r = None \<longleftrightarrow> evictableSet r = {}"
      "inv r \<Longrightarrow> pick r = Some f \<Longrightarrow> f \<in> evictableSet r"
begin

text \<open>Picking and removing until nothing is evictable empties the evictable set.\<close>

fun drain :: "nat \<Rightarrow> 'r \<Rightarrow> 'r" where
  "drain 0 r = r"
| "drain (Suc n) r = (case pick r of None \<Rightarrow> r | Some f \<Rightarrow> drain n (snd (rem f r)))"

lemma drain_ok:
  assumes "inv r" "card (evictableSet r) \<le> n"
  shows "inv (drain n r) \<and> evictableSet (drain n r) = {} \<and>
    trackedSet (drain n r) = trackedSet r - evictableSet r"
  using assms
proof (induction n arbitrary: r)
  case 0
  then have "finite (evictableSet r)" using sets [of r] finite_subset by (metis finite_lessThan)
  with 0 show ?case by simp
next
  case (Suc n)
  have fin: "finite (evictableSet r)" using sets [OF Suc.prems(1)] by (meson finite_lessThan finite_subset)
  show ?case
  proof (cases "pick r")
    case None
    with Suc.prems pick_spec(1) [of r] show ?thesis by simp
  next
    case (Some f)
    with pick_spec(2) Suc.prems have f: "f \<in> evictableSet r" by simp
    obtain r' where r': "rem f r = (Inr True, r')" "inv r'" "trackedSet r' = trackedSet r - {f}"
      "evictableSet r' = evictableSet r - {f}"
      using rem_spec [OF Suc.prems(1) f] by auto
    have "card (evictableSet r') \<le> n" using Suc.prems(2) f fin by (simp add: r')
    from Suc.IH [OF r'(2) this] show ?thesis using Some r' f by auto
  qed
qed

end

definition trackedFrames :: "lru_k \<Rightarrow> nat set" where
  "trackedFrames s = {f. f < length (entries s) \<and> tracked (entries s ! f)}"

definition evictableFrames :: "lru_k \<Rightarrow> nat set" where
  "evictableFrames s = {f. f < length (entries s) \<and> evictable (entries s ! f)}"

interpretation lru: replacer lruInv "\<lambda>s. length (entries s)" trackedFrames evictableFrames
  "\<lambda>s. currentTimestamp s \<noteq> 0xFFFFFFFFFFFFFFFF" recordAccess setEvictable remove victim
proof (unfold_locales, goal_cases)
  case (1 r)
  then show ?case
    using entryOk_evictable [of "kParam r" "currentTimestamp r"]
    by (auto simp: lruInv_def evictableFrames_def trackedFrames_def)
next
  case (2 r)
  then show ?case by (auto simp: trackedFrames_def)
next
  case (3 r f)
  then show ?case
    using recordAccess_ok [OF 3(1), of f]
    by (auto simp: trackedFrames_def evictableFrames_def nth_list_update split: if_splits)
next
  case (4 r f b)
  then show ?case
    using setEvictable_ok [OF 4(1), of f b]
    by (auto simp: trackedFrames_def evictableFrames_def nth_list_update split: if_splits)
next
  case (5 r f)
  then show ?case
    using remove_ok [OF 5(1), of f]
    by (auto simp: trackedFrames_def evictableFrames_def nth_list_update emptyEntry_def split: if_splits)
next
  case (6 r)
  then show ?case by (auto simp: victim_None evictableFrames_def)
next
  case (7 r f)
  then show ?case using victim_Some by (auto simp: evictableFrames_def)
qed

section \<open>Properties\<close>

text \<open>
  C10: over any sequence of accesses, evictability changes, removals and evictions, the replacer
  evicts exactly the frames the LRU-K policy over complete access histories evicts, and its
  bookkeeping validates afterwards. The bounded histories and the incremental candidate index
  lose nothing. The bound is the one the code checks: fewer than \<open>2^64\<close> accesses.
\<close>

theorem lru_k_policy:
  assumes "LRUKReplacer cap k = Inr s" "length ops < 2 ^ 64"
  shows "fst (lruRun ops s) = fst (specRun k cap ops (0, Map.empty)) \<and> validate (snd (lruRun ops s)) = Inr ()"
proof -
  note R = run_spec [OF LRUKReplacer_ok(2) [OF assms(1)], of ops]
  then have "lruInv (snd (lruRun ops s))" using assms(2) by (simp add: lruRel_def)
  moreover from this have "ordered (candidates (snd (lruRun ops s)))" by (simp add: lruInv_def)
  ultimately show ?thesis using R assms(2) lru_validate_ok by simp
qed

theorem lru_k_policy_witness:
  "\<exists>s. LRUKReplacer 2 2 = Inr s \<and>
     fst (lruRun [Access 0, Access 1, Access 0, SetEv 0 True, SetEv 1 True, Evict] s) =
     fst (specRun 2 2 [Access 0, Access 1, Access 0, SetEv 0 True, SetEv 1 True, Evict] (0, Map.empty))"
proof -
  obtain s where s: "LRUKReplacer 2 2 = Inr s" by (simp add: LRUKReplacer_def)
  from lru_k_policy [OF s, of "[Access 0, Access 1, Access 0, SetEv 0 True, SetEv 1 True, Evict]"] s
  show ?thesis by auto
qed

text \<open>
  C39: in every valid state the victim is an evictable frame, none is missed, and every other
  evictable frame comes later in the candidate order: frames with fewer than \<open>k\<close> recorded
  accesses first, then the earliest oldest recorded access, then the smaller frame number.
\<close>

theorem lru_k_victim:
  assumes "validate s = Inr ()" "sorted_wrt candidateLess (candidates s)"
  shows "(victim s = None \<longleftrightarrow> (\<forall>f < length (entries s). isEvictable s f = Inr False)) \<and>
    (\<forall>f. victim s = Some f \<longrightarrow> isEvictable s f = Inr True \<and>
      (\<forall>g. isEvictable s g = Inr True \<and> g \<noteq> f \<longrightarrow>
        (\<exists>c c'. candidateFor s f = Inr c \<and> candidateFor s g = Inr c' \<and> candidateLess c c')))"
proof -
  have inv: "lruInv s" using lru_validate_ok [OF assms(2)] assms(1) by simp
  have ev: "isEvictable s f = Inr b \<longleftrightarrow> f < length (entries s) \<and> evictable (entries s ! f) = b" for f b
    by (auto simp: isEvictable_def requireEntry_def)
  have cf: "candidateFor s f = Inr (candOf (kParam s) f (entries s ! f))"
    if "f < length (entries s)" "evictable (entries s ! f)" for f
  proof -
    have "entryOk (kParam s) (currentTimestamp s) (entries s ! f)" using inv that by (auto simp: lruInv_def)
    then show ?thesis
      using that by (intro candidateFor_eq) (auto simp: entryOk_def emptyEntry_def split: if_splits)
  qed
  show ?thesis using victim_None [OF inv] victim_Some [OF inv] by (auto simp: ev cf)
qed

theorem lru_k_victim_witness:
  "\<exists>s. validate s = Inr () \<and> victim s = None \<and> (\<forall>f < length (entries s). isEvictable s f = Inr False)"
proof -
  obtain s where s: "LRUKReplacer 2 2 = Inr s" by (simp add: LRUKReplacer_def)
  then have c: "candidates s = []" by (auto simp: LRUKReplacer_def split: if_splits)
  then have "validate s = Inr ()" using lru_validate_ok [of s] LRUKReplacer_ok(1) [OF s] by simp
  moreover have "victim s = None" by (simp add: victim_def c)
  ultimately show ?thesis using lru_k_victim [of s] c by auto
qed

text \<open>
  C40: \<open>recordAccess\<close> is not exception safe. When the logical clock is exhausted and the accessed
  frame is evictable, the overflow exception is thrown after the frame's candidate has been
  erased: the replacer that is left behind fails its own validation.
\<close>

theorem lru_k_exhausted_clock_breaks_index:
  assumes "validate s = Inr ()" "sorted_wrt candidateLess (candidates s)"
    and "currentTimestamp s = 0xFFFFFFFFFFFFFFFF" "isEvictable s f = Inr True"
  shows "\<exists>s'. recordAccess f s = (Inl (OverflowError ''LRU-K logical timestamp exhausted''), s') \<and>
    validate s' \<noteq> Inr ()"
proof -
  have inv: "lruInv s" using lru_validate_ok [OF assms(2)] assms(1) by simp
  have f: "f < length (entries s)" "evictable (entries s ! f)"
    using assms(4) by (auto simp: isEvictable_def requireEntry_def split: if_splits)
  let ?c = "candOf (kParam s) f (entries s ! f)"
  let ?s = "s\<lparr>candidates := remove1 ?c (candidates s)\<rparr>"
  have "?c \<in> candSet ?s" using f by (auto simp: candSet_def)
  moreover have "?c \<notin> set (candidates ?s)" using removed_candidate [OF inv f(1)] by simp
  ultimately have "\<not> lruInv ?s" by (auto simp: lruInv_def)
  moreover have "ordered (candidates ?s)" using assms(2) ordered_remove1 by simp
  ultimately show ?thesis using recordAccess_exhausted [OF inv f(1) assms(3)] f(2) lru_validate_ok [of ?s] by simp
qed

theorem lru_k_exhausted_clock_breaks_index_witness:
  "\<exists>s s'. validate s = Inr () \<and>
     recordAccess 0 s = (Inl (OverflowError ''LRU-K logical timestamp exhausted''), s') \<and> validate s' \<noteq> Inr ()"
proof -
  let ?e = "\<lparr>history = [7], tracked = True, evictable = True\<rparr>"
  let ?s = "\<lparr>kParam = 2, currentTimestamp = 0xFFFFFFFFFFFFFFFF, trackedCount = 1, entries = [?e],
    candidates = [candOf 2 0 ?e]\<rparr>"
  have "lruInv ?s" by (auto simp: lruInv_def entryOk_def candSet_def)
  then have v: "validate ?s = Inr ()" using lru_validate_ok [of ?s] by simp
  have "isEvictable ?s 0 = Inr True" by (simp add: isEvictable_def requireEntry_def)
  with lru_k_exhausted_clock_breaks_index [OF v] v show ?thesis by fastforce
qed

end
