(* ===== verification/Schema.thy ===== *)
theory Schema
  imports Byte_Codec "HOL-Library.Char_ord"
begin

text \<open>
  Table schemas (\<open>include/minidb/schema.hpp\<close>, \<open>src/schema.cpp\<close>): identifier normalization, schema
  construction, validation of logical rows against a schema, and the persistent schema encoding.

  A \<open>Schema\<close> object is its column list; the only way to make one is \<open>Schema::create\<close>, so the
  schemas that exist are the results of \<open>create\<close> (\<open>schemaOk\<close>). The lemmas show what \<open>create\<close>
  guarantees (normalized distinct names, legal types, at most one non-null \<open>UINT32\<close> primary key),
  that \<open>create\<close> is idempotent, and that the encoding round-trips and is canonical.
\<close>

section \<open>Data\<close>

abbreviation MAX_IDENTIFIER_BYTES :: nat where "MAX_IDENTIFIER_BYTES \<equiv> 63"
abbreviation MAX_SCHEMA_COLUMNS :: nat where "MAX_SCHEMA_COLUMNS \<equiv> 1024"
abbreviation MAX_VARCHAR_BYTES :: u32 where "MAX_VARCHAR_BYTES \<equiv> 4000"

datatype data_type = UINT32 | INT64 | BOOLEAN | VARCHAR

text \<open>\<open>std::variant<monostate, uint32_t, int64_t, bool, string>\<close>; an \<open>int64_t\<close> is its 64 bits.\<close>

datatype db_value = VNull | VUint u32 | VInt u64 | VBool bool | VString string

type_synonym row_values = "db_value list"

record column_definition =
  columnName :: string
  columnType :: data_type
  nullable :: bool
  primaryKey :: bool
  varcharMaxBytes :: u32

type_synonym schema = "column_definition list"

section \<open>Identifiers\<close>

definition isIdentifierStart :: "char \<Rightarrow> bool" where
  "isIdentifierStart c \<longleftrightarrow> (CHR ''A'' \<le> c \<and> c \<le> CHR ''Z'') \<or> (CHR ''a'' \<le> c \<and> c \<le> CHR ''z'') \<or> c = CHR ''_''"

definition isIdentifierContinue :: "char \<Rightarrow> bool" where
  "isIdentifierContinue c \<longleftrightarrow> isIdentifierStart c \<or> (CHR ''0'' \<le> c \<and> c \<le> CHR ''9'')"

definition lowerChar :: "char \<Rightarrow> char" where
  "lowerChar c = (if CHR ''A'' \<le> c \<and> c \<le> CHR ''Z'' then char_of (of_char c - of_char CHR ''A'' + of_char CHR ''a'' :: nat) else c)"

fun normalizeLoop :: "string \<Rightarrow> string \<Rightarrow> string res" where
  "normalizeLoop [] normalized = Inr normalized"
| "normalizeLoop (c # cs) normalized =
     (if \<not> isIdentifierContinue c
      then Inl (InvalidArgument ''Identifier contains a non-ASCII or invalid character.'')
      else normalizeLoop cs (normalized @ [lowerChar c]))"

definition normalizeIdentifier :: "string \<Rightarrow> string res" where
  "normalizeIdentifier identifier =
     (if identifier = [] \<or> length identifier > MAX_IDENTIFIER_BYTES
      then Inl (InvalidArgument ''Identifier length is outside supported limits.'')
      else if \<not> isIdentifierStart (hd identifier)
      then Inl (InvalidArgument ''Identifier has an invalid first character.'')
      else normalizeLoop identifier [])"

section \<open>Construction\<close>

definition validateColumnType :: "column_definition \<Rightarrow> unit res" where
  "validateColumnType c =
     (case columnType c of
        VARCHAR \<Rightarrow> throw_if (varcharMaxBytes c = 0 \<or> varcharMaxBytes c > MAX_VARCHAR_BYTES)
          (InvalidArgument ''VARCHAR maximum byte length is outside supported limits.'')
      | _ \<Rightarrow> throw_if (varcharMaxBytes c \<noteq> 0)
          (InvalidArgument ''Only VARCHAR columns may specify a maximum byte length.''))"

fun createLoop :: "column_definition list \<Rightarrow> string list \<Rightarrow> bool \<Rightarrow> schema \<Rightarrow> schema res" where
  "createLoop [] names hasKey built = Inr built"
| "createLoop (c # cs) names hasKey built =
     res_bind (normalizeIdentifier (columnName c)) (\<lambda>name.
       if name \<in> set names
       then Inl (InvalidArgument ''Schema contains duplicate normalized column names.'')
       else
         let column = c\<lparr>columnName := name\<rparr> in
         res_bind (validateColumnType column) (\<lambda>_.
           if primaryKey column then
             (if hasKey then Inl (InvalidArgument ''Schema contains more than one primary key.'')
              else if nullable column then Inl (InvalidArgument ''Primary-key column cannot be nullable.'')
              else if columnType column \<noteq> UINT32
              then Inl (InvalidArgument ''Milestone 5B primary keys must use UINT32.'')
              else createLoop cs (name # names) True (built @ [column]))
           else createLoop cs (name # names) hasKey (built @ [column])))"

definition create :: "column_definition list \<Rightarrow> schema res" where
  "create columns =
     (if columns = [] \<or> length columns > MAX_SCHEMA_COLUMNS \<or> length columns > 0xFFFF
      then Inl (InvalidArgument ''Schema column count is outside supported limits.'')
      else createLoop columns [] False [])"

definition columnAt :: "schema \<Rightarrow> nat \<Rightarrow> column_definition res" where
  "columnAt s i =
     (if i \<ge> length s then Inl (OutOfRange ''Schema column index is out of range.'') else Inr (s ! i))"

definition findColumn :: "schema \<Rightarrow> string \<Rightarrow> nat option res" where
  "findColumn s name =
     res_bind (normalizeIdentifier name) (\<lambda>normalized.
       Inr (List.find (\<lambda>i. columnName (s ! i) = normalized) [0..<length s]))"

definition primaryKeyColumn :: "schema \<Rightarrow> nat option" where
  "primaryKeyColumn s = List.find (\<lambda>i. primaryKey (s ! i)) [0..<length s]"

definition typeMatches :: "data_type \<Rightarrow> db_value \<Rightarrow> bool" where
  "typeMatches t v \<longleftrightarrow>
     (case (t, v) of (UINT32, VUint _) \<Rightarrow> True | (INT64, VInt _) \<Rightarrow> True | (BOOLEAN, VBool _) \<Rightarrow> True
      | (VARCHAR, VString _) \<Rightarrow> True | _ \<Rightarrow> False)"

fun validateValuesLoop :: "column_definition list \<Rightarrow> row_values \<Rightarrow> unit res" where
  "validateValuesLoop (c # cs) (v # vs) =
     (if v = VNull then
        (if \<not> nullable c then Inl (InvalidArgument ''NULL supplied for a non-nullable column.'')
         else validateValuesLoop cs vs)
      else if \<not> typeMatches (columnType c) v
      then Inl (InvalidArgument ''Logical value type does not match its column.'')
      else if columnType c = VARCHAR \<and> (case v of VString x \<Rightarrow> length x > unat (varcharMaxBytes c) | _ \<Rightarrow> False)
      then Inl (InvalidArgument ''VARCHAR value exceeds its declared byte limit.'')
      else validateValuesLoop cs vs)"
| "validateValuesLoop _ _ = Inr ()"

definition validateValues :: "schema \<Rightarrow> row_values \<Rightarrow> unit res" where
  "validateValues s values =
     (if length values \<noteq> length s
      then Inl (InvalidArgument ''Logical row value count does not match its schema.'')
      else validateValuesLoop s values)"

section \<open>The persistent encoding\<close>

abbreviation SCHEMA_MAGIC :: "byte list" where "SCHEMA_MAGIC \<equiv> magic_bytes ''MDBSCHMA''"
abbreviation SCHEMA_HEADER_SIZE :: nat where "SCHEMA_HEADER_SIZE \<equiv> 24"
abbreviation COLUMN_HEADER_SIZE :: nat where "COLUMN_HEADER_SIZE \<equiv> 8"
abbreviation NULLABLE_FLAG :: byte where "NULLABLE_FLAG \<equiv> 1"
abbreviation PRIMARY_KEY_FLAG :: byte where "PRIMARY_KEY_FLAG \<equiv> 2"

definition typeByte :: "data_type \<Rightarrow> byte" where
  "typeByte t = (case t of UINT32 \<Rightarrow> 1 | INT64 \<Rightarrow> 2 | BOOLEAN \<Rightarrow> 3 | VARCHAR \<Rightarrow> 4)"

definition typeOfByte :: "byte \<Rightarrow> data_type" where
  "typeOfByte b = (if b = 1 then UINT32 else if b = 2 then INT64 else if b = 3 then BOOLEAN else VARCHAR)"

definition columnFlags :: "column_definition \<Rightarrow> byte" where
  "columnFlags c =
     (let flags = (0::byte);
          flags = (if nullable c then flags OR NULLABLE_FLAG else flags)
      in if primaryKey c then flags OR PRIMARY_KEY_FLAG else flags)"

fun encodeColumns :: "byte list \<Rightarrow> nat \<Rightarrow> column_definition list \<Rightarrow> byte list" where
  "encodeColumns bytes cursor [] = bytes"
| "encodeColumns bytes cursor (c # cs) =
     (let b1 = put16 bytes cursor (of_nat (length (columnName c)));
          b2 = b1[cursor + 2 := typeByte (columnType c)];
          b3 = b2[cursor + 3 := columnFlags c];
          b4 = put32 b3 (cursor + 4) (varcharMaxBytes c);
          b5 = overwrite b4 (cursor + COLUMN_HEADER_SIZE) (map char_byte (columnName c))
      in encodeColumns b5 (cursor + COLUMN_HEADER_SIZE + length (columnName c)) cs)"

definition encodedSchemaSize :: "schema \<Rightarrow> nat" where
  "encodedSchemaSize s = SCHEMA_HEADER_SIZE + (\<Sum>c\<leftarrow>s. COLUMN_HEADER_SIZE + length (columnName c))"

definition encodeSchema :: "schema \<Rightarrow> byte list res" where
  "encodeSchema s =
     (let encodedSize = encodedSchemaSize s in
      if encodedSize > 0xFFFFFFFF
      then Inl (OverflowError ''Encoded schema exceeds its format size limit.'')
      else
        let b0 = overwrite (replicate encodedSize 0) 0 SCHEMA_MAGIC;
            b1 = put32 b0 8 1;
            b2 = put32 b1 12 24;
            b3 = put16 b2 16 (of_nat (length s));
            b4 = put32 b3 20 (of_nat encodedSize)
        in Inr (encodeColumns b4 SCHEMA_HEADER_SIZE s))"

fun decodeColumns :: "byte list \<Rightarrow> nat \<Rightarrow> nat \<Rightarrow> column_definition list \<Rightarrow> (column_definition list \<times> nat) res" where
  "decodeColumns bytes 0 cursor columns = Inr (columns, cursor)"
| "decodeColumns bytes (Suc n) cursor columns =
     res_bind (requireRange bytes cursor COLUMN_HEADER_SIZE) (\<lambda>_.
     res_bind (readUint16 bytes cursor) (\<lambda>nameLength16.
     let nameLength = unat nameLength16 in
     res_bind (requireRange bytes (cursor + COLUMN_HEADER_SIZE) nameLength) (\<lambda>_.
     let rawType = bytes ! (cursor + 2) in
     if rawType < 1 \<or> rawType > 4
     then Inl (RuntimeError ''Encoded schema contains an unknown type ID.'')
     else
       let flags = bytes ! (cursor + 3) in
       if flags AND NOT (NULLABLE_FLAG OR PRIMARY_KEY_FLAG) \<noteq> 0
       then Inl (RuntimeError ''Encoded schema contains unsupported column flags.'')
       else
         res_bind (readUint32 bytes (cursor + 4)) (\<lambda>maxBytes.
         decodeColumns bytes n (cursor + COLUMN_HEADER_SIZE + nameLength)
           (columns @ [\<lparr>columnName = map byte_char (subspan bytes (cursor + COLUMN_HEADER_SIZE) nameLength),
              columnType = typeOfByte rawType, nullable = flags AND NULLABLE_FLAG \<noteq> 0,
              primaryKey = flags AND PRIMARY_KEY_FLAG \<noteq> 0, varcharMaxBytes = maxBytes\<rparr>])))))"

definition catchInvalidArgument :: "string \<Rightarrow> 'a res \<Rightarrow> 'a res" where
  "catchInvalidArgument prefix r =
     (case r of Inl (InvalidArgument what) \<Rightarrow> Inl (RuntimeError (prefix @ what)) | _ \<Rightarrow> r)"

definition decodeSchema :: "byte list \<Rightarrow> schema res" where
  "decodeSchema bytes =
     (if length bytes < SCHEMA_HEADER_SIZE \<or> subspan bytes 0 8 \<noteq> SCHEMA_MAGIC
      then Inl (RuntimeError ''Invalid schema encoding magic.'')
      else if get32 bytes 8 \<noteq> 1 then Inl (RuntimeError ''Unsupported schema encoding version.'')
      else if get32 bytes 12 \<noteq> 24 \<or> get16 bytes 18 \<noteq> 0 \<or> unat (get32 bytes 20) \<noteq> length bytes
      then Inl (RuntimeError ''Schema encoding header is malformed.'')
      else
        let columnCount = unat (get16 bytes 16) in
        if columnCount = 0 \<or> columnCount > MAX_SCHEMA_COLUMNS
        then Inl (RuntimeError ''Encoded schema has an invalid column count.'')
        else
          res_bind (decodeColumns bytes columnCount SCHEMA_HEADER_SIZE []) (\<lambda>(columns, cursor).
          if cursor \<noteq> length bytes
          then Inl (RuntimeError ''Schema encoding contains trailing bytes.'')
          else catchInvalidArgument ''Encoded schema is invalid: ''
            (res_bind (create columns) (\<lambda>schema.
             res_bind (encodeSchema schema) (\<lambda>encoded.
               if encoded \<noteq> bytes
               then Inl (RuntimeError ''Schema encoding is not canonical.'')
               else Inr schema)))))"

section \<open>Normalization\<close>

lemma lowerChar_code:
  "of_char (lowerChar c) = (if 65 \<le> (of_char c :: nat) \<and> of_char c \<le> (90 :: nat) then of_char c + 32 else of_char c :: nat)"
  by (auto simp: lowerChar_def less_eq_char_def of_char_of)

lemma isIdentifierStart_code:
  "isIdentifierStart c \<longleftrightarrow> (65 \<le> (of_char c :: nat) \<and> of_char c \<le> (90 :: nat)) \<or>
     (97 \<le> (of_char c :: nat) \<and> of_char c \<le> (122 :: nat)) \<or> (of_char c :: nat) = 95"
proof -
  have "(of_char c :: nat) = of_char CHR ''_'' \<longleftrightarrow> c = CHR ''_''" by (rule of_char_eq_iff)
  then have "c = CHR ''_'' \<longleftrightarrow> (of_char c :: nat) = 95" by simp
  then show ?thesis by (simp add: isIdentifierStart_def less_eq_char_def)
qed

lemma isIdentifierContinue_code:
  "isIdentifierContinue c \<longleftrightarrow> isIdentifierStart c \<or> (48 \<le> (of_char c :: nat) \<and> of_char c \<le> (57 :: nat))"
  by (simp add: isIdentifierContinue_def less_eq_char_def)

lemma lowerChar_start [simp]: "isIdentifierStart (lowerChar c) = isIdentifierStart c"
  by (auto simp: isIdentifierStart_code lowerChar_code)

lemma lowerChar_continue [simp]: "isIdentifierContinue (lowerChar c) = isIdentifierContinue c"
  by (auto simp: isIdentifierContinue_code isIdentifierStart_code lowerChar_code)

lemma lowerChar_idem [simp]: "lowerChar (lowerChar c) = lowerChar c"
proof -
  have "(of_char (lowerChar (lowerChar c)) :: nat) = of_char (lowerChar c)"
    unfolding lowerChar_code [of "lowerChar c"] by (simp add: lowerChar_code)
  then show ?thesis by simp
qed

lemma normalizeLoop_eq:
  "normalizeLoop cs acc = Inr r \<longleftrightarrow> (\<forall>c\<in>set cs. isIdentifierContinue c) \<and> r = acc @ map lowerChar cs"
  by (induction cs arbitrary: acc) auto

lemma normalizeIdentifier_eq:
  "normalizeIdentifier n = Inr r \<longleftrightarrow> n \<noteq> [] \<and> length n \<le> 63 \<and> isIdentifierStart (hd n) \<and>
     (\<forall>c\<in>set n. isIdentifierContinue c) \<and> r = map lowerChar n"
  by (auto simp: normalizeIdentifier_def normalizeLoop_eq)

lemma normalizeIdentifier_idem: "normalizeIdentifier n = Inr r \<Longrightarrow> normalizeIdentifier r = Inr r"
  by (auto simp: normalizeIdentifier_eq hd_map)

section \<open>What a schema guarantees\<close>

definition columnOk :: "column_definition \<Rightarrow> bool" where
  "columnOk c \<longleftrightarrow> normalizeIdentifier (columnName c) = Inr (columnName c) \<and> validateColumnType c = Inr () \<and>
     (primaryKey c \<longrightarrow> \<not> nullable c \<and> columnType c = UINT32)"

definition schemaOk :: "schema \<Rightarrow> bool" where
  "schemaOk s \<longleftrightarrow> s \<noteq> [] \<and> length s \<le> MAX_SCHEMA_COLUMNS \<and> (\<forall>c\<in>set s. columnOk c) \<and>
     distinct (map columnName s) \<and> length (filter primaryKey s) \<le> 1"

lemma validateColumnType_name [simp]: "validateColumnType (c\<lparr>columnName := n\<rparr>) = validateColumnType c"
  by (cases "columnType c") (simp_all add: validateColumnType_def)

definition normalizedColumn :: "column_definition \<Rightarrow> column_definition" where
  "normalizedColumn c = c\<lparr>columnName := map lowerChar (columnName c)\<rparr>"

lemma normalizedColumn_simps [simp]:
  "columnName (normalizedColumn c) = map lowerChar (columnName c)"
  "primaryKey (normalizedColumn c) = primaryKey c"
  by (simp_all add: normalizedColumn_def)

lemma createLoop_ok:
  "createLoop cs names hasKey acc = Inr s \<Longrightarrow>
   \<exists>t. s = acc @ t \<and> t = map normalizedColumn cs \<and>
     (\<forall>c\<in>set t. columnOk c) \<and> distinct (map columnName t) \<and> set (map columnName t) \<inter> set names = {} \<and>
     length (filter primaryKey t) + (if hasKey then 1 else 0) \<le> 1"
proof (induction cs arbitrary: names hasKey acc)
  case (Cons c cs)
  obtain n where n: "normalizeIdentifier (columnName c) = Inr n" "n \<notin> set names" "n = map lowerChar (columnName c)"
    using Cons.prems by (auto simp: res_bind_eq_Inr normalizeIdentifier_eq split: if_splits)
  let ?c = "c\<lparr>columnName := n\<rparr>"
  have "validateColumnType c = Inr ()" and
    pk: "primaryKey c \<Longrightarrow> \<not> hasKey \<and> \<not> nullable c \<and> columnType c = UINT32" and
    rest: "createLoop cs (n # names) (hasKey \<or> primaryKey c) (acc @ [?c]) = Inr s"
    using Cons.prems n(1,2) by (auto simp: Let_def res_bind_eq_Inr split: if_splits)
  then have ok: "columnOk ?c" using normalizeIdentifier_idem [OF n(1)] by (simp add: columnOk_def)
  have c: "?c = normalizedColumn c" by (simp add: n(3) normalizedColumn_def)
  obtain t where t: "s = (acc @ [?c]) @ t" "t = map normalizedColumn cs" "\<forall>c\<in>set t. columnOk c"
    "distinct (map columnName t)" "set (map columnName t) \<inter> set (n # names) = {}"
    "length (filter primaryKey t) + (if hasKey \<or> primaryKey c then 1 else 0) \<le> 1"
    using Cons.IH [OF rest] by blast
  show ?case
    by (rule exI [of _ "?c # t"]) (use t n(2) ok pk in \<open>auto simp: c [symmetric] filter_map\<close>)
qed simp

lemma createLoop_id:
  assumes "\<forall>c\<in>set cs. columnOk c" "distinct (map columnName cs)" "set (map columnName cs) \<inter> set names = {}"
    and "length (filter primaryKey cs) + (if hasKey then 1 else 0) \<le> 1"
  shows "createLoop cs names hasKey acc = Inr (acc @ cs)"
  using assms
proof (induction cs arbitrary: names hasKey acc)
  case (Cons c cs)
  then have c: "normalizeIdentifier (columnName c) = Inr (columnName c)" "validateColumnType c = Inr ()"
    "primaryKey c \<Longrightarrow> \<not> nullable c \<and> columnType c = UINT32" "columnName c \<notin> set names"
    by (auto simp: columnOk_def)
  have "createLoop cs (columnName c # names) (hasKey \<or> primaryKey c) (acc @ [c]) = Inr ((acc @ [c]) @ cs)"
    by (rule Cons.IH) (use Cons.prems in \<open>auto split: if_splits\<close>)
  then show ?case using c Cons.prems by (auto simp: Let_def split: if_splits)
qed simp

lemma create_ok:
  assumes "create cs = Inr s"
  shows "schemaOk s" "s = map normalizedColumn cs"
proof -
  have "cs \<noteq> []" "length cs \<le> 1024" "createLoop cs [] False [] = Inr s"
    using assms by (auto simp: create_def split: if_splits)
  then show "schemaOk s" "s = map normalizedColumn cs"
    using createLoop_ok [of cs "[]" False "[]" s] by (auto simp: schemaOk_def)
qed

lemma create_id: "schemaOk s \<Longrightarrow> create s = Inr s"
  using createLoop_id [of s "[]" False "[]"] by (auto simp: create_def schemaOk_def)

section \<open>The encoding as a concatenation\<close>

definition columnBytes :: "column_definition \<Rightarrow> byte list" where
  "columnBytes c = le_bytes 2 (of_nat (length (columnName c)) :: u16) @ [typeByte (columnType c), columnFlags c] @
     le_bytes 4 (varcharMaxBytes c) @ map char_byte (columnName c)"

definition schemaHeaderBytes :: "schema \<Rightarrow> byte list" where
  "schemaHeaderBytes s = SCHEMA_MAGIC @ le_bytes 4 (1 :: u32) @ le_bytes 4 (24 :: u32) @
     le_bytes 2 (of_nat (length s) :: u16) @ [0, 0] @ le_bytes 4 (of_nat (encodedSchemaSize s) :: u32)"

abbreviation columnsBytes :: "column_definition list \<Rightarrow> byte list" where
  "columnsBytes cs \<equiv> concat (map columnBytes cs)"

lemma length_columnBytes [simp]: "length (columnBytes c) = 8 + length (columnName c)"
  by (simp add: columnBytes_def)

lemma length_columnsBytes: "length (columnsBytes s) = encodedSchemaSize s - 24"
  by (simp add: encodedSchemaSize_def length_concat comp_def)

lemma encodeColumn_overwrite:
  assumes "cursor + 8 + length (columnName c) \<le> length bytes"
  shows "overwrite (put32 (((put16 bytes cursor (of_nat (length (columnName c))))[cursor + 2 := typeByte (columnType c)])
      [cursor + 3 := columnFlags c]) (cursor + 4) (varcharMaxBytes c)) (cursor + 8) (map char_byte (columnName c)) =
    overwrite bytes cursor (columnBytes c)"
  using assms
  by (simp add: put_le_overwrite list_update_overwrite overwrite_overwrite columnBytes_def)

lemma encodeColumns_eq:
  "cursor + length (columnsBytes cs) \<le> length bytes \<Longrightarrow>
   encodeColumns bytes cursor cs = overwrite bytes cursor (columnsBytes cs)"
proof (induction cs arbitrary: bytes cursor)
  case Nil
  then show ?case by (simp add: overwrite_def)
next
  case (Cons c cs)
  then have fit: "cursor + 8 + length (columnName c) + length (columnsBytes cs) \<le> length bytes" by simp
  then have "encodeColumns bytes cursor (c # cs) =
      encodeColumns (overwrite bytes cursor (columnBytes c)) (cursor + 8 + length (columnName c)) cs"
    using encodeColumn_overwrite [of cursor c bytes] by (simp add: Let_def)
  also have "\<dots> = overwrite (overwrite bytes cursor (columnBytes c)) (cursor + 8 + length (columnName c)) (columnsBytes cs)"
    by (rule Cons.IH) (use fit in simp)
  also have "\<dots> = overwrite bytes cursor (columnsBytes (c # cs))"
    using fit by (simp add: overwrite_overwrite)
  finally show ?case .
qed

lemma encodedSchemaSize_small:
  assumes "schemaOk s"
  shows "encodedSchemaSize s \<le> 24 + 1024 * 71"
proof -
  have "length (columnName c) \<le> 63" if "c \<in> set s" for c
    using assms that by (auto simp: schemaOk_def columnOk_def normalizeIdentifier_eq)
  then have "(\<Sum>c\<leftarrow>s. 8 + length (columnName c)) \<le> (\<Sum>c\<leftarrow>s. 71)"
    by (intro sum_list_mono) auto
  also have "\<dots> \<le> 1024 * 71" using assms by (simp add: schemaOk_def sum_list_triv)
  finally show ?thesis by (simp add: encodedSchemaSize_def)
qed

lemma encodeSchema_eq:
  assumes "schemaOk s"
  shows "encodeSchema s = Inr (schemaHeaderBytes s @ columnsBytes s)"
proof -
  let ?n = "encodedSchemaSize s"
  have n: "?n = 24 + length (columnsBytes s)" by (simp add: length_columnsBytes encodedSchemaSize_def)
  let ?z = "replicate ?n (0 :: byte)"
  have z: "?z = replicate 16 0 @ replicate 2 0 @ [0, 0] @ replicate 4 0 @ replicate (length (columnsBytes s)) 0"
    unfolding n by (simp add: replicate_add numeral_eq_Suc flip: replicate_append_same)
  have "put32 (put16 (put32 (put32 (overwrite ?z 0 SCHEMA_MAGIC) 8 1) 12 24) 16 (of_nat (length s))) 20 (of_nat ?n) =
    overwrite ?z 0 (schemaHeaderBytes s)"
    by (rule nth_equalityI)
      (auto simp: n put_le_overwrite nth_overwrite schemaHeaderBytes_def nth_append nth_Cons' overwrite_overwrite)
  moreover have "encodeColumns (overwrite ?z 0 (schemaHeaderBytes s)) 24 s = schemaHeaderBytes s @ columnsBytes s"
    by (simp add: encodeColumns_eq n schemaHeaderBytes_def overwrite_overwrite overwrite_full)
  ultimately show ?thesis
    using encodedSchemaSize_small [OF assms] by (simp add: encodeSchema_def Let_def)
qed

section \<open>Decoding what was encoded\<close>

lemma typeOfByte_typeByte [simp]: "typeOfByte (typeByte t) = t"
  by (cases t) (simp_all add: typeByte_def typeOfByte_def)

lemma typeByte_range: "\<not> typeByte t < 1 \<and> \<not> 4 < typeByte t"
  by (cases t) (simp_all add: typeByte_def)

lemma columnFlags_bits:
  "columnFlags c AND - 4 = 0"
  "columnFlags c AND NULLABLE_FLAG \<noteq> 0 \<longleftrightarrow> nullable c"
  "columnFlags c AND PRIMARY_KEY_FLAG \<noteq> 0 \<longleftrightarrow> primaryKey c"
  by (cases "nullable c"; cases "primaryKey c"; simp add: columnFlags_def Let_def)+

lemma decodeColumn_step:
  assumes "length (columnName c) < 65536" "length pre = cursor"
  shows "decodeColumns (pre @ columnBytes c @ post) (Suc n) cursor acc =
    decodeColumns (pre @ columnBytes c @ post) n (cursor + 8 + length (columnName c)) (acc @ [c])"
proof -
  let ?b = "pre @ columnBytes c @ post"
  have len: "cursor + 8 + length (columnName c) \<le> length ?b" using assms(2) by simp
  have g1: "get16 ?b cursor = of_nat (length (columnName c))"
    unfolding get_le_skip(1,2) [OF assms(2)] by (simp add: columnBytes_def)
  have g2: "get32 ?b (cursor + 4) = varcharMaxBytes c"
    unfolding get_le_skip(1,2) [OF assms(2)] by (simp add: columnBytes_def get_le_skip(3) get_le_Cons)
  have t: "?b ! Suc (Suc cursor) = typeByte (columnType c)" "?b ! (cursor + 3) = columnFlags c"
    using assms(2) by (simp_all add: columnBytes_def nth_append)
  have nm: "subspan ?b (cursor + 8) (length (columnName c)) = map char_byte (columnName c)"
    using assms(2) by (simp add: subspan_append_right columnBytes_def subspan_def)
  have eta: "\<lparr>columnName = columnName c, columnType = columnType c, nullable = nullable c,
      primaryKey = primaryKey c, varcharMaxBytes = varcharMaxBytes c\<rparr> = c" by simp
  show ?thesis
    using len assms(1) typeByte_range [of "columnType c"]
    by (simp add: readUint_in g1 g2 t nm requireRange_in columnFlags_bits eta Let_def)
qed

lemma decodeColumns_eq:
  assumes "\<forall>c\<in>set cs. length (columnName c) < 65536"
  shows "decodeColumns (pre @ columnsBytes cs @ post) (length cs) (length pre) acc =
    Inr (acc @ cs, length pre + length (columnsBytes cs))"
  using assms
proof (induction cs arbitrary: pre acc)
  case (Cons c cs)
  have "decodeColumns (pre @ columnBytes c @ columnsBytes cs @ post) (Suc (length cs)) (length pre) acc =
      decodeColumns (pre @ columnBytes c @ columnsBytes cs @ post) (length cs) (length pre + 8 + length (columnName c)) (acc @ [c])"
    by (rule decodeColumn_step) (use Cons.prems in simp_all)
  also have "\<dots> = Inr ((acc @ [c]) @ cs, length (pre @ columnBytes c) + length (columnsBytes cs))"
    using Cons.IH [of "pre @ columnBytes c" "acc @ [c]"] Cons.prems by (simp add: add.assoc)
  finally show ?case by simp
qed simp

lemma length_schemaHeaderBytes [simp]: "length (schemaHeaderBytes s) = 24"
  by (simp add: schemaHeaderBytes_def)

lemma schemaHeader_fields:
  assumes "schemaOk s"
  defines "b \<equiv> schemaHeaderBytes s @ columnsBytes s"
  shows "length b = encodedSchemaSize s" "subspan b 0 8 = SCHEMA_MAGIC" "get32 b 8 = 1" "get32 b 12 = 24"
    "unat (get16 b 16) = length s" "get16 b 18 = 0" "unat (get32 b 20) = encodedSchemaSize s"
proof -
  have small: "encodedSchemaSize s < 2 ^ 32" "length s < 65536"
    using encodedSchemaSize_small [OF assms(1)] assms(1) by (simp_all add: schemaOk_def)
  show "length b = encodedSchemaSize s"
    by (simp add: b_def length_columnsBytes encodedSchemaSize_def)
  have b: "b = SCHEMA_MAGIC @ le_bytes 4 (1 :: u32) @ le_bytes 4 (24 :: u32) @
     le_bytes 2 (of_nat (length s) :: u16) @ le_bytes 2 (0 :: u16) @
     le_bytes 4 (of_nat (encodedSchemaSize s) :: u32) @ columnsBytes s"
    by (simp add: b_def schemaHeaderBytes_def le_bytes_def numeral_eq_Suc)
  show "subspan b 0 8 = SCHEMA_MAGIC"
    unfolding b by (rule subspan_prefix) simp
  show "get32 b 8 = 1" "get32 b 12 = 24" "get16 b 18 = 0"
    unfolding b by (simp_all add: get_le_skip(3))
  show "unat (get16 b 16) = length s"
    unfolding b using small by (simp add: get_le_skip(3))
  have "get32 b 20 = of_nat (encodedSchemaSize s)"
    unfolding b by (simp add: get_le_skip(3))
  then show "unat (get32 b 20) = encodedSchemaSize s"
    using small(1) by (simp add: unat_of_nat_small)
qed

lemma decode_encode_schema:
  assumes "schemaOk s"
  shows "decodeSchema (schemaHeaderBytes s @ columnsBytes s) = Inr s"
proof -
  let ?b = "schemaHeaderBytes s @ columnsBytes s"
  note f = schemaHeader_fields [OF assms]
  have names: "\<forall>c\<in>set s. length (columnName c) < 65536"
    using assms by (auto simp: schemaOk_def columnOk_def normalizeIdentifier_eq)
  have d: "decodeColumns ?b (length s) 24 [] = Inr (s, length ?b)"
    using decodeColumns_eq [OF names, of "schemaHeaderBytes s" "[]" "[]"] by simp
  have s: "s \<noteq> []" "length s \<le> 1024" using assms by (auto simp: schemaOk_def)
  show ?thesis
    unfolding decodeSchema_def f(2-7)
    using s create_id [OF assms] encodeSchema_eq [OF assms]
    by (simp add: d f(1) encodedSchemaSize_def [of s] catchInvalidArgument_def Let_def del: length_append)
qed

lemma catchInvalidArgument_Inr: "catchInvalidArgument prefix r = Inr x \<longleftrightarrow> r = Inr x"
  by (simp add: catchInvalidArgument_def split: sum.split exn.split)

lemma decodeSchema_ok:
  assumes "decodeSchema b = Inr s"
  shows "schemaOk s" "encodeSchema s = Inr b"
proof -
  obtain cs where c: "create cs = Inr s" and e: "encodeSchema s = Inr b"
    using assms
    by (auto simp: decodeSchema_def res_bind_eq_Inr catchInvalidArgument_Inr Let_def split: if_splits)
  show "schemaOk s" by (rule create_ok(1) [OF c])
  show "encodeSchema s = Inr b" by (rule e)
qed

section \<open>Rows of a schema\<close>

definition valueOk :: "column_definition \<Rightarrow> db_value \<Rightarrow> bool" where
  "valueOk c v \<longleftrightarrow> (if v = VNull then nullable c
     else typeMatches (columnType c) v \<and> (\<forall>x. v = VString x \<longrightarrow> length x \<le> unat (varcharMaxBytes c)))"

lemma validateValues_ok: "validateValues s vs = Inr () \<longleftrightarrow> list_all2 valueOk s vs"
proof -
  have "validateValuesLoop s vs = Inr () \<longleftrightarrow> list_all2 valueOk s vs" if "length vs = length s"
    using that
    by (induction s vs rule: validateValuesLoop.induct)
      (auto simp: valueOk_def typeMatches_def split: db_value.splits data_type.splits)
  then show ?thesis by (auto simp: validateValues_def dest: list_all2_lengthD)
qed

section \<open>Properties\<close>

text \<open>
  C26: the bytes that decode to a schema are exactly the encoding of that schema, and the schemas
  that can be decoded are exactly those \<open>create\<close> accepts as they are: the encoding loses nothing,
  admits no second form and cannot smuggle in a schema that construction would refuse.
\<close>

theorem schema_encoding_exact:
  "decodeSchema bytes = Inr s \<longleftrightarrow> create s = Inr s \<and> encodeSchema s = Inr bytes"
proof
  assume "decodeSchema bytes = Inr s"
  from decodeSchema_ok [OF this] show "create s = Inr s \<and> encodeSchema s = Inr bytes"
    by (simp add: create_id)
next
  assume "create s = Inr s \<and> encodeSchema s = Inr bytes"
  then show "decodeSchema bytes = Inr s"
    using create_ok(1) [of s s] encodeSchema_eq [of s] decode_encode_schema [of s] by auto
qed

text \<open>
  C37: a schema that construction accepts keeps the number, types and flags of its columns, has
  normalized pairwise distinct names, legal types, at most one primary key, which is a
  non-nullable \<open>UINT32\<close>, and always has an encoding that decodes to it; constructing it again
  changes nothing.
\<close>

theorem schema_create_guarantees:
  assumes "create columns = Inr s"
  shows "schemaOk s \<and> create s = Inr s \<and> map columnType s = map columnType columns \<and>
    map primaryKey s = map primaryKey columns \<and> (\<exists>b. encodeSchema s = Inr b \<and> decodeSchema b = Inr s)"
proof -
  note c = create_ok [OF assms]
  have "map columnType s = map columnType columns" "map primaryKey s = map primaryKey columns"
    unfolding c(2) by (simp_all add: comp_def) (simp add: normalizedColumn_def)
  then show ?thesis
    using c(1) create_id encodeSchema_eq decode_encode_schema by blast
qed

definition sampleColumns :: "column_definition list" where
  "sampleColumns =
     [\<lparr>columnName = ''Id'', columnType = UINT32, nullable = False, primaryKey = True, varcharMaxBytes = 0\<rparr>,
      \<lparr>columnName = ''Name'', columnType = VARCHAR, nullable = True, primaryKey = False, varcharMaxBytes = 20\<rparr>]"

lemma sampleColumns_create:
  "create sampleColumns = Inr
     [\<lparr>columnName = ''id'', columnType = UINT32, nullable = False, primaryKey = True, varcharMaxBytes = 0\<rparr>,
      \<lparr>columnName = ''name'', columnType = VARCHAR, nullable = True, primaryKey = False, varcharMaxBytes = 20\<rparr>]"
  by (simp add: sampleColumns_def create_def normalizeIdentifier_def isIdentifierStart_def isIdentifierContinue_def
      lowerChar_def less_eq_char_def char_of_def bit_Suc_0_iff validateColumnType_def throw_if_def Let_def)

theorem schema_create_guarantees_witness:
  "\<exists>s. create sampleColumns = Inr s \<and> schemaOk s \<and> create s = Inr s"
  using schema_create_guarantees [OF sampleColumns_create] sampleColumns_create by blast

text \<open>
  C17: looking a column up finds column \<open>i\<close> exactly when the name, case folded, is the name of
  column \<open>i\<close>; names that are not identifiers are rejected rather than reported missing.
\<close>

theorem schema_find_column:
  assumes "create s = Inr s"
  shows "(findColumn s name = Inr (Some i) \<longleftrightarrow>
      i < length s \<and> normalizeIdentifier name = Inr (columnName (s ! i))) \<and>
    (findColumn s name = Inr None \<longleftrightarrow>
      (\<exists>n. normalizeIdentifier name = Inr n \<and> n \<notin> set (map columnName s)))"
proof -
  have "schemaOk s" using create_ok(1) [OF assms] .
  then have d: "j = i" if "i < length s" "j < length s" "columnName (s ! i) = columnName (s ! j)" for i j
    using that nth_eq_iff_index_eq [of "map columnName s" i j] by (simp add: schemaOk_def)
  have "List.find (\<lambda>i. columnName (s ! i) = n) [0..<length s] = Some i \<longleftrightarrow> i < length s \<and> columnName (s ! i) = n" for n i
    using d [of i] by (auto simp: find_upt_Some) (metis less_trans nat_neq_iff)
  moreover have "List.find (\<lambda>i. columnName (s ! i) = n) [0..<length s] = None \<longleftrightarrow> n \<notin> set (map columnName s)" for n
    by (auto simp: find_upt_None) (metis image_eqI in_set_conv_nth)+
  ultimately show ?thesis by (auto simp: findColumn_def res_bind_eq_Inr)
qed

theorem schema_find_column_witness:
  "\<exists>s. create sampleColumns = Inr s \<and> findColumn s ''NAME'' = Inr (Some 1)"
proof -
  have n: "normalizeIdentifier ''NAME'' = Inr ''name''"
    by (simp add: normalizeIdentifier_def isIdentifierStart_def isIdentifierContinue_def
        lowerChar_def less_eq_char_def char_of_def bit_Suc_0_iff)
  note c = create_id [OF create_ok(1) [OF sampleColumns_create]]
  show ?thesis
    using schema_find_column [OF c, of "''NAME''" 1] n sampleColumns_create by simp
qed

end
