(* ===== verification/Tuple_Codec.thy ===== *)
theory Tuple_Codec
  imports Schema
begin

text \<open>
  The logical tuple encoding (\<open>include/minidb/tuple_codec.hpp\<close>, \<open>src/tuple_codec.cpp\<close>): a 24-byte
  header, a null bitmap with one bit per column, and the non-null values in column order.

  The lemmas describe an encoded tuple as header, bitmap and value bytes, and show that encoding
  and decoding are inverse to each other in both directions: a row that validates decodes from
  its encoding, and a tuple that decodes is the encoding of the row it yields.
\<close>

section \<open>Layout\<close>

abbreviation TUPLE_MAGIC :: "byte list" where "TUPLE_MAGIC \<equiv> magic_bytes ''MDBTUPLE''"
abbreviation TUPLE_HEADER_SIZE :: nat where "TUPLE_HEADER_SIZE \<equiv> 24"
abbreviation MAX_INLINE_TUPLE :: nat where "MAX_INLINE_TUPLE \<equiv> 4040"

definition nullBitmapSize :: "nat \<Rightarrow> nat" where
  "nullBitmapSize columnCount = (columnCount + 8 - 1) div 8"

definition setNull :: "byte list \<Rightarrow> nat \<Rightarrow> nat \<Rightarrow> byte list" where
  "setNull bytes bitmapOffset columnIndex =
     (let byteOffset = bitmapOffset + columnIndex div 8;
          b = push_bit (columnIndex mod 8) 1
      in bytes[byteOffset := bytes ! byteOffset OR b])"

definition isNull :: "byte list \<Rightarrow> nat \<Rightarrow> nat \<Rightarrow> bool" where
  "isNull bytes bitmapOffset index \<longleftrightarrow>
     bytes ! (bitmapOffset + index div 8) AND push_bit (index mod 8) 1 \<noteq> 0"

definition appendString :: "byte list \<Rightarrow> string \<Rightarrow> byte list" where
  "appendString bytes value = appendUint32 bytes (of_nat (length value)) @ map char_byte value"

section \<open>Encoding\<close>

text \<open>\<open>std::get\<close> on the wrong alternative throws \<open>std::bad_variant_access\<close>.\<close>

definition appendValue :: "data_type \<Rightarrow> byte list \<Rightarrow> db_value \<Rightarrow> byte list res" where
  "appendValue t bytes v =
     (case t of
        UINT32 \<Rightarrow> (case v of VUint x \<Rightarrow> Inr (appendUint32 bytes x) | _ \<Rightarrow> Inl BadVariantAccess)
      | INT64 \<Rightarrow> (case v of VInt x \<Rightarrow> Inr (appendUint64 bytes x) | _ \<Rightarrow> Inl BadVariantAccess)
      | BOOLEAN \<Rightarrow> (case v of VBool x \<Rightarrow> Inr (bytes @ [if x then 1 else 0]) | _ \<Rightarrow> Inl BadVariantAccess)
      | VARCHAR \<Rightarrow> (case v of VString x \<Rightarrow> Inr (appendString bytes x) | _ \<Rightarrow> Inl BadVariantAccess))"

fun encodeLoop :: "schema \<Rightarrow> byte list \<Rightarrow> nat \<Rightarrow> row_values \<Rightarrow> byte list res" where
  "encodeLoop s bytes index [] = Inr bytes"
| "encodeLoop s bytes index (v # vs) =
     (if v = VNull then encodeLoop s (setNull bytes TUPLE_HEADER_SIZE index) (index + 1) vs
      else
        res_bind (columnAt s index) (\<lambda>column.
        res_bind (appendValue (columnType column) bytes v) (\<lambda>bytes'.
        if length bytes' > MAX_INLINE_TUPLE
        then Inl (InvalidArgument ''Encoded logical tuple exceeds TupleStore inline capacity.'')
        else encodeLoop s bytes' (index + 1) vs)))"

definition encode :: "schema \<Rightarrow> row_values \<Rightarrow> byte list res" where
  "encode s values =
     res_bind (validateValues s values) (\<lambda>_.
       let bitmapSize = nullBitmapSize (length s);
           b0 = overwrite (replicate (TUPLE_HEADER_SIZE + bitmapSize) 0) 0 TUPLE_MAGIC;
           b1 = put32 b0 8 1;
           b2 = put32 b1 12 24;
           b3 = put16 b2 16 (of_nat (length s));
           b4 = put16 b3 18 (of_nat bitmapSize)
       in res_bind (encodeLoop s b4 0 values) (\<lambda>bytes.
         if length bytes > 0xFFFFFFFF
         then Inl (OverflowError ''Encoded logical tuple exceeds its format size limit.'')
         else Inr (put32 bytes 20 (of_nat (length bytes)))))"

section \<open>Decoding\<close>

definition decodeValue :: "column_definition \<Rightarrow> byte list \<Rightarrow> nat \<Rightarrow> (db_value \<times> nat) res" where
  "decodeValue column bytes cursor =
     (case columnType column of
        UINT32 \<Rightarrow> res_bind (readUint32 bytes cursor) (\<lambda>x. Inr (VUint x, cursor + 4))
      | INT64 \<Rightarrow> res_bind (readUint64 bytes cursor) (\<lambda>x. Inr (VInt x, cursor + 8))
      | BOOLEAN \<Rightarrow>
          res_bind (requireRange bytes cursor 1) (\<lambda>_.
            let encoded = bytes ! cursor in
            if encoded > 1 then Inl (RuntimeError ''Encoded BOOLEAN is neither zero nor one.'')
            else Inr (VBool (encoded = 1), cursor + 1))
      | VARCHAR \<Rightarrow>
          res_bind (readUint32 bytes cursor) (\<lambda>len32.
            let cursor' = cursor + 4; len = unat len32 in
            if len32 > varcharMaxBytes column
            then Inl (RuntimeError ''Encoded VARCHAR exceeds its schema byte limit.'')
            else res_bind (requireRange bytes cursor' len) (\<lambda>_.
              Inr (VString (map byte_char (subspan bytes cursor' len)), cursor' + len))))"

fun decodeLoop ::
  "byte list \<Rightarrow> nat \<Rightarrow> column_definition list \<Rightarrow> nat \<Rightarrow> row_values \<Rightarrow> (row_values \<times> nat) res" where
  "decodeLoop bytes index [] cursor values = Inr (values, cursor)"
| "decodeLoop bytes index (c # cs) cursor values =
     (if isNull bytes TUPLE_HEADER_SIZE index then
        (if \<not> nullable c
         then Inl (RuntimeError ''Encoded tuple contains NULL in a non-nullable column.'')
         else decodeLoop bytes (index + 1) cs cursor (values @ [VNull]))
      else res_bind (decodeValue c bytes cursor) (\<lambda>(v, cursor').
        decodeLoop bytes (index + 1) cs cursor' (values @ [v])))"

definition decode :: "schema \<Rightarrow> byte list \<Rightarrow> row_values res" where
  "decode s bytes =
     (if length bytes < TUPLE_HEADER_SIZE \<or> length bytes > MAX_INLINE_TUPLE \<or> subspan bytes 0 8 \<noteq> TUPLE_MAGIC
      then Inl (RuntimeError ''Invalid logical tuple magic or size.'')
      else if get32 bytes 8 \<noteq> 1
      then Inl (RuntimeError ''Unsupported logical tuple encoding version.'')
      else
        let bitmapSize = unat (get16 bytes 18) in
        if get32 bytes 12 \<noteq> 24 \<or> unat (get16 bytes 16) \<noteq> length s
          \<or> bitmapSize \<noteq> nullBitmapSize (length s) \<or> unat (get32 bytes 20) \<noteq> length bytes
        then Inl (RuntimeError ''Logical tuple header does not match its schema or byte size.'')
        else
          res_bind (requireRange bytes TUPLE_HEADER_SIZE bitmapSize) (\<lambda>_.
          let unusedBits = bitmapSize * 8 - length s in
          if unusedBits \<noteq> 0 \<and>
             bytes ! (TUPLE_HEADER_SIZE + bitmapSize - 1) AND push_bit (8 - unusedBits) 0xFF \<noteq> 0
          then Inl (RuntimeError ''Logical tuple null bitmap has nonzero unused bits.'')
          else
            res_bind (decodeLoop bytes 0 s (TUPLE_HEADER_SIZE + bitmapSize) []) (\<lambda>(values, cursor).
              if cursor \<noteq> length bytes
              then Inl (RuntimeError ''Logical tuple contains trailing unexplained bytes.'')
              else res_bind (catchInvalidArgument ''Decoded tuple is invalid: '' (validateValues s values))
                (\<lambda>_. Inr values))))"

section \<open>The null bitmap\<close>

lemma and_push_bit_1: "k < 8 \<Longrightarrow> (w :: byte) AND push_bit k 1 \<noteq> 0 \<longleftrightarrow> bit w k"
  by (simp add: push_bit_of_1 and_exp_eq_0_iff_not_bit)

lemma isNull_bit: "isNull bytes off i \<longleftrightarrow> bit (bytes ! (off + i div 8)) (i mod 8)"
  unfolding isNull_def by (rule and_push_bit_1) simp

lemma length_setNull [simp]: "length (setNull bytes off i) = length bytes"
  by (simp add: setNull_def Let_def)

lemma isNull_setNull:
  assumes "off + i div 8 < length bytes"
  shows "isNull (setNull bytes off i) off j \<longleftrightarrow> isNull bytes off j \<or> j = i"
proof -
  have "j = i \<longleftrightarrow> j div 8 = i div 8 \<and> j mod 8 = i mod 8" by (metis mult_div_mod_eq)
  moreover have "bit (push_bit (i mod 8) 1 :: byte) (j mod 8) \<longleftrightarrow> j mod 8 = i mod 8"
    by (auto simp: push_bit_of_1 bit_exp_iff)
  ultimately show ?thesis
    using assms by (auto simp: isNull_bit setNull_def Let_def nth_list_update bit_or_iff)
qed

lemma nth_setNull_other: "k \<noteq> off + i div 8 \<Longrightarrow> setNull bytes off i ! k = bytes ! k"
  by (simp add: setNull_def Let_def)

lemma nullBitmapSize_bound: "i < n \<Longrightarrow> i div 8 < nullBitmapSize n"
  by (simp add: nullBitmapSize_def)

text \<open>The bitmap is determined by the null tests.\<close>

lemma bitmap_byte_eq:
  assumes "\<And>i. i < 8 * m \<Longrightarrow> isNull xs off i = isNull ys off i" "j < m"
  shows "xs ! (off + j) = ys ! (off + j)"
proof (rule bit_word_eqI)
  fix k assume "k < LENGTH(8)"
  then have k: "k < 8" by simp
  then have d: "(8 * j + k) div 8 = j" "(8 * j + k) mod 8 = k" by simp_all
  have "8 * j + k < 8 * m" using assms(2) k by simp
  from assms(1) [OF this] show "bit (xs ! (off + j)) k = bit (ys ! (off + j)) k"
    unfolding isNull_bit d .
qed

lemma tuple_bytes_eqI:
  assumes "length xs = length ys" "24 + m \<le> length xs"
    and "take 24 xs = take 24 ys" "drop (24 + m) xs = drop (24 + m) ys"
    and "\<And>i. i < 8 * m \<Longrightarrow> isNull xs 24 i = isNull ys 24 i"
  shows "xs = ys"
proof (rule nth_equalityI [OF assms(1)])
  fix k assume k: "k < length xs"
  consider "k < 24" | "24 \<le> k" "k < 24 + m" | "24 + m \<le> k" by linarith
  then show "xs ! k = ys ! k"
  proof cases
    case 1
    then show ?thesis by (metis assms(3) nth_take)
  next
    case 2
    then show ?thesis using bitmap_byte_eq [of m xs 24 ys "k - 24"] assms(5) by simp
  next
    case 3
    have "drop (24 + m) xs ! (k - (24 + m)) = drop (24 + m) ys ! (k - (24 + m))" using assms(4) by simp
    then show ?thesis using 3 k assms(1,2) by simp
  qed
qed

section \<open>Value bytes\<close>

definition valueBytes :: "db_value \<Rightarrow> byte list" where
  "valueBytes v =
     (case v of VNull \<Rightarrow> [] | VUint x \<Rightarrow> le_bytes 4 x | VInt x \<Rightarrow> le_bytes 8 x
      | VBool x \<Rightarrow> [if x then 1 else 0]
      | VString x \<Rightarrow> le_bytes 4 (of_nat (length x) :: u32) @ map char_byte x)"

abbreviation rowBytes :: "row_values \<Rightarrow> byte list" where
  "rowBytes vs \<equiv> concat (map valueBytes vs)"

lemma valueBytes_Null [simp]: "valueBytes VNull = []"
  by (simp add: valueBytes_def)

lemma appendValue_eq:
  "valueOk c v \<Longrightarrow> v \<noteq> VNull \<Longrightarrow> appendValue (columnType c) bytes v = Inr (bytes @ valueBytes v)"
  by (cases "columnType c"; cases v)
    (simp_all add: valueOk_def typeMatches_def appendValue_def valueBytes_def appendUint_eq appendString_def)

lemma encodeLoop_ok:
  assumes "list_all2 valueOk (drop index s) vs" "24 + m \<le> length bytes"
    and "length bytes + length (rowBytes vs) \<le> MAX_INLINE_TUPLE" "index + length vs \<le> 8 * m"
  shows "\<exists>r. encodeLoop s bytes index vs = Inr r \<and> length r = length bytes + length (rowBytes vs) \<and>
    take 24 r = take 24 bytes \<and> drop (24 + m) r = drop (24 + m) bytes @ rowBytes vs \<and>
    (\<forall>i < 8 * m. isNull r 24 i \<longleftrightarrow> isNull bytes 24 i \<or>
       (index \<le> i \<and> i < index + length vs \<and> vs ! (i - index) = VNull))"
  using assms
proof (induction vs arbitrary: bytes index rule: list.induct)
  case (Cons v vs)
  have ix: "index < length s" using list_all2_lengthD [OF Cons.prems(1)] by simp
  then have ok: "valueOk (s ! index) v" and rest: "list_all2 valueOk (drop (Suc index) s) vs"
    using Cons.prems(1) by (simp_all add: Cons_nth_drop_Suc [symmetric])
  have shift: "(index \<le> i \<and> i < index + length (v # vs) \<and> (v # vs) ! (i - index) = VNull) \<longleftrightarrow>
      (i = index \<and> v = VNull) \<or> (Suc index \<le> i \<and> i < Suc index + length vs \<and> vs ! (i - Suc index) = VNull)" for i
    by (cases "i = index") (auto simp: nth_Cons' Suc_diff_le)
  show ?case
  proof (cases "v = VNull")
    case True
    let ?b = "setNull bytes 24 index"
    have j: "index div 8 < m" using Cons.prems(4) by simp
    have f: "take 24 ?b = take 24 bytes" "drop (24 + m) ?b = drop (24 + m) bytes"
      using j by (simp_all add: setNull_def Let_def)
    from Cons.IH [OF rest, of ?b] Cons.prems True obtain r where
      r: "encodeLoop s ?b (Suc index) vs = Inr r" "length r = length bytes + length (rowBytes vs)"
        "take 24 r = take 24 bytes" "drop (24 + m) r = drop (24 + m) bytes @ rowBytes vs"
        "\<forall>i < 8 * m. isNull r 24 i \<longleftrightarrow> isNull ?b 24 i \<or>
           (Suc index \<le> i \<and> i < Suc index + length vs \<and> vs ! (i - Suc index) = VNull)"
      by (auto simp: f)
    have "isNull ?b 24 i \<longleftrightarrow> isNull bytes 24 i \<or> i = index" for i
      by (rule isNull_setNull) (use j Cons.prems(2) in simp)
    with r True show ?thesis unfolding shift by (intro exI [of _ r]) auto
  next
    case False
    let ?b = "bytes @ valueBytes v"
    have f: "take 24 ?b = take 24 bytes" "drop (24 + m) ?b = drop (24 + m) bytes @ valueBytes v"
      using Cons.prems(2) by simp_all
    from Cons.IH [OF rest, of ?b] Cons.prems obtain r where
      r: "encodeLoop s ?b (Suc index) vs = Inr r" "length r = length ?b + length (rowBytes vs)"
        "take 24 r = take 24 ?b" "drop (24 + m) r = drop (24 + m) ?b @ rowBytes vs"
        "\<forall>i < 8 * m. isNull r 24 i \<longleftrightarrow> isNull ?b 24 i \<or>
           (Suc index \<le> i \<and> i < Suc index + length vs \<and> vs ! (i - Suc index) = VNull)"
      by auto
    have "isNull ?b 24 i \<longleftrightarrow> isNull bytes 24 i" if "i < 8 * m" for i
    proof -
      have "i div 8 < m" using that by (simp add: less_mult_imp_div_less mult.commute)
      then have "24 + i div 8 < length bytes" using Cons.prems(2) by linarith
      then show ?thesis by (simp add: isNull_bit nth_append)
    qed
    moreover have "encodeLoop s bytes index (v # vs) = Inr r"
      using False ix ok r(1) Cons.prems(3) by (simp add: columnAt_def appendValue_eq)
    ultimately show ?thesis using r False Cons.prems(2) unfolding shift by (intro exI [of _ r]) (auto simp: f)
  qed
qed auto

lemma encodeLoop_too_big:
  assumes "list_all2 valueOk (drop index s) vs" "length bytes \<le> MAX_INLINE_TUPLE"
    and "\<not> length bytes + length (rowBytes vs) \<le> MAX_INLINE_TUPLE"
  shows "encodeLoop s bytes index vs =
    Inl (InvalidArgument ''Encoded logical tuple exceeds TupleStore inline capacity.'')"
  using assms
proof (induction vs arbitrary: bytes index rule: list.induct)
  case (Cons v vs)
  have ix: "index < length s" using list_all2_lengthD [OF Cons.prems(1)] by simp
  then have ok: "valueOk (s ! index) v" and rest: "list_all2 valueOk (drop (Suc index) s) vs"
    using Cons.prems(1) by (simp_all add: Cons_nth_drop_Suc [symmetric])
  show ?case
  proof (cases "v = VNull")
    case True
    then show ?thesis using Cons.IH [OF rest, of "setNull bytes 24 index"] Cons.prems by simp
  next
    case False
    then show ?thesis
      using Cons.IH [OF rest, of "bytes @ valueBytes v"] Cons.prems ix ok
      by (simp add: columnAt_def appendValue_eq)
  qed
qed simp

section \<open>Decoding values\<close>

lemma decodeValue_eq:
  assumes "valueOk c v" "v \<noteq> VNull" "length pre = cursor"
  shows "decodeValue c (pre @ valueBytes v @ post) cursor = Inr (v, cursor + length (valueBytes v))"
proof (cases v)
  case (VString x)
  let ?n = "length x"
  have c: "columnType c = VARCHAR" "?n \<le> unat (varcharMaxBytes c)"
    using assms(1) VString by (auto simp: valueOk_def typeMatches_def split: data_type.splits)
  have n: "unat (of_nat ?n :: u32) = ?n"
    using c(2) unsigned_less [of "varcharMaxBytes c", where ?'a = nat] by (simp add: unat_of_nat_small)
  define b where "b = pre @ valueBytes v @ post"
  have g: "get32 b cursor = of_nat ?n"
    unfolding b_def get_le_skip(2) [OF assms(3)] by (simp add: VString valueBytes_def)
  have s: "subspan b (cursor + 4) ?n = map char_byte x"
    using assms(3) by (simp add: b_def VString valueBytes_def subspan_def)
  have l: "length (valueBytes v) = 4 + ?n" "cursor + 4 + ?n \<le> length b"
    using assms(3) by (simp_all add: b_def VString valueBytes_def)
  show ?thesis
    unfolding b_def [symmetric] using c n l VString
    by (simp add: decodeValue_def readUint_in g s word_less_nat_alt requireRange_in Let_def)
qed (use assms in
  \<open>auto simp: get_le_skip(2) valueOk_def typeMatches_def decodeValue_def valueBytes_def readUint_in requireRange_in nth_append Let_def
    split: data_type.splits\<close>)

lemma decodeLoop_eq:
  assumes "list_all2 valueOk cs vs"
    and "\<And>i. i < length vs \<Longrightarrow> isNull (pre @ rowBytes vs @ post) 24 (index + i) \<longleftrightarrow> vs ! i = VNull"
  shows "decodeLoop (pre @ rowBytes vs @ post) index cs (length pre) acc =
    Inr (acc @ vs, length pre + length (rowBytes vs))"
  using assms
proof (induction cs vs arbitrary: pre index acc rule: list_all2_induct)
  case (Cons c cs v vs)
  let ?b = "pre @ rowBytes (v # vs) @ post"
  have b: "?b = (pre @ valueBytes v) @ rowBytes vs @ post" by simp
  have null: "isNull ?b 24 index \<longleftrightarrow> v = VNull" using Cons.prems [of 0] by simp
  have IH: "decodeLoop ?b (Suc index) cs (length (pre @ valueBytes v)) (acc @ [v]) =
      Inr ((acc @ [v]) @ vs, length (pre @ valueBytes v) + length (rowBytes vs))"
    unfolding b
  proof (rule Cons.IH)
    fix i assume "i < length vs"
    then show "isNull ((pre @ valueBytes v) @ rowBytes vs @ post) 24 (Suc index + i) \<longleftrightarrow> vs ! i = VNull"
      using Cons.prems [of "Suc i"] by simp
  qed
  show ?case
  proof (cases "v = VNull")
    case True
    then show ?thesis using null IH Cons.hyps by (simp add: valueOk_def)
  next
    case False
    have "decodeValue c ?b (length pre) = Inr (v, length pre + length (valueBytes v))"
      using decodeValue_eq [OF Cons.hyps(1) False refl, of pre "rowBytes vs @ post"] by simp
    then show ?thesis using null False IH by simp
  qed
qed simp

lemma decodeValue_inv:
  assumes "decodeValue c bytes cursor = Inr (v, cursor')"
  shows "v \<noteq> VNull \<and> valueOk c v \<and> cursor' = cursor + length (valueBytes v) \<and> cursor' \<le> length bytes \<and>
    subspan bytes cursor (length (valueBytes v)) = valueBytes v"
proof (cases "columnType c")
  case BOOLEAN
  with assms have b: "cursor < length bytes" "bytes ! cursor \<le> 1" "v = VBool (bytes ! cursor = 1)" "cursor' = cursor + 1"
    by (auto simp: decodeValue_def res_bind_eq_Inr Let_def split: if_splits)
  have "bytes ! cursor = 0 \<or> bytes ! cursor = 1" 
  proof -
    have "unat (bytes ! cursor) = unat (0 :: byte) \<or> unat (bytes ! cursor) = unat (1 :: byte)"
      using b(2) by (auto simp: word_le_nat_alt)
    then show ?thesis by (simp only: word_unat_eq_iff)
  qed
  then have "subspan bytes cursor 1 = [if bytes ! cursor = 1 then 1 else 0]"
    using b(1) by (auto simp: subspan_Suc [of cursor bytes 0, simplified])
  with b BOOLEAN show ?thesis by (auto simp: valueOk_def typeMatches_def valueBytes_def)
next
  case VARCHAR
  let ?n = "unat (get32 bytes cursor)"
  from VARCHAR assms have b: "cursor + 4 + ?n \<le> length bytes" "?n \<le> unat (varcharMaxBytes c)"
    "v = VString (map byte_char (subspan bytes (cursor + 4) ?n))" "cursor' = cursor + 4 + ?n"
    by (auto simp: decodeValue_def res_bind_eq_Inr readUint_eq_Inr Let_def word_less_nat_alt split: if_splits)
  have len: "length (subspan bytes (cursor + 4) ?n) = ?n" using b(1) by simp
  have "valueBytes v = le_bytes 4 (get32 bytes cursor) @ subspan bytes (cursor + 4) ?n"
    using b(3) len by (simp add: valueBytes_def)
  also have "\<dots> = subspan bytes cursor (4 + ?n)"
    using b(1) by (simp add: le_bytes_get_le subspan_add)
  finally have vb: "valueBytes v = subspan bytes cursor (4 + ?n)" .
  then have "length (valueBytes v) = 4 + ?n" using b(1) by simp
  with vb b len VARCHAR show ?thesis by (auto simp: valueOk_def typeMatches_def)
qed (use assms in \<open>auto simp: decodeValue_def res_bind_eq_Inr readUint_eq_Inr valueOk_def typeMatches_def
      valueBytes_def le_bytes_get_le\<close>)

lemma decodeLoop_inv:
  assumes "decodeLoop bytes index cs cursor acc = Inr (vs, cursor')" "cursor \<le> length bytes"
  shows "\<exists>ws. vs = acc @ ws \<and> list_all2 valueOk cs ws \<and> cursor' = cursor + length (rowBytes ws) \<and>
    cursor' \<le> length bytes \<and> subspan bytes cursor (length (rowBytes ws)) = rowBytes ws \<and>
    (\<forall>i < length cs. ws ! i = VNull \<longleftrightarrow> isNull bytes 24 (index + i))"
  using assms
proof (induction cs arbitrary: index cursor acc)
  case (Cons c cs)
  obtain v cur where step: "decodeLoop bytes (Suc index) cs cur (acc @ [v]) = Inr (vs, cursor')"
    and ok: "valueOk c v" and null: "v = VNull \<longleftrightarrow> isNull bytes 24 index"
    and cur: "cur = cursor + length (valueBytes v)" "cur \<le> length bytes"
      "subspan bytes cursor (length (valueBytes v)) = valueBytes v"
  proof (cases "isNull bytes 24 index")
    case True
    then show ?thesis
      using that [of cursor VNull] Cons.prems by (auto simp: valueOk_def split: if_splits)
  next
    case False
    then obtain v cur where d: "decodeValue c bytes cursor = Inr (v, cur)"
      "decodeLoop bytes (Suc index) cs cur (acc @ [v]) = Inr (vs, cursor')"
      using Cons.prems(1) by (auto simp: res_bind_eq_Inr)
    then show ?thesis using that [of cur v] False decodeValue_inv [OF d(1)] by auto
  qed
  from Cons.IH [OF step cur(2)] obtain ws where
    ws: "vs = (acc @ [v]) @ ws" "list_all2 valueOk cs ws" "cursor' = cur + length (rowBytes ws)"
      "cursor' \<le> length bytes" "subspan bytes cur (length (rowBytes ws)) = rowBytes ws"
      "\<forall>i < length cs. ws ! i = VNull \<longleftrightarrow> isNull bytes 24 (Suc index + i)" by auto
  have "(v # ws) ! i = VNull \<longleftrightarrow> isNull bytes 24 (index + i)" if "i < length (c # cs)" for i
    using that ws(6) null by (cases i) auto
  with ws ok cur show ?case by (intro exI [of _ "v # ws"]) (auto simp: subspan_add)
qed simp

section \<open>Whole tuples\<close>

definition tupleHeader :: "nat \<Rightarrow> nat \<Rightarrow> byte list" where
  "tupleHeader n m = TUPLE_MAGIC @ le_bytes 4 (1 :: u32) @ le_bytes 4 (24 :: u32) @
     le_bytes 2 (of_nat n :: u16) @ le_bytes 2 (of_nat m :: u16)"

lemma length_tupleHeader [simp]: "length (tupleHeader n m) = 20"
  by (simp add: tupleHeader_def)

text \<open>What an encoded tuple looks like; \<open>rowFits\<close> is when a row has an encoding.\<close>

definition encodes :: "schema \<Rightarrow> row_values \<Rightarrow> byte list \<Rightarrow> bool" where
  "encodes s vs b \<longleftrightarrow> (let m = nullBitmapSize (length s) in
     length b = 24 + m + length (rowBytes vs) \<and>
     take 24 b = tupleHeader (length s) m @ le_bytes 4 (of_nat (length b) :: u32) \<and>
     drop (24 + m) b = rowBytes vs \<and>
     (\<forall>i < 8 * m. isNull b 24 i \<longleftrightarrow> i < length vs \<and> vs ! i = VNull))"

definition rowFits :: "schema \<Rightarrow> row_values \<Rightarrow> bool" where
  "rowFits s vs \<longleftrightarrow> 24 + nullBitmapSize (length s) + length (rowBytes vs) \<le> MAX_INLINE_TUPLE"

lemma encodes_unique: "encodes s vs b \<Longrightarrow> encodes s vs b' \<Longrightarrow> b = b'"
  by (rule tuple_bytes_eqI [where m = "nullBitmapSize (length s)"]) (auto simp: encodes_def Let_def)

lemma nullBitmapSize_ge: "n \<le> 8 * nullBitmapSize n"
  by (simp add: nullBitmapSize_def)

lemma nullBitmapSize_le:
  assumes "schemaOk s"
  shows "nullBitmapSize (length s) \<le> 128"
proof -
  have "7 + length s \<le> 1031" using assms by (simp add: schemaOk_def)
  then have "(7 + length s) div 8 \<le> 1031 div 8" by (rule div_le_mono)
  then show ?thesis by (simp add: nullBitmapSize_def)
qed

lemma tupleHeader_buffer:
  "put16 (put16 (put32 (put32 (overwrite (replicate (24 + m) 0) 0 TUPLE_MAGIC) 8 1) 12 24) 16 (of_nat n)) 18 (of_nat m) =
     tupleHeader n m @ replicate (4 + m) 0"
proof -
  have "put16 (put16 (put32 (put32 (overwrite (replicate (24 + m) 0) 0 TUPLE_MAGIC) 8 1) 12 24) 16 (of_nat n)) 18 (of_nat m) =
      overwrite (replicate (24 + m) 0) 0 (tupleHeader n m)"
    by (simp add: put_le_overwrite overwrite_overwrite tupleHeader_def)
  also have "\<dots> = tupleHeader n m @ replicate (4 + m) 0"
    by (simp add: overwrite_def)
  finally show ?thesis .
qed

lemma isNull_zeros:
  assumes "i < 8 * m"
  shows "\<not> isNull (tupleHeader n k @ replicate (4 + m) 0) 24 i"
proof -
  have "i div 8 < m" using assms by (simp add: less_mult_imp_div_less mult.commute)
  then show ?thesis by (simp add: isNull_bit nth_append)
qed

lemma encode_spec:
  assumes s: "schemaOk s" and v: "list_all2 valueOk s vs"
  shows "if rowFits s vs then \<exists>b. encode s vs = Inr b \<and> encodes s vs b
    else encode s vs = Inl (InvalidArgument ''Encoded logical tuple exceeds TupleStore inline capacity.'')"
proof -
  let ?m = "nullBitmapSize (length s)"
  let ?b = "tupleHeader (length s) ?m @ replicate (4 + ?m) 0"
  have ok: "validateValues s vs = Inr ()" by (simp add: validateValues_ok v)
  have n: "length vs = length s" using list_all2_lengthD [OF v] by simp
  have loop: "encode s vs = res_bind (encodeLoop s ?b 0 vs) (\<lambda>bytes.
      if length bytes > 0xFFFFFFFF then Inl (OverflowError ''Encoded logical tuple exceeds its format size limit.'')
      else Inr (put32 bytes 20 (of_nat (length bytes))))"
    unfolding encode_def ok res_bind_simps Let_def tupleHeader_buffer ..
  have m: "?m \<le> 128" by (rule nullBitmapSize_le [OF s])
  show ?thesis
  proof (cases "rowFits s vs")
    case True
    then have fit: "length ?b + length (rowBytes vs) \<le> MAX_INLINE_TUPLE" by (simp add: rowFits_def)
    have n8: "0 + length vs \<le> 8 * ?m" using nullBitmapSize_ge [of "length s"] n by simp
    have v0: "list_all2 valueOk (drop 0 s) vs" and b24: "24 + ?m \<le> length ?b" using v by simp_all
    obtain r where r: "encodeLoop s ?b 0 vs = Inr r" "length r = length ?b + length (rowBytes vs)"
      "take 24 r = take 24 ?b" "drop (24 + ?m) r = drop (24 + ?m) ?b @ rowBytes vs"
      "\<forall>i < 8 * ?m. isNull r 24 i \<longleftrightarrow> isNull ?b 24 i \<or> (0 \<le> i \<and> i < 0 + length vs \<and> vs ! (i - 0) = VNull)"
      using encodeLoop_ok [OF v0 b24 fit n8] by auto
    let ?p = "put32 r 20 (of_nat (length r))"
    have lr: "length r = 24 + ?m + length (rowBytes vs)" using r(2) by simp
    have "take 24 ?p = take 20 r @ le_bytes 4 (of_nat (length r) :: u32)"
      using lr by (simp add: put_le_overwrite overwrite_def)
    also have "take 20 r = take 20 (take 24 r)" by simp
    also have "\<dots> = tupleHeader (length s) ?m" unfolding r(3) by simp
    finally have t: "take 24 ?p = tupleHeader (length s) ?m @ le_bytes 4 (of_nat (length r) :: u32)" .
    have d: "drop (24 + ?m) ?p = rowBytes vs"
      using lr r(4) by (simp add: put_le_overwrite overwrite_def add.commute)
    have "isNull ?p 24 i \<longleftrightarrow> isNull r 24 i" if "i < 8 * ?m" for i
    proof -
      have "i div 8 < ?m" using that by (simp add: less_mult_imp_div_less mult.commute)
      then show ?thesis using lr by (simp add: isNull_bit nth_put_le)
    qed
    then have "encodes s vs ?p"
      using t d lr r(5) isNull_zeros by (simp add: encodes_def Let_def)
    moreover have "encode s vs = Inr ?p" unfolding loop r(1) using lr m fit by (simp add: rowFits_def)
    ultimately show ?thesis using True by auto
  next
    case False
    then have big: "\<not> length ?b + length (rowBytes vs) \<le> MAX_INLINE_TUPLE" by (simp add: rowFits_def)
    have "encodeLoop s ?b 0 vs = Inl (InvalidArgument ''Encoded logical tuple exceeds TupleStore inline capacity.'')"
      by (rule encodeLoop_too_big) (use v m big in simp_all)
    then show ?thesis using False loop by simp
  qed
qed

lemma encodes_fields:
  assumes "schemaOk s" "encodes s vs b" "length b < 2 ^ 32"
  shows "subspan b 0 8 = TUPLE_MAGIC" "get32 b 8 = 1" "get32 b 12 = 24" "unat (get16 b 16) = length s"
    "unat (get16 b 18) = nullBitmapSize (length s)" "unat (get32 b 20) = length b"
proof -
  let ?m = "nullBitmapSize (length s)"
  have small: "length s < 65536" "?m < 65536" 
    using nullBitmapSize_le [OF assms(1)] assms(1) by (simp_all add: schemaOk_def)
  have t: "take 24 b = TUPLE_MAGIC @ le_bytes 4 (1 :: u32) @ le_bytes 4 (24 :: u32) @
     le_bytes 2 (of_nat (length s) :: u16) @ le_bytes 2 (of_nat ?m :: u16) @ le_bytes 4 (of_nat (length b) :: u32)"
    using assms(2) by (simp add: encodes_def tupleHeader_def Let_def)
  have b: "b = TUPLE_MAGIC @ le_bytes 4 (1 :: u32) @ le_bytes 4 (24 :: u32) @
     le_bytes 2 (of_nat (length s) :: u16) @ le_bytes 2 (of_nat ?m :: u16) @ le_bytes 4 (of_nat (length b) :: u32) @ drop 24 b"
    using append_take_drop_id [of 24 b] unfolding t by simp
  show "subspan b 0 8 = TUPLE_MAGIC" by (subst b, rule subspan_prefix) simp
  show "get32 b 8 = 1" by (subst b) (simp add: get_le_skip(3))
  show "get32 b 12 = 24" by (subst b) (simp add: get_le_skip(3))
  show "unat (get16 b 16) = length s" by (subst b) (simp add: get_le_skip(3) small)
  show "unat (get16 b 18) = ?m" by (subst b) (simp add: get_le_skip(3) small)
  have "get32 b 20 = of_nat (length b)" by (subst b) (simp add: get_le_skip(3))
  then show "unat (get32 b 20) = length b" using assms(3) by (simp add: unat_of_nat_small)
qed

lemma and_high_mask:
  "(w :: byte) AND push_bit v 0xFF = 0 \<longleftrightarrow> (\<forall>k. v \<le> k \<and> k < 8 \<longrightarrow> \<not> bit w k)"
proof -
  have FF: "(0xFF :: byte) = mask 8" by (simp add: mask_eq_exp_minus_1)
  have "bit (push_bit v (0xFF :: byte)) k \<longleftrightarrow> v \<le> k" if "k < 8" for k
    using that unfolding FF by (auto simp: bit_push_bit_iff bit_mask_iff)
  then show ?thesis
    by (auto simp: bit_eq_iff bit_and_iff)
qed

lemma unusedBits_ok:
  fixes n :: nat
  defines "m \<equiv> nullBitmapSize n"
  assumes "m * 8 - n \<noteq> 0"
  shows "bytes ! (24 + m - 1) AND push_bit (8 - (m * 8 - n)) 0xFF = 0 \<longleftrightarrow>
    (\<forall>i. n \<le> i \<and> i < 8 * m \<longrightarrow> \<not> isNull bytes 24 i)"
proof -
  have n: "n \<le> 8 * m" "8 * m < n + 8" by (simp_all add: m_def nullBitmapSize_def)
  then have m: "m > 0" using assms(2) by simp
  have ex: "(\<exists>k. i = 8 * (m - 1) + k \<and> 8 - (m * 8 - n) \<le> k \<and> k < 8) \<longleftrightarrow> n \<le> i \<and> i < 8 * m" for i
  proof
    assume "n \<le> i \<and> i < 8 * m"
    then show "\<exists>k. i = 8 * (m - 1) + k \<and> 8 - (m * 8 - n) \<le> k \<and> k < 8"
      using n m by (intro exI [of _ "i - 8 * (m - 1)"]) auto
  qed (use n m in auto)
  have b: "isNull bytes 24 (8 * (m - 1) + k) \<longleftrightarrow> bit (bytes ! (24 + m - 1)) k" if "k < 8" for k
  proof -
    have "(8 * (m - 1) + k) div 8 = m - 1" "(8 * (m - 1) + k) mod 8 = k" using that by simp_all
    then show ?thesis using m unfolding isNull_bit by simp
  qed
  have "(\<forall>k. 8 - (m * 8 - n) \<le> k \<and> k < 8 \<longrightarrow> \<not> bit (bytes ! (24 + m - 1)) k) \<longleftrightarrow>
      (\<forall>i. n \<le> i \<and> i < 8 * m \<longrightarrow> \<not> isNull bytes 24 i)"
    unfolding ex [symmetric] using b by blast
  then show ?thesis unfolding and_high_mask .
qed

lemma decode_encodes:
  assumes s: "schemaOk s" and v: "list_all2 valueOk s vs" and f: "rowFits s vs" and e: "encodes s vs b"
  shows "decode s b = Inr vs"
proof -
  let ?m = "nullBitmapSize (length s)"
  have lb: "length b = 24 + ?m + length (rowBytes vs)" "length b \<le> 4040"
    using e f by (auto simp: encodes_def rowFits_def Let_def)
  have n: "length vs = length s" using list_all2_lengthD [OF v] by simp
  have null: "isNull b 24 i \<longleftrightarrow> i < length vs \<and> vs ! i = VNull" if "i < 8 * ?m" for i
    using e that by (simp add: encodes_def Let_def)
  have "length b < 2 ^ 32" using lb by simp
  note h = encodes_fields [OF s e this]
  have b: "b = take (24 + ?m) b @ rowBytes vs @ []" using e by (simp add: encodes_def Let_def) (metis append_take_drop_id)
  have "decodeLoop (take (24 + ?m) b @ rowBytes vs @ []) 0 s (length (take (24 + ?m) b)) [] =
      Inr ([] @ vs, length (take (24 + ?m) b) + length (rowBytes vs))"
    by (rule decodeLoop_eq [OF v]) (use null n nullBitmapSize_ge [of "length s"] b in auto)
  then have loop: "decodeLoop b 0 s (24 + ?m) [] = Inr (vs, length b)"
    unfolding b [symmetric] using lb(1) by simp
  have unused: "\<not> (?m * 8 - length s \<noteq> 0 \<and> b ! (24 + ?m - 1) AND push_bit (8 - (?m * 8 - length s)) 0xFF \<noteq> 0)"
  proof (cases "?m * 8 - length s \<noteq> 0")
    case True
    from unusedBits_ok [OF True, of b] null n show ?thesis by auto
  qed simp
  have "validateValues s vs = Inr ()" by (simp add: validateValues_ok v)
  then show ?thesis
    unfolding decode_def h Let_def if_not_P [OF unused]
    using lb loop by (simp add: requireRange_in catchInvalidArgument_def)
qed

lemma decode_inv:
  assumes "decode s b = Inr vs"
  shows "list_all2 valueOk s vs" "rowFits s vs" "encodes s vs b"
proof -
  let ?m = "nullBitmapSize (length s)"
  let ?unused = "?m * 8 - length s \<noteq> 0 \<and> b ! (24 + ?m - 1) AND push_bit (8 - (?m * 8 - length s)) 0xFF \<noteq> 0"
  have h: "24 \<le> length b" "length b \<le> 4040" "subspan b 0 8 = TUPLE_MAGIC" "get32 b 8 = 1" "get32 b 12 = 24"
    "unat (get16 b 16) = length s" "unat (get16 b 18) = ?m" "unat (get32 b 20) = length b"
    using assms by (auto simp: decode_def Let_def split: if_splits)
  have u: "\<not> ?unused"
  proof
    assume u: ?unused
    show False
      using assms unfolding decode_def Let_def h(7) if_P [OF u] by (auto simp: res_bind_eq_Inr split: if_splits)
  qed
  have r: "24 + ?m \<le> length b" and loop: "decodeLoop b 0 s (24 + ?m) [] = Inr (vs, length b)"
    using assms unfolding decode_def Let_def h(7) if_not_P [OF u]
    by (auto simp: res_bind_eq_Inr split: if_splits)
  obtain ws where "vs = ws" and v: "list_all2 valueOk s ws" and l: "length b = 24 + ?m + length (rowBytes ws)"
    and d: "subspan b (24 + ?m) (length (rowBytes ws)) = rowBytes ws"
    and null: "\<forall>i < length s. ws ! i = VNull \<longleftrightarrow> isNull b 24 (0 + i)"
    using decodeLoop_inv [OF loop r] by auto
  then show "list_all2 valueOk s vs" "rowFits s vs" using h(2) by (auto simp: rowFits_def)
  have n: "length ws = length s" using list_all2_lengthD [OF v] by simp
  have "isNull b 24 i \<longleftrightarrow> i < length ws \<and> ws ! i = VNull" if "i < 8 * ?m" for i
  proof (cases "i < length s")
    case False
    then have m: "?m * 8 - length s \<noteq> 0" using that by simp
    from unusedBits_ok [OF m, of b] u m False that n show ?thesis by auto
  qed (use null n in auto)
  moreover have "take 24 b = tupleHeader (length s) ?m @ le_bytes 4 (of_nat (length b) :: u32)"
  proof -
    have w: "get16 b 16 = of_nat (length s)" "get16 b 18 = of_nat ?m" "get32 b 20 = of_nat (length b)"
      by (simp flip: h(6), simp flip: h(7), simp flip: h(8))
    have "take 24 b = subspan b 0 (8 + (4 + (4 + (2 + (2 + 4)))))" by (simp add: subspan_def)
    also have "\<dots> = subspan b 0 8 @ subspan b 8 4 @ subspan b 12 4 @ subspan b 16 2 @ subspan b 18 2 @ subspan b 20 4"
      unfolding subspan_add by simp
    also have "\<dots> = TUPLE_MAGIC @ le_bytes 4 (get32 b 8) @ le_bytes 4 (get32 b 12) @ le_bytes 2 (get16 b 16) @
        le_bytes 2 (get16 b 18) @ le_bytes 4 (get32 b 20)"
      using h(1,3) by (simp add: le_bytes_get_le)
    finally show ?thesis unfolding h(4,5) w by (simp add: tupleHeader_def)
  qed
  moreover have "drop (24 + ?m) b = rowBytes ws" using d l by (simp add: subspan_def)
  ultimately show "encodes s vs b" using \<open>vs = ws\<close> l by (simp add: encodes_def Let_def)
qed

section \<open>Properties\<close>

text \<open>
  C12: encoding and decoding a row are inverse to each other. For a schema that construction
  accepts, a byte string decodes to a row exactly when it is the encoding of that row: every
  encoded row is read back unchanged, and no malformed or non-canonical tuple is accepted.
\<close>

theorem tuple_encoding_exact:
  assumes "create s = Inr s"
  shows "decode s bytes = Inr values \<longleftrightarrow> encode s values = Inr bytes"
proof -
  have s: "schemaOk s" by (rule create_ok(1) [OF assms])
  show ?thesis
  proof
    assume "decode s bytes = Inr values"
    note d = decode_inv [OF this]
    from encode_spec [OF s d(1)] d(2,3) show "encode s values = Inr bytes"
      using encodes_unique by auto
  next
    assume e: "encode s values = Inr bytes"
    then have v: "list_all2 valueOk s values"
      by (auto simp: encode_def res_bind_eq_Inr validateValues_ok)
    with encode_spec [OF s v] e have "rowFits s values" "encodes s values bytes" by (auto split: if_splits)
    from decode_encodes [OF s v this] show "decode s bytes = Inr values" .
  qed
qed

lemma sample_valueOk:
  "list_all2 valueOk
     [\<lparr>columnName = ''id'', columnType = UINT32, nullable = False, primaryKey = True, varcharMaxBytes = 0\<rparr>,
      \<lparr>columnName = ''name'', columnType = VARCHAR, nullable = True, primaryKey = False, varcharMaxBytes = 20\<rparr>]
     [VUint 7, VString ''bob'']"
  by (simp add: valueOk_def typeMatches_def)

theorem tuple_encoding_exact_witness:
  "\<exists>s b. create sampleColumns = Inr s \<and> encode s [VUint 7, VString ''bob''] = Inr b \<and>
     decode s b = Inr [VUint 7, VString ''bob'']"
proof -
  let ?s = "[\<lparr>columnName = ''id'', columnType = UINT32, nullable = False, primaryKey = True, varcharMaxBytes = 0\<rparr>,
      \<lparr>columnName = ''name'', columnType = VARCHAR, nullable = True, primaryKey = False, varcharMaxBytes = 20\<rparr>]"
  note c = create_ok(1) [OF sampleColumns_create]
  have "rowFits ?s [VUint 7, VString ''bob'']" by (simp add: rowFits_def valueBytes_def nullBitmapSize_def)
  then obtain b where "encode ?s [VUint 7, VString ''bob''] = Inr b"
    using encode_spec [OF c sample_valueOk] by auto
  with tuple_encoding_exact [OF create_id [OF c]] sampleColumns_create show ?thesis by blast
qed

text \<open>
  a row has an encoding exactly when it validates against the schema and its header, bitmap
  and values fit into the largest inline tuple; otherwise encoding reports the validation error
  or the size error, and an encoding is never larger than the inline limit.
\<close>

theorem tuple_encode_total:
  assumes "create s = Inr s"
  shows "case encode s values of
      Inr bytes \<Rightarrow> validateValues s values = Inr () \<and> length bytes \<le> MAX_INLINE_TUPLE \<and>
        length bytes = TUPLE_HEADER_SIZE + nullBitmapSize (length s) + length (rowBytes values)
    | Inl x \<Rightarrow> validateValues s values = Inl x \<or>
        \<not> rowFits s values \<and> x = InvalidArgument ''Encoded logical tuple exceeds TupleStore inline capacity.''"
proof (cases "validateValues s values")
  case (Inl x)
  then show ?thesis by (simp add: encode_def)
next
  case (Inr u)
  then have v: "list_all2 valueOk s values" by (simp add: validateValues_ok)
  from encode_spec [OF create_ok(1) [OF assms] v] Inr show ?thesis
    by (auto simp: encodes_def rowFits_def Let_def split: if_splits)
qed

theorem tuple_encode_total_witness:
  "\<exists>s b. create sampleColumns = Inr s \<and> encode s [VUint 7, VString ''bob''] = Inr b \<and> length b = 36"
proof -
  let ?s = "[\<lparr>columnName = ''id'', columnType = UINT32, nullable = False, primaryKey = True, varcharMaxBytes = 0\<rparr>,
      \<lparr>columnName = ''name'', columnType = VARCHAR, nullable = True, primaryKey = False, varcharMaxBytes = 20\<rparr>]"
  note c = create_ok(1) [OF sampleColumns_create]
  have f: "rowFits ?s [VUint 7, VString ''bob'']" by (simp add: rowFits_def valueBytes_def nullBitmapSize_def)
  have v: "validateValues ?s [VUint 7, VString ''bob''] = Inr ()" using sample_valueOk by (simp add: validateValues_ok)
  from tuple_encode_total [OF create_id [OF c], of "[VUint 7, VString ''bob'']"] f v sampleColumns_create
  show ?thesis by (auto simp: valueBytes_def nullBitmapSize_def split: sum.splits)
qed

end
