(* ===== verification/Wal_Codec.thy ===== *)
theory Wal_Codec
  imports Page_Formats
begin

text \<open>
  The write-ahead log's file format (\<open>include/minidb/wal.hpp\<close>, \<open>include/minidb/wal_types.hpp\<close>,
  \<open>src/wal.cpp\<close>): CRC-32C, the file header, the record codec and the scan of a log file.

  A log file is its bytes; \<open>fileSize\<close> and \<open>readExact\<close> are the length and a range of them, so the
  only I/O failure not represented is the operating system's. A record's LSN is its offset in
  the file. A record type is its 16-bit identifier, because the code casts any stored value to
  the enumeration before it validates it.

  The lemmas show that records round-trip and have one encoding, that any change of a single
  byte of a record is detected, and that scanning a log cut off at an arbitrary byte yields
  exactly the records that are complete, and reports the torn tail.
\<close>

section \<open>Layout\<close>

abbreviation WAL_FILE_MAGIC :: "byte list" where "WAL_FILE_MAGIC \<equiv> magic_bytes ''MDBWAL01''"
abbreviation WAL_FILE_HEADER_SIZE :: nat where "WAL_FILE_HEADER_SIZE \<equiv> 64"
abbreviation WAL_RECORD_MAGIC :: "byte list" where "WAL_RECORD_MAGIC \<equiv> magic_bytes ''MDBR''"
abbreviation REC_VERSION_OFFSET :: nat where "REC_VERSION_OFFSET \<equiv> 4"
abbreviation REC_TYPE_OFFSET :: nat where "REC_TYPE_OFFSET \<equiv> 6"
abbreviation REC_TOTAL_LENGTH_OFFSET :: nat where "REC_TOTAL_LENGTH_OFFSET \<equiv> 8"
abbreviation REC_PAYLOAD_LENGTH_OFFSET :: nat where "REC_PAYLOAD_LENGTH_OFFSET \<equiv> 12"
abbreviation REC_LSN_OFFSET :: nat where "REC_LSN_OFFSET \<equiv> 16"
abbreviation REC_TRANSACTION_ID_OFFSET :: nat where "REC_TRANSACTION_ID_OFFSET \<equiv> 24"
abbreviation REC_PREVIOUS_LSN_OFFSET :: nat where "REC_PREVIOUS_LSN_OFFSET \<equiv> 32"
abbreviation REC_CHECKSUM_OFFSET :: nat where "REC_CHECKSUM_OFFSET \<equiv> 40"
abbreviation REC_FLAGS_OFFSET :: nat where "REC_FLAGS_OFFSET \<equiv> 44"
abbreviation REC_HEADER_SIZE :: nat where "REC_HEADER_SIZE \<equiv> 48"
abbreviation MAX_RECORD_SIZE :: nat where "MAX_RECORD_SIZE \<equiv> 1048576"
abbreviation MAX_PAYLOAD_SIZE :: nat where "MAX_PAYLOAD_SIZE \<equiv> 1048528"

type_synonym transaction_id = u64

record log_record =
  recType :: u16
  transactionId :: transaction_id
  prevLsn :: lsn
  payload :: "byte list"
  recLsn :: lsn

record wal_scan_result =
  scanRecords :: "log_record list"
  truncatedTail :: bool
  validBytes :: nat
  fileBytes :: nat
  startOffset :: nat

definition isValidLogRecordType :: "u16 \<Rightarrow> bool" where
  "isValidLogRecordType t \<longleftrightarrow> t \<ge> 1 \<and> t \<le> 18"

section \<open>Checksums\<close>

abbreviation CRC_POLYNOMIAL :: u32 where "CRC_POLYNOMIAL \<equiv> 0x82F63B78"

definition crcBit :: "u32 \<Rightarrow> u32" where
  "crcBit crc = (let m = - (crc AND 1) in drop_bit 1 crc XOR (CRC_POLYNOMIAL AND m))"

definition crcByte :: "u32 \<Rightarrow> byte \<Rightarrow> u32" where
  "crcByte crc value = (crcBit ^^ 8) (crc XOR ucast value)"

definition crc32c :: "byte list \<Rightarrow> u32" where
  "crc32c bytes = NOT (foldl crcByte 0xFFFFFFFF bytes)"

definition recordChecksum :: "byte list \<Rightarrow> u32" where
  "recordChecksum bytes =
     NOT (foldl (\<lambda>crc index. crcByte crc
            (if REC_CHECKSUM_OFFSET \<le> index \<and> index < REC_CHECKSUM_OFFSET + 4 then 0 else bytes ! index))
          0xFFFFFFFF [0..<length bytes])"

section \<open>File header\<close>

definition encodeWalFileHeader :: "byte list" where
  "encodeWalFileHeader =
     (let h0 = overwrite (replicate WAL_FILE_HEADER_SIZE 0) 0 WAL_FILE_MAGIC;
          h1 = put32 h0 8 1;
          h2 = put32 h1 12 64
      in put32 h2 16 4096)"

definition validateWalFileHeader :: "byte list \<Rightarrow> unit res" where
  "validateWalFileHeader bytes =
     (if length bytes \<noteq> WAL_FILE_HEADER_SIZE
      then Inl (WalError WalCorruptHeader ''WAL file header has the wrong size'')
      else if subspan bytes 0 8 \<noteq> WAL_FILE_MAGIC
      then Inl (WalError WalCorruptHeader ''Invalid WAL file magic'')
      else if get32 bytes 8 \<noteq> 1
      then Inl (WalError WalCorruptHeader ''Unsupported WAL file version'')
      else if get32 bytes 12 \<noteq> 64
      then Inl (WalError WalCorruptHeader ''Invalid WAL file header size'')
      else if get32 bytes 16 \<noteq> 4096
      then Inl (WalError WalCorruptHeader ''WAL page size does not match MiniDB++'')
      else throw_if (get32 bytes 20 \<noteq> 0 \<or> \<not> all_zero (drop 24 bytes))
        (WalError WalCorruptHeader ''WAL header reserved bytes are nonzero''))"

section \<open>Records\<close>

definition validateRecordPrefix :: "byte list \<Rightarrow> lsn \<Rightarrow> unit res" where
  "validateRecordPrefix header physicalLsn =
     (if length header < REC_HEADER_SIZE
      then Inl (WalError WalCorruptRecord ''WAL record header is truncated'')
      else if subspan header 0 4 \<noteq> WAL_RECORD_MAGIC
      then Inl (WalError WalCorruptRecord ''Invalid WAL record magic'')
      else if get16 header REC_VERSION_OFFSET \<noteq> 1
      then Inl (WalError WalCorruptRecord ''Unsupported WAL record version'')
      else if \<not> isValidLogRecordType (get16 header REC_TYPE_OFFSET)
      then Inl (WalError WalCorruptRecord ''Invalid WAL record type ID'')
      else
        let totalLength = unat (get32 header REC_TOTAL_LENGTH_OFFSET);
            payloadLength = unat (get32 header REC_PAYLOAD_LENGTH_OFFSET);
            previous = get64 header REC_PREVIOUS_LSN_OFFSET in
        if totalLength < REC_HEADER_SIZE \<or> totalLength > MAX_RECORD_SIZE
        then Inl (WalError WalCorruptRecord ''Invalid WAL record total length'')
        else if payloadLength > MAX_PAYLOAD_SIZE \<or> payloadLength \<noteq> totalLength - REC_HEADER_SIZE
        then Inl (WalError WalCorruptRecord ''WAL payload/total length mismatch'')
        else if get64 header REC_LSN_OFFSET \<noteq> physicalLsn \<or> physicalLsn < 64 \<or> physicalLsn = INVALID_LSN
        then Inl (WalError WalCorruptRecord ''WAL record LSN disagrees with its offset'')
        else if get32 header REC_FLAGS_OFFSET \<noteq> 0
        then Inl (WalError WalCorruptRecord ''WAL record reserved flags are nonzero'')
        else throw_if (isValidLsn previous \<and> previous \<ge> physicalLsn)
          (WalError WalCorruptRecord ''WAL prevLSN is not earlier than its record''))"

definition encodeWalRecord :: "log_record \<Rightarrow> lsn \<Rightarrow> byte list res" where
  "encodeWalRecord r l =
     (if \<not> isValidLogRecordType (recType r)
      then Inl (WalError WalInvalidArgument ''Cannot encode invalid WAL record type'')
      else if \<not> isValidLsn l \<or> l < 64
      then Inl (WalError WalInvalidArgument ''Cannot encode invalid WAL record LSN'')
      else if length (payload r) > MAX_PAYLOAD_SIZE
      then Inl (WalError WalInvalidArgument ''WAL record exceeds maximum size'')
      else if isValidLsn (prevLsn r) \<and> prevLsn r \<ge> l
      then Inl (WalError WalInvalidArgument ''WAL prevLSN must precede its record'')
      else Inr
        (let totalLength = REC_HEADER_SIZE + length (payload r);
             e0 = overwrite (replicate totalLength 0) 0 WAL_RECORD_MAGIC;
             e1 = put16 e0 REC_VERSION_OFFSET 1;
             e2 = put16 e1 REC_TYPE_OFFSET (recType r);
             e3 = put32 e2 REC_TOTAL_LENGTH_OFFSET (of_nat totalLength);
             e4 = put32 e3 REC_PAYLOAD_LENGTH_OFFSET (of_nat (length (payload r)));
             e5 = put64 e4 REC_LSN_OFFSET l;
             e6 = put64 e5 REC_TRANSACTION_ID_OFFSET (transactionId r);
             e7 = put64 e6 REC_PREVIOUS_LSN_OFFSET (prevLsn r);
             e8 = overwrite e7 REC_HEADER_SIZE (payload r)
         in put32 e8 REC_CHECKSUM_OFFSET (recordChecksum e8)))"

definition decodeWalRecord :: "byte list \<Rightarrow> lsn \<Rightarrow> log_record res" where
  "decodeWalRecord bytes physicalLsn =
     res_bind (validateRecordPrefix bytes physicalLsn) (\<lambda>_.
       if length bytes \<noteq> unat (get32 bytes REC_TOTAL_LENGTH_OFFSET)
       then Inl (WalError WalCorruptRecord ''Encoded WAL record length is inconsistent'')
       else if recordChecksum bytes \<noteq> get32 bytes REC_CHECKSUM_OFFSET
       then Inl (WalError WalCorruptRecord ''WAL record checksum mismatch'')
       else Inr \<lparr>recType = get16 bytes REC_TYPE_OFFSET,
                 transactionId = get64 bytes REC_TRANSACTION_ID_OFFSET,
                 prevLsn = get64 bytes REC_PREVIOUS_LSN_OFFSET,
                 payload = drop REC_HEADER_SIZE bytes,
                 recLsn = physicalLsn\<rparr>)"

section \<open>Scanning\<close>

text \<open>
  The loop of \<open>scanDescriptor\<close>; a record is at least its header long, so every round makes
  progress.
\<close>

lemma validateRecordPrefix_total:
  "validateRecordPrefix h l = Inr u \<Longrightarrow> 48 \<le> unat (get32 h REC_TOTAL_LENGTH_OFFSET)"
  by (auto simp: validateRecordPrefix_def Let_def split: if_splits)

function scanLoop :: "byte list \<Rightarrow> nat \<Rightarrow> log_record list \<Rightarrow> (log_record list \<times> bool \<times> nat) res" where
  "scanLoop file offset records =
     (if offset < length file then
        let remaining = length file - offset in
        if remaining < REC_HEADER_SIZE then Inr (records, True, offset)
        else
          let recordHeader = subspan file offset REC_HEADER_SIZE in
          res_bind (validateRecordPrefix recordHeader (of_nat offset)) (\<lambda>_.
          let totalLength = unat (get32 recordHeader REC_TOTAL_LENGTH_OFFSET) in
          if totalLength > remaining then Inr (records, True, offset)
          else
            let encoded = recordHeader @ subspan file (offset + REC_HEADER_SIZE) (totalLength - REC_HEADER_SIZE) in
            res_bind (decodeWalRecord encoded (of_nat offset)) (\<lambda>record.
            scanLoop file (offset + totalLength) (records @ [record])))
      else Inr (records, False, offset))"
  by auto

termination
  by (relation "measure (\<lambda>(file, offset, records). length file - offset)")
    (auto dest!: validateRecordPrefix_total)

declare scanLoop.simps [simp del]

definition scanDescriptor :: "byte list \<Rightarrow> nat \<Rightarrow> wal_scan_result res" where
  "scanDescriptor file start =
     (if length file < WAL_FILE_HEADER_SIZE
      then Inl (WalError WalCorruptHeader ''WAL file header is truncated'')
      else
        res_bind (validateWalFileHeader (subspan file 0 WAL_FILE_HEADER_SIZE)) (\<lambda>_.
          if start < WAL_FILE_HEADER_SIZE \<or> start > length file
          then Inl (WalError WalInvalidArgument ''WAL scan offset is outside the file'')
          else
            res_bind (scanLoop file start []) (\<lambda>(records, truncated, valid).
              Inr \<lparr>scanRecords = records, truncatedTail = truncated, validBytes = valid,
                    fileBytes = length file, startOffset = start\<rparr>)))"

definition readWalRecordAt :: "byte list \<Rightarrow> nat \<Rightarrow> log_record res" where
  "readWalRecordAt file l =
     (if l < WAL_FILE_HEADER_SIZE \<or> l > length file \<or> length file - l < REC_HEADER_SIZE
      then Inl (WalError WalCorruptRecord ''Referenced WAL record header is outside the file'')
      else
        res_bind (validateWalFileHeader (subspan file 0 WAL_FILE_HEADER_SIZE)) (\<lambda>_.
        let recordHeader = subspan file l REC_HEADER_SIZE in
        res_bind (validateRecordPrefix recordHeader (of_nat l)) (\<lambda>_.
        let totalLength = unat (get32 recordHeader REC_TOTAL_LENGTH_OFFSET) in
        if totalLength > length file - l
        then Inl (WalError WalCorruptRecord ''Referenced WAL record is truncated'')
        else decodeWalRecord
          (recordHeader @ subspan file (l + REC_HEADER_SIZE) (totalLength - REC_HEADER_SIZE)) (of_nat l))))"

section \<open>The checksum\<close>

definition maskChecksum :: "byte list \<Rightarrow> byte list" where
  "maskChecksum bytes = map (\<lambda>i. if 40 \<le> i \<and> i < 44 then 0 else bytes ! i) [0..<length bytes]"

lemma recordChecksum_crc32c: "recordChecksum bytes = crc32c (maskChecksum bytes)"
  by (simp add: recordChecksum_def crc32c_def maskChecksum_def foldl_map)

lemma crcBit_top: "bit (crcBit c) 31 \<longleftrightarrow> odd c"
proof -
  have top: "bit CRC_POLYNOMIAL 31" by simp
  have "\<not> bit (drop_bit 1 c) 31"
    using not_bit_length [of c] by (simp add: bit_drop_bit_eq)
  moreover have "bit (CRC_POLYNOMIAL AND - (c AND 1)) 31 \<longleftrightarrow> odd c"
    using top by (cases "odd c") (simp_all add: and_one_eq bit_and_iff odd_iff_mod_2_eq_one even_iff_mod_2_eq_zero)
  ultimately show ?thesis by (simp add: crcBit_def Let_def bit_xor_iff)
qed

lemma crcBit_inj: "crcBit c = crcBit d \<Longrightarrow> c = d"
proof -
  assume eq: "crcBit c = crcBit d"
  then have odd: "odd c = odd d" using crcBit_top by metis
  then have low: "c AND 1 = d AND 1" by (simp add: and_one_eq mod2_eq_if)
  have "crcBit c XOR (CRC_POLYNOMIAL AND - (c AND 1)) = crcBit d XOR (CRC_POLYNOMIAL AND - (c AND 1))"
    using eq by (rule arg_cong)
  then have "drop_bit 1 c = drop_bit 1 d"
    unfolding crcBit_def Let_def low xor.assoc xor_self_eq xor.right_neutral .
  then have "bit c (Suc n) = bit d (Suc n)" for n
    by (metis bit_drop_bit_eq comp_apply plus_1_eq_Suc)
  then show "c = d" using odd
    by (intro bit_word_eqI) (metis bit_0 not0_implies_Suc)
qed

lemma crcBit8_inj: "(crcBit ^^ n) c = (crcBit ^^ n) d \<Longrightarrow> c = d"
  by (induction n) (auto dest: crcBit_inj)

lemma xor_cancel: "(a :: 'a::len word) XOR x = b XOR x \<Longrightarrow> a = b"
  by (simp add: bit_eq_iff bit_xor_iff) blast

lemma crcByte_inj_state: "crcByte c v = crcByte d v \<Longrightarrow> c = d"
  unfolding crcByte_def by (drule crcBit8_inj) (rule xor_cancel)

lemma crcByte_inj_value:
  assumes "crcByte c v = crcByte c w"
  shows "v = w"
proof -
  have "c XOR ucast v = c XOR ucast w" using assms unfolding crcByte_def by (rule crcBit8_inj)
  then have "(ucast v :: u32) = ucast w" by (subst (asm) (1 2) xor.commute) (rule xor_cancel)
  then have "bit (ucast v :: u32) n = bit (ucast w :: u32) n" for n by simp
  then have "n < 32 \<Longrightarrow> bit v n = bit w n" for n by (simp add: bit_unsigned_iff) metis
  then show ?thesis by (intro bit_word_eqI) simp
qed

lemma foldl_crcByte_inj: "foldl crcByte c bs = foldl crcByte d bs \<Longrightarrow> c = d"
  by (induction bs arbitrary: c d) (auto dest: crcByte_inj_state)

lemma crc32c_single_byte:
  assumes "j < length bs" "x \<noteq> bs ! j"
  shows "crc32c (bs[j := x]) \<noteq> crc32c bs"
proof
  assume eq: "crc32c (bs[j := x]) = crc32c bs"
  let ?s = "foldl crcByte 0xFFFFFFFF (take j bs)"
  have "foldl crcByte 0xFFFFFFFF bs = foldl crcByte (crcByte ?s (bs ! j)) (drop (Suc j) bs)"
    by (subst id_take_nth_drop [OF assms(1)]) simp
  moreover have "foldl crcByte 0xFFFFFFFF (bs[j := x]) = foldl crcByte (crcByte ?s x) (drop (Suc j) bs)"
    using assms(1) by (simp add: upd_conv_take_nth_drop)
  ultimately have "foldl crcByte (crcByte ?s x) (drop (Suc j) bs) = foldl crcByte (crcByte ?s (bs ! j)) (drop (Suc j) bs)"
    using eq by (simp add: crc32c_def)
  then have "crcByte ?s x = crcByte ?s (bs ! j)" by (rule foldl_crcByte_inj)
  then have "x = bs ! j" by (rule crcByte_inj_value)
  with assms(2) show False by simp
qed

lemma maskChecksum_update:
  "j < length b \<Longrightarrow> maskChecksum (b[j := x]) = (if 40 \<le> j \<and> j < 44 then maskChecksum b else (maskChecksum b)[j := x])"
  by (rule nth_equalityI) (auto simp: maskChecksum_def nth_list_update)

lemma length_maskChecksum [simp]: "length (maskChecksum b) = length b"
  by (simp add: maskChecksum_def)

lemma nth_maskChecksum: "j < length b \<Longrightarrow> maskChecksum b ! j = (if 40 \<le> j \<and> j < 44 then 0 else b ! j)"
  by (simp add: maskChecksum_def)

section \<open>The record layout\<close>

definition encodedRecord :: "log_record \<Rightarrow> lsn \<Rightarrow> u32 \<Rightarrow> byte list" where
  "encodedRecord r l checksum = WAL_RECORD_MAGIC @ le_bytes 2 (1 :: u16) @ le_bytes 2 (recType r) @
     le_bytes 4 (of_nat (48 + length (payload r)) :: u32) @ le_bytes 4 (of_nat (length (payload r)) :: u32) @
     le_bytes 8 l @ le_bytes 8 (transactionId r) @ le_bytes 8 (prevLsn r) @
     le_bytes 4 checksum @ le_bytes 4 (0 :: u32) @ payload r"

lemma record_split:
  assumes "48 \<le> length b"
  shows "b = subspan b 0 4 @ le_bytes 2 (get16 b 4) @ le_bytes 2 (get16 b 6) @
     le_bytes 4 (get32 b 8) @ le_bytes 4 (get32 b 12) @
     le_bytes 8 (get64 b 16) @ le_bytes 8 (get64 b 24) @ le_bytes 8 (get64 b 32) @
     le_bytes 4 (get32 b 40) @ le_bytes 4 (get32 b 44) @ drop 48 b"
proof -
  have step: "drop i b = subspan b i n @ drop (i + n) b" for i n
    using append_take_drop_id [of n "drop i b"] by (simp add: subspan_def add.commute)
  have "b = drop 0 b" by simp
  also have "\<dots> = subspan b 0 4 @ subspan b 4 2 @ subspan b 6 2 @ subspan b 8 4 @ subspan b 12 4 @
      subspan b 16 8 @ subspan b 24 8 @ subspan b 32 8 @ subspan b 40 4 @ subspan b 44 4 @ drop 48 b"
    using step [of 0 4] step [of 4 2] step [of 6 2] step [of 8 4] step [of 12 4] step [of 16 8]
      step [of 24 8] step [of 32 8] step [of 40 4] step [of 44 4] by simp
  finally show ?thesis using assms by (simp add: le_bytes_get_le)
qed

lemma length_encodedRecord [simp]: "length (encodedRecord r l c) = 48 + length (payload r)"
  by (simp add: encodedRecord_def)

lemma encodedRecord_fields:
  "subspan (encodedRecord r l c) 0 4 = WAL_RECORD_MAGIC"
  "get16 (encodedRecord r l c) 4 = 1"
  "get16 (encodedRecord r l c) 6 = recType r"
  "get32 (encodedRecord r l c) 8 = of_nat (48 + length (payload r))"
  "get32 (encodedRecord r l c) 12 = of_nat (length (payload r))"
  "get64 (encodedRecord r l c) 16 = l"
  "get64 (encodedRecord r l c) 24 = transactionId r"
  "get64 (encodedRecord r l c) 32 = prevLsn r"
  "get32 (encodedRecord r l c) 40 = c"
  "get32 (encodedRecord r l c) 44 = 0"
  "drop 48 (encodedRecord r l c) = payload r"
  by (simp_all add: encodedRecord_def get_le_skip get_le_Cons subspan_def)

lemma put32_encodedRecord: "put32 (encodedRecord r l 0) 40 c = encodedRecord r l c"
proof -
  have "put32 (encodedRecord r l 0) 40 c = overwrite (encodedRecord r l 0) 40 (le_bytes 4 c)"
    by (simp add: put_le_overwrite)
  also have "\<dots> = encodedRecord r l c" by (simp add: overwrite_def encodedRecord_def)
  finally show ?thesis .
qed

lemma maskChecksum_put32: "44 \<le> length b \<Longrightarrow> maskChecksum (put32 b 40 c) = maskChecksum b"
  by (simp add: maskChecksum_def nth_put_le)

lemma recordChecksum_encodedRecord: "recordChecksum (encodedRecord r l c) = recordChecksum (encodedRecord r l 0)"
  by (simp add: recordChecksum_crc32c maskChecksum_put32 flip: put32_encodedRecord [of r l c])

definition recordOk :: "log_record \<Rightarrow> lsn \<Rightarrow> bool" where
  "recordOk r l \<longleftrightarrow> isValidLogRecordType (recType r) \<and> isValidLsn l \<and> 64 \<le> l \<and>
     length (payload r) \<le> MAX_PAYLOAD_SIZE \<and> (isValidLsn (prevLsn r) \<longrightarrow> prevLsn r < l)"

lemma drop_overwrite_same: "off + length ys = length xs \<Longrightarrow> drop off (overwrite xs off ys) = ys"
  by (simp add: overwrite_def)

lemma encoded_layout:
  fixes r l
  defines "n \<equiv> length (payload r)"
  shows "overwrite (put64 (put64 (put64 (put32 (put32 (put16 (put16
      (overwrite (replicate (48 + n) 0) 0 WAL_RECORD_MAGIC) 4 1) 6 (recType r)) 8 (of_nat (48 + n))) 12 (of_nat n)) 16 l)
      24 (transactionId r)) 32 (prevLsn r)) 48 (payload r) = encodedRecord r l 0" (is "?e = _")
proof -
  have len: "length ?e = 48 + n" by (simp add: n_def)
  then have split: "?e = subspan ?e 0 4 @ le_bytes 2 (get16 ?e 4) @ le_bytes 2 (get16 ?e 6) @
     le_bytes 4 (get32 ?e 8) @ le_bytes 4 (get32 ?e 12) @
     le_bytes 8 (get64 ?e 16) @ le_bytes 8 (get64 ?e 24) @ le_bytes 8 (get64 ?e 32) @
     le_bytes 4 (get32 ?e 40) @ le_bytes 4 (get32 ?e 44) @ drop 48 ?e"
    by (intro record_split) simp
  show ?thesis
    by (subst split) (simp add: encodedRecord_def n_def get_le_zeros nth_overwrite drop_overwrite_same
        subspan_overwrite_same subspan_overwrite_disjoint)
qed

lemma encodeWalRecord_eq:
  "encodeWalRecord r l = Inr b \<longleftrightarrow>
   recordOk r l \<and> b = encodedRecord r l (recordChecksum (encodedRecord r l 0))"
  unfolding encodeWalRecord_def Let_def encoded_layout put32_encodedRecord recordOk_def
  by (auto simp: not_less not_le)

lemma get32_of_length: "n \<le> MAX_RECORD_SIZE \<Longrightarrow> unat (of_nat n :: u32) = n"
  by (simp add: unat_of_nat_small)

lemma encodedRecord_prefix:
  assumes "recordOk r l"
  shows "validateRecordPrefix (take 48 (encodedRecord r l c)) l = Inr ()"
    and "validateRecordPrefix (encodedRecord r l c) l = Inr ()"
proof -
  let ?e = "encodedRecord r l c" and ?n = "length (payload r)"
  have n: "unat (of_nat (48 + ?n) :: u32) = 48 + ?n" "unat (of_nat ?n :: u32) = ?n"
    using assms by (simp_all only: recordOk_def) (subst get32_of_length, simp, simp)+
  have f: "get_le w (take 48 ?e) i = get_le w ?e i" if "i + w \<le> 48" for w i
    using that by (intro get_le_cong) simp
  have m: "subspan (take 48 ?e) 0 4 = subspan ?e 0 4" by (simp add: subspan_def)
  from assms show "validateRecordPrefix ?e l = Inr ()"
    unfolding validateRecordPrefix_def Let_def encodedRecord_fields n
    by (auto simp: recordOk_def isValidLsn_def throw_if_def)
  from assms show "validateRecordPrefix (take 48 ?e) l = Inr ()"
    unfolding validateRecordPrefix_def Let_def m
    apply (simp add: f del: of_nat_add)
    unfolding encodedRecord_fields n
    by (auto simp: recordOk_def isValidLsn_def throw_if_def)
qed

lemma encode_decode_record:
  assumes "encodeWalRecord r l = Inr b"
  shows "decodeWalRecord b l = Inr (r\<lparr>recLsn := l\<rparr>)"
proof -
  let ?c = "recordChecksum (encodedRecord r l 0)"
  from assms have ok: "recordOk r l" and b: "b = encodedRecord r l ?c" by (simp_all add: encodeWalRecord_eq)
  have n: "unat (of_nat (48 + length (payload r)) :: u32) = 48 + length (payload r)"
    using ok by (simp only: recordOk_def) (subst get32_of_length, simp, simp)
  show ?thesis
    unfolding decodeWalRecord_def b encodedRecord_prefix(2) [OF ok] res_bind_simps encodedRecord_fields n
    by (simp add: recordChecksum_encodedRecord [of r l ?c])
qed

lemma decode_record_fields:
  assumes "decodeWalRecord b l = Inr r"
  shows "48 \<le> length b" "recordOk r l" "recLsn r = l" "recordChecksum b = get32 b 40"
    "b = encodedRecord r l (get32 b 40)"
proof -
  from assms have v: "validateRecordPrefix b l = Inr ()" and len: "length b = unat (get32 b 8)"
    and ck: "recordChecksum b = get32 b 40" and r: "recType r = get16 b 6" "transactionId r = get64 b 24"
      "prevLsn r = get64 b 32" "payload r = drop 48 b" "recLsn r = l"
    by (auto simp: decodeWalRecord_def res_bind_eq_Inr split: if_splits)
  from v have h: "48 \<le> length b" "subspan b 0 4 = WAL_RECORD_MAGIC" "get16 b 4 = 1" "isValidLogRecordType (get16 b 6)"
    "length b \<le> MAX_RECORD_SIZE" "unat (get32 b 12) = length b - 48" "get64 b 16 = l" "\<not> l < 64" "l \<noteq> INVALID_LSN"
    "get32 b 44 = 0" "isValidLsn (get64 b 32) \<longrightarrow> get64 b 32 < l"
    unfolding validateRecordPrefix_def Let_def len [symmetric] by (simp_all add: not_le split: if_splits)
  show "48 \<le> length b" "recLsn r = l" "recordChecksum b = get32 b 40" by (fact h(1) r(5) ck)+
  show "recordOk r l" using h r by (auto simp: recordOk_def isValidLsn_def)
  have n: "length b = 48 + length (payload r)" using h(1) r(4) by simp
  then have "of_nat (unat (get32 b 12)) = (of_nat (length (payload r)) :: u32)" using h(6) by simp
  moreover have "of_nat (unat (get32 b 8)) = (of_nat (48 + length (payload r)) :: u32)" unfolding len [symmetric] n ..
  ultimately have l32: "get32 b 8 = of_nat (48 + length (payload r))" "get32 b 12 = of_nat (length (payload r))"
    by simp_all
  show "b = encodedRecord r l (get32 b 40)"
    using record_split [OF h(1)] unfolding encodedRecord_def l32 [symmetric]
    unfolding r h(2,3,7,10) .
qed

lemma decode_encode_record:
  assumes "decodeWalRecord b l = Inr r"
  shows "encodeWalRecord r l = Inr b"
proof -
  note f = decode_record_fields [OF assms]
  have c: "recordChecksum (encodedRecord r l 0) = get32 b 40"
    using recordChecksum_encodedRecord [of r l "get32 b 40"] unfolding f(5) [symmetric] f(4) ..
  show ?thesis unfolding encodeWalRecord_eq c by (intro conjI f(2,5))
qed

text \<open>
  C15: The record format has exactly one encoding per record. \<open>decodeWalRecord\<close> accepts a byte
  string at an LSN and returns a record precisely when \<open>encodeWalRecord\<close> produces that byte string
  for that record at that LSN (the decoded record carries the LSN it was read at).
\<close>

theorem wal_record_encoding_exact:
  "decodeWalRecord bytes l = Inr r \<longleftrightarrow> recLsn r = l \<and> encodeWalRecord r l = Inr bytes"
proof
  assume "decodeWalRecord bytes l = Inr r"
  then show "recLsn r = l \<and> encodeWalRecord r l = Inr bytes"
    by (intro conjI decode_record_fields(3) decode_encode_record)
next
  assume r: "recLsn r = l \<and> encodeWalRecord r l = Inr bytes"
  then have "decodeWalRecord bytes l = Inr (r\<lparr>recLsn := l\<rparr>)" by (intro encode_decode_record) simp
  with r show "decodeWalRecord bytes l = Inr r" by (metis log_record.surjective log_record.update_convs(5))
qed

lemma get32_update_neq:
  assumes "40 \<le> j" "j < 44" "44 \<le> length b" "x \<noteq> b ! j"
  shows "get32 (b[j := x]) 40 \<noteq> get32 b 40"
proof
  assume "get32 (b[j := x]) 40 = get32 b 40"
  then have "le_bytes 4 (get32 (b[j := x]) 40) = le_bytes 4 (get32 b 40)" by simp
  then have "subspan (b[j := x]) 40 4 = subspan b 40 4" using assms by (simp add: le_bytes_get_le)
  then have "subspan (b[j := x]) 40 4 ! (j - 40) = subspan b 40 4 ! (j - 40)" by simp
  with assms show False by (simp add: nth_subspan)
qed

text \<open>
  C13: The CRC-32C of a record detects every change confined to one byte. If a byte string
  decodes, then changing any one of its bytes - in the header, in the payload, or in the stored
  checksum itself - makes \<open>decodeWalRecord\<close> throw.
\<close>

theorem wal_record_detects_corrupt_byte:
  assumes "decodeWalRecord bytes l = Inr r" "j < length bytes" "x \<noteq> bytes ! j"
  shows "\<exists>e. decodeWalRecord (bytes[j := x]) l = Inl e"
proof (rule ccontr)
  assume "\<not> ?thesis"
  then obtain r' where d: "decodeWalRecord (bytes[j := x]) l = Inr r'"
    by (cases "decodeWalRecord (bytes[j := x]) l") auto
  note old = decode_record_fields [OF assms(1)] and new = decode_record_fields [OF d]
  show False
  proof (cases "40 \<le> j \<and> j < 44")
    case True
    then have "recordChecksum (bytes[j := x]) = recordChecksum bytes"
      using assms(2) by (simp add: recordChecksum_crc32c maskChecksum_update)
    with old(4) new(4) get32_update_neq [of j bytes x] True old(1) assms(3) show False by simp
  next
    case False
    then have "get32 (bytes[j := x]) 40 = get32 bytes 40" by (intro get_le_cong) auto
    moreover have "recordChecksum (bytes[j := x]) \<noteq> recordChecksum bytes"
      using False assms(2,3) crc32c_single_byte [of j "maskChecksum bytes" x]
      unfolding recordChecksum_crc32c maskChecksum_update [OF assms(2)] nth_maskChecksum [OF assms(2)]
        if_not_P [OF False] by simp
    ultimately show False using old(4) new(4) by simp
  qed
qed

definition sampleRecord :: log_record where
  "sampleRecord = \<lparr>recType = 1, transactionId = 7, prevLsn = INVALID_LSN, payload = [1, 2, 3], recLsn = 64\<rparr>"

lemma sampleRecord_encodes:
  "encodeWalRecord sampleRecord 64 = Inr (encodedRecord sampleRecord 64 (recordChecksum (encodedRecord sampleRecord 64 0)))"
  by (simp add: encodeWalRecord_eq recordOk_def sampleRecord_def isValidLogRecordType_def isValidLsn_def)

theorem wal_record_detects_corrupt_byte_witness:
  "let bytes = encodedRecord sampleRecord 64 (recordChecksum (encodedRecord sampleRecord 64 0)) in
   decodeWalRecord bytes 64 = Inr sampleRecord \<and> 0 < length bytes \<and> 0 \<noteq> bytes ! 0 \<and>
   (\<exists>e. decodeWalRecord (bytes[0 := 0]) 64 = Inl e)"
proof -
  let ?b = "encodedRecord sampleRecord 64 (recordChecksum (encodedRecord sampleRecord 64 0))"
  have d: "decodeWalRecord ?b 64 = Inr sampleRecord"
    using encode_decode_record [OF sampleRecord_encodes] by (simp add: sampleRecord_def)
  moreover have "0 < length ?b" "0 \<noteq> ?b ! 0" by (simp_all add: encodedRecord_def magic_bytes_def)
  ultimately show ?thesis
    using wal_record_detects_corrupt_byte [OF d, of 0 0] unfolding Let_def by blast
qed

section \<open>Torn tails\<close>

text \<open>
  \<open>layLog\<close> is the image of a log that holds the given records from an offset on, each at the LSN
  that is its offset; \<open>stampLog\<close> are those records with their LSNs, \<open>logEnd\<close> is the offset after
  the last.
\<close>

fun layLog :: "nat \<Rightarrow> log_record list \<Rightarrow> byte list res" where
  "layLog offset [] = Inr []"
| "layLog offset (r # rs) =
     res_bind (encodeWalRecord r (of_nat offset)) (\<lambda>e.
     res_bind (layLog (offset + length e) rs) (\<lambda>t. Inr (e @ t)))"

fun logEnd :: "nat \<Rightarrow> log_record list \<Rightarrow> nat" where
  "logEnd offset [] = offset"
| "logEnd offset (r # rs) = logEnd (offset + (48 + length (payload r))) rs"

fun stampLog :: "nat \<Rightarrow> log_record list \<Rightarrow> log_record list" where
  "stampLog offset [] = []"
| "stampLog offset (r # rs) = r\<lparr>recLsn := of_nat offset\<rparr> # stampLog (offset + (48 + length (payload r))) rs"

lemma encode_length: "encodeWalRecord r l = Inr e \<Longrightarrow> length e = 48 + length (payload r)"
  by (simp add: encodeWalRecord_eq)

lemma encode_total_field:
  assumes "encodeWalRecord r l = Inr e"
  shows "unat (get32 (take 48 e) 8) = length e" and "validateRecordPrefix (take 48 e) l = Inr ()"
proof -
  from assms have ok: "recordOk r l" and e: "e = encodedRecord r l (recordChecksum (encodedRecord r l 0))"
    by (simp_all add: encodeWalRecord_eq)
  have "get32 (take 48 e) 8 = get32 e 8" by (intro get_le_cong) (simp add: e)
  then show "unat (get32 (take 48 e) 8) = length e"
    using ok get32_of_length [of "48 + length (payload r)"] unfolding e encodedRecord_fields length_encodedRecord
    by (simp add: recordOk_def del: of_nat_add)
  show "validateRecordPrefix (take 48 e) l = Inr ()" unfolding e by (rule encodedRecord_prefix(1) [OF ok])
qed

lemma scanLoop_step:
  assumes "encodeWalRecord r (of_nat off) = Inr e" "length pre = off"
  shows "scanLoop (pre @ e @ t) off acc = scanLoop (pre @ e @ t) (off + length e) (acc @ [r\<lparr>recLsn := of_nat off\<rparr>])"
proof -
  note len = encode_length [OF assms(1)] and tot = encode_total_field [OF assms(1)]
  have h: "subspan (pre @ e @ t) off 48 = take 48 e" using assms(2) len by (simp add: subspan_def)
  have p: "take 48 e @ subspan (pre @ e @ t) (off + 48) (length e - 48) = e"
    using assms(2) len by (simp add: subspan_def)
  have g: "off < length (pre @ e @ t)" "\<not> length (pre @ e @ t) - off < 48" "\<not> length e > length (pre @ e @ t) - off"
    using assms(2) len by simp_all
  show ?thesis
    apply (subst scanLoop.simps)
    unfolding Let_def if_P [OF g(1)] if_not_P [OF g(2)] h tot res_bind_simps if_not_P [OF g(3)] p
      encode_decode_record [OF assms(1)] ..
qed

lemma scanLoop_torn:
  assumes "encodeWalRecord r (of_nat off) = Inr e" "length pre = off" "0 < n" "n < length e"
  shows "scanLoop (pre @ take n e) off acc = Inr (acc, True, off)"
proof (cases "n < 48")
  case True
  with assms show ?thesis by (subst scanLoop.simps) simp
next
  case False
  note len = encode_length [OF assms(1)] and tot = encode_total_field [OF assms(1)]
  have h: "subspan (pre @ take n e) off 48 = take 48 e" using assms(2) False by (simp add: subspan_def min_def)
  have g: "off < length (pre @ take n e)" "\<not> length (pre @ take n e) - off < 48" "length e > length (pre @ take n e) - off"
    using assms False by simp_all
  show ?thesis
    apply (subst scanLoop.simps)
    unfolding Let_def if_P [OF g(1)] if_not_P [OF g(2)] h tot res_bind_simps if_P [OF g(3)] ..
qed

lemma scanLoop_end: "scanLoop file (length file) acc = Inr (acc, False, length file)"
  by (subst scanLoop.simps) simp

lemma scanLoop_cut:
  assumes "layLog off rs = Inr body" "length pre = off" "m \<le> length body"
  shows "\<exists>k\<le>length rs. scanLoop (pre @ take m body) off acc =
       Inr (acc @ stampLog off (take k rs), logEnd off (take k rs) < off + m, logEnd off (take k rs)) \<and>
     logEnd off (take k rs) \<le> off + m \<and> (k < length rs \<longrightarrow> off + m < logEnd off (take (Suc k) rs))"
  using assms
proof (induction rs arbitrary: off body pre m acc)
  case Nil
  then show ?case using scanLoop_end [of pre] by simp
next
  case (Cons r rs)
  from Cons.prems(1) obtain e t where e: "encodeWalRecord r (of_nat off) = Inr e"
    and t: "layLog (off + length e) rs = Inr t" and body: "body = e @ t"
    by (auto simp: res_bind_eq_Inr)
  note len = encode_length [OF e]
  show ?case
  proof (cases "length e \<le> m")
    case True
    define m' where "m' = m - length e"
    have pre': "length (pre @ e) = off + length e" and m': "m' \<le> length t"
      using Cons.prems(2,3) True by (simp_all add: body m'_def)
    have cut: "pre @ take m body = (pre @ e) @ take m' t" using True by (simp add: body m'_def)
    obtain k where k: "k \<le> length rs"
      "scanLoop ((pre @ e) @ take m' t) (off + length e) (acc @ [r\<lparr>recLsn := of_nat off\<rparr>]) =
         Inr ((acc @ [r\<lparr>recLsn := of_nat off\<rparr>]) @ stampLog (off + length e) (take k rs),
           logEnd (off + length e) (take k rs) < off + length e + m', logEnd (off + length e) (take k rs))"
      "logEnd (off + length e) (take k rs) \<le> off + length e + m'"
      "k < length rs \<longrightarrow> off + length e + m' < logEnd (off + length e) (take (Suc k) rs)"
      using Cons.IH [OF t, of "pre @ e" m' "acc @ [r\<lparr>recLsn := of_nat off\<rparr>]"] pre' m' by blast
    have sum: "off + length e + m' = off + m" using True by (simp add: m'_def)
    from k [unfolded sum] scanLoop_step [OF e Cons.prems(2), of "take m' t" acc] show ?thesis
      unfolding cut by (intro exI [of _ "Suc k"]) (simp add: len)
  next
    case False
    then have cut: "pre @ take m body = pre @ take m e" by (simp add: body)
    have "scanLoop (pre @ take m e) off acc = Inr (acc, 0 < m, off)"
      using scanLoop_torn [OF e Cons.prems(2)] scanLoop_end [of pre acc] False Cons.prems(2) by (cases m) auto
    with False show ?thesis unfolding cut by (intro exI [of _ 0]) (simp add: len)
  qed
qed

lemma encodeWalFileHeader_layout:
  "encodeWalFileHeader = WAL_FILE_MAGIC @ le_bytes 4 (1 :: u32) @ le_bytes 4 (64 :: u32) @ le_bytes 4 (4096 :: u32) @
     replicate 44 0"
  by (simp add: encodeWalFileHeader_def put_le_overwrite overwrite_def)

lemma length_encodeWalFileHeader [simp]: "length encodeWalFileHeader = 64"
  by (simp add: encodeWalFileHeader_layout)

lemma validate_encodeWalFileHeader: "validateWalFileHeader encodeWalFileHeader = Inr ()"
proof -
  have "get32 (replicate 44 0) 0 = 0" by (intro get_le_zeros) simp
  moreover have "drop 24 encodeWalFileHeader = replicate 40 0"
    by (simp add: encodeWalFileHeader_layout)
  ultimately show ?thesis
    by (simp add: validateWalFileHeader_def encodeWalFileHeader_layout subspan_def get_le_skip get_le_Cons all_zero_def list_all_iff)
qed

text \<open>
  C3: Scanning a log that was cut at an arbitrary byte recovers exactly its complete prefix. Let
  a file be the log header followed by the encodings of any records at consecutive LSNs, cut
  after any number of bytes that keeps the header. \<open>scanDescriptor\<close> does not throw; it returns the
  first \<open>k\<close> records with their LSNs, where \<open>k\<close> is the number of records that are wholly inside
  the cut file; \<open>validBytes\<close> is the end of the last of them, and the tail is reported as truncated
  exactly when bytes follow it.
\<close>

theorem wal_scan_recovers_complete_prefix:
  assumes "layLog 64 rs = Inr body" "64 \<le> n" "n \<le> 64 + length body"
  shows "\<exists>k\<le>length rs.
    scanDescriptor (take n (encodeWalFileHeader @ body)) 64 =
      Inr \<lparr>scanRecords = stampLog 64 (take k rs), truncatedTail = (logEnd 64 (take k rs) < n),
           validBytes = logEnd 64 (take k rs), fileBytes = n, startOffset = 64\<rparr> \<and>
    logEnd 64 (take k rs) \<le> n \<and> (k < length rs \<longrightarrow> n < logEnd 64 (take (Suc k) rs))"
proof -
  define m where "m = n - 64"
  have n: "n = 64 + m" "m \<le> length body" using assms by (simp_all add: m_def)
  have img: "take n (encodeWalFileHeader @ body) = encodeWalFileHeader @ take m body" by (simp add: n)
  have len: "length (take n (encodeWalFileHeader @ body)) = n" using n by simp
  have head: "subspan (take n (encodeWalFileHeader @ body)) 0 64 = encodeWalFileHeader"
    unfolding img by (simp add: subspan_def)
  obtain k where k: "k \<le> length rs" "scanLoop (encodeWalFileHeader @ take m body) 64 [] =
       Inr ([] @ stampLog 64 (take k rs), logEnd 64 (take k rs) < 64 + m, logEnd 64 (take k rs))"
     "logEnd 64 (take k rs) \<le> 64 + m" "k < length rs \<longrightarrow> 64 + m < logEnd 64 (take (Suc k) rs)"
    using scanLoop_cut [OF assms(1) length_encodeWalFileHeader n(2), of "[]"] by blast
  have "scanDescriptor (take n (encodeWalFileHeader @ body)) 64 =
      Inr \<lparr>scanRecords = stampLog 64 (take k rs), truncatedTail = (logEnd 64 (take k rs) < n),
           validBytes = logEnd 64 (take k rs), fileBytes = n, startOffset = 64\<rparr>"
    unfolding scanDescriptor_def head len validate_encodeWalFileHeader res_bind_simps
    unfolding img k(2) using assms(2) by (simp add: n)
  with k show ?thesis by (auto simp: n)
qed

theorem wal_scan_recovers_complete_prefix_witness:
  "\<exists>body. layLog 64 [sampleRecord] = Inr body \<and> 64 \<le> (100 :: nat) \<and> 100 \<le> 64 + length body \<and>
    (\<exists>k\<le>length [sampleRecord].
      scanDescriptor (take 100 (encodeWalFileHeader @ body)) 64 =
        Inr \<lparr>scanRecords = stampLog 64 (take k [sampleRecord]), truncatedTail = (logEnd 64 (take k [sampleRecord]) < 100),
             validBytes = logEnd 64 (take k [sampleRecord]), fileBytes = 100, startOffset = 64\<rparr> \<and>
      logEnd 64 (take k [sampleRecord]) \<le> 100 \<and>
      (k < length [sampleRecord] \<longrightarrow> 100 < logEnd 64 (take (Suc k) [sampleRecord])))"
proof -
  let ?b = "encodedRecord sampleRecord 64 (recordChecksum (encodedRecord sampleRecord 64 0))"
  have b: "layLog 64 [sampleRecord] = Inr ?b" using sampleRecord_encodes by simp
  have "64 \<le> (100 :: nat)" "100 \<le> 64 + length ?b" by (simp_all add: sampleRecord_def)
  with b wal_scan_recovers_complete_prefix [OF b, of 100] show ?thesis by blast
qed

text \<open>
  The n-th record of a log is the one found at its LSN, whatever follows it in the file.
\<close>

lemma layLog_nth:
  assumes "layLog off rs = Inr body" "i < length rs"
  shows "\<exists>before e after. body = before @ e @ after \<and> off + length before = logEnd off (take i rs) \<and>
    encodeWalRecord (rs ! i) (of_nat (logEnd off (take i rs))) = Inr e"
  using assms
proof (induction rs arbitrary: off body i)
  case (Cons r rs)
  from Cons.prems(1) obtain e t where e: "encodeWalRecord r (of_nat off) = Inr e"
    and t: "layLog (off + length e) rs = Inr t" and body: "body = e @ t"
    by (auto simp: res_bind_eq_Inr)
  show ?case
  proof (cases i)
    case 0
    with e body show ?thesis by (intro exI [of _ "[]"] exI [of _ e] exI [of _ t]) simp
  next
    case (Suc j)
    with Cons.prems(2) obtain b e' a where b: "t = b @ e' @ a" "off + length e + length b = logEnd (off + length e) (take j rs)"
      "encodeWalRecord (rs ! j) (of_nat (logEnd (off + length e) (take j rs))) = Inr e'"
      using Cons.IH [OF t, of j] by auto
    then show ?thesis using body Suc encode_length [OF e]
      by (intro exI [of _ "e @ b"] exI [of _ e'] exI [of _ a]) simp
  qed
qed simp

text \<open>
  C40: The LSN of a record is a file position at which it can be read back. In a file that holds
  a log of records, followed by any bytes at all, \<open>readWalRecordAt\<close> at the LSN of the i-th record
  returns that record.
\<close>

theorem wal_read_at_lsn:
  assumes "layLog 64 rs = Inr body" "i < length rs"
  shows "readWalRecordAt (encodeWalFileHeader @ body @ tail) (logEnd 64 (take i rs)) = Inr (stampLog 64 rs ! i)"
proof -
  let ?l = "logEnd 64 (take i rs)"
  obtain b e a where body: "body = b @ e @ a" and l: "64 + length b = ?l"
    and e: "encodeWalRecord (rs ! i) (of_nat ?l) = Inr e"
    using layLog_nth [OF assms] by blast
  let ?f = "encodeWalFileHeader @ body @ tail"
  note len = encode_length [OF e] and tot = encode_total_field [OF e]
  have f: "?f = (encodeWalFileHeader @ b) @ e @ a @ tail" and pre: "length (encodeWalFileHeader @ b) = ?l"
    using l by (simp_all add: body)
  have h: "subspan ?f ?l 48 = take 48 e" and p: "take 48 e @ subspan ?f (?l + 48) (length e - 48) = e"
    unfolding f using pre len by (simp_all add: subspan_def flip: l)
  have g: "\<not> (?l < 64 \<or> ?l > length ?f \<or> length ?f - ?l < 48)" "\<not> length e > length ?f - ?l"
    using l len by (simp_all add: body)
  have head: "subspan ?f 0 64 = encodeWalFileHeader" by (simp add: subspan_def)
  have "stampLog off rs ! i = (rs ! i)\<lparr>recLsn := of_nat (logEnd off (take i rs))\<rparr>" for off
    using assms(2) by (induction rs arbitrary: off i) (auto simp: nth_Cons split: nat.splits)
  then show ?thesis
    unfolding readWalRecordAt_def if_not_P [OF g(1)] head validate_encodeWalFileHeader res_bind_simps
      h Let_def tot if_not_P [OF g(2)] p encode_decode_record [OF e] by simp
qed

theorem wal_read_at_lsn_witness:
  "\<exists>body. layLog 64 [sampleRecord] = Inr body \<and> 0 < length [sampleRecord] \<and>
    readWalRecordAt (encodeWalFileHeader @ body @ [9]) (logEnd 64 (take 0 [sampleRecord])) = Inr (stampLog 64 [sampleRecord] ! 0)"
proof -
  let ?b = "encodedRecord sampleRecord 64 (recordChecksum (encodedRecord sampleRecord 64 0))"
  have b: "layLog 64 [sampleRecord] = Inr ?b" using sampleRecord_encodes by simp
  moreover have z: "0 < length [sampleRecord]" by simp
  ultimately show ?thesis using wal_read_at_lsn [OF b z, of "[9]"] by blast
qed

end
