(* ===== verification/Access_Gate.thy ===== *)
theory Access_Gate
  imports Prelude
begin

text \<open>
  The reader/writer gate of \<open>database_access_gate.cpp\<close>.

  All shared state of the gate is guarded by its mutex, which \<open>acquire\<close> gives up only inside
  \<open>wait_for\<close>. An acquisition is therefore a sequence of atomic pieces: the entry up to the first
  wait, and one round of the loop per wake-up (a wait ends by notification, by its timeout or
  spuriously, so a round may happen at any moment). \<open>acquireStart\<close> and \<open>acquireRound\<close> are those
  pieces, \<open>release\<close>, \<open>shutdown\<close> and \<open>resetStats\<close> are atomic as a whole, and \<open>sysStep\<close> interleaves
  them for any number of threads. Clock readings and the answers of the cancel probe are inputs of
  a piece; thread ids are numbers. The failed assertions of \<open>release\<close> are the result \<open>None\<close>.
\<close>

section \<open>State\<close>

datatype access_mode = ReadOnly | ReadWrite

record access_stats =
  activeReaders :: u64
  peakConcurrentReaders :: u64
  writerActive :: bool
  waitingReaders :: u64
  waitingWriters :: u64
  sharedAcquisitions :: u64
  exclusiveAcquisitions :: u64
  readerWaitCount :: u64
  writerWaitCount :: u64
  readerWaitNs :: u64
  writerWaitNs :: u64
  cancelledWaits :: u64

record ownership =
  readers :: u64
  writer :: bool

record gate =
  stats :: access_stats
  owners :: "nat \<Rightarrow> ownership option"
  stopped :: bool

definition emptyStats :: access_stats where
  "emptyStats = \<lparr>activeReaders = 0, peakConcurrentReaders = 0, writerActive = False, waitingReaders = 0,
     waitingWriters = 0, sharedAcquisitions = 0, exclusiveAcquisitions = 0, readerWaitCount = 0,
     writerWaitCount = 0, readerWaitNs = 0, writerWaitNs = 0, cancelledWaits = 0\<rparr>"

definition newGate :: gate where
  "newGate = \<lparr>stats = emptyStats, owners = (\<lambda>_. None), stopped = False\<rparr>"

datatype acquire_result = Granted | Waits | Thrown exn

section \<open>Acquiring\<close>

definition eligible :: "access_mode \<Rightarrow> access_stats \<Rightarrow> bool" where
  "eligible mode st \<longleftrightarrow> \<not> writerActive st \<and>
     (case mode of ReadOnly \<Rightarrow> waitingWriters st = 0 | ReadWrite \<Rightarrow> activeReaders st = 0)"

definition enterWait :: "access_mode \<Rightarrow> access_stats \<Rightarrow> access_stats" where
  "enterWait mode st =
     (case mode of
        ReadOnly \<Rightarrow> st\<lparr>waitingReaders := waitingReaders st + 1, readerWaitCount := readerWaitCount st + 1\<rparr>
      | ReadWrite \<Rightarrow> st\<lparr>waitingWriters := waitingWriters st + 1, writerWaitCount := writerWaitCount st + 1\<rparr>)"

definition leaveWait :: "access_mode \<Rightarrow> bool \<Rightarrow> u64 \<Rightarrow> u64 \<Rightarrow> access_stats \<Rightarrow> access_stats" where
  "leaveWait mode waiting started now st =
     (if waiting then
        case mode of
          ReadOnly \<Rightarrow> st\<lparr>waitingReaders := waitingReaders st - 1, readerWaitNs := readerWaitNs st + (now - started)\<rparr>
        | ReadWrite \<Rightarrow> st\<lparr>waitingWriters := waitingWriters st - 1, writerWaitNs := writerWaitNs st + (now - started)\<rparr>
      else st)"

definition ownershipOf :: "gate \<Rightarrow> nat \<Rightarrow> ownership" where
  "ownershipOf g owner = (case owners g owner of Some o' \<Rightarrow> o' | None \<Rightarrow> \<lparr>readers = 0, writer = False\<rparr>)"

definition grant :: "access_mode \<Rightarrow> nat \<Rightarrow> gate \<Rightarrow> gate" where
  "grant mode owner g =
     (let o' = ownershipOf g owner; st = stats g in
      case mode of
        ReadOnly \<Rightarrow>
          g\<lparr>owners := (owners g)(owner \<mapsto> o'\<lparr>readers := readers o' + 1\<rparr>),
            stats := st\<lparr>activeReaders := activeReaders st + 1,
                        sharedAcquisitions := sharedAcquisitions st + 1,
                        peakConcurrentReaders := max (peakConcurrentReaders st) (activeReaders st + 1)\<rparr>\<rparr>
      | ReadWrite \<Rightarrow>
          g\<lparr>owners := (owners g)(owner \<mapsto> o'\<lparr>writer := True\<rparr>),
            stats := st\<lparr>writerActive := True, exclusiveAcquisitions := exclusiveAcquisitions st + 1\<rparr>\<rparr>)"

definition acquireRound ::
  "access_mode \<Rightarrow> nat \<Rightarrow> bool \<Rightarrow> bool \<Rightarrow> u64 \<Rightarrow> u64 \<Rightarrow> gate \<Rightarrow> acquire_result \<times> gate" where
  "acquireRound mode owner cancelled waiting started now g =
     (if stopped g \<or> cancelled then
        (Thrown (RuntimeError ''Database access cancelled''),
         let st = leaveWait mode waiting started now (stats g)
         in g\<lparr>stats := st\<lparr>cancelledWaits := cancelledWaits st + 1\<rparr>\<rparr>)
      else if eligible mode (stats g) then
        (Granted, grant mode owner (g\<lparr>stats := leaveWait mode waiting started now (stats g)\<rparr>))
      else (Waits, g))"

definition refuses :: "access_mode \<Rightarrow> nat \<Rightarrow> gate \<Rightarrow> bool" where
  "refuses mode owner g =
     (case owners g owner of
        Some owned \<Rightarrow> mode = ReadWrite \<or> writer owned \<or> waitingWriters (stats g) \<noteq> 0
      | None \<Rightarrow> False)"

definition acquireStart :: "access_mode \<Rightarrow> nat \<Rightarrow> bool \<Rightarrow> u64 \<Rightarrow> u64 \<Rightarrow> gate \<Rightarrow> acquire_result \<times> gate" where
  "acquireStart mode owner cancelled started now g =
     (if refuses mode owner g
      then (Thrown (LogicError ''Database leases do not support upgrades or recursive exclusive access''), g)
      else
        let waiting = \<not> eligible mode (stats g);
            g1 = (if waiting then g\<lparr>stats := enterWait mode (stats g)\<rparr> else g)
        in acquireRound mode owner cancelled waiting started now g1)"

section \<open>Releasing, stopping, statistics\<close>

definition release :: "access_mode \<Rightarrow> nat \<Rightarrow> gate \<Rightarrow> gate option" where
  "release mode owner g =
     (case owners g owner of
        None \<Rightarrow> None
      | Some found \<Rightarrow>
          map_option (\<lambda>(o', st).
             g\<lparr>stats := st,
               owners := (if readers o' = 0 \<and> \<not> writer o' then (owners g)(owner := None)
                          else (owners g)(owner \<mapsto> o'))\<rparr>)
           (case mode of
              ReadOnly \<Rightarrow>
                if readers found > 0 \<and> activeReaders (stats g) > 0
                then Some (found\<lparr>readers := readers found - 1\<rparr>,
                           (stats g)\<lparr>activeReaders := activeReaders (stats g) - 1\<rparr>)
                else None
            | ReadWrite \<Rightarrow>
                if writer found \<and> writerActive (stats g)
                then Some (found\<lparr>writer := False\<rparr>, (stats g)\<lparr>writerActive := False\<rparr>)
                else None))"

definition shutdown :: "gate \<Rightarrow> gate" where
  "shutdown g = g\<lparr>stopped := True\<rparr>"

definition resetStats :: "gate \<Rightarrow> gate" where
  "resetStats g =
     (let st = stats g in
      g\<lparr>stats := emptyStats\<lparr>activeReaders := activeReaders st, peakConcurrentReaders := activeReaders st,
          writerActive := writerActive st, waitingReaders := waitingReaders st,
          waitingWriters := waitingWriters st\<rparr>\<rparr>)"

section \<open>Leases\<close>

text \<open>
  A lease object refers to the gate or to nothing; moving it leaves the source empty, and only a
  lease that refers to the gate releases anything when it is reset or destroyed.
\<close>

record lease =
  holdsGate :: bool
  leaseMode :: access_mode
  leaseOwner :: nat

definition leaseReset :: "lease \<Rightarrow> gate \<Rightarrow> (lease \<times> gate) option" where
  "leaseReset l g =
     (if holdsGate l
      then map_option (\<lambda>g'. (l\<lparr>holdsGate := False\<rparr>, g')) (release (leaseMode l) (leaseOwner l) g)
      else Some (l, g))"

definition leaseMove :: "lease \<Rightarrow> lease \<times> lease" where
  "leaseMove other = (other, other\<lparr>holdsGate := False\<rparr>)"

definition leaseAssign :: "lease \<Rightarrow> lease \<Rightarrow> gate \<Rightarrow> (lease \<times> lease \<times> gate) option" where
  "leaseAssign this other g =
     map_option (\<lambda>(_, g'). (other, other\<lparr>holdsGate := False\<rparr>, g')) (leaseReset this g)"

section \<open>Threads\<close>

text \<open>
  The gate with the acquisitions that are waiting in it (thread, mode, time of entry) and the
  leases that refer to it. A thread is in at most one acquisition. The machine bounds how many
  acquisitions and leases exist at once, each of which occupies memory, by the range of a 64-bit
  counter.
\<close>

record sys =
  gateOf :: gate
  waiters :: "(nat \<times> access_mode \<times> u64) list"
  leases :: "lease list"

definition newLease :: "access_mode \<Rightarrow> nat \<Rightarrow> lease" where
  "newLease mode owner = \<lparr>holdsGate = True, leaseMode = mode, leaseOwner = owner\<rparr>"

definition population :: "sys \<Rightarrow> nat" where
  "population s = length (leases s) + length (waiters s)"

datatype event =
    Acquire nat access_mode bool u64 u64
  | Retry nat access_mode u64 bool u64
  | Reset lease
  | Shutdown
  | ResetStats

definition finishAcquire :: "nat \<Rightarrow> access_mode \<Rightarrow> u64 \<Rightarrow> acquire_result \<times> gate \<Rightarrow> sys \<Rightarrow> sys" where
  "finishAcquire t mode started r s =
     (case fst r of
        Granted \<Rightarrow> s\<lparr>gateOf := snd r, leases := newLease mode t # leases s\<rparr>
      | Waits \<Rightarrow> s\<lparr>gateOf := snd r, waiters := (t, mode, started) # waiters s\<rparr>
      | Thrown e \<Rightarrow> s\<lparr>gateOf := snd r\<rparr>)"

fun sysStep :: "event \<Rightarrow> sys \<Rightarrow> sys option" where
  "sysStep (Acquire t mode cancelled started now) s =
     (if t \<in> fst ` set (waiters s) \<or> population s + 1 \<ge> 2 ^ 64 then None
      else Some (finishAcquire t mode started (acquireStart mode t cancelled started now (gateOf s)) s))"
| "sysStep (Retry t mode started cancelled now) s =
     (if (t, mode, started) \<notin> set (waiters s) then None
      else Some (finishAcquire t mode started (acquireRound mode t cancelled True started now (gateOf s))
                   (s\<lparr>waiters := remove1 (t, mode, started) (waiters s)\<rparr>)))"
| "sysStep (Reset l) s =
     (if l \<notin> set (leases s) then None
      else map_option (\<lambda>(_, g). s\<lparr>gateOf := g, leases := remove1 l (leases s)\<rparr>) (leaseReset l (gateOf s)))"
| "sysStep Shutdown s = Some (s\<lparr>gateOf := shutdown (gateOf s)\<rparr>)"
| "sysStep ResetStats s = Some (s\<lparr>gateOf := resetStats (gateOf s)\<rparr>)"

definition newSys :: sys where
  "newSys = \<lparr>gateOf = newGate, waiters = [], leases = []\<rparr>"

inductive reachable :: "sys \<Rightarrow> bool" where
  start: "reachable newSys"
| step: "reachable s \<Longrightarrow> sysStep e s = Some s' \<Longrightarrow> reachable s'"

section \<open>Counting\<close>

definition cnt :: "('a \<Rightarrow> bool) \<Rightarrow> 'a list \<Rightarrow> nat" where
  "cnt P xs = length (filter P xs)"

lemma cnt_simps [simp]:
  "cnt P [] = 0"
  "cnt P (x # xs) = (if P x then Suc (cnt P xs) else cnt P xs)"
  by (simp_all add: cnt_def)

lemma cnt_remove1:
  "x \<in> set xs \<Longrightarrow> cnt P (remove1 x xs) = (if P x then cnt P xs - 1 else cnt P xs)"
  by (simp add: cnt_def filter_remove1 length_remove1)

lemma cnt_pos: "x \<in> set xs \<Longrightarrow> P x \<Longrightarrow> 0 < cnt P xs"
  by (auto simp: cnt_def filter_empty_conv)

lemma cnt_0_iff: "cnt P xs = 0 \<longleftrightarrow> (\<forall>x\<in>set xs. \<not> P x)"
  by (auto simp: cnt_def filter_empty_conv)

lemma cnt_le: "cnt P xs \<le> length xs"
  by (simp add: cnt_def)

lemma cnt_mono: "(\<And>x. P x \<Longrightarrow> Q x) \<Longrightarrow> cnt P xs \<le> cnt Q xs"
  by (induction xs) (auto simp: le_SucI)

lemma unat_dec: "0 < unat x \<Longrightarrow> unat (x - 1) = unat (x :: 'a::len word) - 1"
  by (metis One_nat_def Suc_leI unat_minus_one unat_eq_0 unsigned_0 less_numeral_extra(3))

section \<open>The invariant\<close>

abbreviation isReader :: "lease \<Rightarrow> bool" where "isReader l \<equiv> leaseMode l = ReadOnly"
abbreviation isWriter :: "lease \<Rightarrow> bool" where "isWriter l \<equiv> leaseMode l = ReadWrite"
abbreviation waitsIn :: "access_mode \<Rightarrow> nat \<times> access_mode \<times> u64 \<Rightarrow> bool" where
  "waitsIn m w \<equiv> fst (snd w) = m"

definition ownerEntry :: "nat \<Rightarrow> lease list \<Rightarrow> ownership option" where
  "ownerEntry t ls =
     (if cnt (\<lambda>l. leaseOwner l = t) ls = 0 then None
      else Some \<lparr>readers = of_nat (cnt (\<lambda>l. isReader l \<and> leaseOwner l = t) ls),
                 writer = (cnt (\<lambda>l. isWriter l \<and> leaseOwner l = t) ls > 0)\<rparr>)"

definition statsInv :: "access_stats \<Rightarrow> (nat \<times> access_mode \<times> u64) list \<Rightarrow> lease list \<Rightarrow> bool" where
  "statsInv st ws ls \<longleftrightarrow>
     unat (activeReaders st) = cnt isReader ls \<and>
     (writerActive st \<longleftrightarrow> 0 < cnt isWriter ls) \<and>
     unat (waitingReaders st) = cnt (waitsIn ReadOnly) ws \<and>
     unat (waitingWriters st) = cnt (waitsIn ReadWrite) ws \<and>
     activeReaders st \<le> peakConcurrentReaders st"

definition gateInv :: "gate \<Rightarrow> (nat \<times> access_mode \<times> u64) list \<Rightarrow> lease list \<Rightarrow> bool" where
  "gateInv g ws ls \<longleftrightarrow>
     statsInv (stats g) ws ls \<and>
     (\<forall>t. owners g t = ownerEntry t ls) \<and>
     (\<forall>l\<in>set ls. holdsGate l) \<and>
     (0 < cnt isWriter ls \<longrightarrow> length ls = 1) \<and>
     length ls + length ws < 2 ^ 64"

lemma cnt_reader_writer: "cnt isReader ls + cnt isWriter ls = length ls"
proof (induction ls)
  case (Cons l ls)
  then show ?case by (cases "leaseMode l") simp_all
qed simp

lemma cnt_owner_split:
  "cnt (\<lambda>l. leaseOwner l = t) ls = cnt (\<lambda>l. isReader l \<and> leaseOwner l = t) ls + cnt (\<lambda>l. isWriter l \<and> leaseOwner l = t) ls"
proof (induction ls)
  case (Cons l ls)
  then show ?case by (cases "leaseMode l") simp_all
qed simp

lemma ownershipOf_eq:
  assumes "owners g t = ownerEntry t ls"
  shows "ownershipOf g t = \<lparr>readers = of_nat (cnt (\<lambda>l. isReader l \<and> leaseOwner l = t) ls),
                 writer = (cnt (\<lambda>l. isWriter l \<and> leaseOwner l = t) ls > 0)\<rparr>"
  using assms cnt_owner_split [of t ls] by (simp add: ownershipOf_def ownerEntry_def)

lemma unat_inc: "unat x + 1 < 2 ^ LENGTH('a) \<Longrightarrow> unat (x + 1) = Suc (unat (x :: 'a::len word))"
  by (simp add: unat_word_ariths)

lemma eligible_no_writer:
  assumes "gateInv g ws ls" "eligible mode (stats g)"
  shows "cnt isWriter ls = 0" and "mode = ReadWrite \<Longrightarrow> ls = []"
  using assms cnt_reader_writer [of ls]
  by (auto simp: gateInv_def statsInv_def eligible_def unat_eq_0 split: access_mode.splits)

lemma gateInv_grant:
  assumes inv: "gateInv g ws ls" and el: "eligible mode (stats g)" and pop: "length ls + length ws + 1 < 2 ^ 64"
  shows "gateInv (grant mode t g) ws (newLease mode t # ls)"
proof -
  note no = eligible_no_writer [OF inv el]
  have own: "owners g u = ownerEntry u ls" for u using inv by (simp add: gateInv_def)
  have ow: "ownershipOf g t = \<lparr>readers = of_nat (cnt (\<lambda>l. isReader l \<and> leaseOwner l = t) ls), writer = False\<rparr>"
    using ownershipOf_eq [OF own [of t]] no(1) cnt_mono [of "\<lambda>l. isWriter l \<and> leaseOwner l = t" isWriter ls] by simp
  have nw: "cnt (\<lambda>l. isWriter l \<and> leaseOwner l = u) ls = 0" for u
    using no(1) cnt_mono [of "\<lambda>l. isWriter l \<and> leaseOwner l = u" isWriter ls] by simp
  show ?thesis
  proof (cases mode)
    case ReadOnly
    have "unat (activeReaders (stats g) + 1) = Suc (cnt isReader ls)"
      using inv pop cnt_le [of isReader ls] by (subst unat_inc) (auto simp: gateInv_def statsInv_def)
    with ReadOnly inv no(1) pop own nw ow show ?thesis
      by (auto simp: gateInv_def statsInv_def grant_def Let_def newLease_def ownerEntry_def)
  next
    case ReadWrite
    with inv no pop own ow show ?thesis
      by (auto simp: gateInv_def statsInv_def grant_def Let_def newLease_def ownerEntry_def)
  qed
qed

lemma gateInv_enterWait:
  assumes "gateInv g ws ls" "length ls + length ws + 1 < 2 ^ 64"
  shows "gateInv (g\<lparr>stats := enterWait mode (stats g)\<rparr>) ((t, mode, st) # ws) ls"
proof -
  have "unat (waitingReaders (stats g) + 1) = Suc (cnt (waitsIn ReadOnly) ws)"
    "unat (waitingWriters (stats g) + 1) = Suc (cnt (waitsIn ReadWrite) ws)"
    using assms cnt_le [of "waitsIn ReadOnly" ws] cnt_le [of "waitsIn ReadWrite" ws]
    by (subst unat_inc, auto simp: gateInv_def statsInv_def)+
  with assms show ?thesis
    by (cases mode) (auto simp: gateInv_def statsInv_def enterWait_def)
qed

lemma gateInv_leaveWait:
  assumes "gateInv g ws ls" "(t, mode, st) \<in> set ws"
  shows "gateInv (g\<lparr>stats := leaveWait mode True started now (stats g)\<rparr>) (remove1 (t, mode, st) ws) ls"
proof -
  have "unat (waitingReaders (stats g) - 1) = cnt (waitsIn ReadOnly) ws - 1" if "mode = ReadOnly"
    using assms that cnt_pos [of _ ws "waitsIn ReadOnly"] by (subst unat_dec) (force simp: gateInv_def statsInv_def)+
  moreover have "unat (waitingWriters (stats g) - 1) = cnt (waitsIn ReadWrite) ws - 1" if "mode = ReadWrite"
    using assms that cnt_pos [of _ ws "waitsIn ReadWrite"] by (subst unat_dec) (force simp: gateInv_def statsInv_def)+
  moreover have "length (remove1 (t, mode, st) ws) \<le> length ws" by (simp add: length_remove1)
  ultimately show ?thesis using assms
    by (cases mode) (auto simp: gateInv_def statsInv_def leaveWait_def cnt_remove1)
qed

lemma gateInv_cancelled:
  "gateInv g ws ls \<Longrightarrow> gateInv (g\<lparr>stats := (stats g)\<lparr>cancelledWaits := n\<rparr>\<rparr>) ws ls"
  by (simp add: gateInv_def statsInv_def)

lemma eligible_leaveWait:
  "eligible mode st \<Longrightarrow> mode = ReadOnly \<or> mode = ReadWrite \<Longrightarrow> eligible mode (leaveWait mode w s n st)"
  by (cases mode) (auto simp: eligible_def leaveWait_def)

text \<open>One piece of an acquisition, with the entry of the waiting acquisition in \<open>ws\<close>.\<close>

lemma gateInv_round:
  fixes c now
  assumes inv: "gateInv g ws ls" and w: "(t, mode, started) \<in> set ws"
  defines "r \<equiv> acquireRound mode t c True started now g"
  shows "gateInv (gateOf (finishAcquire t mode started r (s\<lparr>waiters := remove1 (t, mode, started) ws, leases := ls\<rparr>)))
      (waiters (finishAcquire t mode started r (s\<lparr>waiters := remove1 (t, mode, started) ws, leases := ls\<rparr>)))
      (leases (finishAcquire t mode started r (s\<lparr>waiters := remove1 (t, mode, started) ws, leases := ls\<rparr>)))"
proof -
  let ?g1 = "g\<lparr>stats := leaveWait mode True started now (stats g)\<rparr>" and ?ws = "remove1 (t, mode, started) ws"
  have l: "gateInv ?g1 ?ws ls" by (rule gateInv_leaveWait [OF inv w])
  have "length ws = length ?ws + 1" using w length_pos_if_in_set [OF w] by (simp add: length_remove1)
  then have pop: "length ls + length ?ws + 1 < 2 ^ 64" using inv unfolding gateInv_def by linarith
  consider "stopped g \<or> c" | "\<not> (stopped g \<or> c)" "eligible mode (stats g)" | "\<not> (stopped g \<or> c)" "\<not> eligible mode (stats g)"
    by blast
  then show ?thesis
  proof cases
    case 1
    with gateInv_cancelled [OF l] show ?thesis
      by (simp add: r_def acquireRound_def finishAcquire_def Let_def)
  next
    case 2
    then have "eligible mode (stats ?g1)" using eligible_leaveWait [of mode "stats g"] by (cases mode) simp_all
    with 2 gateInv_grant [OF l _ pop] show ?thesis by (simp add: r_def acquireRound_def finishAcquire_def)
  next
    case 3
    have same: "cnt P ((t, mode, started) # ?ws) = cnt P ws" for P
      using w cnt_pos [OF w, of P] by (auto simp: cnt_remove1)
    with 3 inv pop show ?thesis
      by (simp add: r_def acquireRound_def finishAcquire_def gateInv_def statsInv_def same del: cnt_simps)
  qed
qed

lemma acquireStart_eq:
  "acquireStart mode t c started now g =
     (if refuses mode t g
      then (Thrown (LogicError ''Database leases do not support upgrades or recursive exclusive access''), g)
      else if eligible mode (stats g) then acquireRound mode t c False started now g
      else acquireRound mode t c True started now (g\<lparr>stats := enterWait mode (stats g)\<rparr>))"
  by (simp add: acquireStart_def Let_def)

lemma gateInv_start:
  fixes t mode started c now
  assumes inv: "gateInv (gateOf s) (waiters s) (leases s)" and pop: "population s + 1 < 2 ^ 64"
  defines "s' \<equiv> finishAcquire t mode started (acquireStart mode t c started now (gateOf s)) s"
  shows "gateInv (gateOf s') (waiters s') (leases s')"
proof -
  let ?g = "gateOf s" and ?x = "(t, mode, started)"
  have pop': "length (leases s) + length (waiters s) + 1 < 2 ^ 64" using pop by (simp add: population_def)
  consider (refused) e where "acquireStart mode t c started now ?g = (Thrown e, ?g)"
    | (free) "acquireStart mode t c started now ?g = acquireRound mode t c False started now ?g" "eligible mode (stats ?g)"
    | (waits) "acquireStart mode t c started now ?g =
        acquireRound mode t c True started now (?g\<lparr>stats := enterWait mode (stats ?g)\<rparr>)"
    unfolding acquireStart_eq by metis
  then show ?thesis
  proof cases
    case refused
    with inv show ?thesis by (simp add: s'_def finishAcquire_def)
  next
    case free
    with inv gateInv_cancelled [OF inv] gateInv_grant [OF inv free(2) pop'] show ?thesis
      by (simp add: s'_def acquireRound_def leaveWait_def finishAcquire_def Let_def)
  next
    case waits
    have "gateInv (?g\<lparr>stats := enterWait mode (stats ?g)\<rparr>) (?x # waiters s) (leases s)"
      by (rule gateInv_enterWait [OF inv pop'])
    from gateInv_round [OF this, of t mode started c now s] show ?thesis
      by (simp add: s'_def waits)
  qed
qed

lemma release_ok:
  assumes inv: "gateInv g ws ls" and l: "l \<in> set ls"
  shows "\<exists>g'. release (leaseMode l) (leaseOwner l) g = Some g' \<and> gateInv g' ws (remove1 l ls) \<and> stopped g' = stopped g"
proof -
  let ?t = "leaseOwner l"
  let ?r = "cnt (\<lambda>l. isReader l \<and> leaseOwner l = ?t) ls" and ?w = "cnt (\<lambda>l. isWriter l \<and> leaseOwner l = ?t) ls"
  have own: "owners g u = ownerEntry u ls" for u using inv by (simp add: gateInv_def)
  have pos: "0 < cnt (\<lambda>l. leaseOwner l = ?t) ls" using cnt_pos [OF l] by simp
  then have o': "owners g ?t = Some \<lparr>readers = of_nat ?r, writer = (?w > 0)\<rparr>" by (simp add: own ownerEntry_def)
  have small: "?r < 2 ^ 64" using inv cnt_le [of "\<lambda>l. isReader l \<and> leaseOwner l = ?t" ls] by (simp add: gateInv_def)
  then have ur: "unat (of_nat ?r :: u64) = ?r" by (simp add: unat_of_nat_small)
  have split: "cnt (\<lambda>l. leaseOwner l = ?t) ls = ?r + ?w" by (rule cnt_owner_split)
  have len: "length (remove1 l ls) = length ls - 1" using l by (simp add: length_remove1)
  show ?thesis
  proof (cases "leaseMode l")
    case ReadOnly
    have r: "0 < ?r" and a: "0 < cnt isReader ls" using cnt_pos [OF l] ReadOnly by simp_all
    have act: "unat (activeReaders (stats g)) = cnt isReader ls" using inv by (simp add: gateInv_def statsInv_def)
    have z: "(of_nat ?r - 1 :: u64) = of_nat (?r - 1)" using r by (simp add: of_nat_diff)
    have "unat (of_nat (?r - 1) :: u64) = ?r - 1" using small by (intro unat_of_nat_small) simp
    then have zz: "(of_nat (?r - 1) :: u64) = 0 \<longleftrightarrow> ?r = 1" using r unat_eq_0 [of "of_nat (?r - 1) :: u64"] by linarith
    have e: "activeReaders (stats g) - 1 \<le> activeReaders (stats g)"
      using act a by (simp add: word_le_nat_alt unat_dec)
    have nw: "cnt isWriter ls = 0" using inv a cnt_reader_writer [of ls] by (auto simp: gateInv_def)
    have nwt: "cnt (\<lambda>l. isWriter l \<and> leaseOwner l = u) ls = 0" for u
      using nw cnt_mono [of "\<lambda>l. isWriter l \<and> leaseOwner l = u" isWriter ls] by simp
    let ?st = "(stats g)\<lparr>activeReaders := activeReaders (stats g) - 1\<rparr>"
    let ?o = "\<lambda>u. ownerEntry u (remove1 l ls)"
    have "0 < (of_nat ?r :: u64)" "0 < activeReaders (stats g)" using r ur act a by (simp_all add: word_less_nat_alt)
    then have rel: "release ReadOnly ?t g = Some (g\<lparr>stats := ?st, owners :=
        (if ?r = 1 then (owners g)(?t := None) else (owners g)(?t \<mapsto> \<lparr>readers = of_nat (?r - 1), writer = False\<rparr>))\<rparr>)"
      using o' zz by (simp add: release_def z nwt)
    have ow: "(if ?r = 1 then (owners g)(?t := None) else (owners g)(?t \<mapsto> \<lparr>readers = of_nat (?r - 1), writer = False\<rparr>)) = ?o"
    proof (rule ext)
      fix u
      show "(if ?r = 1 then (owners g)(?t := None) else (owners g)(?t \<mapsto> \<lparr>readers = of_nat (?r - 1), writer = False\<rparr>)) u = ?o u"
        using ReadOnly r l by (auto simp: own ownerEntry_def cnt_remove1 nwt cnt_owner_split)
    qed
    have "statsInv ?st ws (remove1 l ls)"
      using inv ReadOnly l a nw e by (auto simp: gateInv_def statsInv_def cnt_remove1 act unat_dec)
    moreover have "\<forall>x\<in>set (remove1 l ls). holdsGate x" using inv notin_set_remove1 by (fastforce simp: gateInv_def)
    ultimately have "gateInv (g\<lparr>stats := ?st, owners := ?o\<rparr>) ws (remove1 l ls)"
      using inv l ReadOnly nw by (auto simp: gateInv_def len cnt_remove1)
    then show ?thesis using rel ReadOnly unfolding ow by simp
  next
    case ReadWrite
    have w: "0 < ?w" and a: "0 < cnt isWriter ls" using cnt_pos [OF l] ReadWrite by simp_all
    then have ls: "ls = [l]" using inv l by (auto simp: gateInv_def length_Suc_conv)
    with ReadWrite inv o' own show ?thesis
      by (auto simp: release_def gateInv_def statsInv_def ownerEntry_def)
  qed
qed

abbreviation sysInv :: "sys \<Rightarrow> bool" where
  "sysInv s \<equiv> gateInv (gateOf s) (waiters s) (leases s)"

lemma leaseReset_ok:
  assumes "sysInv s" "l \<in> set (leases s)"
  shows "\<exists>s'. sysStep (Reset l) s = Some s' \<and> sysInv s' \<and> leases s' = remove1 l (leases s) \<and> waiters s' = waiters s"
proof -
  from assms have "holdsGate l" by (simp add: gateInv_def)
  with release_ok [OF assms] assms(2) show ?thesis by (auto simp: leaseReset_def)
qed

lemma sysInv_step:
  assumes inv: "sysInv s" and step: "sysStep e s = Some s'"
  shows "sysInv s'"
proof (cases e)
  case (Acquire t mode c started now)
  with step gateInv_start [OF inv] show ?thesis by (auto split: if_splits simp: not_le)
next
  case (Retry t mode started c now)
  with step gateInv_round [OF inv, of t mode started c now s] show ?thesis by (auto split: if_splits)
next
  case (Reset l)
  with step have "l \<in> set (leases s)" by (auto split: if_splits)
  with leaseReset_ok [OF inv this] Reset step show ?thesis by auto
next
  case Shutdown
  with inv step show ?thesis by (auto simp: gateInv_def shutdown_def)
next
  case ResetStats
  with inv step show ?thesis by (auto simp: gateInv_def statsInv_def resetStats_def Let_def)
qed

lemma sysInv_reachable: "reachable s \<Longrightarrow> sysInv s"
proof (induction rule: reachable.induct)
  case start
  show ?case by (simp add: newSys_def newGate_def emptyStats_def gateInv_def statsInv_def ownerEntry_def)
next
  case (step s e s')
  then show ?case by (blast intro: sysInv_step)
qed

section \<open>Properties\<close>

text \<open>
  C14: Mutual exclusion and exact accounting. In every reachable state of the gate, under any
  interleaving of any threads, an exclusive lease is the only lease there is; the published
  statistics count exactly the shared leases, the exclusive lease and the waiting acquisitions.
\<close>

theorem gate_mutual_exclusion:
  assumes "reachable s"
  shows "((\<exists>l\<in>set (leases s). isWriter l) \<longrightarrow> length (leases s) = 1) \<and>
    unat (activeReaders (stats (gateOf s))) = length (filter isReader (leases s)) \<and>
    (writerActive (stats (gateOf s)) \<longleftrightarrow> (\<exists>l\<in>set (leases s). isWriter l)) \<and>
    unat (waitingReaders (stats (gateOf s))) = length (filter (waitsIn ReadOnly) (waiters s)) \<and>
    unat (waitingWriters (stats (gateOf s))) = length (filter (waitsIn ReadWrite) (waiters s))"
proof -
  have "(\<exists>l\<in>set (leases s). isWriter l) \<longleftrightarrow> 0 < cnt isWriter (leases s)"
    using cnt_0_iff [of isWriter "leases s"] by auto
  then show ?thesis
    using sysInv_reachable [OF assms] by (simp add: gateInv_def statsInv_def flip: cnt_def)
qed

definition writerHeld :: sys where
  "writerHeld = the (sysStep (Acquire 1 ReadWrite False 0 0) newSys)"

lemma writerHeld_reachable: "reachable writerHeld" "leases writerHeld = [newLease ReadWrite 1]"
  "waiters writerHeld = []" "writerActive (stats (gateOf writerHeld))"
proof -
  have s: "sysStep (Acquire 1 ReadWrite False 0 0) newSys = Some writerHeld"
    by (simp add: writerHeld_def newSys_def population_def)
  then show "reachable writerHeld" by (rule reachable.step [OF reachable.start])
  show "leases writerHeld = [newLease ReadWrite 1]"
    "waiters writerHeld = []" "writerActive (stats (gateOf writerHeld))"
    unfolding writerHeld_def
    by (simp_all add: newSys_def population_def acquireStart_eq refuses_def newGate_def emptyStats_def
        eligible_def acquireRound_def leaveWait_def grant_def finishAcquire_def Let_def)
qed

theorem gate_mutual_exclusion_witness:
  "reachable writerHeld \<and> length (leases writerHeld) = 1 \<and>
   unat (activeReaders (stats (gateOf writerHeld))) = 0 \<and> writerActive (stats (gateOf writerHeld))"
  using gate_mutual_exclusion [OF writerHeld_reachable(1)] writerHeld_reachable by (simp add: newLease_def)

lemma grant_reader_needs:
  assumes "fst (acquireRound ReadOnly t c w st now g) = Granted"
  shows "waitingWriters (stats g) = 0"
  using assms by (auto simp: acquireRound_def eligible_def split: if_splits)

lemma grant_reader_start_needs:
  assumes "fst (acquireStart ReadOnly t c st now g) = Granted"
  shows "waitingWriters (stats g) = 0"
  using assms by (auto simp: acquireStart_eq enterWait_def dest!: grant_reader_needs split: if_splits)

text \<open>
  C29: Writers are not overtaken by readers. While an exclusive acquisition waits, no step of any
  thread adds a shared lease: the readers can only drain.
\<close>

theorem gate_writer_priority:
  assumes "reachable s" "sysStep e s = Some s'" "(t, ReadWrite, started) \<in> set (waiters s)"
  shows "length (filter isReader (leases s')) \<le> length (filter isReader (leases s))"
proof -
  have "0 < cnt (waitsIn ReadWrite) (waiters s)" using cnt_pos [OF assms(3)] by simp
  then have w: "waitingWriters (stats (gateOf s)) \<noteq> 0"
    using sysInv_reachable [OF assms(1)] by (auto simp: gateInv_def statsInv_def)
  have fin: "cnt isReader (leases (finishAcquire u m st r s1)) \<le> cnt isReader (leases s1)"
    if "m = ReadOnly \<Longrightarrow> fst r \<noteq> Granted" for u m st r s1
    using that by (cases m) (auto simp: finishAcquire_def newLease_def split: acquire_result.splits)
  show ?thesis
  proof (cases e)
    case (Acquire u m c st now)
    with assms(2) w fin [of m "acquireStart m u c st now (gateOf s)" u st s] grant_reader_start_needs [of u c st now "gateOf s"]
    show ?thesis by (auto simp: cnt_def split: if_splits)
  next
    case (Retry u m st c now)
    with assms(2) w fin [of m "acquireRound m u c True st now (gateOf s)" u st "s\<lparr>waiters := remove1 (u, m, st) (waiters s)\<rparr>"]
      grant_reader_needs [of u c True st now "gateOf s"]
    show ?thesis by (auto simp: cnt_def split: if_splits)
  next
    case (Reset l)
    with assms(2) show ?thesis by (auto simp: filter_remove1 length_remove1 split: if_splits)
  qed (use assms(2) in auto)
qed

lemma writer_waits:
  "sysStep (Acquire 2 ReadWrite False 5 5) writerHeld =
     Some (writerHeld\<lparr>gateOf := (gateOf writerHeld)\<lparr>stats := enterWait ReadWrite (stats (gateOf writerHeld))\<rparr>,
       waiters := [(2, ReadWrite, 5)]\<rparr>)"
proof -
  have o: "owners (gateOf writerHeld) 2 = None"
    using sysInv_reachable [OF writerHeld_reachable(1)] writerHeld_reachable(2)
    by (simp add: gateInv_def ownerEntry_def newLease_def)
  have st: "\<not> stopped (gateOf writerHeld)"
    unfolding writerHeld_def
    by (simp add: newSys_def population_def acquireStart_eq refuses_def newGate_def emptyStats_def
        eligible_def acquireRound_def leaveWait_def grant_def finishAcquire_def Let_def)
  have r: "\<not> refuses ReadWrite 2 (gateOf writerHeld)" by (simp add: refuses_def o)
  have "\<not> eligible ReadWrite (stats (gateOf writerHeld))"
    "\<not> eligible ReadWrite (enterWait ReadWrite (stats (gateOf writerHeld)))"
    using writerHeld_reachable(4) by (simp_all add: eligible_def enterWait_def)
  with r st have "acquireStart ReadWrite 2 False 5 5 (gateOf writerHeld) =
      (Waits, (gateOf writerHeld)\<lparr>stats := enterWait ReadWrite (stats (gateOf writerHeld))\<rparr>)"
    by (simp add: acquireStart_eq acquireRound_def)
  then show ?thesis by (simp add: population_def writerHeld_reachable finishAcquire_def)
qed

definition writerWaits :: sys where
  "writerWaits = the (sysStep (Acquire 2 ReadWrite False 5 5) writerHeld)"

lemma writerWaits_simps: "reachable writerWaits" "waiters writerWaits = [(2, ReadWrite, 5)]"
  "leases writerWaits = [newLease ReadWrite 1]"
proof -
  have s: "sysStep (Acquire 2 ReadWrite False 5 5) writerHeld = Some writerWaits"
    unfolding writerWaits_def writer_waits by (rule option.sel [symmetric, THEN arg_cong])
  then show "reachable writerWaits" by (rule reachable.step [OF writerHeld_reachable(1)])
  show "waiters writerWaits = [(2, ReadWrite, 5)]" "leases writerWaits = [newLease ReadWrite 1]"
    unfolding writerWaits_def writer_waits by (simp_all add: writerHeld_reachable)
qed

theorem gate_writer_priority_witness:
  "reachable writerWaits \<and> (2, ReadWrite, 5) \<in> set (waiters writerWaits) \<and>
   (\<exists>s'. sysStep (Acquire 3 ReadOnly False 6 6) writerWaits = Some s' \<and>
      length (filter isReader (leases s')) \<le> length (filter isReader (leases writerWaits)))"
proof -
  obtain s' where s': "sysStep (Acquire 3 ReadOnly False 6 6) writerWaits = Some s'"
    by (simp add: writerWaits_simps population_def)
  have w: "(2, ReadWrite, 5) \<in> set (waiters writerWaits)" by (simp add: writerWaits_simps)
  from gate_writer_priority [OF writerWaits_simps(1) s' w] s' w writerWaits_simps(1) show ?thesis by blast
qed

text \<open>
  A thread that holds a lease never waits in the gate, so it cannot block on itself: its
  acquisition is granted, cancelled or refused at once.
\<close>

theorem gate_owner_never_waits:
  assumes "reachable s" "l \<in> set (leases s)"
    and "sysStep (Acquire (leaseOwner l) m c started now) s = Some s'"
  shows "waiters s' = waiters s"
proof -
  let ?t = "leaseOwner l" and ?g = "gateOf s"
  have inv: "sysInv s" using assms(1) by (rule sysInv_reachable)
  have own: "owners ?g ?t = Some \<lparr>readers = of_nat (cnt (\<lambda>k. isReader k \<and> leaseOwner k = ?t) (leases s)),
                 writer = (cnt (\<lambda>k. isWriter k \<and> leaseOwner k = ?t) (leases s) > 0)\<rparr>"
    using inv cnt_pos [OF assms(2), of "\<lambda>k. leaseOwner k = ?t"] by (simp add: gateInv_def ownerEntry_def)
  have "fst (acquireStart m ?t c started now ?g) \<noteq> Waits"
  proof (cases "refuses m ?t ?g")
    case False
    then have m: "m = ReadOnly" "waitingWriters (stats ?g) = 0"
      and nw: "cnt (\<lambda>k. isWriter k \<and> leaseOwner k = ?t) (leases s) = 0"
      by (simp_all add: refuses_def own) (metis access_mode.exhaust)
    have "\<not> writerActive (stats ?g)"
    proof
      assume "writerActive (stats ?g)"
      then have "0 < cnt isWriter (leases s)" "length (leases s) = 1" using inv by (simp_all add: gateInv_def statsInv_def)
      then have "leases s = [l]" "isWriter l" using assms(2) by (auto simp: length_Suc_conv split: if_splits)
      with nw show False by simp
    qed
    with m have "eligible m (stats ?g)" by (simp add: eligible_def)
    with False show ?thesis by (simp add: acquireStart_eq acquireRound_def)
  qed (simp add: acquireStart_eq)
  with assms(3) show ?thesis by (auto simp: finishAcquire_def split: if_splits acquire_result.splits)
qed

theorem gate_owner_never_waits_witness:
  "reachable writerHeld \<and> newLease ReadWrite 1 \<in> set (leases writerHeld) \<and>
   (\<exists>s'. sysStep (Acquire (leaseOwner (newLease ReadWrite 1)) ReadOnly False 7 7) writerHeld = Some s' \<and>
      waiters s' = waiters writerHeld)"
proof -
  have l: "newLease ReadWrite 1 \<in> set (leases writerHeld)" by (simp add: writerHeld_reachable)
  obtain s' where s': "sysStep (Acquire (leaseOwner (newLease ReadWrite 1)) ReadOnly False 7 7) writerHeld = Some s'"
    by (simp add: writerHeld_reachable population_def)
  from gate_owner_never_waits [OF writerHeld_reachable(1) l s'] s' l writerHeld_reachable(1) show ?thesis by blast
qed

section \<open>Draining\<close>

fun sysRun :: "event list \<Rightarrow> sys \<Rightarrow> sys option" where
  "sysRun [] s = Some s"
| "sysRun (e # es) s = Option.bind (sysStep e s) (sysRun es)"

definition drainEvent :: "event \<Rightarrow> bool" where
  "drainEvent e \<longleftrightarrow> (case e of Reset l \<Rightarrow> True | Retry t m st c now \<Rightarrow> \<not> c | _ \<Rightarrow> False)"

lemma sysRun_append: "sysRun (es @ fs) s = Option.bind (sysRun es s) (sysRun fs)"
  by (induction es arbitrary: s) (auto split: bind_splits)

lemma reset_all:
  "sysInv s \<Longrightarrow> \<exists>es s'. sysRun es s = Some s' \<and> sysInv s' \<and> leases s' = [] \<and> waiters s' = waiters s \<and>
     (\<forall>e\<in>set es. drainEvent e)"
proof (induction "leases s" arbitrary: s)
  case Nil
  then show ?case by (intro exI [of _ "[]"]) auto
next
  case (Cons l ls)
  then have "l \<in> set (leases s)" by (metis list.set_intros(1))
  from leaseReset_ok [OF Cons.prems this] obtain s1 where s1: "sysStep (Reset l) s = Some s1" "sysInv s1"
    "leases s1 = remove1 l (leases s)" "waiters s1 = waiters s" by blast
  from s1(3) Cons.hyps(2) have "ls = leases s1" by (metis remove1.simps(2))
  from Cons.hyps(1) [OF this s1(2)] obtain es s' where "sysRun es s1 = Some s'" "sysInv s'" "leases s' = []"
    "waiters s' = waiters s1" "\<forall>e\<in>set es. drainEvent e" by blast
  with s1 show ?case by (intro exI [of _ "Reset l # es"] exI [of _ s']) (auto simp: drainEvent_def)
qed

text \<open>With no lease left, a waiting writer - or any waiter, if no writer waits - leaves the queue.\<close>

lemma retry_leaves:
  assumes inv: "sysInv s" and free: "leases s = []" and w: "(t, m, st) \<in> set (waiters s)"
    and turn: "m = ReadWrite \<or> (\<forall>x\<in>set (waiters s). \<not> waitsIn ReadWrite x)"
  shows "\<exists>s'. sysStep (Retry t m st False now) s = Some s' \<and> waiters s' = remove1 (t, m, st) (waiters s) \<and>
    leases s' = (if stopped (gateOf s) then [] else [newLease m t])"
proof -
  from inv free have "\<not> writerActive (stats (gateOf s))" "activeReaders (stats (gateOf s)) = 0"
    by (simp_all add: gateInv_def statsInv_def unat_eq_0)
  moreover from inv turn have "m = ReadOnly \<Longrightarrow> waitingWriters (stats (gateOf s)) = 0"
    using cnt_0_iff [of "waitsIn ReadWrite" "waiters s"] by (auto simp: gateInv_def statsInv_def unat_eq_0)
  ultimately have "eligible m (stats (gateOf s))" by (cases m) (simp_all add: eligible_def)
  with w free show ?thesis by (simp add: acquireRound_def finishAcquire_def)
qed

text \<open>
  C30: The gate cannot deadlock. From every reachable state - whatever the waiting acquisitions and
  the leases - releasing leases and letting waiting threads wake up, without any cancellation,
  leads to a state in which nobody waits and nobody holds a lease.
\<close>

theorem gate_can_drain:
  assumes "reachable s"
  shows "\<exists>es s'. sysRun es s = Some s' \<and> waiters s' = [] \<and> leases s' = [] \<and> (\<forall>e\<in>set es. drainEvent e)"
  using sysInv_reachable [OF assms]
proof (induction "length (waiters s)" arbitrary: s)
  case 0
  then show ?case using reset_all [of s] by auto
next
  case (Suc n)
  from reset_all [OF Suc.prems] obtain es s1 where s1: "sysRun es s = Some s1" "sysInv s1" "leases s1 = []"
    "waiters s1 = waiters s" "\<forall>e\<in>set es. drainEvent e" by blast
  obtain t m st where w: "(t, m, st) \<in> set (waiters s1)"
    and turn: "m = ReadWrite \<or> (\<forall>x\<in>set (waiters s1). \<not> waitsIn ReadWrite x)"
  proof (cases "\<exists>x\<in>set (waiters s1). waitsIn ReadWrite x")
    case True
    then show ?thesis using that by (metis prod.collapse)
  next
    case False
    moreover have "hd (waiters s1) \<in> set (waiters s1)" using Suc.hyps(2) s1(4) by (intro hd_in_set) auto
    ultimately show ?thesis using that by (metis prod.collapse)
  qed
  from retry_leaves [OF s1(2,3) w turn] obtain s2 where s2: "sysStep (Retry t m st False 0) s1 = Some s2"
    "waiters s2 = remove1 (t, m, st) (waiters s1)" by blast
  have "n = length (waiters s2)" using s2(2) w s1(4) Suc.hyps(2) by (simp add: length_remove1)
  from Suc.hyps(1) [OF this sysInv_step [OF s1(2) s2(1)]] obtain fs s' where "sysRun fs s2 = Some s'" "waiters s' = []"
    "leases s' = []" "\<forall>e\<in>set fs. drainEvent e" by blast
  with s1 s2 show ?case
    by (intro exI [of _ "es @ Retry t m st False 0 # fs"] exI [of _ s']) (auto simp: sysRun_append drainEvent_def)
qed

theorem gate_can_drain_witness:
  "reachable writerWaits \<and> waiters writerWaits \<noteq> [] \<and>
   (\<exists>es s'. sysRun es writerWaits = Some s' \<and> waiters s' = [] \<and> leases s' = [] \<and> (\<forall>e\<in>set es. drainEvent e))"
  using gate_can_drain [OF writerWaits_simps(1)] writerWaits_simps by simp

end
