(* ===== verification/Sql_Lexer.thy ===== *)
theory Sql_Lexer
  imports Prelude "HOL-Library.Char_ord"
begin

text \<open>
  The SQL lexer of \<open>sql_lexer.cpp\<close>: source text to tokens with exact source spans.

  The lexer object is a record of its members; its loops are recursive functions that end because
  every round advances the position. A character past the end reads as NUL, as \<open>peek\<close> does.
\<close>

section \<open>Tokens\<close>

datatype token_kind =
    TokEndOfFile | TokIdentifier | TokInteger | TokString
  | TokCreate | TokTable | TokInsert | TokInto | TokValues | TokSelect | TokFrom | TokWhere | TokUpdate | TokSet
  | TokDelete | TokPrimary | TokKey | TokNot | TokNull | TokUint32 | TokInt64 | TokBoolean | TokVarchar | TokTrue
  | TokFalse | TokAnd | TokOr | TokBegin | TokTransaction | TokCommit | TokRollback | TokRead | TokOnly | TokWrite
  | TokLeftParen | TokRightParen | TokComma | TokSemicolon | TokStar | TokEqual | TokBangEqual | TokLessGreater
  | TokLess | TokLessEqual | TokGreater | TokGreaterEqual | TokMinus

record token =
  tokKind :: token_kind
  tokLexeme :: string
  tokValue :: string
  tokSpan :: source_span

definition KEYWORDS :: "(string \<times> token_kind) list" where
  "KEYWORDS =
     [(''CREATE'', TokCreate), (''TABLE'', TokTable), (''INSERT'', TokInsert), (''INTO'', TokInto),
      (''VALUES'', TokValues), (''SELECT'', TokSelect), (''FROM'', TokFrom), (''WHERE'', TokWhere),
      (''UPDATE'', TokUpdate), (''SET'', TokSet), (''DELETE'', TokDelete), (''PRIMARY'', TokPrimary),
      (''KEY'', TokKey), (''NOT'', TokNot), (''NULL'', TokNull), (''UINT32'', TokUint32), (''INT64'', TokInt64),
      (''BOOLEAN'', TokBoolean), (''VARCHAR'', TokVarchar), (''TRUE'', TokTrue), (''FALSE'', TokFalse),
      (''AND'', TokAnd), (''OR'', TokOr), (''BEGIN'', TokBegin), (''READ'', TokRead), (''ONLY'', TokOnly),
      (''WRITE'', TokWrite), (''TRANSACTION'', TokTransaction), (''COMMIT'', TokCommit),
      (''ROLLBACK'', TokRollback)]"

definition isIdentifierStart :: "char \<Rightarrow> bool" where
  "isIdentifierStart c \<longleftrightarrow> (CHR ''A'' \<le> c \<and> c \<le> CHR ''Z'') \<or> (CHR ''a'' \<le> c \<and> c \<le> CHR ''z'') \<or> c = CHR ''_''"

definition isIdentifierContinue :: "char \<Rightarrow> bool" where
  "isIdentifierContinue c \<longleftrightarrow> isIdentifierStart c \<or> (CHR ''0'' \<le> c \<and> c \<le> CHR ''9'')"

definition isDigit :: "char \<Rightarrow> bool" where
  "isDigit c \<longleftrightarrow> CHR ''0'' \<le> c \<and> c \<le> CHR ''9''"

definition asciiUpper :: "char \<Rightarrow> char" where
  "asciiUpper c =
     (if CHR ''a'' \<le> c \<and> c \<le> CHR ''z'' then char_of (of_char c - of_char CHR ''a'' + of_char CHR ''A'' :: nat) else c)"

fun keywordScan :: "(string \<times> token_kind) list \<Rightarrow> string \<Rightarrow> token_kind" where
  "keywordScan [] lexeme = TokIdentifier"
| "keywordScan ((spelling, kind) # ks) lexeme =
     (if length spelling \<noteq> length lexeme then keywordScan ks lexeme
      else if map asciiUpper lexeme = spelling then kind
      else keywordScan ks lexeme)"

definition keywordKind :: "string \<Rightarrow> token_kind" where
  "keywordKind lexeme = keywordScan KEYWORDS lexeme"

fun tokenKindName :: "token_kind \<Rightarrow> string" where
  "tokenKindName TokEndOfFile = ''end of input''"
| "tokenKindName TokIdentifier = ''identifier''"
| "tokenKindName TokInteger = ''integer''"
| "tokenKindName TokString = ''string''"
| "tokenKindName TokCreate = ''CREATE''"
| "tokenKindName TokTable = ''TABLE''"
| "tokenKindName TokInsert = ''INSERT''"
| "tokenKindName TokInto = ''INTO''"
| "tokenKindName TokValues = ''VALUES''"
| "tokenKindName TokSelect = ''SELECT''"
| "tokenKindName TokFrom = ''FROM''"
| "tokenKindName TokWhere = ''WHERE''"
| "tokenKindName TokUpdate = ''UPDATE''"
| "tokenKindName TokSet = ''SET''"
| "tokenKindName TokDelete = ''DELETE''"
| "tokenKindName TokPrimary = ''PRIMARY''"
| "tokenKindName TokKey = ''KEY''"
| "tokenKindName TokNot = ''NOT''"
| "tokenKindName TokNull = ''NULL''"
| "tokenKindName TokUint32 = ''UINT32''"
| "tokenKindName TokInt64 = ''INT64''"
| "tokenKindName TokBoolean = ''BOOLEAN''"
| "tokenKindName TokVarchar = ''VARCHAR''"
| "tokenKindName TokTrue = ''TRUE''"
| "tokenKindName TokFalse = ''FALSE''"
| "tokenKindName TokAnd = ''AND''"
| "tokenKindName TokOr = ''OR''"
| "tokenKindName TokBegin = ''BEGIN''"
| "tokenKindName TokRead = ''READ''"
| "tokenKindName TokOnly = ''ONLY''"
| "tokenKindName TokWrite = ''WRITE''"
| "tokenKindName TokTransaction = ''TRANSACTION''"
| "tokenKindName TokCommit = ''COMMIT''"
| "tokenKindName TokRollback = ''ROLLBACK''"
| "tokenKindName TokLeftParen = ''(''"
| "tokenKindName TokRightParen = '')''"
| "tokenKindName TokComma = '',''"
| "tokenKindName TokSemicolon = '';''"
| "tokenKindName TokStar = ''*''"
| "tokenKindName TokEqual = ''=''"
| "tokenKindName TokBangEqual = ''!=''"
| "tokenKindName TokLessGreater = ''<>''"
| "tokenKindName TokLess = ''<''"
| "tokenKindName TokLessEqual = ''<=''"
| "tokenKindName TokGreater = ''>''"
| "tokenKindName TokGreaterEqual = ''>=''"
| "tokenKindName TokMinus = ''-''"

section \<open>The lexer object\<close>

record lexer =
  source :: string
  lexCurrent :: nat
  lexLine :: nat
  lexColumn :: nat
  previousWasCarriageReturn :: bool

abbreviation NUL :: char where "NUL \<equiv> CHR 0x00"
abbreviation TAB :: char where "TAB \<equiv> CHR 0x09"
abbreviation LF :: char where "LF \<equiv> CHR 0x0A"
abbreviation CR :: char where "CR \<equiv> CHR 0x0D"
abbreviation QUOTE :: char where "QUOTE \<equiv> CHR 0x27"
abbreviation MAX_INTEGER_DIGITS :: nat where "MAX_INTEGER_DIGITS \<equiv> 1024"

definition newLexer :: "string \<Rightarrow> lexer" where
  "newLexer text = \<lparr>source = text, lexCurrent = 0, lexLine = 1, lexColumn = 1, previousWasCarriageReturn = False\<rparr>"

definition atEnd :: "lexer \<Rightarrow> bool" where
  "atEnd l \<longleftrightarrow> lexCurrent l \<ge> length (source l)"

definition peekChar :: "lexer \<Rightarrow> nat \<Rightarrow> char" where
  "peekChar l lookahead = (if lexCurrent l + lookahead < length (source l) then source l ! (lexCurrent l + lookahead) else NUL)"

definition location :: "lexer \<Rightarrow> source_location" where
  "location l = \<lparr>srcOffset = lexCurrent l, srcLine = lexLine l, srcColumn = lexColumn l\<rparr>"

definition advanceChar :: "lexer \<Rightarrow> char \<times> lexer" where
  "advanceChar l =
     (let c = source l ! lexCurrent l; l1 = l\<lparr>lexCurrent := lexCurrent l + 1\<rparr> in
      (c,
       if c = CR then l1\<lparr>lexLine := lexLine l + 1, lexColumn := 1, previousWasCarriageReturn := True\<rparr>
       else if c = LF then
         l1\<lparr>lexLine := (if previousWasCarriageReturn l then lexLine l else lexLine l + 1),
            lexColumn := 1, previousWasCarriageReturn := False\<rparr>
       else l1\<lparr>lexColumn := lexColumn l + 1, previousWasCarriageReturn := False\<rparr>))"

abbreviation skipChar :: "lexer \<Rightarrow> lexer" where "skipChar l \<equiv> snd (advanceChar l)"

definition matchChar :: "lexer \<Rightarrow> char \<Rightarrow> bool \<times> lexer" where
  "matchChar l expected = (if atEnd l \<or> peekChar l 0 \<noteq> expected then (False, l) else (True, skipChar l))"

definition makeToken :: "lexer \<Rightarrow> token_kind \<Rightarrow> source_location \<Rightarrow> token" where
  "makeToken l kind start =
     (let lexeme = subspan (source l) (srcOffset start) (lexCurrent l - srcOffset start) in
      \<lparr>tokKind = kind, tokLexeme = lexeme, tokValue = lexeme, tokSpan = \<lparr>spanBegin = start, spanEnd = location l\<rparr>\<rparr>)"

definition lexFail :: "lexer \<Rightarrow> string \<Rightarrow> source_location \<Rightarrow> 'a res" where
  "lexFail l message start = Inl (SqlError Lexer message \<lparr>spanBegin = start, spanEnd = location l\<rparr>)"

lemma skipChar_fields [simp]:
  "source (skipChar l) = source l" "lexCurrent (skipChar l) = lexCurrent l + 1"
  by (simp_all add: advanceChar_def Let_def)

lemma peek_less: "peekChar l k \<noteq> NUL \<Longrightarrow> lexCurrent l + k < length (source l)"
  by (simp add: peekChar_def split: if_splits)

section \<open>Skipping blanks and comments\<close>

function skipLine :: "lexer \<Rightarrow> lexer" where
  "skipLine l = (if \<not> atEnd l \<and> peekChar l 0 \<noteq> CR \<and> peekChar l 0 \<noteq> LF then skipLine (skipChar l) else l)"
  by auto
termination by (relation "measure (\<lambda>l. length (source l) - lexCurrent l)") (auto simp: atEnd_def)

function skipBlock :: "lexer \<Rightarrow> lexer" where
  "skipBlock l =
     (if \<not> atEnd l \<and> \<not> (peekChar l 0 = CHR ''*'' \<and> peekChar l 1 = CHR ''/'') then skipBlock (skipChar l) else l)"
  by auto
termination by (relation "measure (\<lambda>l. length (source l) - lexCurrent l)") (auto simp: atEnd_def)

declare skipLine.simps [simp del] skipBlock.simps [simp del]

lemma skipLine_mono: "lexCurrent l \<le> lexCurrent (skipLine l) \<and> source (skipLine l) = source l"
proof (induction l rule: skipLine.induct)
  case (1 l)
  then show ?case by (subst (1 2) skipLine.simps) auto
qed

lemma skipBlock_mono: "lexCurrent l \<le> lexCurrent (skipBlock l) \<and> source (skipBlock l) = source l"
proof (induction l rule: skipBlock.induct)
  case (1 l)
  then show ?case by (subst (1 2) skipBlock.simps) auto
qed

function skipIgnored :: "lexer \<Rightarrow> lexer res" where
  "skipIgnored l =
     (if atEnd l then Inr l
      else
        let c = peekChar l 0 in
        if c = CHR '' '' \<or> c = TAB \<or> c = CR \<or> c = LF then skipIgnored (skipChar l)
        else if c = CHR ''-'' \<and> peekChar l 1 = CHR ''-'' then skipIgnored (skipLine (skipChar (skipChar l)))
        else if c = CHR ''/'' \<and> peekChar l 1 = CHR ''*'' then
          let start = location l; l1 = skipBlock (skipChar (skipChar l)) in
          if atEnd l1 then lexFail l1 ''unterminated block comment'' start
          else skipIgnored (skipChar (skipChar l1))
        else Inr l)"
  by auto
termination
proof (relation "measure (\<lambda>l. length (source l) - lexCurrent l)", goal_cases)
  case (3 l c)
  then show ?case using skipLine_mono [of "skipChar (skipChar l)"] by (auto simp: atEnd_def)
next
  case (4 l c x xa)
  then show ?case using skipBlock_mono [of "skipChar (skipChar l)"] by (auto simp: atEnd_def)
qed (auto simp: atEnd_def)

declare skipIgnored.simps [simp del]

section \<open>Scanning tokens\<close>

function identLoop :: "lexer \<Rightarrow> lexer" where
  "identLoop l = (if isIdentifierContinue (peekChar l 0) then identLoop (skipChar l) else l)"
  by auto
termination
  by (relation "measure (\<lambda>l. length (source l) - lexCurrent l)")
    (auto simp: peekChar_def isIdentifierContinue_def isIdentifierStart_def less_eq_char_def split: if_splits)

function digitLoop :: "lexer \<Rightarrow> lexer" where
  "digitLoop l = (if isDigit (peekChar l 0) then digitLoop (skipChar l) else l)"
  by auto
termination
  by (relation "measure (\<lambda>l. length (source l) - lexCurrent l)")
    (auto simp: peekChar_def isDigit_def less_eq_char_def split: if_splits)

declare identLoop.simps [simp del] digitLoop.simps [simp del]

definition scanIdentifier :: "source_location \<Rightarrow> lexer \<Rightarrow> token \<times> lexer" where
  "scanIdentifier start l =
     (let l1 = identLoop l in
      (makeToken l1 (keywordKind (subspan (source l1) (srcOffset start) (lexCurrent l1 - srcOffset start))) start, l1))"

definition scanInteger :: "source_location \<Rightarrow> lexer \<Rightarrow> (token \<times> lexer) res" where
  "scanInteger start l =
     (let l1 = digitLoop l in
      if lexCurrent l1 - srcOffset start > MAX_INTEGER_DIGITS
      then lexFail l1 ''integer literal exceeds the 1024-digit lexical limit'' start
      else Inr (makeToken l1 TokInteger start, l1))"

function scanString :: "source_location \<Rightarrow> string \<Rightarrow> lexer \<Rightarrow> (token \<times> lexer) res" where
  "scanString start decoded l =
     (if atEnd l then lexFail l ''unterminated string literal'' start
      else
        let c = fst (advanceChar l); l1 = skipChar l in
        if c \<noteq> QUOTE then scanString start (decoded @ [c]) l1
        else if peekChar l1 0 = QUOTE then scanString start (decoded @ [QUOTE]) (skipChar l1)
        else Inr ((makeToken l1 TokString start)\<lparr>tokValue := decoded\<rparr>, l1))"
  by auto
termination by (relation "measure (\<lambda>(_, _, l). length (source l) - lexCurrent l)") (auto simp: atEnd_def)

declare scanString.simps [simp del]

definition scanToken :: "lexer \<Rightarrow> (token \<times> lexer) res" where
  "scanToken l =
     (let start = location l; c = fst (advanceChar l); l1 = skipChar l in
      if isIdentifierStart c then Inr (scanIdentifier start l1)
      else if isDigit c then scanInteger start l1
      else if c = QUOTE then scanString start [] l1
      else if c = CHR ''('' then Inr (makeToken l1 TokLeftParen start, l1)
      else if c = CHR '')'' then Inr (makeToken l1 TokRightParen start, l1)
      else if c = CHR '','' then Inr (makeToken l1 TokComma start, l1)
      else if c = CHR '';'' then Inr (makeToken l1 TokSemicolon start, l1)
      else if c = CHR ''*'' then Inr (makeToken l1 TokStar start, l1)
      else if c = CHR ''='' then Inr (makeToken l1 TokEqual start, l1)
      else if c = CHR ''-'' then Inr (makeToken l1 TokMinus start, l1)
      else if c = CHR ''!'' then
        let (matched, l2) = matchChar l1 (CHR ''='') in
        if \<not> matched then lexFail l2 (''unexpected '' @ [QUOTE] @ ''!'' @ [QUOTE] @ ''; only '' @ [QUOTE] @ ''!='' @ [QUOTE] @ '' is supported'') start
        else Inr (makeToken l2 TokBangEqual start, l2)
      else if c = CHR ''<'' then
        let (equal, l2) = matchChar l1 (CHR ''='') in
        if equal then Inr (makeToken l2 TokLessEqual start, l2)
        else
          let (greater, l3) = matchChar l2 (CHR ''>'') in
          if greater then Inr (makeToken l3 TokLessGreater start, l3)
          else Inr (makeToken l3 TokLess start, l3)
      else if c = CHR ''>'' then
        let (equal, l2) = matchChar l1 (CHR ''='') in
        Inr (makeToken l2 (if equal then TokGreaterEqual else TokGreater) start, l2)
      else lexFail l1 ''unexpected character'' start)"

lemma identLoop_mono: "lexCurrent l \<le> lexCurrent (identLoop l) \<and> source (identLoop l) = source l"
proof (induction l rule: identLoop.induct)
  case (1 l)
  then show ?case by (subst (1 2) identLoop.simps) auto
qed

lemma digitLoop_mono: "lexCurrent l \<le> lexCurrent (digitLoop l) \<and> source (digitLoop l) = source l"
proof (induction l rule: digitLoop.induct)
  case (1 l)
  then show ?case by (subst (1 2) digitLoop.simps) auto
qed

abbreviation isBlank :: "char \<Rightarrow> bool" where
  "isBlank c \<equiv> c = CHR '' '' \<or> c = TAB \<or> c = CR \<or> c = LF"

text \<open>The rounds of \<open>skipIgnored\<close>, one equation per kind of round.\<close>

lemma skipIgnored_rounds:
  shows skipIgnored_end: "atEnd l \<Longrightarrow> skipIgnored l = Inr l"
    and skipIgnored_blank: "\<not> atEnd l \<Longrightarrow> isBlank (peekChar l 0) \<Longrightarrow> skipIgnored l = skipIgnored (skipChar l)"
    and skipIgnored_line: "\<not> atEnd l \<Longrightarrow> peekChar l 0 = CHR ''-'' \<Longrightarrow> peekChar l 1 = CHR ''-'' \<Longrightarrow>
      skipIgnored l = skipIgnored (skipLine (skipChar (skipChar l)))"
    and skipIgnored_block: "\<not> atEnd l \<Longrightarrow> peekChar l 0 = CHR ''/'' \<Longrightarrow> peekChar l 1 = CHR ''*'' \<Longrightarrow>
      skipIgnored l =
        (if atEnd (skipBlock (skipChar (skipChar l)))
         then lexFail (skipBlock (skipChar (skipChar l))) ''unterminated block comment'' (location l)
         else skipIgnored (skipChar (skipChar (skipBlock (skipChar (skipChar l))))))"
    and skipIgnored_stop: "\<not> atEnd l \<Longrightarrow> \<not> isBlank (peekChar l 0) \<Longrightarrow>
      \<not> (peekChar l 0 = CHR ''-'' \<and> peekChar l 1 = CHR ''-'') \<Longrightarrow>
      \<not> (peekChar l 0 = CHR ''/'' \<and> peekChar l 1 = CHR ''*'') \<Longrightarrow> skipIgnored l = Inr l"
  by (subst skipIgnored.simps, auto simp: Let_def)+

lemma skipIgnored_cases:
  obtains (finished) "atEnd l"
  | (blank) "\<not> atEnd l" "isBlank (peekChar l 0)"
  | (line) "\<not> atEnd l" "peekChar l 0 = CHR ''-''" "peekChar l 1 = CHR ''-''"
  | (block) "\<not> atEnd l" "peekChar l 0 = CHR ''/''" "peekChar l 1 = CHR ''*''"
  | (stop) "\<not> atEnd l" "\<not> isBlank (peekChar l 0)"
      "\<not> (peekChar l 0 = CHR ''-'' \<and> peekChar l 1 = CHR ''-'')" "\<not> (peekChar l 0 = CHR ''/'' \<and> peekChar l 1 = CHR ''*'')"
  by blast

lemma lex_smaller:
  "\<not> atEnd l \<Longrightarrow> lexCurrent l < lexCurrent l' \<Longrightarrow> source l' = source l \<Longrightarrow>
   length (source l') - lexCurrent l' < length (source l) - lexCurrent l"
  by (simp add: atEnd_def diff_less_mono2)

lemma skipIgnored_mono:
  "skipIgnored l = Inr l' \<Longrightarrow> lexCurrent l \<le> lexCurrent l' \<and> source l' = source l"
proof (induction "length (source l) - lexCurrent l" arbitrary: l rule: less_induct)
  case less
  note smaller = less.hyps [OF lex_smaller]
  show ?case
  proof (cases l rule: skipIgnored_cases)
    case finished
    with less.prems show ?thesis by (simp add: skipIgnored_end)
  next
    case blank
    with less.prems smaller [of "skipChar l"] show ?thesis by (simp add: skipIgnored_blank)
  next
    case line
    with less.prems smaller [of "skipLine (skipChar (skipChar l))"] show ?thesis
      using skipLine_mono [of "skipChar (skipChar l)"] by (simp add: skipIgnored_line)
  next
    case block
    with less.prems smaller [of "skipChar (skipChar (skipBlock (skipChar (skipChar l))))"] show ?thesis
      using skipBlock_mono [of "skipChar (skipChar l)"]
      by (simp add: skipIgnored_block lexFail_def split: if_splits)
  next
    case stop
    with less.prems show ?thesis by (simp add: skipIgnored_stop)
  qed
qed

abbreviation headChar :: "lexer \<Rightarrow> char" where "headChar l \<equiv> fst (advanceChar l)"

lemma scanString_rounds:
  shows scanString_end: "atEnd l \<Longrightarrow> scanString start d l = lexFail l ''unterminated string literal'' start"
    and scanString_plain: "\<not> atEnd l \<Longrightarrow> headChar l \<noteq> QUOTE \<Longrightarrow>
      scanString start d l = scanString start (d @ [headChar l]) (skipChar l)"
    and scanString_double: "\<not> atEnd l \<Longrightarrow> headChar l = QUOTE \<Longrightarrow> peekChar (skipChar l) 0 = QUOTE \<Longrightarrow>
      scanString start d l = scanString start (d @ [QUOTE]) (skipChar (skipChar l))"
    and scanString_close: "\<not> atEnd l \<Longrightarrow> headChar l = QUOTE \<Longrightarrow> peekChar (skipChar l) 0 \<noteq> QUOTE \<Longrightarrow>
      scanString start d l = Inr ((makeToken (skipChar l) TokString start)\<lparr>tokValue := d\<rparr>, skipChar l)"
  by (subst scanString.simps, simp add: Let_def)+

lemma scanString_cases:
  obtains (finished) "atEnd l"
  | (plain) "\<not> atEnd l" "headChar l \<noteq> QUOTE"
  | (double) "\<not> atEnd l" "headChar l = QUOTE" "peekChar (skipChar l) 0 = QUOTE"
  | (close) "\<not> atEnd l" "headChar l = QUOTE" "peekChar (skipChar l) 0 \<noteq> QUOTE"
  by blast

lemma scanString_mono:
  "scanString start d l = Inr (t, l') \<Longrightarrow> lexCurrent l \<le> lexCurrent l' \<and> source l' = source l"
proof (induction "length (source l) - lexCurrent l" arbitrary: l d rule: less_induct)
  case less
  note smaller = less.hyps [OF lex_smaller]
  show ?case
  proof (cases l rule: scanString_cases)
    case finished
    with less.prems show ?thesis by (simp add: scanString_end lexFail_def)
  next
    case plain
    with less.prems smaller [of "skipChar l" "d @ [headChar l]"] show ?thesis by (simp add: scanString_plain)
  next
    case double
    with less.prems smaller [of "skipChar (skipChar l)" "d @ [QUOTE]"] show ?thesis by (simp add: scanString_double)
  next
    case close
    with less.prems show ?thesis by (auto simp: scanString_close)
  qed
qed

lemma matchChar_mono: "matchChar l c = (b, l') \<Longrightarrow> lexCurrent l \<le> lexCurrent l' \<and> source l' = source l"
  by (auto simp: matchChar_def split: if_splits)

lemma scanToken_mono:
  assumes "scanToken l = Inr (t, l')"
  shows "lexCurrent l < lexCurrent l' \<and> source l' = source l"
  using assms identLoop_mono [of "skipChar l"] digitLoop_mono [of "skipChar l"] scanString_mono [of "location l" "[]" "skipChar l" t l']
  by (auto simp: scanToken_def scanIdentifier_def scanInteger_def lexFail_def Let_def
      dest!: matchChar_mono split: if_splits prod.splits)

function tokenizeLoop :: "lexer \<Rightarrow> token list \<Rightarrow> token list res" where
  "tokenizeLoop l tokens =
     res_bind (skipIgnored l) (\<lambda>l1.
       if atEnd l1 then
         Inr (tokens @ [\<lparr>tokKind = TokEndOfFile, tokLexeme = [], tokValue = [],
                         tokSpan = \<lparr>spanBegin = location l1, spanEnd = location l1\<rparr>\<rparr>])
       else res_bind (scanToken l1) (\<lambda>(token, l2). tokenizeLoop l2 (tokens @ [token])))"
  by auto
termination
  by (relation "measure (\<lambda>(l, _). length (source l) - lexCurrent l)")
    (auto simp: atEnd_def dest!: skipIgnored_mono scanToken_mono)

declare tokenizeLoop.simps [simp del]

definition tokenize :: "string \<Rightarrow> token list res" where
  "tokenize text = tokenizeLoop (newLexer text) []"

section \<open>Positions\<close>

text \<open>
  What lines and columns mean, independently of how the lexer counts them: a carriage return ends
  a line, and so does a line feed that does not follow one; columns count from the last of either.
\<close>

definition breaksLine :: "string \<Rightarrow> nat \<Rightarrow> bool" where
  "breaksLine text i \<longleftrightarrow> text ! i = CR \<or> (text ! i = LF \<and> \<not> (0 < i \<and> text ! (i - 1) = CR))"

definition locate :: "string \<Rightarrow> nat \<Rightarrow> source_location" where
  "locate text n =
     \<lparr>srcOffset = n,
      srcLine = 1 + length (filter (breaksLine text) [0..<n]),
      srcColumn = 1 + length (takeWhile (\<lambda>c. c \<noteq> CR \<and> c \<noteq> LF) (rev (take n text)))\<rparr>"

text \<open>The lexer at a position of a text: everything else about its state follows from that.\<close>

definition lexAt :: "string \<Rightarrow> nat \<Rightarrow> lexer" where
  "lexAt text n =
     \<lparr>source = text, lexCurrent = n, lexLine = srcLine (locate text n), lexColumn = srcColumn (locate text n),
      previousWasCarriageReturn = (0 < n \<and> text ! (n - 1) = CR)\<rparr>"

lemma lexAt_simps [simp]:
  "source (lexAt text n) = text" "lexCurrent (lexAt text n) = n"
  "atEnd (lexAt text n) \<longleftrightarrow> length text \<le> n"
  "location (lexAt text n) = locate text n"
  "newLexer text = lexAt text 0"
  by (simp_all add: lexAt_def atEnd_def location_def locate_def newLexer_def)

lemma skipChar_lexAt [simp]: "n < length text \<Longrightarrow> advanceChar (lexAt text n) = (text ! n, lexAt text (Suc n))"
  by (simp add: advanceChar_def lexAt_def Let_def locate_def take_Suc_conv_app_nth breaksLine_def)

lemma srcOffset_locate [simp]: "srcOffset (locate text n) = n"
  by (simp add: locate_def)

lemma drop_ConsD: "drop n xs = c # ys \<Longrightarrow> n < length xs \<and> xs ! n = c \<and> drop (Suc n) xs = ys"
  by (metis Cons_nth_drop_Suc drop_eq_Nil leI list.distinct(1) list.inject)

lemma peek_lexAt: "peekChar (lexAt text n) k = (case drop (n + k) text of c # _ \<Rightarrow> c | [] \<Rightarrow> NUL)"
  by (auto simp: peekChar_def split: list.splits dest: drop_ConsD)

lemma peek_drop:
  "drop n text = s \<Longrightarrow> peekChar (lexAt text n) 0 = (case s of c # _ \<Rightarrow> c | [] \<Rightarrow> NUL)"
  "drop n text = s \<Longrightarrow> peekChar (lexAt text n) (Suc 0) = (case s of c # d # _ \<Rightarrow> d | _ \<Rightarrow> NUL)"
  by (auto simp: peek_lexAt split: list.splits dest!: drop_ConsD)

lemma skipLine_lexAt:
  "n \<le> length text \<Longrightarrow>
   skipLine (lexAt text n) = lexAt text (n + length (takeWhile (\<lambda>c. c \<noteq> CR \<and> c \<noteq> LF) (drop n text)))"
proof (induction "drop n text" arbitrary: n)
  case Nil
  then show ?case by (subst skipLine.simps) simp
next
  case (Cons c s)
  note d = drop_ConsD [OF Cons.hyps(2) [symmetric]]
  from Cons.hyps(1) [of "Suc n"] d show ?case
    by (subst skipLine.simps) (simp add: peek_lexAt flip: Cons.hyps(2))
qed

lemma identLoop_lexAt:
  "n \<le> length text \<Longrightarrow> identLoop (lexAt text n) = lexAt text (n + length (takeWhile isIdentifierContinue (drop n text)))"
proof (induction "drop n text" arbitrary: n)
  case Nil
  then show ?case
    by (subst identLoop.simps) (simp add: peek_lexAt isIdentifierContinue_def isIdentifierStart_def less_eq_char_def)
next
  case (Cons c s)
  note d = drop_ConsD [OF Cons.hyps(2) [symmetric]]
  from Cons.hyps(1) [of "Suc n"] d show ?case
    by (subst identLoop.simps) (simp add: peek_lexAt flip: Cons.hyps(2))
qed

lemma digitLoop_lexAt:
  "n \<le> length text \<Longrightarrow> digitLoop (lexAt text n) = lexAt text (n + length (takeWhile isDigit (drop n text)))"
proof (induction "drop n text" arbitrary: n)
  case Nil
  then show ?case by (subst digitLoop.simps) (simp add: peek_lexAt isDigit_def less_eq_char_def)
next
  case (Cons c s)
  note d = drop_ConsD [OF Cons.hyps(2) [symmetric]]
  from Cons.hyps(1) [of "Suc n"] d show ?case
    by (subst digitLoop.simps) (simp add: peek_lexAt flip: Cons.hyps(2))
qed

text \<open>\<open>untilClose\<close> is the body of a block comment: the text before the first \<open>*/\<close>.\<close>

fun untilClose :: "string \<Rightarrow> string" where
  "untilClose [] = []"
| "untilClose (c # cs) = (if c = CHR ''*'' \<and> (case cs of d # _ \<Rightarrow> d = CHR ''/'' | [] \<Rightarrow> False) then [] else c # untilClose cs)"

lemma skipBlock_lexAt:
  "n \<le> length text \<Longrightarrow> skipBlock (lexAt text n) = lexAt text (n + length (untilClose (drop n text)))"
proof (induction "drop n text" arbitrary: n)
  case Nil
  then show ?case by (subst skipBlock.simps) simp
next
  case (Cons c s)
  note d = drop_ConsD [OF Cons.hyps(2) [symmetric]]
  have "peekChar (lexAt text n) 0 = c" "peekChar (lexAt text n) 1 = (case s of e # _ \<Rightarrow> e | [] \<Rightarrow> NUL)"
    using d by (simp_all add: peek_lexAt flip: Cons.hyps(2))
  with Cons.hyps(1) [of "Suc n"] d show ?case
    by (subst skipBlock.simps) (auto simp flip: Cons.hyps(2) split: list.splits)
qed

section \<open>What the lexer skips and what it scans\<close>

inductive ignored :: "string \<Rightarrow> bool" where
  nothing: "ignored []"
| blank: "isBlank c \<Longrightarrow> ignored s \<Longrightarrow> ignored (c # s)"
| line_comment: "\<forall>c\<in>set b. c \<noteq> CR \<and> c \<noteq> LF \<Longrightarrow> s = [] \<or> hd s = CR \<or> hd s = LF \<Longrightarrow> ignored s \<Longrightarrow>
    ignored (''--'' @ b @ s)"
| block_comment: "untilClose (b @ ''*/'') = b \<Longrightarrow> ignored s \<Longrightarrow> ignored (''/*'' @ b @ ''*/'' @ s)"

lemma untilClose_found:
  "length (untilClose x) < length x \<Longrightarrow>
   \<exists>r. x = untilClose x @ ''*/'' @ r \<and> untilClose (untilClose x @ ''*/'') = untilClose x"
proof (induction x)
  case (Cons c cs)
  show ?case
  proof (cases "c = CHR ''*'' \<and> (case cs of d # _ \<Rightarrow> d = CHR ''/'' | [] \<Rightarrow> False)")
    case True
    then show ?thesis by (auto split: list.splits)
  next
    case False
    then have "length (untilClose cs) < length cs" using Cons.prems unfolding untilClose.simps if_not_P [OF False] by simp
    from Cons.IH [OF this] obtain r where r: "cs = untilClose cs @ ''*/'' @ r"
      "untilClose (untilClose cs @ ''*/'') = untilClose cs" by blast
    have same: "(case untilClose cs @ ''*/'' of d # _ \<Rightarrow> d = CHR ''/'' | [] \<Rightarrow> False) = (case cs of d # _ \<Rightarrow> d = CHR ''/'' | [] \<Rightarrow> False)"
      by (subst (2) r(1)) (cases "untilClose cs", simp_all)
    have u: "untilClose (c # cs) = c # untilClose cs" unfolding untilClose.simps if_not_P [OF False] ..
    have "untilClose (c # untilClose cs @ ''*/'') = c # untilClose cs"
      unfolding untilClose.simps same if_not_P [OF False] r(2) ..
    then show ?thesis using r(1) unfolding u by (intro exI [of _ r]) simp
  qed
qed simp

lemma untilClose_le: "length (untilClose x) \<le> length x"
  by (induction x) auto

lemma subspan_split: "n \<le> k \<Longrightarrow> k \<le> m \<Longrightarrow> m \<le> length text \<Longrightarrow>
  subspan text n (m - n) = subspan text n (k - n) @ subspan text k (m - k)"
  using subspan_add [of "text" n "k - n" "m - k"] by simp

lemma subspan_two:
  assumes "Suc n < length text" "Suc (Suc n) \<le> k" "k \<le> m" "m \<le> length text"
  shows "subspan text n (m - n) = text ! n # text ! Suc n # subspan text (Suc (Suc n)) (k - Suc (Suc n)) @ subspan text k (m - k)"
proof -
  have "m - n = Suc (Suc (m - Suc (Suc n)))" using assms by simp
  then show ?thesis using assms subspan_split [of "Suc (Suc n)" k m "text"] by (simp add: subspan_Suc)
qed

lemma skipIgnored_lexAt:
  "n \<le> length text \<Longrightarrow> skipIgnored (lexAt text n) = Inr l' \<Longrightarrow>
   \<exists>m. l' = lexAt text m \<and> n \<le> m \<and> m \<le> length text \<and> ignored (subspan text n (m - n)) \<and>
     (m < length text \<longrightarrow> \<not> isBlank (text ! m))"
proof (induction "length text - n" arbitrary: n rule: less_induct)
  case less
  have rest: "n < k \<Longrightarrow> k \<le> length text \<Longrightarrow> skipIgnored (lexAt text k) = Inr l' \<Longrightarrow>
    \<exists>m. l' = lexAt text m \<and> k \<le> m \<and> m \<le> length text \<and> ignored (subspan text k (m - k)) \<and>
     (m < length text \<longrightarrow> \<not> isBlank (text ! m))" for k
    using less.hyps [of k] less.prems(1) by simp
  show ?case
  proof (cases "lexAt text n" rule: skipIgnored_cases)
    case finished
    with less.prems show ?thesis
      by (intro exI [of _ n]) (simp add: skipIgnored_end subspan_def ignored.nothing)
  next
    case blank
    then have n: "n < length text" by simp
    from blank less.prems n have "skipIgnored (lexAt text (Suc n)) = Inr l'" by (simp add: skipIgnored_blank)
    from rest [OF _ _ this] n obtain m where m: "l' = lexAt text m" "Suc n \<le> m" "m \<le> length text"
      "ignored (subspan text (Suc n) (m - Suc n))" "m < length text \<longrightarrow> \<not> isBlank (text ! m)" by auto
    have "m - n = Suc (m - Suc n)" using m(2) by simp
    then have "subspan text n (m - n) = text ! n # subspan text (Suc n) (m - Suc n)" using subspan_Suc [OF n] by simp
    moreover have "isBlank (text ! n)" using blank n by (simp add: peekChar_def)
    ultimately show ?thesis using m by (intro exI [of _ m]) (auto intro: ignored.blank)
  next
    case line
    then have n: "Suc n < length text" "text ! n = CHR ''-''" "text ! Suc n = CHR ''-''"
      by (auto simp: peekChar_def split: if_splits)
    let ?b = "takeWhile (\<lambda>c. c \<noteq> CR \<and> c \<noteq> LF) (drop (Suc (Suc n)) text)" and ?k = "Suc (Suc n) + length (takeWhile (\<lambda>c. c \<noteq> CR \<and> c \<noteq> LF) (drop (Suc (Suc n)) text))"
    have k: "?k \<le> length text" using length_takeWhile_le [of _ "drop (Suc (Suc n)) text"] n(1) by (metis add.commute le_diff_conv2 length_drop Suc_leI)
    from line less.prems n have "skipIgnored (lexAt text ?k) = Inr l'"
      by (simp add: skipIgnored_line skipLine_lexAt)
    from rest [OF _ k this] obtain m where m: "l' = lexAt text m" "?k \<le> m" "m \<le> length text"
      "ignored (subspan text ?k (m - ?k))" "m < length text \<longrightarrow> \<not> isBlank (text ! m)" by auto
    have "subspan text (Suc (Suc n)) (length ?b) = ?b" by (simp add: subspan_def takeWhile_eq_take [symmetric])
    then have gap: "subspan text n (m - n) = ''--'' @ ?b @ subspan text ?k (m - ?k)"
      using subspan_two [of n "text" ?k m] n m(2,3) by simp
    have hdc: "subspan text ?k (m - ?k) = [] \<or> hd (subspan text ?k (m - ?k)) = CR \<or> hd (subspan text ?k (m - ?k)) = LF"
    proof (cases "?k < m")
      case True
      then have "hd (subspan text ?k (m - ?k)) = text ! ?k" using m(3) by (simp add: subspan_def hd_conv_nth)
      moreover have "\<not> (text ! ?k \<noteq> CR \<and> text ! ?k \<noteq> LF)"
        using nth_length_takeWhile [of "\<lambda>c. c \<noteq> CR \<and> c \<noteq> LF" "drop (Suc (Suc n)) text"] True m(3) by simp
      ultimately show ?thesis by auto
    qed (simp add: subspan_def)
    have plain: "\<forall>c\<in>set ?b. c \<noteq> CR \<and> c \<noteq> LF" by (auto dest: set_takeWhileD)
    have "ignored (subspan text n (m - n))" unfolding gap by (rule ignored.line_comment [OF plain hdc m(4)])
    with m show ?thesis by (intro exI [of _ m]) auto
  next
    case block
    then have n: "Suc n < length text" "text ! n = CHR ''/''" "text ! Suc n = CHR ''*''"
      by (auto simp: peekChar_def split: if_splits)
    let ?d = "drop (Suc (Suc n)) text" let ?b = "untilClose ?d" let ?e = "Suc (Suc n) + length ?b"
    from block less.prems n have ne: "?e < length text" and sk: "skipIgnored (skipChar (skipChar (lexAt text ?e))) = Inr l'"
      by (auto simp: skipIgnored_block skipBlock_lexAt lexFail_def split: if_splits)
    have "length ?b < length ?d" using ne by simp
    from untilClose_found [OF this] obtain r where r: "?d = ?b @ ''*/'' @ r" "untilClose (?b @ ''*/'') = ?b" by blast
    have "length ?d = length ?b + 2 + length r" by (subst r(1)) simp
    then have k: "?e + 2 \<le> length text" by simp
    with sk have "skipIgnored (lexAt text (?e + 2)) = Inr l'" by simp
    from rest [OF _ k this] obtain m where m: "l' = lexAt text m" "?e + 2 \<le> m" "m \<le> length text"
      "ignored (subspan text (?e + 2) (m - (?e + 2)))" "m < length text \<longrightarrow> \<not> isBlank (text ! m)" by auto
    have "subspan text (Suc (Suc n)) (length ?b + 2) = ?b @ ''*/''"
      unfolding subspan_def by (subst r(1)) simp
    then have gap: "subspan text n (m - n) = ''/*'' @ ?b @ ''*/'' @ subspan text (?e + 2) (m - (?e + 2))"
      using subspan_two [of n "text" "?e + 2" m] n m(2,3) by simp
    have "ignored (subspan text n (m - n))" unfolding gap by (rule ignored.block_comment [OF r(2) m(4)])
    with m show ?thesis by (intro exI [of _ m]) auto
  next
    case stop
    with less.prems have "l' = lexAt text n" by (simp add: skipIgnored_stop)
    with stop show ?thesis
      by (intro exI [of _ n]) (auto simp: subspan_def ignored.nothing peekChar_def)
  qed
qed

text \<open>The token scanned from one position to another.\<close>

definition spansFrom :: "string \<Rightarrow> nat \<Rightarrow> token \<Rightarrow> nat \<Rightarrow> bool" where
  "spansFrom text n t m \<longleftrightarrow> n < m \<and> m \<le> length text \<and> tokLexeme t = subspan text n (m - n) \<and>
     tokSpan t = \<lparr>spanBegin = locate text n, spanEnd = locate text m\<rparr> \<and> tokKind t \<noteq> TokEndOfFile"

lemma makeToken_lexAt:
  "makeToken (lexAt text m) k (locate text n) =
     \<lparr>tokKind = k, tokLexeme = subspan text n (m - n), tokValue = subspan text n (m - n),
      tokSpan = \<lparr>spanBegin = locate text n, spanEnd = locate text m\<rparr>\<rparr>"
  by (simp add: makeToken_def Let_def)

lemma spansFrom_makeToken:
  "n < m \<Longrightarrow> m \<le> length text \<Longrightarrow> k \<noteq> TokEndOfFile \<Longrightarrow> spansFrom text n (makeToken (lexAt text m) k (locate text n)) m"
  "n < m \<Longrightarrow> m \<le> length text \<Longrightarrow> k \<noteq> TokEndOfFile \<Longrightarrow>
   spansFrom text n ((makeToken (lexAt text m) k (locate text n))\<lparr>tokValue := v\<rparr>) m"
  by (simp_all add: spansFrom_def makeToken_lexAt)

lemma keywordScan_in: "keywordScan ks s = TokIdentifier \<or> keywordScan ks s \<in> snd ` set ks"
  by (induction ks s rule: keywordScan.induct) auto

lemma keywordKind_not_end: "keywordKind s \<noteq> TokEndOfFile"
proof -
  have "TokEndOfFile \<notin> snd ` set KEYWORDS" by (simp add: KEYWORDS_def)
  then show ?thesis unfolding keywordKind_def using keywordScan_in [of KEYWORDS s] by (metis token_kind.distinct(1))
qed

lemma scanString_lexAt:
  "n \<le> length text \<Longrightarrow> scanString start d (lexAt text n) = Inr (t, l') \<Longrightarrow>
   \<exists>m v. l' = lexAt text m \<and> n < m \<and> m \<le> length text \<and> t = (makeToken (lexAt text m) TokString start)\<lparr>tokValue := v\<rparr>"
proof (induction "length text - n" arbitrary: n d rule: less_induct)
  case less
  have rest: "\<exists>m v. l' = lexAt text m \<and> n < m \<and> m \<le> length text \<and> t = (makeToken (lexAt text m) TokString start)\<lparr>tokValue := v\<rparr>"
    if "n < k" "k \<le> length text" "scanString start d' (lexAt text k) = Inr (t, l')" for k d'
  proof -
    have "length text - k < length text - n" using that(1,2) by simp
    from less.hyps [OF this that(2,3)] that(1) show ?thesis by (metis less_trans)
  qed
  show ?case
  proof (cases "lexAt text n" rule: scanString_cases)
    case finished
    with less.prems show ?thesis by (simp add: scanString_end lexFail_def)
  next
    case plain
    with less.prems rest [of "Suc n"] show ?thesis by (simp add: scanString_plain)
  next
    case double
    then have "Suc n < length text" by (simp add: peekChar_def split: if_splits)
    with double less.prems rest [of "Suc (Suc n)"] show ?thesis by (simp add: scanString_double)
  next
    case close
    with less.prems show ?thesis
      by (intro exI [of _ "Suc n"] exI [of _ d]) (auto simp: scanString_close)
  qed
qed

lemma matchChar_lexAt:
  "n \<le> length text \<Longrightarrow>
   matchChar (lexAt text n) c = (if n < length text \<and> text ! n = c then (True, lexAt text (Suc n)) else (False, lexAt text n))"
  by (auto simp: matchChar_def peekChar_def)

lemma takeWhile_bound: "n \<le> length text \<Longrightarrow> n + length (takeWhile P (drop n text)) \<le> length text"
  using length_takeWhile_le [of P "drop n text"] by simp

lemma scanToken_lexAt:
  assumes "n < length text" "scanToken (lexAt text n) = Inr (t, l')"
  shows "\<exists>m. l' = lexAt text m \<and> spansFrom text n t m"
proof -
  have s: "headChar (lexAt text n) = text ! n" "skipChar (lexAt text n) = lexAt text (Suc n)" "location (lexAt text n) = locate text n"
    using assms(1) by simp_all
  note bound = takeWhile_bound [of "Suc n" "text"]
  consider (ident) "isIdentifierStart (text ! n)" | (digit) "\<not> isIdentifierStart (text ! n)" "isDigit (text ! n)"
    | (quote) "\<not> isIdentifierStart (text ! n)" "\<not> isDigit (text ! n)" "text ! n = QUOTE"
    | (op) "\<not> isIdentifierStart (text ! n)" "\<not> isDigit (text ! n)" "text ! n \<noteq> QUOTE" by blast
  then show ?thesis
  proof cases
    case ident
    with assms bound [of isIdentifierContinue] show ?thesis unfolding scanToken_def s
      by (auto simp: Let_def scanIdentifier_def identLoop_lexAt intro!: exI spansFrom_makeToken keywordKind_not_end)
  next
    case digit
    with assms bound [of isDigit] show ?thesis unfolding scanToken_def s
      by (auto simp: Let_def scanInteger_def lexFail_def digitLoop_lexAt intro!: exI spansFrom_makeToken split: if_splits)
  next
    case quote
    then have "scanString (locate text n) [] (lexAt text (Suc n)) = Inr (t, l')"
      using assms(2) unfolding scanToken_def s by (simp add: Let_def)
    from scanString_lexAt [OF _ this] assms(1) show ?thesis by (auto intro!: spansFrom_makeToken)
  next
    case op
    with assms show ?thesis unfolding scanToken_def s
      by (auto simp: Let_def lexFail_def matchChar_lexAt intro!: exI spansFrom_makeToken split: if_splits)
  qed
qed

text \<open>A token list that accounts for every character of the text from a position on.\<close>

fun tiles :: "string \<Rightarrow> nat \<Rightarrow> token list \<Rightarrow> bool" where
  "tiles text n [] \<longleftrightarrow> False"
| "tiles text n [t] \<longleftrightarrow> n \<le> length text \<and> ignored (drop n text) \<and>
     t = \<lparr>tokKind = TokEndOfFile, tokLexeme = [], tokValue = [],
          tokSpan = \<lparr>spanBegin = locate text (length text), spanEnd = locate text (length text)\<rparr>\<rparr>"
| "tiles text n (t # u # ts) \<longleftrightarrow>
     (let b = srcOffset (spanBegin (tokSpan t)); e = srcOffset (spanEnd (tokSpan t)) in
      n \<le> b \<and> ignored (subspan text n (b - n)) \<and> spansFrom text b t e \<and> tiles text e (u # ts))"

lemma tiles_Cons:
  "n \<le> b \<Longrightarrow> ignored (subspan text n (b - n)) \<Longrightarrow> spansFrom text b t e \<Longrightarrow> tiles text e ts \<Longrightarrow> tiles text n (t # ts)"
  by (cases ts) (auto simp: spansFrom_def)

lemma tokenizeLoop_tiles:
  "n \<le> length text \<Longrightarrow> tokenizeLoop (lexAt text n) acc = Inr ts \<Longrightarrow> \<exists>us. ts = acc @ us \<and> tiles text n us"
proof (induction "length text - n" arbitrary: n acc rule: less_induct)
  case less
  from less.prems(2) obtain l1 where l1: "skipIgnored (lexAt text n) = Inr l1"
    by (subst (asm) tokenizeLoop.simps) (auto simp: res_bind_eq_Inr)
  from skipIgnored_lexAt [OF less.prems(1) l1] obtain m where m: "l1 = lexAt text m" "n \<le> m" "m \<le> length text"
    "ignored (subspan text n (m - n))" by blast
  show ?case
  proof (cases "m = length text")
    case True
    then have "subspan text n (m - n) = drop n text" by (simp add: subspan_def)
    with True m less.prems l1 show ?thesis by (subst (asm) tokenizeLoop.simps) (auto simp: tiles.simps)
  next
    case False
    with m have ml: "m < length text" by simp
    with less.prems(2) l1 m(1) obtain t l2 where t: "scanToken (lexAt text m) = Inr (t, l2)"
      and r: "tokenizeLoop l2 (acc @ [t]) = Inr ts"
      by (subst (asm) tokenizeLoop.simps) (auto simp: res_bind_eq_Inr)
    from scanToken_lexAt [OF ml t] obtain e where e: "l2 = lexAt text e" "spansFrom text m t e" by blast
    then have el: "e \<le> length text" "length text - e < length text - n" using m(2) by (auto simp: spansFrom_def)
    from less.hyps [OF el(2,1), of "acc @ [t]"] r e(1) obtain us where "ts = acc @ t # us" "tiles text e us" by auto
    with tiles_Cons [OF m(2,4) e(2)] show ?thesis by auto
  qed
qed

text \<open>
  C34: The tokens account for every character of the source. If lexing succeeds, the source is a
  sequence of blanks and comments, tokens, and nothing else, in order and without overlap up to its
  end; the lexeme of every token is the source text of its span, and both ends of the span carry
  the line and the column of their offsets, with CR, LF and CRLF each ending one line.
\<close>

theorem lexer_tiles_source:
  assumes "tokenize text = Inr tokens"
  shows "tiles text 0 tokens"
  using tokenizeLoop_tiles [of 0 "text" "[]" tokens] assms by (simp add: tokenize_def)

section \<open>Printing tokens and lexing them again\<close>

fun doubleQuotes :: "string \<Rightarrow> string" where
  "doubleQuotes [] = []"
| "doubleQuotes (c # cs) = (if c = QUOTE then [QUOTE, QUOTE] else [c]) @ doubleQuotes cs"

fun renderToken :: "token_kind \<times> string \<Rightarrow> string" where
  "renderToken (k, v) = (if k = TokString then QUOTE # doubleQuotes v @ [QUOTE] else v)"

definition renderTokens :: "(token_kind \<times> string) list \<Rightarrow> string" where
  "renderTokens ts = concat (map (\<lambda>t. renderToken t @ '' '') ts)"

definition isIdentifier :: "string \<Rightarrow> bool" where
  "isIdentifier v \<longleftrightarrow> v \<noteq> [] \<and> isIdentifierStart (hd v) \<and> list_all isIdentifierContinue v \<and> keywordKind v = TokIdentifier"

definition isMagnitude :: "string \<Rightarrow> bool" where
  "isMagnitude v \<longleftrightarrow> v \<noteq> [] \<and> list_all isDigit v \<and> length v \<le> MAX_INTEGER_DIGITS"

fun lexable :: "token_kind \<times> string \<Rightarrow> bool" where
  "lexable (k, v) \<longleftrightarrow>
     (case k of
        TokEndOfFile \<Rightarrow> False
      | TokIdentifier \<Rightarrow> isIdentifier v
      | TokInteger \<Rightarrow> isMagnitude v
      | TokString \<Rightarrow> True
      | _ \<Rightarrow> v = tokenKindName k)"

definition tokenContent :: "token \<Rightarrow> token_kind \<times> string" where
  "tokenContent t = (tokKind t, tokValue t)"

lemma keyword_facts:
  "list_all (\<lambda>(s, k). keywordKind s = k \<and> s \<noteq> [] \<and> isIdentifierStart (hd s) \<and> list_all isIdentifierContinue s \<and>
     tokenKindName k = s) KEYWORDS"
  by code_simp

lemma keyword_spelling:
  "(s, k) \<in> set KEYWORDS \<Longrightarrow>
   keywordKind s = k \<and> s \<noteq> [] \<and> isIdentifierStart (hd s) \<and> list_all isIdentifierContinue s \<and> tokenKindName k = s"
  using keyword_facts by (auto simp: list_all_iff)

lemma scan_word:
  assumes "drop n text = v @ CHR '' '' # rest" "v \<noteq> []" "isIdentifierStart (hd v)" "list_all isIdentifierContinue v"
  shows "\<exists>t. scanToken (lexAt text n) = Inr (t, lexAt text (n + length v)) \<and> tokenContent t = (keywordKind v, v)"
proof -
  obtain c cs where v: "v = c # cs" using assms(2) by (cases v) auto
  note d = drop_ConsD [of n "text" c "cs @ CHR '' '' # rest"]
  from assms(1) v d have n: "n < length text" "text ! n = c" "drop (Suc n) text = cs @ CHR '' '' # rest" by simp_all
  have "takeWhile isIdentifierContinue (cs @ CHR '' '' # rest) = cs"
    using assms(4) v by (simp add: list_all_iff takeWhile_append isIdentifierContinue_def isIdentifierStart_def less_eq_char_def)
  then have l: "identLoop (lexAt text (Suc n)) = lexAt text (n + length v)"
    using n by (simp add: identLoop_lexAt v)
  have lexeme: "subspan text n (length v) = v" using assms(1) by (simp add: subspan_def)
  have "scanToken (lexAt text n) = Inr (scanIdentifier (locate text n) (lexAt text (Suc n)))"
    using n assms(3) v by (simp add: scanToken_def Let_def)
  then show ?thesis
    by (simp add: scanIdentifier_def Let_def l makeToken_lexAt lexeme tokenContent_def)
qed

lemma scan_integer:
  assumes "drop n text = v @ CHR '' '' # rest" "isMagnitude v"
  shows "\<exists>t. scanToken (lexAt text n) = Inr (t, lexAt text (n + length v)) \<and> tokenContent t = (TokInteger, v)"
proof -
  from assms(2) obtain c cs where v: "v = c # cs" "isDigit c" "list_all isDigit cs" "length v \<le> 1024"
    by (cases v) (auto simp: isMagnitude_def)
  note d = drop_ConsD [of n "text" c "cs @ CHR '' '' # rest"]
  from assms(1) v d have n: "n < length text" "text ! n = c" "drop (Suc n) text = cs @ CHR '' '' # rest" by simp_all
  have "takeWhile isDigit (cs @ CHR '' '' # rest) = cs"
    using v by (simp add: list_all_iff takeWhile_append isDigit_def less_eq_char_def)
  then have l: "digitLoop (lexAt text (Suc n)) = lexAt text (n + length v)"
    using n by (simp add: digitLoop_lexAt v)
  have lexeme: "subspan text n (length v) = v" using assms(1) by (simp add: subspan_def)
  have "\<not> isIdentifierStart c" using v(2) by (auto simp: isDigit_def isIdentifierStart_def less_eq_char_def)
  then have "scanToken (lexAt text n) = scanInteger (locate text n) (lexAt text (Suc n))"
    using n v by (simp add: scanToken_def Let_def)
  then show ?thesis using v(4)
    by (simp add: scanInteger_def Let_def l makeToken_lexAt lexeme tokenContent_def)
qed

lemma scanString_double_quotes:
  assumes "drop n text = doubleQuotes v @ QUOTE # CHR '' '' # rest"
  shows "\<exists>t. scanString start d (lexAt text n) = Inr (t, lexAt text (n + length (doubleQuotes v) + 1)) \<and>
    tokenContent t = (TokString, d @ v)"
  using assms
proof (induction v arbitrary: n d)
  case Nil
  then have n: "n < length text" "text ! n = QUOTE" "drop (Suc n) text = CHR '' '' # rest"
    using drop_ConsD [of n "text"] by simp_all
  then show ?case by (simp add: scanString_close peek_drop tokenContent_def makeToken_def Let_def)
next
  case (Cons c v)
  show ?case
  proof (cases "c = QUOTE")
    case True
    with Cons.prems have n: "n < length text" "text ! n = QUOTE" "drop (Suc n) text = QUOTE # doubleQuotes v @ QUOTE # CHR '' '' # rest"
      using drop_ConsD [of n "text"] by simp_all
    then have m: "Suc n < length text" "text ! Suc n = QUOTE" "drop (Suc (Suc n)) text = doubleQuotes v @ QUOTE # CHR '' '' # rest"
      using drop_ConsD [of "Suc n" "text"] by simp_all
    have "scanString start d (lexAt text n) = scanString start (d @ [QUOTE]) (lexAt text (Suc (Suc n)))"
      using n m(1,2) by (simp add: scanString_double peekChar_def)
    with Cons.IH [OF m(3), of "d @ [QUOTE]"] True show ?thesis by simp
  next
    case False
    with Cons.prems have n: "n < length text" "text ! n = c" "drop (Suc n) text = doubleQuotes v @ QUOTE # CHR '' '' # rest"
      using drop_ConsD [of n "text"] by simp_all
    have "scanString start d (lexAt text n) = scanString start (d @ [c]) (lexAt text (Suc n))"
      using n False by (simp add: scanString_plain)
    with Cons.IH [OF n(3), of "d @ [c]"] False show ?thesis by simp
  qed
qed

lemma scan_string:
  assumes "drop n text = QUOTE # doubleQuotes v @ QUOTE # CHR '' '' # rest"
  shows "\<exists>t. scanToken (lexAt text n) = Inr (t, lexAt text (n + length (doubleQuotes v) + 2)) \<and> tokenContent t = (TokString, v)"
proof -
  from drop_ConsD [OF assms] have n: "n < length text" "text ! n = QUOTE"
    "drop (Suc n) text = doubleQuotes v @ QUOTE # CHR '' '' # rest" by simp_all
  have "scanToken (lexAt text n) = scanString (locate text n) [] (lexAt text (Suc n))"
    using n(1,2) by (simp add: scanToken_def Let_def isIdentifierStart_def isDigit_def less_eq_char_def)
  with scanString_double_quotes [OF n(3), of "locate text n" "[]"] show ?thesis by simp
qed

definition isPunctuation :: "token_kind \<Rightarrow> bool" where
  "isPunctuation k \<longleftrightarrow> k \<in> set [TokLeftParen, TokRightParen, TokComma, TokSemicolon, TokStar, TokEqual, TokBangEqual,
     TokLessGreater, TokLess, TokLessEqual, TokGreater, TokGreaterEqual, TokMinus]"

lemma scan_punctuation:
  assumes "isPunctuation k" "drop n text = tokenKindName k @ CHR '' '' # rest"
  shows "\<exists>t. scanToken (lexAt text n) = Inr (t, lexAt text (n + length (tokenKindName k))) \<and>
    tokenContent t = (k, tokenKindName k)"
proof -
  have one: "\<exists>t. scanToken (lexAt text n) = Inr (t, lexAt text (n + 1)) \<and> tokenContent t = (k, [c])"
    if "drop n text = [c] @ CHR '' '' # rest"
      "(c, k) \<in> {(CHR ''('', TokLeftParen), (CHR '')'', TokRightParen), (CHR '','', TokComma), (CHR '';'', TokSemicolon),
        (CHR ''*'', TokStar), (CHR ''='', TokEqual), (CHR ''-'', TokMinus), (CHR ''<'', TokLess), (CHR ''>'', TokGreater)}" for c
  proof -
    from that(1) have n: "n < length text" "text ! n = c" "drop (Suc n) text = CHR '' '' # rest"
      using drop_ConsD [of n "text"] by simp_all
    then have m: "Suc n < length text" "text ! Suc n = CHR '' ''" using drop_ConsD [of "Suc n" "text"] by simp_all
    have "subspan text n (Suc 0) = [c]" using that(1) by (simp add: subspan_def)
    with that(2) n m show ?thesis
      by (auto simp: scanToken_def Let_def isIdentifierStart_def isDigit_def less_eq_char_def makeToken_lexAt
          tokenContent_def matchChar_lexAt)
  qed
  have two: "\<exists>t. scanToken (lexAt text n) = Inr (t, lexAt text (n + 2)) \<and> tokenContent t = (k, [c, d])"
    if "drop n text = [c, d] @ CHR '' '' # rest"
      "(c, d, k) \<in> {(CHR ''!'', CHR ''='', TokBangEqual), (CHR ''<'', CHR ''>'', TokLessGreater), (CHR ''<'', CHR ''='', TokLessEqual),
        (CHR ''>'', CHR ''='', TokGreaterEqual)}" for c d
  proof -
    from that(1) have n: "n < length text" "text ! n = c" "drop (Suc n) text = d # CHR '' '' # rest"
      using drop_ConsD [of n "text"] by simp_all
    then have m: "Suc n < length text" "text ! Suc n = d" using drop_ConsD [of "Suc n" "text"] by simp_all
    have "subspan text n 2 = [c, d]" using that(1) by (simp add: subspan_def)
    with that(2) n m show ?thesis
      by (auto simp: scanToken_def Let_def isIdentifierStart_def isDigit_def less_eq_char_def makeToken_lexAt
          tokenContent_def matchChar_lexAt)
  qed
  from assms(1) consider c where "tokenKindName k = [c]" "(c, k) \<in> {(CHR ''('', TokLeftParen), (CHR '')'', TokRightParen), (CHR '','', TokComma), (CHR '';'', TokSemicolon),
        (CHR ''*'', TokStar), (CHR ''='', TokEqual), (CHR ''-'', TokMinus), (CHR ''<'', TokLess), (CHR ''>'', TokGreater)}"
    | c d where "tokenKindName k = [c, d]" "(c, d, k) \<in> {(CHR ''!'', CHR ''='', TokBangEqual), (CHR ''<'', CHR ''>'', TokLessGreater), (CHR ''<'', CHR ''='', TokLessEqual),
        (CHR ''>'', CHR ''='', TokGreaterEqual)}"
    by (auto simp: isPunctuation_def)
  then show ?thesis
  proof cases
    case (1 c)
    with one [of c] assms(2) show ?thesis by simp
  next
    case (2 c d)
    with two [of c d] assms(2) show ?thesis by simp
  qed
qed

lemma lexable_cases:
  assumes "lexable (k, v)"
  obtains (word) "k = keywordKind v" "v \<noteq> []" "isIdentifierStart (hd v)" "list_all isIdentifierContinue v" "k \<noteq> TokString"
  | (integer) "k = TokInteger" "isMagnitude v"
  | (string) "k = TokString"
  | (punctuation) "isPunctuation k" "v = tokenKindName k" "k \<noteq> TokString"
proof -
  consider "k = TokIdentifier" "isIdentifier v" | "k = TokInteger" "isMagnitude v" | "k = TokString"
    | "isPunctuation k" "v = tokenKindName k" | "v = tokenKindName k" "(tokenKindName k, k) \<in> set KEYWORDS"
    using assms by (cases k) (simp_all add: isPunctuation_def KEYWORDS_def)
  then show ?thesis
  proof cases
    case 1
    then show ?thesis using word by (simp add: isIdentifier_def)
  next
    case 4
    then show ?thesis using punctuation by (auto simp: isPunctuation_def)
  next
    case 5
    then have "k \<noteq> TokString" by (auto simp: KEYWORDS_def)
    with 5 keyword_spelling [OF 5(2)] word show ?thesis by simp
  qed (use integer string in simp_all)
qed

lemma scan_render:
  assumes "lexable (k, v)" "drop n text = renderToken (k, v) @ CHR '' '' # rest"
  shows "\<exists>t. scanToken (lexAt text n) = Inr (t, lexAt text (n + length (renderToken (k, v)))) \<and> tokenContent t = (k, v)"
  using assms(1)
proof (cases rule: lexable_cases)
  case word
  with scan_word [of n "text" v rest] assms(2) show ?thesis by simp
next
  case integer
  with scan_integer [of n "text" v rest] assms(2) show ?thesis by simp
next
  case string
  with scan_string [of n "text" v rest] assms(2) show ?thesis by simp
next
  case punctuation
  with scan_punctuation [of k n "text" rest] assms(2) show ?thesis by simp
qed

lemma render_starts:
  assumes "lexable (k, v)"
  shows "\<exists>c s. renderToken (k, v) = c # s \<and> \<not> isBlank c \<and> c \<noteq> CHR ''/'' \<and> (c = CHR ''-'' \<longrightarrow> s = [])"
  using assms
proof (cases rule: lexable_cases)
  case word
  then show ?thesis by (cases v) (auto simp: isIdentifierStart_def less_eq_char_def)
next
  case integer
  then show ?thesis by (cases v) (auto simp: isMagnitude_def isDigit_def less_eq_char_def)
next
  case punctuation
  then show ?thesis by (auto simp: isPunctuation_def)
qed simp

lemma skip_to_render:
  assumes "lexable (k, v)" "drop n text = renderToken (k, v) @ CHR '' '' # rest"
  shows "skipIgnored (lexAt text n) = Inr (lexAt text n)" "n < length text"
proof -
  obtain c s where c: "renderToken (k, v) = c # s" "\<not> isBlank c" "c \<noteq> CHR ''/''" "c = CHR ''-'' \<longrightarrow> s = []"
    using render_starts [OF assms(1)] by blast
  from assms(2) c(1) have d: "drop n text = c # s @ CHR '' '' # rest" by simp
  from drop_ConsD [OF this] show n: "n < length text" by simp
  show "skipIgnored (lexAt text n) = Inr (lexAt text n)"
    by (rule skipIgnored_stop) (use n c peek_drop [OF d] in \<open>auto simp: split: list.splits\<close>)
qed

lemma tokenizeLoop_skip: "skipIgnored l = skipIgnored l' \<Longrightarrow> tokenizeLoop l acc = tokenizeLoop l' acc"
  by (subst (1 2) tokenizeLoop.simps) simp

lemma tokenizeLoop_render:
  assumes "list_all lexable ks" "drop n text = renderTokens ks" "n \<le> length text"
  shows "\<exists>ts e. tokenizeLoop (lexAt text n) acc = Inr (acc @ ts @ [e]) \<and> map tokenContent ts = ks \<and> tokenContent e = (TokEndOfFile, [])"
  using assms
proof (induction ks arbitrary: n acc)
  case Nil
  then have "n = length text" by (simp add: renderTokens_def)
  then show ?case by (subst tokenizeLoop.simps) (simp add: skipIgnored_end tokenContent_def)
next
  case (Cons kv ks)
  obtain k v where kv: "kv = (k, v)" by (cases kv)
  from Cons.prems kv have lx: "lexable (k, v)" and d: "drop n text = renderToken (k, v) @ CHR '' '' # renderTokens ks"
    by (simp_all add: renderTokens_def)
  let ?m = "n + length (renderToken (k, v))"
  from scan_render [OF lx d] obtain t where t: "scanToken (lexAt text n) = Inr (t, lexAt text ?m)" "tokenContent t = (k, v)" by blast
  have dm: "drop ?m text = CHR '' '' # renderTokens ks" using d by (metis add.commute append_eq_conv_conj drop_drop)
  from drop_ConsD [OF dm] have m: "?m < length text" "text ! ?m = CHR '' ''" "drop (Suc ?m) text = renderTokens ks" by simp_all
  have "tokenizeLoop (lexAt text n) acc = tokenizeLoop (lexAt text ?m) (acc @ [t])"
    by (subst tokenizeLoop.simps) (use skip_to_render [OF lx d] t in simp)
  also have "\<dots> = tokenizeLoop (lexAt text (Suc ?m)) (acc @ [t])"
    by (rule tokenizeLoop_skip, subst skipIgnored_blank) (use m(1,2) in \<open>simp_all add: peekChar_def del: renderToken.simps\<close>)
  finally have step: "tokenizeLoop (lexAt text n) acc = tokenizeLoop (lexAt text (Suc ?m)) (acc @ [t])" .
  from Cons.IH [of "Suc ?m" "acc @ [t]"] Cons.prems(1) m obtain ts e where
    "tokenizeLoop (lexAt text (Suc ?m)) (acc @ [t]) = Inr ((acc @ [t]) @ ts @ [e])" "map tokenContent ts = ks"
    "tokenContent e = (TokEndOfFile, [])" by auto
  with step t(2) kv show ?case by (intro exI [of _ "t # ts"] exI [of _ e]) simp
qed

text \<open>
  C28: Lexing inverts printing. Print any sequence of tokens - reserved words and operators by their
  spelling, identifiers and integers as they are, strings in quotes with every quote doubled - with a
  blank after each; \<open>tokenize\<close> returns exactly these kinds and values, and then the end of input.
\<close>

theorem lexer_render_roundtrip:
  assumes "list_all lexable ks"
  shows "\<exists>ts e. tokenize (renderTokens ks) = Inr (ts @ [e]) \<and> map tokenContent ts = ks \<and> tokenContent e = (TokEndOfFile, [])"
  using tokenizeLoop_render [OF assms, of 0 "renderTokens ks" "[]"] by (simp add: tokenize_def)

definition sampleTokens :: "(token_kind \<times> string) list" where
  "sampleTokens = [(TokSelect, ''SELECT''), (TokStar, ''*''), (TokFrom, ''FROM''), (TokIdentifier, ''t''),
     (TokWhere, ''WHERE''), (TokIdentifier, ''name''), (TokLessGreater, ''<>''), (TokString, [QUOTE])]"

lemma sampleTokens_lexable: "list_all lexable sampleTokens"
  by code_simp

theorem lexer_render_roundtrip_witness:
  "list_all lexable sampleTokens \<and>
   (\<exists>ts e. tokenize (renderTokens sampleTokens) = Inr (ts @ [e]) \<and> map tokenContent ts = sampleTokens \<and>
      tokenContent e = (TokEndOfFile, []))"
  using lexer_render_roundtrip [OF sampleTokens_lexable] sampleTokens_lexable by blast

theorem lexer_tiles_source_witness:
  "\<exists>tokens. tokenize (renderTokens sampleTokens) = Inr tokens \<and> tiles (renderTokens sampleTokens) 0 tokens"
proof -
  from tokenizeLoop_render [OF sampleTokens_lexable, of 0 "renderTokens sampleTokens" "[]"]
  obtain ts where t: "tokenize (renderTokens sampleTokens) = Inr ts" by (auto simp: tokenize_def)
  from lexer_tiles_source [OF t] t show ?thesis by blast
qed

end
