(* ===== verification/Sql_Ast.thy ===== *)
theory Sql_Ast
  imports Sql_Lexer
begin

text \<open>
  The syntax trees of \<open>sql_ast.hpp\<close> and their debug rendering \<open>toDebugString\<close>. A \<open>std::variant\<close> is a
  datatype with its alternatives as constructors; a \<open>unique_ptr\<close> child is the child itself, and an
  optional one an option.
\<close>

section \<open>Trees\<close>

datatype literal_value =
    NullLiteral
  | BooleanLiteral bool
  | IntegerLiteral bool string
  | StringLiteral string

record sql_literal =
  litSpan :: source_span
  litValue :: literal_value

datatype unary_operator = UnaryNot

datatype binary_operator =
  BinEqual | BinNotEqual | BinLess | BinLessEqual | BinGreater | BinGreaterEqual | BinAnd | BinOr

datatype expression =
    IdentifierExpression (exprSpan: source_span) string
  | LiteralExpression (exprSpan: source_span) sql_literal
  | UnaryExpression (exprSpan: source_span) unary_operator expression
  | BinaryExpression (exprSpan: source_span) binary_operator expression expression

datatype sql_type_kind = SqlUint32 | SqlInt64 | SqlBoolean | SqlVarchar

record sql_type_specification =
  typeKind :: sql_type_kind
  varcharSizeMagnitude :: "string option"
  typeSpan :: source_span

datatype null_constraint = NullUnspecified | NullAllowed | NotNull

record column_specification =
  specName :: string
  specType :: sql_type_specification
  specNull :: null_constraint
  specPrimaryKey :: bool
  specSpan :: source_span

record create_table_statement =
  createTable :: string
  createColumns :: "column_specification list"
  createTableSpan :: source_span

record insert_statement =
  insertTable :: string
  insertColumns :: "string list option"
  insertValues :: "sql_literal list"
  insertTableSpan :: source_span
  insertColumnSpans :: "source_span list option"

record select_statement =
  selectAll :: bool
  selectColumns :: "string list"
  selectTable :: string
  selectWhere :: "expression option"
  selectTableSpan :: source_span
  selectColumnSpans :: "source_span list"

record assignment =
  assignColumn :: string
  assignValue :: sql_literal
  assignSpan :: source_span
  assignColumnSpan :: source_span

record update_statement =
  updateTable :: string
  updateAssignments :: "assignment list"
  updateWhere :: "expression option"
  updateTableSpan :: source_span

record delete_statement =
  deleteTable :: string
  deleteWhere :: "expression option"
  deleteTableSpan :: source_span

datatype transaction_access_mode = TxReadWrite | TxReadOnly

datatype statement_node =
    CreateTableStatement create_table_statement
  | InsertStatement insert_statement
  | SelectStatement select_statement
  | UpdateStatement update_statement
  | DeleteStatement delete_statement
  | BeginStatement transaction_access_mode
  | CommitStatement
  | RollbackStatement

record statement =
  stmtSpan :: source_span
  stmtNode :: statement_node

section \<open>Debug strings\<close>

abbreviation DQUOTE :: char where "DQUOTE \<equiv> CHR 0x22"
abbreviation BACKSLASH :: char where "BACKSLASH \<equiv> CHR 0x5C"

definition quoteChar :: "char \<Rightarrow> string" where
  "quoteChar c =
     (if c = BACKSLASH then [BACKSLASH, BACKSLASH]
      else if c = DQUOTE then [BACKSLASH, DQUOTE]
      else if c = LF then [BACKSLASH, CHR ''n'']
      else if c = CR then [BACKSLASH, CHR ''r'']
      else if c = TAB then [BACKSLASH, CHR ''t'']
      else [c])"

definition quote :: "string \<Rightarrow> string" where
  "quote v = [DQUOTE] @ concat (map quoteChar v) @ [DQUOTE]"

fun binaryName :: "binary_operator \<Rightarrow> string" where
  "binaryName BinEqual = ''Eq''"
| "binaryName BinNotEqual = ''Ne''"
| "binaryName BinLess = ''Lt''"
| "binaryName BinLessEqual = ''Le''"
| "binaryName BinGreater = ''Gt''"
| "binaryName BinGreaterEqual = ''Ge''"
| "binaryName BinAnd = ''And''"
| "binaryName BinOr = ''Or''"

fun joinComma :: "string list \<Rightarrow> string" where
  "joinComma [] = []"
| "joinComma [s] = s"
| "joinComma (s # t # ss) = s @ '','' @ joinComma (t # ss)"

definition joinNames :: "string list \<Rightarrow> string" where
  "joinNames names = ''['' @ joinComma names @ '']''"

definition debugLiteral :: "sql_literal \<Rightarrow> string" where
  "debugLiteral l =
     (case litValue l of
        NullLiteral \<Rightarrow> ''Null''
      | BooleanLiteral b \<Rightarrow> (if b then ''Bool(true)'' else ''Bool(false)'')
      | IntegerLiteral negative magnitude \<Rightarrow> ''Int('' @ (if negative then ''-'' else []) @ magnitude @ '')''
      | StringLiteral v \<Rightarrow> ''String('' @ quote v @ '')'')"

fun debugExpression :: "expression \<Rightarrow> string" where
  "debugExpression (IdentifierExpression _ name) = ''Id('' @ name @ '')''"
| "debugExpression (LiteralExpression _ l) = debugLiteral l"
| "debugExpression (UnaryExpression _ UnaryNot e) = ''Not('' @ debugExpression e @ '')''"
| "debugExpression (BinaryExpression _ op l r) =
     binaryName op @ ''('' @ debugExpression l @ '','' @ debugExpression r @ '')''"

definition debugColumn :: "column_specification \<Rightarrow> string" where
  "debugColumn c =
     specName c @ '':'' @
     (case typeKind (specType c) of
        SqlUint32 \<Rightarrow> ''UINT32''
      | SqlInt64 \<Rightarrow> ''INT64''
      | SqlBoolean \<Rightarrow> ''BOOLEAN''
      | SqlVarchar \<Rightarrow> ''VARCHAR('' @ the (varcharSizeMagnitude (specType c)) @ '')'') @
     (if specPrimaryKey c then '':PK'' else []) @
     (case specNull c of NullAllowed \<Rightarrow> '':NULL'' | NotNull \<Rightarrow> '':NOT_NULL'' | NullUnspecified \<Rightarrow> [])"

definition debugWhere :: "expression option \<Rightarrow> string" where
  "debugWhere w = (case w of Some e \<Rightarrow> debugExpression e | None \<Rightarrow> ''<none>'')"

definition debugStatement :: "statement \<Rightarrow> string" where
  "debugStatement s =
     (case stmtNode s of
        CreateTableStatement c \<Rightarrow>
          ''Create(table='' @ createTable c @ '', columns=['' @ joinComma (map debugColumn (createColumns c)) @ ''])''
      | InsertStatement i \<Rightarrow>
          ''Insert(table='' @ insertTable i @ '', columns='' @
          (case insertColumns i of Some names \<Rightarrow> joinNames names | None \<Rightarrow> ''<implicit>'') @
          '', values=['' @ joinComma (map debugLiteral (insertValues i)) @ ''])''
      | SelectStatement q \<Rightarrow>
          ''Select(columns='' @ (if selectAll q then ''*'' else joinNames (selectColumns q)) @ '', table='' @
          selectTable q @ '', where='' @ debugWhere (selectWhere q) @ '')''
      | UpdateStatement u \<Rightarrow>
          ''Update(table='' @ updateTable u @ '', set=['' @
          joinComma (map (\<lambda>a. assignColumn a @ ''='' @ debugLiteral (assignValue a)) (updateAssignments u)) @
          ''], where='' @ debugWhere (updateWhere u) @ '')''
      | DeleteStatement d \<Rightarrow>
          ''Delete(table='' @ deleteTable d @ '', where='' @ debugWhere (deleteWhere d) @ '')''
      | BeginStatement m \<Rightarrow> (if m = TxReadOnly then ''Begin(readOnly)'' else ''Begin'')
      | CommitStatement \<Rightarrow> ''Commit''
      | RollbackStatement \<Rightarrow> ''Rollback'')"

end
