(* ===== verification/Sql_Parser.thy ===== *)
theory Sql_Parser
  imports Sql_Ast
begin

text \<open>
  The recursive-descent parser of \<open>sql_parser.cpp\<close>.

  The constructor accepts only token vectors that end with an end-of-input token, and nothing
  changes the vector afterwards: \<open>token_stream\<close> is the type of such vectors. A parser is a stream
  and a position; every parsing function returns its result with the parser after it, or the
  \<open>SqlError\<close> it throws. The recursion ends because a round of every loop and every nested
  expression first consumes a token that is not the end of input.
\<close>

section \<open>The parser object\<close>

typedef token_stream = "{ts :: token list. ts \<noteq> [] \<and> tokKind (last ts) = TokEndOfFile}"
  morphisms tokenList TokenStream
proof -
  have "[\<lparr>tokKind = TokEndOfFile, tokLexeme = [], tokValue = [], tokSpan = undefined\<rparr>]
      \<in> {ts :: token list. ts \<noteq> [] \<and> tokKind (last ts) = TokEndOfFile}" by simp
  then show ?thesis by blast
qed

setup_lifting type_definition_token_stream

text \<open>To run the parser: the stream of a vector that passed the check of the constructor.\<close>

lift_definition checkedStream :: "token list \<Rightarrow> token_stream" is
  "\<lambda>ts. if ts \<noteq> [] \<and> tokKind (last ts) = TokEndOfFile then ts
        else [\<lparr>tokKind = TokEndOfFile, tokLexeme = [], tokValue = [],
               tokSpan = \<lparr>spanBegin = \<lparr>srcOffset = 0, srcLine = 1, srcColumn = 1\<rparr>,
                          spanEnd = \<lparr>srcOffset = 0, srcLine = 1, srcColumn = 1\<rparr>\<rparr>\<rparr>]"
  by auto

record parser =
  stream :: token_stream
  current :: nat

type_synonym 'a parsed = "('a \<times> parser) res"

definition failAt :: "token \<Rightarrow> string \<Rightarrow> 'a res" where
  "failAt t message = Inl (SqlError Parser message (tokSpan t))"

definition startLocation :: source_location where
  "startLocation = \<lparr>srcOffset = 0, srcLine = 1, srcColumn = 1\<rparr>"

definition newParser :: "token list \<Rightarrow> parser res" where
  "newParser tokens =
     (if tokens = [] \<or> tokKind (last tokens) \<noteq> TokEndOfFile
      then Inl (SqlError Parser ''token stream must end with an explicit EOF token''
                  \<lparr>spanBegin = startLocation, spanEnd = startLocation\<rparr>)
      else Inr \<lparr>stream = TokenStream tokens, current = 0\<rparr>)"

lemma newParser_code [code]:
  "newParser tokens =
     (if tokens = [] \<or> tokKind (last tokens) \<noteq> TokEndOfFile
      then Inl (SqlError Parser ''token stream must end with an explicit EOF token''
                  \<lparr>spanBegin = startLocation, spanEnd = startLocation\<rparr>)
      else Inr \<lparr>stream = checkedStream tokens, current = 0\<rparr>)"
  by (auto simp: newParser_def checkedStream_def)

definition peekToken :: "parser \<Rightarrow> token" where
  "peekToken p =
     (let tokens = tokenList (stream p) in
      tokens ! (if current p < length tokens then current p else length tokens - 1))"

definition previousToken :: "parser \<Rightarrow> token" where
  "previousToken p = tokenList (stream p) ! (if current p = 0 then 0 else current p - 1)"

definition check :: "parser \<Rightarrow> token_kind \<Rightarrow> bool" where
  "check p kind \<longleftrightarrow> tokKind (peekToken p) = kind"

definition advanceToken :: "parser \<Rightarrow> parser" where
  "advanceToken p = (if \<not> check p TokEndOfFile then p\<lparr>current := current p + 1\<rparr> else p)"

definition matchToken :: "parser \<Rightarrow> token_kind \<Rightarrow> parser option" where
  "matchToken p kind = (if check p kind then Some (advanceToken p) else None)"

definition consume :: "parser \<Rightarrow> token_kind \<Rightarrow> string \<Rightarrow> token parsed" where
  "consume p kind message =
     (if check p kind then Inr (previousToken (advanceToken p), advanceToken p)
      else failAt (peekToken p) message)"

abbreviation spanOf :: "source_location \<Rightarrow> source_location \<Rightarrow> source_span" where
  "spanOf b e \<equiv> \<lparr>spanBegin = b, spanEnd = e\<rparr>"

abbreviation beginOf :: "token \<Rightarrow> source_location" where "beginOf t \<equiv> spanBegin (tokSpan t)"
abbreviation endOf :: "token \<Rightarrow> source_location" where "endOf t \<equiv> spanEnd (tokSpan t)"

section \<open>Progress\<close>

definition remaining :: "parser \<Rightarrow> nat" where
  "remaining p = length (tokenList (stream p)) - current p"

lemma token_stream_end: "tokenList s \<noteq> []" "tokKind (last (tokenList s)) = TokEndOfFile"
  using tokenList [of s] by auto

lemma not_end_less: "\<not> check p TokEndOfFile \<Longrightarrow> current p < length (tokenList (stream p))"
  using token_stream_end [of "stream p"] by (auto simp: check_def peekToken_def Let_def last_conv_nth split: if_splits)

lemma advance_le: "remaining (advanceToken p) \<le> remaining p"
  by (simp add: advanceToken_def remaining_def diff_le_mono2)

lemma advance_less: "\<not> check p TokEndOfFile \<Longrightarrow> remaining (advanceToken p) < remaining p"
  using not_end_less [of p] by (simp add: advanceToken_def remaining_def)

lemma match_less: "matchToken p kind = Some q \<Longrightarrow> kind \<noteq> TokEndOfFile \<Longrightarrow> remaining q < remaining p"
  using advance_less [of p] by (auto simp: matchToken_def check_def split: if_splits)

lemma check_less: "check p kind \<Longrightarrow> kind \<noteq> TokEndOfFile \<Longrightarrow> remaining (advanceToken p) < remaining p"
  using advance_less [of p] by (auto simp: check_def)

lemma match_le: "matchToken p kind = Some q \<Longrightarrow> remaining q \<le> remaining p"
  using advance_le [of p] by (auto simp: matchToken_def split: if_splits)

lemma consume_le: "consume p kind message = Inr (t, q) \<Longrightarrow> remaining q \<le> remaining p"
  using advance_le [of p] by (auto simp: consume_def failAt_def split: if_splits)

section \<open>Literals\<close>

definition parseLiteral :: "parser \<Rightarrow> sql_literal parsed" where
  "parseLiteral p =
     (let start = beginOf (peekToken p);
          integer = (\<lambda>negative q. Inr (\<lparr>litSpan = spanOf start (endOf (previousToken q)),
                                        litValue = IntegerLiteral negative (tokValue (previousToken q))\<rparr>, q)) in
      case matchToken p TokMinus of
        Some p1 \<Rightarrow>
          (if \<not> check p1 TokInteger
           then failAt (peekToken p1) (''expected integer magnitude after '' @ [QUOTE] @ ''-'' @ [QUOTE])
           else case matchToken p1 TokInteger of
              Some q \<Rightarrow> integer True q
            | None \<Rightarrow> failAt (peekToken p1) (''expected integer magnitude after '' @ [QUOTE] @ ''-'' @ [QUOTE]))
      | None \<Rightarrow>
          (case matchToken p TokInteger of
             Some q \<Rightarrow> integer False q
           | None \<Rightarrow>
          (case matchToken p TokString of
             Some q \<Rightarrow> Inr (\<lparr>litSpan = tokSpan (previousToken q), litValue = StringLiteral (tokValue (previousToken q))\<rparr>, q)
           | None \<Rightarrow>
          (case matchToken p TokTrue of
             Some q \<Rightarrow> Inr (\<lparr>litSpan = tokSpan (previousToken q), litValue = BooleanLiteral True\<rparr>, q)
           | None \<Rightarrow>
          (case matchToken p TokFalse of
             Some q \<Rightarrow> Inr (\<lparr>litSpan = tokSpan (previousToken q), litValue = BooleanLiteral False\<rparr>, q)
           | None \<Rightarrow>
          (case matchToken p TokNull of
             Some q \<Rightarrow> Inr (\<lparr>litSpan = tokSpan (previousToken q), litValue = NullLiteral\<rparr>, q)
           | None \<Rightarrow> failAt (peekToken p) ''expected NULL, TRUE, FALSE, integer, or string literal''))))))"

lemma parseLiteral_le: "parseLiteral p = Inr (l, q) \<Longrightarrow> remaining q \<le> remaining p"
  by (auto simp: parseLiteral_def Let_def failAt_def dest!: match_le split: option.splits if_splits)

section \<open>Expressions\<close>

abbreviation MAX_EXPRESSION_NESTING :: nat where "MAX_EXPRESSION_NESTING \<equiv> 128"

definition isComparison :: "token_kind \<Rightarrow> bool" where
  "isComparison k \<longleftrightarrow> k = TokEqual \<or> k = TokBangEqual \<or> k = TokLessGreater \<or> k = TokLess \<or> k = TokLessEqual \<or>
     k = TokGreater \<or> k = TokGreaterEqual"

definition comparisonOperator :: "token_kind \<Rightarrow> binary_operator res" where
  "comparisonOperator k =
     (case k of
        TokEqual \<Rightarrow> Inr BinEqual
      | TokBangEqual \<Rightarrow> Inr BinNotEqual
      | TokLessGreater \<Rightarrow> Inr BinNotEqual
      | TokLess \<Rightarrow> Inr BinLess
      | TokLessEqual \<Rightarrow> Inr BinLessEqual
      | TokGreater \<Rightarrow> Inr BinGreater
      | TokGreaterEqual \<Rightarrow> Inr BinGreaterEqual
      | _ \<Rightarrow> Inl (LogicError ''Token is not a comparison operator.''))"

definition makeBinary :: "binary_operator \<Rightarrow> expression \<Rightarrow> expression \<Rightarrow> expression" where
  "makeBinary op l r = BinaryExpression (spanOf (spanBegin (exprSpan l)) (spanEnd (exprSpan r))) op l r"

definition requireNestingAvailable :: "token \<Rightarrow> nat \<Rightarrow> unit res" where
  "requireNestingAvailable t depth =
     (if depth \<ge> MAX_EXPRESSION_NESTING then failAt t ''expression nesting exceeds the limit of 128'' else Inr ())"

fun withSpan :: "source_span \<Rightarrow> expression \<Rightarrow> expression" where
  "withSpan s (IdentifierExpression _ n) = IdentifierExpression s n"
| "withSpan s (LiteralExpression _ l) = LiteralExpression s l"
| "withSpan s (UnaryExpression _ op e) = UnaryExpression s op e"
| "withSpan s (BinaryExpression _ op l r) = BinaryExpression s op l r"

function parseOr :: "nat \<Rightarrow> parser \<Rightarrow> expression parsed"
  and orLoop :: "nat \<Rightarrow> expression \<Rightarrow> parser \<Rightarrow> expression parsed"
  and parseAnd :: "nat \<Rightarrow> parser \<Rightarrow> expression parsed"
  and andLoop :: "nat \<Rightarrow> expression \<Rightarrow> parser \<Rightarrow> expression parsed"
  and parseNot :: "nat \<Rightarrow> parser \<Rightarrow> expression parsed"
  and parseComparison :: "nat \<Rightarrow> parser \<Rightarrow> expression parsed"
  and parsePrimary :: "nat \<Rightarrow> parser \<Rightarrow> expression parsed"
where
  "parseOr depth p = res_bind (parseAnd depth p) (\<lambda>(e, q). orLoop depth e q)"
| "orLoop depth e p =
     (case matchToken p TokOr of
        Some p1 \<Rightarrow> res_bind (parseAnd depth p1) (\<lambda>(r, q). orLoop depth (makeBinary BinOr e r) q)
      | None \<Rightarrow> Inr (e, p))"
| "parseAnd depth p = res_bind (parseNot depth p) (\<lambda>(e, q). andLoop depth e q)"
| "andLoop depth e p =
     (case matchToken p TokAnd of
        Some p1 \<Rightarrow> res_bind (parseNot depth p1) (\<lambda>(r, q). andLoop depth (makeBinary BinAnd e r) q)
      | None \<Rightarrow> Inr (e, p))"
| "parseNot depth p =
     (case matchToken p TokNot of
        Some p1 \<Rightarrow>
          let notToken = previousToken p1 in
          res_bind (requireNestingAvailable notToken depth) (\<lambda>_.
          res_bind (parseNot (depth + 1) p1) (\<lambda>(operand, q).
            Inr (UnaryExpression (spanOf (beginOf notToken) (spanEnd (exprSpan operand))) UnaryNot operand, q)))
      | None \<Rightarrow> parseComparison depth p)"
| "parseComparison depth p =
     res_bind (parsePrimary depth p) (\<lambda>(l, p1).
       if \<not> isComparison (tokKind (peekToken p1)) then Inr (l, p1)
       else
         let p2 = advanceToken p1 in
         res_bind (comparisonOperator (tokKind (previousToken p2))) (\<lambda>op.
         res_bind (parsePrimary depth p2) (\<lambda>(r, q).
           if isComparison (tokKind (peekToken q))
           then failAt (peekToken q) ''chained comparisons are not supported; use AND explicitly''
           else Inr (makeBinary op l r, q))))"
| "parsePrimary depth p =
     (case matchToken p TokIdentifier of
        Some q \<Rightarrow> Inr (IdentifierExpression (tokSpan (previousToken q)) (tokValue (previousToken q)), q)
      | None \<Rightarrow>
        if check p TokInteger \<or> check p TokMinus \<or> check p TokString \<or> check p TokTrue \<or> check p TokFalse \<or> check p TokNull
        then res_bind (parseLiteral p) (\<lambda>(l, q). Inr (LiteralExpression (litSpan l) l, q))
        else
          (case matchToken p TokLeftParen of
             Some p1 \<Rightarrow>
               let leftParen = previousToken p1 in
               res_bind (requireNestingAvailable leftParen depth) (\<lambda>_.
               res_bind (parseOr (depth + 1) p1) (\<lambda>(e, p2).
               res_bind (consume p2 TokRightParen (''expected '' @ [QUOTE] @ '')'' @ [QUOTE] @ '' after parenthesized expression''))
                 (\<lambda>(rightParen, q). Inr (withSpan (spanOf (beginOf leftParen) (endOf rightParen)) e, q))))
           | None \<Rightarrow> failAt (peekToken p) ''expected identifier, literal, or parenthesized expression''))"
  by pat_completeness auto

termination
proof -
  txt \<open>No function gives tokens back; with it, every call is on fewer tokens, or on as many one level down.\<close>
  let ?dom = parseOr_orLoop_parseAnd_andLoop_parseNot_parseComparison_parsePrimary_dom
  have expression_le: "?dom (Inl (Inl (d, p))) \<Longrightarrow> \<forall>e' q. parseOr d p = Inr (e', q) \<longrightarrow> remaining q \<le> remaining p"
    "?dom (Inl (Inr (Inl (d, e, p)))) \<Longrightarrow> \<forall>e' q. orLoop d e p = Inr (e', q) \<longrightarrow> remaining q \<le> remaining p"
    "?dom (Inl (Inr (Inr (d, p)))) \<Longrightarrow> \<forall>e' q. parseAnd d p = Inr (e', q) \<longrightarrow> remaining q \<le> remaining p"
    "?dom (Inr (Inl (Inl (d, e, p)))) \<Longrightarrow> \<forall>e' q. andLoop d e p = Inr (e', q) \<longrightarrow> remaining q \<le> remaining p"
    "?dom (Inr (Inl (Inr (d, p)))) \<Longrightarrow> \<forall>e' q. parseNot d p = Inr (e', q) \<longrightarrow> remaining q \<le> remaining p"
    "?dom (Inr (Inr (Inl (d, p)))) \<Longrightarrow> \<forall>e' q. parseComparison d p = Inr (e', q) \<longrightarrow> remaining q \<le> remaining p"
    "?dom (Inr (Inr (Inr (d, p)))) \<Longrightarrow> \<forall>e' q. parsePrimary d p = Inr (e', q) \<longrightarrow> remaining q \<le> remaining p"
    for d p e
  proof (induction d p and d e p and d p and d e p and d p and d p and d p rule: parseOr_orLoop_parseAnd_andLoop_parseNot_parseComparison_parsePrimary.pinduct)
    case (1 depth p)
    then show ?case by (fastforce simp: parseOr.psimps res_bind_eq_Inr)
  next
    case (2 depth e p)
    then show ?case by (fastforce simp: orLoop.psimps res_bind_eq_Inr dest: match_le split: option.splits)
  next
    case (3 depth p)
    then show ?case by (fastforce simp: parseAnd.psimps res_bind_eq_Inr)
  next
    case (4 depth e p)
    then show ?case by (fastforce simp: andLoop.psimps res_bind_eq_Inr dest: match_le split: option.splits)
  next
    case (5 depth p)
    then show ?case by (fastforce simp: parseNot.psimps Let_def res_bind_eq_Inr dest: match_le split: option.splits)
  next
    case (6 depth p)
    show ?case
    proof (intro allI impI)
      fix e' q assume "parseComparison depth p = Inr (e', q)"
      with 6(1) obtain l p1 where l: "parsePrimary depth p = Inr (l, p1)"
        and r: "q = p1 \<or> (\<exists>r. isComparison (tokKind (peekToken p1)) \<and>
          (\<exists>op. comparisonOperator (tokKind (previousToken (advanceToken p1))) = Inr op) \<and>
          parsePrimary depth (advanceToken p1) = Inr (r, q))"
        by (auto simp: parseComparison.psimps Let_def failAt_def res_bind_eq_Inr split: if_splits)
      from 6(2) l have "remaining p1 \<le> remaining p" by blast
      with r 6(3) [OF l refl] advance_le [of p1] show "remaining q \<le> remaining p" by fastforce
    qed
  next
    case (7 depth p)
    then show ?case
      by (fastforce simp: parsePrimary.psimps Let_def failAt_def res_bind_eq_Inr
          dest: match_le parseLiteral_le consume_le split: option.splits if_splits)
  qed
  show ?thesis
    by (relation "measures
        [case_sum (case_sum (\<lambda>(d, p). remaining p) (case_sum (\<lambda>(d, e, p). remaining p) (\<lambda>(d, p). remaining p)))
           (case_sum (case_sum (\<lambda>(d, e, p). remaining p) (\<lambda>(d, p). remaining p))
              (case_sum (\<lambda>(d, p). remaining p) (\<lambda>(d, p). remaining p))),
         case_sum (case_sum (\<lambda>_. 7) (case_sum (\<lambda>_. 6) (\<lambda>_. 5)))
           (case_sum (case_sum (\<lambda>_. 4) (\<lambda>_. 3)) (case_sum (\<lambda>_. 2) (\<lambda>_. 1)))]")
      (simp_all, auto dest!: expression_le [rule_format] match_less
        intro: le_neq_implies_less le_less_trans order_trans [OF advance_le])
qed

declare parseOr.simps [simp del] orLoop.simps [simp del] parseAnd.simps [simp del] andLoop.simps [simp del]
  parseNot.simps [simp del] parseComparison.simps [simp del] parsePrimary.simps [simp del]

definition parseExpression :: "parser \<Rightarrow> expression parsed" where
  "parseExpression p = parseOr 0 p"

definition parseWhere :: "parser \<Rightarrow> expression option parsed" where
  "parseWhere p =
     (case matchToken p TokWhere of
        Some p1 \<Rightarrow> res_bind (parseExpression p1) (\<lambda>(e, q). Inr (Some e, q))
      | None \<Rightarrow> Inr (None, p))"

section \<open>CREATE TABLE\<close>

abbreviation quoted :: "string \<Rightarrow> string" where "quoted s \<equiv> [QUOTE] @ s @ [QUOTE]"

definition parseTypeSpecification :: "parser \<Rightarrow> sql_type_specification parsed" where
  "parseTypeSpecification p =
     (let start = beginOf (peekToken p);
          simple = (\<lambda>kind q. Inr (\<lparr>typeKind = kind, varcharSizeMagnitude = None,
                                   typeSpan = spanOf start (endOf (previousToken q))\<rparr>, q)) in
      case matchToken p TokUint32 of
        Some q \<Rightarrow> simple SqlUint32 q
      | None \<Rightarrow>
      (case matchToken p TokInt64 of
        Some q \<Rightarrow> simple SqlInt64 q
      | None \<Rightarrow>
      (case matchToken p TokBoolean of
        Some q \<Rightarrow> simple SqlBoolean q
      | None \<Rightarrow>
      (case matchToken p TokVarchar of
        Some p1 \<Rightarrow>
          res_bind (consume p1 TokLeftParen (''expected '' @ quoted ''('' @ '' after VARCHAR'')) (\<lambda>(_, p2).
          res_bind (consume p2 TokInteger ''expected unsigned VARCHAR size'') (\<lambda>(size, p3).
          res_bind (consume p3 TokRightParen (''expected '' @ quoted '')'' @ '' after VARCHAR size'')) (\<lambda>(_, q).
            Inr (\<lparr>typeKind = SqlVarchar, varcharSizeMagnitude = Some (tokValue size),
                  typeSpan = spanOf start (endOf (previousToken q))\<rparr>, q))))
      | None \<Rightarrow> failAt (peekToken p) ''expected UINT32, INT64, BOOLEAN, or VARCHAR type''))))"

lemma parseTypeSpecification_le: "parseTypeSpecification p = Inr (t, q) \<Longrightarrow> remaining q \<le> remaining p"
  by (auto simp: parseTypeSpecification_def Let_def failAt_def res_bind_eq_Inr dest!: match_le consume_le
      split: option.splits)

function constraintLoop ::
  "null_constraint \<Rightarrow> bool \<Rightarrow> source_location \<Rightarrow> parser \<Rightarrow> (null_constraint \<times> bool \<times> source_location) parsed" where
  "constraintLoop nullConstraint primaryKey endLoc p =
     (if check p TokPrimary \<or> check p TokNot \<or> check p TokNull then
        (case matchToken p TokPrimary of
           Some p1 \<Rightarrow>
             if primaryKey then failAt (previousToken p1) ''duplicate PRIMARY KEY constraint''
             else res_bind (consume p1 TokKey ''expected KEY after PRIMARY'') (\<lambda>(_, q).
               constraintLoop nullConstraint True (endOf (previousToken q)) q)
         | None \<Rightarrow>
           (case matchToken p TokNot of
              Some p1 \<Rightarrow>
                res_bind (consume p1 TokNull ''expected NULL after NOT'') (\<lambda>(_, q).
                  if nullConstraint \<noteq> NullUnspecified
                  then failAt (previousToken p1) ''duplicate or contradictory NULL constraint''
                  else constraintLoop NotNull primaryKey (endOf (previousToken q)) q)
            | None \<Rightarrow>
                let q = advanceToken p; nullToken = previousToken q in
                if nullConstraint \<noteq> NullUnspecified
                then failAt nullToken ''duplicate or contradictory NULL constraint''
                else constraintLoop NullAllowed primaryKey (endOf nullToken) q))
      else Inr ((nullConstraint, primaryKey, endLoc), p))"
  by auto
termination
  by (relation "measure (\<lambda>(_, _, _, p). remaining p)") (auto dest!: match_less consume_le intro: check_less)

declare constraintLoop.simps [simp del]

definition parseColumnSpecification :: "parser \<Rightarrow> column_specification parsed" where
  "parseColumnSpecification p =
     res_bind (consume p TokIdentifier ''expected column name'') (\<lambda>(name, p1).
     res_bind (parseTypeSpecification p1) (\<lambda>(ty, p2).
     res_bind (constraintLoop NullUnspecified False (spanEnd (typeSpan ty)) p2) (\<lambda>((nullConstraint, primaryKey, e), q).
       Inr (\<lparr>specName = tokValue name, specType = ty, specNull = nullConstraint, specPrimaryKey = primaryKey,
             specSpan = spanOf (beginOf name) e\<rparr>, q))))"

lemma constraintLoop_le: "constraintLoop n pk e p = Inr (r, q) \<Longrightarrow> remaining q \<le> remaining p"
proof (induction "remaining p" arbitrary: n pk e p rule: less_induct)
  case less
  have step: "remaining q \<le> remaining p" if "constraintLoop n' pk' e' b = Inr (r, q)" "remaining b < remaining p" for n' pk' e' b
    using less.hyps [OF that(2,1)] that(2) by simp
  from less.prems show ?case
    by (subst (asm) constraintLoop.simps)
      (auto simp: Let_def failAt_def res_bind_eq_Inr split: if_splits option.splits
        dest!: match_less consume_le elim!: step intro: check_less)
qed

lemma parseColumnSpecification_le: "parseColumnSpecification p = Inr (c, q) \<Longrightarrow> remaining q \<le> remaining p"
  by (auto simp: parseColumnSpecification_def res_bind_eq_Inr dest!: consume_le parseTypeSpecification_le constraintLoop_le)

function columnLoop :: "column_specification list \<Rightarrow> parser \<Rightarrow> column_specification list parsed" where
  "columnLoop columns p =
     (case matchToken p TokComma of
        Some p1 \<Rightarrow>
          if check p1 TokRightParen
          then failAt (peekToken p1) ''trailing comma is not allowed after a column definition''
          else res_bind (parseColumnSpecification p1) (\<lambda>(c, q). columnLoop (columns @ [c]) q)
      | None \<Rightarrow> Inr (columns, p))"
  by auto
termination
  by (relation "measure (\<lambda>(_, p). remaining p)") (auto dest!: match_less parseColumnSpecification_le)

declare columnLoop.simps [simp del]

definition parseCreateTable :: "parser \<Rightarrow> create_table_statement parsed" where
  "parseCreateTable p =
     res_bind (consume p TokTable ''expected TABLE after CREATE'') (\<lambda>(_, p1).
     res_bind (consume p1 TokIdentifier ''expected table name after CREATE TABLE'') (\<lambda>(table, p2).
     res_bind (consume p2 TokLeftParen (''expected '' @ quoted ''('' @ '' before column definitions'')) (\<lambda>(_, p3).
       if check p3 TokRightParen
       then failAt (peekToken p3) ''CREATE TABLE requires at least one column definition''
       else
         res_bind (parseColumnSpecification p3) (\<lambda>(first, p4).
         res_bind (columnLoop [first] p4) (\<lambda>(columns, p5).
         res_bind (consume p5 TokRightParen (''expected '' @ quoted '')'' @ '' after column definitions'')) (\<lambda>(_, q).
           Inr (\<lparr>createTable = tokValue table, createColumns = columns, createTableSpan = tokSpan table\<rparr>, q)))))))"

section \<open>INSERT\<close>

function identifierLoop ::
  "string \<Rightarrow> string list \<Rightarrow> source_span list \<Rightarrow> parser \<Rightarrow> (string list \<times> source_span list) parsed" where
  "identifierLoop context identifiers spans p =
     (case matchToken p TokComma of
        Some p1 \<Rightarrow>
          if check p1 TokRightParen then failAt (peekToken p1) (''trailing comma is not allowed in '' @ context)
          else res_bind (consume p1 TokIdentifier (''expected identifier after comma in '' @ context)) (\<lambda>(t, q).
            identifierLoop context (identifiers @ [tokValue t]) (spans @ [tokSpan t]) q)
      | None \<Rightarrow> Inr ((identifiers, spans), p))"
  by auto
termination
  by (relation "measure (\<lambda>(_, _, _, p). remaining p)") (auto dest!: match_less consume_le)

declare identifierLoop.simps [simp del]

definition parseIdentifierList :: "string \<Rightarrow> parser \<Rightarrow> (string list \<times> source_span list) parsed" where
  "parseIdentifierList context p =
     (if check p TokRightParen then failAt (peekToken p) (context @ '' cannot be empty'')
      else res_bind (consume p TokIdentifier (''expected identifier in '' @ context)) (\<lambda>(first, p1).
        identifierLoop context [tokValue first] [tokSpan first] p1))"

function literalLoop :: "sql_literal list \<Rightarrow> parser \<Rightarrow> sql_literal list parsed" where
  "literalLoop vs p =
     (case matchToken p TokComma of
        Some p1 \<Rightarrow>
          if check p1 TokRightParen then failAt (peekToken p1) ''trailing comma is not allowed in VALUES list''
          else res_bind (parseLiteral p1) (\<lambda>(v, q). literalLoop (vs @ [v]) q)
      | None \<Rightarrow> Inr (vs, p))"
  by auto
termination
  by (relation "measure (\<lambda>(_, p). remaining p)") (auto dest!: match_less parseLiteral_le)

declare literalLoop.simps [simp del]

definition parseLiteralList :: "parser \<Rightarrow> sql_literal list parsed" where
  "parseLiteralList p =
     (if check p TokRightParen then failAt (peekToken p) ''VALUES list cannot be empty''
      else res_bind (parseLiteral p) (\<lambda>(v, p1). literalLoop [v] p1))"

definition parseInsertColumns :: "parser \<Rightarrow> (string list \<times> source_span list) option parsed" where
  "parseInsertColumns p =
     (case matchToken p TokLeftParen of
        Some p1 \<Rightarrow>
          res_bind (parseIdentifierList ''INSERT column list'' p1) (\<lambda>(ids, p2).
          res_bind (consume p2 TokRightParen (''expected '' @ quoted '')'' @ '' after INSERT column list'')) (\<lambda>(_, q).
            Inr (Some ids, q)))
      | None \<Rightarrow> Inr (None, p))"

definition parseInsert :: "parser \<Rightarrow> insert_statement parsed" where
  "parseInsert p =
     res_bind (consume p TokInto ''expected INTO after INSERT'') (\<lambda>(_, p1).
     res_bind (consume p1 TokIdentifier ''expected table name after INSERT INTO'') (\<lambda>(table, p2).
     res_bind (parseInsertColumns p2) (\<lambda>(columns, p3).
     res_bind (consume p3 TokValues ''expected VALUES in INSERT statement'') (\<lambda>(_, p4).
     res_bind (consume p4 TokLeftParen (''expected '' @ quoted ''('' @ '' before VALUES list'')) (\<lambda>(_, p5).
     res_bind (parseLiteralList p5) (\<lambda>(vs, p6).
     res_bind (consume p6 TokRightParen (''expected '' @ quoted '')'' @ '' after VALUES list'')) (\<lambda>(_, q).
       Inr (\<lparr>insertTable = tokValue table, insertColumns = map_option fst columns, insertValues = vs,
             insertTableSpan = tokSpan table, insertColumnSpans = map_option snd columns\<rparr>, q))))))))"

section \<open>SELECT\<close>

function projectionLoop :: "string list \<Rightarrow> source_span list \<Rightarrow> parser \<Rightarrow> (string list \<times> source_span list) parsed" where
  "projectionLoop columns spans p =
     (case matchToken p TokComma of
        Some p1 \<Rightarrow>
          if check p1 TokStar then failAt (peekToken p1) (''cannot mix '' @ quoted ''*'' @ '' with named SELECT projections'')
          else res_bind (consume p1 TokIdentifier ''expected column identifier after comma'') (\<lambda>(t, q).
            projectionLoop (columns @ [tokValue t]) (spans @ [tokSpan t]) q)
      | None \<Rightarrow> Inr ((columns, spans), p))"
  by auto
termination
  by (relation "measure (\<lambda>(_, _, p). remaining p)") (auto dest!: match_less consume_le)

declare projectionLoop.simps [simp del]

definition parseProjection :: "parser \<Rightarrow> (bool \<times> string list \<times> source_span list) parsed" where
  "parseProjection p =
     (case matchToken p TokStar of
        Some q \<Rightarrow> Inr ((True, [], []), q)
      | None \<Rightarrow>
          if \<not> check p TokIdentifier
          then failAt (peekToken p) (''expected '' @ quoted ''*'' @ '' or column identifier after SELECT'')
          else
            let p1 = advanceToken p; first = previousToken p1 in
            res_bind (projectionLoop [tokValue first] [tokSpan first] p1) (\<lambda>((columns, spans), q).
              Inr ((False, columns, spans), q)))"

definition parseSelect :: "parser \<Rightarrow> select_statement parsed" where
  "parseSelect p =
     res_bind (parseProjection p) (\<lambda>((all, columns, spans), p1).
     res_bind (consume p1 TokFrom ''expected FROM after SELECT projection'') (\<lambda>(_, p2).
     res_bind (consume p2 TokIdentifier ''expected table name after FROM'') (\<lambda>(table, p3).
     res_bind (parseWhere p3) (\<lambda>(w, q).
       Inr (\<lparr>selectAll = all, selectColumns = columns, selectTable = tokValue table, selectWhere = w,
             selectTableSpan = tokSpan table, selectColumnSpans = spans\<rparr>, q)))))"

section \<open>UPDATE and DELETE\<close>

definition parseAssignment :: "parser \<Rightarrow> assignment parsed" where
  "parseAssignment p =
     res_bind (consume p TokIdentifier ''expected assignment column name'') (\<lambda>(column, p1).
     res_bind (consume p1 TokEqual (''expected '' @ quoted ''='' @ '' after assignment column'')) (\<lambda>(_, p2).
     res_bind (parseLiteral p2) (\<lambda>(v, q).
       Inr (\<lparr>assignColumn = tokValue column, assignValue = v,
             assignSpan = spanOf (beginOf column) (endOf (previousToken q)), assignColumnSpan = tokSpan column\<rparr>, q))))"

lemma parseAssignment_le: "parseAssignment p = Inr (a, q) \<Longrightarrow> remaining q \<le> remaining p"
  by (auto simp: parseAssignment_def res_bind_eq_Inr dest!: consume_le parseLiteral_le)

function assignmentLoop :: "assignment list \<Rightarrow> parser \<Rightarrow> assignment list parsed" where
  "assignmentLoop as p =
     res_bind (parseAssignment p) (\<lambda>(a, p1).
       case matchToken p1 TokComma of
         None \<Rightarrow> Inr (as @ [a], p1)
       | Some p2 \<Rightarrow>
           if \<not> check p2 TokIdentifier then failAt (peekToken p2) ''expected assignment after comma''
           else assignmentLoop (as @ [a]) p2)"
  by auto
termination
  by (relation "measure (\<lambda>(_, p). remaining p)") (auto dest!: match_less parseAssignment_le)

declare assignmentLoop.simps [simp del]

definition parseUpdate :: "parser \<Rightarrow> update_statement parsed" where
  "parseUpdate p =
     res_bind (consume p TokIdentifier ''expected table name after UPDATE'') (\<lambda>(table, p1).
     res_bind (consume p1 TokSet ''expected SET after UPDATE table name'') (\<lambda>(_, p2).
       if \<not> check p2 TokIdentifier
       then failAt (peekToken p2) ''UPDATE SET requires at least one assignment''
       else
         res_bind (assignmentLoop [] p2) (\<lambda>(as, p3).
         res_bind (parseWhere p3) (\<lambda>(w, q).
           Inr (\<lparr>updateTable = tokValue table, updateAssignments = as, updateWhere = w,
                 updateTableSpan = tokSpan table\<rparr>, q)))))"

definition parseDelete :: "parser \<Rightarrow> delete_statement parsed" where
  "parseDelete p =
     res_bind (consume p TokFrom ''expected FROM after DELETE'') (\<lambda>(_, p1).
     res_bind (consume p1 TokIdentifier ''expected table name after DELETE FROM'') (\<lambda>(table, p2).
     res_bind (parseWhere p2) (\<lambda>(w, q).
       Inr (\<lparr>deleteTable = tokValue table, deleteWhere = w, deleteTableSpan = tokSpan table\<rparr>, q))))"

section \<open>Statements\<close>

definition parseBegin :: "parser \<Rightarrow> transaction_access_mode parsed" where
  "parseBegin p =
     (let p1 = (case matchToken p TokTransaction of Some q \<Rightarrow> q | None \<Rightarrow> p) in
      case matchToken p1 TokRead of
        Some p2 \<Rightarrow>
          (case matchToken p2 TokOnly of
             Some q \<Rightarrow> Inr (TxReadOnly, q)
           | None \<Rightarrow>
               (case matchToken p2 TokWrite of
                  Some q \<Rightarrow> Inr (TxReadWrite, q)
                | None \<Rightarrow> failAt (peekToken p2) ''expected ONLY or WRITE after READ''))
      | None \<Rightarrow> Inr (TxReadWrite, p1))"

definition parseNode :: "parser \<Rightarrow> statement_node parsed" where
  "parseNode p =
     (case matchToken p TokCreate of
        Some p1 \<Rightarrow> res_bind (parseCreateTable p1) (\<lambda>(c, q). Inr (CreateTableStatement c, q))
      | None \<Rightarrow>
     (case matchToken p TokInsert of
        Some p1 \<Rightarrow> res_bind (parseInsert p1) (\<lambda>(i, q). Inr (InsertStatement i, q))
      | None \<Rightarrow>
     (case matchToken p TokSelect of
        Some p1 \<Rightarrow> res_bind (parseSelect p1) (\<lambda>(s, q). Inr (SelectStatement s, q))
      | None \<Rightarrow>
     (case matchToken p TokUpdate of
        Some p1 \<Rightarrow> res_bind (parseUpdate p1) (\<lambda>(u, q). Inr (UpdateStatement u, q))
      | None \<Rightarrow>
     (case matchToken p TokDelete of
        Some p1 \<Rightarrow> res_bind (parseDelete p1) (\<lambda>(d, q). Inr (DeleteStatement d, q))
      | None \<Rightarrow>
     (case matchToken p TokBegin of
        Some p1 \<Rightarrow> res_bind (parseBegin p1) (\<lambda>(m, q). Inr (BeginStatement m, q))
      | None \<Rightarrow>
     (case matchToken p TokCommit of
        Some q \<Rightarrow> Inr (CommitStatement, q)
      | None \<Rightarrow>
     (case matchToken p TokRollback of
        Some q \<Rightarrow> Inr (RollbackStatement, q)
      | None \<Rightarrow> failAt (peekToken p)
          ''expected CREATE, INSERT, SELECT, UPDATE, DELETE, BEGIN, COMMIT, or ROLLBACK statement''))))))))"

definition parseStatement :: "parser \<Rightarrow> statement parsed" where
  "parseStatement p =
     (let start = beginOf (peekToken p) in
      res_bind (parseNode p) (\<lambda>(node, p1).
        let p2 = (case matchToken p1 TokSemicolon of Some q \<Rightarrow> q | None \<Rightarrow> p1);
            e = endOf (previousToken p2) in
        res_bind (consume p2 TokEndOfFile ''expected end of input after one SQL statement'') (\<lambda>(_, q).
          Inr (\<lparr>stmtSpan = spanOf start e, stmtNode = node\<rparr>, q))))"

definition parseSql :: "string \<Rightarrow> statement res" where
  "parseSql text =
     res_bind (tokenize text) (\<lambda>tokens.
     res_bind (newParser tokens) (\<lambda>p.
     res_bind (parseStatement p) (\<lambda>(s, _). Inr s)))"

end
