(* ===== verification/Sql_Print.thy ===== *)
theory Sql_Print
  imports Sql_Parser
begin

text \<open>
  A printer for syntax trees and the proof that the parser inverts it.

  The printer writes the grammar of the language down from the tree's side: \<open>unparse n e\<close> are the
  tokens of an expression where the grammar expects level \<open>n\<close> (1 OR, 2 AND, 3 NOT, 4 comparison,
  5 primary), with parentheses exactly where the level demands them. That the parser returns the
  printed tree - and not merely some tree - fixes precedence and associativity.
\<close>

section \<open>Trees without locations\<close>

definition noSpan :: source_span where
  "noSpan = spanOf startLocation startLocation"

definition eraseLiteral :: "sql_literal \<Rightarrow> sql_literal" where
  "eraseLiteral l = l\<lparr>litSpan := noSpan\<rparr>"

fun eraseExpr :: "expression \<Rightarrow> expression" where
  "eraseExpr (IdentifierExpression _ n) = IdentifierExpression noSpan n"
| "eraseExpr (LiteralExpression _ l) = LiteralExpression noSpan (eraseLiteral l)"
| "eraseExpr (UnaryExpression _ op e) = UnaryExpression noSpan op (eraseExpr e)"
| "eraseExpr (BinaryExpression _ op l r) = BinaryExpression noSpan op (eraseExpr l) (eraseExpr r)"

definition sameExpr :: "expression \<Rightarrow> expression \<Rightarrow> bool" where
  "sameExpr d e \<longleftrightarrow> eraseExpr d = eraseExpr e"

lemma erase_withSpan [simp]: "eraseExpr (withSpan s e) = eraseExpr e"
  by (cases e) simp_all

lemma erase_makeBinary [simp]: "eraseExpr (makeBinary op l r) = BinaryExpression noSpan op (eraseExpr l) (eraseExpr r)"
  by (simp add: makeBinary_def)

section \<open>Printing\<close>

type_synonym words = "(token_kind \<times> string) list"

abbreviation word :: "token_kind \<Rightarrow> token_kind \<times> string" where "word k \<equiv> (k, tokenKindName k)"

fun unparseLiteral :: "literal_value \<Rightarrow> words" where
  "unparseLiteral NullLiteral = [word TokNull]"
| "unparseLiteral (BooleanLiteral b) = [word (if b then TokTrue else TokFalse)]"
| "unparseLiteral (IntegerLiteral negative magnitude) = (if negative then [word TokMinus] else []) @ [(TokInteger, magnitude)]"
| "unparseLiteral (StringLiteral v) = [(TokString, v)]"

fun operatorToken :: "binary_operator \<Rightarrow> token_kind" where
  "operatorToken BinEqual = TokEqual"
| "operatorToken BinNotEqual = TokBangEqual"
| "operatorToken BinLess = TokLess"
| "operatorToken BinLessEqual = TokLessEqual"
| "operatorToken BinGreater = TokGreater"
| "operatorToken BinGreaterEqual = TokGreaterEqual"
| "operatorToken BinAnd = TokAnd"
| "operatorToken BinOr = TokOr"

definition parens :: "bool \<Rightarrow> words \<Rightarrow> words" where
  "parens b ws = (if b then word TokLeftParen # ws @ [word TokRightParen] else ws)"

fun level :: "binary_operator \<Rightarrow> nat" where
  "level BinOr = 1" | "level BinAnd = 2" | "level _ = 4"

fun leftLevel :: "binary_operator \<Rightarrow> nat" where
  "leftLevel BinOr = 1" | "leftLevel BinAnd = 2" | "leftLevel _ = 5"

fun rightLevel :: "binary_operator \<Rightarrow> nat" where
  "rightLevel BinOr = 2" | "rightLevel BinAnd = 3" | "rightLevel _ = 5"

fun unparse :: "nat \<Rightarrow> expression \<Rightarrow> words" where
  "unparse n (IdentifierExpression _ name) = [(TokIdentifier, name)]"
| "unparse n (LiteralExpression _ l) = unparseLiteral (litValue l)"
| "unparse n (UnaryExpression _ UnaryNot e) = parens (n > 3) (word TokNot # unparse 3 e)"
| "unparse n (BinaryExpression _ op l r) =
     parens (n > level op) (unparse (leftLevel op) l @ word (operatorToken op) # unparse (rightLevel op) r)"

text \<open>How deep the parser nests on the printed tokens.\<close>

fun nesting :: "nat \<Rightarrow> expression \<Rightarrow> nat" where
  "nesting n (IdentifierExpression _ name) = 0"
| "nesting n (LiteralExpression _ l) = 0"
| "nesting n (UnaryExpression _ UnaryNot e) = (if n > 3 then 1 else 0) + (1 + nesting 3 e)"
| "nesting n (BinaryExpression _ op l r) =
     (if n > level op then 1 else 0) + max (nesting (leftLevel op) l) (nesting (rightLevel op) r)"

section \<open>Reading words\<close>

definition ahead :: "parser \<Rightarrow> words" where
  "ahead p = map tokenContent (drop (current p) (tokenList (stream p)))"

lemma ahead_peek:
  assumes "ahead p = (k, v) # ws"
  shows "check p k' \<longleftrightarrow> k' = k" "tokKind (peekToken p) = k"
proof -
  from assms obtain t ts where t: "drop (current p) (tokenList (stream p)) = t # ts" "tokenContent t = (k, v)"
    by (auto simp: ahead_def map_eq_Cons_conv)
  then have "peekToken p = t" using drop_ConsD [OF t(1)] by (simp add: peekToken_def Let_def)
  with t(2) show "check p k' \<longleftrightarrow> k' = k" "tokKind (peekToken p) = k" by (auto simp: check_def tokenContent_def)
qed

lemma ahead_advance:
  assumes "ahead p = (k, v) # ws" "k \<noteq> TokEndOfFile"
  shows "ahead (advanceToken p) = ws" "tokValue (previousToken (advanceToken p)) = v" "tokKind (previousToken (advanceToken p)) = k"
proof -
  from assms(1) obtain t ts where t: "drop (current p) (tokenList (stream p)) = t # ts" "tokenContent t = (k, v)" "map tokenContent ts = ws"
    by (auto simp: ahead_def map_eq_Cons_conv)
  have a: "advanceToken p = p\<lparr>current := current p + 1\<rparr>"
    using ahead_peek [OF assms(1)] assms(2) by (simp add: advanceToken_def)
  show "ahead (advanceToken p) = ws" "tokValue (previousToken (advanceToken p)) = v" "tokKind (previousToken (advanceToken p)) = k"
    unfolding a using drop_ConsD [OF t(1)] t(2,3) by (auto simp: ahead_def previousToken_def tokenContent_def)
qed

lemma ahead_match:
  assumes "ahead p = (k, v) # ws"
  shows "matchToken p k' = (if k' = k then Some (advanceToken p) else None)"
  using ahead_peek [OF assms] by (simp add: matchToken_def)

lemma ahead_consume:
  assumes "ahead p = (k, v) # ws" "k \<noteq> TokEndOfFile"
  shows "\<exists>t q. consume p k message = Inr (t, q) \<and> tokValue t = v \<and> ahead q = ws"
  using ahead_peek [OF assms(1)] ahead_advance [OF assms] by (simp add: consume_def)

lemmas ahead_simps = ahead_peek ahead_match

section \<open>Literals\<close>

lemma parse_literal:
  assumes "ahead p = unparseLiteral (litValue l) @ ws"
  shows "\<exists>l' q. parseLiteral p = Inr (l', q) \<and> eraseLiteral l' = eraseLiteral l \<and> ahead q = ws"
proof (cases "litValue l")
  case NullLiteral
  with assms have a: "ahead p = (TokNull, ''NULL'') # ws" by simp
  show ?thesis using ahead_advance [OF a] NullLiteral
    by (simp add: parseLiteral_def ahead_match [OF a] Let_def eraseLiteral_def)
next
  case (BooleanLiteral b)
  with assms have a: "ahead p = (if b then TokTrue else TokFalse, tokenKindName (if b then TokTrue else TokFalse)) # ws" by simp
  show ?thesis using ahead_advance [OF a] BooleanLiteral
    by (cases b) (simp_all add: parseLiteral_def ahead_match [OF a] Let_def eraseLiteral_def)
next
  case (StringLiteral v)
  with assms have a: "ahead p = (TokString, v) # ws" by simp
  show ?thesis using ahead_advance [OF a] StringLiteral
    by (simp add: parseLiteral_def ahead_match [OF a] Let_def eraseLiteral_def)
next
  case (IntegerLiteral neg mag)
  show ?thesis
  proof (cases neg)
    case True
    with assms IntegerLiteral have a: "ahead p = (TokMinus, ''-'') # (TokInteger, mag) # ws" by simp
    have b: "ahead (advanceToken p) = (TokInteger, mag) # ws" using ahead_advance [OF a] by simp
    show ?thesis using ahead_advance [OF b] IntegerLiteral True
      by (simp add: parseLiteral_def ahead_match [OF a] ahead_simps [OF b] Let_def eraseLiteral_def)
  next
    case False
    with assms IntegerLiteral have a: "ahead p = (TokInteger, mag) # ws" by simp
    show ?thesis using ahead_advance [OF a] IntegerLiteral False
      by (simp add: parseLiteral_def ahead_match [OF a] Let_def eraseLiteral_def)
  qed
qed

section \<open>Expressions\<close>

text \<open>
  What it means that a parsing function reads words \<open>ws\<close> as the tree \<open>e\<close>, needing \<open>n\<close> levels of
  nesting: whatever follows (as long as the next word does not continue the construct), it returns
  the tree and stops right behind the words. For the two left-associative levels the function is
  then in its loop with the tree read so far.
\<close>

definition nextKind :: "words \<Rightarrow> token_kind" where
  "nextKind ws = fst (hd ws)"

definition readsPrimary :: "words \<Rightarrow> nat \<Rightarrow> expression \<Rightarrow> bool" where
  "readsPrimary ws n e \<longleftrightarrow> (\<forall>d p rest. ahead p = ws @ rest \<longrightarrow> d + n \<le> 128 \<longrightarrow>
     (\<exists>e' q. parsePrimary d p = Inr (e', q) \<and> sameExpr e' e \<and> ahead q = rest))"

definition readsComparison :: "words \<Rightarrow> nat \<Rightarrow> expression \<Rightarrow> bool" where
  "readsComparison ws n e \<longleftrightarrow> (\<forall>d p rest. ahead p = ws @ rest \<longrightarrow> rest \<noteq> [] \<longrightarrow> \<not> isComparison (nextKind rest) \<longrightarrow> d + n \<le> 128 \<longrightarrow>
     (\<exists>e' q. parseComparison d p = Inr (e', q) \<and> sameExpr e' e \<and> ahead q = rest))"

definition readsNot :: "words \<Rightarrow> nat \<Rightarrow> expression \<Rightarrow> bool" where
  "readsNot ws n e \<longleftrightarrow> (\<forall>d p rest. ahead p = ws @ rest \<longrightarrow> rest \<noteq> [] \<longrightarrow> \<not> isComparison (nextKind rest) \<longrightarrow> d + n \<le> 128 \<longrightarrow>
     (\<exists>e' q. parseNot d p = Inr (e', q) \<and> sameExpr e' e \<and> ahead q = rest))"

definition readsAnd :: "words \<Rightarrow> nat \<Rightarrow> expression \<Rightarrow> bool" where
  "readsAnd ws n e \<longleftrightarrow> (\<forall>d p rest. ahead p = ws @ rest \<longrightarrow> rest \<noteq> [] \<longrightarrow> \<not> isComparison (nextKind rest) \<longrightarrow> d + n \<le> 128 \<longrightarrow>
     (\<exists>e' q. parseAnd d p = andLoop d e' q \<and> sameExpr e' e \<and> ahead q = rest))"

definition readsOr :: "words \<Rightarrow> nat \<Rightarrow> expression \<Rightarrow> bool" where
  "readsOr ws n e \<longleftrightarrow> (\<forall>d p rest. ahead p = ws @ rest \<longrightarrow> rest \<noteq> [] \<longrightarrow> \<not> isComparison (nextKind rest) \<longrightarrow>
     nextKind rest \<noteq> TokAnd \<longrightarrow> d + n \<le> 128 \<longrightarrow>
     (\<exists>e' q. parseOr d p = orLoop d e' q \<and> sameExpr e' e \<and> ahead q = rest))"

lemma ahead_next:
  assumes "ahead p = ws" "ws \<noteq> []"
  shows "tokKind (peekToken p) = nextKind ws" "matchToken p k = (if k = nextKind ws then Some (advanceToken p) else None)"
  using assms by (cases ws; auto simp: nextKind_def ahead_simps)+

lemma loop_stops:
  assumes "ahead q = rest" "rest \<noteq> []"
  shows "nextKind rest \<noteq> TokAnd \<Longrightarrow> andLoop d e q = Inr (e, q)"
    and "nextKind rest \<noteq> TokOr \<Longrightarrow> orLoop d e q = Inr (e, q)"
  using ahead_next(2) [OF assms] by (auto simp: andLoop.simps orLoop.simps)

lemma readsPrimary_comparison: "readsPrimary ws n e \<Longrightarrow> readsComparison ws n e"
  unfolding readsPrimary_def readsComparison_def
  by (fastforce simp: parseComparison.simps ahead_next)

lemma readsComparison_not: "readsComparison ws n e \<Longrightarrow> ws \<noteq> [] \<Longrightarrow> nextKind ws \<noteq> TokNot \<Longrightarrow> readsNot ws n e"
  unfolding readsNot_def
proof (intro allI impI)
  fix d p rest
  assume r: "readsComparison ws n e" "ws \<noteq> []" "nextKind ws \<noteq> TokNot" and a: "ahead p = ws @ rest" "rest \<noteq> []"
    "\<not> isComparison (nextKind rest)" "d + n \<le> 128"
  from r(2,3) have "nextKind (ws @ rest) \<noteq> TokNot" "ws @ rest \<noteq> []" by (simp_all add: nextKind_def)
  with ahead_next(2) [OF a(1)] have "matchToken p TokNot = None" by auto
  with r(1) a show "\<exists>e' q. parseNot d p = Inr (e', q) \<and> sameExpr e' e \<and> ahead q = rest"
    by (auto simp: parseNot.simps readsComparison_def)
qed

lemma readsNot_and: "readsNot ws n e \<Longrightarrow> readsAnd ws n e"
  unfolding readsNot_def readsAnd_def by (fastforce simp: parseAnd.simps)

lemma readsAnd_or: "readsAnd ws n e \<Longrightarrow> readsOr ws n e"
  unfolding readsAnd_def readsOr_def
proof (intro allI impI)
  fix d p rest
  assume r: "\<forall>d p rest. ahead p = ws @ rest \<longrightarrow> rest \<noteq> [] \<longrightarrow> \<not> isComparison (nextKind rest) \<longrightarrow> d + n \<le> 128 \<longrightarrow>
      (\<exists>e' q. parseAnd d p = andLoop d e' q \<and> sameExpr e' e \<and> ahead q = rest)"
    and a: "ahead p = ws @ rest" "rest \<noteq> []" "\<not> isComparison (nextKind rest)" "nextKind rest \<noteq> TokAnd" "d + n \<le> 128"
  from r a obtain e' q where q: "parseAnd d p = andLoop d e' q" "sameExpr e' e" "ahead q = rest" by blast
  with loop_stops(1) [OF q(3) a(2,4)] show "\<exists>e' q. parseOr d p = orLoop d e' q \<and> sameExpr e' e \<and> ahead q = rest"
    by (auto simp: parseOr.simps)
qed

lemma readsOr_parens:
  assumes "readsOr ws n e"
  shows "readsPrimary (parens True ws) (Suc n) e"
  unfolding readsPrimary_def
proof (intro allI impI)
  fix d p rest
  assume a: "ahead p = parens True ws @ rest" "d + Suc n \<le> 128"
  then have ap: "ahead p = (TokLeftParen, ''('') # ws @ (TokRightParen, '')'') # rest" by (simp add: parens_def)
  note m = ahead_simps [OF ap]
  have a1: "ahead (advanceToken p) = ws @ (TokRightParen, '')'') # rest" using ahead_advance [OF ap] by simp
  have "\<not> isComparison TokRightParen" by (simp add: isComparison_def)
  with a(2) obtain e' q where q: "parseOr (d + 1) (advanceToken p) = orLoop (d + 1) e' q" "sameExpr e' e"
    "ahead q = (TokRightParen, '')'') # rest"
    using assms [unfolded readsOr_def, rule_format, OF a1, of "d + 1"] by (auto simp: nextKind_def)
  from loop_stops(2) [OF q(3)] have "parseOr (d + 1) (advanceToken p) = Inr (e', q)"
    using q(1) by (simp add: nextKind_def)
  moreover obtain t r where "consume q TokRightParen (''expected '' @ [QUOTE] @ '')'' @ [QUOTE] @ '' after parenthesized expression'') = Inr (t, r)"
    "ahead r = rest" using ahead_consume [OF q(3)] by blast
  ultimately show "\<exists>e' q. parsePrimary d p = Inr (e', q) \<and> sameExpr e' e \<and> ahead q = rest"
    using q(2) a(2) by (simp add: parsePrimary.simps m Let_def requireNestingAvailable_def sameExpr_def)
qed

lemma readsNot_Not:
  assumes "readsNot ws n e"
  shows "readsNot (word TokNot # ws) (Suc n) (UnaryExpression s UnaryNot e)"
  unfolding readsNot_def
proof (intro allI impI)
  fix d p rest
  assume a: "ahead p = (word TokNot # ws) @ rest" "rest \<noteq> []" "\<not> isComparison (nextKind rest)" "d + Suc n \<le> 128"
  then have ap: "ahead p = (TokNot, ''NOT'') # ws @ rest" by simp
  have a1: "ahead (advanceToken p) = ws @ rest" using ahead_advance [OF ap] by simp
  with a(4) obtain e' q where "parseNot (d + 1) (advanceToken p) = Inr (e', q)" "sameExpr e' e" "ahead q = rest"
    using assms [unfolded readsNot_def, rule_format, OF a1 a(2,3), of "d + 1"] by auto
  with a(4) show "\<exists>e' q. parseNot d p = Inr (e', q) \<and> sameExpr e' (UnaryExpression s UnaryNot e) \<and> ahead q = rest"
    by (simp add: parseNot.simps [of d] ahead_match [OF ap] Let_def requireNestingAvailable_def sameExpr_def)
qed

lemma comparison_operator:
  "level op = 4 \<Longrightarrow> isComparison (operatorToken op) \<and> comparisonOperator (operatorToken op) = Inr op \<and> operatorToken op \<noteq> TokEndOfFile"
  by (cases op) (simp_all add: isComparison_def comparisonOperator_def)

lemma readsComparison_Binary:
  assumes "readsPrimary ws n l" "readsPrimary vs m r" "level op = 4"
  shows "readsComparison (ws @ word (operatorToken op) # vs) (max n m) (BinaryExpression s op l r)"
  unfolding readsComparison_def
proof (intro allI impI)
  fix d p rest
  assume a: "ahead p = (ws @ word (operatorToken op) # vs) @ rest" "rest \<noteq> []" "\<not> isComparison (nextKind rest)" "d + max n m \<le> 128"
  then have nm: "d + n \<le> 128" "d + m \<le> 128" by simp_all
  note op = comparison_operator [OF assms(3)]
  obtain l' q where l: "parsePrimary d p = Inr (l', q)" "sameExpr l' l" "ahead q = word (operatorToken op) # vs @ rest"
    using assms(1) [unfolded readsPrimary_def, rule_format, of p "word (operatorToken op) # vs @ rest" d] a(1) nm by auto
  note adv = ahead_advance [OF l(3)]
  obtain r' q' where r: "parsePrimary d (advanceToken q) = Inr (r', q')" "sameExpr r' r" "ahead q' = rest"
    using assms(2) [unfolded readsPrimary_def, rule_format, of "advanceToken q" rest d] adv op nm by auto
  from ahead_next(1) [OF r(3) a(2)] a(3) have "\<not> isComparison (tokKind (peekToken q'))" by simp
  with l r op adv ahead_peek [OF l(3)] show "\<exists>e' q. parseComparison d p = Inr (e', q) \<and> sameExpr e' (BinaryExpression s op l r) \<and> ahead q = rest"
    by (simp add: parseComparison.simps Let_def sameExpr_def)
qed

lemma readsAnd_Binary:
  assumes "readsAnd ws n l" "readsNot vs m r"
  shows "readsAnd (ws @ word TokAnd # vs) (max n m) (BinaryExpression s BinAnd l r)"
  unfolding readsAnd_def
proof (intro allI impI)
  fix d p rest
  assume a: "ahead p = (ws @ word TokAnd # vs) @ rest" "rest \<noteq> []" "\<not> isComparison (nextKind rest)" "d + max n m \<le> 128"
  then have nm: "d + n \<le> 128" "d + m \<le> 128" by simp_all
  have "\<not> isComparison TokAnd" by (simp add: isComparison_def)
  then obtain l' q where l: "parseAnd d p = andLoop d l' q" "sameExpr l' l" "ahead q = (TokAnd, ''AND'') # vs @ rest"
    using assms(1) [unfolded readsAnd_def, rule_format, of p "word TokAnd # vs @ rest" d] a(1) nm by (auto simp: nextKind_def)
  note adv = ahead_advance [OF l(3)]
  obtain r' q' where "parseNot d (advanceToken q) = Inr (r', q')" "sameExpr r' r" "ahead q' = rest"
    using assms(2) [unfolded readsNot_def, rule_format, of "advanceToken q" rest d] a(2,3) nm adv by auto
  with l show "\<exists>e' q. parseAnd d p = andLoop d e' q \<and> sameExpr e' (BinaryExpression s BinAnd l r) \<and> ahead q = rest"
    by (intro exI [of _ "makeBinary BinAnd l' r'"] exI [of _ q'])
      (simp add: andLoop.simps [of d l' q] ahead_match [OF l(3)] sameExpr_def)
qed

lemma readsOr_Binary:
  assumes "readsOr ws n l" "readsAnd vs m r"
  shows "readsOr (ws @ word TokOr # vs) (max n m) (BinaryExpression s BinOr l r)"
  unfolding readsOr_def
proof (intro allI impI)
  fix d p rest
  assume a: "ahead p = (ws @ word TokOr # vs) @ rest" "rest \<noteq> []" "\<not> isComparison (nextKind rest)" "nextKind rest \<noteq> TokAnd"
    "d + max n m \<le> 128"
  then have nm: "d + n \<le> 128" "d + m \<le> 128" by simp_all
  have "\<not> isComparison TokOr" by (simp add: isComparison_def)
  then obtain l' q where l: "parseOr d p = orLoop d l' q" "sameExpr l' l" "ahead q = (TokOr, ''OR'') # vs @ rest"
    using assms(1) [unfolded readsOr_def, rule_format, of p "word TokOr # vs @ rest" d] a(1) nm by (auto simp: nextKind_def)
  note adv = ahead_advance [OF l(3)]
  obtain r' q' where r: "parseAnd d (advanceToken q) = andLoop d r' q'" "sameExpr r' r" "ahead q' = rest"
    using assms(2) [unfolded readsAnd_def, rule_format, of "advanceToken q" rest d] a(2,3) nm adv by auto
  with loop_stops(1) [OF r(3) a(2,4)] have "parseAnd d (advanceToken q) = Inr (r', q')" by simp
  with l r(2,3) show "\<exists>e' q. parseOr d p = orLoop d e' q \<and> sameExpr e' (BinaryExpression s BinOr l r) \<and> ahead q = rest"
    by (intro exI [of _ "makeBinary BinOr l' r'"] exI [of _ q'])
      (simp add: orLoop.simps [of d l' q] ahead_match [OF l(3)] sameExpr_def)
qed

text \<open>A primary that does not start with \<open>NOT\<close> is read at every level; so is anything in parentheses.\<close>

lemma readsPrimary_all:
  assumes "readsPrimary ws n e" "ws \<noteq> []" "nextKind ws \<noteq> TokNot"
  shows "readsComparison ws n e" "readsNot ws n e" "readsAnd ws n e" "readsOr ws n e"
  using readsPrimary_comparison [OF assms(1)] readsComparison_not [OF _ assms(2,3)] readsNot_and readsAnd_or by blast+

lemma readsOr_parens_all:
  assumes "readsOr ws n e"
  shows "readsPrimary (parens True ws) (Suc n) e" "readsComparison (parens True ws) (Suc n) e"
    "readsNot (parens True ws) (Suc n) e" "readsAnd (parens True ws) (Suc n) e"
  using readsOr_parens [OF assms] readsPrimary_all [OF readsOr_parens [OF assms]] by (auto simp: parens_def nextKind_def)

lemma readsPrimary_Identifier: "readsPrimary [(TokIdentifier, name)] 0 (IdentifierExpression s name)"
  unfolding readsPrimary_def
proof (intro allI impI)
  fix d p and rest :: words
  assume "ahead p = [(TokIdentifier, name)] @ rest"
  then have a: "ahead p = (TokIdentifier, name) # rest" by simp
  show "\<exists>e' q. parsePrimary d p = Inr (e', q) \<and> sameExpr e' (IdentifierExpression s name) \<and> ahead q = rest"
    using ahead_advance [OF a] by (simp add: parsePrimary.simps ahead_match [OF a] Let_def sameExpr_def)
qed

lemma unparseLiteral_first:
  "unparseLiteral v \<noteq> [] \<and> nextKind (unparseLiteral v @ ws) \<in> {TokNull, TokTrue, TokFalse, TokMinus, TokInteger, TokString}"
  by (cases v) (simp_all add: nextKind_def)

lemma readsPrimary_Literal: "readsPrimary (unparseLiteral (litValue l)) 0 (LiteralExpression s l)"
  unfolding readsPrimary_def
proof (intro allI impI)
  fix d p and rest :: words
  assume a: "ahead p = unparseLiteral (litValue l) @ rest"
  note n = ahead_next [OF a]
  have "check p k \<longleftrightarrow> k = nextKind (unparseLiteral (litValue l) @ rest)" for k
    using n(1) unparseLiteral_first [of "litValue l" rest] by (auto simp: check_def)
  with parse_literal [OF a] n(2) unparseLiteral_first [of "litValue l" rest]
  show "\<exists>e' q. parsePrimary d p = Inr (e', q) \<and> sameExpr e' (LiteralExpression s l) \<and> ahead q = rest"
    by (auto simp: parsePrimary.simps Let_def sameExpr_def)
qed

lemma unparse_first: "n > 3 \<Longrightarrow> unparse n e \<noteq> [] \<and> (n > 4 \<or> \<not> (\<exists>s op l r. e = BinaryExpression s op l r) \<longrightarrow> nextKind (unparse n e @ ws) \<noteq> TokNot)"
proof (cases e)
  case (LiteralExpression s l)
  then show ?thesis using unparseLiteral_first [of "litValue l" ws] by auto
next
  case (UnaryExpression s op e')
  assume "n > 3"
  with UnaryExpression show ?thesis by (cases op) (simp add: parens_def nextKind_def)
next
  case (BinaryExpression s op l r)
  assume "n > 3"
  moreover have "level op \<le> 4" by (cases op) simp_all
  ultimately show ?thesis using BinaryExpression by (simp add: parens_def nextKind_def)
qed (simp add: nextKind_def)

lemma reads_unparse:
  "readsPrimary (unparse 5 e) (nesting 5 e) e \<and> readsComparison (unparse 4 e) (nesting 4 e) e \<and>
   readsNot (unparse 3 e) (nesting 3 e) e \<and> readsAnd (unparse 2 e) (nesting 2 e) e \<and> readsOr (unparse 1 e) (nesting 1 e) e"
proof (induction e)
  case (IdentifierExpression s name)
  note p = readsPrimary_Identifier [of name s]
  show ?case using p readsPrimary_all [OF p] by (simp add: nextKind_def)
next
  case (LiteralExpression s l)
  note p = readsPrimary_Literal [of l s]
  show ?case using p readsPrimary_all [OF p] unparseLiteral_first [of "litValue l" "[]"] by auto
next
  case (UnaryExpression s op e)
  let ?ws = "word TokNot # unparse 3 e"
  have n: "readsNot ?ws (Suc (nesting 3 e)) (UnaryExpression s UnaryNot e)"
    using readsNot_Not UnaryExpression by blast
  note o = readsAnd_or [OF readsNot_and [OF n]]
  show ?case using n readsNot_and [OF n] o readsOr_parens_all [OF o] by (cases op) (simp add: parens_def)
next
  case (BinaryExpression s op l r)
  let ?ws = "unparse (leftLevel op) l @ word (operatorToken op) # unparse (rightLevel op) r"
  let ?n = "max (nesting (leftLevel op) l) (nesting (rightLevel op) r)"
  let ?e = "BinaryExpression s op l r"
  consider "op = BinOr" | "op = BinAnd" | "level op = 4" by (cases op) simp_all
  then show ?case
  proof cases
    case 1
    then have o: "readsOr ?ws ?n ?e" using readsOr_Binary BinaryExpression by auto
    show ?thesis using 1 o readsOr_parens_all [OF o] by (simp add: parens_def)
  next
    case 2
    then have a: "readsAnd ?ws ?n ?e" using readsAnd_Binary BinaryExpression by auto
    show ?thesis using 2 a readsAnd_or [OF a] readsOr_parens_all [OF readsAnd_or [OF a]] by (simp add: parens_def)
  next
    case 3
    then have lr: "leftLevel op = 5" "rightLevel op = 5" by (cases op; simp)+
    have c: "readsComparison ?ws ?n ?e" using readsComparison_Binary [OF _ _ 3] BinaryExpression lr by auto
    have "?ws \<noteq> []" "nextKind ?ws \<noteq> TokNot" using unparse_first [of 5 l] lr by auto
    note n = readsComparison_not [OF c this]
    note a = readsNot_and [OF n]
    show ?thesis using 3 c n a readsAnd_or [OF a] readsOr_parens_all [OF readsAnd_or [OF a]] by (simp add: parens_def)
  qed
qed

lemma parse_expression:
  assumes "ahead p = unparse 1 e @ rest" "rest \<noteq> []" "nextKind rest \<notin> {TokAnd, TokOr}" "\<not> isComparison (nextKind rest)" "nesting 1 e \<le> 128"
  shows "\<exists>e' q. parseExpression p = Inr (e', q) \<and> sameExpr e' e \<and> ahead q = rest"
proof -
  have r: "readsOr (unparse 1 e) (nesting 1 e) e" using reads_unparse by blast
  obtain e' q where q: "parseOr 0 p = orLoop 0 e' q" "sameExpr e' e" "ahead q = rest"
    using r [unfolded readsOr_def, rule_format, OF assms(1,2,4), of 0] assms(3,5) by auto
  with loop_stops(2) [OF q(3) assms(2)] assms(3) show ?thesis by (simp add: parseExpression_def)
qed

section \<open>Statements\<close>

definition commaTail :: "('a \<Rightarrow> words) \<Rightarrow> 'a list \<Rightarrow> words" where
  "commaTail f xs = concat (map (\<lambda>x. word TokComma # f x) xs)"

fun commaList :: "('a \<Rightarrow> words) \<Rightarrow> 'a list \<Rightarrow> words" where
  "commaList f [] = []"
| "commaList f (x # xs) = f x @ commaTail f xs"

abbreviation unparseName :: "string \<Rightarrow> words" where "unparseName name \<equiv> [(TokIdentifier, name)]"

definition unparseType :: "sql_type_specification \<Rightarrow> words" where
  "unparseType t =
     (case typeKind t of
        SqlUint32 \<Rightarrow> [word TokUint32]
      | SqlInt64 \<Rightarrow> [word TokInt64]
      | SqlBoolean \<Rightarrow> [word TokBoolean]
      | SqlVarchar \<Rightarrow> [word TokVarchar, word TokLeftParen, (TokInteger, the (varcharSizeMagnitude t)), word TokRightParen])"

definition unparseColumn :: "column_specification \<Rightarrow> words" where
  "unparseColumn c =
     unparseName (specName c) @ unparseType (specType c) @
     (case specNull c of NullUnspecified \<Rightarrow> [] | NullAllowed \<Rightarrow> [word TokNull] | NotNull \<Rightarrow> [word TokNot, word TokNull]) @
     (if specPrimaryKey c then [word TokPrimary, word TokKey] else [])"

definition unparseWhere :: "expression option \<Rightarrow> words" where
  "unparseWhere w = (case w of None \<Rightarrow> [] | Some e \<Rightarrow> word TokWhere # unparse 1 e)"

definition unparseAssignment :: "assignment \<Rightarrow> words" where
  "unparseAssignment a = unparseName (assignColumn a) @ word TokEqual # unparseLiteral (litValue (assignValue a))"

fun unparseNode :: "statement_node \<Rightarrow> words" where
  "unparseNode (CreateTableStatement c) =
     [word TokCreate, word TokTable] @ unparseName (createTable c) @
     word TokLeftParen # commaList unparseColumn (createColumns c) @ [word TokRightParen]"
| "unparseNode (InsertStatement i) =
     [word TokInsert, word TokInto] @ unparseName (insertTable i) @
     (case insertColumns i of None \<Rightarrow> [] | Some names \<Rightarrow> word TokLeftParen # commaList unparseName names @ [word TokRightParen]) @
     [word TokValues, word TokLeftParen] @ commaList (unparseLiteral \<circ> litValue) (insertValues i) @ [word TokRightParen]"
| "unparseNode (SelectStatement s) =
     word TokSelect # (if selectAll s then [word TokStar] else commaList unparseName (selectColumns s)) @
     word TokFrom # unparseName (selectTable s) @ unparseWhere (selectWhere s)"
| "unparseNode (UpdateStatement u) =
     word TokUpdate # unparseName (updateTable u) @ word TokSet # commaList unparseAssignment (updateAssignments u) @
     unparseWhere (updateWhere u)"
| "unparseNode (DeleteStatement d) =
     [word TokDelete, word TokFrom] @ unparseName (deleteTable d) @ unparseWhere (deleteWhere d)"
| "unparseNode (BeginStatement TxReadWrite) = [word TokBegin, word TokTransaction, word TokRead, word TokWrite]"
| "unparseNode (BeginStatement TxReadOnly) = [word TokBegin, word TokTransaction, word TokRead, word TokOnly]"
| "unparseNode CommitStatement = [word TokCommit]"
| "unparseNode RollbackStatement = [word TokRollback]"

text \<open>The trees that statements are: lists that the grammar requires are not empty, a size is given for \<open>VARCHAR\<close>
  and only there, \<open>SELECT *\<close> has no column list, and conditions nest at most 128 deep.\<close>

definition typeOk :: "sql_type_specification \<Rightarrow> bool" where
  "typeOk t \<longleftrightarrow> (typeKind t = SqlVarchar) = (varcharSizeMagnitude t \<noteq> None)"

definition whereOk :: "expression option \<Rightarrow> bool" where
  "whereOk w \<longleftrightarrow> (case w of None \<Rightarrow> True | Some e \<Rightarrow> nesting 1 e \<le> MAX_EXPRESSION_NESTING)"

fun nodeOk :: "statement_node \<Rightarrow> bool" where
  "nodeOk (CreateTableStatement c) \<longleftrightarrow> createColumns c \<noteq> [] \<and> list_all (typeOk \<circ> specType) (createColumns c)"
| "nodeOk (InsertStatement i) \<longleftrightarrow> insertColumns i \<noteq> Some [] \<and> insertValues i \<noteq> []"
| "nodeOk (SelectStatement s) \<longleftrightarrow> (selectAll s \<longleftrightarrow> selectColumns s = []) \<and> whereOk (selectWhere s)"
| "nodeOk (UpdateStatement u) \<longleftrightarrow> updateAssignments u \<noteq> [] \<and> whereOk (updateWhere u)"
| "nodeOk (DeleteStatement d) \<longleftrightarrow> whereOk (deleteWhere d)"
| "nodeOk _ \<longleftrightarrow> True"

text \<open>Trees without their positions.\<close>

definition eraseType :: "sql_type_specification \<Rightarrow> sql_type_specification" where
  "eraseType t = t\<lparr>typeSpan := noSpan\<rparr>"

definition eraseColumn :: "column_specification \<Rightarrow> column_specification" where
  "eraseColumn c = c\<lparr>specType := eraseType (specType c), specSpan := noSpan\<rparr>"

definition eraseAssignment :: "assignment \<Rightarrow> assignment" where
  "eraseAssignment a = a\<lparr>assignValue := eraseLiteral (assignValue a), assignSpan := noSpan, assignColumnSpan := noSpan\<rparr>"

fun eraseNode :: "statement_node \<Rightarrow> statement_node" where
  "eraseNode (CreateTableStatement c) =
     CreateTableStatement (c\<lparr>createColumns := map eraseColumn (createColumns c), createTableSpan := noSpan\<rparr>)"
| "eraseNode (InsertStatement i) =
     InsertStatement (i\<lparr>insertValues := map eraseLiteral (insertValues i), insertTableSpan := noSpan, insertColumnSpans := None\<rparr>)"
| "eraseNode (SelectStatement s) =
     SelectStatement (s\<lparr>selectWhere := map_option eraseExpr (selectWhere s), selectTableSpan := noSpan, selectColumnSpans := []\<rparr>)"
| "eraseNode (UpdateStatement u) =
     UpdateStatement (u\<lparr>updateAssignments := map eraseAssignment (updateAssignments u),
       updateWhere := map_option eraseExpr (updateWhere u), updateTableSpan := noSpan\<rparr>)"
| "eraseNode (DeleteStatement d) = DeleteStatement (d\<lparr>deleteWhere := map_option eraseExpr (deleteWhere d), deleteTableSpan := noSpan\<rparr>)"
| "eraseNode n = n"

subsection \<open>Parsing functions on printed words\<close>

text \<open>The elementary parser operations, computed from the words ahead.\<close>

lemma ahead_compute:
  assumes "ahead p = w # ws"
  shows "check p k \<longleftrightarrow> fst w = k" "matchToken p k = (if fst w = k then Some (advanceToken p) else None)"
    "fst w \<noteq> TokEndOfFile \<Longrightarrow> ahead (advanceToken p) = ws"
    "fst w \<noteq> TokEndOfFile \<Longrightarrow> tokValue (previousToken (advanceToken p)) = snd w"
    "fst w = k \<Longrightarrow> consume p k m = Inr (previousToken (advanceToken p), advanceToken p)"
proof -
  obtain k' v where "w = (k', v)" by (cases w)
  with assms have a: "ahead p = (k', v) # ws" by simp
  show "check p k \<longleftrightarrow> fst w = k" "matchToken p k = (if fst w = k then Some (advanceToken p) else None)"
    "fst w \<noteq> TokEndOfFile \<Longrightarrow> ahead (advanceToken p) = ws" "fst w \<noteq> TokEndOfFile \<Longrightarrow> tokValue (previousToken (advanceToken p)) = snd w"
    "fst w = k \<Longrightarrow> consume p k m = Inr (previousToken (advanceToken p), advanceToken p)"
    using ahead_simps [OF a] ahead_advance [OF a] \<open>w = (k', v)\<close> by (auto simp: consume_def)
qed

lemma ahead_stop:
  assumes "ahead p = ws" "ws \<noteq> []" "nextKind ws \<noteq> k"
  shows "matchToken p k = None" "\<not> check p k"
  using assms by (cases ws; auto simp: ahead_compute nextKind_def)+

definition readsAs :: "(parser \<Rightarrow> 'a parsed) \<Rightarrow> token_kind set \<Rightarrow> words \<Rightarrow> ('a \<Rightarrow> bool) \<Rightarrow> bool" where
  "readsAs f cont ws P \<longleftrightarrow> (\<forall>p rest. ahead p = ws @ rest \<longrightarrow> rest \<noteq> [] \<longrightarrow> nextKind rest \<notin> cont \<longrightarrow>
     (\<exists>x q. f p = Inr (x, q) \<and> P x \<and> ahead q = rest))"

lemma readsAsD:
  assumes "readsAs f cont ws P" "ahead p = ws @ rest" "rest \<noteq> []" "nextKind rest \<notin> cont"
  obtains x q where "f p = Inr (x, q)" "P x" "ahead q = rest"
  using assms unfolding readsAs_def by blast

lemma readsAs_literal: "readsAs parseLiteral {} (unparseLiteral (litValue l)) (\<lambda>l'. eraseLiteral l' = eraseLiteral l)"
  using parse_literal by (auto simp: readsAs_def)

abbreviation continueExpr :: "token_kind set" where
  "continueExpr \<equiv> {TokAnd, TokOr, TokEqual, TokBangEqual, TokLessGreater, TokLess, TokLessEqual, TokGreater, TokGreaterEqual}"

lemma readsAs_where:
  assumes "whereOk w"
  shows "readsAs parseWhere (insert TokWhere continueExpr) (unparseWhere w) (\<lambda>w'. map_option eraseExpr w' = map_option eraseExpr w)"
  unfolding readsAs_def
proof (intro allI impI)
  fix p rest
  assume a: "ahead p = unparseWhere w @ rest" "rest \<noteq> []" "nextKind rest \<notin> insert TokWhere continueExpr"
  show "\<exists>x q. parseWhere p = Inr (x, q) \<and> map_option eraseExpr x = map_option eraseExpr w \<and> ahead q = rest"
  proof (cases w)
    case None
    with a ahead_stop [of p rest TokWhere] show ?thesis by (simp add: parseWhere_def unparseWhere_def)
  next
    case (Some e)
    with a(1) have b: "ahead p = word TokWhere # unparse 1 e @ rest" by (simp add: unparseWhere_def)
    have "\<exists>e' q. parseExpression (advanceToken p) = Inr (e', q) \<and> sameExpr e' e \<and> ahead q = rest"
      by (rule parse_expression) (use a(2,3) b assms Some in \<open>auto simp: ahead_compute whereOk_def isComparison_def\<close>)
    with Some b show ?thesis by (auto simp: parseWhere_def ahead_compute sameExpr_def)
  qed
qed

lemma readsAs_type:
  assumes "typeOk t"
  shows "readsAs parseTypeSpecification {} (unparseType t) (\<lambda>t'. eraseType t' = eraseType t)"
  unfolding readsAs_def
proof (intro allI impI)
  fix p rest
  assume a: "ahead p = unparseType t @ rest"
  show "\<exists>x q. parseTypeSpecification p = Inr (x, q) \<and> eraseType x = eraseType t \<and> ahead q = rest"
  proof (cases "typeKind t = SqlVarchar")
    case True
    with assms obtain size where s: "varcharSizeMagnitude t = Some size" by (auto simp: typeOk_def)
    with a True have b: "ahead p = word TokVarchar # word TokLeftParen # (TokInteger, size) # word TokRightParen # rest"
      by (simp add: unparseType_def)
    then show ?thesis using True s
      by (simp add: parseTypeSpecification_def Let_def ahead_compute eraseType_def)
  next
    case False
    then obtain k where b: "ahead p = word k # rest" and
      k: "(k, typeKind t) \<in> {(TokUint32, SqlUint32), (TokInt64, SqlInt64), (TokBoolean, SqlBoolean)}"
      using a by (cases "typeKind t") (auto simp: unparseType_def)
    from False assms have "varcharSizeMagnitude t = None" by (simp add: typeOk_def)
    then have "eraseType t = \<lparr>typeKind = typeKind t, varcharSizeMagnitude = None, typeSpan = noSpan\<rparr>"
      by (cases t) (simp add: eraseType_def)
    with k show ?thesis by (auto simp: parseTypeSpecification_def Let_def ahead_compute [OF b] eraseType_def)
  qed
qed

abbreviation constraintTokens :: "token_kind set" where "constraintTokens \<equiv> {TokPrimary, TokNot, TokNull}"

lemma constraint_stop:
  "ahead q = rest \<Longrightarrow> rest \<noteq> [] \<Longrightarrow> nextKind rest \<notin> constraintTokens \<Longrightarrow> constraintLoop n pk e q = Inr ((n, pk, e), q)"
  by (subst constraintLoop.simps) (auto simp: ahead_stop)

lemma constraint_key:
  assumes "ahead q = (if pk then [word TokPrimary, word TokKey] else []) @ rest" "rest \<noteq> []" "nextKind rest \<notin> constraintTokens"
  shows "\<exists>e' q'. constraintLoop n False e q = Inr ((n, pk, e'), q') \<and> ahead q' = rest"
proof (cases pk)
  case True
  with assms(1) have b: "ahead q = word TokPrimary # word TokKey # rest" by simp
  then have "ahead (advanceToken (advanceToken q)) = rest" by (simp add: ahead_compute)
  from constraint_stop [OF this assms(2,3)] this b True show ?thesis
    by (subst constraintLoop.simps) (simp add: ahead_compute Let_def)
qed (use assms constraint_stop in auto)

lemma readsAs_column:
  assumes "typeOk (specType c)"
  shows "readsAs parseColumnSpecification constraintTokens (unparseColumn c) (\<lambda>c'. eraseColumn c' = eraseColumn c)"
  unfolding readsAs_def
proof (intro allI impI)
  fix p rest
  assume a: "ahead p = unparseColumn c @ rest" "rest \<noteq> []" "nextKind rest \<notin> constraintTokens"
  define key where "key = (if specPrimaryKey c then [word TokPrimary, word TokKey] else []) @ rest"
  define nulls where "nulls = (case specNull c of NullUnspecified \<Rightarrow> [] | NullAllowed \<Rightarrow> [word TokNull] | NotNull \<Rightarrow> [word TokNot, word TokNull])"
  from a(1) have b: "ahead p = (TokIdentifier, specName c) # unparseType (specType c) @ nulls @ key"
    by (simp add: unparseColumn_def key_def nulls_def)
  have nk: "nulls @ key \<noteq> []" using a(2) by (simp add: key_def)
  from b have "ahead (advanceToken p) = unparseType (specType c) @ nulls @ key" by (simp add: ahead_compute)
  from readsAsD [OF readsAs_type [OF assms] this nk] obtain t q where
    t: "parseTypeSpecification (advanceToken p) = Inr (t, q)" "eraseType t = eraseType (specType c)" "ahead q = nulls @ key" by auto
  obtain e' q' where "constraintLoop NullUnspecified False (spanEnd (typeSpan t)) q = Inr ((specNull c, specPrimaryKey c, e'), q')" "ahead q' = rest"
  proof (cases "specNull c")
    case NullUnspecified
    with t(3) have "ahead q = key" by (simp add: nulls_def)
    from constraint_key [OF this [unfolded key_def] a(2,3), of NullUnspecified "spanEnd (typeSpan t)"] NullUnspecified that show ?thesis
      by fastforce
  next
    case NullAllowed
    with t(3) have q: "ahead q = word TokNull # key" by (simp add: nulls_def)
    then have k: "ahead (advanceToken q) = key" by (simp add: ahead_compute)
    have "\<exists>e. constraintLoop NullUnspecified False (spanEnd (typeSpan t)) q = constraintLoop NullAllowed False e (advanceToken q)"
      by (subst constraintLoop.simps) (auto simp: ahead_compute [OF q] Let_def)
    with constraint_key [OF k [unfolded key_def] a(2,3), of NullAllowed] NullAllowed that show ?thesis by fastforce
  next
    case NotNull
    with t(3) have q: "ahead q = word TokNot # word TokNull # key" by (simp add: nulls_def)
    then have q1: "ahead (advanceToken q) = word TokNull # key" by (simp add: ahead_compute)
    then have k: "ahead (advanceToken (advanceToken q)) = key" by (simp add: ahead_compute)
    have "\<exists>e. constraintLoop NullUnspecified False (spanEnd (typeSpan t)) q =
        constraintLoop NotNull False e (advanceToken (advanceToken q))"
      by (subst constraintLoop.simps) (auto simp: ahead_compute [OF q] ahead_compute [OF q1])
    with constraint_key [OF k [unfolded key_def] a(2,3), of NotNull] NotNull that show ?thesis by fastforce
  qed
  with b t show "\<exists>x q. parseColumnSpecification p = Inr (x, q) \<and> eraseColumn x = eraseColumn c \<and> ahead q = rest"
    by (simp add: parseColumnSpecification_def ahead_compute eraseColumn_def)
qed

subsection \<open>Comma separated lists\<close>

text \<open>
  The list loops of the parser have one shape: while a comma follows, read an item and add it to what was
  read. This is proved once; each loop is an instance.
\<close>

lemma comma_loop:
  fixes loop :: "'acc \<Rightarrow> parser \<Rightarrow> 'acc parsed" and item :: "parser \<Rightarrow> 'y parsed" and er :: "'y \<Rightarrow> 'z"
  assumes step: "\<And>acc p p1 y q. matchToken p TokComma = Some p1 \<Longrightarrow> good (tokKind (peekToken p1)) \<Longrightarrow> item p1 = Inr (y, q) \<Longrightarrow>
      loop acc p = loop (add acc y) q"
    and stop: "\<And>acc p. matchToken p TokComma = None \<Longrightarrow> loop acc p = Inr (acc, p)"
    and comma: "TokComma \<notin> cont"
    and item: "\<forall>x \<in> set xs. readsAs item cont (print x) (\<lambda>y. er y = tree x) \<and> print x \<noteq> [] \<and> good (nextKind (print x))"
    and a: "ahead p = commaTail print xs @ rest" "rest \<noteq> []" "nextKind rest \<notin> insert TokComma cont"
  shows "\<exists>ys q. loop acc p = Inr (foldl add acc ys, q) \<and> map er ys = map tree xs \<and> ahead q = rest"
  using item a(1)
proof (induction xs arbitrary: acc p)
  case Nil
  with a ahead_stop(1) [of p rest TokComma] stop show ?case by (intro exI [of _ "[]"]) (simp add: commaTail_def)
next
  case (Cons x xs)
  let ?rest = "commaTail print xs @ rest"
  from Cons.prems have b: "ahead p = word TokComma # print x @ ?rest" by (simp add: commaTail_def)
  then have p1: "matchToken p TokComma = Some (advanceToken p)" "ahead (advanceToken p) = print x @ ?rest" by (simp_all add: ahead_compute)
  from Cons.prems have x: "readsAs item cont (print x) (\<lambda>y. er y = tree x)" "print x \<noteq> []" "good (nextKind (print x))" by simp_all
  from ahead_next(1) [OF p1(2)] x(2,3) have g: "good (tokKind (peekToken (advanceToken p)))" by (simp add: nextKind_def)
  have "nextKind ?rest \<notin> cont" using a(3) comma by (cases xs) (auto simp: commaTail_def nextKind_def)
  from readsAsD [OF x(1) p1(2) _ this] a(2) obtain y q where y: "item (advanceToken p) = Inr (y, q)" "er y = tree x" "ahead q = ?rest" by auto
  from Cons.IH [of q "add acc y"] Cons.prems(1) y(3) obtain ys q' where
    "loop (add acc y) q = Inr (foldl add (add acc y) ys, q')" "map er ys = map tree xs" "ahead q' = rest" by auto
  with step [OF p1(1) g y(1)] y(2) show ?case by (intro exI [of _ "y # ys"]) simp
qed

lemma foldl_snoc: "foldl (\<lambda>acc y. acc @ [y]) acc ys = acc @ ys"
  by (induction ys arbitrary: acc) simp_all

lemma foldl_names:
  "foldl (\<lambda>(names, spans) t. (names @ [tokValue t], spans @ [tokSpan t])) (names, spans) ts = (names @ map tokValue ts, spans @ map tokSpan ts)"
  by (induction ts arbitrary: names spans) simp_all

lemma unparseColumn_first: "unparseColumn c \<noteq> []" "nextKind (unparseColumn c @ ws) = TokIdentifier"
  by (simp_all add: unparseColumn_def nextKind_def)

lemma columnLoop_reads:
  assumes "list_all (typeOk \<circ> specType) cs" "ahead p = commaTail unparseColumn cs @ rest" "rest \<noteq> []" "nextKind rest \<notin> insert TokComma constraintTokens"
  shows "\<exists>ys q. columnLoop acc p = Inr (acc @ ys, q) \<and> map eraseColumn ys = map eraseColumn cs \<and> ahead q = rest"
  using comma_loop [where loop = columnLoop and item = parseColumnSpecification and good = "\<lambda>k. k \<noteq> TokRightParen" and
      add = "\<lambda>acc y. acc @ [y]" and cont = constraintTokens and print = unparseColumn and er = eraseColumn and tree = eraseColumn,
      OF _ _ _ _ assms(2-4)]
    readsAs_column unparseColumn_first unparseColumn_first(2) [where ws = "[]"] assms(1)
  by (auto simp: columnLoop.simps foldl_snoc list_all_iff check_def)

lemma literalLoop_reads:
  assumes "ahead p = commaTail (unparseLiteral \<circ> litValue) ls @ rest" "rest \<noteq> []" "nextKind rest \<noteq> TokComma"
  shows "\<exists>ys q. literalLoop acc p = Inr (acc @ ys, q) \<and> map eraseLiteral ys = map eraseLiteral ls \<and> ahead q = rest"
proof -
  have first: "unparseLiteral v \<noteq> []" "nextKind (unparseLiteral v) \<noteq> TokRightParen" for v
    using unparseLiteral_first [of v "[]"] by auto
  show ?thesis
    using comma_loop [where loop = literalLoop and item = parseLiteral and good = "\<lambda>k. k \<noteq> TokRightParen" and
        add = "\<lambda>acc y. acc @ [y]" and cont = "{}" and print = "unparseLiteral \<circ> litValue" and er = eraseLiteral and tree = eraseLiteral,
        OF _ _ _ _ assms(1,2)]
      readsAs_literal first assms(3)
    by (auto simp: literalLoop.simps foldl_snoc check_def)
qed

lemma readsAs_name: "readsAs (\<lambda>p. consume p TokIdentifier m) {} (unparseName name) (\<lambda>t. tokValue t = name)"
  by (auto simp: readsAs_def ahead_compute)

lemma identifierLoop_rounds:
  "matchToken p TokComma = Some p1 \<Longrightarrow> \<not> check p1 TokRightParen \<Longrightarrow>
   consume p1 TokIdentifier (''expected identifier after comma in '' @ ctx) = Inr (t, q) \<Longrightarrow>
   identifierLoop ctx names spans p = identifierLoop ctx (names @ [tokValue t]) (spans @ [tokSpan t]) q"
  "matchToken p TokComma = None \<Longrightarrow> identifierLoop ctx names spans p = Inr ((names, spans), p)"
  by (subst identifierLoop.simps, simp)+

lemma projectionLoop_rounds:
  "matchToken p TokComma = Some p1 \<Longrightarrow> \<not> check p1 TokStar \<Longrightarrow>
   consume p1 TokIdentifier ''expected column identifier after comma'' = Inr (t, q) \<Longrightarrow>
   projectionLoop names spans p = projectionLoop (names @ [tokValue t]) (spans @ [tokSpan t]) q"
  "matchToken p TokComma = None \<Longrightarrow> projectionLoop names spans p = Inr ((names, spans), p)"
  by (subst projectionLoop.simps, simp)+

lemma identifierLoop_reads:
  assumes "ahead p = commaTail unparseName names @ rest" "rest \<noteq> []" "nextKind rest \<noteq> TokComma"
  shows "\<exists>spans' q. identifierLoop ctx acc spans p = Inr ((acc @ names, spans'), q) \<and> ahead q = rest"
proof -
  have "\<exists>(ts :: token list) q. identifierLoop ctx (fst (acc, spans)) (snd (acc, spans)) p =
      Inr (foldl (\<lambda>(names, spans) t. (names @ [tokValue t], spans @ [tokSpan t])) (acc, spans) ts, q) \<and>
      map tokValue ts = map id names \<and> ahead q = rest"
    by (rule comma_loop [where loop = "\<lambda>a. identifierLoop ctx (fst a) (snd a)" and good = "\<lambda>k. k \<noteq> TokRightParen" and
        item = "\<lambda>p. consume p TokIdentifier (''expected identifier after comma in '' @ ctx)" and cont = "{}" and print = unparseName and
        acc = "(acc, spans)" and add = "\<lambda>(names, spans) t. (names @ [tokValue t], spans @ [tokSpan t])" and er = tokValue and tree = id and xs = names])
      (use assms readsAs_name in \<open>auto simp: identifierLoop_rounds check_def nextKind_def split: prod.splits\<close>)
  then show ?thesis by (auto simp: foldl_names)
qed

lemma projectionLoop_reads:
  assumes "ahead p = commaTail unparseName names @ rest" "rest \<noteq> []" "nextKind rest \<noteq> TokComma"
  shows "\<exists>spans' q. projectionLoop acc spans p = Inr ((acc @ names, spans'), q) \<and> ahead q = rest"
proof -
  have "\<exists>(ts :: token list) q. projectionLoop (fst (acc, spans)) (snd (acc, spans)) p =
      Inr (foldl (\<lambda>(names, spans) t. (names @ [tokValue t], spans @ [tokSpan t])) (acc, spans) ts, q) \<and>
      map tokValue ts = map id names \<and> ahead q = rest"
    by (rule comma_loop [where loop = "\<lambda>a. projectionLoop (fst a) (snd a)" and good = "\<lambda>k. k \<noteq> TokStar" and
        item = "\<lambda>p. consume p TokIdentifier ''expected column identifier after comma''" and cont = "{}" and print = unparseName and
        acc = "(acc, spans)" and add = "\<lambda>(names, spans) t. (names @ [tokValue t], spans @ [tokSpan t])" and er = tokValue and tree = id and xs = names])
      (use assms readsAs_name in \<open>auto simp: projectionLoop_rounds check_def nextKind_def split: prod.splits\<close>)
  then show ?thesis by (auto simp: foldl_names)
qed

lemma readsAs_assignment:
  "readsAs parseAssignment {} (unparseAssignment a) (\<lambda>a'. eraseAssignment a' = eraseAssignment a)"
  unfolding readsAs_def
proof (intro allI impI)
  fix p rest
  assume a: "ahead p = unparseAssignment a @ rest"
  let ?q = "advanceToken (advanceToken p)"
  from a have b: "ahead p = (TokIdentifier, assignColumn a) # word TokEqual # unparseLiteral (litValue (assignValue a)) @ rest"
    by (simp add: unparseAssignment_def)
  then have "ahead ?q = unparseLiteral (litValue (assignValue a)) @ rest" by (simp add: ahead_compute)
  from parse_literal [OF this] obtain l q where "parseLiteral ?q = Inr (l, q)" "eraseLiteral l = eraseLiteral (assignValue a)" "ahead q = rest"
    by blast
  with b show "\<exists>x q. parseAssignment p = Inr (x, q) \<and> eraseAssignment x = eraseAssignment a \<and> ahead q = rest"
    by (simp add: parseAssignment_def ahead_compute eraseAssignment_def)
qed

lemma assignmentLoop_reads:
  assumes "ahead p = commaList unparseAssignment (a # as) @ rest" "rest \<noteq> []" "nextKind rest \<noteq> TokComma"
  shows "\<exists>ys q. assignmentLoop [] p = Inr (ys, q) \<and> map eraseAssignment ys = map eraseAssignment (a # as) \<and> ahead q = rest"
proof -
  define loop where "loop acc q = (case matchToken q TokComma of None \<Rightarrow> Inr (acc, q) | Some q2 \<Rightarrow>
      if \<not> check q2 TokIdentifier then failAt (peekToken q2) ''expected assignment after comma'' else assignmentLoop acc q2)" for acc q
  have eq: "assignmentLoop acc q = res_bind (parseAssignment q) (\<lambda>(y, q1). loop (acc @ [y]) q1)" for acc q
    unfolding loop_def by (rule assignmentLoop.simps)
  from assms obtain y q where y: "parseAssignment p = Inr (y, q)" "eraseAssignment y = eraseAssignment a" "ahead q = commaTail unparseAssignment as @ rest"
    by (auto elim!: readsAsD [OF readsAs_assignment, of p a "commaTail unparseAssignment as @ rest"])
  have "\<exists>ys q'. loop [y] q = Inr (foldl (\<lambda>acc y. acc @ [y]) [y] ys, q') \<and> map eraseAssignment ys = map eraseAssignment as \<and> ahead q' = rest"
    by (rule comma_loop [where loop = loop and good = "\<lambda>k. k = TokIdentifier" and item = parseAssignment and cont = "{}" and print = unparseAssignment])
      (use y(3) assms readsAs_assignment in \<open>auto simp: loop_def eq check_def unparseAssignment_def nextKind_def\<close>)
  with eq [of "[]" p] y show ?thesis by (auto simp: foldl_snoc)
qed

subsection \<open>Whole statements\<close>

lemma select_reads:
  assumes "nodeOk (SelectStatement s)" "ahead p = tl (unparseNode (SelectStatement s)) @ word TokSemicolon # rest"
  shows "\<exists>s' q. parseSelect p = Inr (s', q) \<and> eraseNode (SelectStatement s') = eraseNode (SelectStatement s) \<and> ahead q = word TokSemicolon # rest"
proof -
  let ?tail = "unparseWhere (selectWhere s) @ word TokSemicolon # rest"
  have p1: "\<exists>spans q. parseProjection p = Inr ((selectAll s, selectColumns s, spans), q) \<and>
      ahead q = word TokFrom # (TokIdentifier, selectTable s) # ?tail"
  proof (cases "selectColumns s")
    case Nil
    with assms have "selectAll s" "ahead p = word TokStar # word TokFrom # (TokIdentifier, selectTable s) # ?tail" by simp_all
    with Nil show ?thesis by (simp add: parseProjection_def ahead_compute)
  next
    case (Cons c cs)
    let ?rest = "word TokFrom # (TokIdentifier, selectTable s) # ?tail"
    from Cons assms have s: "\<not> selectAll s" and b: "ahead p = (TokIdentifier, c) # commaTail unparseName cs @ ?rest" by simp_all
    then have "ahead (advanceToken p) = commaTail unparseName cs @ ?rest" by (simp add: ahead_compute)
    from projectionLoop_reads [OF this, of "[c]" "[tokSpan (previousToken (advanceToken p))]"] s b Cons show ?thesis
      by (auto simp: parseProjection_def ahead_compute Let_def nextKind_def)
  qed
  then obtain spans q where q: "parseProjection p = Inr ((selectAll s, selectColumns s, spans), q)"
    "ahead q = word TokFrom # (TokIdentifier, selectTable s) # ?tail" by blast
  let ?q = "advanceToken (advanceToken q)"
  from q have w: "ahead ?q = ?tail" by (simp add: ahead_compute)
  obtain x r where "parseWhere ?q = Inr (x, r)" "map_option eraseExpr x = map_option eraseExpr (selectWhere s)" "ahead r = word TokSemicolon # rest"
    using readsAsD [OF readsAs_where w] assms(1) by (auto simp: nextKind_def)
  with q show ?thesis by (simp add: parseSelect_def ahead_compute)
qed

lemma insert_reads:
  assumes "nodeOk (InsertStatement i)" "ahead p = tl (unparseNode (InsertStatement i)) @ word TokSemicolon # rest"
  shows "\<exists>i' q. parseInsert p = Inr (i', q) \<and> eraseNode (InsertStatement i') = eraseNode (InsertStatement i) \<and> ahead q = word TokSemicolon # rest"
proof -
  let ?close = "word TokRightParen # word TokSemicolon # rest"
  from assms(1) obtain v vs where vs: "insertValues i = v # vs" by (cases "insertValues i") auto
  let ?vals = "word TokValues # word TokLeftParen # unparseLiteral (litValue v) @ commaTail (unparseLiteral \<circ> litValue) vs @ ?close"
  let ?p = "advanceToken (advanceToken p)"
  have c: "\<exists>cs q. parseInsertColumns ?p = Inr (cs, q) \<and> map_option fst cs = insertColumns i \<and> ahead q = ?vals"
  proof (cases "insertColumns i")
    case None
    with assms(2) vs have "ahead ?p = ?vals" by (simp add: ahead_compute)
    with None show ?thesis by (simp add: parseInsertColumns_def ahead_compute)
  next
    case (Some names)
    with assms(1) obtain n ns where ns: "names = n # ns" by (cases names) auto
    with Some assms(2) vs have b: "ahead ?p = word TokLeftParen # (TokIdentifier, n) # commaTail unparseName ns @ word TokRightParen # ?vals"
      by (simp add: ahead_compute)
    let ?q = "advanceToken (advanceToken ?p)"
    from b have "ahead ?q = commaTail unparseName ns @ word TokRightParen # ?vals" by (simp add: ahead_compute)
    from identifierLoop_reads [OF this, of "''INSERT column list''" "[n]" "[tokSpan (previousToken ?q)]"] b Some ns show ?thesis
      by (auto simp: parseInsertColumns_def parseIdentifierList_def ahead_compute nextKind_def)
  qed
  then obtain cs q where q: "parseInsertColumns ?p = Inr (cs, q)" "map_option fst cs = insertColumns i" "ahead q = ?vals" by blast
  let ?q = "advanceToken (advanceToken q)"
  from q have b: "ahead ?q = unparseLiteral (litValue v) @ commaTail (unparseLiteral \<circ> litValue) vs @ ?close" by (simp add: ahead_compute)
  from parse_literal [OF b] obtain v' q1 where v: "parseLiteral ?q = Inr (v', q1)" "eraseLiteral v' = eraseLiteral v"
    "ahead q1 = commaTail (unparseLiteral \<circ> litValue) vs @ ?close" by blast
  from literalLoop_reads [OF v(3), of "[v']"] obtain ws q2 where w: "literalLoop [v'] q1 = Inr (v' # ws, q2)"
    "map eraseLiteral ws = map eraseLiteral vs" "ahead q2 = ?close" by (auto simp: nextKind_def)
  have "\<not> check ?q TokRightParen"
    using unparseLiteral_first [of "litValue v" "commaTail (unparseLiteral \<circ> litValue) vs @ ?close"] ahead_stop(2) [OF b, of TokRightParen] by auto
  with v w have "parseLiteralList ?q = Inr (v' # ws, q2)" by (simp add: parseLiteralList_def)
  with q w v vs assms(2) show ?thesis by (simp add: parseInsert_def ahead_compute)
qed

lemma create_reads:
  assumes "nodeOk (CreateTableStatement c)" "ahead p = tl (unparseNode (CreateTableStatement c)) @ word TokSemicolon # rest"
  shows "\<exists>c' q. parseCreateTable p = Inr (c', q) \<and> eraseNode (CreateTableStatement c') = eraseNode (CreateTableStatement c) \<and>
    ahead q = word TokSemicolon # rest"
proof -
  let ?close = "word TokRightParen # word TokSemicolon # rest"
  let ?p = "advanceToken (advanceToken (advanceToken p))"
  from assms(1) obtain x xs where xs: "createColumns c = x # xs" "typeOk (specType x)" "list_all (typeOk \<circ> specType) xs"
    by (cases "createColumns c") auto
  with assms(2) have b: "ahead ?p = unparseColumn x @ commaTail unparseColumn xs @ ?close" by (simp add: ahead_compute)
  have "nextKind (commaTail unparseColumn xs @ ?close) \<notin> constraintTokens" by (cases xs) (simp_all add: commaTail_def nextKind_def)
  from readsAsD [OF readsAs_column [OF xs(2)] b _ this] obtain x' q where x: "parseColumnSpecification ?p = Inr (x', q)"
    "eraseColumn x' = eraseColumn x" "ahead q = commaTail unparseColumn xs @ ?close" by auto
  from columnLoop_reads [OF xs(3) x(3), of "[x']"] obtain ys q' where y: "columnLoop [x'] q = Inr (x' # ys, q')"
    "map eraseColumn ys = map eraseColumn xs" "ahead q' = ?close" by (auto simp: nextKind_def)
  have "\<not> check ?p TokRightParen"
    using ahead_stop(2) [OF b, of TokRightParen] unparseColumn_first(1) [of x] unparseColumn_first(2) [of x "commaTail unparseColumn xs @ ?close"] by simp
  with x y xs assms(2) show ?thesis by (simp add: parseCreateTable_def ahead_compute)
qed

lemma update_reads:
  assumes "nodeOk (UpdateStatement u)" "ahead p = tl (unparseNode (UpdateStatement u)) @ word TokSemicolon # rest"
  shows "\<exists>u' q. parseUpdate p = Inr (u', q) \<and> eraseNode (UpdateStatement u') = eraseNode (UpdateStatement u) \<and> ahead q = word TokSemicolon # rest"
proof -
  let ?tail = "unparseWhere (updateWhere u) @ word TokSemicolon # rest"
  let ?p = "advanceToken (advanceToken p)"
  from assms(1) obtain a as where as: "updateAssignments u = a # as" by (cases "updateAssignments u") auto
  with assms(2) have b: "ahead ?p = commaList unparseAssignment (a # as) @ ?tail" by (simp add: ahead_compute)
  have "nextKind ?tail \<noteq> TokComma" by (cases "updateWhere u") (simp_all add: unparseWhere_def nextKind_def)
  with assignmentLoop_reads [OF b] obtain ys q where y: "assignmentLoop [] ?p = Inr (ys, q)"
    "map eraseAssignment ys = map eraseAssignment (a # as)" "ahead q = ?tail" by auto
  obtain x r where "parseWhere q = Inr (x, r)" "map_option eraseExpr x = map_option eraseExpr (updateWhere u)" "ahead r = word TokSemicolon # rest"
    using readsAsD [OF readsAs_where y(3)] assms(1) by (auto simp: nextKind_def)
  moreover have "check ?p TokIdentifier" using b by (simp add: unparseAssignment_def ahead_compute)
  ultimately show ?thesis using y as assms(2) by (simp add: parseUpdate_def ahead_compute)
qed

lemma delete_reads:
  assumes "nodeOk (DeleteStatement d)" "ahead p = tl (unparseNode (DeleteStatement d)) @ word TokSemicolon # rest"
  shows "\<exists>d' q. parseDelete p = Inr (d', q) \<and> eraseNode (DeleteStatement d') = eraseNode (DeleteStatement d) \<and> ahead q = word TokSemicolon # rest"
proof -
  let ?p = "advanceToken (advanceToken p)"
  from assms(2) have b: "ahead ?p = unparseWhere (deleteWhere d) @ word TokSemicolon # rest" by (simp add: ahead_compute)
  obtain x r where "parseWhere ?p = Inr (x, r)" "map_option eraseExpr x = map_option eraseExpr (deleteWhere d)" "ahead r = word TokSemicolon # rest"
    using readsAsD [OF readsAs_where b] assms(1) by (auto simp: nextKind_def)
  then show ?thesis using assms(2) by (simp add: parseDelete_def ahead_compute)
qed

lemma node_reads:
  assumes "nodeOk n" "ahead p = unparseNode n @ word TokSemicolon # rest"
  shows "\<exists>n' q. parseNode p = Inr (n', q) \<and> eraseNode n' = eraseNode n \<and> ahead q = word TokSemicolon # rest"
proof (cases n)
  case (CreateTableStatement c)
  with assms(2) have "ahead (advanceToken p) = tl (unparseNode (CreateTableStatement c)) @ word TokSemicolon # rest" by (simp add: ahead_compute)
  with create_reads assms CreateTableStatement show ?thesis by (fastforce simp: parseNode_def ahead_compute)
next
  case (InsertStatement i)
  with assms(2) have "ahead (advanceToken p) = tl (unparseNode (InsertStatement i)) @ word TokSemicolon # rest" by (simp add: ahead_compute)
  with insert_reads assms InsertStatement show ?thesis by (fastforce simp: parseNode_def ahead_compute)
next
  case (SelectStatement s)
  with assms(2) have "ahead (advanceToken p) = tl (unparseNode (SelectStatement s)) @ word TokSemicolon # rest" by (simp add: ahead_compute)
  with select_reads assms SelectStatement show ?thesis by (fastforce simp: parseNode_def ahead_compute)
next
  case (UpdateStatement u)
  with assms(2) have "ahead (advanceToken p) = tl (unparseNode (UpdateStatement u)) @ word TokSemicolon # rest" by (simp add: ahead_compute)
  with update_reads assms UpdateStatement show ?thesis by (fastforce simp: parseNode_def ahead_compute)
next
  case (DeleteStatement d)
  with assms(2) have "ahead (advanceToken p) = tl (unparseNode (DeleteStatement d)) @ word TokSemicolon # rest" by (simp add: ahead_compute)
  with delete_reads assms DeleteStatement show ?thesis by (fastforce simp: parseNode_def ahead_compute)
next
  case (BeginStatement m)
  with assms show ?thesis by (cases m) (simp_all add: parseNode_def parseBegin_def ahead_compute Let_def)
qed (use assms in \<open>simp_all add: parseNode_def ahead_compute\<close>)

lemma statement_reads:
  assumes "nodeOk n" "ahead p = unparseNode n @ [word TokSemicolon, (TokEndOfFile, [])]"
  shows "\<exists>st q. parseStatement p = Inr (st, q) \<and> eraseNode (stmtNode st) = eraseNode n"
  using node_reads [OF assms(1), of p "[(TokEndOfFile, [])]"] assms(2)
  by (auto simp: parseStatement_def Let_def ahead_compute)

text \<open>
  C8: printing a statement and parsing the text gives the statement back. For every tree whose lists, sizes and
  nesting are those of a statement (\<open>nodeOk\<close>) and whose names, magnitudes and strings can be written as tokens
  (\<open>lexable\<close>), \<open>parseSql\<close>, which runs the lexer and then the parser, accepts the printed text with a final semicolon
  and returns the same tree up to source positions: operator precedence, left associativity of \<open>AND\<close> and \<open>OR\<close>,
  parentheses, negative literals and quoting included.
\<close>
theorem sql_print_parse_roundtrip:
  assumes "nodeOk n" "list_all lexable (unparseNode n)"
  shows "\<exists>st. parseSql (renderTokens (unparseNode n @ [word TokSemicolon])) = Inr st \<and> eraseNode (stmtNode st) = eraseNode n"
proof -
  let ?ws = "unparseNode n @ [word TokSemicolon]"
  have "lexable (word TokSemicolon)" by code_simp
  with assms(2) have "list_all lexable ?ws" by simp
  from tokenizeLoop_render [OF this, of 0 "renderTokens ?ws" "[]"] obtain ts e where
    t: "tokenize (renderTokens ?ws) = Inr (ts @ [e])" "map tokenContent ts = ?ws" "tokenContent e = (TokEndOfFile, [])"
    by (auto simp: tokenize_def)
  let ?p = "\<lparr>stream = TokenStream (ts @ [e]), current = 0\<rparr>"
  from t(3) have e: "tokKind e = TokEndOfFile" by (simp add: tokenContent_def)
  then have p: "newParser (ts @ [e]) = Inr ?p" by (simp add: newParser_def)
  have "ahead ?p = unparseNode n @ [word TokSemicolon, (TokEndOfFile, [])]"
    using t(2,3) e by (simp add: ahead_def TokenStream_inverse)
  from statement_reads [OF assms(1) this] show ?thesis using t(1) p by (auto simp: parseSql_def)
qed

text \<open>A query with precedence, associativity, a needed pair of parentheses, a negative number and a quoted string.\<close>

definition sampleQuery :: statement_node where
  "sampleQuery =
     (let name = IdentifierExpression noSpan;
          lit = (\<lambda>v. LiteralExpression noSpan \<lparr>litSpan = noSpan, litValue = v\<rparr>);
          bin = BinaryExpression noSpan in
      SelectStatement
        \<lparr>selectAll = False, selectColumns = [''id'', ''name''], selectTable = ''people'',
         selectWhere = Some
           (bin BinOr
              (bin BinAnd
                 (UnaryExpression noSpan UnaryNot (bin BinOr (bin BinLess (name ''id'') (lit (IntegerLiteral True ''12''))) (name ''active'')))
                 (bin BinEqual (name ''name'') (lit (StringLiteral ''O''))))
              (name ''old'')),
         selectTableSpan = noSpan, selectColumnSpans = []\<rparr>)"

theorem sql_print_parse_roundtrip_witness:
  "nodeOk sampleQuery \<and> list_all lexable (unparseNode sampleQuery) \<and>
   (\<exists>st. parseSql (renderTokens (unparseNode sampleQuery @ [word TokSemicolon])) = Inr st \<and> eraseNode (stmtNode st) = eraseNode sampleQuery)"
proof -
  have "nodeOk sampleQuery" by (simp add: sampleQuery_def Let_def whereOk_def)
  moreover have "list_all lexable (unparseNode sampleQuery)" by code_simp
  ultimately show ?thesis using sql_print_parse_roundtrip by blast
qed

end
