(* ===== verification/Sql_Semantics.thy ===== *)
theory Sql_Semantics
  imports Sql_Parser Schema
begin

text \<open>
  Truth values and literal conversion (\<open>include/minidb/sql_semantics.hpp\<close>, \<open>src/sql_semantics.cpp\<close>).

  \<open>convertLiteral\<close> turns a literal of the syntax tree into a value of a column; integer magnitudes,
  which the lexer leaves as digit strings of any length, are accumulated in 64 bits with a range check
  before every step. The lemmas show that it succeeds exactly when some value of the column means what
  the literal means, and then returns that value. The truth operations are shown to be the minimum,
  maximum and complement of the order \<open>False < Unknown < True\<close>.
\<close>

section \<open>Truth values\<close>

datatype truth_value = TFalse | TTrue | TUnknown

fun truthNot :: "truth_value \<Rightarrow> truth_value" where
  "truthNot TFalse = TTrue"
| "truthNot TTrue = TFalse"
| "truthNot TUnknown = TUnknown"

definition truthAnd :: "truth_value \<Rightarrow> truth_value \<Rightarrow> truth_value" where
  "truthAnd l r =
     (if l = TFalse \<or> r = TFalse then TFalse
      else if l = TTrue \<and> r = TTrue then TTrue
      else TUnknown)"

definition truthOr :: "truth_value \<Rightarrow> truth_value \<Rightarrow> truth_value" where
  "truthOr l r =
     (if l = TTrue \<or> r = TTrue then TTrue
      else if l = TFalse \<and> r = TFalse then TFalse
      else TUnknown)"

section \<open>Literals\<close>

definition execFail :: "sql_execution_error_kind \<Rightarrow> string \<Rightarrow> source_span \<Rightarrow> 'a res" where
  "execFail kind message sp = Inl (SqlExecutionError kind message sp)"

text \<open>The digits are those of a token, so \<open>digit - '0'\<close> is below ten; the subtraction is that of \<open>uint64_t\<close>.\<close>

fun accumulateLoop :: "u64 \<Rightarrow> string \<Rightarrow> u64 \<Rightarrow> sql_literal \<Rightarrow> string \<Rightarrow> u64 res" where
  "accumulateLoop value [] maximum literal typeName = Inr value"
| "accumulateLoop value (digit # digits) maximum literal typeName =
     (let component = of_char digit - 48 in
      if value > (maximum - component) div 10
      then execFail Constraint (''integer literal is out of range for '' @ typeName) (litSpan literal)
      else accumulateLoop (value * 10 + component) digits maximum literal typeName)"

definition accumulateMagnitude :: "string \<Rightarrow> u64 \<Rightarrow> sql_literal \<Rightarrow> string \<Rightarrow> u64 res" where
  "accumulateMagnitude digits maximum literal typeName = accumulateLoop 0 digits maximum literal typeName"

fun typeName :: "data_type \<Rightarrow> string" where
  "typeName UINT32 = ''UINT32''"
| "typeName INT64 = ''INT64''"
| "typeName BOOLEAN = ''BOOLEAN''"
| "typeName VARCHAR = ''VARCHAR''"

abbreviation INT64_POSITIVE_MAXIMUM :: u64 where "INT64_POSITIVE_MAXIMUM \<equiv> 0x7FFFFFFFFFFFFFFF"
abbreviation INT64_NEGATIVE_MAXIMUM :: u64 where "INT64_NEGATIVE_MAXIMUM \<equiv> INT64_POSITIVE_MAXIMUM + 1"

definition convertLiteral :: "sql_literal \<Rightarrow> column_definition \<Rightarrow> db_value res" where
  "convertLiteral literal column =
     (case litValue literal of
        NullLiteral \<Rightarrow>
          if \<not> nullable column
          then execFail Constraint (''column '' @ quoted (columnName column) @ '' cannot be NULL'') (litSpan literal)
          else Inr VNull
      | BooleanLiteral b \<Rightarrow>
          if columnType column \<noteq> BOOLEAN
          then execFail Semantic (''BOOLEAN literal is incompatible with '' @ typeName (columnType column) @ '' column '' @
                 quoted (columnName column)) (litSpan literal)
          else Inr (VBool b)
      | StringLiteral s \<Rightarrow>
          if columnType column \<noteq> VARCHAR
          then execFail Semantic (''string literal is incompatible with '' @ typeName (columnType column) @ '' column '' @
                 quoted (columnName column)) (litSpan literal)
          else if length s > unat (varcharMaxBytes column)
          then execFail Constraint (''value for column '' @ quoted (columnName column) @ '' exceeds VARCHAR('' @
                 to_string (unat (varcharMaxBytes column)) @ '')'') (litSpan literal)
          else Inr (VString s)
      | IntegerLiteral negative magnitude \<Rightarrow>
          if columnType column = UINT32 then
            (if negative
             then execFail Constraint ''negative integer literal is out of range for UINT32'' (litSpan literal)
             else res_bind (accumulateMagnitude magnitude 0xFFFFFFFF literal ''UINT32'') (\<lambda>m. Inr (VUint (ucast m))))
          else if columnType column = INT64 then
            res_bind (accumulateMagnitude magnitude (if negative then INT64_NEGATIVE_MAXIMUM else INT64_POSITIVE_MAXIMUM)
                literal ''INT64'') (\<lambda>m.
              if \<not> negative then Inr (VInt m)
              else if m = INT64_NEGATIVE_MAXIMUM then Inr (VInt 0x8000000000000000)
              else Inr (VInt (- m)))
          else execFail Semantic (''integer literal is incompatible with '' @ typeName (columnType column) @ '' column '' @
                 quoted (columnName column)) (litSpan literal))"

section \<open>Kleene logic\<close>

text \<open>Truth values in the order false, unknown, true.\<close>

fun rank :: "truth_value \<Rightarrow> nat" where
  "rank TFalse = 0" | "rank TUnknown = 1" | "rank TTrue = 2"

lemma truth_ranks:
  "rank (truthAnd a b) = min (rank a) (rank b)" "rank (truthOr a b) = max (rank a) (rank b)" "rank (truthNot a) = 2 - rank a"
  by (cases a; cases b; simp add: truthAnd_def truthOr_def)+

lemma truth_short_circuit:
  "truthAnd TFalse b = TFalse" "truthOr TTrue b = TTrue"
  by (simp_all add: truthAnd_def truthOr_def)

lemma truth_and_true: "truthAnd a b = TTrue \<longleftrightarrow> a = TTrue \<and> b = TTrue"
  by (cases a; cases b) (simp_all add: truthAnd_def)

section \<open>Integer magnitudes\<close>

definition digitValue :: "char \<Rightarrow> nat" where
  "digitValue c = of_char c - 48"

definition magnitudeValue :: "nat \<Rightarrow> string \<Rightarrow> nat" where
  "magnitudeValue v digits = foldl (\<lambda>v c. v * 10 + digitValue c) v digits"

lemma magnitudeValue_simps [simp]:
  "magnitudeValue v [] = v" "magnitudeValue v (c # cs) = magnitudeValue (v * 10 + digitValue c) cs"
  by (simp_all add: magnitudeValue_def)

lemma magnitudeValue_mono: "v \<le> magnitudeValue v ds"
proof (induction ds arbitrary: v)
  case (Cons d ds)
  have "v \<le> v * 10 + digitValue d" by simp
  also have "\<dots> \<le> magnitudeValue (v * 10 + digitValue d) ds" by (rule Cons.IH)
  finally show ?case by simp
qed simp

lemma u64_bound: "unat (w :: u64) < 2 ^ 64"
  by (rule order_less_le_trans [OF unsigned_less]) simp

lemma digit_component:
  assumes "isDigit c"
  shows "unat (of_char c - 48 :: u64) = digitValue c" "digitValue c \<le> 9"
proof -
  have c: "48 \<le> (of_char c :: nat)" "(of_char c :: nat) \<le> 57" using assms by (simp_all add: isDigit_def less_eq_char_def)
  have "(of_char c :: u64) = of_nat (of_char c)" by (simp only: of_nat_of_char)
  then have "of_char c - 48 = (of_nat (of_char c - 48) :: u64)" using c(1) by (simp add: of_nat_diff)
  moreover have "unat (of_nat (of_char c - 48) :: u64) = of_char c - 48" using c(2) by (simp add: unat_of_nat take_bit_nat_eq_self)
  ultimately show "unat (of_char c - 48 :: u64) = digitValue c" by (simp add: digitValue_def)
  show "digitValue c \<le> 9" using c(2) by (simp add: digitValue_def)
qed

lemma accumulate_step:
  fixes v maximum comp :: u64
  assumes "unat comp \<le> 9" "9 \<le> unat maximum"
  shows "v > (maximum - comp) div 10 \<longleftrightarrow> unat v * 10 + unat comp > unat maximum"
    and "unat v * 10 + unat comp \<le> unat maximum \<Longrightarrow> unat (v * 10 + comp) = unat v * 10 + unat comp"
proof -
  have "unat (maximum - comp) = unat maximum - unat comp"
    by (rule unat_sub) (use assms in \<open>simp add: word_le_nat_alt\<close>)
  then have "v > (maximum - comp) div 10 \<longleftrightarrow> unat v > (unat maximum - unat comp) div 10"
    by (simp add: word_less_nat_alt unat_div)
  then show "v > (maximum - comp) div 10 \<longleftrightarrow> unat v * 10 + unat comp > unat maximum" using assms by auto
  assume "unat v * 10 + unat comp \<le> unat maximum"
  moreover have "unat maximum < 2 ^ 64" by (rule u64_bound)
  ultimately have b: "unat v * 10 + unat comp < 2 ^ 64" by simp
  then have "unat (v * 10) = unat v * 10" by (subst unat_mult_lem [THEN iffD1]) simp_all
  with b show "unat (v * 10 + comp) = unat v * 10 + unat comp"
    by (subst unat_add_lem [THEN iffD1]) simp_all
qed

lemma accumulateLoop_exact:
  assumes "list_all isDigit ds" "9 \<le> unat maximum" "unat v \<le> unat maximum"
  shows "accumulateLoop v ds maximum l t =
    (if magnitudeValue (unat v) ds \<le> unat maximum then Inr (of_nat (magnitudeValue (unat v) ds))
     else execFail Constraint (''integer literal is out of range for '' @ t) (litSpan l))"
  using assms(1,3)
proof (induction ds arbitrary: v)
  case Nil
  then show ?case by simp
next
  case (Cons d ds)
  from Cons.prems have d: "isDigit d" "list_all isDigit ds" by simp_all
  let ?c = "of_char d - 48 :: u64"
  note c = digit_component [OF d(1)]
  note step = accumulate_step [of ?c maximum v, OF _ assms(2), unfolded c(1), OF c(2)]
  show ?case
  proof (cases "unat v * 10 + digitValue d > unat maximum")
    case True
    with magnitudeValue_mono [of "unat v * 10 + digitValue d" ds] step(1) show ?thesis by (simp add: Let_def)
  next
    case False
    then have n: "unat (v * 10 + ?c) = unat v * 10 + digitValue d" using step(2) by simp
    from Cons.IH [OF d(2), of "v * 10 + ?c"] False step(1) show ?thesis by (simp add: Let_def n)
  qed
qed

text \<open>The integer a literal stands for, and which values mean a literal. \<open>-0\<close> is not an unsigned literal.\<close>

definition integerValue :: "bool \<Rightarrow> string \<Rightarrow> int" where
  "integerValue negative magnitude = (if negative then - int (magnitudeValue 0 magnitude) else int (magnitudeValue 0 magnitude))"

fun means :: "literal_value \<Rightarrow> db_value \<Rightarrow> bool" where
  "means NullLiteral v \<longleftrightarrow> v = VNull"
| "means (BooleanLiteral b) v \<longleftrightarrow> v = VBool b"
| "means (StringLiteral s) v \<longleftrightarrow> v = VString s"
| "means (IntegerLiteral negative magnitude) (VUint w) \<longleftrightarrow> \<not> negative \<and> uint w = integerValue negative magnitude"
| "means (IntegerLiteral negative magnitude) (VInt w) \<longleftrightarrow> sint w = integerValue negative magnitude"
| "means (IntegerLiteral negative magnitude) _ \<longleftrightarrow> False"

definition magnitudeOk :: "sql_literal \<Rightarrow> bool" where
  "magnitudeOk l \<longleftrightarrow> (case litValue l of IntegerLiteral _ magnitude \<Rightarrow> list_all isDigit magnitude | _ \<Rightarrow> True)"

lemma accumulate_exact:
  assumes "list_all isDigit ds" "9 \<le> unat maximum"
  shows "accumulateMagnitude ds maximum l t = Inr m \<longleftrightarrow> magnitudeValue 0 ds \<le> unat maximum \<and> unat m = magnitudeValue 0 ds"
proof -
  have "unat (of_nat k :: u64) = k" if "k \<le> unat maximum" for k
    using that u64_bound [of maximum] by (simp add: unat_of_nat take_bit_nat_eq_self)
  then have "of_nat k = m \<longleftrightarrow> unat m = k" if "k \<le> unat maximum" for k using that by fastforce
  then show ?thesis
    by (simp add: accumulateMagnitude_def accumulateLoop_exact [OF assms] execFail_def)
qed

lemma uint32_of_magnitude:
  assumes "unat (m :: u64) \<le> 0xFFFFFFFF"
  shows "uint (w :: u32) = int (unat m) \<longleftrightarrow> w = ucast m"
proof -
  have "int (unat m) < 4294967296" using assms by linarith
  then have "uint m < 2 ^ 32" by simp
  then have "uint (ucast m :: u32) = int (unat m)" by (simp add: unsigned_ucast_eq take_bit_int_eq_self_iff)
  then show ?thesis by (metis word_uint_eq_iff)
qed

lemma sint_iff: "sint (w :: u64) = v \<longleftrightarrow> - (2 ^ 63) \<le> v \<and> v < 2 ^ 63 \<and> w = word_of_int v"
proof -
  have "sint (word_of_int v :: u64) = v" if "- (2 ^ 63) \<le> v" "v < 2 ^ 63"
    using that by (simp add: signed_of_int signed_take_bit_int_eq_self_iff)
  moreover have "- (2 ^ 63) \<le> sint w" "sint w < 2 ^ 63"
    using sint_greater_eq [of w] sint_less [of w] by simp_all
  moreover have "word_of_int (sint w) = w" by simp
  ultimately show ?thesis by auto
qed

lemma convertLiteral_iff:
  assumes "magnitudeOk l"
  shows "convertLiteral l c = Inr v \<longleftrightarrow> valueOk c v \<and> means (litValue l) v"
proof (cases "litValue l")
  case (IntegerLiteral neg mag)
  with assms have d: "list_all isDigit mag" by (simp add: magnitudeOk_def)
  let ?n = "magnitudeValue 0 mag"
  note acc = accumulate_exact [OF d]
  consider (u) "columnType c = UINT32" | (i) "columnType c = INT64" | (other) "columnType c \<notin> {UINT32, INT64}" by blast
  then show ?thesis
  proof cases
    case u
    show ?thesis
    proof (cases neg)
      case False
      have "convertLiteral l c = Inr v \<longleftrightarrow> (\<exists>m. accumulateMagnitude mag 0xFFFFFFFF l ''UINT32'' = Inr m \<and> v = VUint (ucast m))"
        using u False IntegerLiteral by (auto simp: convertLiteral_def res_bind_eq_Inr)
      also have "\<dots> \<longleftrightarrow> (\<exists>m :: u64. ?n \<le> 0xFFFFFFFF \<and> unat m = ?n \<and> v = VUint (ucast m))"
        by (simp add: acc conj_assoc)
      also have "\<dots> \<longleftrightarrow> (\<exists>w. v = VUint w \<and> uint w = int ?n)"
      proof
        assume "\<exists>m :: u64. ?n \<le> 0xFFFFFFFF \<and> unat m = ?n \<and> v = VUint (ucast m)"
        then obtain m :: u64 where m: "?n \<le> 0xFFFFFFFF" "unat m = ?n" "v = VUint (ucast m)" by blast
        with uint32_of_magnitude [of m "ucast m"] show "\<exists>w. v = VUint w \<and> uint w = int ?n"
          by (intro exI [of _ "ucast m"]) (simp only: simp_thms)
      next
        assume "\<exists>w. v = VUint w \<and> uint w = int ?n"
        then obtain w where w: "v = VUint w" "uint w = int ?n" by blast
        have "uint w < 2 ^ 32" using unsigned_less [of w, where 'a = int] by simp
        with w(2) have n: "?n \<le> 0xFFFFFFFF" by simp
        then have m: "unat (of_nat ?n :: u64) = ?n" by (simp add: unat_of_nat take_bit_nat_eq_self)
        with n uint32_of_magnitude [of "of_nat ?n" w] w show "\<exists>m :: u64. ?n \<le> 0xFFFFFFFF \<and> unat m = ?n \<and> v = VUint (ucast m)" by auto
      qed
      finally show ?thesis using u False IntegerLiteral by (cases v) (auto simp: valueOk_def typeMatches_def integerValue_def)
    qed (use u IntegerLiteral in \<open>cases v; simp add: convertLiteral_def execFail_def valueOk_def typeMatches_def\<close>)
  next
    case i
    let ?max = "if neg then INT64_NEGATIVE_MAXIMUM else INT64_POSITIVE_MAXIMUM"
    have "unat INT64_NEGATIVE_MAXIMUM = 2 ^ 63" "unat INT64_POSITIVE_MAXIMUM = 2 ^ 63 - 1" by simp_all
    then have max: "9 \<le> unat ?max" "?n \<le> unat ?max \<longleftrightarrow> - (2 ^ 63) \<le> integerValue neg mag \<and> integerValue neg mag < 2 ^ 63"
      by (auto simp: integerValue_def)
    have bits: "(if \<not> neg then VInt m else if m = INT64_NEGATIVE_MAXIMUM then VInt 0x8000000000000000 else VInt (- m)) =
        VInt (word_of_int (integerValue neg mag))" if "unat m = ?n" for m
      using that by (auto simp: integerValue_def simp flip: that)
    have "convertLiteral l c = Inr v \<longleftrightarrow> (\<exists>m. accumulateMagnitude mag ?max l ''INT64'' = Inr m \<and>
        v = (if \<not> neg then VInt m else if m = INT64_NEGATIVE_MAXIMUM then VInt 0x8000000000000000 else VInt (- m)))"
      using i IntegerLiteral by (auto simp: convertLiteral_def res_bind_eq_Inr)
    also have "\<dots> \<longleftrightarrow> (\<exists>m :: u64. ?n \<le> unat ?max \<and> unat m = ?n) \<and> v = VInt (word_of_int (integerValue neg mag))"
      unfolding acc [OF max(1)] using bits by metis
    also have "(\<exists>m :: u64. ?n \<le> unat ?max \<and> unat m = ?n) \<longleftrightarrow> ?n \<le> unat ?max"
      using u64_bound [of ?max] by (auto intro!: exI [of _ "of_nat ?n"] simp: unat_of_nat take_bit_nat_eq_self)
    finally show ?thesis unfolding max(2) using i IntegerLiteral
      by (cases v) (auto simp: valueOk_def typeMatches_def sint_iff)
  next
    case other
    then show ?thesis using IntegerLiteral
      by (cases v; cases "columnType c") (auto simp: convertLiteral_def execFail_def valueOk_def typeMatches_def)
  qed
qed (cases v; cases "columnType c"; auto simp: convertLiteral_def execFail_def valueOk_def typeMatches_def)+

text \<open>
  C32: conversion of literals is exact. A literal converts to a value of a column exactly when the value is one the
  column may hold (\<open>NULL\<close> only where allowed, the column's type, its length limit) and means what the literal means:
  for integers of any length, that the mathematical value is in the range of the type, up to both ends of \<open>INT64\<close>.
\<close>
theorem convert_literal_exact:
  assumes "magnitudeOk l"
  shows "convertLiteral l c = Inr v \<longleftrightarrow> valueOk c v \<and> means (litValue l) v"
  by (rule convertLiteral_iff [OF assms])

theorem convert_literal_exact_witness:
  "magnitudeOk \<lparr>litSpan = \<lparr>spanBegin = startLocation, spanEnd = startLocation\<rparr>, litValue = IntegerLiteral True ''9223372036854775808''\<rparr> \<and>
   convertLiteral \<lparr>litSpan = \<lparr>spanBegin = startLocation, spanEnd = startLocation\<rparr>, litValue = IntegerLiteral True ''9223372036854775808''\<rparr>
     \<lparr>columnName = ''balance'', columnType = INT64, nullable = False, primaryKey = False, varcharMaxBytes = 0\<rparr>
     = Inr (VInt 0x8000000000000000)"
  (is "magnitudeOk ?l \<and> convertLiteral ?l ?c = Inr ?v")
proof -
  have m: "magnitudeOk ?l" by code_simp
  have "valueOk ?c ?v" by (simp add: valueOk_def typeMatches_def)
  moreover have "means (litValue ?l) ?v" by (simp add: integerValue_def digitValue_def)
  ultimately show ?thesis using m convert_literal_exact [OF m, of ?c ?v] by blast
qed

end
