(* ===== verification/Sql_Expressions.thy ===== *)
theory Sql_Expressions
  imports Sql_Semantics
begin

text \<open>
  Conditions of the executor (\<open>src/sql_executor.cpp\<close>): binding a syntax tree to a schema, with the
  contextual conversion of literals and the type checks; evaluation of a bound expression on a row in
  three-valued logic; and the search for a primary-key equality among the conjuncts.

  A \<open>std::get\<close> on the wrong alternative throws \<open>bad_variant_access\<close> and \<open>row.at\<close> throws on a bad index,
  and both are branches of the model. The lemmas show that no bound expression reaches them on a row of the
  schema, that evaluation computes the mathematical meaning of the syntax tree, and that a row that
  satisfies a condition has the key the search returns.
\<close>

section \<open>Bound expressions\<close>

datatype bound_type = BoundNull | BoundUint32 | BoundInt64 | BoundBoolean | BoundVarchar | BoundInteger

datatype bound_scalar = SNull | SUint u32 | SInt u64 | SBool bool | SString string | SInteger bool string

datatype bound_expression =
    BoundColumn (boundSpan: source_span) (boundTypeOf: bound_type) nat
  | BoundLiteral (boundSpan: source_span) (boundTypeOf: bound_type) bound_scalar
  | BoundUnary (boundSpan: source_span) (boundTypeOf: bound_type) bound_expression
  | BoundBinary (boundSpan: source_span) (boundTypeOf: bound_type) binary_operator bound_expression bound_expression

fun boundType :: "data_type \<Rightarrow> bound_type" where
  "boundType UINT32 = BoundUint32"
| "boundType INT64 = BoundInt64"
| "boundType BOOLEAN = BoundBoolean"
| "boundType VARCHAR = BoundVarchar"

definition isOrdering :: "binary_operator \<Rightarrow> bool" where
  "isOrdering op \<longleftrightarrow> op = BinLess \<or> op = BinLessEqual \<or> op = BinGreater \<or> op = BinGreaterEqual"

definition resolveColumn :: "schema \<Rightarrow> string \<Rightarrow> source_span \<Rightarrow> nat res" where
  "resolveColumn schema name sp =
     (case findColumn schema name of
        Inr (Some index) \<Rightarrow> Inr index
      | Inr None \<Rightarrow> execFail Semantic (''column '' @ quoted name @ '' does not exist'') sp
      | Inl (InvalidArgument message) \<Rightarrow> execFail Semantic message sp
      | Inl e \<Rightarrow> Inl e)"

fun literalType :: "literal_value \<Rightarrow> bound_type" where
  "literalType NullLiteral = BoundNull"
| "literalType (BooleanLiteral _) = BoundBoolean"
| "literalType (StringLiteral _) = BoundVarchar"
| "literalType (IntegerLiteral _ _) = BoundInteger"

fun literalScalar :: "literal_value \<Rightarrow> bound_scalar" where
  "literalScalar NullLiteral = SNull"
| "literalScalar (BooleanLiteral b) = SBool b"
| "literalScalar (StringLiteral s) = SString s"
| "literalScalar (IntegerLiteral negative magnitude) = SInteger negative magnitude"

fun valueScalar :: "db_value \<Rightarrow> bound_scalar" where
  "valueScalar VNull = SNull"
| "valueScalar (VUint w) = SUint w"
| "valueScalar (VInt w) = SInt w"
| "valueScalar (VBool b) = SBool b"
| "valueScalar (VString s) = SString s"

fun syntaxLiteral :: "expression \<Rightarrow> sql_literal option" where
  "syntaxLiteral (LiteralExpression _ l) = Some l"
| "syntaxLiteral _ = None"

fun syntaxIdentifier :: "expression \<Rightarrow> string option" where
  "syntaxIdentifier (IdentifierExpression _ name) = Some name"
| "syntaxIdentifier _ = None"

text \<open>The literal expression is updated in place; the caller gets the updated one back.\<close>

definition convertContextualLiteral ::
  "bound_expression \<Rightarrow> sql_literal \<Rightarrow> column_definition \<Rightarrow> bound_expression res" where
  "convertContextualLiteral e literal column =
     (if litValue literal = NullLiteral then Inr e
      else res_bind (convertLiteral literal column) (\<lambda>converted.
        case e of
          BoundLiteral sp _ _ \<Rightarrow> Inr (BoundLiteral sp (boundType (columnType column)) (valueScalar converted))
        | _ \<Rightarrow> Inl BadVariantAccess))"

definition boundColumnIndex :: "bound_expression \<Rightarrow> nat res" where
  "boundColumnIndex e = (case e of BoundColumn _ _ index \<Rightarrow> Inr index | _ \<Rightarrow> Inl BadVariantAccess)"

definition validateComparisonTypes ::
  "binary_operator \<Rightarrow> bound_expression \<Rightarrow> bound_expression \<Rightarrow> expression \<Rightarrow> expression \<Rightarrow> schema \<Rightarrow> source_span \<Rightarrow>
   (bound_expression \<times> bound_expression) res" where
  "validateComparisonTypes op left right syntaxLeft syntaxRight schema sp =
     (if (boundTypeOf left = BoundBoolean \<or> boundTypeOf right = BoundBoolean) \<and> isOrdering op
      then execFail Semantic ''BOOLEAN supports only equality and inequality comparisons'' sp
      else if boundTypeOf left = BoundNull \<or> boundTypeOf right = BoundNull then Inr (left, right)
      else
        res_bind
          (case (syntaxIdentifier syntaxLeft, syntaxLiteral syntaxRight) of
             (Some _, Some rightLiteral) \<Rightarrow>
               res_bind (boundColumnIndex left) (\<lambda>index.
               res_bind (columnAt schema index) (\<lambda>column.
               res_bind (convertContextualLiteral right rightLiteral column) (\<lambda>r. Inr (left, r))))
           | _ \<Rightarrow>
               (case (syntaxLiteral syntaxLeft, syntaxIdentifier syntaxRight) of
                  (Some leftLiteral, Some _) \<Rightarrow>
                    res_bind (boundColumnIndex right) (\<lambda>index.
                    res_bind (columnAt schema index) (\<lambda>column.
                    res_bind (convertContextualLiteral left leftLiteral column) (\<lambda>l. Inr (l, right))))
                | _ \<Rightarrow> Inr (left, right)))
          (\<lambda>(l, r).
             if boundTypeOf l \<noteq> boundTypeOf r
             then execFail Semantic ''comparison operands have incompatible types'' sp
             else Inr (l, r)))"

definition requireBoolean :: "bound_expression \<Rightarrow> unit res" where
  "requireBoolean e =
     (if boundTypeOf e \<noteq> BoundBoolean \<and> boundTypeOf e \<noteq> BoundNull
      then execFail Semantic ''WHERE logical operand must be BOOLEAN'' (boundSpan e)
      else Inr ())"

fun bindExpression :: "expression \<Rightarrow> schema \<Rightarrow> bound_expression res" where
  "bindExpression (IdentifierExpression sp name) schema =
     res_bind (resolveColumn schema name sp) (\<lambda>index.
     res_bind (columnAt schema index) (\<lambda>column.
       Inr (BoundColumn sp (boundType (columnType column)) index)))"
| "bindExpression (LiteralExpression sp literal) schema =
     Inr (BoundLiteral sp (literalType (litValue literal)) (literalScalar (litValue literal)))"
| "bindExpression (UnaryExpression sp _ operand) schema =
     res_bind (bindExpression operand schema) (\<lambda>e.
     res_bind (requireBoolean e) (\<lambda>_.
       Inr (BoundUnary sp BoundBoolean e)))"
| "bindExpression (BinaryExpression sp op syntaxLeft syntaxRight) schema =
     res_bind (bindExpression syntaxLeft schema) (\<lambda>left.
     res_bind (bindExpression syntaxRight schema) (\<lambda>right.
       if op = BinAnd \<or> op = BinOr then
         res_bind (requireBoolean left) (\<lambda>_.
         res_bind (requireBoolean right) (\<lambda>_.
           Inr (BoundBinary sp BoundBoolean op left right)))
       else
         res_bind (validateComparisonTypes op left right syntaxLeft syntaxRight schema sp) (\<lambda>(l, r).
           Inr (BoundBinary sp BoundBoolean op l r))))"

section \<open>Evaluation\<close>

text \<open>\<open>operator<\<close> of \<open>std::string\<close>: byte by byte, a proper prefix first.\<close>

fun stringLess :: "string \<Rightarrow> string \<Rightarrow> bool" where
  "stringLess _ [] \<longleftrightarrow> False"
| "stringLess [] (_ # _) \<longleftrightarrow> True"
| "stringLess (a # as) (b # bs) \<longleftrightarrow> a < b \<or> a = b \<and> stringLess as bs"

definition normalized :: "bool \<Rightarrow> string \<Rightarrow> bool \<times> string" where
  "normalized negative magnitude =
     (let significant = dropWhile (\<lambda>c. c = CHR ''0'') magnitude;
          m = (if significant = [] then ''0'' else significant) in
      (negative \<and> m \<noteq> ''0'', m))"

definition compareIntegerLiterals :: "bool \<Rightarrow> string \<Rightarrow> bool \<Rightarrow> string \<Rightarrow> int" where
  "compareIntegerLiterals leftSign left rightSign right =
     (let (leftNegative, leftMagnitude) = normalized leftSign left;
          (rightNegative, rightMagnitude) = normalized rightSign right in
      if leftNegative \<noteq> rightNegative then (if leftNegative then -1 else 1)
      else
        let comparison =
          (if length leftMagnitude \<noteq> length rightMagnitude
           then (if length leftMagnitude < length rightMagnitude then -1 else 1)
           else if leftMagnitude \<noteq> rightMagnitude then (if stringLess leftMagnitude rightMagnitude then -1 else 1)
           else 0) in
        if leftNegative then - comparison else comparison)"

fun compareScalars :: "bound_scalar \<Rightarrow> bound_scalar \<Rightarrow> int res" where
  "compareScalars (SUint l) right =
     (case right of SUint r \<Rightarrow> Inr (if l < r then -1 else if l > r then 1 else 0) | _ \<Rightarrow> Inl BadVariantAccess)"
| "compareScalars (SInt l) right =
     (case right of SInt r \<Rightarrow> Inr (if sint l < sint r then -1 else if sint l > sint r then 1 else 0) | _ \<Rightarrow> Inl BadVariantAccess)"
| "compareScalars (SBool l) right =
     (case right of SBool r \<Rightarrow> Inr (if l = r then 0 else if l then 1 else -1) | _ \<Rightarrow> Inl BadVariantAccess)"
| "compareScalars (SString l) right =
     (case right of SString r \<Rightarrow> Inr (if stringLess l r then -1 else if stringLess r l then 1 else 0) | _ \<Rightarrow> Inl BadVariantAccess)"
| "compareScalars (SInteger negative magnitude) right =
     (case right of SInteger n m \<Rightarrow> Inr (compareIntegerLiterals negative magnitude n m) | _ \<Rightarrow> Inl BadVariantAccess)"
| "compareScalars SNull right = Inl BadVariantAccess"

fun comparisonResult :: "binary_operator \<Rightarrow> int \<Rightarrow> bool res" where
  "comparisonResult BinEqual c = Inr (c = 0)"
| "comparisonResult BinNotEqual c = Inr (c \<noteq> 0)"
| "comparisonResult BinLess c = Inr (c < 0)"
| "comparisonResult BinLessEqual c = Inr (c \<le> 0)"
| "comparisonResult BinGreater c = Inr (c > 0)"
| "comparisonResult BinGreaterEqual c = Inr (c \<ge> 0)"
| "comparisonResult _ c = Inl (LogicError ''Logical operator reached scalar comparison.'')"

abbreviation truthOf :: "bool \<Rightarrow> truth_value" where
  "truthOf b \<equiv> (if b then TTrue else TFalse)"

definition scalarTruth :: "bound_scalar \<Rightarrow> truth_value res" where
  "scalarTruth scalar =
     (case scalar of SNull \<Rightarrow> Inr TUnknown | SBool b \<Rightarrow> Inr (truthOf b) | _ \<Rightarrow> Inl BadVariantAccess)"

definition truthScalar :: "truth_value \<Rightarrow> bound_scalar" where
  "truthScalar truth = (if truth = TUnknown then SNull else SBool (truth = TTrue))"

definition rowAt :: "row_values \<Rightarrow> nat \<Rightarrow> db_value res" where
  "rowAt row index = (if index < length row then Inr (row ! index) else Inl (OutOfRange ''vector::at''))"

function evaluateTruth :: "bound_expression \<Rightarrow> row_values \<Rightarrow> truth_value res"
  and evaluateScalar :: "bound_expression \<Rightarrow> row_values \<Rightarrow> bound_scalar res" where
  "evaluateTruth (BoundUnary _ _ operand) row = res_bind (evaluateTruth operand row) (\<lambda>t. Inr (truthNot t))"
| "evaluateTruth (BoundBinary _ _ op left right) row =
     (if op = BinAnd then
        res_bind (evaluateTruth left row) (\<lambda>l.
          if l = TFalse then Inr TFalse
          else res_bind (evaluateTruth right row) (\<lambda>r. Inr (truthAnd l r)))
      else if op = BinOr then
        res_bind (evaluateTruth left row) (\<lambda>l.
          if l = TTrue then Inr TTrue
          else res_bind (evaluateTruth right row) (\<lambda>r. Inr (truthOr l r)))
      else
        res_bind (evaluateScalar left row) (\<lambda>l.
        res_bind (evaluateScalar right row) (\<lambda>r.
          if l = SNull \<or> r = SNull then Inr TUnknown
          else
            res_bind (compareScalars l r) (\<lambda>comparison.
            res_bind (comparisonResult op comparison) (\<lambda>result. Inr (truthOf result))))))"
| "evaluateTruth (BoundColumn sp ty index) row = res_bind (evaluateScalar (BoundColumn sp ty index) row) scalarTruth"
| "evaluateTruth (BoundLiteral sp ty scalar) row = res_bind (evaluateScalar (BoundLiteral sp ty scalar) row) scalarTruth"
| "evaluateScalar (BoundColumn _ _ index) row = res_bind (rowAt row index) (\<lambda>v. Inr (valueScalar v))"
| "evaluateScalar (BoundLiteral _ _ scalar) row = Inr scalar"
| "evaluateScalar (BoundUnary sp ty operand) row =
     res_bind (evaluateTruth (BoundUnary sp ty operand) row) (\<lambda>t. Inr (truthScalar t))"
| "evaluateScalar (BoundBinary sp ty op left right) row =
     res_bind (evaluateTruth (BoundBinary sp ty op left right) row) (\<lambda>t. Inr (truthScalar t))"
  by pat_completeness auto
termination
  by (relation "measures
      [case_sum (\<lambda>(e, _). size e) (\<lambda>(e, _). size e),
       case_sum (\<lambda>(e, _). case e of BoundColumn _ _ _ \<Rightarrow> 1 | BoundLiteral _ _ _ \<Rightarrow> 1 | _ \<Rightarrow> 0)
         (\<lambda>(e, _). case e of BoundColumn _ _ _ \<Rightarrow> 0 | BoundLiteral _ _ _ \<Rightarrow> 0 | _ \<Rightarrow> 1)]") auto

section \<open>Primary-key conditions\<close>

definition matchKey :: "nat \<Rightarrow> bound_expression \<Rightarrow> bound_expression \<Rightarrow> u32 option" where
  "matchKey keyColumn columnExpression literalExpression =
     (case columnExpression of
        BoundColumn _ _ index \<Rightarrow>
          if index \<noteq> keyColumn then None
          else
            (case literalExpression of
               BoundLiteral _ _ scalar \<Rightarrow> (case scalar of SUint key \<Rightarrow> Some key | _ \<Rightarrow> None)
             | _ \<Rightarrow> None)
      | _ \<Rightarrow> None)"

fun primaryKeyCandidate :: "bound_expression \<Rightarrow> nat \<Rightarrow> u32 option" where
  "primaryKeyCandidate (BoundBinary _ _ op left right) column =
     (if op = BinAnd then
        (case primaryKeyCandidate left column of
           Some key \<Rightarrow> Some key
         | None \<Rightarrow> primaryKeyCandidate right column)
      else if op \<noteq> BinEqual then None
      else
        (case matchKey column left right of
           Some key \<Rightarrow> Some key
         | None \<Rightarrow> matchKey column right left))"
| "primaryKeyCandidate _ _ = None"

section \<open>Comparison of integer literals\<close>

lemma magnitudeValue_acc: "magnitudeValue v ds = v * 10 ^ length ds + magnitudeValue 0 ds"
proof (induction ds arbitrary: v)
  case (Cons d ds)
  from Cons.IH [of "v * 10 + digitValue d"] Cons.IH [of "digitValue d"] show ?case by (simp add: algebra_simps)
qed simp

lemma magnitudeValue_bound: "list_all isDigit ds \<Longrightarrow> magnitudeValue 0 ds < 10 ^ length ds"
proof (induction ds)
  case (Cons d ds)
  then have "magnitudeValue 0 ds < 10 ^ length ds" "digitValue d \<le> 9" using digit_component(2) by auto
  then have "digitValue d * 10 ^ length ds + magnitudeValue 0 ds < 10 * 10 ^ length ds"
    using mult_le_mono1 [of "digitValue d" 9 "10 ^ length ds"] by linarith
  then show ?case using magnitudeValue_acc [of "digitValue d" ds] by simp
qed simp

lemma digit_order:
  assumes "isDigit a" "isDigit b"
  shows "a < b \<longleftrightarrow> digitValue a < digitValue b" "a = b \<longleftrightarrow> digitValue a = digitValue b"
proof -
  have "48 \<le> (of_char a :: nat)" "48 \<le> (of_char b :: nat)" using assms by (simp_all add: isDigit_def less_eq_char_def)
  moreover have "a = b \<longleftrightarrow> (of_char a :: nat) = of_char b" by (rule of_char_eq_iff [symmetric])
  ultimately show "a < b \<longleftrightarrow> digitValue a < digitValue b" "a = b \<longleftrightarrow> digitValue a = digitValue b"
    unfolding digitValue_def less_char_def by linarith+
qed

lemma stringLess_magnitude:
  assumes "list_all isDigit xs" "list_all isDigit ys" "length xs = length ys"
  shows "stringLess xs ys \<longleftrightarrow> magnitudeValue 0 xs < magnitudeValue 0 ys"
    and "xs = ys \<longleftrightarrow> magnitudeValue 0 xs = magnitudeValue 0 ys"
proof -
  have "(stringLess xs ys \<longleftrightarrow> magnitudeValue 0 xs < magnitudeValue 0 ys) \<and> (xs = ys \<longleftrightarrow> magnitudeValue 0 xs = magnitudeValue 0 ys)"
    using assms(3,1,2)
  proof (induction xs ys rule: list_induct2)
    case (Cons x xs y ys)
    let ?p = "10 ^ length xs :: nat"
    from Cons have b: "magnitudeValue 0 xs < ?p" "magnitudeValue 0 ys < ?p" and d: "isDigit x" "isDigit y"
      using magnitudeValue_bound [of xs] magnitudeValue_bound [of ys] by auto
    have v: "magnitudeValue 0 (x # xs) = digitValue x * ?p + magnitudeValue 0 xs"
      "magnitudeValue 0 (y # ys) = digitValue y * ?p + magnitudeValue 0 ys"
      using magnitudeValue_acc [of "digitValue x" xs] magnitudeValue_acc [of "digitValue y" ys] Cons.hyps by simp_all
    consider "digitValue x < digitValue y" | "digitValue x = digitValue y" | "digitValue y < digitValue x" by linarith
    then show ?case
    proof cases
      case 1
      then have "Suc (digitValue x) * ?p \<le> digitValue y * ?p" by (intro mult_le_mono1) simp
      then have "magnitudeValue 0 (x # xs) < magnitudeValue 0 (y # ys)" using b unfolding v by simp
      with 1 digit_order [OF d] show ?thesis by auto
    next
      case 2
      with Cons.IH Cons.prems digit_order [OF d] show ?thesis unfolding v by auto
    next
      case 3
      then have "Suc (digitValue y) * ?p \<le> digitValue x * ?p" by (intro mult_le_mono1) simp
      then have "magnitudeValue 0 (y # ys) < magnitudeValue 0 (x # xs)" using b unfolding v by simp
      with 3 digit_order [OF d] show ?thesis by auto
    qed
  qed simp
  then show "stringLess xs ys \<longleftrightarrow> magnitudeValue 0 xs < magnitudeValue 0 ys" "xs = ys \<longleftrightarrow> magnitudeValue 0 xs = magnitudeValue 0 ys"
    by blast+
qed

definition canonical :: "string \<Rightarrow> bool" where
  "canonical m \<longleftrightarrow> m \<noteq> [] \<and> list_all isDigit m \<and> (hd m = CHR ''0'' \<longrightarrow> m = ''0'')"

lemma canonical_length_less:
  assumes "canonical m" "canonical n" "length m < length n"
  shows "magnitudeValue 0 m < magnitudeValue 0 n"
proof -
  obtain d ds where n: "n = d # ds" using assms(2) by (cases n) (auto simp: canonical_def)
  from assms n have d: "isDigit d" "d \<noteq> CHR ''0''" by (auto simp: canonical_def)
  have "isDigit CHR ''0''" by (simp add: isDigit_def)
  from digit_order(2) [OF d(1) this] d(2) have "1 \<le> digitValue d" by (simp add: digitValue_def)
  have "magnitudeValue 0 m < 10 ^ length m" using assms(1) magnitudeValue_bound by (simp add: canonical_def)
  also have "\<dots> \<le> 10 ^ length ds" using assms(3) n by (intro power_increasing) auto
  also have "\<dots> \<le> digitValue d * 10 ^ length ds + magnitudeValue 0 ds" using mult_le_mono1 [OF \<open>1 \<le> digitValue d\<close>, of "10 ^ length ds"] by linarith
  also have "\<dots> = magnitudeValue 0 n" using magnitudeValue_acc [of "digitValue d" ds] n by simp
  finally show ?thesis .
qed

lemma canonical_unique:
  assumes "canonical m" "canonical n" "magnitudeValue 0 m = magnitudeValue 0 n"
  shows "m = n"
proof (cases rule: linorder_cases [of "length m" "length n"])
  case less
  with canonical_length_less [OF assms(1,2)] assms(3) show ?thesis by simp
next
  case equal
  with stringLess_magnitude(2) [of m n] assms show ?thesis by (simp add: canonical_def)
next
  case greater
  with canonical_length_less [OF assms(2,1)] assms(3) show ?thesis by simp
qed

lemma dropWhile_magnitude: "magnitudeValue 0 (dropWhile (\<lambda>c. c = CHR ''0'') m) = magnitudeValue 0 m"
  by (induction m) (auto simp: digitValue_def)

lemma normalized_spec:
  assumes "list_all isDigit m"
  shows "canonical (snd (normalized neg m))" "magnitudeValue 0 (snd (normalized neg m)) = magnitudeValue 0 m"
    "fst (normalized neg m) \<longleftrightarrow> neg \<and> magnitudeValue 0 m \<noteq> 0"
proof -
  let ?s = "dropWhile (\<lambda>c. c = CHR ''0'') m"
  have s: "list_all isDigit ?s" "?s \<noteq> [] \<Longrightarrow> hd ?s \<noteq> CHR ''0''"
    using assms hd_dropWhile [of "\<lambda>c. c = CHR ''0''" m] by (auto simp: list_all_iff dest: set_dropWhileD)
  have "isDigit CHR ''0''" by (simp add: isDigit_def)
  with s show c: "canonical (snd (normalized neg m))" by (simp add: normalized_def Let_def canonical_def)
  show v: "magnitudeValue 0 (snd (normalized neg m)) = magnitudeValue 0 m"
  proof (cases "?s = []")
    case True
    with dropWhile_magnitude [of m] have "magnitudeValue 0 m = 0" by simp
    moreover from True have "snd (normalized neg m) = ''0''" by (simp add: normalized_def Let_def)
    ultimately show ?thesis by (simp add: digitValue_def)
  next
    case False
    then have "snd (normalized neg m) = ?s" unfolding normalized_def Let_def by (simp only: if_False snd_conv)
    with dropWhile_magnitude [of m] show ?thesis by simp
  qed
  have "canonical ''0''" by (simp add: canonical_def isDigit_def)
  have "snd (normalized neg m) = ''0'' \<longleftrightarrow> magnitudeValue 0 m = 0"
  proof
    assume "magnitudeValue 0 m = 0"
    with v have z: "magnitudeValue 0 (snd (normalized neg m)) = magnitudeValue 0 ''0''" by (simp add: digitValue_def)
    show "snd (normalized neg m) = ''0''" by (rule canonical_unique [OF c \<open>canonical ''0''\<close> z])
  qed (use v in \<open>simp add: digitValue_def\<close>)
  then show "fst (normalized neg m) \<longleftrightarrow> neg \<and> magnitudeValue 0 m \<noteq> 0" by (simp add: normalized_def Let_def)
qed

lemma canonical_compare:
  assumes "canonical m" "canonical n"
  shows "(if length m \<noteq> length n then (if length m < length n then -1 else 1)
     else if m \<noteq> n then (if stringLess m n then -1 else 1) else 0) = sgn (int (magnitudeValue 0 m) - int (magnitudeValue 0 n))"
proof (cases "length m = length n")
  case True
  with assms stringLess_magnitude [of m n] show ?thesis by (auto simp: canonical_def sgn_if)
next
  case False
  with canonical_length_less [OF assms] canonical_length_less [OF assms(2,1)] show ?thesis by (auto simp: sgn_if)
qed

lemma compareIntegerLiterals_sgn:
  assumes "list_all isDigit l" "list_all isDigit r"
  shows "compareIntegerLiterals ls l rs r = sgn (integerValue ls l - integerValue rs r)"
proof -
  obtain ln lm where l: "normalized ls l = (ln, lm)" by (cases "normalized ls l")
  obtain rn rm where r: "normalized rs r = (rn, rm)" by (cases "normalized rs r")
  note L = normalized_spec [OF assms(1), of ls, unfolded l, simplified]
  note R = normalized_spec [OF assms(2), of rs, unfolded r, simplified]
  have vl: "integerValue ls l = (if ln then - int (magnitudeValue 0 lm) else int (magnitudeValue 0 lm))" "ln \<Longrightarrow> 0 < magnitudeValue 0 lm"
    using L by (auto simp: integerValue_def)
  have vr: "integerValue rs r = (if rn then - int (magnitudeValue 0 rm) else int (magnitudeValue 0 rm))" "rn \<Longrightarrow> 0 < magnitudeValue 0 rm"
    using R by (auto simp: integerValue_def)
  show ?thesis
    unfolding compareIntegerLiterals_def l r Let_def case_prod_conv canonical_compare [OF L(1) R(1)] vl(1) vr(1)
    using vl(2) vr(2) by (auto simp: sgn_if)
qed

section \<open>The meaning of a condition\<close>

text \<open>
  The reference: values without their storage types, comparison of mathematical integers, Kleene's
  connectives with \<open>NULL\<close> as the third truth value, all directly on the syntax tree.
\<close>

datatype sval = NullV | NumV int | BoolV bool | StrV string

fun rowSval :: "db_value \<Rightarrow> sval" where
  "rowSval VNull = NullV"
| "rowSval (VUint w) = NumV (uint w)"
| "rowSval (VInt w) = NumV (sint w)"
| "rowSval (VBool b) = BoolV b"
| "rowSval (VString s) = StrV s"

fun literalSval :: "literal_value \<Rightarrow> sval" where
  "literalSval NullLiteral = NullV"
| "literalSval (BooleanLiteral b) = BoolV b"
| "literalSval (IntegerLiteral negative magnitude) = NumV (integerValue negative magnitude)"
| "literalSval (StringLiteral s) = StrV s"

fun svalLess :: "sval \<Rightarrow> sval \<Rightarrow> bool" where
  "svalLess (NumV a) (NumV b) \<longleftrightarrow> a < b"
| "svalLess (BoolV a) (BoolV b) \<longleftrightarrow> \<not> a \<and> b"
| "svalLess (StrV a) (StrV b) \<longleftrightarrow> stringLess a b"
| "svalLess _ _ \<longleftrightarrow> False"

fun svalCompare :: "binary_operator \<Rightarrow> sval \<Rightarrow> sval \<Rightarrow> bool" where
  "svalCompare BinEqual a b \<longleftrightarrow> a = b"
| "svalCompare BinNotEqual a b \<longleftrightarrow> a \<noteq> b"
| "svalCompare BinLess a b \<longleftrightarrow> svalLess a b"
| "svalCompare BinLessEqual a b \<longleftrightarrow> svalLess a b \<or> a = b"
| "svalCompare BinGreater a b \<longleftrightarrow> svalLess b a"
| "svalCompare BinGreaterEqual a b \<longleftrightarrow> svalLess b a \<or> a = b"
| "svalCompare _ a b \<longleftrightarrow> False"

fun semExpr :: "schema \<Rightarrow> row_values \<Rightarrow> expression \<Rightarrow> sval" where
  "semExpr s row (IdentifierExpression _ name) = (case findColumn s name of Inr (Some i) \<Rightarrow> rowSval (row ! i) | _ \<Rightarrow> NullV)"
| "semExpr s row (LiteralExpression _ l) = literalSval (litValue l)"
| "semExpr s row (UnaryExpression _ _ e) = (case semExpr s row e of BoolV b \<Rightarrow> BoolV (\<not> b) | _ \<Rightarrow> NullV)"
| "semExpr s row (BinaryExpression _ op l r) =
     (let a = semExpr s row l; b = semExpr s row r in
      case op of
        BinAnd \<Rightarrow> if a = BoolV False \<or> b = BoolV False then BoolV False
          else if a = BoolV True \<and> b = BoolV True then BoolV True else NullV
      | BinOr \<Rightarrow> if a = BoolV True \<or> b = BoolV True then BoolV True
          else if a = BoolV False \<and> b = BoolV False then BoolV False else NullV
      | _ \<Rightarrow> if a = NullV \<or> b = NullV then NullV else BoolV (svalCompare op a b))"

fun literalsOk :: "expression \<Rightarrow> bool" where
  "literalsOk (IdentifierExpression _ _) \<longleftrightarrow> True"
| "literalsOk (LiteralExpression _ l) \<longleftrightarrow> magnitudeOk l"
| "literalsOk (UnaryExpression _ _ e) \<longleftrightarrow> literalsOk e"
| "literalsOk (BinaryExpression _ _ l r) \<longleftrightarrow> literalsOk l \<and> literalsOk r"

fun scalarSval :: "bound_scalar \<Rightarrow> sval" where
  "scalarSval SNull = NullV"
| "scalarSval (SUint w) = NumV (uint w)"
| "scalarSval (SInt w) = NumV (sint w)"
| "scalarSval (SBool b) = BoolV b"
| "scalarSval (SString s) = StrV s"
| "scalarSval (SInteger negative magnitude) = NumV (integerValue negative magnitude)"

fun truthSval :: "truth_value \<Rightarrow> sval" where
  "truthSval TTrue = BoolV True" | "truthSval TFalse = BoolV False" | "truthSval TUnknown = NullV"

text \<open>A scalar is of a bound type, or null; integer literals are digit strings.\<close>

fun hasType :: "bound_type \<Rightarrow> bound_scalar \<Rightarrow> bool" where
  "hasType _ SNull \<longleftrightarrow> True"
| "hasType t (SUint _) \<longleftrightarrow> t = BoundUint32"
| "hasType t (SInt _) \<longleftrightarrow> t = BoundInt64"
| "hasType t (SBool _) \<longleftrightarrow> t = BoundBoolean"
| "hasType t (SString _) \<longleftrightarrow> t = BoundVarchar"
| "hasType t (SInteger _ magnitude) \<longleftrightarrow> t = BoundInteger \<and> list_all isDigit magnitude"

lemma uint_eq_iff: "(uint v = uint w) = (v = w)" for v w :: u32
  by (simp add: word_uint_eq_iff)

lemma sint_eq_iff: "(sint v = sint w) = (v = w)" for v w :: u64
  by (metis signed_word_eqI)

lemma stringLess_irrefl: "\<not> stringLess a a"
  by (induction a) auto

lemma stringLess_linear: "\<not> stringLess a b \<Longrightarrow> \<not> stringLess b a \<Longrightarrow> a = b"
proof (induction a b rule: stringLess.induct)
  case (1 a)
  then show ?case by (cases a) simp_all
qed auto

lemma stringLess_asym: "stringLess a b \<Longrightarrow> \<not> stringLess b a"
  by (induction a b rule: stringLess.induct) auto

lemma compareScalars_spec:
  assumes "hasType t a" "hasType t b" "a \<noteq> SNull" "b \<noteq> SNull"
  obtains c where "compareScalars a b = Inr c" "c < 0 \<longleftrightarrow> svalLess (scalarSval a) (scalarSval b)"
    "c > 0 \<longleftrightarrow> svalLess (scalarSval b) (scalarSval a)" "c = 0 \<longleftrightarrow> scalarSval a = scalarSval b"
proof (cases a)
  case (SUint v)
  with assms obtain w where "b = SUint w" by (cases b) auto
  with SUint show ?thesis by (intro that) (auto simp: word_less_def uint_eq_iff split: if_splits)
next
  case (SInt v)
  with assms obtain w where "b = SInt w" by (cases b) auto
  with SInt show ?thesis by (intro that) (auto simp: sint_eq_iff split: if_splits)
next
  case (SBool v)
  with assms obtain w where "b = SBool w" by (cases b) auto
  with SBool show ?thesis by (intro that) (auto split: if_splits)
next
  case (SString v)
  with assms obtain w where "b = SString w" by (cases b) auto
  with SString show ?thesis
    by (intro that) (auto simp: stringLess_irrefl dest: stringLess_asym stringLess_linear split: if_splits)
next
  case (SInteger n m)
  with assms obtain n' m' where "b = SInteger n' m'" "list_all isDigit m" "list_all isDigit m'" by (cases b) auto
  with SInteger compareIntegerLiterals_sgn [of m m' n n'] show ?thesis
    by (intro that [of "sgn (integerValue n m - integerValue n' m')"]) (auto simp: sgn_if split: if_splits)
qed (use assms in auto)

lemma comparison_spec:
  assumes "hasType t a" "hasType t b" "a \<noteq> SNull" "b \<noteq> SNull" "op \<noteq> BinAnd" "op \<noteq> BinOr"
  shows "res_bind (compareScalars a b) (\<lambda>c. res_bind (comparisonResult op c) (\<lambda>result. Inr (truthOf result))) =
    Inr (truthOf (svalCompare op (scalarSval a) (scalarSval b)))"
  by (rule compareScalars_spec [OF assms(1-4)]) (use assms(5,6) in \<open>cases op; force\<close>)

lemma scalarTruth_spec: "hasType t v \<Longrightarrow> t \<in> {BoundBoolean, BoundNull} \<Longrightarrow> \<exists>b. scalarTruth v = Inr b \<and> truthSval b = scalarSval v"
  by (cases v) (auto simp: scalarTruth_def)

lemma truthScalar_spec: "scalarSval (truthScalar t) = truthSval t" "hasType BoundBoolean (truthScalar t)"
  by (cases t; simp add: truthScalar_def)+

section \<open>Soundness of binding and evaluation\<close>

definition scalarSound :: "schema \<Rightarrow> row_values \<Rightarrow> expression \<Rightarrow> bound_expression \<Rightarrow> bool" where
  "scalarSound s row e b \<longleftrightarrow> (\<exists>v. evaluateScalar b row = Inr v \<and> scalarSval v = semExpr s row e \<and> hasType (boundTypeOf b) v)"

definition truthSound :: "schema \<Rightarrow> row_values \<Rightarrow> expression \<Rightarrow> bound_expression \<Rightarrow> bool" where
  "truthSound s row e b \<longleftrightarrow> (\<exists>t. evaluateTruth b row = Inr t \<and> truthSval t = semExpr s row e)"

lemma valueScalar_type: "valueOk c v \<Longrightarrow> hasType (boundType (columnType c)) (valueScalar v)"
  by (cases v; cases "columnType c") (auto simp: valueOk_def typeMatches_def)

lemma valueScalar_sval: "scalarSval (valueScalar v) = rowSval v"
  by (cases v) simp_all

lemma means_sval: "means l v \<Longrightarrow> rowSval v = literalSval l"
  by (cases l; cases v) simp_all

lemma resolveColumn_found: "resolveColumn s name sp = Inr i \<Longrightarrow> findColumn s name = Inr (Some i) \<and> i < length s"
  by (auto simp: resolveColumn_def execFail_def findColumn_def res_bind_eq_Inr find_Some_iff
      split: sum.splits option.splits exn.splits)

lemma column_sound:
  assumes "findColumn s name = Inr (Some i)" "i < length s" "list_all2 valueOk s row"
  shows "scalarSound s row (IdentifierExpression sp name) (BoundColumn sp' (boundType (columnType (s ! i))) i)"
proof -
  from assms(2,3) have "i < length row" "valueOk (s ! i) (row ! i)" by (simp_all add: list_all2_conv_all_nth)
  then show ?thesis using assms(1) valueScalar_type by (auto simp: scalarSound_def rowAt_def valueScalar_sval)
qed

lemma literal_sound:
  "magnitudeOk l \<Longrightarrow> scalarSound s row (LiteralExpression sp l) (BoundLiteral sp' (literalType (litValue l)) (literalScalar (litValue l)))"
  by (cases "litValue l") (auto simp: scalarSound_def magnitudeOk_def)

lemma converted_sound:
  assumes "magnitudeOk l" "convertContextualLiteral (BoundLiteral sp ty v) l c = Inr b" "litValue l \<noteq> NullLiteral"
  shows "scalarSound s row (LiteralExpression sp' l) b" "boundTypeOf b = boundType (columnType c)"
proof -
  from assms(2,3) obtain w where w: "convertLiteral l c = Inr w" "b = BoundLiteral sp (boundType (columnType c)) (valueScalar w)"
    by (auto simp: convertContextualLiteral_def res_bind_eq_Inr)
  from w(1) convertLiteral_iff [OF assms(1)] have "valueOk c w" "means (litValue l) w" by simp_all
  then show "scalarSound s row (LiteralExpression sp' l) b" "boundTypeOf b = boundType (columnType c)"
    using w(2) by (simp_all add: scalarSound_def valueScalar_sval means_sval valueScalar_type)
qed

text \<open>The operands of a comparison after the checks: still sound, and of one type unless one of them is \<open>NULL\<close>.\<close>

lemma convert_right:
  assumes "bindExpression el s = Inr l" "bindExpression er s = Inr r" "syntaxIdentifier el = Some name" "syntaxLiteral er = Some lit"
    and "literalsOk er" "boundTypeOf r \<noteq> BoundNull"
    and "res_bind (boundColumnIndex l) (\<lambda>index. res_bind (columnAt s index) (\<lambda>column. convertContextualLiteral r lit column)) = Inr r'"
  shows "scalarSound s row er r'"
proof -
  from assms(3,4) obtain sp sp' where e: "el = IdentifierExpression sp name" "er = LiteralExpression sp' lit"
    by (cases el; cases er) simp_all
  with assms(2,6) have r: "r = BoundLiteral sp' (literalType (litValue lit)) (literalScalar (litValue lit))" "litValue lit \<noteq> NullLiteral"
    by auto
  from assms(7) obtain column where "convertContextualLiteral r lit column = Inr r'" by (auto simp: res_bind_eq_Inr)
  with converted_sound(1) [of lit sp' _ _ column r'] r assms(5) e show ?thesis by simp
qed

lemma comparison_operands:
  assumes v: "validateComparisonTypes op l r el er s sp = Inr (l', r')"
    and b: "bindExpression el s = Inr l" "bindExpression er s = Inr r" "literalsOk el" "literalsOk er"
    and snd: "scalarSound s row el l" "scalarSound s row er r"
  shows "scalarSound s row el l' \<and> scalarSound s row er r' \<and>
    (boundTypeOf l' = boundTypeOf r' \<or> boundTypeOf l' = BoundNull \<or> boundTypeOf r' = BoundNull)"
proof (cases "boundTypeOf l = BoundNull \<or> boundTypeOf r = BoundNull")
  case True
  with v snd show ?thesis by (auto simp: validateComparisonTypes_def execFail_def split: if_splits)
next
  case False
  consider (right) name lit where "syntaxIdentifier el = Some name" "syntaxLiteral er = Some lit"
    | (left) name lit where "syntaxLiteral el = Some lit" "syntaxIdentifier er = Some name"
    | (none) "\<not> (syntaxIdentifier el \<noteq> None \<and> syntaxLiteral er \<noteq> None)" "\<not> (syntaxLiteral el \<noteq> None \<and> syntaxIdentifier er \<noteq> None)"
    by (cases "syntaxIdentifier el"; cases "syntaxLiteral er"; cases "syntaxLiteral el"; cases "syntaxIdentifier er") auto
  then show ?thesis
  proof cases
    case right
    with v False have "l' = l" "boundTypeOf l' = boundTypeOf r'"
      "res_bind (boundColumnIndex l) (\<lambda>index. res_bind (columnAt s index) (\<lambda>column. convertContextualLiteral r lit column)) = Inr r'"
      by (auto simp: validateComparisonTypes_def execFail_def res_bind_eq_Inr split: if_splits)
    with convert_right [OF b(1,2) right b(4)] False snd show ?thesis by simp
  next
    case left
    then have "syntaxIdentifier el = None" by (cases el) simp_all
    with left v False have "r' = r" "boundTypeOf l' = boundTypeOf r'"
      "res_bind (boundColumnIndex r) (\<lambda>index. res_bind (columnAt s index) (\<lambda>column. convertContextualLiteral l lit column)) = Inr l'"
      by (auto simp: validateComparisonTypes_def execFail_def res_bind_eq_Inr split: if_splits)
    with convert_right [OF b(2,1) left(2,1) b(3)] False snd show ?thesis by simp
  next
    case none
    then have "(l', r') = (l, r)" "boundTypeOf l' = boundTypeOf r'" using v False
      by (auto simp: validateComparisonTypes_def execFail_def split: if_splits option.splits)
    with snd show ?thesis by simp
  qed
qed

lemma leaf_truth:
  assumes "scalarSound s row e b" "boundTypeOf b \<in> {BoundBoolean, BoundNull}" "\<And>v. evaluateScalar b row = Inr v \<Longrightarrow> evaluateTruth b row = scalarTruth v"
  shows "truthSound s row e b"
proof -
  from assms(1) obtain v where v: "evaluateScalar b row = Inr v" "scalarSval v = semExpr s row e" "hasType (boundTypeOf b) v"
    by (auto simp: scalarSound_def)
  from scalarTruth_spec [OF v(3) assms(2)] v assms(3) show ?thesis by (auto simp: truthSound_def)
qed

lemma truth_scalar:
  assumes "truthSound s row e b" "boundTypeOf b = BoundBoolean" "\<And>t. evaluateTruth b row = Inr t \<Longrightarrow> evaluateScalar b row = Inr (truthScalar t)"
  shows "scalarSound s row e b"
  using assms truthScalar_spec by (auto simp: truthSound_def scalarSound_def)

lemma requireBoolean_ok [simp]: "requireBoolean b = Inr u \<longleftrightarrow> boundTypeOf b \<in> {BoundBoolean, BoundNull}"
  by (auto simp: requireBoolean_def execFail_def)

lemma truthSval_cases: "truthSval t = BoolV b \<longleftrightarrow> t = truthOf b" "truthSval t = NullV \<longleftrightarrow> t = TUnknown" "(NullV = truthSval t) = (t = TUnknown)"
  by (cases t; auto)+

lemma bind_sound:
  assumes "bindExpression e s = Inr b" "list_all2 valueOk s row" "literalsOk e"
  shows "scalarSound s row e b \<and> (boundTypeOf b \<in> {BoundBoolean, BoundNull} \<longrightarrow> truthSound s row e b)"
  using assms(1,3)
proof (induction e arbitrary: b)
  case (IdentifierExpression sp name)
  then obtain i where i: "findColumn s name = Inr (Some i)" "i < length s" "b = BoundColumn sp (boundType (columnType (s ! i))) i"
    by (auto simp: res_bind_eq_Inr columnAt_def dest!: resolveColumn_found)
  note c = column_sound [OF i(1,2) assms(2), of sp sp, folded i(3)]
  with leaf_truth [OF c] i(3) show ?case by simp
next
  case (LiteralExpression sp l)
  then have b: "b = BoundLiteral sp (literalType (litValue l)) (literalScalar (litValue l))" and "magnitudeOk l" by simp_all
  note c = literal_sound [OF \<open>magnitudeOk l\<close>, of s row sp sp, folded b]
  with leaf_truth [OF c] b show ?case by simp
next
  case (UnaryExpression sp op e)
  then obtain b' where b: "bindExpression e s = Inr b'" "boundTypeOf b' \<in> {BoundBoolean, BoundNull}" "b = BoundUnary sp BoundBoolean b'"
    by (auto simp: res_bind_eq_Inr)
  from UnaryExpression.IH [OF b(1)] UnaryExpression.prems b(2) obtain t where
    t: "evaluateTruth b' row = Inr t" "truthSval t = semExpr s row e" by (auto simp: truthSound_def)
  have "truthSval (truthNot t) = (case truthSval t of BoolV b \<Rightarrow> BoolV (\<not> b) | _ \<Rightarrow> NullV)" by (cases t) simp_all
  with t b(3) have ts: "truthSound s row (UnaryExpression sp op e) b" by (simp add: truthSound_def)
  with truth_scalar [OF ts] b(3) show ?case by simp
next
  case (BinaryExpression sp op el er)
  then obtain l r where lr: "bindExpression el s = Inr l" "bindExpression er s = Inr r" by (auto simp: res_bind_eq_Inr)
  note L = BinaryExpression.IH(1) [OF lr(1)] and R = BinaryExpression.IH(2) [OF lr(2)]
  have "\<exists>l' r'. b = BoundBinary sp BoundBoolean op l' r' \<and> truthSound s row (BinaryExpression sp op el er) b"
  proof (cases "op = BinAnd \<or> op = BinOr")
    case True
    with BinaryExpression.prems lr have b: "b = BoundBinary sp BoundBoolean op l r" and
      "boundTypeOf l \<in> {BoundBoolean, BoundNull}" "boundTypeOf r \<in> {BoundBoolean, BoundNull}"
      by (auto simp: res_bind_eq_Inr)
    with L R BinaryExpression.prems(2) obtain t u where t: "evaluateTruth l row = Inr t" "truthSval t = semExpr s row el" and
      u: "evaluateTruth r row = Inr u" "truthSval u = semExpr s row er" by (auto simp: truthSound_def)
    have "truthSound s row (BinaryExpression sp op el er) b"
      using True unfolding truthSound_def b semExpr.simps Let_def t(2) [symmetric] u(2) [symmetric]
      by (elim disjE) (cases t; cases u; simp add: t(1) u(1) truthAnd_def truthOr_def)+
    with b show ?thesis by simp
  next
    case False
    with BinaryExpression.prems lr obtain l' r' where b: "validateComparisonTypes op l r el er s sp = Inr (l', r')"
      "b = BoundBinary sp BoundBoolean op l' r'" by (auto simp: res_bind_eq_Inr)
    from BinaryExpression.prems(2) have lits: "literalsOk el" "literalsOk er" by simp_all
    from L R lits have "scalarSound s row el l" "scalarSound s row er r" by simp_all
    note ops = comparison_operands [OF b(1) lr lits this]
    from ops obtain v w where
      v: "evaluateScalar l' row = Inr v" "scalarSval v = semExpr s row el" "hasType (boundTypeOf l') v" and
      w: "evaluateScalar r' row = Inr w" "scalarSval w = semExpr s row er" "hasType (boundTypeOf r') w" and
      ty: "boundTypeOf l' = boundTypeOf r' \<or> boundTypeOf l' = BoundNull \<or> boundTypeOf r' = BoundNull"
      by (auto simp: scalarSound_def)
    have null: "x = SNull \<longleftrightarrow> scalarSval x = NullV" "hasType BoundNull x \<Longrightarrow> x = SNull" for x by (cases x; simp)+
    have "truthSound s row (BinaryExpression sp op el er) b"
    proof (cases "v = SNull \<or> w = SNull")
      case True
      with False v w b(2) show ?thesis by (cases op) (auto simp: truthSound_def null)
    next
      case nn: False
      with ty v(3) w(3) null(2) have "hasType (boundTypeOf l') w" by auto
      from comparison_spec [OF v(3) this] nn False have
        "evaluateTruth b row = Inr (truthOf (svalCompare op (scalarSval v) (scalarSval w)))" using v(1) w(1) b(2) by simp
      moreover have "semExpr s row (BinaryExpression sp op el er) = BoolV (svalCompare op (scalarSval v) (scalarSval w))"
        using False nn null(1) unfolding semExpr.simps Let_def v(2) [symmetric] w(2) [symmetric] by (cases op) simp_all
      ultimately show ?thesis by (simp add: truthSound_def)
    qed
    with b show ?thesis by simp
  qed
  then obtain l' r' where b: "b = BoundBinary sp BoundBoolean op l' r'" and ts: "truthSound s row (BinaryExpression sp op el er) b" by blast
  with truth_scalar [OF ts] show ?case by simp
qed

text \<open>
  C22: conditions mean what SQL says. When a \<open>WHERE\<close> expression binds and passes the boolean check, evaluation on a row of the
  schema never throws, and its truth value is the meaning of the syntax tree: comparisons of mathematical integers
  whatever the column type or the length of the literal, byte order of strings, Kleene's connectives with \<open>NULL\<close>
  as unknown, in spite of literal conversion and short-circuiting.
\<close>
theorem where_evaluation_correct:
  assumes "bindExpression e s = Inr b" "requireBoolean b = Inr ()" "validateValues s row = Inr ()" "literalsOk e"
  shows "\<exists>t. evaluateTruth b row = Inr t \<and> truthSval t = semExpr s row e"
  using bind_sound [OF assms(1) _ assms(4), of row] assms(2,3) by (auto simp: truthSound_def validateValues_ok)

text \<open>
  C33: bound expressions are well typed. On a row of the schema, an expression that binds evaluates to a scalar of
  the type binding gave it, or to \<open>NULL\<close>; no variant is accessed at the wrong alternative and no column index
  is out of range.
\<close>
theorem bound_expression_typed:
  assumes "bindExpression e s = Inr b" "validateValues s row = Inr ()" "literalsOk e"
  shows "\<exists>v. evaluateScalar b row = Inr v \<and> hasType (boundTypeOf b) v"
  using bind_sound [OF assms(1) _ assms(3), of row] assms(2) by (auto simp: scalarSound_def validateValues_ok)

lemma matchKey_Some:
  "matchKey k c l = Some key \<longleftrightarrow> (\<exists>sp ty sp' ty'. c = BoundColumn sp ty k \<and> l = BoundLiteral sp' ty' (SUint key))"
  by (auto simp: matchKey_def split: bound_expression.splits bound_scalar.splits)

lemma key_comparison:
  assumes "res_bind (compareScalars v w) (\<lambda>c. res_bind (comparisonResult BinEqual c) (\<lambda>result. Inr (truthOf result))) = Inr TTrue"
  shows "w = SUint key \<Longrightarrow> v = SUint key" "v = SUint key \<Longrightarrow> w = SUint key"
  using assms by (cases v; auto simp: res_bind_eq_Inr split: bound_scalar.splits if_splits)+

lemma valueScalar_Uint: "valueScalar v = SUint k \<longleftrightarrow> v = VUint k"
  by (cases v) simp_all

lemma candidate_key:
  "primaryKeyCandidate b k = Some key \<Longrightarrow> evaluateTruth b row = Inr TTrue \<Longrightarrow> k < length row \<and> row ! k = VUint key"
proof (induction b k rule: primaryKeyCandidate.induct)
  case (1 sp ty op left right column)
  consider "op = BinAnd" | "op = BinEqual" using "1.prems"(1) by (cases "op = BinAnd"; cases "op = BinEqual") auto
  then show ?case
  proof cases
    case 1
    with "1.prems"(2) have "evaluateTruth left row = Inr TTrue" "evaluateTruth right row = Inr TTrue"
      by (auto simp: res_bind_eq_Inr truth_and_true split: if_splits)
    with "1.IH" "1.prems"(1) 1 show ?thesis by (auto split: option.splits)
  next
    case 2
    from "1.prems"(2) 2 obtain v w where vw: "evaluateScalar left row = Inr v" "evaluateScalar right row = Inr w"
      and c: "res_bind (compareScalars v w) (\<lambda>c. res_bind (comparisonResult BinEqual c) (\<lambda>result. Inr (truthOf result))) = Inr TTrue"
      by (auto simp: res_bind_eq_Inr split: if_splits)
    from "1.prems"(1) 2 have "matchKey column left right = Some key \<or> matchKey column right left = Some key"
      by (simp split: option.splits)
    then show ?thesis
    proof
      assume "matchKey column left right = Some key"
      then have "w = SUint key" and col: "res_bind (rowAt row column) (\<lambda>x. Inr (valueScalar x)) = Inr v"
        using vw by (auto simp: matchKey_Some)
      from key_comparison(1) [OF c this(1)] col show ?thesis
        by (simp add: res_bind_eq_Inr rowAt_def valueScalar_Uint split: if_splits)
    next
      assume "matchKey column right left = Some key"
      then have "v = SUint key" and col: "res_bind (rowAt row column) (\<lambda>x. Inr (valueScalar x)) = Inr w"
        using vw by (auto simp: matchKey_Some)
      from key_comparison(2) [OF c this(1)] col show ?thesis
        by (simp add: res_bind_eq_Inr rowAt_def valueScalar_Uint split: if_splits)
    qed
  qed
qed simp_all

text \<open>
  the index may be used for a condition. When the search through the conjuncts finds a key, every row that
  satisfies the whole condition has that key in the primary-key column, so looking up the key alone loses no row.
\<close>
theorem primary_key_condition:
  assumes "primaryKeyCandidate b k = Some key" "evaluateTruth b row = Inr TTrue"
  shows "k < length row \<and> row ! k = VUint key"
  by (rule candidate_key [OF assms])

section \<open>Example\<close>

text \<open>\<open>id = 7 AND NOT (balance < -3000000000 AND name = NULL)\<close> on a table of accounts.\<close>

abbreviation anywhere :: source_span where "anywhere \<equiv> \<lparr>spanBegin = startLocation, spanEnd = startLocation\<rparr>"

definition accountSchema :: schema where
  "accountSchema =
     [\<lparr>columnName = ''id'', columnType = UINT32, nullable = False, primaryKey = True, varcharMaxBytes = 0\<rparr>,
      \<lparr>columnName = ''balance'', columnType = INT64, nullable = True, primaryKey = False, varcharMaxBytes = 0\<rparr>,
      \<lparr>columnName = ''name'', columnType = VARCHAR, nullable = True, primaryKey = False, varcharMaxBytes = 10\<rparr>]"

definition accountCondition :: expression where
  "accountCondition =
     (let name = IdentifierExpression anywhere;
          lit = (\<lambda>v. LiteralExpression anywhere \<lparr>litSpan = anywhere, litValue = v\<rparr>);
          bin = BinaryExpression anywhere in
      bin BinAnd (bin BinEqual (name ''ID'') (lit (IntegerLiteral False ''007'')))
        (UnaryExpression anywhere UnaryNot
          (bin BinAnd (bin BinLess (name ''balance'') (lit (IntegerLiteral True ''3000000000'')))
            (bin BinEqual (name ''name'') (lit NullLiteral)))))"

definition accountRow :: row_values where
  "accountRow = [VUint 7, VInt 5, VString ''ann'']"

definition boundAccountCondition :: bound_expression where
  "boundAccountCondition = projr (bindExpression accountCondition accountSchema)"

lemma account_facts:
  "bindExpression accountCondition accountSchema = Inr boundAccountCondition" "requireBoolean boundAccountCondition = Inr ()"
  "validateValues accountSchema accountRow = Inr ()" "literalsOk accountCondition"
  "primaryKeyCandidate boundAccountCondition 0 = Some 7" "evaluateTruth boundAccountCondition accountRow = Inr TTrue"
  by code_simp+

theorem where_evaluation_correct_witness:
  "bindExpression accountCondition accountSchema = Inr boundAccountCondition \<and>
   (\<exists>t. evaluateTruth boundAccountCondition accountRow = Inr t \<and> truthSval t = semExpr accountSchema accountRow accountCondition)"
  using where_evaluation_correct [OF account_facts(1-4)] account_facts(1) by blast

theorem bound_expression_typed_witness:
  "bindExpression accountCondition accountSchema = Inr boundAccountCondition \<and>
   (\<exists>v. evaluateScalar boundAccountCondition accountRow = Inr v \<and> hasType (boundTypeOf boundAccountCondition) v)"
  using bound_expression_typed [OF account_facts(1,3,4)] account_facts(1) by blast

theorem primary_key_condition_witness:
  "primaryKeyCandidate boundAccountCondition 0 = Some 7 \<and> evaluateTruth boundAccountCondition accountRow = Inr TTrue \<and>
   accountRow ! 0 = VUint 7"
  using primary_key_condition [OF account_facts(5,6)] account_facts(5,6) by blast

end
