(* ===== verification/Sql_Errors.thy ===== *)
theory Sql_Errors
  imports Sql_Expressions
begin

text \<open>
  What the parser guarantees about its results and its errors, for every input: an error is an \<open>SqlError\<close>
  whose span lies in the text and carries the right line and column, and in an accepted statement every
  integer literal is a digit string, which is what literal conversion and evaluation rely on.

  The parsing functions share one contract (\<open>yields\<close>); a rule for sequencing carries it through them.
\<close>

section \<open>The contract\<close>

definition parserOk :: "parser \<Rightarrow> bool" where
  "parserOk p \<longleftrightarrow> current p < length (tokenList (stream p)) \<and>
     (\<forall>t \<in> set (tokenList (stream p)). tokKind t = TokInteger \<longrightarrow> list_all isDigit (tokValue t))"

definition errorIn :: "token list \<Rightarrow> exn \<Rightarrow> bool" where
  "errorIn ts e \<longleftrightarrow> (\<exists>m. \<exists>t \<in> set ts. e = SqlError Parser m (tokSpan t))"

definition yields :: "parser \<Rightarrow> ('a \<Rightarrow> bool) \<Rightarrow> 'a parsed \<Rightarrow> bool" where
  "yields p P r \<longleftrightarrow> (case r of
       Inl e \<Rightarrow> errorIn (tokenList (stream p)) e
     | Inr (x, q) \<Rightarrow> stream q = stream p \<and> parserOk q \<and> P x)"

named_theorems yield_rules "the contract of the parsing functions"

lemma yields_bind:
  assumes "yields p P m" "\<And>x q. m = Inr (x, q) \<Longrightarrow> P x \<Longrightarrow> parserOk q \<Longrightarrow> stream q = stream p \<Longrightarrow> yields q Q (k (x, q))"
  shows "yields p Q (res_bind m k)"
proof (cases m)
  case (Inr xq)
  obtain x q where "xq = (x, q)" by (cases xq)
  with assms(1) Inr have q: "stream q = stream p" "parserOk q" "P x" by (simp_all add: yields_def)
  with assms(2) [OF _ q(3,2,1)] Inr \<open>xq = (x, q)\<close> show ?thesis by (auto simp: yields_def split: sum.splits)
qed (use assms(1) in \<open>simp add: yields_def\<close>)

lemma yields_Inr: "parserOk q \<Longrightarrow> stream q = stream p \<Longrightarrow> P x \<Longrightarrow> yields p P (Inr (x, q))"
  by (simp add: yields_def)

lemma yields_stream: "yields q P r \<Longrightarrow> stream q = stream p \<Longrightarrow> yields p P r"
  by (auto simp: yields_def split: sum.splits)

lemma yields_mono: "yields p P r \<Longrightarrow> (\<And>x. P x \<Longrightarrow> Q x) \<Longrightarrow> yields p Q r"
  by (auto simp: yields_def split: sum.splits)

lemma peek_in: "peekToken p \<in> set (tokenList (stream p))"
  using token_stream_end(1) [of "stream p"] by (auto simp: peekToken_def Let_def)

lemma previous_in: "parserOk p \<Longrightarrow> previousToken p \<in> set (tokenList (stream p))"
  by (auto simp: parserOk_def previousToken_def)

lemma yields_fail: "t \<in> set (tokenList (stream p)) \<Longrightarrow> yields p P (failAt t m)"
  by (auto simp: yields_def failAt_def errorIn_def)

lemma advance_ok:
  assumes "parserOk p"
  shows "parserOk (advanceToken p)" "stream (advanceToken p) = stream p"
    "\<not> check p TokEndOfFile \<Longrightarrow> previousToken (advanceToken p) = peekToken p"
proof -
  let ?ts = "tokenList (stream p)"
  show "stream (advanceToken p) = stream p" by (simp add: advanceToken_def)
  have "Suc (current p) < length ?ts" if "\<not> check p TokEndOfFile"
  proof (rule ccontr)
    assume "\<not> Suc (current p) < length ?ts"
    with assms have "current p = length ?ts - 1" unfolding parserOk_def by linarith
    with that token_stream_end [of "stream p"] show False
      by (simp add: check_def peekToken_def Let_def last_conv_nth split: if_splits)
  qed
  with assms show "parserOk (advanceToken p)" by (auto simp: parserOk_def advanceToken_def)
  show "previousToken (advanceToken p) = peekToken p" if "\<not> check p TokEndOfFile"
    using that assms by (simp add: advanceToken_def previousToken_def peekToken_def parserOk_def Let_def)
qed

lemma match_ok:
  assumes "matchToken p k = Some q" "parserOk p"
  shows "parserOk q" "stream q = stream p" "k \<noteq> TokEndOfFile \<Longrightarrow> tokKind (previousToken q) = k"
proof -
  from assms(1) have q: "q = advanceToken p" "check p k" by (simp_all add: matchToken_def split: if_splits)
  with advance_ok [OF assms(2)] show "parserOk q" "stream q = stream p" by simp_all
  show "tokKind (previousToken q) = k" if "k \<noteq> TokEndOfFile"
    using q advance_ok(3) [OF assms(2)] that by (simp add: check_def)
qed

lemma yields_match [yield_rules]:
  assumes "parserOk p" "\<And>q. matchToken p k = Some q \<Longrightarrow> parserOk q \<Longrightarrow> stream q = stream p \<Longrightarrow> (k \<noteq> TokEndOfFile \<Longrightarrow> tokKind (previousToken q) = k) \<Longrightarrow> yields q P (f q)"
    and "matchToken p k = None \<Longrightarrow> yields p P g"
  shows "yields p P (case matchToken p k of Some q \<Rightarrow> f q | None \<Rightarrow> g)"
proof (cases "matchToken p k")
  case (Some q)
  with match_ok [OF Some assms(1)] assms(2) [of q] show ?thesis by (auto intro: yields_stream)
qed (use assms(3) in simp)

lemma yields_if [yield_rules]: "(c \<Longrightarrow> yields p P a) \<Longrightarrow> (\<not> c \<Longrightarrow> yields p P b) \<Longrightarrow> yields p P (if c then a else b)"
  by simp

lemma yields_consume [yield_rules]: "parserOk p \<Longrightarrow> yields p (\<lambda>t. True) (consume p k m)"
  using advance_ok [of p] by (auto simp: consume_def intro: yields_Inr yields_fail peek_in)

lemmas consume_then [yield_rules] = yields_bind [OF yields_consume]

lemma yields_unit_bind [yield_rules]:
  fixes m :: "unit res"
  assumes "\<And>e. m = Inl e \<Longrightarrow> errorIn (tokenList (stream p)) e" "\<And>u. m = Inr u \<Longrightarrow> yields p P (k u)"
  shows "yields p P (res_bind m k)"
  using assms by (cases m) (auto simp: yields_def)

lemma integer_previous: "parserOk q \<Longrightarrow> tokKind (previousToken q) = TokInteger \<Longrightarrow> list_all isDigit (tokValue (previousToken q))"
  using previous_in [of q] by (auto simp: parserOk_def)

section \<open>The parsing functions\<close>

lemma parseLiteral_yields [yield_rules]: "parserOk p \<Longrightarrow> yields p magnitudeOk (parseLiteral p)"
  unfolding parseLiteral_def Let_def
  by (intro yield_rules) (auto intro!: yields_Inr yields_fail peek_in simp: magnitudeOk_def integer_previous)

lemmas parseLiteral_then [yield_rules] = yields_bind [OF parseLiteral_yields]

lemma nesting_error: "parserOk p \<Longrightarrow> stream q = stream p \<Longrightarrow> requireNestingAvailable (previousToken p) d = Inl e \<Longrightarrow> errorIn (tokenList (stream q)) e"
  using previous_in [of p] by (auto simp: requireNestingAvailable_def failAt_def errorIn_def split: if_splits)

lemma withSpan_literals [simp]: "literalsOk (withSpan s e) = literalsOk e"
  by (cases e) simp_all

lemma makeBinary_literals [simp]: "literalsOk (makeBinary op l r) \<longleftrightarrow> literalsOk l \<and> literalsOk r"
  by (simp add: makeBinary_def)

lemma comparison_found: "isComparison k \<Longrightarrow> \<exists>op. comparisonOperator k = Inr op"
  by (auto simp: isComparison_def comparisonOperator_def)

lemma expression_yields:
  shows "parserOk p \<Longrightarrow> yields p literalsOk (parseOr d p)"
    and "parserOk p \<Longrightarrow> literalsOk e \<Longrightarrow> yields p literalsOk (orLoop d e p)"
    and "parserOk p \<Longrightarrow> yields p literalsOk (parseAnd d p)"
    and "parserOk p \<Longrightarrow> literalsOk e \<Longrightarrow> yields p literalsOk (andLoop d e p)"
    and "parserOk p \<Longrightarrow> yields p literalsOk (parseNot d p)"
    and "parserOk p \<Longrightarrow> yields p literalsOk (parseComparison d p)"
    and "parserOk p \<Longrightarrow> yields p literalsOk (parsePrimary d p)"
proof (induction d p and d e p and d p and d e p and d p and d p and d p
    rule: parseOr_orLoop_parseAnd_andLoop_parseNot_parseComparison_parsePrimary.induct)
  case (1 depth p)
  then show ?case by (subst parseOr.simps) (auto intro!: yields_bind)
next
  case (2 depth e p)
  show ?case by (subst orLoop.simps) (intro yields_match, use 2 in \<open>auto intro!: yields_bind yields_Inr\<close>)
next
  case (3 depth p)
  then show ?case by (subst parseAnd.simps) (auto intro!: yields_bind)
next
  case (4 depth e p)
  show ?case by (subst andLoop.simps) (intro yields_match, use 4 in \<open>auto intro!: yields_bind yields_Inr\<close>)
next
  case (5 depth p)
  show ?case by (subst parseNot.simps)
    (intro yields_match, use 5 in \<open>auto intro!: yields_unit_bind yields_bind yields_Inr simp: Let_def nesting_error\<close>)
next
  case (6 depth p)
  show ?case unfolding parseComparison.simps
  proof (rule yields_bind [OF "6.IH"(1) [OF "6.prems"]])
    fix l p1
    assume l: "parsePrimary depth p = Inr (l, p1)" "literalsOk l" "parserOk p1" "stream p1 = stream p"
    show "yields p1 literalsOk ((\<lambda>(l, p1). if \<not> isComparison (tokKind (peekToken p1)) then Inr (l, p1)
       else let p2 = advanceToken p1 in res_bind (comparisonOperator (tokKind (previousToken p2))) (\<lambda>op.
         res_bind (parsePrimary depth p2) (\<lambda>(r, q). if isComparison (tokKind (peekToken q))
           then failAt (peekToken q) ''chained comparisons are not supported; use AND explicitly''
           else Inr (makeBinary op l r, q)))) (l, p1))"
    proof (cases "isComparison (tokKind (peekToken p1))")
      case True
      let ?p = "advanceToken p1"
      from True have "\<not> check p1 TokEndOfFile" by (auto simp: check_def isComparison_def)
      with advance_ok [OF l(3)] True have p: "parserOk ?p" "stream ?p = stream p1" "isComparison (tokKind (previousToken ?p))" by simp_all
      from comparison_found [OF p(3)] obtain op where op: "comparisonOperator (tokKind (previousToken ?p)) = Inr op" by blast
      have "yields ?p literalsOk (parsePrimary depth ?p)" using "6.IH"(2) [OF l(1) refl, of ?p op] True op p(1) by simp
      then have "yields ?p literalsOk (res_bind (parsePrimary depth ?p) (\<lambda>(r, q). if isComparison (tokKind (peekToken q))
           then failAt (peekToken q) ''chained comparisons are not supported; use AND explicitly''
           else Inr (makeBinary op l r, q)))"
        by (rule yields_bind) (auto intro!: yields_fail yields_Inr peek_in simp: l(2))
      with p(2) True op show ?thesis by (auto simp: Let_def intro: yields_stream)
    qed (use l in \<open>auto intro: yields_Inr\<close>)
  qed
next
  case (7 depth p)
  show ?case by (subst parsePrimary.simps)
    (intro yields_match yields_if, use 7 in \<open>auto intro!: yields_unit_bind yields_bind [OF parseLiteral_yields]
       yields_bind [OF yields_consume] yields_bind [where P = literalsOk] parseLiteral_yields yields_Inr yields_fail peek_in simp: Let_def nesting_error\<close>)
qed

lemma parseExpression_yields [yield_rules]: "parserOk p \<Longrightarrow> yields p literalsOk (parseExpression p)"
  using expression_yields(1) by (simp add: parseExpression_def)

lemmas parseExpression_then [yield_rules] = yields_bind [OF parseExpression_yields]

definition whereLiteralsOk :: "expression option \<Rightarrow> bool" where
  "whereLiteralsOk w \<longleftrightarrow> (case w of None \<Rightarrow> True | Some e \<Rightarrow> literalsOk e)"

lemmas yield_ends = yields_Inr yields_fail peek_in previous_in

lemma parseWhere_yields [yield_rules]: "parserOk p \<Longrightarrow> yields p whereLiteralsOk (parseWhere p)"
  unfolding parseWhere_def
  by (intro yield_rules) (auto intro!: yield_ends simp: whereLiteralsOk_def)

lemmas parseWhere_then [yield_rules] = yields_bind [OF parseWhere_yields]

lemma parseTypeSpecification_yields [yield_rules]: "parserOk p \<Longrightarrow> yields p (\<lambda>_. True) (parseTypeSpecification p)"
  unfolding parseTypeSpecification_def Let_def
  by (intro yield_rules) (auto intro!: yield_rules yield_ends)

lemmas parseTypeSpecification_then [yield_rules] = yields_bind [OF parseTypeSpecification_yields]

lemma previous_in_same: "parserOk q \<Longrightarrow> stream q = stream p \<Longrightarrow> previousToken q \<in> set (tokenList (stream p))"
  using previous_in by force

lemma constraintLoop_yields [yield_rules]: "parserOk p \<Longrightarrow> yields p (\<lambda>_. True) (constraintLoop n pk e p)"
proof (induction n pk e p rule: constraintLoop.induct)
  case (1 n pk e p)
  show ?case
    by (subst constraintLoop.simps, intro yield_rules)
      (use 1 in \<open>auto simp: Let_def advance_ok intro!: yield_rules yield_ends previous_in_same intro: yields_stream [OF _ advance_ok(2)]\<close>)
qed

lemmas constraintLoop_then [yield_rules] = yields_bind [OF constraintLoop_yields]

lemma parseColumnSpecification_yields [yield_rules]: "parserOk p \<Longrightarrow> yields p (\<lambda>_. True) (parseColumnSpecification p)"
  unfolding parseColumnSpecification_def by (intro yield_rules) (auto intro!: yield_rules yield_ends)

lemmas parseColumnSpecification_then [yield_rules] = yields_bind [OF parseColumnSpecification_yields]

lemma columnLoop_yields [yield_rules]: "parserOk p \<Longrightarrow> yields p (\<lambda>_. True) (columnLoop cs p)"
proof (induction cs p rule: columnLoop.induct)
  case (1 cs p)
  show ?case
    by (subst columnLoop.simps, intro yield_rules) (use 1 in \<open>auto intro!: yield_ends\<close>)
qed

lemmas columnLoop_then [yield_rules] = yields_bind [OF columnLoop_yields]

lemma parseCreateTable_yields [yield_rules]: "parserOk p \<Longrightarrow> yields p (\<lambda>_. True) (parseCreateTable p)"
  unfolding parseCreateTable_def by (intro yield_rules) (auto intro!: yield_rules yield_ends)

lemmas parseCreateTable_then [yield_rules] = yields_bind [OF parseCreateTable_yields]

lemma identifierLoop_yields [yield_rules]: "parserOk p \<Longrightarrow> yields p (\<lambda>_. True) (identifierLoop c ids spans p)"
proof (induction c ids spans p rule: identifierLoop.induct)
  case (1 c ids spans p)
  show ?case
    by (subst identifierLoop.simps, intro yield_rules) (use 1 in \<open>auto intro!: yield_ends\<close>)
qed

lemma parseIdentifierList_yields [yield_rules]: "parserOk p \<Longrightarrow> yields p (\<lambda>_. True) (parseIdentifierList c p)"
  unfolding parseIdentifierList_def by (intro yield_rules) (auto intro!: yield_rules yield_ends)

lemmas parseIdentifierList_then [yield_rules] = yields_bind [OF parseIdentifierList_yields]

lemma literalLoop_yields [yield_rules]:
  "parserOk p \<Longrightarrow> list_all magnitudeOk vs \<Longrightarrow> yields p (list_all magnitudeOk) (literalLoop vs p)"
proof (induction vs p rule: literalLoop.induct)
  case (1 vs p)
  show ?case
    by (subst literalLoop.simps, intro yield_rules) (use 1 in \<open>auto intro!: yield_ends\<close>)
qed

lemma parseLiteralList_yields [yield_rules]: "parserOk p \<Longrightarrow> yields p (list_all magnitudeOk) (parseLiteralList p)"
  unfolding parseLiteralList_def by (intro yield_rules) (auto intro!: yield_rules yield_ends)

lemmas parseLiteralList_then [yield_rules] = yields_bind [OF parseLiteralList_yields]

lemma parseInsertColumns_yields [yield_rules]: "parserOk p \<Longrightarrow> yields p (\<lambda>_. True) (parseInsertColumns p)"
  unfolding parseInsertColumns_def by (intro yield_rules) (auto intro!: yield_rules yield_ends)

lemmas parseInsertColumns_then [yield_rules] = yields_bind [OF parseInsertColumns_yields]

lemma parseInsert_yields [yield_rules]: "parserOk p \<Longrightarrow> yields p (\<lambda>i. list_all magnitudeOk (insertValues i)) (parseInsert p)"
  unfolding parseInsert_def by (intro yield_rules) (auto intro!: yield_rules yield_ends)

lemmas parseInsert_then [yield_rules] = yields_bind [OF parseInsert_yields]

lemma projectionLoop_yields [yield_rules]: "parserOk p \<Longrightarrow> yields p (\<lambda>_. True) (projectionLoop cs spans p)"
proof (induction cs spans p rule: projectionLoop.induct)
  case (1 cs spans p)
  show ?case
    by (subst projectionLoop.simps, intro yield_rules) (use 1 in \<open>auto intro!: yield_ends\<close>)
qed

lemmas projectionLoop_then [yield_rules] = yields_bind [OF projectionLoop_yields]

lemma parseProjection_yields [yield_rules]: "parserOk p \<Longrightarrow> yields p (\<lambda>_. True) (parseProjection p)"
proof -
  assume p: "parserOk p"
  have "yields (advanceToken p) (\<lambda>_. True) (res_bind (projectionLoop cs spans (advanceToken p)) (\<lambda>((c, s), q). Inr ((False, c, s), q)))"
    for cs spans by (intro yield_rules) (auto intro!: yield_ends simp: advance_ok p)
  then show ?thesis unfolding parseProjection_def Let_def
    by (intro yield_rules p) (auto intro!: yield_ends intro: yields_stream [OF _ advance_ok(2)] simp: p)
qed

lemmas parseProjection_then [yield_rules] = yields_bind [OF parseProjection_yields]

lemma parseSelect_yields [yield_rules]: "parserOk p \<Longrightarrow> yields p (\<lambda>s. whereLiteralsOk (selectWhere s)) (parseSelect p)"
  unfolding parseSelect_def by (intro yield_rules) (auto intro!: yield_rules yield_ends)

lemmas parseSelect_then [yield_rules] = yields_bind [OF parseSelect_yields]

lemma parseAssignment_yields [yield_rules]: "parserOk p \<Longrightarrow> yields p (\<lambda>a. magnitudeOk (assignValue a)) (parseAssignment p)"
  unfolding parseAssignment_def by (intro yield_rules) (auto intro!: yield_rules yield_ends)

lemmas parseAssignment_then [yield_rules] = yields_bind [OF parseAssignment_yields]

abbreviation assignmentsOk :: "assignment list \<Rightarrow> bool" where
  "assignmentsOk \<equiv> list_all (\<lambda>a. magnitudeOk (assignValue a))"

lemma assignmentLoop_yields [yield_rules]: "parserOk p \<Longrightarrow> assignmentsOk as \<Longrightarrow> yields p assignmentsOk (assignmentLoop as p)"
proof (induction as p rule: assignmentLoop.induct)
  case (1 as p)
  show ?case
    by (subst assignmentLoop.simps, intro yield_rules) (use 1 in \<open>auto intro!: yields_match yield_ends\<close>)
qed

lemmas assignmentLoop_then [yield_rules] = yields_bind [OF assignmentLoop_yields]

lemma parseUpdate_yields [yield_rules]:
  "parserOk p \<Longrightarrow> yields p (\<lambda>u. assignmentsOk (updateAssignments u) \<and> whereLiteralsOk (updateWhere u)) (parseUpdate p)"
  unfolding parseUpdate_def by (intro yield_rules) (auto intro!: yield_rules yield_ends)

lemmas parseUpdate_then [yield_rules] = yields_bind [OF parseUpdate_yields]

lemma parseDelete_yields [yield_rules]: "parserOk p \<Longrightarrow> yields p (\<lambda>d. whereLiteralsOk (deleteWhere d)) (parseDelete p)"
  unfolding parseDelete_def by (intro yield_rules) (auto intro!: yield_rules yield_ends)

lemmas parseDelete_then [yield_rules] = yields_bind [OF parseDelete_yields]

lemma parseBegin_yields [yield_rules]:
  assumes "parserOk p"
  shows "yields p (\<lambda>_. True) (parseBegin p)"
proof -
  define q where "q = (case matchToken p TokTransaction of Some q \<Rightarrow> q | None \<Rightarrow> p)"
  have q: "parserOk q" "stream q = stream p" using assms match_ok by (auto simp: q_def split: option.splits)
  have "yields q (\<lambda>_. True) (parseBegin p)"
    unfolding parseBegin_def Let_def q_def [symmetric]
    by (intro yield_rules) (auto intro!: yield_rules yield_ends simp: q)
  with q(2) show ?thesis by (rule yields_stream [rotated])
qed

lemmas parseBegin_then [yield_rules] = yields_bind [OF parseBegin_yields]

fun nodeLiteralsOk :: "statement_node \<Rightarrow> bool" where
  "nodeLiteralsOk (InsertStatement i) \<longleftrightarrow> list_all magnitudeOk (insertValues i)"
| "nodeLiteralsOk (SelectStatement s) \<longleftrightarrow> whereLiteralsOk (selectWhere s)"
| "nodeLiteralsOk (UpdateStatement u) \<longleftrightarrow> assignmentsOk (updateAssignments u) \<and> whereLiteralsOk (updateWhere u)"
| "nodeLiteralsOk (DeleteStatement d) \<longleftrightarrow> whereLiteralsOk (deleteWhere d)"
| "nodeLiteralsOk _ \<longleftrightarrow> True"

lemma parseNode_yields [yield_rules]: "parserOk p \<Longrightarrow> yields p nodeLiteralsOk (parseNode p)"
  unfolding parseNode_def by (intro yield_rules) (auto intro!: yield_ends)

lemmas parseNode_then [yield_rules] = yields_bind [OF parseNode_yields]

lemma parseStatement_yields: "parserOk p \<Longrightarrow> yields p (\<lambda>s. nodeLiteralsOk (stmtNode s)) (parseStatement p)"
  unfolding parseStatement_def Let_def
proof (rule parseNode_then)
  fix n q
  assume n: "nodeLiteralsOk n" "parserOk q"
  define q' where "q' = (case matchToken q TokSemicolon of Some r \<Rightarrow> r | None \<Rightarrow> q)"
  have q': "parserOk q'" "stream q' = stream q" using n match_ok by (auto simp: q'_def split: option.splits)
  have "yields q' (\<lambda>s. nodeLiteralsOk (stmtNode s)) (res_bind (consume q' TokEndOfFile ''expected end of input after one SQL statement'')
      (\<lambda>(_, r). Inr (\<lparr>stmtSpan = spanOf (beginOf (peekToken p)) (endOf (previousToken q')), stmtNode = n\<rparr>, r)))"
    by (intro yield_rules) (auto intro!: yield_ends simp: q' n)
  with q'(2) show "yields q (\<lambda>s. nodeLiteralsOk (stmtNode s)) ((\<lambda>(node, p1). res_bind (consume (case matchToken p1 TokSemicolon of Some q \<Rightarrow> q | None \<Rightarrow> p1)
      TokEndOfFile ''expected end of input after one SQL statement'') (\<lambda>(_, q). Inr (\<lparr>stmtSpan = spanOf (beginOf (peekToken p))
        (endOf (previousToken (case matchToken p1 TokSemicolon of Some q \<Rightarrow> q | None \<Rightarrow> p1))), stmtNode = node\<rparr>, q))) (n, q))"
    unfolding case_prod_conv q'_def [symmetric] by (rule yields_stream [rotated])
qed

section \<open>The lexer\<close>

text \<open>A span of the text, both ends with their true line and column.\<close>

definition spanIn :: "string \<Rightarrow> source_span \<Rightarrow> bool" where
  "spanIn text sp \<longleftrightarrow> (\<exists>n m. n \<le> m \<and> m \<le> length text \<and> sp = \<lparr>spanBegin = locate text n, spanEnd = locate text m\<rparr>)"

definition lexErrorIn :: "string \<Rightarrow> exn \<Rightarrow> bool" where
  "lexErrorIn text e \<longleftrightarrow> (\<exists>m sp. e = SqlError Lexer m sp \<and> spanIn text sp)"

lemma lexFail_in: "lexFail (lexAt text m) msg (locate text n) = Inl e \<Longrightarrow> n \<le> m \<Longrightarrow> m \<le> length text \<Longrightarrow> lexErrorIn text e"
  by (auto simp: lexFail_def lexErrorIn_def spanIn_def)

lemma skipIgnored_error: "n \<le> length text \<Longrightarrow> skipIgnored (lexAt text n) = Inl e \<Longrightarrow> lexErrorIn text e"
proof (induction "length text - n" arbitrary: n rule: less_induct)
  case less
  have rest: "n < k \<Longrightarrow> k \<le> length text \<Longrightarrow> skipIgnored (lexAt text k) = Inl e \<Longrightarrow> lexErrorIn text e" for k
    using less.hyps [of k] less.prems(1) by simp
  show ?case
  proof (cases "lexAt text n" rule: skipIgnored_cases)
    case blank
    with less.prems rest [of "Suc n"] show ?thesis by (simp add: skipIgnored_blank)
  next
    case line
    then have n: "Suc n < length text" by (auto simp: peekChar_def split: if_splits)
    let ?k = "Suc (Suc n) + length (takeWhile (\<lambda>c. c \<noteq> CR \<and> c \<noteq> LF) (drop (Suc (Suc n)) text))"
    have "?k \<le> length text" using takeWhile_bound [of "Suc (Suc n)" "text"] n by simp
    moreover from line less.prems n have "skipIgnored (lexAt text ?k) = Inl e" by (simp add: skipIgnored_line skipLine_lexAt)
    ultimately show ?thesis using rest [of ?k] by simp
  next
    case block
    then have n: "Suc n < length text" by (auto simp: peekChar_def split: if_splits)
    let ?d = "drop (Suc (Suc n)) text" let ?b = "untilClose ?d" let ?e = "Suc (Suc n) + length ?b"
    have e: "?e \<le> length text" using untilClose_le [of ?d] n by simp
    show ?thesis
    proof (cases "?e < length text")
      case True
      then have "length ?b < length ?d" by simp
      from untilClose_found [OF this] obtain r where r: "?d = ?b @ ''*/'' @ r" by blast
      have "length ?d = length ?b + 2 + length r" by (subst r) simp
      then have k: "?e + 2 \<le> length text" by simp
      with block less.prems n True have "skipIgnored (lexAt text (?e + 2)) = Inl e" by (simp add: skipIgnored_block skipBlock_lexAt)
      with rest [of "?e + 2"] k show ?thesis by simp
    next
      case False
      with e block less.prems n have "(lexFail (lexAt text ?e) ''unterminated block comment'' (locate text n) :: lexer res) = Inl e"
        by (simp add: skipIgnored_block skipBlock_lexAt)
      with lexFail_in [OF this] e show ?thesis by simp
    qed
  qed (use less.prems in \<open>simp_all add: skipIgnored_end skipIgnored_stop\<close>)
qed

lemma scanString_error:
  "n \<le> length text \<Longrightarrow> b \<le> n \<Longrightarrow> scanString (locate text b) d (lexAt text n) = Inl e \<Longrightarrow> lexErrorIn text e"
proof (induction "length text - n" arbitrary: n d rule: less_induct)
  case less
  have rest: "n < k \<Longrightarrow> k \<le> length text \<Longrightarrow> scanString (locate text b) d' (lexAt text k) = Inl e \<Longrightarrow> lexErrorIn text e" for k d'
    using less.hyps [of k d'] less.prems(1,2) by simp
  show ?case
  proof (cases "lexAt text n" rule: scanString_cases)
    case finished
    with less.prems lexFail_in [of "text" n _ b] show ?thesis by (simp add: scanString_end)
  next
    case plain
    with less.prems rest [of "Suc n"] show ?thesis by (simp add: scanString_plain)
  next
    case double
    then have "Suc n < length text" by (simp add: peekChar_def split: if_splits)
    with double less.prems rest [of "Suc (Suc n)"] show ?thesis by (simp add: scanString_double)
  next
    case close
    with less.prems show ?thesis by (auto simp: scanString_close)
  qed
qed

lemma scanToken_error:
  assumes "n < length text" "scanToken (lexAt text n) = Inl e"
  shows "lexErrorIn text e"
proof -
  have s: "headChar (lexAt text n) = text ! n" "skipChar (lexAt text n) = lexAt text (Suc n)" "location (lexAt text n) = locate text n"
    using assms(1) by simp_all
  note bound = takeWhile_bound [of "Suc n" "text"]
  note fails = lexFail_in [of "text" _ _ n]
  consider (digit) "\<not> Sql_Lexer.isIdentifierStart (text ! n)" "isDigit (text ! n)"
    | (quote) "\<not> Sql_Lexer.isIdentifierStart (text ! n)" "\<not> isDigit (text ! n)" "text ! n = QUOTE"
    | (op) "\<not> Sql_Lexer.isIdentifierStart (text ! n)" "\<not> isDigit (text ! n)" "text ! n \<noteq> QUOTE"
    using assms unfolding scanToken_def s by (auto simp: Let_def split: if_splits)
  then show ?thesis
  proof cases
    case digit
    with assms bound [of isDigit] show ?thesis unfolding scanToken_def s
      by (auto simp: Let_def scanInteger_def digitLoop_lexAt intro: fails split: if_splits)
  next
    case quote
    then have "scanString (locate text n) [] (lexAt text (Suc n)) = Inl e"
      using assms(2) unfolding scanToken_def s by (simp add: Let_def)
    from scanString_error [OF _ _ this] assms(1) show ?thesis by simp
  next
    case op
    with assms show ?thesis unfolding scanToken_def s
      by (auto simp: Let_def matchChar_lexAt intro: fails split: if_splits)
  qed
qed

lemma scanString_kind: "scanString start d l = Inr (t, l') \<Longrightarrow> tokKind t = TokString"
  by (induction start d l rule: scanString.induct)
    (subst (asm) (2) scanString.simps, auto simp: Let_def lexFail_def makeToken_def split: if_splits)

lemma scanToken_integer:
  assumes "n < length text" "scanToken (lexAt text n) = Inr (t, l')" "tokKind t = TokInteger"
  shows "list_all isDigit (tokValue t)"
proof -
  have s: "headChar (lexAt text n) = text ! n" "skipChar (lexAt text n) = lexAt text (Suc n)" "location (lexAt text n) = locate text n"
    using assms(1) by simp_all
  have key: "keywordKind v \<noteq> TokInteger" for v
  proof -
    have "TokInteger \<notin> snd ` set KEYWORDS" by (simp add: KEYWORDS_def)
    then show ?thesis unfolding keywordKind_def using keywordScan_in [of KEYWORDS v] by force
  qed
  show ?thesis
  proof (cases "isDigit (text ! n) \<and> \<not> Sql_Lexer.isIdentifierStart (text ! n)")
    case True
    let ?ds = "takeWhile isDigit (drop (Suc n) text)"
    from True assms(1,2) have "tokValue t = subspan text n (Suc (length ?ds))"
      unfolding scanToken_def s
      by (auto simp: Let_def scanInteger_def lexFail_def digitLoop_lexAt makeToken_lexAt split: if_splits)
    also have "\<dots> = text ! n # ?ds" using subspan_Suc [OF assms(1), of "length ?ds"] by (simp add: subspan_def takeWhile_eq_take [symmetric])
    finally show ?thesis using True by (auto simp: list_all_iff dest: set_takeWhileD)
  next
    case False
    with assms key show ?thesis unfolding scanToken_def s
      by (auto simp: Let_def scanIdentifier_def makeToken_def lexFail_def dest!: scanString_kind split: if_splits prod.splits)
  qed
qed

definition tokenOk :: "string \<Rightarrow> token \<Rightarrow> bool" where
  "tokenOk text t \<longleftrightarrow> spanIn text (tokSpan t) \<and> (tokKind t = TokInteger \<longrightarrow> list_all isDigit (tokValue t))"

lemma spansFrom_in: "spansFrom text n t m \<Longrightarrow> spanIn text (tokSpan t)"
  unfolding spanIn_def by (rule exI [of _ n], rule exI [of _ m]) (simp add: spansFrom_def)

text \<open>What the lexer returns: an error in the text, or tokens of the text with the end of the text as the last.\<close>

definition lexResult :: "string \<Rightarrow> token list res \<Rightarrow> bool" where
  "lexResult text r \<longleftrightarrow> (case r of
       Inl e \<Rightarrow> lexErrorIn text e
     | Inr ts \<Rightarrow> ts \<noteq> [] \<and> tokKind (last ts) = TokEndOfFile \<and> list_all (tokenOk text) ts)"

lemma tokenizeLoop_result:
  "n \<le> length text \<Longrightarrow> list_all (tokenOk text) acc \<Longrightarrow> lexResult text (tokenizeLoop (lexAt text n) acc)"
proof (induction "length text - n" arbitrary: n acc rule: less_induct)
  case less
  show ?case
  proof (cases "skipIgnored (lexAt text n)")
    case (Inl e)
    with skipIgnored_error [OF less.prems(1) Inl] show ?thesis by (subst tokenizeLoop.simps) (simp add: lexResult_def)
  next
    case (Inr l1)
    from skipIgnored_lexAt [OF less.prems(1) Inr] obtain m where m: "l1 = lexAt text m" "n \<le> m" "m \<le> length text" by blast
    show ?thesis
    proof (cases "m < length text")
      case False
      then have "tokenOk text \<lparr>tokKind = TokEndOfFile, tokLexeme = [], tokValue = [],
          tokSpan = \<lparr>spanBegin = locate text m, spanEnd = locate text m\<rparr>\<rparr>" using m(3) by (auto simp: tokenOk_def spanIn_def)
      with False Inr m(1) less.prems(2) show ?thesis by (subst tokenizeLoop.simps) (simp add: lexResult_def)
    next
      case True
      show ?thesis
      proof (cases "scanToken (lexAt text m)")
        case (Inl e)
        with scanToken_error [OF True Inl] Inr m(1) True show ?thesis by (subst tokenizeLoop.simps) (simp add: lexResult_def)
      next
        case scanned: (Inr tl)
        obtain t l2 where "tl = (t, l2)" by (cases tl)
        with scanned have t: "scanToken (lexAt text m) = Inr (t, l2)" by simp
        from scanToken_lexAt [OF True t] obtain e where e: "l2 = lexAt text e" "spansFrom text m t e" by blast
        then have el: "e \<le> length text" "length text - e < length text - n" using m(2) True by (auto simp: spansFrom_def)
        have "tokenOk text t" using spansFrom_in [OF e(2)] scanToken_integer [OF True t] by (simp add: tokenOk_def)
        then have "lexResult text (tokenizeLoop (lexAt text e) (acc @ [t]))" using less.hyps [OF el(2,1)] less.prems(2) by simp
        with Inr m(1) True t e(1) show ?thesis by (subst tokenizeLoop.simps) simp
      qed
    qed
  qed
qed

section \<open>Statements from text\<close>

definition parseResult :: "string \<Rightarrow> statement res \<Rightarrow> bool" where
  "parseResult text r \<longleftrightarrow> (case r of
       Inl e \<Rightarrow> \<exists>k m sp. e = SqlError k m sp \<and> spanIn text sp
     | Inr st \<Rightarrow> nodeLiteralsOk (stmtNode st))"

lemma parseSql_result: "parseResult text (parseSql text)"
proof (cases "tokenize text")
  case (Inl e)
  with tokenizeLoop_result [of 0 "text" "[]"] show ?thesis by (auto simp: tokenize_def lexResult_def lexErrorIn_def parseSql_def parseResult_def)
next
  case (Inr ts)
  with tokenizeLoop_result [of 0 "text" "[]"] have ts: "ts \<noteq> []" "tokKind (last ts) = TokEndOfFile" "list_all (tokenOk text) ts"
    by (simp_all add: tokenize_def lexResult_def)
  let ?p = "\<lparr>stream = TokenStream ts, current = 0\<rparr>"
  have p: "newParser ts = Inr ?p" "tokenList (TokenStream ts) = ts" using ts by (simp_all add: newParser_def TokenStream_inverse)
  with ts have "parserOk ?p" by (auto simp: parserOk_def tokenOk_def list_all_iff)
  from parseStatement_yields [OF this] ts(3) p Inr show ?thesis
    by (auto simp: parseSql_def parseResult_def yields_def errorIn_def tokenOk_def list_all_iff split: sum.splits)
qed

text \<open>
  C35: errors of the SQL front end point into the text. Whatever the input, a failure of \<open>parseSql\<close> is an \<open>SqlError\<close> of the lexer
  or the parser; its span starts and ends inside the text, in this order, and both ends carry the line and
  the column that belong to their offsets. No other exception escapes.
\<close>
theorem sql_errors_located:
  assumes "parseSql text = Inl e"
  shows "\<exists>kind message b f. b \<le> f \<and> f \<le> length text \<and> e = SqlError kind message \<lparr>spanBegin = locate text b, spanEnd = locate text f\<rparr>"
  using parseSql_result [of "text"] assms by (auto simp: parseResult_def spanIn_def)

text \<open>
  C5: a query's condition means what its text says. For every text that parses to a \<open>SELECT\<close> with a condition, if the condition
  binds to the schema as a boolean, then on every row of the schema evaluation returns, without an exception,
  the three-valued meaning of the parsed condition.
\<close>
theorem parsed_condition_correct:
  assumes "parseSql text = Inr st" "stmtNode st = SelectStatement q" "selectWhere q = Some e"
    and "bindExpression e s = Inr b" "requireBoolean b = Inr ()" "validateValues s row = Inr ()"
  shows "\<exists>t. evaluateTruth b row = Inr t \<and> truthSval t = semExpr s row e"
proof -
  have "literalsOk e" using parseSql_result [of "text"] assms(1-3) by (simp add: parseResult_def whereLiteralsOk_def)
  with bind_sound [OF assms(4), of row] assms(5,6) show ?thesis by (auto simp: truthSound_def validateValues_ok)
qed

theorem sql_errors_located_witness:
  "\<exists>e. parseSql ''SELECT'' = Inl e \<and>
     (\<exists>kind message b f. b \<le> f \<and> f \<le> length ''SELECT'' \<and>
        e = SqlError kind message \<lparr>spanBegin = locate ''SELECT'' b, spanEnd = locate ''SELECT'' f\<rparr>)"
proof -
  have "isl (parseSql ''SELECT'')" by code_simp
  then obtain e where "parseSql ''SELECT'' = Inl e" by (auto simp: isl_def)
  with sql_errors_located [OF this] show ?thesis by blast
qed

definition accountQuery :: string where
  "accountQuery = ''SELECT * FROM t WHERE ID=007 AND NOT balance<-3''"

lemma account_query_accepted:
  "case parseSql accountQuery of
     Inr st \<Rightarrow>
       (case stmtNode st of
          SelectStatement q \<Rightarrow>
            (case selectWhere q of
               Some e \<Rightarrow> (case bindExpression e accountSchema of Inr b \<Rightarrow> requireBoolean b = Inr () | Inl _ \<Rightarrow> False)
             | None \<Rightarrow> False)
        | _ \<Rightarrow> False)
   | Inl _ \<Rightarrow> False"
  by code_simp

theorem parsed_condition_correct_witness:
  "\<exists>st q e b. parseSql accountQuery = Inr st \<and> stmtNode st = SelectStatement q \<and> selectWhere q = Some e \<and>
     bindExpression e accountSchema = Inr b \<and> requireBoolean b = Inr () \<and> validateValues accountSchema accountRow = Inr () \<and>
     (\<exists>t. evaluateTruth b accountRow = Inr t \<and> truthSval t = semExpr accountSchema accountRow e)"
proof -
  from account_query_accepted obtain st q e where f: "parseSql accountQuery = Inr st" "stmtNode st = SelectStatement q"
    "selectWhere q = Some e" and "case bindExpression e accountSchema of Inr b \<Rightarrow> requireBoolean b = Inr () | Inl _ \<Rightarrow> False"
    by (cases "parseSql accountQuery") (auto split: statement_node.split_asm option.split_asm)
  then obtain b where "bindExpression e accountSchema = Inr b" "requireBoolean b = Inr ()"
    by (cases "bindExpression e accountSchema") auto
  note f = f this
  from parsed_condition_correct [OF f account_facts(3)] f account_facts(3) show ?thesis by blast
qed

end
