(* ===== verification/Wire_Protocol.thy ===== *)
theory Wire_Protocol
  imports Schema Page_Formats
begin

text \<open>
  The network protocol codec (\<open>include/minidb/wire_protocol.hpp\<close>, \<open>src/wire_protocol.cpp\<close>) and
  the result types it transports (\<open>include/minidb/sql_executor.hpp\<close>).

  \<open>writer\<close> and \<open>reader\<close> are the two private classes of the source: a bounded output buffer and
  an input span with a cursor; every member is a function that throws \<open>ProtocolError\<close> where the
  source does. Integers are big-endian here. An enumeration that has numeric identifiers on the
  wire is a datatype with its identifier function; \<open>int64\<close> values are their 64-bit patterns.

  Each codec has a reference format: \<open>code_x v\<close>, the bytes of \<open>v\<close>, and \<open>ok_x v\<close>, what the codec
  demands of \<open>v\<close>. A writer then appends exactly \<open>code_x v\<close> (\<open>puts\<close>), and a reader accepts
  exactly that (\<open>takes\<close>), both as equivalences; the properties follow from composing them.
\<close>

unbundle bit_operations_syntax

section \<open>Results and messages\<close>

datatype access_path = AccessNone | HeapScan | PrimaryKeyLookup

record execution_stats =
  statAccessPath :: access_path
  rowsExamined :: u64
  rowsReturned :: u64
  indexLookups :: u64

datatype command_kind =
  CmdCreateTable | CmdInsert | CmdUpdate | CmdDelete | CmdBegin | CmdCommit | CmdRollback

record command_result =
  resCommand :: command_kind
  affectedRows :: u64
  insertedRecordId :: "record_id option"
  cmdStats :: execution_stats

record select_result =
  resColumns :: "string list"
  resRows :: "row_values list"
  resRecordIds :: "record_id list"
  selStats :: execution_stats

datatype query_result = CommandRes command_result | SelectRes select_result

abbreviation PROTOCOL_MAGIC :: "byte list" where "PROTOCOL_MAGIC \<equiv> magic_bytes ''MDBP''"
abbreviation PROTOCOL_VERSION :: u16 where "PROTOCOL_VERSION \<equiv> 1"
abbreviation FRAME_HEADER_SIZE :: nat where "FRAME_HEADER_SIZE \<equiv> 24"
abbreviation MAX_FRAME_PAYLOAD :: nat where "MAX_FRAME_PAYLOAD \<equiv> 262144"
abbreviation MAX_SQL_BYTES :: nat where "MAX_SQL_BYTES \<equiv> 65536"
abbreviation MAX_WIRE_STRING_BYTES :: nat where "MAX_WIRE_STRING_BYTES \<equiv> 65536"
abbreviation MAX_WIRE_COLUMNS :: nat where "MAX_WIRE_COLUMNS \<equiv> 1024"
abbreviation MAX_WIRE_ROWS :: nat where "MAX_WIRE_ROWS \<equiv> 65536"

datatype message_type =
  Hello | ExecuteSql | HelloAck | CommandResultMsg | SelectResultMsg | ErrorResponseMsg

fun messageTypeId :: "message_type \<Rightarrow> u16" where
  "messageTypeId Hello = 1"
| "messageTypeId ExecuteSql = 2"
| "messageTypeId HelloAck = 101"
| "messageTypeId CommandResultMsg = 102"
| "messageTypeId SelectResultMsg = 103"
| "messageTypeId ErrorResponseMsg = 104"

record frame_header =
  messageType :: message_type
  requestId :: u64
  payloadLength :: u32

record wire_frame =
  frameHeader :: frame_header
  payload :: "byte list"

datatype error_category =
  CatProtocol | CatLexer | CatParser | CatSemantic | CatConstraint | CatExecution | CatInternal

fun errorCategoryId :: "error_category \<Rightarrow> u16" where
  "errorCategoryId CatProtocol = 1"
| "errorCategoryId CatLexer = 2"
| "errorCategoryId CatParser = 3"
| "errorCategoryId CatSemantic = 4"
| "errorCategoryId CatConstraint = 5"
| "errorCategoryId CatExecution = 6"
| "errorCategoryId CatInternal = 7"

record error_response =
  errCategory :: error_category
  errMessage :: string
  errSpan :: "source_span option"

abbreviation wireFail :: "string \<Rightarrow> exn" where "wireFail m \<equiv> ProtocolError m None"

abbreviation FLAG_PRESENT :: "'a::len word" where "FLAG_PRESENT \<equiv> 1"

definition knownMessageType :: "u16 \<Rightarrow> bool" where
  "knownMessageType v \<longleftrightarrow>
     v = messageTypeId Hello \<or> v = messageTypeId ExecuteSql \<or> v = messageTypeId HelloAck
     \<or> v = messageTypeId CommandResultMsg \<or> v = messageTypeId SelectResultMsg
     \<or> v = messageTypeId ErrorResponseMsg"

text \<open>\<open>static_cast<MessageType>(rawType)\<close> of a known identifier.\<close>

definition messageTypeOf :: "u16 \<Rightarrow> message_type" where
  "messageTypeOf v =
     (if v = 1 then Hello else if v = 2 then ExecuteSql else if v = 101 then HelloAck
      else if v = 102 then CommandResultMsg else if v = 103 then SelectResultMsg
      else ErrorResponseMsg)"

section \<open>The writer\<close>

record writer =
  wBytes :: "byte list"
  wMaximum :: nat

definition newWriter :: "nat \<Rightarrow> writer" where
  "newWriter maximum = \<lparr>wBytes = [], wMaximum = maximum\<rparr>"

definition wRequire :: "nat \<Rightarrow> writer \<Rightarrow> unit res" where
  "wRequire count w =
     throw_if (count > wMaximum w - length (wBytes w))
       (wireFail ''encoded payload exceeds protocol maximum'')"

definition pushByte :: "byte \<Rightarrow> writer \<Rightarrow> writer" where
  "pushByte b w = w\<lparr>wBytes := wBytes w @ [b]\<rparr>"

definition wByte :: "byte \<Rightarrow> writer \<Rightarrow> writer res" where
  "wByte value w = res_bind (wRequire 1 w) (\<lambda>_. Inr (pushByte value w))"

definition wUint16 :: "u16 \<Rightarrow> writer \<Rightarrow> writer res" where
  "wUint16 value w = res_bind (wRequire 2 w) (\<lambda>_.
     Inr (pushByte (ucast (value AND 0xFF)) (pushByte (ucast (drop_bit 8 value AND 0xFF)) w)))"

definition wUint32 :: "u32 \<Rightarrow> writer \<Rightarrow> writer res" where
  "wUint32 value w = res_bind (wRequire 4 w) (\<lambda>_.
     Inr (fold (\<lambda>shift. pushByte (ucast (drop_bit shift value AND 0xFF))) [24, 16, 8, 0] w))"

definition wUint64 :: "u64 \<Rightarrow> writer \<Rightarrow> writer res" where
  "wUint64 value w = res_bind (wRequire 8 w) (\<lambda>_.
     Inr (fold (\<lambda>shift. pushByte (ucast (drop_bit shift value AND 0xFF)))
       [56, 48, 40, 32, 24, 16, 8, 0] w))"

definition wRaw :: "byte list \<Rightarrow> writer \<Rightarrow> writer res" where
  "wRaw bytes w = res_bind (wRequire (length bytes) w) (\<lambda>_. Inr (w\<lparr>wBytes := wBytes w @ bytes\<rparr>))"

definition wString :: "string \<Rightarrow> writer \<Rightarrow> writer res" where
  "wString value w =
     res_bind (throw_if (length value > MAX_WIRE_STRING_BYTES \<or> length value > 2 ^ 32 - 1)
       (wireFail ''wire string exceeds protocol limit'')) (\<lambda>_.
     res_bind (wUint32 (of_nat (length value)) w) (\<lambda>w.
     wRaw (map char_byte value) w))"

section \<open>The reader\<close>

record reader =
  rBytes :: "byte list"
  rCursor :: nat

definition newReader :: "byte list \<Rightarrow> reader" where
  "newReader bytes = \<lparr>rBytes = bytes, rCursor = 0\<rparr>"

definition rRequire :: "nat \<Rightarrow> reader \<Rightarrow> unit res" where
  "rRequire count r =
     throw_if (count > length (rBytes r) - rCursor r) (wireFail ''wire payload is truncated'')"

definition rByte :: "reader \<Rightarrow> (byte \<times> reader) res" where
  "rByte r = res_bind (rRequire 1 r) (\<lambda>_.
     Inr (rBytes r ! rCursor r, r\<lparr>rCursor := rCursor r + 1\<rparr>))"

definition rUint16 :: "reader \<Rightarrow> (u16 \<times> reader) res" where
  "rUint16 r = res_bind (rRequire 2 r) (\<lambda>_.
     res_bind (rByte r) (\<lambda>(high, r).
     res_bind (rByte r) (\<lambda>(low, r).
     Inr (push_bit 8 (ucast high) OR ucast low, r))))"

primrec rLoop :: "nat \<Rightarrow> 'a::len word \<Rightarrow> reader \<Rightarrow> ('a word \<times> reader) res" where
  "rLoop 0 v r = Inr (v, r)"
| "rLoop (Suc n) v r = res_bind (rByte r) (\<lambda>(b, r). rLoop n (push_bit 8 v OR ucast b) r)"

definition rUint32 :: "reader \<Rightarrow> (u32 \<times> reader) res" where
  "rUint32 r = res_bind (rRequire 4 r) (\<lambda>_. rLoop 4 0 r)"

definition rUint64 :: "reader \<Rightarrow> (u64 \<times> reader) res" where
  "rUint64 r = res_bind (rRequire 8 r) (\<lambda>_. rLoop 8 0 r)"

primrec rChars :: "nat \<Rightarrow> reader \<Rightarrow> (string \<times> reader) res" where
  "rChars 0 r = Inr ([], r)"
| "rChars (Suc n) r = res_bind (rByte r) (\<lambda>(b, r).
     res_bind (rChars n r) (\<lambda>(s, r). Inr (byte_char b # s, r)))"

definition rString :: "reader \<Rightarrow> (string \<times> reader) res" where
  "rString r = res_bind (rUint32 r) (\<lambda>(size, r).
     res_bind (throw_if (unat size > MAX_WIRE_STRING_BYTES)
       (wireFail ''wire string exceeds protocol limit'')) (\<lambda>_.
     res_bind (rRequire (unat size) r) (\<lambda>_. rChars (unat size) r)))"

definition rRemaining :: "reader \<Rightarrow> nat" where
  "rRemaining r = length (rBytes r) - rCursor r"

definition rFinish :: "reader \<Rightarrow> unit res" where
  "rFinish r = throw_if (rCursor r \<noteq> length (rBytes r))
     (wireFail ''wire payload contains trailing bytes'')"

section \<open>Component codecs\<close>

fun encodeCommandKind :: "command_kind \<Rightarrow> u16" where
  "encodeCommandKind CmdCreateTable = 1"
| "encodeCommandKind CmdInsert = 2"
| "encodeCommandKind CmdUpdate = 3"
| "encodeCommandKind CmdDelete = 4"
| "encodeCommandKind CmdBegin = 5"
| "encodeCommandKind CmdCommit = 6"
| "encodeCommandKind CmdRollback = 7"

definition decodeCommandKind :: "u16 \<Rightarrow> command_kind res" where
  "decodeCommandKind v =
     (if v = 1 then Inr CmdCreateTable else if v = 2 then Inr CmdInsert
      else if v = 3 then Inr CmdUpdate else if v = 4 then Inr CmdDelete
      else if v = 5 then Inr CmdBegin else if v = 6 then Inr CmdCommit
      else if v = 7 then Inr CmdRollback
      else Inl (wireFail ''invalid command kind ID''))"

fun encodeAccessPath :: "access_path \<Rightarrow> u16" where
  "encodeAccessPath AccessNone = 0"
| "encodeAccessPath HeapScan = 1"
| "encodeAccessPath PrimaryKeyLookup = 2"

definition decodeAccessPath :: "u16 \<Rightarrow> access_path res" where
  "decodeAccessPath v =
     (if v = 0 then Inr AccessNone else if v = 1 then Inr HeapScan
      else if v = 2 then Inr PrimaryKeyLookup
      else Inl (wireFail ''invalid AccessPath ID''))"

definition encodeStats :: "execution_stats \<Rightarrow> writer \<Rightarrow> writer res" where
  "encodeStats stats w =
     res_bind (wUint16 (encodeAccessPath (statAccessPath stats)) w) (\<lambda>w.
     res_bind (wUint16 0 w) (\<lambda>w.
     res_bind (wUint64 (rowsExamined stats) w) (\<lambda>w.
     res_bind (wUint64 (rowsReturned stats) w) (\<lambda>w.
     wUint64 (indexLookups stats) w))))"

definition decodeStats :: "reader \<Rightarrow> (execution_stats \<times> reader) res" where
  "decodeStats r =
     res_bind (rUint16 r) (\<lambda>(rawPath, r).
     res_bind (decodeAccessPath rawPath) (\<lambda>path.
     res_bind (rUint16 r) (\<lambda>(reserved, r).
     res_bind (throw_if (reserved \<noteq> 0)
       (wireFail ''ExecutionStats reserved field is nonzero'')) (\<lambda>_.
     res_bind (rUint64 r) (\<lambda>(examined, r).
     res_bind (rUint64 r) (\<lambda>(returned, r).
     res_bind (rUint64 r) (\<lambda>(lookups, r).
     Inr (\<lparr>statAccessPath = path, rowsExamined = examined, rowsReturned = returned,
           indexLookups = lookups\<rparr>, r))))))))"

definition encodeRecordId :: "record_id \<Rightarrow> writer \<Rightarrow> writer res" where
  "encodeRecordId rid w =
     res_bind (throw_if (\<not> recordIdIsValid rid) (wireFail ''cannot encode invalid RecordId'')) (\<lambda>_.
     res_bind (wUint32 (pageId rid) w) (\<lambda>w.
     res_bind (wUint16 (slotId rid) w) (\<lambda>w.
     wUint16 0 w)))"

definition decodeRecordId :: "reader \<Rightarrow> (record_id \<times> reader) res" where
  "decodeRecordId r =
     res_bind (rUint32 r) (\<lambda>(page, r).
     res_bind (rUint16 r) (\<lambda>(slot, r).
     let rid = \<lparr>pageId = page, slotId = slot\<rparr> in
     res_bind (rUint16 r) (\<lambda>(reserved, r).
     res_bind (throw_if (reserved \<noteq> 0 \<or> \<not> recordIdIsValid rid)
       (wireFail ''wire RecordId is invalid or reserved field is nonzero'')) (\<lambda>_.
     Inr (rid, r)))))"

fun encodeValue :: "db_value \<Rightarrow> writer \<Rightarrow> writer res" where
  "encodeValue VNull w = wByte 0 w"
| "encodeValue (VUint item) w = res_bind (wByte 1 w) (wUint32 item)"
| "encodeValue (VInt item) w = res_bind (wByte 2 w) (wUint64 item)"
| "encodeValue (VBool item) w = res_bind (wByte 3 w) (wByte (if item then 1 else 0))"
| "encodeValue (VString item) w = res_bind (wByte 4 w) (wString item)"

definition decodeValue :: "reader \<Rightarrow> (db_value \<times> reader) res" where
  "decodeValue r = res_bind (rByte r) (\<lambda>(tag, r).
     if tag = 0 then Inr (VNull, r)
     else if tag = 1 then res_bind (rUint32 r) (\<lambda>(v, r). Inr (VUint v, r))
     else if tag = 2 then res_bind (rUint64 r) (\<lambda>(v, r). Inr (VInt v, r))
     else if tag = 3 then res_bind (rByte r) (\<lambda>(v, r).
       res_bind (throw_if (v > 1) (wireFail ''wire BOOLEAN is neither zero nor one'')) (\<lambda>_.
       Inr (VBool (v = 1), r)))
     else if tag = 4 then res_bind (rString r) (\<lambda>(s, r). Inr (VString s, r))
     else Inl (wireFail ''invalid wire Value tag''))"

definition knownErrorCategory :: "u16 \<Rightarrow> bool" where
  "knownErrorCategory v \<longleftrightarrow> v \<ge> errorCategoryId CatProtocol \<and> v \<le> errorCategoryId CatInternal"

definition errorCategoryOf :: "u16 \<Rightarrow> error_category" where
  "errorCategoryOf v =
     (if v = 1 then CatProtocol else if v = 2 then CatLexer else if v = 3 then CatParser
      else if v = 4 then CatSemantic else if v = 5 then CatConstraint
      else if v = 6 then CatExecution else CatInternal)"

definition checkedLocation :: "nat \<Rightarrow> u32 res" where
  "checkedLocation v =
     (if v > 2 ^ 32 - 1 then Inl (wireFail ''source line or column exceeds wire range'')
      else Inr (of_nat v))"

text \<open>
  The range checks of \<open>checkedOffset\<close> and \<open>decodeOffset\<close> are compiled only where \<open>size_t\<close> and
  \<open>uint64_t\<close> differ in size; on the 64-bit platforms of the build they are conversions.
\<close>

definition checkedOffset :: "nat \<Rightarrow> u64" where
  "checkedOffset v = of_nat v"

definition decodeOffset :: "u64 \<Rightarrow> nat" where
  "decodeOffset v = unat v"

section \<open>Frames\<close>

definition encodeFrameHeader :: "frame_header \<Rightarrow> byte list res" where
  "encodeFrameHeader header =
     res_bind (throw_if (\<not> knownMessageType (messageTypeId (messageType header)))
       (ProtocolError ''unknown protocol message type'' (Some (requestId header)))) (\<lambda>_.
     res_bind (throw_if (unat (payloadLength header) > MAX_FRAME_PAYLOAD)
       (ProtocolError ''frame payload length exceeds protocol maximum''
          (Some (requestId header)))) (\<lambda>_.
     res_bind (wRaw PROTOCOL_MAGIC (newWriter FRAME_HEADER_SIZE)) (\<lambda>w.
     res_bind (wUint16 PROTOCOL_VERSION w) (\<lambda>w.
     res_bind (wUint16 (messageTypeId (messageType header)) w) (\<lambda>w.
     res_bind (wUint64 (requestId header) w) (\<lambda>w.
     res_bind (wUint32 (payloadLength header) w) (\<lambda>w.
     res_bind (wUint32 0 w) (\<lambda>w.
     Inr (wBytes w)))))))))"

primrec readMagic :: "nat \<Rightarrow> reader \<Rightarrow> (byte list \<times> reader) res" where
  "readMagic 0 r = Inr ([], r)"
| "readMagic (Suc n) r = res_bind (rByte r) (\<lambda>(b, r).
     res_bind (readMagic n r) (\<lambda>(bs, r). Inr (b # bs, r)))"

definition decodeFrameHeader :: "byte list \<Rightarrow> frame_header res" where
  "decodeFrameHeader bytes =
     res_bind (throw_if (length bytes \<noteq> FRAME_HEADER_SIZE)
       (wireFail ''frame header must contain exactly 24 bytes'')) (\<lambda>_.
     res_bind (readMagic (length PROTOCOL_MAGIC) (newReader bytes)) (\<lambda>(magic, r).
     res_bind (rUint16 r) (\<lambda>(version, r).
     res_bind (rUint16 r) (\<lambda>(rawType, r).
     res_bind (rUint64 r) (\<lambda>(rid, r).
     res_bind (rUint32 r) (\<lambda>(len, r).
     res_bind (rUint32 r) (\<lambda>(reserved, r).
     res_bind (rFinish r) (\<lambda>_.
     res_bind (throw_if (magic \<noteq> PROTOCOL_MAGIC)
       (ProtocolError ''invalid MiniDB++ protocol magic'' (Some rid))) (\<lambda>_.
     res_bind (throw_if (version \<noteq> PROTOCOL_VERSION)
       (ProtocolError ''unsupported MiniDB++ protocol version'' (Some rid))) (\<lambda>_.
     res_bind (throw_if (\<not> knownMessageType rawType)
       (ProtocolError ''unknown protocol message type'' (Some rid))) (\<lambda>_.
     res_bind (throw_if (unat len > MAX_FRAME_PAYLOAD)
       (ProtocolError ''frame payload length exceeds protocol maximum'' (Some rid))) (\<lambda>_.
     res_bind (throw_if (reserved \<noteq> 0)
       (ProtocolError ''frame reserved field must be zero'' (Some rid))) (\<lambda>_.
     Inr \<lparr>messageType = messageTypeOf rawType, requestId = rid, payloadLength = len\<rparr>)))))))))))))"

definition encodeFrame :: "wire_frame \<Rightarrow> byte list res" where
  "encodeFrame frame =
     res_bind (throw_if (length (payload frame) \<noteq> unat (payloadLength (frameHeader frame)))
       (wireFail ''frame header payload length disagrees with payload'')) (\<lambda>_.
     res_bind (encodeFrameHeader (frameHeader frame)) (\<lambda>bytes.
     Inr (bytes @ payload frame)))"

definition decodeFrame :: "byte list \<Rightarrow> wire_frame res" where
  "decodeFrame bytes =
     res_bind (throw_if (length bytes < FRAME_HEADER_SIZE)
       (wireFail ''complete frame is shorter than its header'')) (\<lambda>_.
     res_bind (decodeFrameHeader (take FRAME_HEADER_SIZE bytes)) (\<lambda>header.
     res_bind (throw_if (length bytes \<noteq> FRAME_HEADER_SIZE + unat (payloadLength header))
       (ProtocolError ''complete frame size disagrees with payload length''
          (Some (requestId header)))) (\<lambda>_.
     Inr \<lparr>frameHeader = header, payload = drop FRAME_HEADER_SIZE bytes\<rparr>)))"

definition frameOf :: "message_type \<Rightarrow> u64 \<Rightarrow> byte list \<Rightarrow> wire_frame" where
  "frameOf type rid bytes =
     \<lparr>frameHeader = \<lparr>messageType = type, requestId = rid, payloadLength = of_nat (length bytes)\<rparr>,
      payload = bytes\<rparr>"

definition makeHelloFrame :: wire_frame where
  "makeHelloFrame = frameOf Hello 0 []"

definition makeHelloAckFrame :: wire_frame where
  "makeHelloAckFrame = frameOf HelloAck 0 []"

definition makeExecuteSqlFrame :: "u64 \<Rightarrow> string \<Rightarrow> wire_frame res" where
  "makeExecuteSqlFrame rid source =
     res_bind (throw_if (length source > MAX_SQL_BYTES)
       (ProtocolError ''SQL request exceeds protocol SQL byte limit'' (Some rid))) (\<lambda>_.
     Inr (frameOf ExecuteSql rid (map char_byte source)))"

definition decodeExecuteSqlPayload :: "wire_frame \<Rightarrow> string res" where
  "decodeExecuteSqlPayload frame =
     res_bind (throw_if (messageType (frameHeader frame) \<noteq> ExecuteSql
         \<or> length (payload frame) \<noteq> unat (payloadLength (frameHeader frame)))
       (ProtocolError ''frame is not a valid EXECUTE_SQL request''
          (Some (requestId (frameHeader frame))))) (\<lambda>_.
     res_bind (throw_if (length (payload frame) > MAX_SQL_BYTES)
       (ProtocolError ''SQL request exceeds protocol SQL byte limit''
          (Some (requestId (frameHeader frame))))) (\<lambda>_.
     Inr (map byte_char (payload frame))))"

section \<open>Command results\<close>

definition encodeCommandResultPayload :: "command_result \<Rightarrow> byte list res" where
  "encodeCommandResultPayload result =
     res_bind (wUint16 (encodeCommandKind (resCommand result)) (newWriter MAX_FRAME_PAYLOAD)) (\<lambda>w.
     res_bind (wUint16 (if insertedRecordId result \<noteq> None then FLAG_PRESENT else 0) w) (\<lambda>w.
     res_bind (wUint64 (affectedRows result) w) (\<lambda>w.
     res_bind (encodeStats (cmdStats result) w) (\<lambda>w.
     res_bind (case insertedRecordId result of
         Some rid \<Rightarrow> encodeRecordId rid w | None \<Rightarrow> Inr w) (\<lambda>w.
     Inr (wBytes w))))))"

definition decodeCommandResultPayload :: "byte list \<Rightarrow> command_result res" where
  "decodeCommandResultPayload bytes =
     res_bind (rUint16 (newReader bytes)) (\<lambda>(rawKind, r).
     res_bind (decodeCommandKind rawKind) (\<lambda>command.
     res_bind (rUint16 r) (\<lambda>(flags, r).
     res_bind (throw_if (flags AND NOT FLAG_PRESENT \<noteq> 0)
       (wireFail ''CommandResult contains unknown flags'')) (\<lambda>_.
     res_bind (rUint64 r) (\<lambda>(affected, r).
     res_bind (decodeStats r) (\<lambda>(stats, r).
     res_bind (if flags AND FLAG_PRESENT \<noteq> 0
         then res_bind (decodeRecordId r) (\<lambda>(rid, r). Inr (Some rid, r))
         else Inr (None, r)) (\<lambda>(rid, r).
     res_bind (rFinish r) (\<lambda>_.
     Inr \<lparr>resCommand = command, affectedRows = affected, insertedRecordId = rid,
          cmdStats = stats\<rparr>))))))))"

section \<open>Row sets\<close>

primrec encodeStrings :: "string list \<Rightarrow> writer \<Rightarrow> writer res" where
  "encodeStrings [] w = Inr w"
| "encodeStrings (s # ss) w = res_bind (wString s w) (encodeStrings ss)"

primrec encodeValues :: "db_value list \<Rightarrow> writer \<Rightarrow> writer res" where
  "encodeValues [] w = Inr w"
| "encodeValues (v # vs) w = res_bind (encodeValue v w) (encodeValues vs)"

text \<open>
  The loop over rows, from \<open>rowIndex\<close> on; \<open>recordIds\<close> is indexed only when it is not empty, and
  then it has one entry per row.
\<close>

primrec encodeRows :: "nat \<Rightarrow> record_id list \<Rightarrow> nat \<Rightarrow> row_values list \<Rightarrow> writer \<Rightarrow> writer res" where
  "encodeRows columnCount recordIds rowIndex [] w = Inr w"
| "encodeRows columnCount recordIds rowIndex (row # rows) w =
     res_bind (if recordIds \<noteq> [] then encodeRecordId (recordIds ! rowIndex) w else Inr w) (\<lambda>w.
     res_bind (throw_if (length row \<noteq> columnCount)
       (wireFail ''SelectResult row width disagrees with projection'')) (\<lambda>_.
     res_bind (wUint32 (of_nat (length row)) w) (\<lambda>w.
     res_bind (encodeValues row w) (\<lambda>w.
     encodeRows columnCount recordIds (rowIndex + 1) rows w))))"

definition encodeSelectResultPayload :: "select_result \<Rightarrow> byte list res" where
  "encodeSelectResultPayload result =
     res_bind (throw_if (length (resColumns result) > MAX_WIRE_COLUMNS
         \<or> length (resRows result) > MAX_WIRE_ROWS
         \<or> (resRecordIds result \<noteq> [] \<and> length (resRecordIds result) \<noteq> length (resRows result)))
       (wireFail ''SelectResult counts exceed limits or RID count disagrees'')) (\<lambda>_.
     res_bind (wUint32 (of_nat (length (resColumns result))) (newWriter MAX_FRAME_PAYLOAD)) (\<lambda>w.
     res_bind (wUint64 (of_nat (length (resRows result))) w) (\<lambda>w.
     res_bind (wUint32 (if resRecordIds result = [] then 0 else FLAG_PRESENT) w) (\<lambda>w.
     res_bind (encodeStats (selStats result) w) (\<lambda>w.
     res_bind (encodeStrings (resColumns result) w) (\<lambda>w.
     res_bind (encodeRows (length (resColumns result)) (resRecordIds result) 0
         (resRows result) w) (\<lambda>w.
     Inr (wBytes w))))))))"

primrec decodeStrings :: "nat \<Rightarrow> reader \<Rightarrow> (string list \<times> reader) res" where
  "decodeStrings 0 r = Inr ([], r)"
| "decodeStrings (Suc n) r = res_bind (rString r) (\<lambda>(s, r).
     res_bind (decodeStrings n r) (\<lambda>(ss, r). Inr (s # ss, r)))"

primrec decodeValues :: "nat \<Rightarrow> reader \<Rightarrow> (db_value list \<times> reader) res" where
  "decodeValues 0 r = Inr ([], r)"
| "decodeValues (Suc n) r = res_bind (decodeValue r) (\<lambda>(v, r).
     res_bind (decodeValues n r) (\<lambda>(vs, r). Inr (v # vs, r)))"

primrec decodeRows ::
  "nat \<Rightarrow> u32 \<Rightarrow> u32 \<Rightarrow> reader \<Rightarrow> ((record_id list \<times> row_values list) \<times> reader) res"
where
  "decodeRows 0 columnCount flags r = Inr (([], []), r)"
| "decodeRows (Suc n) columnCount flags r =
     res_bind (if flags AND FLAG_PRESENT \<noteq> 0
         then res_bind (decodeRecordId r) (\<lambda>(rid, r). Inr ([rid], r))
         else Inr ([], r)) (\<lambda>(rid, r).
     res_bind (rUint32 r) (\<lambda>(valueCount, r).
     res_bind (throw_if (valueCount \<noteq> columnCount \<or> unat valueCount > rRemaining r)
       (wireFail ''SelectResult row width is invalid'')) (\<lambda>_.
     res_bind (decodeValues (unat valueCount) r) (\<lambda>(row, r).
     res_bind (decodeRows n columnCount flags r) (\<lambda>((rids, rows), r).
     Inr ((rid @ rids, row # rows), r))))))"

definition decodeSelectResultPayload :: "byte list \<Rightarrow> select_result res" where
  "decodeSelectResultPayload bytes =
     res_bind (rUint32 (newReader bytes)) (\<lambda>(columnCount, r).
     res_bind (rUint64 r) (\<lambda>(rowCount, r).
     res_bind (rUint32 r) (\<lambda>(flags, r).
     res_bind (throw_if (unat columnCount > MAX_WIRE_COLUMNS \<or> unat rowCount > MAX_WIRE_ROWS
         \<or> flags AND NOT FLAG_PRESENT \<noteq> 0)
       (wireFail ''SelectResult count or flags are invalid'')) (\<lambda>_.
     res_bind (decodeStats r) (\<lambda>(stats, r).
     res_bind (decodeStrings (unat columnCount) r) (\<lambda>(names, r).
     res_bind (throw_if (unat rowCount > rRemaining r)
       (wireFail ''SelectResult row count is impossible for remaining payload'')) (\<lambda>_.
     res_bind (decodeRows (unat rowCount) columnCount flags r) (\<lambda>((rids, rows), r).
     res_bind (rFinish r) (\<lambda>_.
     Inr \<lparr>resColumns = names, resRows = rows, resRecordIds = rids, selStats = stats\<rparr>)))))))))"

section \<open>Query results and errors\<close>

definition encodeQueryResultFrame :: "u64 \<Rightarrow> query_result \<Rightarrow> wire_frame res" where
  "encodeQueryResultFrame rid result = (case result of
     CommandRes c \<Rightarrow> res_bind (encodeCommandResultPayload c) (\<lambda>bytes.
       Inr (frameOf CommandResultMsg rid bytes))
   | SelectRes s \<Rightarrow> res_bind (encodeSelectResultPayload s) (\<lambda>bytes.
       Inr (frameOf SelectResultMsg rid bytes)))"

definition decodeQueryResultFrame :: "wire_frame \<Rightarrow> query_result res" where
  "decodeQueryResultFrame frame =
     res_bind (throw_if (length (payload frame) \<noteq> unat (payloadLength (frameHeader frame)))
       (wireFail ''response frame payload length disagrees'')) (\<lambda>_.
     if messageType (frameHeader frame) = CommandResultMsg
     then res_bind (decodeCommandResultPayload (payload frame)) (\<lambda>c. Inr (CommandRes c))
     else if messageType (frameHeader frame) = SelectResultMsg
     then res_bind (decodeSelectResultPayload (payload frame)) (\<lambda>s. Inr (SelectRes s))
     else Inl (ProtocolError ''frame is not a QueryResult response''
            (Some (requestId (frameHeader frame)))))"

definition encodeErrorResponsePayload :: "error_response \<Rightarrow> byte list res" where
  "encodeErrorResponsePayload error =
     res_bind (throw_if (\<not> knownErrorCategory (errorCategoryId (errCategory error)))
       (wireFail ''cannot encode unknown ErrorResponse category'')) (\<lambda>_.
     res_bind (throw_if (case errSpan error of None \<Rightarrow> False | Some span \<Rightarrow>
           srcLine (spanBegin span) = 0 \<or> srcColumn (spanBegin span) = 0
           \<or> srcLine (spanEnd span) = 0 \<or> srcColumn (spanEnd span) = 0
           \<or> srcOffset (spanEnd span) < srcOffset (spanBegin span))
       (wireFail ''cannot encode invalid ErrorResponse source span'')) (\<lambda>_.
     res_bind (wUint16 (errorCategoryId (errCategory error)) (newWriter MAX_FRAME_PAYLOAD)) (\<lambda>w.
     res_bind (wUint16 (if errSpan error \<noteq> None then FLAG_PRESENT else 0) w) (\<lambda>w.
     res_bind (wString (errMessage error) w) (\<lambda>w.
     res_bind (case errSpan error of None \<Rightarrow> Inr w | Some span \<Rightarrow>
         res_bind (wUint64 (checkedOffset (srcOffset (spanBegin span))) w) (\<lambda>w.
         res_bind (wUint64 (checkedOffset (srcOffset (spanEnd span))) w) (\<lambda>w.
         res_bind (checkedLocation (srcLine (spanBegin span))) (\<lambda>v. res_bind (wUint32 v w) (\<lambda>w.
         res_bind (checkedLocation (srcColumn (spanBegin span))) (\<lambda>v. res_bind (wUint32 v w) (\<lambda>w.
         res_bind (checkedLocation (srcLine (spanEnd span))) (\<lambda>v. res_bind (wUint32 v w) (\<lambda>w.
         res_bind (checkedLocation (srcColumn (spanEnd span))) (\<lambda>v. wUint32 v w))))))))))
       (\<lambda>w. Inr (wBytes w)))))))"

definition readSpan :: "reader \<Rightarrow> (source_span option \<times> reader) res" where
  "readSpan r =
     res_bind (rUint64 r) (\<lambda>(beginOffset, r).
     res_bind (rUint64 r) (\<lambda>(endOffset, r).
     res_bind (rUint32 r) (\<lambda>(beginLine, r).
     res_bind (rUint32 r) (\<lambda>(beginColumn, r).
     res_bind (rUint32 r) (\<lambda>(endLine, r).
     res_bind (rUint32 r) (\<lambda>(endColumn, r).
     res_bind (throw_if (beginLine = 0 \<or> beginColumn = 0 \<or> endLine = 0 \<or> endColumn = 0
         \<or> endOffset < beginOffset)
       (wireFail ''ErrorResponse source span is invalid'')) (\<lambda>_.
     Inr (Some \<lparr>spanBegin = \<lparr>srcOffset = decodeOffset beginOffset, srcLine = unat beginLine,
                            srcColumn = unat beginColumn\<rparr>,
                spanEnd = \<lparr>srcOffset = decodeOffset endOffset, srcLine = unat endLine,
                          srcColumn = unat endColumn\<rparr>\<rparr>, r))))))))"

definition decodeErrorResponsePayload :: "byte list \<Rightarrow> error_response res" where
  "decodeErrorResponsePayload bytes =
     res_bind (rUint16 (newReader bytes)) (\<lambda>(rawCategory, r).
     res_bind (rUint16 r) (\<lambda>(flags, r).
     res_bind (throw_if (\<not> knownErrorCategory rawCategory)
       (wireFail ''invalid ErrorResponse category'')) (\<lambda>_.
     res_bind (throw_if (flags AND NOT FLAG_PRESENT \<noteq> 0)
       (wireFail ''ErrorResponse contains unknown flags'')) (\<lambda>_.
     res_bind (rString r) (\<lambda>(message, r).
     res_bind (if flags AND FLAG_PRESENT \<noteq> 0 then readSpan r
       else Inr (None, r)) (\<lambda>(span, r).
     res_bind (rFinish r) (\<lambda>_.
     Inr \<lparr>errCategory = errorCategoryOf rawCategory, errMessage = message, errSpan = span\<rparr>)))))))"

definition makeErrorFrame :: "u64 \<Rightarrow> error_response \<Rightarrow> wire_frame res" where
  "makeErrorFrame rid error =
     res_bind (encodeErrorResponsePayload error) (\<lambda>bytes. Inr (frameOf ErrorResponseMsg rid bytes))"

section \<open>Big-endian integers\<close>

definition be_bytes :: "nat \<Rightarrow> 'a::len word \<Rightarrow> byte list" where
  "be_bytes n v = rev (le_bytes n v)"

definition be_value :: "byte list \<Rightarrow> 'a::len word" where
  "be_value bs = fold (\<lambda>b v. push_bit 8 v OR ucast b) bs 0"

lemma length_be_bytes [simp]: "length (be_bytes n v) = n"
  by (simp add: be_bytes_def)

lemma bit_be_value:
  "bit (be_value bs :: 'a::len word) k \<longleftrightarrow>
     k < LENGTH('a) \<and> k < 8 * length bs \<and> bit (bs ! (length bs - 1 - k div 8)) (k mod 8)"
proof (induction bs arbitrary: k rule: rev_induct)
  case (snoc b bs)
  have step: "(be_value (bs @ [b]) :: 'a word) = push_bit 8 (be_value bs) OR ucast b"
    by (simp add: be_value_def)
  show ?case
  proof (cases "k < 8")
    case True
    then show ?thesis
      unfolding step by (auto simp: bit_or_iff bit_push_bit_iff bit_ucast_iff nth_append dest: bit_imp_le_length)
  next
    case False
    then obtain j where k: "k = j + 8" by (metis le_add_diff_inverse2 not_less)
    have nb: "\<not> bit b (j + 8)" by (auto dest: bit_imp_le_length)
    have div: "(j + 8) div 8 = Suc (j div 8)" by simp
    have "j < 8 * length bs \<Longrightarrow> (bs @ [b]) ! (length bs - Suc (j div 8)) = bs ! (length bs - Suc (j div 8))"
      by (rule nth_append_left) (cases bs, auto)
    then show ?thesis
      using nb snoc.IH [of j] unfolding step k div
      by (auto simp: bit_or_iff bit_push_bit_iff bit_ucast_iff div)
  qed
qed (simp add: be_value_def)

lemma be_value_bytes: "8 * n = LENGTH('a) \<Longrightarrow> be_value (be_bytes n v) = (v :: 'a::len word)"
proof (rule bit_word_eqI)
  fix k assume n: "8 * n = LENGTH('a)" and k: "k < LENGTH('a)"
  have i: "k div 8 < n" using n k by auto
  then have "be_bytes n v ! (n - 1 - k div 8) = ucast (drop_bit (k div 8 * 8) v)"
    by (simp add: be_bytes_def rev_nth nth_le_bytes)
  moreover have "k div 8 * 8 + k mod 8 = k" by simp
  ultimately show "bit (be_value (be_bytes n v) :: 'a word) k = bit v k"
    using n k by (simp add: bit_be_value bit_ucast_iff bit_drop_bit_eq)
qed

lemma be_bytes_value: "8 * length bs \<le> LENGTH('a) \<Longrightarrow> be_bytes (length bs) (be_value bs :: 'a::len word) = bs"
proof (rule nth_equalityI)
  fix i assume le: "8 * length bs \<le> LENGTH('a)" and "i < length (be_bytes (length bs) (be_value bs :: 'a word))"
  then have i: "i < length bs" by simp
  let ?j = "length bs - 1 - i"
  have n: "be_bytes (length bs) (be_value bs :: 'a word) ! i = ucast (drop_bit (?j * 8) (be_value bs :: 'a word))"
    using i by (simp add: be_bytes_def rev_nth nth_le_bytes)
  show "be_bytes (length bs) (be_value bs :: 'a word) ! i = bs ! i"
  proof (rule bit_word_eqI)
    fix k assume k: "k < LENGTH(8)"
    have "(?j * 8 + k) div 8 = ?j" "(?j * 8 + k) mod 8 = k" using k by simp_all
    moreover have "?j * 8 + k < 8 * length bs" using i k by simp
    moreover have "length bs - 1 - ?j = i" using i by simp
    ultimately show "bit (be_bytes (length bs) (be_value bs :: 'a word) ! i) k = bit (bs ! i) k"
      unfolding n using k le by (simp add: bit_ucast_iff bit_drop_bit_eq bit_be_value)
  qed
qed simp

lemma be_value_iff:
  "8 * n = LENGTH('a) \<Longrightarrow> length bs = n \<Longrightarrow> be_value bs = (v :: 'a::len word) \<longleftrightarrow> bs = be_bytes n v"
  using be_value_bytes [of n v] be_bytes_value [of bs, where ?'a = 'a] by auto

lemma upt_bytes:
  "[0..<2] = [0, 1]" "[0..<4] = [0, 1, 2, 3]" "[0..<8] = [0, 1, 2, 3, 4, 5, 6, 7]"
  by (simp_all add: list_eq_iff_nth_eq nth_Cons' numeral_eq_Suc less_Suc_eq)

lemma be_bytes_unfold:
  "be_bytes 2 v = [ucast (drop_bit 8 v), ucast v]"
  "be_bytes 4 v = map (\<lambda>s. ucast (drop_bit s v)) [24, 16, 8, 0]"
  "be_bytes 8 v = map (\<lambda>s. ucast (drop_bit s v)) [56, 48, 40, 32, 24, 16, 8, 0]"
  by (simp_all add: be_bytes_def le_bytes_def upt_bytes)

section \<open>What a writer appends and a reader consumes\<close>

definition puts :: "writer \<Rightarrow> byte list \<Rightarrow> writer \<Rightarrow> bool" where
  "puts w xs w' \<longleftrightarrow>
     w' = w\<lparr>wBytes := wBytes w @ xs\<rparr> \<and> length xs \<le> wMaximum w - length (wBytes w)"

definition takes :: "reader \<Rightarrow> byte list \<Rightarrow> reader \<Rightarrow> bool" where
  "takes r xs r' \<longleftrightarrow>
     r' = r\<lparr>rCursor := rCursor r + length xs\<rparr> \<and> take (length xs) (drop (rCursor r) (rBytes r)) = xs
     \<and> (xs = [] \<or> rCursor r + length xs \<le> length (rBytes r))"

named_theorems wire_rules "what a writer appends, what a reader accepts"

lemma puts_nil [simp]: "puts w [] w' \<longleftrightarrow> w' = w"
  by (auto simp: puts_def)

lemma puts_append: "(\<exists>m. puts w xs m \<and> puts m ys w') \<longleftrightarrow> puts w (xs @ ys) w'"
  by (auto simp: puts_def)

lemma takes_nil [simp]: "takes r [] r' \<longleftrightarrow> r' = r"
  by (auto simp: takes_def)

lemma takes_append: "(\<exists>m. takes r xs m \<and> takes m ys r') \<longleftrightarrow> takes r (xs @ ys) r'"
proof
  assume "takes r (xs @ ys) r'"
  then have "takes r xs (r\<lparr>rCursor := rCursor r + length xs\<rparr>)"
    "takes (r\<lparr>rCursor := rCursor r + length xs\<rparr>) ys r'"
    by (auto simp: takes_def take_add add.assoc append_eq_append_conv_if drop_drop add.commute)
  then show "\<exists>m. takes r xs m \<and> takes m ys r'" by blast
next
  assume "\<exists>m. takes r xs m \<and> takes m ys r'"
  then show "takes r (xs @ ys) r'"
    by (auto simp: takes_def take_add add.assoc drop_drop add.commute)
qed

lemma puts_then:
  "(\<exists>m. puts w xs m \<and> puts m ys w' \<and> P) \<longleftrightarrow> puts w (xs @ ys) w' \<and> P"
  "(\<exists>m. puts w xs m \<and> P \<and> puts m ys w') \<longleftrightarrow> P \<and> puts w (xs @ ys) w'"
  using puts_append [of w xs ys w'] by auto

lemma takes_split: "takes r (xs @ ys) r' \<Longrightarrow> \<exists>m. takes r xs m \<and> takes m ys r'"
  using takes_append by blast

lemma takes_bytes: "takes r xs r' \<Longrightarrow> rBytes r' = rBytes r"
  by (simp add: takes_def)

lemma takes_remaining: "takes r xs r' \<Longrightarrow> length xs \<le> rRemaining r"
  by (cases xs) (auto simp: takes_def rRemaining_def)

lemma takes_det: "takes r xs r1 \<Longrightarrow> takes r xs r2 \<Longrightarrow> r1 = r2"
  by (simp add: takes_def)

lemma takes_allD: "takes (newReader bs) xs r \<Longrightarrow> rFinish r = Inr u \<Longrightarrow> bs = xs"
  by (auto simp: takes_def newReader_def rFinish_def)

lemma takes_allE:
  obtains r where "takes (newReader bs) bs r" and "rFinish r = Inr ()"
  by (rule that [of "\<lparr>rBytes = bs, rCursor = length bs\<rparr>"])
    (auto simp: takes_def newReader_def rFinish_def)

lemma wRequire_iff: "wRequire n w = Inr u \<longleftrightarrow> n \<le> wMaximum w - length (wBytes w)"
  by (auto simp: wRequire_def)

lemma wByte_iff [wire_rules]: "wByte b w = Inr w' \<longleftrightarrow> puts w [b] w'"
  by (auto simp: wByte_def res_simps wRequire_iff puts_def pushByte_def)

lemma wUint_iff [wire_rules]:
  "wUint16 v16 w = Inr w' \<longleftrightarrow> puts w (be_bytes 2 v16) w'"
  "wUint32 v32 w = Inr w' \<longleftrightarrow> puts w (be_bytes 4 v32) w'"
  "wUint64 v64 w = Inr w' \<longleftrightarrow> puts w (be_bytes 8 v64) w'"
  by (auto simp: wUint16_def wUint32_def wUint64_def res_simps wRequire_iff puts_def pushByte_def
      be_bytes_unfold ucast_and_FF)

lemma wRaw_iff [wire_rules]: "wRaw bs w = Inr w' \<longleftrightarrow> puts w bs w'"
  by (auto simp: wRaw_def res_simps wRequire_iff puts_def)

lemma rByte_iff [wire_rules]: "rByte r = Inr (b, r') \<longleftrightarrow> takes r [b] r'"
  by (auto simp: rByte_def rRequire_def res_simps takes_def take_Suc_conv_app_nth hd_drop_conv_nth
      take_Suc)

lemma rRequire_iff: "rRequire n r = Inr u \<longleftrightarrow> n \<le> rRemaining r"
  by (auto simp: rRequire_def rRemaining_def)

lemma ex_length_Suc: "(\<exists>bs. length bs = Suc n \<and> Q bs) \<longleftrightarrow> (\<exists>b bs. length bs = n \<and> Q (b # bs))"
  by (metis length_Cons length_Suc_conv)

lemma rLoop_iff:
  "rLoop n v r = Inr (x, r') \<longleftrightarrow>
     (\<exists>bs. length bs = n \<and> takes r bs r' \<and> x = fold (\<lambda>b v. push_bit 8 v OR ucast b) bs v)"
proof (induction n arbitrary: v r)
  case (Suc n)
  have "rLoop (Suc n) v r = Inr (x, r') \<longleftrightarrow>
      (\<exists>b m bs. takes r [b] m \<and> length bs = n \<and> takes m bs r'
        \<and> x = fold (\<lambda>b v. push_bit 8 v OR ucast b) bs (push_bit 8 v OR ucast b))"
    by (auto simp: res_simps rByte_iff Suc.IH)
  also have "\<dots> \<longleftrightarrow> (\<exists>b bs. length bs = n \<and> takes r ([b] @ bs) r'
        \<and> x = fold (\<lambda>b v. push_bit 8 v OR ucast b) (b # bs) v)"
    unfolding takes_append [symmetric] by auto
  also have "\<dots> \<longleftrightarrow> (\<exists>bs. length bs = Suc n \<and> takes r bs r'
        \<and> x = fold (\<lambda>b v. push_bit 8 v OR ucast b) bs v)"
    by (simp add: ex_length_Suc)
  finally show ?case .
qed auto

lemma rUint_iff [wire_rules]:
  "rUint16 r = Inr (v16, r') \<longleftrightarrow> takes r (be_bytes 2 v16) r'"
  "rUint32 r = Inr (v32, r') \<longleftrightarrow> takes r (be_bytes 4 v32) r'"
  "rUint64 r = Inr (v64, r') \<longleftrightarrow> takes r (be_bytes 8 v64) r'"
proof -
  have loop: "(n \<le> rRemaining r \<and> rLoop n 0 r = Inr (v, r')) \<longleftrightarrow> takes r (be_bytes n v) r'"
    if n: "8 * n = LENGTH('a)" for n and v :: "'a::len word"
  proof -
    have "rLoop n 0 r = Inr (v, r') \<longleftrightarrow> (\<exists>bs. length bs = n \<and> takes r bs r' \<and> be_value bs = v)"
      by (auto simp: rLoop_iff be_value_def)
    also have "\<dots> \<longleftrightarrow> takes r (be_bytes n v) r'"
      using be_value_iff [OF n, of _ v] length_be_bytes [of n v] by metis
    finally show ?thesis using takes_remaining [of r "be_bytes n v" r'] by auto
  qed
  show "rUint32 r = Inr (v32, r') \<longleftrightarrow> takes r (be_bytes 4 v32) r'"
    using loop [of 4 v32] by (auto simp: rUint32_def res_simps rRequire_iff)
  show "rUint64 r = Inr (v64, r') \<longleftrightarrow> takes r (be_bytes 8 v64) r'"
    using loop [of 8 v64] by (auto simp: rUint64_def res_simps rRequire_iff)
  have "rUint16 r = (res_bind (rRequire 2 r) (\<lambda>_. rLoop 2 0 r))"
    by (simp add: rUint16_def numeral_2_eq_2 split_def)
  then show "rUint16 r = Inr (v16, r') \<longleftrightarrow> takes r (be_bytes 2 v16) r'"
    using loop [of 2 v16] by (auto simp: res_simps rRequire_iff)
qed

section \<open>Formats of the components\<close>

definition ok_string :: "string \<Rightarrow> bool" where
  "ok_string s \<longleftrightarrow> length s \<le> MAX_WIRE_STRING_BYTES"

definition code_string :: "string \<Rightarrow> byte list" where
  "code_string s = be_bytes 4 (of_nat (length s) :: u32) @ map char_byte s"

definition code_stats :: "execution_stats \<Rightarrow> byte list" where
  "code_stats s = be_bytes 2 (encodeAccessPath (statAccessPath s)) @ be_bytes 2 (0 :: u16)
     @ be_bytes 8 (rowsExamined s) @ be_bytes 8 (rowsReturned s) @ be_bytes 8 (indexLookups s)"

definition code_rid :: "record_id \<Rightarrow> byte list" where
  "code_rid r = be_bytes 4 (pageId r) @ be_bytes 2 (slotId r) @ be_bytes 2 (0 :: u16)"

fun ok_value :: "db_value \<Rightarrow> bool" where
  "ok_value (VString s) = ok_string s"
| "ok_value _ = True"

fun code_value :: "db_value \<Rightarrow> byte list" where
  "code_value VNull = [0]"
| "code_value (VUint v) = 1 # be_bytes 4 v"
| "code_value (VInt v) = 2 # be_bytes 8 v"
| "code_value (VBool b) = [3, if b then 1 else 0]"
| "code_value (VString s) = 4 # code_string s"

lemma unat_u32_small: "n < 4294967296 \<Longrightarrow> unat (of_nat n :: u32) = n"
  by (rule unat_of_nat_small) simp

lemma unat_u64_small: "n < 18446744073709551616 \<Longrightarrow> unat (of_nat n :: u64) = n"
  by (rule unat_of_nat_small) simp

lemma u32_of_unat: "unat (v :: u32) = n \<longleftrightarrow> n < 4294967296 \<and> v = of_nat n"
proof
  assume "unat v = n"
  moreover have "unat v < 4294967296" using unsigned_less [of v, where ?'a = nat] by simp
  ultimately show "n < 4294967296 \<and> v = of_nat n" by auto
qed (auto simp: unat_u32_small)

lemma wString_iff [wire_rules]: "wString s w = Inr w' \<longleftrightarrow> ok_string s \<and> puts w (code_string s) w'"
  by (auto simp: wString_def res_simps wire_rules ok_string_def code_string_def
      puts_append [symmetric])

lemma rChars_iff: "rChars n r = Inr (s, r') \<longleftrightarrow> length s = n \<and> takes r (map char_byte s) r'"
proof (induction n arbitrary: r s)
  case (Suc n)
  have "rChars (Suc n) r = Inr (s, r') \<longleftrightarrow>
      (\<exists>b m t. takes r [b] m \<and> length t = n \<and> takes m (map char_byte t) r' \<and> s = byte_char b # t)"
    by (auto simp: res_simps rByte_iff Suc.IH)
  also have "\<dots> \<longleftrightarrow> (\<exists>b t. length t = n \<and> takes r ([b] @ map char_byte t) r' \<and> s = byte_char b # t)"
    unfolding takes_append [symmetric] by auto
  also have "\<dots> \<longleftrightarrow> length s = Suc n \<and> takes r (map char_byte s) r'"
    by (cases s) (auto intro: exI [of _ "char_byte (hd s)"])
  finally show ?case .
qed auto

lemma rString_iff [wire_rules]: "rString r = Inr (s, r') \<longleftrightarrow> ok_string s \<and> takes r (code_string s) r'"
proof
  assume "rString r = Inr (s, r')"
  then obtain v m where v: "rUint32 r = Inr (v, m)" "unat v \<le> MAX_WIRE_STRING_BYTES" "rChars (unat v) m = Inr (s, r')"
    by (auto simp: rString_def res_simps not_less split: if_splits)
  then have "v = of_nat (length s)" "takes r (be_bytes 4 v) m" "takes m (map char_byte s) r'" "ok_string s"
    by (auto simp: wire_rules rChars_iff ok_string_def)
  then show "ok_string s \<and> takes r (code_string s) r'"
    unfolding code_string_def takes_append [symmetric] by blast
next
  assume a: "ok_string s \<and> takes r (code_string s) r'"
  then obtain m where m: "takes r (be_bytes 4 (of_nat (length s) :: u32)) m" "takes m (map char_byte s) r'"
    unfolding code_string_def takes_append [symmetric] by blast
  have "rRequire (length s) m = Inr ()" using takes_remaining [OF m(2)] by (simp add: rRequire_iff)
  moreover have "unat (of_nat (length s) :: u32) = length s" using a by (simp add: ok_string_def unat_u32_small)
  ultimately show "rString r = Inr (s, r')"
    using a m by (simp add: rString_def rUint_iff [THEN iffD2] rChars_iff ok_string_def)
qed

lemma decodeAccessPath_iff: "decodeAccessPath v = Inr p \<longleftrightarrow> v = encodeAccessPath p"
  by (cases p) (auto simp: decodeAccessPath_def)

lemma decodeCommandKind_iff: "decodeCommandKind v = Inr k \<longleftrightarrow> v = encodeCommandKind k"
  by (cases k) (auto simp: decodeCommandKind_def)

lemma encodeStats_iff [wire_rules]: "encodeStats s w = Inr w' \<longleftrightarrow> puts w (code_stats s) w'"
  unfolding code_stats_def puts_append [symmetric]
  by (auto simp: encodeStats_def res_simps wire_rules)

lemmas reads_back = rByte_iff [THEN iffD2] rUint_iff [THEN iffD2]

lemma takes_join: "takes r xs m \<Longrightarrow> takes m ys r' \<Longrightarrow> takes r (xs @ ys) r'"
  using takes_append by blast

lemma decodeStats_iff [wire_rules]: "decodeStats r = Inr (s, r') \<longleftrightarrow> takes r (code_stats s) r'"
proof
  assume "decodeStats r = Inr (s, r')"
  then show "takes r (code_stats s) r'"
    unfolding code_stats_def
    by (auto simp: decodeStats_def res_simps wire_rules decodeAccessPath_iff split: if_splits)
      ((rule takes_join, assumption)+, assumption)
next
  assume "takes r (code_stats s) r'"
  then show "decodeStats r = Inr (s, r')"
    unfolding code_stats_def
    by (auto simp: decodeStats_def decodeAccessPath_iff [THEN iffD2] dest!: takes_split reads_back)
qed

lemma encodeRecordId_iff [wire_rules]:
  "encodeRecordId rid w = Inr w' \<longleftrightarrow> recordIdIsValid rid \<and> puts w (code_rid rid) w'"
  unfolding code_rid_def puts_append [symmetric]
  by (auto simp: encodeRecordId_def res_simps wire_rules)

lemma decodeRecordId_iff [wire_rules]:
  "decodeRecordId r = Inr (rid, r') \<longleftrightarrow> recordIdIsValid rid \<and> takes r (code_rid rid) r'"
  unfolding code_rid_def takes_append [symmetric]
  by (cases rid) (auto simp: decodeRecordId_def Let_def res_simps wire_rules)

lemma cons_code: "x # xs = [x] @ xs"
  by simp

lemma encodeValue_iff [wire_rules]:
  "encodeValue v w = Inr w' \<longleftrightarrow> ok_value v \<and> puts w (code_value v) w'"
proof (cases v)
  case (VBool b)
  then show ?thesis
    using puts_append [of w "[3]" "[if b then 1 else 0]" w'] by (auto simp: res_simps wire_rules)
qed (auto simp: res_simps wire_rules cons_code [of _ "be_bytes _ _"] cons_code [of _ "code_string _"]
      puts_append [symmetric] simp del: append_Cons)

lemma byte_flag: "\<not> 1 < (b :: byte) \<longleftrightarrow> b = 0 \<or> b = 1"
  by (auto simp: word_less_nat_alt word_unat_eq_iff)

lemma decodeValue_iff [wire_rules]:
  "decodeValue r = Inr (v, r') \<longleftrightarrow> ok_value v \<and> takes r (code_value v) r'"
proof
  assume "decodeValue r = Inr (v, r')"
  then obtain t m where t: "takes r [t] m" and "(t = 0 \<and> v = VNull \<and> r' = m)
      \<or> (\<exists>x. t = 1 \<and> v = VUint x \<and> takes m (be_bytes 4 x) r')
      \<or> (\<exists>x. t = 2 \<and> v = VInt x \<and> takes m (be_bytes 8 x) r')
      \<or> t = 3 \<and> (v = VBool False \<and> takes m [0] r' \<or> v = VBool True \<and> takes m [1] r')
      \<or> (\<exists>s. t = 4 \<and> v = VString s \<and> ok_string s \<and> takes m (code_string s) r')"
    by (auto simp: decodeValue_def res_simps wire_rules byte_flag split: if_splits)
  then have "ok_value v \<and> (\<exists>m. takes r [hd (code_value v)] m \<and> takes m (tl (code_value v)) r')"
    by auto
  then show "ok_value v \<and> takes r (code_value v) r'"
    unfolding takes_append by (cases v) auto
next
  assume a: "ok_value v \<and> takes r (code_value v) r'"
  then have "takes r ([hd (code_value v)] @ tl (code_value v)) r'" by (cases v) auto
  then obtain m where "takes r [hd (code_value v)] m" "takes m (tl (code_value v)) r'"
    by (blast dest: takes_split)
  then show "decodeValue r = Inr (v, r')"
    using a by (cases v) (auto simp: decodeValue_def rString_iff [THEN iffD2] dest!: reads_back)
qed

section \<open>Frames\<close>

definition code_header :: "frame_header \<Rightarrow> byte list" where
  "code_header h = PROTOCOL_MAGIC @ be_bytes 2 PROTOCOL_VERSION
     @ be_bytes 2 (messageTypeId (messageType h)) @ be_bytes 8 (requestId h)
     @ be_bytes 4 (payloadLength h) @ be_bytes 4 (0 :: u32)"

lemma length_code_header [simp]: "length (code_header h) = FRAME_HEADER_SIZE"
  by (simp add: code_header_def)

lemma knownMessageType_id [simp]: "knownMessageType (messageTypeId t)"
  by (cases t) (simp_all add: knownMessageType_def)

lemma messageTypeOf_id [simp]: "messageTypeOf (messageTypeId t) = t"
  by (cases t) (simp_all add: messageTypeOf_def)

lemma messageTypeId_of: "knownMessageType v \<Longrightarrow> messageTypeId (messageTypeOf v) = v"
  by (auto simp: knownMessageType_def messageTypeOf_def)

lemma puts_fresh: "puts (newWriter n) xs w \<longleftrightarrow> length xs \<le> n \<and> w = \<lparr>wBytes = xs, wMaximum = n\<rparr>"
  by (auto simp: puts_def newWriter_def)

lemma puts_join: "puts w xs m \<Longrightarrow> puts m ys w' \<Longrightarrow> puts w (xs @ ys) w'"
  using puts_append by blast

lemma encodeFrameHeader_iff:
  "encodeFrameHeader h = Inr bs \<longleftrightarrow> unat (payloadLength h) \<le> MAX_FRAME_PAYLOAD \<and> bs = code_header h"
  by (auto simp: encodeFrameHeader_def code_header_def res_simps wire_rules not_less puts_def newWriter_def)

lemma readMagic_iff: "readMagic n r = Inr (bs, r') \<longleftrightarrow> length bs = n \<and> takes r bs r'"
proof (induction n arbitrary: r bs)
  case (Suc n)
  have "readMagic (Suc n) r = Inr (bs, r') \<longleftrightarrow>
      (\<exists>b t. bs = b # t \<and> length t = n \<and> (\<exists>m. takes r [b] m \<and> takes m t r'))"
    by (auto simp: res_simps rByte_iff Suc.IH)
  then show ?case unfolding takes_append by (cases bs) auto
qed auto

lemma decodeFrameHeader_iff:
  "decodeFrameHeader bs = Inr h \<longleftrightarrow> unat (payloadLength h) \<le> MAX_FRAME_PAYLOAD \<and> bs = code_header h"
proof
  assume "decodeFrameHeader bs = Inr h"
  then obtain t m1 m2 m3 m4 m5 m6 where
    "takes (newReader bs) PROTOCOL_MAGIC m1" "takes m1 (be_bytes 2 PROTOCOL_VERSION) m2"
    "takes m2 (be_bytes 2 t) m3" "takes m3 (be_bytes 8 (requestId h)) m4"
    "takes m4 (be_bytes 4 (payloadLength h)) m5" "takes m5 (be_bytes 4 (0 :: u32)) m6"
    and fin: "rFinish m6 = Inr ()" and t: "knownMessageType t" "messageType h = messageTypeOf t"
    and len: "unat (payloadLength h) \<le> MAX_FRAME_PAYLOAD"
    by (auto simp: decodeFrameHeader_def res_simps wire_rules readMagic_iff simp del: readMagic.simps split: if_splits)
  then have "takes (newReader bs) (PROTOCOL_MAGIC @ be_bytes 2 PROTOCOL_VERSION @ be_bytes 2 t
      @ be_bytes 8 (requestId h) @ be_bytes 4 (payloadLength h) @ be_bytes 4 (0 :: u32)) m6"
    by - ((rule takes_join, assumption)+, assumption)
  moreover have "messageTypeId (messageType h) = t"
    using t by (simp add: messageTypeId_of)
  ultimately have "takes (newReader bs) (code_header h) m6"
    by (simp only: code_header_def)
  then show "unat (payloadLength h) \<le> MAX_FRAME_PAYLOAD \<and> bs = code_header h"
    using len takes_allD [OF _ fin] by simp
next
  assume a: "unat (payloadLength h) \<le> MAX_FRAME_PAYLOAD \<and> bs = code_header h"
  obtain e where e: "takes (newReader (code_header h)) (code_header h) e" "rFinish e = Inr ()"
    by (rule takes_allE)
  from e(1) obtain m1 m2 m3 m4 m5 where m: "takes (newReader (code_header h)) PROTOCOL_MAGIC m1"
    "takes m1 (be_bytes 2 PROTOCOL_VERSION) m2" "takes m2 (be_bytes 2 (messageTypeId (messageType h))) m3"
    "takes m3 (be_bytes 8 (requestId h)) m4" "takes m4 (be_bytes 4 (payloadLength h)) m5"
    "takes m5 (be_bytes 4 (0 :: u32)) e"
    unfolding code_header_def [of h] takes_append [symmetric] by blast
  have "readMagic (length PROTOCOL_MAGIC) (newReader (code_header h)) = Inr (PROTOCOL_MAGIC, m1)"
    using m(1) by (simp only: readMagic_iff)
  then show "decodeFrameHeader bs = Inr h"
    unfolding decodeFrameHeader_def using m a e(2)
    by (simp add: reads_back del: readMagic.simps length_magic_bytes)
qed

lemma decodeFrame_iff: "decodeFrame bs = Inr f \<longleftrightarrow> encodeFrame f = Inr bs"
proof
  assume "decodeFrame bs = Inr f"
  then obtain h where h: "decodeFrameHeader (take FRAME_HEADER_SIZE bs) = Inr h"
    "length bs = FRAME_HEADER_SIZE + unat (payloadLength h)"
    "f = \<lparr>frameHeader = h, payload = drop FRAME_HEADER_SIZE bs\<rparr>"
    by (auto simp: decodeFrame_def res_simps split: if_splits)
  moreover have "bs = code_header h @ drop FRAME_HEADER_SIZE bs"
    using h append_take_drop_id [of FRAME_HEADER_SIZE bs] by (simp add: decodeFrameHeader_iff)
  ultimately show "encodeFrame f = Inr bs"
    by (simp add: encodeFrame_def decodeFrameHeader_iff encodeFrameHeader_iff [THEN iffD2])
next
  assume "encodeFrame f = Inr bs"
  then have "length (payload f) = unat (payloadLength (frameHeader f))"
    "unat (payloadLength (frameHeader f)) \<le> MAX_FRAME_PAYLOAD" "bs = code_header (frameHeader f) @ payload f"
    by (auto simp: encodeFrame_def res_simps encodeFrameHeader_iff split: if_splits)
  then show "decodeFrame bs = Inr f"
    by (simp add: decodeFrame_def decodeFrameHeader_iff [THEN iffD2])
qed

lemma encodeFrame_frameOf:
  "length bytes \<le> MAX_FRAME_PAYLOAD \<Longrightarrow>
   encodeFrame (frameOf t rid bytes) = Inr (code_header (frameHeader (frameOf t rid bytes)) @ bytes)"
  by (simp add: encodeFrame_def frameOf_def unat_u32_small encodeFrameHeader_iff [THEN iffD2])

section \<open>Command results\<close>

definition ok_command :: "command_result \<Rightarrow> bool" where
  "ok_command c \<longleftrightarrow> (case insertedRecordId c of None \<Rightarrow> True | Some rid \<Rightarrow> recordIdIsValid rid)"

definition code_command :: "command_result \<Rightarrow> byte list" where
  "code_command c = be_bytes 2 (encodeCommandKind (resCommand c))
     @ be_bytes 2 (if insertedRecordId c \<noteq> None then 1 else 0 :: u16)
     @ be_bytes 8 (affectedRows c) @ code_stats (cmdStats c)
     @ (case insertedRecordId c of None \<Rightarrow> [] | Some rid \<Rightarrow> code_rid rid)"

lemma length_codes [simp]: "length (code_stats s) = 28" "length (code_rid rid) = 8"
  by (simp_all add: code_stats_def code_rid_def)

lemma encodeCommandResultPayload_iff:
  "encodeCommandResultPayload c = Inr bs \<longleftrightarrow> ok_command c \<and> bs = code_command c"
  by (auto simp: encodeCommandResultPayload_def ok_command_def code_command_def res_simps wire_rules
      puts_def newWriter_def split: option.splits)

lemma flag_bits:
  "(f :: 'a::len word) AND - 2 = 0 \<longleftrightarrow> f = 0 \<or> f = 1"
proof -
  have minus2: "- 2 = (NOT 1 :: 'a word)" by simp
  have "f = (f AND 1) OR (f AND NOT 1)" by (simp flip: bit.conj_disj_distrib)
  moreover have "f AND 1 = 0 \<or> f AND 1 = 1" by (simp add: and_one_eq mod2_eq_if)
  ultimately show ?thesis unfolding minus2 by auto
qed

lemma decodeCommandResultPayload_iff:
  "decodeCommandResultPayload bs = Inr c \<longleftrightarrow> ok_command c \<and> bs = code_command c"
proof
  assume "decodeCommandResultPayload bs = Inr c"
  then obtain flags m1 m2 m3 m4 m5 where
    t: "takes (newReader bs) (be_bytes 2 (encodeCommandKind (resCommand c))) m1"
    "takes m1 (be_bytes 2 (flags :: u16)) m2"
    "takes m2 (be_bytes 8 (affectedRows c)) m3" "takes m3 (code_stats (cmdStats c)) m4"
    and flags: "flags = 0 \<or> flags = 1" and fin: "rFinish m5 = Inr ()"
    and rid: "if flags = 1 then \<exists>rid. insertedRecordId c = Some rid \<and> recordIdIsValid rid \<and> takes m4 (code_rid rid) m5
      else insertedRecordId c = None \<and> m5 = m4"
    by (auto simp: decodeCommandResultPayload_def res_simps wire_rules decodeCommandKind_iff flag_bits split: if_splits)
  have ok: "ok_command c" and f: "flags = (if insertedRecordId c \<noteq> None then 1 else 0)"
    using rid flags by (auto simp: ok_command_def split: if_splits)
  have "takes m4 (case insertedRecordId c of None \<Rightarrow> [] | Some rid \<Rightarrow> code_rid rid) m5"
    using rid by (auto split: if_splits)
  with t have "takes (newReader bs) (code_command c) m5"
    unfolding code_command_def f [symmetric] by - ((rule takes_join, assumption)+, assumption)
  then show "ok_command c \<and> bs = code_command c" using takes_allD [OF _ fin] ok by simp
next
  assume a: "ok_command c \<and> bs = code_command c"
  obtain e where "takes (newReader bs) bs e" and e: "rFinish e = Inr ()"
    by (rule takes_allE)
  then have t: "takes (newReader bs) (code_command c) e" using a by simp
  show "decodeCommandResultPayload bs = Inr c"
    using t [unfolded code_command_def] a e
    by (cases "insertedRecordId c")
      (auto simp: decodeCommandResultPayload_def ok_command_def decodeCommandKind_iff [THEN iffD2]
        decodeStats_iff [THEN iffD2] decodeRecordId_iff [THEN iffD2] dest!: takes_split reads_back)
qed

section \<open>Row sets\<close>

definition code_strings :: "string list \<Rightarrow> byte list" where
  "code_strings ss = concat (map code_string ss)"

definition code_values :: "db_value list \<Rightarrow> byte list" where
  "code_values vs = concat (map code_value vs)"

primrec code_rows :: "record_id list \<Rightarrow> row_values list \<Rightarrow> byte list" where
  "code_rows rids [] = []"
| "code_rows rids (row # rows) =
     (case rids of [] \<Rightarrow> [] | rid # _ \<Rightarrow> code_rid rid)
     @ be_bytes 4 (of_nat (length row) :: u32) @ code_values row @ code_rows (tl rids) rows"

definition ok_rows :: "nat \<Rightarrow> record_id list \<Rightarrow> row_values list \<Rightarrow> bool" where
  "ok_rows n rids rows \<longleftrightarrow>
     (\<forall>row\<in>set rows. length row = n \<and> (\<forall>v\<in>set row. ok_value v)) \<and> (\<forall>rid\<in>set rids. recordIdIsValid rid)"

lemma encodeStrings_iff [wire_rules]:
  "encodeStrings ss w = Inr w' \<longleftrightarrow> (\<forall>s\<in>set ss. ok_string s) \<and> puts w (code_strings ss) w'"
proof (induction ss arbitrary: w)
  case (Cons s ss)
  then show ?case
    using puts_append [of w "code_string s" "code_strings ss" w']
    by (auto simp: res_simps wire_rules code_strings_def)
qed (auto simp: code_strings_def)

lemma encodeValues_iff [wire_rules]:
  "encodeValues vs w = Inr w' \<longleftrightarrow> (\<forall>v\<in>set vs. ok_value v) \<and> puts w (code_values vs) w'"
proof (induction vs arbitrary: w)
  case (Cons v vs)
  then show ?case
    using puts_append [of w "code_value v" "code_values vs" w']
    by (auto simp: res_simps wire_rules code_values_def)
qed (auto simp: code_values_def)

lemma decodeStrings_iff [wire_rules]:
  "decodeStrings n r = Inr (ss, r') \<longleftrightarrow>
     length ss = n \<and> (\<forall>s\<in>set ss. ok_string s) \<and> takes r (code_strings ss) r'"
proof (induction n arbitrary: r ss)
  case (Suc n)
  have "decodeStrings (Suc n) r = Inr (ss, r') \<longleftrightarrow> (\<exists>s t. ss = s # t \<and> length t = n \<and> ok_string s
      \<and> (\<forall>s\<in>set t. ok_string s) \<and> (\<exists>m. takes r (code_string s) m \<and> takes m (code_strings t) r'))"
    by (auto simp: res_simps wire_rules Suc.IH)
  then show ?case unfolding takes_append by (cases ss) (auto simp: code_strings_def)
qed (auto simp: code_strings_def)

lemma decodeValues_iff [wire_rules]:
  "decodeValues n r = Inr (vs, r') \<longleftrightarrow>
     length vs = n \<and> (\<forall>v\<in>set vs. ok_value v) \<and> takes r (code_values vs) r'"
proof (induction n arbitrary: r vs)
  case (Suc n)
  have "decodeValues (Suc n) r = Inr (vs, r') \<longleftrightarrow> (\<exists>v t. vs = v # t \<and> length t = n \<and> ok_value v
      \<and> (\<forall>v\<in>set t. ok_value v) \<and> (\<exists>m. takes r (code_value v) m \<and> takes m (code_values t) r'))"
    by (auto simp: res_simps wire_rules Suc.IH)
  then show ?case unfolding takes_append by (cases vs) (auto simp: code_values_def)
qed (auto simp: code_values_def)

lemma length_code_value: "1 \<le> length (code_value v)"
  by (cases v) auto

lemma length_code_values: "length vs \<le> length (code_values vs)"
proof (induction vs)
  case (Cons v vs)
  then show ?case using length_code_value [of v] by (simp add: code_values_def)
qed (simp add: code_values_def)

lemma length_code_rows: "length rows \<le> length (code_rows rids rows)"
proof (induction rows arbitrary: rids)
  case (Cons row rows)
  show ?case using Cons.IH [of "tl rids"] by simp
qed simp

lemma encodeRows_iff:
  assumes "rids = [] \<or> length rids = i + length rows"
  shows "encodeRows n rids i rows w = Inr w' \<longleftrightarrow>
     ok_rows n (drop i rids) rows \<and> puts w (code_rows (drop i rids) rows) w'"
  using assms
proof (induction rows arbitrary: i w)
  case (Cons row rows)
  let ?rid = "if rids \<noteq> [] then code_rid (rids ! i) else []"
  have shape: "(case drop i rids of [] \<Rightarrow> [] | rid # _ \<Rightarrow> code_rid rid) = ?rid"
    "tl (drop i rids) = drop (Suc i) rids"
    "rids \<noteq> [] \<Longrightarrow> set (drop i rids) = insert (rids ! i) (set (drop (Suc i) rids))"
    using Cons.prems by (auto simp: Cons_nth_drop_Suc [symmetric] tl_drop drop_Suc)
  have first: "(if rids \<noteq> [] then encodeRecordId (rids ! i) w else Inr w) = Inr m \<longleftrightarrow>
      (rids \<noteq> [] \<longrightarrow> recordIdIsValid (rids ! i)) \<and> puts w ?rid m" for m
    by (auto simp: wire_rules)
  have IH: "encodeRows n rids (Suc i) rows m = Inr w' \<longleftrightarrow>
      ok_rows n (drop (Suc i) rids) rows \<and> puts m (code_rows (drop (Suc i) rids) rows) w'" for m
    using Cons by auto
  have "encodeRows n rids i (row # rows) w = Inr w' \<longleftrightarrow>
      (rids \<noteq> [] \<longrightarrow> recordIdIsValid (rids ! i)) \<and> length row = n \<and> (\<forall>v\<in>set row. ok_value v)
      \<and> ok_rows n (drop (Suc i) rids) rows
      \<and> (\<exists>m. puts w ?rid m \<and> (\<exists>m'. puts m (be_bytes 4 (of_nat (length row) :: u32)) m'
        \<and> (\<exists>m''. puts m' (code_values row) m'' \<and> puts m'' (code_rows (drop (Suc i) rids) rows) w')))"
    unfolding encodeRows.simps res_bind_eq_Inr first by (auto simp: res_simps wire_rules IH)
  also have "\<dots> \<longleftrightarrow> ok_rows n (drop i rids) (row # rows) \<and> puts w (code_rows (drop i rids) (row # rows)) w'"
    unfolding puts_append code_rows.simps shape(1,2) using shape(3) by (auto simp: ok_rows_def)
  finally show ?case .
qed (auto simp: ok_rows_def)

lemma decodeRows_sound:
  assumes "flags = 0 \<or> flags = 1" and "decodeRows k n flags r = Inr ((rids, rows), r')"
  shows "length rows = k \<and> length rids = (if flags = 1 then k else 0) \<and> ok_rows (unat n) rids rows
     \<and> takes r (code_rows rids rows) r'"
  using assms(2)
proof (induction k arbitrary: r rids rows)
  case (Suc k)
  then obtain m hs m1 row m2 ts rest where
    first: "(if flags AND 1 \<noteq> 0 then res_bind (decodeRecordId r) (\<lambda>(rid, r). Inr ([rid], r))
      else Inr ([], r)) = Inr (hs, m)"
    and n: "takes m (be_bytes 4 n) m1" and row: "decodeValues (unat n) m1 = Inr (row, m2)"
    and rest: "decodeRows k n flags m2 = Inr ((ts, rest), r')"
    and out: "rids = hs @ ts" "rows = row # rest"
    by (auto simp: res_simps rUint_iff split: if_splits)
  have h: "takes r (case rids of [] \<Rightarrow> [] | rid # _ \<Rightarrow> code_rid rid) m" "tl rids = ts"
    "\<forall>rid\<in>set hs. recordIdIsValid rid" "length hs = (if flags = 1 then 1 else 0)"
    using first out(1) assms(1) Suc.IH [OF rest] by (auto simp: res_simps wire_rules split: if_splits)
  have v: "length row = unat n" "\<forall>v\<in>set row. ok_value v" "takes m1 (code_values row) m2"
    using row by (auto simp: wire_rules)
  have IH: "length rest = k" "length ts = (if flags = 1 then k else 0)" "ok_rows (unat n) ts rest"
    "takes m2 (code_rows ts rest) r'"
    using Suc.IH [OF rest] by auto
  have "takes m (be_bytes 4 (of_nat (length row) :: u32)) m1" using n v(1) by simp
  then have "takes r (code_rows rids rows) r'"
    unfolding out(2) code_rows.simps h(2) using h(1) v(3) IH(4)
    by - ((rule takes_join, assumption)+, assumption)
  then show ?case using h IH v out by (auto simp: ok_rows_def)
qed (auto simp: ok_rows_def)

lemma decodeRows_complete:
  assumes "flags = 0 \<or> flags = 1" and "length rids = (if flags = 1 then length rows else 0)"
    and "ok_rows (unat n) rids rows" and "takes r (code_rows rids rows) r'"
  shows "decodeRows (length rows) n flags r = Inr ((rids, rows), r')"
  using assms(2-4)
proof (induction rows arbitrary: r rids)
  case (Cons row rows)
  obtain m m1 m2 where t: "takes r (case rids of [] \<Rightarrow> [] | rid # _ \<Rightarrow> code_rid rid) m"
    "takes m (be_bytes 4 (of_nat (length row) :: u32)) m1" "takes m1 (code_values row) m2"
    "takes m2 (code_rows (tl rids) rows) r'"
    using Cons.prems(3) unfolding code_rows.simps takes_append [symmetric] by blast
  have ok: "ok_rows (unat n) (tl rids) rows" "length row = unat n" "\<forall>v\<in>set row. ok_value v"
    "\<forall>rid\<in>set rids. recordIdIsValid rid"
    using Cons.prems(2) by (cases rids, auto simp: ok_rows_def)+
  have first: "(if flags AND 1 \<noteq> 0 then res_bind (decodeRecordId r) (\<lambda>(rid, r). Inr ([rid], r))
      else Inr ([], r)) = Inr (take 1 rids, m)"
    using assms(1) t(1) ok(4) Cons.prems(1)
    by (cases rids) (auto simp: decodeRecordId_iff [THEN iffD2] split: if_splits)
  have "rUint32 m = Inr (n, m1)" using t(2) ok(2) by (simp add: reads_back)
  moreover have "decodeValues (unat n) m1 = Inr (row, m2)" using t(3) ok by (simp add: wire_rules)
  moreover have "unat n \<le> rRemaining m1"
    using takes_remaining [OF t(3)] length_code_values [of row] ok(2) by simp
  moreover have "decodeRows (length rows) n flags m2 = Inr ((tl rids, rows), r')"
    by (rule Cons.IH) (use Cons.prems(1) ok(1) t(4) in auto)
  moreover have "take 1 rids @ tl rids = rids" by (cases rids) auto
  ultimately show ?case by (simp add: first)
qed (auto split: if_splits)

definition ok_select :: "select_result \<Rightarrow> bool" where
  "ok_select s \<longleftrightarrow>
     length (resColumns s) \<le> MAX_WIRE_COLUMNS \<and> length (resRows s) \<le> MAX_WIRE_ROWS
     \<and> (resRecordIds s = [] \<or> length (resRecordIds s) = length (resRows s))
     \<and> (\<forall>c\<in>set (resColumns s). ok_string c)
     \<and> ok_rows (length (resColumns s)) (resRecordIds s) (resRows s)"

definition code_select :: "u32 \<Rightarrow> select_result \<Rightarrow> byte list" where
  "code_select flags s = be_bytes 4 (of_nat (length (resColumns s)) :: u32)
     @ be_bytes 8 (of_nat (length (resRows s)) :: u64) @ be_bytes 4 flags @ code_stats (selStats s)
     @ code_strings (resColumns s) @ code_rows (resRecordIds s) (resRows s)"

definition select_flags :: "select_result \<Rightarrow> u32" where
  "select_flags s = (if resRecordIds s = [] then 0 else FLAG_PRESENT)"

lemma encodeSelectResultPayload_iff:
  "encodeSelectResultPayload s = Inr bs \<longleftrightarrow>
     ok_select s \<and> bs = code_select (select_flags s) s \<and> length bs \<le> MAX_FRAME_PAYLOAD"
proof (cases "resRecordIds s = [] \<or> length (resRecordIds s) = length (resRows s)")
  case True
  then have rows: "encodeRows n (resRecordIds s) 0 (resRows s) w = Inr w' \<longleftrightarrow>
      ok_rows n (resRecordIds s) (resRows s) \<and> puts w (code_rows (resRecordIds s) (resRows s)) w'" for n w w'
    using encodeRows_iff [of "resRecordIds s" 0 "resRows s"] by simp
  show ?thesis
    using True by (auto simp: encodeSelectResultPayload_def ok_select_def code_select_def select_flags_def
        res_simps wire_rules rows puts_def newWriter_def not_less simp del: encodeRows.simps)
qed (auto simp: encodeSelectResultPayload_def ok_select_def)

lemma decodeSelectResultPayload_sound:
  assumes "decodeSelectResultPayload bs = Inr s"
  shows "ok_select s \<and> (\<exists>flags. bs = code_select flags s
     \<and> (flags = select_flags s \<or> resRows s = [] \<and> resRecordIds s = [] \<and> flags = 1))"
proof -
  obtain n k flags m1 m2 m3 m4 m5 e where
    t: "takes (newReader bs) (be_bytes 4 n) m1" "takes m1 (be_bytes 8 (k :: u64)) m2"
    "takes m2 (be_bytes 4 flags) m3" "takes m3 (code_stats (selStats s)) m4"
    "decodeStrings (unat n) m4 = Inr (resColumns s, m5)"
    "decodeRows (unat k) n flags m5 = Inr ((resRecordIds s, resRows s), e)"
    and fin: "rFinish e = Inr ()" and lim: "unat n \<le> MAX_WIRE_COLUMNS" "unat k \<le> MAX_WIRE_ROWS"
    and bits: "flags AND - 2 = 0"
    using assms by (auto simp: decodeSelectResultPayload_def res_simps rUint_iff decodeStats_iff
        not_less simp del: decodeRows.simps decodeStrings.simps split: if_splits)
  have flags: "flags = 0 \<or> flags = 1" using bits by (simp add: flag_bits)
  have names: "length (resColumns s) = unat n" "\<forall>c\<in>set (resColumns s). ok_string c"
    "takes m4 (code_strings (resColumns s)) m5"
    using t(5) by (simp_all add: decodeStrings_iff)
  have rows: "length (resRows s) = unat k" "length (resRecordIds s) = (if flags = 1 then unat k else 0)"
    "ok_rows (unat n) (resRecordIds s) (resRows s)" "takes m5 (code_rows (resRecordIds s) (resRows s)) e"
    using decodeRows_sound [OF flags t(6)] by auto
  have "takes (newReader bs) (be_bytes 4 n @ be_bytes 8 k @ be_bytes 4 flags @ code_stats (selStats s)
      @ code_strings (resColumns s) @ code_rows (resRecordIds s) (resRows s)) e"
    using t(1-4) names(3) rows(4) by - ((rule takes_join, assumption)+, assumption)
  then have "bs = code_select flags s"
    using takes_allD [OF _ fin] names(1) rows(1) by (simp add: code_select_def)
  moreover have "ok_select s" using names rows lim by (auto simp: ok_select_def split: if_splits)
  moreover have "flags = select_flags s \<or> resRows s = [] \<and> resRecordIds s = [] \<and> flags = 1"
    using flags rows(1,2) by (auto simp: select_flags_def split: if_splits)
  ultimately show ?thesis by blast
qed

lemma decodeSelectResultPayload_complete:
  assumes ok: "ok_select s" and flags: "flags = select_flags s \<or> resRows s = [] \<and> resRecordIds s = [] \<and> flags = 1"
  shows "decodeSelectResultPayload (code_select flags s) = Inr s"
proof -
  let ?bs = "code_select flags s"
  obtain e where e: "takes (newReader ?bs) ?bs e" and fin: "rFinish e = Inr ()" by (rule takes_allE)
  let ?n = "of_nat (length (resColumns s)) :: u32" and ?k = "of_nat (length (resRows s)) :: u64"
  obtain m1 m2 m3 m4 m5 where t: "takes (newReader ?bs) (be_bytes 4 ?n) m1" "takes m1 (be_bytes 8 ?k) m2"
    "takes m2 (be_bytes 4 flags) m3" "takes m3 (code_stats (selStats s)) m4"
    "takes m4 (code_strings (resColumns s)) m5" "takes m5 (code_rows (resRecordIds s) (resRows s)) e"
    using e unfolding code_select_def [of flags s] takes_append [symmetric] by blast
  have n: "unat ?n = length (resColumns s)" "unat ?k = length (resRows s)"
    using ok by (simp_all add: ok_select_def unat_u32_small unat_u64_small)
  have f: "flags = 0 \<or> flags = 1" using flags by (auto simp: select_flags_def split: if_splits)
  have len: "length (resRecordIds s) = (if flags = 1 then length (resRows s) else 0)"
    using ok flags by (cases "resRecordIds s = []") (auto simp: ok_select_def select_flags_def)
  have "decodeStrings (unat ?n) m4 = Inr (resColumns s, m5)"
    using t(5) ok by (simp add: decodeStrings_iff n ok_select_def)
  moreover have "decodeRows (unat ?k) ?n flags m5 = Inr ((resRecordIds s, resRows s), e)"
    unfolding n(2) by (rule decodeRows_complete [OF f len _ t(6)]) (use ok in \<open>simp add: n ok_select_def\<close>)
  moreover have "unat ?k \<le> rRemaining m5"
    using takes_remaining [OF t(6)] length_code_rows [of "resRows s" "resRecordIds s"] n(2) by simp
  moreover have "flags AND - 2 = 0" using f by auto
  moreover have "unat ?n \<le> MAX_WIRE_COLUMNS" "unat ?k \<le> MAX_WIRE_ROWS"
    using ok by (simp_all add: n ok_select_def)
  ultimately show ?thesis
    using t(1-4) fin unfolding decodeSelectResultPayload_def
    by (simp add: reads_back decodeStats_iff [THEN iffD2])
qed

section \<open>Error responses\<close>

fun ok_span :: "source_span option \<Rightarrow> bool" where
  "ok_span None = True"
| "ok_span (Some s) \<longleftrightarrow>
     srcLine (spanBegin s) \<in> {1..<2^32} \<and> srcColumn (spanBegin s) \<in> {1..<2^32}
     \<and> srcLine (spanEnd s) \<in> {1..<2^32} \<and> srcColumn (spanEnd s) \<in> {1..<2^32}
     \<and> srcOffset (spanBegin s) \<le> srcOffset (spanEnd s)"

fun code_span :: "source_span option \<Rightarrow> byte list" where
  "code_span None = []"
| "code_span (Some s) =
     be_bytes 8 (of_nat (srcOffset (spanBegin s)) :: u64) @ be_bytes 8 (of_nat (srcOffset (spanEnd s)) :: u64)
     @ be_bytes 4 (of_nat (srcLine (spanBegin s)) :: u32) @ be_bytes 4 (of_nat (srcColumn (spanBegin s)) :: u32)
     @ be_bytes 4 (of_nat (srcLine (spanEnd s)) :: u32) @ be_bytes 4 (of_nat (srcColumn (spanEnd s)) :: u32)"

definition ok_error :: "error_response \<Rightarrow> bool" where
  "ok_error e \<longleftrightarrow> ok_string (errMessage e) \<and> ok_span (errSpan e)"

definition code_error :: "error_response \<Rightarrow> byte list" where
  "code_error e = be_bytes 2 (errorCategoryId (errCategory e))
     @ be_bytes 2 (if errSpan e \<noteq> None then 1 else 0 :: u16)
     @ code_string (errMessage e) @ code_span (errSpan e)"

text \<open>The offsets of a span a 64-bit \<open>size_t\<close> can hold.\<close>

fun span_in_range :: "source_span option \<Rightarrow> bool" where
  "span_in_range None = True"
| "span_in_range (Some s) \<longleftrightarrow> srcOffset (spanBegin s) < 2^64 \<and> srcOffset (spanEnd s) < 2^64"

lemma knownErrorCategory_id [simp]: "knownErrorCategory (errorCategoryId c)"
  by (cases c) (simp_all add: knownErrorCategory_def)

lemma errorCategoryOf_id [simp]: "errorCategoryOf (errorCategoryId c) = c"
  by (cases c) (simp_all add: errorCategoryOf_def)

lemma errorCategoryId_of: "knownErrorCategory v \<Longrightarrow> errorCategoryId (errorCategoryOf v) = v"
proof -
  assume "knownErrorCategory v"
  then have "unat v \<in> {1..7}" by (simp add: knownErrorCategory_def word_le_nat_alt)
  then have "unat v \<in> {1, 2, 3, 4, 5, 6, 7}" by auto
  then have "v \<in> {1, 2, 3, 4, 5, 6, 7}" by (auto simp: word_unat_eq_iff)
  then show ?thesis by (auto simp: errorCategoryOf_def)
qed

lemma length_code_error: "ok_error e \<Longrightarrow> length (code_error e) \<le> MAX_FRAME_PAYLOAD"
  by (cases "errSpan e") (simp_all add: code_error_def code_string_def ok_error_def ok_string_def)

lemma checkedLocation_iff: "checkedLocation v = Inr x \<longleftrightarrow> v < 2 ^ 32 \<and> x = of_nat v"
  by (auto simp: checkedLocation_def)

lemma encodeErrorResponsePayload_iff:
  "encodeErrorResponsePayload e = Inr bs \<longleftrightarrow> ok_error e \<and> bs = code_error e"
proof (cases "errSpan e")
  case None
  then show ?thesis
    by (auto simp: encodeErrorResponsePayload_def ok_error_def code_error_def res_simps wire_rules
        puts_def newWriter_def code_string_def ok_string_def)
next
  case (Some s)
  then show ?thesis
    by (auto simp: encodeErrorResponsePayload_def ok_error_def code_error_def res_simps wire_rules
        puts_def newWriter_def code_string_def ok_string_def checkedLocation_iff checkedOffset_def)
qed

lemma u32_unat_bounds: "unat (v :: u32) < 2 ^ 32" "v \<noteq> 0 \<Longrightarrow> 1 \<le> unat v"
  using unsigned_less [of v, where ?'a = nat] by (auto simp: Suc_le_eq unat_gt_0)

lemma readSpan_sound:
  assumes "readSpan r = Inr (span, r')"
  shows "span \<noteq> None \<and> ok_span span \<and> span_in_range span \<and> takes r (code_span span) r'"
proof -
  obtain a b c d e f m1 m2 m3 m4 m5 where t: "takes r (be_bytes 8 (a :: u64)) m1" "takes m1 (be_bytes 8 (b :: u64)) m2"
    "takes m2 (be_bytes 4 (c :: u32)) m3" "takes m3 (be_bytes 4 (d :: u32)) m4" "takes m4 (be_bytes 4 (e :: u32)) m5"
    "takes m5 (be_bytes 4 (f :: u32)) r'"
    and nz: "c \<noteq> 0" "d \<noteq> 0" "e \<noteq> 0" "f \<noteq> 0" "a \<le> b"
    and span: "span = Some \<lparr>spanBegin = \<lparr>srcOffset = unat a, srcLine = unat c, srcColumn = unat d\<rparr>,
      spanEnd = \<lparr>srcOffset = unat b, srcLine = unat e, srcColumn = unat f\<rparr>\<rparr>"
    using assms by (auto simp: readSpan_def res_simps wire_rules decodeOffset_def not_less split: if_splits)
  have "takes r (be_bytes 8 a @ be_bytes 8 b @ be_bytes 4 c @ be_bytes 4 d @ be_bytes 4 e @ be_bytes 4 f) r'"
    using t by - ((rule takes_join, assumption)+, assumption)
  then have "takes r (code_span span) r'" by (simp add: span)
  moreover have "unat a < 2 ^ 64" "unat b < 2 ^ 64"
    using unsigned_less [of a, where ?'a = nat] unsigned_less [of b, where ?'a = nat] by simp_all
  ultimately show ?thesis
    using nz u32_unat_bounds [of c] u32_unat_bounds [of d] u32_unat_bounds [of e] u32_unat_bounds [of f]
    by (simp add: span word_le_nat_alt)
qed

lemma readSpan_complete:
  assumes "ok_span (Some s)" and "span_in_range (Some s)" and "takes r (code_span (Some s)) r'"
  shows "readSpan r = Inr (Some s, r')"
proof -
  let ?o = "\<lambda>n. of_nat n :: u64" and ?l = "\<lambda>n. of_nat n :: u32"
  let ?b = "spanBegin s" and ?e = "spanEnd s"
  obtain m1 m2 m3 m4 m5 where t: "takes r (be_bytes 8 (?o (srcOffset ?b))) m1" "takes m1 (be_bytes 8 (?o (srcOffset ?e))) m2"
    "takes m2 (be_bytes 4 (?l (srcLine ?b))) m3" "takes m3 (be_bytes 4 (?l (srcColumn ?b))) m4"
    "takes m4 (be_bytes 4 (?l (srcLine ?e))) m5" "takes m5 (be_bytes 4 (?l (srcColumn ?e))) r'"
    using assms(3) unfolding code_span.simps takes_append [symmetric] by blast
  have l: "unat (?l n) = n \<and> ?l n \<noteq> 0" if "n \<in> {1..<2^32}" for n
    using that unat_u32_small [of n] by (auto simp: word_unat_eq_iff)
  have o: "unat (?o n) = n" if "n < 2 ^ 64" for n
    using that unat_u64_small [of n] by simp
  have "readSpan r = Inr (Some \<lparr>spanBegin = \<lparr>srcOffset = srcOffset ?b, srcLine = srcLine ?b, srcColumn = srcColumn ?b\<rparr>,
      spanEnd = \<lparr>srcOffset = srcOffset ?e, srcLine = srcLine ?e, srcColumn = srcColumn ?e\<rparr>\<rparr>, r')"
    using t assms(1,2) by (simp add: readSpan_def reads_back decodeOffset_def l o word_less_nat_alt)
  then show ?thesis by simp
qed

lemma decodeErrorResponsePayload_iff:
  "decodeErrorResponsePayload bs = Inr e \<longleftrightarrow> ok_error e \<and> span_in_range (errSpan e) \<and> bs = code_error e"
proof
  assume "decodeErrorResponsePayload bs = Inr e"
  then obtain cat flags m1 m2 m3 m4 where t: "takes (newReader bs) (be_bytes 2 cat) m1"
    "takes m1 (be_bytes 2 (flags :: u16)) m2" "takes m2 (code_string (errMessage e)) m3"
    and known: "knownErrorCategory cat" "errCategory e = errorCategoryOf cat" and bits: "flags AND - 2 = 0"
    and ok: "ok_string (errMessage e)" and fin: "rFinish m4 = Inr ()"
    and span: "(if flags AND 1 \<noteq> 0 then readSpan m3 else Inr (None, m3)) = Inr (errSpan e, m4)"
    unfolding decodeErrorResponsePayload_def
    by (auto simp: res_bind_eq_Inr wire_rules simp del: res_bind_throw_if if_split)
  have flags: "flags = (if errSpan e \<noteq> None then 1 else 0)" and s: "ok_span (errSpan e)"
    "span_in_range (errSpan e)" "takes m3 (code_span (errSpan e)) m4"
    using bits span by (auto simp: flag_bits dest: readSpan_sound split: if_splits)
  have cat: "errorCategoryId (errCategory e) = cat" using known by (simp add: errorCategoryId_of)
  have "takes (newReader bs) (code_error e) m4"
    unfolding code_error_def cat flags [symmetric] using t s(3)
    by - ((rule takes_join, assumption)+, assumption)
  then show "ok_error e \<and> span_in_range (errSpan e) \<and> bs = code_error e"
    using takes_allD [OF _ fin] ok s by (simp add: ok_error_def)
next
  assume a: "ok_error e \<and> span_in_range (errSpan e) \<and> bs = code_error e"
  obtain en where en: "takes (newReader (code_error e)) (code_error e) en" "rFinish en = Inr ()" by (rule takes_allE)
  then obtain m1 m2 m3 where t: "takes (newReader (code_error e)) (be_bytes 2 (errorCategoryId (errCategory e))) m1"
    "takes m1 (be_bytes 2 (if errSpan e \<noteq> None then 1 else 0 :: u16)) m2"
    "takes m2 (code_string (errMessage e)) m3" "takes m3 (code_span (errSpan e)) en"
    unfolding code_error_def [of e] takes_append [symmetric] by blast
  have "rString m2 = Inr (errMessage e, m3)" using t(3) a by (simp add: wire_rules ok_error_def)
  moreover have "(if (if errSpan e \<noteq> None then 1 else 0 :: u16) AND 1 \<noteq> 0 then readSpan m3 else Inr (None, m3))
      = Inr (errSpan e, en)"
    using a t(4) readSpan_complete [of _ m3 en] by (cases "errSpan e") (auto simp: ok_error_def)
  ultimately show "decodeErrorResponsePayload bs = Inr e"
    unfolding decodeErrorResponsePayload_def
    using a t(1,2) en(2) by (simp add: reads_back split del: if_split) simp
qed

section \<open>Properties\<close>

lemma encodeQueryResultFrame_payload:
  assumes "encodeQueryResultFrame rid res = Inr f"
  obtains t bytes where "f = frameOf t rid bytes" and "length bytes \<le> MAX_FRAME_PAYLOAD"
    and "decodeQueryResultFrame f = Inr res"
proof (cases res)
  case (CommandRes c)
  then obtain bytes where b: "encodeCommandResultPayload c = Inr bytes" "f = frameOf CommandResultMsg rid bytes"
    using assms by (auto simp: encodeQueryResultFrame_def res_simps)
  then have "length bytes \<le> MAX_FRAME_PAYLOAD"
    by (auto simp: encodeCommandResultPayload_iff code_command_def split: option.splits)
  with b CommandRes that show ?thesis
    by (auto simp: decodeQueryResultFrame_def frameOf_def unat_u32_small encodeCommandResultPayload_iff
        decodeCommandResultPayload_iff [THEN iffD2])
next
  case (SelectRes s)
  then obtain bytes where b: "encodeSelectResultPayload s = Inr bytes" "f = frameOf SelectResultMsg rid bytes"
    using assms by (auto simp: encodeQueryResultFrame_def res_simps)
  then have "length bytes \<le> MAX_FRAME_PAYLOAD" "decodeSelectResultPayload bytes = Inr s"
    by (auto simp: encodeSelectResultPayload_iff intro: decodeSelectResultPayload_complete)
  with b SelectRes that show ?thesis
    by (auto simp: decodeQueryResultFrame_def frameOf_def unat_u32_small)
qed

text \<open>
  C23: a query result the server can encode reaches the client unchanged: the frame has a byte
  encoding, the client decodes those bytes to the same frame, with the same request id, and the
  frame to the same result - every row, record id, column name and counter.
\<close>

theorem wire_result_roundtrip:
  assumes "encodeQueryResultFrame rid res = Inr f"
  shows "\<exists>bytes. encodeFrame f = Inr bytes \<and> length bytes \<le> FRAME_HEADER_SIZE + MAX_FRAME_PAYLOAD
     \<and> decodeFrame bytes = Inr f \<and> requestId (frameHeader f) = rid
     \<and> decodeQueryResultFrame f = Inr res"
proof -
  obtain t bytes where f: "f = frameOf t rid bytes" and b: "length bytes \<le> MAX_FRAME_PAYLOAD"
    and d: "decodeQueryResultFrame f = Inr res"
    using assms by (rule encodeQueryResultFrame_payload)
  have "encodeFrame f = Inr (code_header (frameHeader f) @ bytes)"
    unfolding f using b by (rule encodeFrame_frameOf)
  then show ?thesis using b d decodeFrame_iff [of _ f] by (auto simp: f frameOf_def)
qed

definition sampleSelect :: select_result where
  "sampleSelect = \<lparr>resColumns = [''id'', ''name''],
     resRows = [[VUint 7, VString ''ada''], [VUint 9, VNull]],
     resRecordIds = [\<lparr>pageId = 3, slotId = 0\<rparr>, \<lparr>pageId = 3, slotId = 1\<rparr>],
     selStats = \<lparr>statAccessPath = HeapScan, rowsExamined = 5, rowsReturned = 2, indexLookups = 0\<rparr>\<rparr>"

lemma sampleSelect_ok: "\<exists>f. encodeQueryResultFrame 42 (SelectRes sampleSelect) = Inr f"
proof -
  have "ok_select sampleSelect"
    by (simp add: ok_select_def sampleSelect_def ok_string_def ok_rows_def recordIdIsValid_def)
  moreover have "length (code_select (select_flags sampleSelect) sampleSelect) \<le> MAX_FRAME_PAYLOAD"
    by (simp add: code_select_def sampleSelect_def code_strings_def code_string_def code_values_def)
  ultimately have "encodeSelectResultPayload sampleSelect = Inr (code_select (select_flags sampleSelect) sampleSelect)"
    by (simp add: encodeSelectResultPayload_iff)
  then show ?thesis by (simp add: encodeQueryResultFrame_def)
qed

theorem wire_result_roundtrip_witness:
  "\<exists>f bytes. encodeQueryResultFrame 42 (SelectRes sampleSelect) = Inr f \<and> encodeFrame f = Inr bytes
     \<and> decodeFrame bytes = Inr f \<and> decodeQueryResultFrame f = Inr (SelectRes sampleSelect)"
  using sampleSelect_ok wire_result_roundtrip [of 42 "SelectRes sampleSelect"] by blast

text \<open>
  C17: the decoders accept exactly what the encoders produce. A byte sequence decodes to a frame,
  a command result or an error response just when encoding that value gives the bytes back (error
  spans within the range of \<open>size_t\<close>); a row set of frame size likewise, except that the decoder
  also accepts the record-id flag on an empty row set, where the encoder leaves it clear.
\<close>

theorem wire_decoders_exact:
  "(decodeFrame bytes = Inr frame \<longleftrightarrow> encodeFrame frame = Inr bytes)
   \<and> (decodeCommandResultPayload bytes = Inr c \<longleftrightarrow> encodeCommandResultPayload c = Inr bytes)
   \<and> (decodeErrorResponsePayload bytes = Inr e \<longleftrightarrow>
        encodeErrorResponsePayload e = Inr bytes \<and> span_in_range (errSpan e))
   \<and> (decodeSelectResultPayload bytes = Inr s \<and> length bytes \<le> MAX_FRAME_PAYLOAD \<longleftrightarrow>
        encodeSelectResultPayload s = Inr bytes
        \<or> ok_select s \<and> resRows s = [] \<and> resRecordIds s = [] \<and> bytes = code_select FLAG_PRESENT s
          \<and> length bytes \<le> MAX_FRAME_PAYLOAD)"
proof (intro conjI)
  show "decodeSelectResultPayload bytes = Inr s \<and> length bytes \<le> MAX_FRAME_PAYLOAD \<longleftrightarrow>
        encodeSelectResultPayload s = Inr bytes
        \<or> ok_select s \<and> resRows s = [] \<and> resRecordIds s = [] \<and> bytes = code_select FLAG_PRESENT s
          \<and> length bytes \<le> MAX_FRAME_PAYLOAD"
    using decodeSelectResultPayload_sound [of bytes s] decodeSelectResultPayload_complete [of s]
    by (auto simp: encodeSelectResultPayload_iff)
qed (auto simp: decodeFrame_iff decodeCommandResultPayload_iff encodeCommandResultPayload_iff
      decodeErrorResponsePayload_iff encodeErrorResponsePayload_iff)

text \<open>
  C24: a SQL request within the byte limit reaches the server verbatim, and a longer one is refused
  with the request id on either side of the connection: by the client before it sends and by the
  server for any frame that carries it.
\<close>

theorem wire_request_roundtrip:
  "(if length source \<le> MAX_SQL_BYTES
    then \<exists>f bytes. makeExecuteSqlFrame rid source = Inr f \<and> encodeFrame f = Inr bytes
           \<and> decodeFrame bytes = Inr f \<and> decodeExecuteSqlPayload f = Inr source
    else makeExecuteSqlFrame rid source
           = Inl (ProtocolError ''SQL request exceeds protocol SQL byte limit'' (Some rid))
         \<and> (length source < 2 ^ 32 \<longrightarrow>
            decodeExecuteSqlPayload (frameOf ExecuteSql rid (map char_byte source))
              = Inl (ProtocolError ''SQL request exceeds protocol SQL byte limit'' (Some rid))))"
proof (cases "length source \<le> MAX_SQL_BYTES")
  case True
  let ?f = "frameOf ExecuteSql rid (map char_byte source)"
  have "encodeFrame ?f = Inr (code_header (frameHeader ?f) @ map char_byte source)"
    using True by (intro encodeFrame_frameOf) simp
  moreover have "decodeExecuteSqlPayload ?f = Inr source"
    using True by (simp add: decodeExecuteSqlPayload_def frameOf_def unat_u32_small)
  ultimately show ?thesis
    using True by (auto simp: makeExecuteSqlFrame_def decodeFrame_iff)
next
  case False
  then show ?thesis
    by (simp add: makeExecuteSqlFrame_def decodeExecuteSqlPayload_def frameOf_def unat_u32_small)
qed

theorem wire_request_roundtrip_witness:
  "\<exists>f bytes. makeExecuteSqlFrame 5 ''SELECT * FROM t'' = Inr f \<and> encodeFrame f = Inr bytes
     \<and> decodeFrame bytes = Inr f \<and> decodeExecuteSqlPayload f = Inr ''SELECT * FROM t''"
  using wire_request_roundtrip [of "''SELECT * FROM t''" 5] by simp

end
