(* ===== verification/Disk_Manager.thy ===== *)
theory Disk_Manager
  imports Page_Formats
begin

text \<open>
  The database file (\<open>include/minidb/disk_manager.hpp\<close>, \<open>src/disk_manager.cpp\<close>).

  \<open>dFile\<close> is the content of the file as the stream and the operating system show it, \<open>dStable\<close>
  what the last successful \<open>fsync\<close> made durable: the source never reads it, and a crash may leave
  anything between the two. The outcome of each call of the operating system is an input:
  \<open>dScript\<close> lists the coming ones, \<open>Accepted\<close> or \<open>Refused n text\<close>, a failure after \<open>n\<close> bytes whose
  \<open>strerror\<close> text is \<open>text\<close>; an exhausted script accepts. A refused write has written a prefix of
  the page. \<open>dOpen\<close> tells whether the stream is open: a stream that could not be reopened refuses
  everything. The fail points of the source do nothing unless a test arms them, and are left out, as
  is the mutex: an operation is one atomic step.

  The lemmas give the contract of the file as a sequence of pages, that the write frontier tells
  the truth (nothing pending means everything written is durable) and that a failed write
  closes the file to writing.
\<close>

section \<open>State\<close>

record writeback_stats =
  physicalWriteEpoch :: u64
  synchronizedWriteEpoch :: u64
  databaseSyncsCompleted :: u64
  databaseSyncFailures :: u64
  writeFailure :: bool
  initialSyncRequired :: bool

definition pending :: "writeback_stats \<Rightarrow> bool" where
  "pending w \<longleftrightarrow> writeFailure w \<or> initialSyncRequired w
     \<or> physicalWriteEpoch w \<noteq> synchronizedWriteEpoch w"

definition newWriteback :: writeback_stats where
  "newWriteback = \<lparr>physicalWriteEpoch = 0, synchronizedWriteEpoch = 0, databaseSyncsCompleted = 0,
     databaseSyncFailures = 0, writeFailure = False, initialSyncRequired = True\<rparr>"

datatype io_outcome = Accepted | Refused nat string

record disk =
  dPath :: string
  dFile :: "byte list"
  dStable :: "byte list"
  dOpen :: bool
  dPageCount :: u32
  dHeader :: database_header
  dWriteback :: writeback_stats
  dScript :: "io_outcome list"

definition nextOutcome :: "disk \<Rightarrow> io_outcome \<times> disk" where
  "nextOutcome d = (case dScript d of [] \<Rightarrow> (Accepted, d) | x # xs \<Rightarrow> (x, d\<lparr>dScript := xs\<rparr>))"

text \<open>Writing at an offset of the file; a hole before it reads as zeros.\<close>

definition writeAt :: "byte list \<Rightarrow> nat \<Rightarrow> byte list \<Rightarrow> byte list" where
  "writeAt bytes offset chunk = overwrite (bytes @ replicate (offset - length bytes) 0) offset chunk"

definition streamWrite :: "nat \<Rightarrow> byte list \<Rightarrow> disk \<Rightarrow> bool \<times> disk" where
  "streamWrite offset chunk d = (if \<not> dOpen d then (False, d) else case nextOutcome d of
     (Accepted, d) \<Rightarrow> (True, d\<lparr>dFile := writeAt (dFile d) offset chunk\<rparr>)
   | (Refused n _, d) \<Rightarrow> (False, d\<lparr>dFile := writeAt (dFile d) offset (take n chunk)\<rparr>))"

definition streamRead :: "nat \<Rightarrow> nat \<Rightarrow> disk \<Rightarrow> byte list \<times> disk" where
  "streamRead offset count d = (if \<not> dOpen d then ([], d) else case nextOutcome d of
     (Accepted, d) \<Rightarrow> (subspan (dFile d) offset count, d)
   | (Refused n _, d) \<Rightarrow> (take n (subspan (dFile d) offset count), d))"

text \<open>Any other call: opening a stream or a descriptor, synchronising, truncating.\<close>

definition systemCall :: "disk \<Rightarrow> (string + unit) \<times> disk" where
  "systemCall d = (case nextOutcome d of
     (Accepted, d) \<Rightarrow> (Inr (), d)
   | (Refused _ message, d) \<Rightarrow> (Inl message, d))"

definition streamFlush :: "disk \<Rightarrow> bool \<times> disk" where
  "streamFlush d = (if \<not> dOpen d then (False, d) else case systemCall d of
     (Inr _, d) \<Rightarrow> (True, d) | (Inl _, d) \<Rightarrow> (False, d))"

abbreviation setWriteback :: "(writeback_stats \<Rightarrow> writeback_stats) \<Rightarrow> disk \<Rightarrow> disk" where
  "setWriteback f d \<equiv> d\<lparr>dWriteback := f (dWriteback d)\<rparr>"

section \<open>Writing\<close>

definition requireWritable :: "disk \<Rightarrow> unit res" where
  "requireWritable d = throw_if (writeFailure (dWriteback d))
     (RuntimeError ''Database physical write failed; restart is required'')"

definition requireWriteEpochAvailable :: "disk \<Rightarrow> unit res" where
  "requireWriteEpochAvailable d =
     res_bind (requireWritable d) (\<lambda>_.
     throw_if (physicalWriteEpoch (dWriteback d) = 0xFFFFFFFFFFFFFFFF)
       (OverflowError ''Database physical write epoch is exhausted''))"

definition writePageBytes :: "page_id \<Rightarrow> page \<Rightarrow> bool \<Rightarrow> (disk, unit) action" where
  "writePageBytes pid page flushStream d = (case requireWriteEpochAvailable d of
     Inl e \<Rightarrow> (Inl e, d)
   | Inr _ \<Rightarrow>
       (let (written, d1) = streamWrite (unat pid * PAGE_SIZE) page d;
            (flushed, d2) = (if flushStream \<and> written then streamFlush d1 else (written, d1))
        in if \<not> flushed
           then (Inl (RuntimeError ''Failed to write database page''),
                 setWriteback (\<lambda>w. w\<lparr>writeFailure := True\<rparr>) d2)
           else (Inr (), setWriteback (\<lambda>w. w\<lparr>physicalWriteEpoch := physicalWriteEpoch w + 1\<rparr>) d2)))"

definition persistDatabaseHeader :: "database_header \<Rightarrow> (disk, unit) action" where
  "persistDatabaseHeader header =
     act_bind (act_lift (\<lambda>_. serializeDatabaseHeader header (replicate PAGE_SIZE 0))) (\<lambda>page.
     writePageBytes METADATA_PAGE_ID page True)"

section \<open>Reading\<close>

definition loadAndValidateDatabaseHeader :: "(disk, unit) action" where
  "loadAndValidateDatabaseHeader d =
     (let (bytes, d) = streamRead 0 PAGE_SIZE d in
      if length bytes \<noteq> PAGE_SIZE
      then (Inl (RuntimeError ''Failed to read database metadata page.''), d)
      else (case deserializeDatabaseHeader bytes of
          Inl e \<Rightarrow> (Inl e, d) | Inr h \<Rightarrow> (Inr (), d\<lparr>dHeader := h\<rparr>)))"

definition requireExistingDataPage :: "page_id \<Rightarrow> disk \<Rightarrow> unit res" where
  "requireExistingDataPage pid d =
     res_bind (throw_if (pid = METADATA_PAGE_ID)
       (InvalidArgument ''Page 0 is reserved for database metadata.'')) (\<lambda>_.
     throw_if (pid = INVALID_PAGE_ID \<or> pid \<ge> dPageCount d) (OutOfRange ''Page ID does not exist.''))"

definition requireExistingPhysicalPage :: "page_id \<Rightarrow> disk \<Rightarrow> unit res" where
  "requireExistingPhysicalPage pid d =
     throw_if (pid = INVALID_PAGE_ID \<or> pid \<ge> dPageCount d)
       (OutOfRange ''Physical PageId does not exist.'')"

definition readBytesOf :: "string \<Rightarrow> page_id \<Rightarrow> (disk, page) action" where
  "readBytesOf message pid d =
     (let (bytes, d) = streamRead (unat pid * PAGE_SIZE) PAGE_SIZE d in
      if length bytes \<noteq> PAGE_SIZE then (Inl (RuntimeError message), d) else (Inr bytes, d))"

definition readPage :: "page_id \<Rightarrow> (disk, page) action" where
  "readPage pid =
     act_bind (act_lift (requireExistingDataPage pid)) (\<lambda>_.
     readBytesOf ''Failed to read full page from disk.'' pid)"

definition readPhysicalPage :: "page_id \<Rightarrow> (disk, page) action" where
  "readPhysicalPage pid =
     act_bind (act_lift (requireExistingPhysicalPage pid)) (\<lambda>_.
     readBytesOf ''Failed to read full physical page from disk.'' pid)"

section \<open>Opening\<close>

definition openOrCreate :: "bool \<Rightarrow> (disk, unit) action" where
  "openOrCreate existing d =
     (let (created, d) = (if existing then (Inr (), d) else systemCall d) in
      case created of
        Inl _ \<Rightarrow> (Inl (RuntimeError (''Could not create database file: '' @ dPath d)), d)
      | Inr _ \<Rightarrow> (case systemCall d of
            (Inl _, d) \<Rightarrow> (Inl (RuntimeError (''Could not open database file: '' @ dPath d)), d)
          | (Inr _, d) \<Rightarrow> (Inr (), d\<lparr>dOpen := True\<rparr>)))"

definition initializeDatabase :: "(disk, unit) action" where
  "initializeDatabase =
     act_bind (act_modify (\<lambda>d. d\<lparr>dHeader := makeCurrentDatabaseHeader, dPageCount := 1\<rparr>)) (\<lambda>_ d.
     persistDatabaseHeader (dHeader d) d)"

definition DiskManager :: "(disk, unit) action" where
  "DiskManager =
     act_bind (\<lambda>d. case systemCall d of
         (Inl _, d) \<Rightarrow> (Inl (RuntimeError ''Could not determine database file size.''), d)
       | (Inr _, d) \<Rightarrow> (Inr (length (dFile d)), d)) (\<lambda>bytes.
     if bytes = 0 then initializeDatabase
     else if bytes mod PAGE_SIZE \<noteq> 0
     then act_throw (RuntimeError
       ''Database file is corrupted: file size is not a multiple of PAGE_SIZE.'')
     else if bytes div PAGE_SIZE > 0xFFFFFFFF
     then act_throw (RuntimeError ''Database file contains too many pages.'')
     else act_bind (act_modify (\<lambda>d. d\<lparr>dPageCount := of_nat (bytes div PAGE_SIZE)\<rparr>)) (\<lambda>_.
       loadAndValidateDatabaseHeader))"

text \<open>
  The constructor on a file with the given content (none if it does not exist). The members have
  their default values first; what earlier processes wrote may not be durable.
\<close>

definition openDisk ::
  "string \<Rightarrow> byte list option \<Rightarrow> byte list \<Rightarrow> io_outcome list \<Rightarrow> unit res \<times> disk"
where
  "openDisk path content durable script =
     act_bind (openOrCreate (content \<noteq> None)) (\<lambda>_. DiskManager)
       \<lparr>dPath = path, dFile = (case content of None \<Rightarrow> [] | Some bytes \<Rightarrow> bytes), dStable = durable,
        dOpen = False, dPageCount = 0,
        dHeader = makeCurrentDatabaseHeader, dWriteback = newWriteback, dScript = script\<rparr>"

section \<open>Page operations\<close>

definition writePage :: "page_id \<Rightarrow> page \<Rightarrow> (disk, unit) action" where
  "writePage pid page =
     act_bind (act_lift (requireExistingDataPage pid)) (\<lambda>_. writePageBytes pid page True)"

definition appendPageAt :: "page_id \<Rightarrow> (disk, page_id) action" where
  "appendPageAt expectedPageId =
     act_bind (act_lift (\<lambda>d. throw_if (expectedPageId \<noteq> dPageCount d)
       (LogicError ''Physical extent changed after page reservation''))) (\<lambda>_.
     act_bind (act_lift (\<lambda>d. throw_if (dPageCount d = INVALID_PAGE_ID)
       (OverflowError ''Database has exhausted the available page IDs.''))) (\<lambda>_.
     act_bind (act_lift (\<lambda>d. Inr (dPageCount d))) (\<lambda>pid.
     act_bind (writePageBytes pid (replicate PAGE_SIZE 0) True) (\<lambda>_.
     act_bind (act_modify (\<lambda>d. d\<lparr>dPageCount := dPageCount d + 1\<rparr>)) (\<lambda>_.
     act_return pid)))))"

definition appendPage :: "(disk, page_id) action" where
  "appendPage d = appendPageAt (dPageCount d) d"

definition flushDisk :: "(disk, unit) action" where
  "flushDisk =
     act_bind (act_lift requireWritable) (\<lambda>_ d. case streamFlush d of
       (True, d) \<Rightarrow> (Inr (), d)
     | (False, d) \<Rightarrow> (Inl (RuntimeError ''Failed to flush database file.''),
                     setWriteback (\<lambda>w. w\<lparr>writeFailure := True\<rparr>) d))"

text \<open>The body of \<open>sync\<close>'s \<open>try\<close> block: flush, open a descriptor, \<open>fsync\<close>, advance the frontier.\<close>

definition fsyncDisk :: "(disk, unit) action" where
  "fsyncDisk =
     act_bind flushDisk (\<lambda>_ d. case systemCall d of
       (Inl message, d) \<Rightarrow> (Inl (RuntimeError (''Could not open database for fsync: '' @ message)), d)
     | (Inr _, d) \<Rightarrow> (case systemCall d of
           (Inl message, d) \<Rightarrow> (Inl (RuntimeError (''Could not fsync database: '' @ message)), d)
         | (Inr _, d) \<Rightarrow> (Inr (), setWriteback (\<lambda>w.
               w\<lparr>synchronizedWriteEpoch := physicalWriteEpoch w, initialSyncRequired := False,
                 databaseSyncsCompleted := databaseSyncsCompleted w + 1\<rparr>)
               (d\<lparr>dStable := dFile d\<rparr>))))"

definition sync :: "(disk, unit) action" where
  "sync d = (case fsyncDisk d of
     (Inr _, d) \<Rightarrow> (Inr (), d)
   | (Inl e, d) \<Rightarrow> (Inl e, setWriteback (\<lambda>w.
         w\<lparr>databaseSyncFailures := databaseSyncFailures w + 1\<rparr>) d))"

definition syncPendingWritebacks :: "(disk, bool) action" where
  "syncPendingWritebacks =
     act_bind (act_lift requireWritable) (\<lambda>_ d.
     if \<not> pending (dWriteback d) then (Inr False, d)
     else act_bind sync (\<lambda>_. act_return True) d)"

section \<open>Recovery\<close>

text \<open>
  The loop that extends the file up to a page. Each successful \<open>appendPage\<close> adds one page, so
  \<open>pid + 1\<close> rounds are enough; \<open>extendTo_ok\<close> shows the fuel never runs out.
\<close>

fun extendTo :: "nat \<Rightarrow> page_id \<Rightarrow> (disk, unit) action" where
  "extendTo 0 pid d = (Inr (), d)"
| "extendTo (Suc fuel) pid d =
     (if dPageCount d \<le> pid then act_bind appendPage (\<lambda>_. extendTo fuel pid) d else (Inr (), d))"

definition writePhysicalPage :: "page_id \<Rightarrow> page \<Rightarrow> (disk, unit) action" where
  "writePhysicalPage pid page =
     act_bind (act_lift (\<lambda>_. throw_if (pid = INVALID_PAGE_ID)
       (InvalidArgument ''Cannot physically write INVALID_PAGE_ID.''))) (\<lambda>_.
     act_bind (act_lift (\<lambda>d. if pid = METADATA_PAGE_ID then deserializeDatabaseHeader page
       else Inr (dHeader d))) (\<lambda>updatedHeader.
     act_bind (extendTo (unat pid + 1) pid) (\<lambda>_.
     act_bind (writePageBytes pid page False) (\<lambda>_.
     act_modify (\<lambda>d. if pid = METADATA_PAGE_ID then d\<lparr>dHeader := updatedHeader\<rparr> else d)))))"

definition reopenFile :: "(disk, unit) action" where
  "reopenFile d = (case systemCall d of
     (Inl _, d) \<Rightarrow> (Inl (RuntimeError (''Could not reopen database file: '' @ dPath d)),
                   d\<lparr>dOpen := False\<rparr>)
   | (Inr _, d) \<Rightarrow> (Inr (), d))"

definition resizeFile :: "nat \<Rightarrow> byte list \<Rightarrow> byte list" where
  "resizeFile n bytes = take n bytes @ replicate (n - length bytes) 0"

definition truncateToPageCount :: "u64 \<Rightarrow> (disk, unit) action" where
  "truncateToPageCount count =
     act_bind (act_lift (\<lambda>_. throw_if (count = 0 \<or> unat count > unat INVALID_PAGE_ID)
       (InvalidArgument ''Recovery page count is outside the supported range.''))) (\<lambda>_ d.
     if unat count = unat (dPageCount d) then (Inr (), d)
     else
       act_bind (act_lift requireWriteEpochAvailable) (\<lambda>_.
       act_bind flushDisk (\<lambda>_.
       act_bind (\<lambda>d. case systemCall d of
           (Inl message, d) \<Rightarrow>
             (Inl (RuntimeError (''Could not open database for truncation: '' @ message)), d)
         | (Inr _, d) \<Rightarrow> (Inr (), d)) (\<lambda>_.
       act_bind (\<lambda>d. case systemCall d of
           (Inl message, d) \<Rightarrow> (Inl (RuntimeError (''Could not truncate database: '' @ message)),
             setWriteback (\<lambda>w. w\<lparr>writeFailure := True\<rparr>) d)
         | (Inr _, d) \<Rightarrow> (Inr (), setWriteback (\<lambda>w.
               w\<lparr>physicalWriteEpoch := physicalWriteEpoch w + 1\<rparr>)
               (d\<lparr>dFile := resizeFile (unat count * PAGE_SIZE) (dFile d)\<rparr>))) (\<lambda>_.
       act_bind reopenFile (\<lambda>_.
       act_bind (act_modify (\<lambda>d. d\<lparr>dPageCount := ucast count\<rparr>)) (\<lambda>_.
       loadAndValidateDatabaseHeader)))))) d)"

definition reloadDatabaseHeader :: "(disk, unit) action" where
  "reloadDatabaseHeader = loadAndValidateDatabaseHeader"

section \<open>Roots\<close>

definition rootAllowed :: "page_id \<Rightarrow> disk \<Rightarrow> bool" where
  "rootAllowed pid d \<longleftrightarrow>
     pid = INVALID_PAGE_ID \<or> \<not> (pid = METADATA_PAGE_ID \<or> pid \<ge> dPageCount d)"

definition updateHeader ::
  "string \<Rightarrow> (database_header \<Rightarrow> database_header) \<Rightarrow> page_id \<Rightarrow> (disk, unit) action"
where
  "updateHeader message change pid =
     act_bind (act_lift (\<lambda>d. throw_if (\<not> rootAllowed pid d) (InvalidArgument message))) (\<lambda>_.
     act_bind (act_lift (\<lambda>d. Inr (change (dHeader d)))) (\<lambda>updatedHeader.
     act_bind (persistDatabaseHeader updatedHeader) (\<lambda>_.
     act_modify (\<lambda>d. d\<lparr>dHeader := updatedHeader\<rparr>))))"

definition updateCatalogRootPageId :: "page_id \<Rightarrow> (disk, unit) action" where
  "updateCatalogRootPageId pid =
     updateHeader ''Catalog root must identify an existing data page.''
       (\<lambda>h. h\<lparr>catalogRootPageId := pid\<rparr>) pid"

definition updateFreeListRootPageId :: "page_id \<Rightarrow> (disk, unit) action" where
  "updateFreeListRootPageId pid =
     updateHeader ''Free-list root must identify an existing data page.''
       (\<lambda>h. h\<lparr>freeListRootPageId := pid\<rparr>) pid"

section \<open>Pages of the file\<close>

definition pageOf :: "disk \<Rightarrow> page_id \<Rightarrow> page" where
  "pageOf d pid = subspan (dFile d) (unat pid * PAGE_SIZE) PAGE_SIZE"

lemma writeAt_inside: "off + length c \<le> length b \<Longrightarrow> writeAt b off c = overwrite b off c"
  by (simp add: writeAt_def)

lemma writeAt_end: "off = length b \<Longrightarrow> writeAt b off c = b @ c"
  by (simp add: writeAt_def overwrite_def)

lemma page_offset:
  assumes "length bytes = n * PAGE_SIZE" and "i < n"
  shows "i * PAGE_SIZE + PAGE_SIZE \<le> length bytes"
proof -
  have "Suc i * PAGE_SIZE \<le> n * PAGE_SIZE" using assms(2) by (intro mult_le_mono1) simp
  then show ?thesis using assms(1) by simp
qed

text \<open>The file as a list of pages: writing page \<open>i\<close> changes that page alone.\<close>

lemma subspan_writeAt:
  assumes "length bytes = n * PAGE_SIZE" and "length page = PAGE_SIZE" and "i < n" and "j < n"
  shows "subspan (writeAt bytes (i * PAGE_SIZE) page) (j * PAGE_SIZE) PAGE_SIZE =
    (if i = j then page else subspan bytes (j * PAGE_SIZE) PAGE_SIZE)"
proof -
  have i: "i * PAGE_SIZE + length page \<le> length bytes" using page_offset [OF assms(1,3)] assms(2) by simp
  have "j * PAGE_SIZE + PAGE_SIZE \<le> i * PAGE_SIZE \<or> i * PAGE_SIZE + length page \<le> j * PAGE_SIZE" if "i \<noteq> j"
    using that assms(2) by (cases "i < j") auto
  then show ?thesis
    using i assms(2) by (auto simp: writeAt_inside subspan_overwrite_same subspan_overwrite_disjoint)
qed

lemma length_writeAt_inside:
  assumes "length bytes = n * PAGE_SIZE" and "length page = PAGE_SIZE" and "i < n"
  shows "length (writeAt bytes (i * PAGE_SIZE) page) = n * PAGE_SIZE"
  using page_offset [OF assms(1,3)] assms by (simp add: writeAt_inside)

section \<open>The outcome of a write\<close>

lemma nextOutcome_script: "nextOutcome d = (oc, d') \<Longrightarrow> \<exists>s. d' = d\<lparr>dScript := s\<rparr>"
  by (cases "dScript d") (auto simp: nextOutcome_def intro: exI [of _ "dScript d"])

lemma systemCall_script: "systemCall d = (oc, d') \<Longrightarrow> \<exists>s. d' = d\<lparr>dScript := s\<rparr>"
  by (auto simp: systemCall_def dest!: nextOutcome_script split: prod.splits io_outcome.splits)

lemma streamFlush_script: "streamFlush d = (oc, d') \<Longrightarrow> (\<exists>s. d' = d\<lparr>dScript := s\<rparr>) \<and> (oc \<longrightarrow> dOpen d)"
  by (auto simp: streamFlush_def intro: exI [of _ "dScript d"] dest!: systemCall_script
      split: prod.splits sum.splits if_splits)

lemma streamRead_script:
  "streamRead off n d = (bs, d') \<Longrightarrow>
   (\<exists>s. d' = d\<lparr>dScript := s\<rparr>) \<and> length bs \<le> n \<and> (length bs = n \<longrightarrow> n = 0 \<or> dOpen d \<and> bs = subspan (dFile d) off n)"
  by (auto simp: streamRead_def intro: exI [of _ "dScript d"] dest!: nextOutcome_script
      split: prod.splits io_outcome.splits if_splits)

lemma streamWrite_script:
  "streamWrite off c d = (ok, d') \<Longrightarrow>
   (\<exists>s f. d' = d\<lparr>dFile := f, dScript := s\<rparr> \<and> (ok \<longrightarrow> dOpen d \<and> f = writeAt (dFile d) off c))"
  by (cases d; cases "dScript d")
    (auto simp: streamWrite_def nextOutcome_def split: io_outcome.splits if_splits)

lemma writePageBytes_cases:
  assumes "writePageBytes pid page fl d = (r, d')"
  obtains (refused) e where "r = Inl e" and "d' = d"
  | (failed) e s f where "r = Inl e" and "d' = d\<lparr>dFile := f, dWriteback := (dWriteback d)\<lparr>writeFailure := True\<rparr>, dScript := s\<rparr>"
  | (written) s where "r = Inr ()" and "dOpen d" and "\<not> writeFailure (dWriteback d)"
      and "physicalWriteEpoch (dWriteback d) \<noteq> 0xFFFFFFFFFFFFFFFF"
      and "d' = d\<lparr>dFile := writeAt (dFile d) (unat pid * PAGE_SIZE) page,
        dWriteback := (dWriteback d)\<lparr>physicalWriteEpoch := physicalWriteEpoch (dWriteback d) + 1\<rparr>, dScript := s\<rparr>"
proof (cases "requireWriteEpochAvailable d")
  case (Inl e)
  then show ?thesis using assms by (intro refused [of e]) (simp_all add: writePageBytes_def)
next
  case (Inr u)
  obtain ok1 d1 where w: "streamWrite (unat pid * PAGE_SIZE) page d = (ok1, d1)" by fastforce
  obtain ok2 d2 where fl: "(if fl \<and> ok1 then streamFlush d1 else (ok1, d1)) = (ok2, d2)" by fastforce
  obtain s1 f where d1: "d1 = d\<lparr>dFile := f, dScript := s1\<rparr>"
    and ok: "ok1 \<longrightarrow> dOpen d \<and> f = writeAt (dFile d) (unat pid * PAGE_SIZE) page"
    using streamWrite_script [OF w] by auto
  obtain s2 where d2: "d2 = d\<lparr>dFile := f, dScript := s2\<rparr>" and ok2: "ok2 \<longrightarrow> ok1"
    using fl d1 streamFlush_script [of d1] by (auto split: if_splits)
  have avail: "\<not> writeFailure (dWriteback d)" "physicalWriteEpoch (dWriteback d) \<noteq> 0xFFFFFFFFFFFFFFFF"
    using Inr by (auto simp: requireWriteEpochAvailable_def requireWritable_def res_simps split: if_splits)
  have "writePageBytes pid page fl d = (if \<not> ok2
      then (Inl (RuntimeError ''Failed to write database page''), setWriteback (\<lambda>w. w\<lparr>writeFailure := True\<rparr>) d2)
      else (Inr (), setWriteback (\<lambda>w. w\<lparr>physicalWriteEpoch := physicalWriteEpoch w + 1\<rparr>) d2))"
    by (simp only: writePageBytes_def Inr sum.case w Let_def prod.case fl)
  with assms show ?thesis
    using written [of s2] failed [of "RuntimeError ''Failed to write database page''" s2 f] ok ok2 d2 avail
    by (cases ok2) auto
qed

section \<open>Invariants\<close>

text \<open>The frontier tells the truth; the stream and the members agree while writing is possible.\<close>

definition frontierOk :: "disk \<Rightarrow> bool" where
  "frontierOk d \<longleftrightarrow>
     unat (synchronizedWriteEpoch (dWriteback d)) \<le> unat (physicalWriteEpoch (dWriteback d))
     \<and> (\<not> pending (dWriteback d) \<longrightarrow> dStable d = dFile d)"

definition shapeOk :: "disk \<Rightarrow> bool" where
  "shapeOk d \<longleftrightarrow> dOpen d \<and> \<not> writeFailure (dWriteback d) \<longrightarrow>
     length (dFile d) = unat (dPageCount d) * PAGE_SIZE \<and> 0 < dPageCount d
     \<and> deserializeDatabaseHeader (pageOf d METADATA_PAGE_ID) = Inr (dHeader d)"

definition diskInv :: "disk \<Rightarrow> bool" where
  "diskInv d \<longleftrightarrow> frontierOk d \<and> shapeOk d"

lemma frontierOk_script [simp]: "frontierOk (d\<lparr>dScript := s\<rparr>) = frontierOk d"
  by (simp add: frontierOk_def)

lemma shapeOk_script [simp]: "shapeOk (d\<lparr>dScript := s\<rparr>) = shapeOk d"
  by (simp add: shapeOk_def pageOf_def)

lemma diskInv_script [simp]: "diskInv (d\<lparr>dScript := s\<rparr>) = diskInv d"
  by (simp add: diskInv_def)

lemma epoch_advances:
  assumes "physicalWriteEpoch w \<noteq> 0xFFFFFFFFFFFFFFFF"
    and "unat (synchronizedWriteEpoch w) \<le> unat (physicalWriteEpoch w)"
  shows "unat (synchronizedWriteEpoch w) < unat (physicalWriteEpoch w + 1)"
    and "physicalWriteEpoch w + 1 \<noteq> synchronizedWriteEpoch w"
proof -
  have "unat (physicalWriteEpoch w + 1) = unat (physicalWriteEpoch w) + 1"
    using unat_succ_max(2) [OF assms(1)] by simp
  then show "unat (synchronizedWriteEpoch w) < unat (physicalWriteEpoch w + 1)" using assms(2) by simp
  then show "physicalWriteEpoch w + 1 \<noteq> synchronizedWriteEpoch w" by auto
qed

lemma frontierOk_changed:
  assumes "frontierOk d" and "physicalWriteEpoch (dWriteback d) \<noteq> 0xFFFFFFFFFFFFFFFF"
  shows "frontierOk (d\<lparr>dFile := f, dWriteback := (dWriteback d)
    \<lparr>physicalWriteEpoch := physicalWriteEpoch (dWriteback d) + 1\<rparr>, dScript := s\<rparr>)"
  using assms epoch_advances [of "dWriteback d"] by (auto simp: frontierOk_def pending_def)

lemma frontierOk_failed:
  "frontierOk d \<Longrightarrow> frontierOk (d\<lparr>dFile := f, dWriteback := (dWriteback d)\<lparr>writeFailure := True\<rparr>, dScript := s\<rparr>)"
  by (simp add: frontierOk_def pending_def)

lemma writePageBytes_frontier: "writePageBytes pid page fl d = (r, d') \<Longrightarrow> frontierOk d \<Longrightarrow> frontierOk d'"
  by (erule writePageBytes_cases) (auto simp: frontierOk_changed frontierOk_failed simp del: frontierOk_script)

lemma deserialize_page0:
  assumes "length bytes = n * PAGE_SIZE" and "0 < n" and "length page = PAGE_SIZE" and "i < n" and "i \<noteq> 0"
  shows "subspan (writeAt bytes (i * PAGE_SIZE) page) 0 PAGE_SIZE = subspan bytes 0 PAGE_SIZE"
  using subspan_writeAt [OF assms(1,3,4), of 0] assms by simp

lemma unat_pos: "0 < (x :: u32) \<longleftrightarrow> 0 < unat x"
  by (simp add: word_less_nat_alt)

text \<open>A write to an existing data page, to page 0, and just past the end.\<close>

lemma writePageBytes_shape:
  assumes w: "writePageBytes pid page fl d = (r, d')" and inv: "shapeOk d" and len: "length page = PAGE_SIZE"
    and pid: "dOpen d \<Longrightarrow> \<not> writeFailure (dWriteback d) \<Longrightarrow> pid < dPageCount d"
    and header: "pid = METADATA_PAGE_ID \<Longrightarrow> deserializeDatabaseHeader page = Inr h"
  shows "shapeOk (if r = Inr () \<and> pid = METADATA_PAGE_ID then d'\<lparr>dHeader := h\<rparr> else d')"
  using w
proof (cases rule: writePageBytes_cases)
  case (written s)
  have shape: "length (dFile d) = unat (dPageCount d) * PAGE_SIZE" "0 < dPageCount d"
    "deserializeDatabaseHeader (pageOf d METADATA_PAGE_ID) = Inr (dHeader d)"
    using inv written by (auto simp: shapeOk_def)
  have lt: "unat pid < unat (dPageCount d)" using pid written by (simp add: word_less_nat_alt)
  have size: "length (dFile d') = unat (dPageCount d) * PAGE_SIZE"
    using length_writeAt_inside [OF shape(1) len lt] by (simp add: written)
  have page: "pageOf d' METADATA_PAGE_ID = (if pid = METADATA_PAGE_ID then page else pageOf d METADATA_PAGE_ID)"
    using subspan_writeAt [OF shape(1) len lt, of 0] shape(2)
    by (auto simp: pageOf_def written unat_pos unat_eq_0)
  show ?thesis using shape size page header by (auto simp: shapeOk_def written pageOf_def)
qed (use inv in \<open>auto simp: shapeOk_def pageOf_def\<close>)

lemma appendPageAt_cases:
  assumes "appendPageAt pid d = (r, d')"
  obtains (refused) e where "r = Inl e" and "d' = d"
  | (failed) e s f where "r = Inl e" and "d' = d\<lparr>dFile := f, dWriteback := (dWriteback d)\<lparr>writeFailure := True\<rparr>, dScript := s\<rparr>"
  | (appended) s where "r = Inr (dPageCount d)" and "pid = dPageCount d" and "dPageCount d \<noteq> INVALID_PAGE_ID"
      and "dOpen d" and "\<not> writeFailure (dWriteback d)"
      and "physicalWriteEpoch (dWriteback d) \<noteq> 0xFFFFFFFFFFFFFFFF"
      and "d' = d\<lparr>dFile := writeAt (dFile d) (unat (dPageCount d) * PAGE_SIZE) (replicate PAGE_SIZE 0),
        dPageCount := dPageCount d + 1,
        dWriteback := (dWriteback d)\<lparr>physicalWriteEpoch := physicalWriteEpoch (dWriteback d) + 1\<rparr>, dScript := s\<rparr>"
proof (cases "pid \<noteq> dPageCount d \<or> dPageCount d = INVALID_PAGE_ID")
  case True
  then have "(\<exists>e. r = Inl e) \<and> d' = d"
    using assms by (auto simp: appendPageAt_def act_bind_def throw_if_def split: if_splits)
  then show ?thesis using refused by blast
next
  case False
  obtain r1 d1 where w: "writePageBytes (dPageCount d) (replicate PAGE_SIZE 0) True d = (r1, d1)" by fastforce
  have res: "(r, d') = (case r1 of Inl e \<Rightarrow> (Inl e, d1) | Inr _ \<Rightarrow> (Inr (dPageCount d), d1\<lparr>dPageCount := dPageCount d1 + 1\<rparr>))"
    using assms False w by (auto simp: appendPageAt_def act_bind_def throw_if_def split: sum.splits)
  from w show ?thesis
  proof (cases rule: writePageBytes_cases)
    case (refused e)
    then show ?thesis using res that(1) by auto
  next
    case (failed e s f)
    then show ?thesis using res that(2) by auto
  next
    case (written s)
    then show ?thesis using res False by (intro appended [of s]) auto
  qed
qed

lemma appendPageAt_inv:
  assumes "appendPageAt pid d = (r, d')" and "diskInv d"
  shows "diskInv d'"
  using assms(1)
proof (cases rule: appendPageAt_cases)
  case (appended s)
  let ?n = "unat (dPageCount d)"
  have shape: "length (dFile d) = ?n * PAGE_SIZE" "0 < dPageCount d"
    "deserializeDatabaseHeader (pageOf d METADATA_PAGE_ID) = Inr (dHeader d)"
    using assms(2) appended by (auto simp: diskInv_def shapeOk_def)
  have n: "unat (dPageCount d + 1) = Suc ?n" using unat_succ_max(1) [of "dPageCount d"] appended by simp
  have contents: "dFile d' = dFile d @ replicate PAGE_SIZE 0" using shape(1) by (simp add: appended writeAt_end)
  have "pageOf d' METADATA_PAGE_ID = pageOf d METADATA_PAGE_ID"
    using page_offset [OF shape(1), of 0] shape(2) unfolding pageOf_def contents
    by (simp add: subspan_append_left unat_pos)
  then have "shapeOk d'"
    using shape n contents by (simp add: shapeOk_def appended unat_pos)
  moreover have "frontierOk d'"
    using assms(2) frontierOk_changed [of d] appended by (auto simp: diskInv_def frontierOk_def pending_def)
  ultimately show ?thesis by (simp add: diskInv_def)
qed (use assms(2) frontierOk_failed [of d] in \<open>auto simp: diskInv_def shapeOk_def pageOf_def\<close>)

lemma extendTo_inv: "diskInv d \<Longrightarrow> diskInv (snd (extendTo fuel pid d))"
proof (induction fuel arbitrary: d)
  case (Suc fuel)
  obtain r d1 where "appendPage d = (r, d1)" by fastforce
  then show ?case
    using Suc appendPageAt_inv [of "dPageCount d" d r d1]
    by (auto simp: act_bind_def appendPage_def split: sum.splits)
qed simp

text \<open>The fuel of \<open>extendTo\<close> suffices: if no append fails, the page exists afterwards.\<close>

lemma extendTo_ok:
  "extendTo fuel pid d = (Inr (), d') \<Longrightarrow> unat pid < fuel + unat (dPageCount d) \<Longrightarrow> pid < dPageCount d'"
proof (induction fuel arbitrary: d)
  case 0
  then show ?case by (simp add: word_less_nat_alt)
next
  case (Suc fuel)
  show ?case
  proof (cases "dPageCount d \<le> pid")
    case True
    then obtain x d1 where a: "appendPageAt (dPageCount d) d = (Inr x, d1)" and rest: "extendTo fuel pid d1 = (Inr (), d')"
      using Suc.prems(1) by (auto simp: appendPage_def act_bind_eq_Inr)
    from a have "unat (dPageCount d1) = Suc (unat (dPageCount d))"
      by (cases rule: appendPageAt_cases) (auto simp: unat_succ_max)
    then show ?thesis using Suc.IH [OF rest] Suc.prems(2) by simp
  qed (use Suc.prems in auto)
qed

lemma extendTo_fail:
  "extendTo fuel pid d = (Inr (), d') \<Longrightarrow> dHeader d' = dHeader d"
proof (induction fuel arbitrary: d)
  case (Suc fuel)
  then show ?case
    by (auto simp: appendPage_def act_bind_eq_Inr split: if_splits elim!: appendPageAt_cases)
qed simp

lemma flushDisk_cases:
  assumes "flushDisk d = (r, d')"
  obtains (refused) e where "r = Inl e" and "d' = d"
  | (failed) e s where "r = Inl e" and "d' = d\<lparr>dWriteback := (dWriteback d)\<lparr>writeFailure := True\<rparr>, dScript := s\<rparr>"
  | (flushed) s where "r = Inr ()" and "dOpen d" and "\<not> writeFailure (dWriteback d)" and "d' = d\<lparr>dScript := s\<rparr>"
proof -
  obtain ok d1 where fl: "streamFlush d = (ok, d1)" by fastforce
  then obtain s where s: "d1 = d\<lparr>dScript := s\<rparr>" and o: "ok \<longrightarrow> dOpen d" using streamFlush_script by blast
  show ?thesis
  proof (cases "writeFailure (dWriteback d)")
    case True
    then show ?thesis using assms refused by (auto simp: flushDisk_def act_bind_def requireWritable_def throw_if_def)
  next
    case False
    then have "(r, d') = (if ok then (Inr (), d1) else (Inl (RuntimeError ''Failed to flush database file.''),
        setWriteback (\<lambda>w. w\<lparr>writeFailure := True\<rparr>) d1))"
      using assms fl by (cases ok) (simp_all add: flushDisk_def act_bind_def requireWritable_def throw_if_def)
    then show ?thesis using False s o flushed [of s] failed [of _ s] by (cases ok) auto
  qed
qed

lemma diskInv_failed:
  "diskInv d \<Longrightarrow> diskInv (d\<lparr>dWriteback := (dWriteback d)\<lparr>writeFailure := True\<rparr>, dScript := s\<rparr>)"
  using frontierOk_failed [where d = d and f = "dFile d"] by (simp add: diskInv_def shapeOk_def)

lemma flushDisk_inv: "flushDisk d = (r, d') \<Longrightarrow> diskInv d \<Longrightarrow> diskInv d'"
  by (erule flushDisk_cases) (simp_all add: diskInv_failed del: diskInv_script, simp)

text \<open>A successful \<open>fsync\<close> makes the file durable as it is.\<close>

lemma fsyncDisk_cases:
  assumes "fsyncDisk d = (r, d')"
  obtains (failed) e d1 r1 s where "r = Inl e" and "flushDisk d = (r1, d1)" and "d' = d1\<lparr>dScript := s\<rparr>"
  | (synced) s where "r = Inr ()" and "\<not> writeFailure (dWriteback d)" and "d' = d\<lparr>dStable := dFile d,
      dWriteback := (dWriteback d)\<lparr>synchronizedWriteEpoch := physicalWriteEpoch (dWriteback d), initialSyncRequired := False,
        databaseSyncsCompleted := databaseSyncsCompleted (dWriteback d) + 1\<rparr>, dScript := s\<rparr>"
proof -
  obtain r1 d1 where fl: "flushDisk d = (r1, d1)" by fastforce
  show ?thesis
  proof (cases r1)
    case (Inl e)
    then have "r = Inl e" "d' = d1\<lparr>dScript := dScript d1\<rparr>"
      using assms fl by (simp_all add: fsyncDisk_def)
    then show ?thesis using fl by (rule_tac failed)
  next
    case (Inr u)
    from fl obtain s1 where d1: "d1 = d\<lparr>dScript := s1\<rparr>" "\<not> writeFailure (dWriteback d)"
      by (cases rule: flushDisk_cases) (use Inr in auto)
    obtain o2 d2 where c2: "systemCall d1 = (o2, d2)" by fastforce
    obtain o3 d3 where c3: "systemCall d2 = (o3, d3)" by fastforce
    obtain s2 s3 where s: "d2 = d1\<lparr>dScript := s2\<rparr>" "d3 = d1\<lparr>dScript := s3\<rparr>"
      using systemCall_script [OF c2] systemCall_script [OF c3] by auto
    have "(\<exists>e s. r = Inl e \<and> d' = d1\<lparr>dScript := s\<rparr>) \<or> (r = Inr () \<and> d' = d\<lparr>dStable := dFile d,
      dWriteback := (dWriteback d)\<lparr>synchronizedWriteEpoch := physicalWriteEpoch (dWriteback d), initialSyncRequired := False,
        databaseSyncsCompleted := databaseSyncsCompleted (dWriteback d) + 1\<rparr>, dScript := s3\<rparr>)"
      using assms fl Inr c2 c3 s d1 by (cases o2; cases o3) (auto simp: fsyncDisk_def act_bind_def)
    then show ?thesis using fl d1 failed synced by blast
  qed
qed

lemma fsyncDisk_inv: "fsyncDisk d = (r, d') \<Longrightarrow> diskInv d \<Longrightarrow> diskInv d'"
  by (erule fsyncDisk_cases) (auto simp: flushDisk_inv diskInv_def frontierOk_def shapeOk_def pageOf_def dest: flushDisk_inv)

lemma diskInv_counter: "diskInv d \<Longrightarrow> diskInv (setWriteback (\<lambda>w. w\<lparr>databaseSyncFailures := n w\<rparr>) d)"
  by (simp add: diskInv_def frontierOk_def shapeOk_def pending_def pageOf_def)

lemma sync_inv: "diskInv d \<Longrightarrow> diskInv (snd (sync d))"
  using fsyncDisk_inv [of d] diskInv_counter by (auto simp: sync_def split: prod.splits sum.splits)

lemma syncPendingWritebacks_inv: "diskInv d \<Longrightarrow> diskInv (snd (syncPendingWritebacks d))"
  using sync_inv [of d] by (auto simp: syncPendingWritebacks_def act_bind_def split: prod.splits sum.splits)

lemma load_result:
  assumes "loadAndValidateDatabaseHeader d = (r, d')"
  shows "\<exists>s h. d' = d\<lparr>dScript := s, dHeader := h\<rparr> \<and> (h = dHeader d \<or> dOpen d
    \<and> deserializeDatabaseHeader (pageOf d METADATA_PAGE_ID) = Inr h)"
proof -
  obtain bs d1 where rd: "streamRead 0 PAGE_SIZE d = (bs, d1)" by fastforce
  then obtain s where "d1 = d\<lparr>dScript := s\<rparr>" "length bs = PAGE_SIZE \<longrightarrow> dOpen d \<and> bs = pageOf d METADATA_PAGE_ID"
    using streamRead_script by (fastforce simp: pageOf_def)
  then show ?thesis
    using assms rd by (cases d; cases "deserializeDatabaseHeader bs")
      (auto simp: loadAndValidateDatabaseHeader_def split: if_splits)
qed

lemma load_inv: "loadAndValidateDatabaseHeader d = (r, d') \<Longrightarrow> diskInv d \<Longrightarrow> diskInv d'"
  by (drule load_result) (auto simp: diskInv_def shapeOk_def frontierOk_def pageOf_def)

lemma readBytesOf_script: "readBytesOf m pid d = (r, d') \<Longrightarrow> \<exists>s. d' = d\<lparr>dScript := s\<rparr>"
  by (auto simp: readBytesOf_def Let_def dest!: streamRead_script split: prod.splits if_splits)

lemma readBytesOf_inv: "diskInv d \<Longrightarrow> diskInv (snd (readBytesOf m pid d))"
  using readBytesOf_script [OF prod.collapse [symmetric], of m pid d] by auto

lemma read_inv: "diskInv d \<Longrightarrow> diskInv (snd (readPage pid d))" "diskInv d \<Longrightarrow> diskInv (snd (readPhysicalPage pid d))"
  by (auto simp: readPage_def readPhysicalPage_def act_bind_def readBytesOf_inv split: prod.splits sum.splits)

lemma requireExistingDataPage_iff:
  "requireExistingDataPage pid d = Inr u \<longleftrightarrow> pid \<noteq> METADATA_PAGE_ID \<and> pid \<noteq> INVALID_PAGE_ID \<and> pid < dPageCount d"
  by (auto simp: requireExistingDataPage_def)

lemma writePage_inv:
  assumes "diskInv d" and "length page = PAGE_SIZE"
  shows "diskInv (snd (writePage pid page d))"
proof (cases "requireExistingDataPage pid d")
  case (Inr u)
  obtain r d' where w: "writePageBytes pid page True d = (r, d')" by fastforce
  from Inr have p: "pid < dPageCount d" "pid \<noteq> METADATA_PAGE_ID"
    using requireExistingDataPage_iff [of pid d u] by auto
  have "shapeOk d'"
    using writePageBytes_shape [OF w _ assms(2), of undefined] assms(1) p by (simp add: diskInv_def)
  then show ?thesis
    using w Inr assms(1) writePageBytes_frontier [OF w] by (simp add: writePage_def act_bind_def diskInv_def)
qed (use assms in \<open>simp add: writePage_def act_bind_def\<close>)

lemma writePhysicalPage_inv:
  assumes "diskInv d" and "length page = PAGE_SIZE"
  shows "diskInv (snd (writePhysicalPage pid page d))"
proof -
  let ?h = "if pid = METADATA_PAGE_ID then deserializeDatabaseHeader page else Inr (dHeader d)"
  obtain r1 d1 where ext: "extendTo (unat pid + 1) pid d = (r1, d1)" by fastforce
  have inv1: "diskInv d1" using extendTo_inv [OF assms(1), of "unat pid + 1" pid] ext by simp
  obtain r2 d2 where w: "writePageBytes pid page False d1 = (r2, d2)" by fastforce
  show ?thesis
  proof (cases "pid = INVALID_PAGE_ID \<or> (\<exists>e. ?h = Inl e) \<or> (\<exists>e. r1 = Inl e)")
    case True
    then show ?thesis
      using assms(1) ext inv1 by (auto simp: writePhysicalPage_def act_bind_def throw_if_def split: sum.splits)
  next
    case False
    then obtain h where h: "?h = Inr h" and r1: "r1 = Inr ()" and pid: "pid \<noteq> INVALID_PAGE_ID"
      by (cases ?h; cases r1) auto
    have lt: "pid < dPageCount d1" using extendTo_ok [of "unat pid + 1" pid d d1] ext r1 by simp
    have "shapeOk (if r2 = Inr () \<and> pid = METADATA_PAGE_ID then d2\<lparr>dHeader := h\<rparr> else d2)"
      using writePageBytes_shape [OF w _ assms(2), of h] inv1 lt h by (simp add: diskInv_def split: if_splits)
    moreover have "frontierOk d2" using writePageBytes_frontier [OF w] inv1 by (simp add: diskInv_def)
    moreover have "snd (writePhysicalPage pid page d) = (if r2 = Inr () \<and> pid = METADATA_PAGE_ID then d2\<lparr>dHeader := h\<rparr> else d2)"
      using ext r1 h w pid by (cases r2) (auto simp: writePhysicalPage_def act_bind_def throw_if_def split: if_splits)
    ultimately show ?thesis by (simp add: diskInv_def frontierOk_def)
  qed
qed

lemma resizeFile_pages:
  assumes "length bytes = m * PAGE_SIZE" and "0 < m" and "0 < n"
  shows "length (resizeFile (n * PAGE_SIZE) bytes) = n * PAGE_SIZE"
    and "subspan (resizeFile (n * PAGE_SIZE) bytes) 0 PAGE_SIZE = subspan bytes 0 PAGE_SIZE"
proof -
  have n: "PAGE_SIZE \<le> n * PAGE_SIZE" and m: "PAGE_SIZE \<le> length bytes" using assms by auto
  show "length (resizeFile (n * PAGE_SIZE) bytes) = n * PAGE_SIZE" by (simp add: resizeFile_def)
  show "subspan (resizeFile (n * PAGE_SIZE) bytes) 0 PAGE_SIZE = subspan bytes 0 PAGE_SIZE"
    using n m by (simp add: resizeFile_def subspan_def min_def)
qed

lemma reopen_result:
  "reopenFile d = (r, d') \<Longrightarrow> \<exists>s. d' = d\<lparr>dScript := s\<rparr> \<and> r = Inr () \<or> d' = d\<lparr>dScript := s, dOpen := False\<rparr> \<and> (\<exists>e. r = Inl e)"
  by (auto simp: reopenFile_def dest!: systemCall_script split: prod.splits sum.splits)

lemma truncated_inv:
  assumes inv: "diskInv d" and open_ok: "dOpen d" "\<not> writeFailure (dWriteback d)"
    and epoch: "physicalWriteEpoch (dWriteback d) \<noteq> 0xFFFFFFFFFFFFFFFF"
    and count: "count \<noteq> 0" "unat count < 2 ^ 32"
    and d1: "d1 = setWriteback (\<lambda>w. w\<lparr>physicalWriteEpoch := physicalWriteEpoch w + 1\<rparr>)
      (d\<lparr>dFile := resizeFile (unat (count :: u64) * PAGE_SIZE) (dFile d), dScript := s\<rparr>)"
  shows "frontierOk d1" and "diskInv (d1\<lparr>dScript := s', dPageCount := ucast count\<rparr>)"
proof -
  have shape: "length (dFile d) = unat (dPageCount d) * PAGE_SIZE" "0 < unat (dPageCount d)"
    "deserializeDatabaseHeader (pageOf d METADATA_PAGE_ID) = Inr (dHeader d)"
    using inv open_ok by (auto simp: diskInv_def shapeOk_def unat_pos)
  have c: "0 < unat count" using count(1) by (simp add: unat_gt_0)
  note sz = resizeFile_pages [OF shape(1,2) c]
  have cast: "unat (ucast count :: u32) = unat count" using count(2) by (simp add: unsigned_ucast_eq take_bit_nat_eq_self)
  show f: "frontierOk d1"
    using frontierOk_changed [where d = d and f = "resizeFile (unat count * PAGE_SIZE) (dFile d)"] inv epoch
    by (simp add: d1 diskInv_def frontierOk_def pending_def)
  have "shapeOk (d1\<lparr>dScript := s', dPageCount := ucast count\<rparr>)"
    using shape(3) sz c cast by (simp add: shapeOk_def d1 pageOf_def unat_pos)
  then show "diskInv (d1\<lparr>dScript := s', dPageCount := ucast count\<rparr>)"
    using f by (simp add: diskInv_def frontierOk_def)
qed

lemma truncateToPageCount_inv:
  assumes inv: "diskInv d"
  shows "diskInv (snd (truncateToPageCount count d))"
proof -
  obtain r1 d1 where fl: "flushDisk d = (r1, d1)" by fastforce
  obtain o2 d2 where c2: "systemCall d1 = (o2, d2)" by fastforce
  obtain o3 d3 where c3: "systemCall d2 = (o3, d3)" by fastforce
  let ?bad = "count = 0 \<or> unat count > unat (INVALID_PAGE_ID :: u32)"
  have early: "diskInv (snd (truncateToPageCount count d))"
    if "?bad \<or> unat count = unat (dPageCount d) \<or> requireWriteEpochAvailable d \<noteq> Inr ()"
    using that inv by (cases "requireWriteEpochAvailable d")
      (auto simp: truncateToPageCount_def act_bind_def throw_if_def split: if_splits)
  have inv1: "diskInv d1" using flushDisk_inv [OF fl inv] .
  obtain s2 s3 where s: "d2 = d1\<lparr>dScript := s2\<rparr>" "d3 = d1\<lparr>dScript := s3\<rparr>"
    using systemCall_script [OF c2] systemCall_script [OF c3] by auto
  let ?go = "\<not> ?bad \<and> unat count \<noteq> unat (dPageCount d) \<and> requireWriteEpochAvailable d = Inr ()"
  show ?thesis
  proof (cases "?go \<and> r1 = Inr () \<and> o2 = Inr () \<and> o3 = Inr ()")
    case False
    have go: "snd (truncateToPageCount count d) = (if r1 \<noteq> Inr () then d1 else if o2 \<noteq> Inr () then d2
        else setWriteback (\<lambda>w. w\<lparr>writeFailure := True\<rparr>) d3)" if ?go "\<not> (r1 = Inr () \<and> o2 = Inr () \<and> o3 = Inr ())"
      using that fl c2 c3 by (cases r1; cases o2; cases o3)
        (auto simp: truncateToPageCount_def act_bind_def throw_if_def split: if_splits)
    show ?thesis
    proof (cases ?go)
      case True
      then have "snd (truncateToPageCount count d) \<in> {d1, d2, setWriteback (\<lambda>w. w\<lparr>writeFailure := True\<rparr>) d3}"
        using False go by (simp split: if_splits)
      moreover have "diskInv d2" "diskInv d3" using inv1 by (simp_all add: s)
      moreover have "diskInv (setWriteback (\<lambda>w. w\<lparr>writeFailure := True\<rparr>) d3)"
        using diskInv_failed [OF \<open>diskInv d3\<close>, of "dScript d3"] by simp
      ultimately show ?thesis using inv1 by auto
    next
      case False
      then show ?thesis by (intro early) blast
    qed
  next
    case True
    then have d1: "dOpen d" "\<not> writeFailure (dWriteback d)" "\<exists>s. d1 = d\<lparr>dScript := s\<rparr>"
      using fl by (auto elim: flushDisk_cases)
    have epoch: "physicalWriteEpoch (dWriteback d) \<noteq> 0xFFFFFFFFFFFFFFFF"
      using True by (auto simp: requireWriteEpochAvailable_def res_simps split: if_splits)
    have count: "count \<noteq> 0" "unat count < 2 ^ 32" using True by auto
    let ?d4 = "setWriteback (\<lambda>w. w\<lparr>physicalWriteEpoch := physicalWriteEpoch w + 1\<rparr>)
      (d3\<lparr>dFile := resizeFile (unat count * PAGE_SIZE) (dFile d3)\<rparr>)"
    have d4: "?d4 = setWriteback (\<lambda>w. w\<lparr>physicalWriteEpoch := physicalWriteEpoch w + 1\<rparr>)
      (d\<lparr>dFile := resizeFile (unat count * PAGE_SIZE) (dFile d), dScript := s3\<rparr>)"
      using d1(3) s by auto
    obtain r5 d5 where r5: "reopenFile ?d4 = (r5, d5)" by fastforce
    obtain r6 d6 where r6: "loadAndValidateDatabaseHeader (d5\<lparr>dPageCount := ucast count\<rparr>) = (r6, d6)" by fastforce
    have res: "snd (truncateToPageCount count d) = (if r5 = Inr () then d6 else d5)"
      using True fl c2 c3 r5 r6 by (cases r5) (auto simp: truncateToPageCount_def act_bind_def throw_if_def)
    note t = truncated_inv [OF inv d1(1,2) epoch count d4]
    from reopen_result [OF r5] show ?thesis
    proof (elim exE disjE conjE)
      fix s' assume d5: "d5 = ?d4\<lparr>dScript := s'\<rparr>" and "r5 = Inr ()"
      then show ?thesis using res load_inv [OF r6] t(2) [of s'] by simp
    next
      fix s' e assume d5: "d5 = ?d4\<lparr>dScript := s', dOpen := False\<rparr>" and "r5 = Inl e"
      then show ?thesis using res t(1) by (simp add: diskInv_def shapeOk_def frontierOk_def)
    qed
  qed
qed

lemma updateHeader_inv:
  assumes inv: "diskInv d" and change: "\<And>h. header_ok h \<Longrightarrow> header_ok (change h)"
  shows "diskInv (snd (updateHeader message change pid d))"
proof (cases "rootAllowed pid d")
  case True
  obtain page where page: "serializeDatabaseHeader (change (dHeader d)) (replicate PAGE_SIZE 0) = Inr page"
    by (simp add: serializeDatabaseHeader_def)
  then have len: "length page = PAGE_SIZE" by (rule serialize_fields(1))
  obtain r d' where w: "writePageBytes METADATA_PAGE_ID page True d = (r, d')" by fastforce
  have res: "snd (updateHeader message change pid d) = (if r = Inr () then d'\<lparr>dHeader := change (dHeader d)\<rparr> else d')"
    using True page w by (cases r) (simp_all add: updateHeader_def persistDatabaseHeader_def act_bind_def throw_if_def)
  have shape: "shapeOk d" and front: "frontierOk d'"
    using inv writePageBytes_frontier [OF w] by (simp_all add: diskInv_def)
  show ?thesis
  proof (cases "dOpen d \<and> \<not> writeFailure (dWriteback d)")
    case True
    then have "header_ok (dHeader d)" "0 < dPageCount d"
      using shape deserialize_ok(1) by (auto simp: shapeOk_def)
    then have "deserializeDatabaseHeader page = Inr (change (dHeader d))"
      using deserialize_serialize [OF change page] by simp
    then have "shapeOk (if r = Inr () then d'\<lparr>dHeader := change (dHeader d)\<rparr> else d')"
      using writePageBytes_shape [OF w shape len, of "change (dHeader d)"] \<open>0 < dPageCount d\<close> by simp
    then show ?thesis using front res by (auto simp: diskInv_def frontierOk_def)
  next
    case False
    from w have "shapeOk d' \<and> r \<noteq> Inr ()"
      by (cases rule: writePageBytes_cases) (use False shape in \<open>auto simp: shapeOk_def\<close>)
    then show ?thesis using front res by (simp add: diskInv_def)
  qed
qed (use inv in \<open>simp add: updateHeader_def act_bind_def throw_if_def\<close>)

section \<open>Operation sequences\<close>

datatype disk_op =
    ReadPageOp page_id | WritePageOp page_id page | AppendPageOp | AppendAtOp page_id
  | FlushOp | SyncOp | SyncPendingOp | ReadPhysicalOp page_id | WritePhysicalOp page_id page
  | TruncateOp u64 | ReloadOp | CatalogRootOp page_id | FreeListRootOp page_id

fun diskStep :: "disk_op \<Rightarrow> disk \<Rightarrow> disk" where
  "diskStep (ReadPageOp pid) d = snd (readPage pid d)"
| "diskStep (WritePageOp pid page) d = snd (writePage pid page d)"
| "diskStep AppendPageOp d = snd (appendPage d)"
| "diskStep (AppendAtOp pid) d = snd (appendPageAt pid d)"
| "diskStep FlushOp d = snd (flushDisk d)"
| "diskStep SyncOp d = snd (sync d)"
| "diskStep SyncPendingOp d = snd (syncPendingWritebacks d)"
| "diskStep (ReadPhysicalOp pid) d = snd (readPhysicalPage pid d)"
| "diskStep (WritePhysicalOp pid page) d = snd (writePhysicalPage pid page d)"
| "diskStep (TruncateOp n) d = snd (truncateToPageCount n d)"
| "diskStep ReloadOp d = snd (reloadDatabaseHeader d)"
| "diskStep (CatalogRootOp pid) d = snd (updateCatalogRootPageId pid d)"
| "diskStep (FreeListRootOp pid) d = snd (updateFreeListRootPageId pid d)"

text \<open>A page argument is a \<open>std::array\<close> of the page size.\<close>

fun pageArgument :: "disk_op \<Rightarrow> bool" where
  "pageArgument (WritePageOp _ page) = (length page = PAGE_SIZE)"
| "pageArgument (WritePhysicalOp _ page) = (length page = PAGE_SIZE)"
| "pageArgument _ = True"

lemma updateRoot_inv:
  assumes "diskInv d"
  shows "diskInv (snd (updateCatalogRootPageId pid d))" and "diskInv (snd (updateFreeListRootPageId pid d))"
  unfolding updateCatalogRootPageId_def updateFreeListRootPageId_def
  by (rule updateHeader_inv [OF assms]; simp add: header_ok_def)+

lemma diskStep_inv: "diskInv d \<Longrightarrow> pageArgument op \<Longrightarrow> diskInv (diskStep op d)"
  by (cases op) (auto simp: read_inv writePage_inv writePhysicalPage_inv truncateToPageCount_inv sync_inv
    syncPendingWritebacks_inv updateRoot_inv reloadDatabaseHeader_def appendPage_def
    intro: appendPageAt_inv [OF prod.collapse [symmetric]] flushDisk_inv [OF prod.collapse [symmetric]]
      load_inv [OF prod.collapse [symmetric]])

lemma diskRun_inv: "diskInv d \<Longrightarrow> \<forall>op\<in>set ops. pageArgument op \<Longrightarrow> diskInv (fold diskStep ops d)"
  by (induction ops arbitrary: d) (auto simp: diskStep_inv)

section \<open>Opening\<close>

lemma openOrCreate_result:
  "openOrCreate b d = (Inr u, d') \<Longrightarrow> \<exists>s. d' = d\<lparr>dScript := s, dOpen := True\<rparr>"
  by (auto simp: openOrCreate_def Let_def dest!: systemCall_script split: prod.splits sum.splits if_splits)

lemma initializeDatabase_inv:
  assumes "initializeDatabase d = (Inr u, d')" and "dFile d = []" and "frontierOk d"
  shows "diskInv d'"
proof -
  obtain page where page: "serializeDatabaseHeader makeCurrentDatabaseHeader (replicate PAGE_SIZE 0) = Inr page"
    by (simp add: serializeDatabaseHeader_def)
  then have len: "length page = PAGE_SIZE" by (rule serialize_fields(1))
  let ?d = "d\<lparr>dHeader := makeCurrentDatabaseHeader, dPageCount := 1\<rparr>"
  have w: "writePageBytes METADATA_PAGE_ID page True ?d = (Inr u, d')"
    using assms(1) page by (auto simp: initializeDatabase_def persistDatabaseHeader_def act_bind_def split: prod.splits sum.splits)
  have header: "deserializeDatabaseHeader page = Inr makeCurrentDatabaseHeader"
    using deserialize_serialize [OF _ page] by (simp add: header_ok_def makeCurrentDatabaseHeader_def)
  have front: "frontierOk d'" using writePageBytes_frontier [OF w] assms(3) by (simp add: frontierOk_def)
  from w have "shapeOk d'"
  proof (cases rule: writePageBytes_cases)
    case (written s)
    then have "dFile d' = page" using assms(2) by (simp add: writeAt_def overwrite_def)
    then show ?thesis using written len header by (simp add: shapeOk_def pageOf_def subspan_def)
  qed auto
  with front show ?thesis by (simp add: diskInv_def)
qed

lemma DiskManager_inv:
  assumes "DiskManager d = (Inr u, d')" and "frontierOk d"
  shows "diskInv d'"
proof -
  define n where n: "n = length (dFile d)"
  obtain o1 d1 where c: "systemCall d = (o1, d1)" by fastforce
  have s: "\<exists>s. d1 = d\<lparr>dScript := s\<rparr>" using systemCall_script [OF c] .
  then have rest: "(if n = 0 then initializeDatabase d1 else if n mod PAGE_SIZE \<noteq> 0
      then (Inl (RuntimeError ''Database file is corrupted: file size is not a multiple of PAGE_SIZE.''), d1)
      else if n div PAGE_SIZE > 0xFFFFFFFF then (Inl (RuntimeError ''Database file contains too many pages.''), d1)
      else loadAndValidateDatabaseHeader (d1\<lparr>dPageCount := of_nat (n div PAGE_SIZE)\<rparr>)) = (Inr u, d')"
    using assms(1) c by (cases o1) (auto simp: DiskManager_def act_bind_def n split: if_splits)
  show ?thesis
  proof (cases "n = 0")
    case True
    then show ?thesis using initializeDatabase_inv [of d1 u d'] rest s n assms(2) by auto
  next
    case False
    then have sz: "n mod PAGE_SIZE = 0" "n div PAGE_SIZE \<le> 0xFFFFFFFF"
      and ld: "loadAndValidateDatabaseHeader (d1\<lparr>dPageCount := of_nat (n div PAGE_SIZE)\<rparr>) = (Inr u, d')"
      using rest by (auto split: if_splits)
    let ?d = "d1\<lparr>dPageCount := of_nat (n div PAGE_SIZE)\<rparr>"
    obtain s' bs where rd: "streamRead 0 PAGE_SIZE ?d = (bs, ?d\<lparr>dScript := s'\<rparr>)" "length bs = PAGE_SIZE"
      and h: "deserializeDatabaseHeader bs = Inr (dHeader d')" "d' = ?d\<lparr>dScript := s', dHeader := dHeader d'\<rparr>"
      using ld streamRead_script [of 0 PAGE_SIZE ?d]
      by (auto simp: loadAndValidateDatabaseHeader_def Let_def split: prod.splits if_splits sum.splits)
    then have page: "bs = pageOf ?d METADATA_PAGE_ID" using streamRead_script [OF rd(1)] by (auto simp: pageOf_def)
    have count: "unat (of_nat (n div PAGE_SIZE) :: u32) = n div PAGE_SIZE"
      using sz(2) by (intro unat_of_nat_small) simp
    have "PAGE_SIZE \<le> n" using False sz(1) by (auto simp: mod_eq_0_iff_dvd dest: dvd_imp_le)
    then have "0 < n div PAGE_SIZE" by (simp add: div_greater_zero_iff)
    moreover have eqs: "dFile d' = dFile d" "dPageCount d' = of_nat (n div PAGE_SIZE)" "dStable d' = dStable d"
      "dWriteback d' = dWriteback d"
      using arg_cong [OF h(2), of dFile] arg_cong [OF h(2), of dPageCount] arg_cong [OF h(2), of dStable]
        arg_cong [OF h(2), of dWriteback] s by auto
    ultimately have "shapeOk d'"
      using h(1) page count n s sz(1) by (auto simp: shapeOk_def pageOf_def unat_pos eqs)
    moreover have "frontierOk d'" using assms(2) by (simp add: frontierOk_def eqs)
    ultimately show ?thesis by (simp add: diskInv_def)
  qed
qed

lemma openDisk_inv: "openDisk path content durable script = (Inr u, d) \<Longrightarrow> diskInv d"
  unfolding openDisk_def act_bind_eq_Inr
  by (auto dest!: openOrCreate_result intro!: DiskManager_inv simp: frontierOk_def newWriteback_def pending_def)

section \<open>A closed file\<close>

text \<open>Writing has failed, or the stream could not be reopened.\<close>

definition closed :: "disk \<Rightarrow> bool" where
  "closed d \<longleftrightarrow> writeFailure (dWriteback d) \<or> \<not> dOpen d"

text \<open>Nothing an operation does on a closed file reaches it.\<close>

definition frozen :: "disk \<Rightarrow> disk \<Rightarrow> bool" where
  "frozen d d' \<longleftrightarrow> closed d' \<and> dFile d' = dFile d \<and> dStable d' = dStable d"

lemma frozen_refl: "closed d \<Longrightarrow> frozen d d"
  by (simp add: frozen_def)

lemma frozen_script: "closed d \<Longrightarrow> frozen d (d\<lparr>dScript := s\<rparr>)"
  by (simp add: frozen_def closed_def)

lemma frozen_trans: "frozen a b \<Longrightarrow> frozen b c \<Longrightarrow> frozen a c"
  by (simp add: frozen_def)

lemma streamWrite_closed: "\<not> dOpen d \<Longrightarrow> streamWrite off c d = (False, d)"
  by (simp add: streamWrite_def)

lemma writePageBytes_closed: "closed d \<Longrightarrow> \<exists>e d'. writePageBytes pid page fl d = (Inl e, d') \<and> frozen d d'"
proof (cases "requireWriteEpochAvailable d")
  case (Inr u)
  assume c: "closed d"
  then have "\<not> dOpen d"
    using Inr by (auto simp: closed_def requireWriteEpochAvailable_def requireWritable_def res_simps split: if_splits)
  then show ?thesis
    using Inr by (simp add: writePageBytes_def streamWrite_closed frozen_def closed_def)
qed (simp add: writePageBytes_def frozen_def)

lemma appendPageAt_closed: "closed d \<Longrightarrow> \<exists>e d'. appendPageAt pid d = (Inl e, d') \<and> frozen d d'"
  using writePageBytes_closed [of d "dPageCount d" "replicate PAGE_SIZE 0" True] frozen_refl [of d]
  by (auto simp: appendPageAt_def act_bind_def throw_if_def)

lemma flushDisk_closed: "closed d \<Longrightarrow> \<exists>e d'. flushDisk d = (Inl e, d') \<and> frozen d d'"
  by (auto simp: flushDisk_def act_bind_def throw_if_def requireWritable_def streamFlush_def closed_def frozen_def)

lemma extendTo_closed: "closed d \<Longrightarrow> frozen d (snd (extendTo fuel pid d))"
proof (cases fuel)
  case (Suc n)
  assume "closed d"
  then show ?thesis
    using Suc appendPageAt_closed [of d "dPageCount d"] frozen_refl [of d] by (auto simp: appendPage_def)
qed (simp add: frozen_refl)

lemma load_closed: "closed d \<Longrightarrow> frozen d (snd (loadAndValidateDatabaseHeader d))"
  using load_result [OF prod.collapse [symmetric], of d] by (auto simp: frozen_def closed_def)

lemma readBytesOf_closed: "closed d \<Longrightarrow> frozen d (snd (readBytesOf m pid d))"
  using readBytesOf_script [OF prod.collapse [symmetric], of m pid d] by (auto simp: frozen_script)

lemma persistDatabaseHeader_closed: "closed d \<Longrightarrow> \<exists>e d'. persistDatabaseHeader h d = (Inl e, d') \<and> frozen d d'"
proof -
  assume c: "closed d"
  obtain page where "serializeDatabaseHeader h (replicate PAGE_SIZE 0) = Inr page"
    by (simp add: serializeDatabaseHeader_def)
  then show ?thesis using writePageBytes_closed [OF c] by (simp add: persistDatabaseHeader_def)
qed

lemma updateHeader_closed: "closed d \<Longrightarrow> frozen d (snd (updateHeader message change pid d))"
  using persistDatabaseHeader_closed [of d "change (dHeader d)"] frozen_refl [of d]
  by (auto simp: updateHeader_def act_bind_def throw_if_def)

lemma sync_closed: "closed d \<Longrightarrow> frozen d (snd (sync d))"
  using flushDisk_closed [of d] by (auto simp: sync_def fsyncDisk_def frozen_def closed_def)

lemma writePhysicalPage_closed:
  assumes "closed d"
  shows "frozen d (snd (writePhysicalPage pid page d))"
proof -
  let ?h = "if pid = METADATA_PAGE_ID then deserializeDatabaseHeader page else Inr (dHeader d)"
  obtain r1 d1 where ext: "extendTo (unat pid + 1) pid d = (r1, d1)" by fastforce
  then have f1: "frozen d d1" using extendTo_closed [OF assms, of "unat pid + 1" pid] by simp
  then obtain e d2 where w: "writePageBytes pid page False d1 = (Inl e, d2)" "frozen d1 d2"
    using writePageBytes_closed [of d1 pid page False] unfolding frozen_def [of d d1] by blast
  show ?thesis
    using ext f1 w frozen_trans [OF f1 w(2)] frozen_refl [OF assms]
    by (cases r1; cases ?h) (auto simp: writePhysicalPage_def act_bind_def throw_if_def split: if_splits)
qed

lemma diskStep_closed: "closed d \<Longrightarrow> frozen d (diskStep op d)"
proof (cases op)
  case (TruncateOp n)
  assume "closed d"
  then show ?thesis
    using TruncateOp flushDisk_closed [of d] frozen_refl [of d]
    by (cases "requireWriteEpochAvailable d") (auto simp: truncateToPageCount_def act_bind_def throw_if_def)
next
  case (WritePageOp pid page)
  assume "closed d"
  then show ?thesis
    using WritePageOp writePageBytes_closed [of d pid page True] frozen_refl [of d]
    by (cases "requireExistingDataPage pid d") (auto simp: writePage_def act_bind_def)
next
  case (AppendAtOp pid)
  assume "closed d"
  then show ?thesis using AppendAtOp appendPageAt_closed [of d pid] by auto
next
  case AppendPageOp
  assume "closed d"
  then show ?thesis using AppendPageOp appendPageAt_closed [of d "dPageCount d"] by (auto simp: appendPage_def)
next
  case FlushOp
  assume "closed d"
  then show ?thesis using FlushOp flushDisk_closed [of d] by auto
next
  case SyncPendingOp
  assume "closed d"
  then show ?thesis
    using SyncPendingOp sync_closed [of d] frozen_refl [of d]
    by (auto simp: syncPendingWritebacks_def act_bind_def requireWritable_def throw_if_def split: prod.splits sum.splits)
qed (auto simp: readPage_def readPhysicalPage_def reloadDatabaseHeader_def act_bind_def sync_closed load_closed
    writePhysicalPage_closed updateCatalogRootPageId_def updateFreeListRootPageId_def updateHeader_closed readBytesOf_closed frozen_refl split: sum.splits)

lemma diskRun_closed: "closed d \<Longrightarrow> frozen d (fold diskStep ops d)"
proof (induction ops arbitrary: d)
  case (Cons op ops)
  then have f: "frozen d (diskStep op d)" by (intro diskStep_closed)
  then have "frozen (diskStep op d) (fold diskStep ops (diskStep op d))" by (intro Cons.IH) (simp add: frozen_def)
  then show ?case using frozen_trans [OF f] by simp
qed (simp add: frozen_refl)

section \<open>Properties\<close>

text \<open>
  C7: after a database file has been opened and any sequence of operations has run, with any of
  the operating system's calls failing anywhere: if the write frontier reports nothing pending,
  everything written is durable; and while the file can be written, it consists of exactly
  \<open>pageCount\<close> pages, the first of which holds the header the manager has in memory.
\<close>

theorem disk_frontier_truthful:
  assumes "openDisk path content durable script = (Inr (), d0)"
    and "\<forall>op\<in>set ops. pageArgument op" and "d = fold diskStep ops d0"
  shows "(\<not> pending (dWriteback d) \<longrightarrow> dStable d = dFile d)
    \<and> (dOpen d \<and> \<not> writeFailure (dWriteback d) \<longrightarrow>
        length (dFile d) = unat (dPageCount d) * PAGE_SIZE
        \<and> deserializeDatabaseHeader (pageOf d METADATA_PAGE_ID) = Inr (dHeader d))"
proof -
  have "diskInv d" using diskRun_inv [OF openDisk_inv [OF assms(1)] assms(2)] assms(3) by simp
  then show ?thesis by (auto simp: diskInv_def frontierOk_def shapeOk_def)
qed

definition freshDisk :: disk where
  "freshDisk = snd (openDisk ''db'' None [] [])"

lemma freshDisk_open: "openDisk path None [] [] = (Inr (), snd (openDisk path None [] []))"
  by (simp add: openDisk_def openOrCreate_def DiskManager_def initializeDatabase_def persistDatabaseHeader_def
      serializeDatabaseHeader_def writePageBytes_def requireWriteEpochAvailable_def requireWritable_def throw_if_def
      newWriteback_def streamWrite_def streamFlush_def systemCall_def nextOutcome_def act_bind_def)

theorem disk_frontier_truthful_witness:
  "\<exists>d0 d. openDisk ''db'' None [] [] = (Inr (), d0)
     \<and> d = fold diskStep [AppendPageOp, WritePageOp 1 (replicate PAGE_SIZE 7), SyncOp] d0
     \<and> (\<not> pending (dWriteback d) \<longrightarrow> dStable d = dFile d)"
proof -
  let ?ops = "[AppendPageOp, WritePageOp 1 (replicate PAGE_SIZE 7), SyncOp]"
  have args: "\<forall>op\<in>set ?ops. pageArgument op" by simp
  show ?thesis
    using disk_frontier_truthful [OF freshDisk_open args refl, of "''db''"] freshDisk_open [of "''db''"] by blast
qed

text \<open>
  C36: a page write that succeeds changes that page and no other, leaves the number of pages and
  the header alone, and the next read of the page that the operating system serves returns it.
\<close>

theorem disk_write_read:
  assumes "diskInv d" and "length page = PAGE_SIZE" and "writePage pid page d = (Inr (), d')"
  shows "(\<forall>q<dPageCount d. pageOf d' q = (if q = pid then page else pageOf d q))
    \<and> dPageCount d' = dPageCount d \<and> dHeader d' = dHeader d
    \<and> (\<exists>d''. readPage pid (d'\<lparr>dScript := []\<rparr>) = (Inr page, d''))"
proof -
  have req: "requireExistingDataPage pid d = Inr ()" and w: "writePageBytes pid page True d = (Inr (), d')"
    using assms(3) by (auto simp: writePage_def act_bind_def split: sum.splits)
  have lt: "unat pid < unat (dPageCount d)"
    using req requireExistingDataPage_iff [of pid d "()"] by (simp add: word_less_nat_alt)
  from w show ?thesis
  proof (cases rule: writePageBytes_cases)
    case (written s)
    then have n: "length (dFile d) = unat (dPageCount d) * PAGE_SIZE"
      using assms(1) by (simp add: diskInv_def shapeOk_def)
    have d': "dFile d' = writeAt (dFile d) (unat pid * PAGE_SIZE) page" "dPageCount d' = dPageCount d"
      "dHeader d' = dHeader d" "dOpen d'"
      using written by simp_all
    have pages: "pageOf d' q = (if q = pid then page else pageOf d q)" if "q < dPageCount d" for q
    proof -
      have "unat pid = unat q \<longleftrightarrow> q = pid" by (auto simp: word_unat_eq_iff)
      then show ?thesis
        using subspan_writeAt [OF n assms(2) lt, of "unat q"] that by (simp add: pageOf_def d'(1) word_less_nat_alt)
    qed
    have "requireExistingDataPage pid (d'\<lparr>dScript := []\<rparr>) = Inr ()"
      using req by (simp add: requireExistingDataPage_iff d'(2))
    moreover have "subspan (dFile d') (unat pid * PAGE_SIZE) PAGE_SIZE = page"
      using pages [of pid] lt by (simp add: pageOf_def word_less_nat_alt)
    ultimately have "readPage pid (d'\<lparr>dScript := []\<rparr>) = (Inr page, d'\<lparr>dScript := []\<rparr>)"
      using assms(2) d'(4) by (simp add: readPage_def readBytesOf_def streamRead_def nextOutcome_def)
    then show ?thesis using pages d' by blast
  qed auto
qed

theorem disk_write_read_witness:
  "\<exists>d d'. diskInv d \<and> writePage 1 (replicate PAGE_SIZE 7) d = (Inr (), d') \<and> pageOf d' 1 = replicate PAGE_SIZE 7"
proof -
  obtain d0 where d0: "openDisk ''db'' None [] [] = (Inr (), d0)" using freshDisk_open by blast
  define d where "d = diskStep AppendPageOp d0"
  have inv: "diskInv d" unfolding d_def by (rule diskStep_inv [OF openDisk_inv [OF d0]]) simp
  have "dPageCount d0 = 1 \<and> dScript d0 = [] \<and> dOpen d0 \<and> dWriteback d0 = newWriteback\<lparr>physicalWriteEpoch := 1\<rparr>"
    using d0 by (auto simp: openDisk_def openOrCreate_def DiskManager_def initializeDatabase_def persistDatabaseHeader_def
        serializeDatabaseHeader_def writePageBytes_def requireWriteEpochAvailable_def requireWritable_def throw_if_def
        newWriteback_def streamWrite_def streamFlush_def systemCall_def nextOutcome_def act_bind_def)
  then have d: "dPageCount d = 2 \<and> dScript d = [] \<and> dOpen d \<and> dWriteback d = newWriteback\<lparr>physicalWriteEpoch := 2\<rparr>"
    by (simp add: d_def appendPage_def appendPageAt_def writePageBytes_def requireWriteEpochAvailable_def
        requireWritable_def throw_if_def newWriteback_def streamWrite_def streamFlush_def systemCall_def nextOutcome_def
        act_bind_def)
  moreover from d have "requireExistingDataPage 1 d = Inr ()" by (simp add: requireExistingDataPage_iff)
  ultimately obtain d' where w: "writePage 1 (replicate PAGE_SIZE 7) d = (Inr (), d')"
    by (simp add: writePage_def writePageBytes_def requireWriteEpochAvailable_def
        requireWritable_def throw_if_def newWriteback_def streamWrite_def streamFlush_def systemCall_def nextOutcome_def
        act_bind_def)
  have "pageOf d' 1 = replicate PAGE_SIZE 7"
    using disk_write_read [OF inv _ w] d by simp
  with inv w show ?thesis by blast
qed

text \<open>
  C37: a write that fails after touching the file closes it, and nothing that is called on a closed
  file, in any order, changes its content or its durable content or opens it again.
\<close>

theorem disk_failure_closes:
  "(fst (writePage pid page d) \<noteq> Inr () \<and> dFile (snd (writePage pid page d)) \<noteq> dFile d
      \<longrightarrow> closed (snd (writePage pid page d)))
   \<and> (closed d \<longrightarrow> closed (fold diskStep ops d) \<and> dFile (fold diskStep ops d) = dFile d
      \<and> dStable (fold diskStep ops d) = dStable d)"
proof -
  have "closed d'" if "writePage pid page d = (r, d')" "r \<noteq> Inr ()" "dFile d' \<noteq> dFile d" for r d'
  proof -
    have "writePageBytes pid page True d = (r, d')"
      using that by (auto simp: writePage_def act_bind_def split: sum.splits)
    then show ?thesis by (cases rule: writePageBytes_cases) (use that in \<open>auto simp: closed_def\<close>)
  qed
  from this [OF prod.collapse [symmetric]] show ?thesis using diskRun_closed [of d ops] by (simp add: frozen_def)
qed

theorem disk_failure_closes_witness:
  "let d = freshDisk\<lparr>dWriteback := (dWriteback freshDisk)\<lparr>writeFailure := True\<rparr>\<rparr> in
   dFile (fold diskStep [AppendPageOp, SyncOp, TruncateOp 1] d) = dFile d"
  using disk_failure_closes [of 1 "[]" freshDisk "[]"]
    disk_failure_closes [of 1 "[]" "freshDisk\<lparr>dWriteback := (dWriteback freshDisk)\<lparr>writeFailure := True\<rparr>\<rparr>"
      "[AppendPageOp, SyncOp, TruncateOp 1]"]
  by (simp add: closed_def Let_def del: diskStep.simps fold.simps)

end
