(* ===== verification/Action_Logic.thy ===== *)
theory Action_Logic
  imports Prelude
begin

text \<open>
  Weakest preconditions for the actions of the prelude. \<open>wp m Q E s\<close> says that \<open>m\<close>, run from \<open>s\<close>,
  either returns \<open>x\<close> in a state with \<open>Q x\<close> or throws \<open>e\<close> in a state with \<open>E e\<close>. The rules of the
  collection \<open>wp_rules\<close> are equations: rewriting with them takes an operation apart down to the
  operations it calls, whose own contracts are used through \<open>wp_conseq\<close>.
\<close>

named_theorems wp_rules

definition wp :: "('s, 'a) action \<Rightarrow> ('a \<Rightarrow> 's \<Rightarrow> bool) \<Rightarrow> (exn \<Rightarrow> 's \<Rightarrow> bool) \<Rightarrow> 's \<Rightarrow> bool" where
  "wp m Q E s = (case m s of (Inl e, s') \<Rightarrow> E e s' | (Inr x, s') \<Rightarrow> Q x s')"

lemma wp_iff: "wp m Q E s \<longleftrightarrow> (\<forall>s'. (\<forall>x. m s = (Inr x, s') \<longrightarrow> Q x s') \<and> (\<forall>e. m s = (Inl e, s') \<longrightarrow> E e s'))"
  by (auto simp: wp_def split: prod.splits sum.splits)

lemma wp_return [wp_rules]: "wp (act_return x) Q E s = Q x s"
  by (simp add: wp_def act_return_def)

lemma wp_throw [wp_rules]: "wp (act_throw e) Q E s = E e s"
  by (simp add: wp_def act_throw_def)

lemma wp_modify [wp_rules]: "wp (act_modify g) Q E s = Q () (g s)"
  by (simp add: wp_def act_modify_def)

lemma wp_lift [wp_rules]: "wp (act_lift h) Q E s = (case h s of Inl e \<Rightarrow> E e s | Inr x \<Rightarrow> Q x s)"
  by (auto simp: wp_def act_lift_def split: sum.splits)

lemma wp_bind [wp_rules]: "wp (act_bind m k) Q E s = wp m (\<lambda>x. wp (k x) Q E) E s"
  by (auto simp: wp_def act_bind_def split: prod.splits sum.splits)

lemma wp_value [wp_rules]: "wp (\<lambda>s. (Inr x, g s)) Q E s = Q x (g s)" "wp (\<lambda>s. (Inl e, g s)) Q E s = E e (g s)"
  by (simp_all add: wp_def)

lemma wp_if [wp_rules]: "wp (\<lambda>s. if c s then m s else n s) Q E s = (if c s then wp m Q E s else wp n Q E s)"
  by (simp add: wp_def)

lemma wp_if_fixed [wp_rules]: "wp (if c then m else n) Q E s = (if c then wp m Q E s else wp n Q E s)"
  by simp

lemma wp_conseq:
  assumes "wp m Q E s" "\<And>x s'. Q x s' \<Longrightarrow> Q' x s'" "\<And>e s'. E e s' \<Longrightarrow> E' e s'"
  shows "wp m Q' E' s"
  using assms by (auto simp: wp_iff)

lemma wp_and: "wp m Q E s \<Longrightarrow> wp m Q' E' s \<Longrightarrow> wp m (\<lambda>x s. Q x s \<and> Q' x s) (\<lambda>e s. E e s \<and> E' e s) s"
  by (auto simp: wp_iff)

lemma wp_result: "wp m Q E s \<Longrightarrow> m s = (r, s') \<Longrightarrow> (case r of Inl e \<Rightarrow> E e s' | Inr x \<Rightarrow> Q x s')"
  by (simp add: wp_def)

lemma wp_inv: "wp m (\<lambda>_. I) (\<lambda>_. I) s \<longleftrightarrow> I (snd (m s))"
  by (auto simp: wp_def split: prod.splits sum.splits)

lemma wp_state: "wp m Q E s \<longleftrightarrow> (case fst (m s) of Inl e \<Rightarrow> E e (snd (m s)) | Inr x \<Rightarrow> Q x (snd (m s)))"
  by (auto simp: wp_def split: prod.splits sum.splits)

end
