(* ===== verification/Buffer_Pool.thy ===== *)
theory Buffer_Pool
  imports LRU_K Disk_Manager Action_Logic
begin

text \<open>
  The buffer pool (\<open>include/minidb/buffer_pool_manager.hpp\<close>, \<open>src/buffer_pool_manager.cpp\<close>) and the
  page guards its clients hold (\<open>include/minidb/page_guard.hpp\<close>, \<open>src/page_guard.cpp\<close>).

  \<open>pool\<close> has the members of the class: the disk, the frames, the page table (an association list in
  insertion order, where the source has an unordered map), the queue of free frames, the LRU-K
  replacer and the counters. The WAL and the recovery coordinator are abstract classes to the pool
  (\<open>WalFlushProvider\<close>, \<open>PageRecoveryHook\<close>); \<open>wal_provider\<close> and \<open>recovery_hook\<close> have their virtual
  functions as fields, over a state \<open>'e\<close> of their own that is kept in \<open>pEnv\<close>, and a pool without one
  has \<open>None\<close>. Exceptions leave the state behind that the source leaves behind.

  The model is that of one thread, whose calls run to completion one after the other: the latches
  never block it. The thread's leases on frame contents, \<open>readLocks\<close> and \<open>writeLocks\<close> of
  \<open>page_guard.cpp\<close>, are \<open>pReaders\<close>, one entry per live read guard, and \<open>pWriters\<close>. The counters of
  latch waits and of elapsed time and the fail points are not modelled. A reader that has to wait for
  a frame gets \<open>MustWait\<close>, and \<open>fetchResume\<close> is what it does when it is woken.

  The lemmas: the bookkeeping that \<open>validate\<close> checks is invariant, also after exceptions; the pool
  shows its clients one logical page per page id, whatever is cached, evicted or flushed in
  between; a page is written to disk only after its log records are durable.
\<close>

section \<open>State\<close>

definition INVALID_FRAME_ID :: u32 where
  "INVALID_FRAME_ID = - 1"

record frame =
  fData :: page
  fPageId :: page_id
  fPinCount :: u32
  fDirty :: bool
  fValid :: bool
  fPageLsn :: lsn
  fRecLsn :: lsn
  fRetired :: bool
  fPendingWal :: bool

definition emptyFrame :: frame where
  "emptyFrame = \<lparr>fData = replicate PAGE_SIZE 0, fPageId = INVALID_PAGE_ID, fPinCount = 0, fDirty = False,
     fValid = False, fPageLsn = INVALID_LSN, fRecLsn = INVALID_LSN, fRetired = False, fPendingWal = False\<rparr>"

record pool_stats =
  pageRequests :: u64
  cacheHits :: u64
  cacheMisses :: u64
  physicalPageReads :: u64
  physicalPageWrites :: u64
  evictions :: u64
  dirtyEvictions :: u64
  pinOperations :: u64
  unpinOperations :: u64
  appendedPages :: u64
  walFlushRequests :: u64
  residentPagesStat :: u64
  pinnedFramesStat :: u64
  evictableFramesStat :: u64
  capacityStat :: u64
  frameAvailabilityWaits :: u64
  cleanDependenciesRetired :: u64
  dirtyDependenciesPreserved :: u64
  dependenciesRenewed :: u64
  historicalMissingWal :: u64
  liveMissingWal :: u64
  retirementCalls :: u64
  retirementFailures :: u64

definition zeroStats :: pool_stats where
  "zeroStats = \<lparr>pageRequests = 0, cacheHits = 0, cacheMisses = 0, physicalPageReads = 0,
     physicalPageWrites = 0, evictions = 0, dirtyEvictions = 0, pinOperations = 0, unpinOperations = 0,
     appendedPages = 0, walFlushRequests = 0, residentPagesStat = 0, pinnedFramesStat = 0,
     evictableFramesStat = 0, capacityStat = 0, frameAvailabilityWaits = 0, cleanDependenciesRetired = 0,
     dirtyDependenciesPreserved = 0, dependenciesRenewed = 0, historicalMissingWal = 0, liveMissingWal = 0,
     retirementCalls = 0, retirementFailures = 0\<rparr>"

record 'e pool =
  pDisk :: disk
  pFrames :: "frame list"
  pTable :: "(page_id \<times> nat) list"
  pFree :: "nat list"
  pReplacer :: lru_k
  pStats :: pool_stats
  pWaitForRead :: bool
  pFlushOnDestruction :: bool
  pReaders :: "nat list"
  pWriters :: "nat list"
  pEnv :: 'e

record 'e wal_provider =
  durableLsn :: "'e \<Rightarrow> lsn"
  containsLsn :: "'e \<Rightarrow> lsn \<Rightarrow> bool"
  flushUpTo :: "lsn \<Rightarrow> ('e, unit) action"

text \<open>\<open>preparePageForWrite\<close> updates the page it is given in place: it returns the page it leaves.\<close>

record 'e recovery_hook =
  needsPreparation :: "'e \<Rightarrow> bool"
  prepareForPhysicalPageAppend :: "page_id \<Rightarrow> ('e, unit) action"
  notePhysicalPageAppend :: "page_id \<Rightarrow> ('e, unit) action"
  notePageWriteIntent :: "page_id \<Rightarrow> page \<Rightarrow> ('e, unit) action"
  preparePageForWrite :: "page_id \<Rightarrow> page \<Rightarrow> 'e \<Rightarrow> lsn res \<times> page \<times> 'e"

record 'e services =
  walProvider :: "'e wal_provider option"
  recoveryHook :: "'e recovery_hook option"

section \<open>Steps on parts of the state\<close>

definition onDisk :: "(disk, 'a) action \<Rightarrow> ('e pool, 'a) action" where
  "onDisk m P = (case m (pDisk P) of (r, d) \<Rightarrow> (r, P\<lparr>pDisk := d\<rparr>))"

definition onReplacer :: "(lru_k, 'a) action \<Rightarrow> ('e pool, 'a) action" where
  "onReplacer m P = (case m (pReplacer P) of (r, x) \<Rightarrow> (r, P\<lparr>pReplacer := x\<rparr>))"

definition onEnv :: "('e, 'a) action \<Rightarrow> ('e pool, 'a) action" where
  "onEnv m P = (case m (pEnv P) of (r, e) \<Rightarrow> (r, P\<lparr>pEnv := e\<rparr>))"

definition setFrame :: "nat \<Rightarrow> (frame \<Rightarrow> frame) \<Rightarrow> 'e pool \<Rightarrow> 'e pool" where
  "setFrame f g P = P\<lparr>pFrames := (pFrames P)[f := g (pFrames P ! f)]\<rparr>"

definition bump :: "(pool_stats \<Rightarrow> pool_stats) \<Rightarrow> ('e pool, unit) action" where
  "bump g = act_modify (\<lambda>P. P\<lparr>pStats := g (pStats P)\<rparr>)"

definition throwWhen :: "('e pool \<Rightarrow> bool) \<Rightarrow> exn \<Rightarrow> ('e pool, unit) action" where
  "throwWhen c e = act_lift (\<lambda>P. throw_if (c P) e)"

primrec forEach :: "nat list \<Rightarrow> (nat \<Rightarrow> ('s, unit) action) \<Rightarrow> ('s, unit) action" where
  "forEach [] body = act_return ()"
| "forEach (i # is) body = act_bind (body i) (\<lambda>_. forEach is body)"

text \<open>\<open>frames_.at(frameId)\<close>.\<close>

definition requireFrame :: "nat \<Rightarrow> ('e pool, unit) action" where
  "requireFrame f = throwWhen (\<lambda>P. f \<ge> length (pFrames P)) (OutOfRange ''vector::at'')"

definition walContains :: "'e services \<Rightarrow> 'e \<Rightarrow> lsn \<Rightarrow> bool" where
  "walContains svc e l = (case walProvider svc of None \<Rightarrow> False | Some w \<Rightarrow> containsLsn w e l)"

section \<open>Construction\<close>

definition BufferPoolManager :: "disk \<Rightarrow> nat \<Rightarrow> nat \<Rightarrow> bool \<Rightarrow> 'e \<Rightarrow> 'e pool res" where
  "BufferPoolManager d frameCount k waitForReadFrames env =
     res_bind (LRUKReplacer frameCount k) (\<lambda>replacer.
     if frameCount = 0 then Inl (InvalidArgument ''Buffer pool capacity must be positive'')
     else if frameCount > 0xFFFFFFFF then Inl (InvalidArgument ''Buffer pool capacity exceeds FrameId range'')
     else Inr \<lparr>pDisk = d, pFrames = replicate frameCount emptyFrame, pTable = [], pFree = [0..<frameCount],
               pReplacer = replacer, pStats = zeroStats, pWaitForRead = waitForReadFrames,
               pFlushOnDestruction = True, pReaders = [], pWriters = [], pEnv = env\<rparr>)"

definition availableFrame :: "'e pool \<Rightarrow> nat option" where
  "availableFrame P = (case pFree P of f # _ \<Rightarrow> Some f | [] \<Rightarrow> victim (pReplacer P))"

section \<open>Log dependencies\<close>

definition assignPreparedLsn :: "'e services \<Rightarrow> nat \<Rightarrow> lsn \<Rightarrow> ('e pool, unit) action" where
  "assignPreparedLsn svc f l =
     act_bind (throwWhen (\<lambda>P. \<not> walContains svc (pEnv P) l)
       (InvalidArgument ''pageLSN must identify a record appended by the WAL provider'')) (\<lambda>_.
     act_bind (throwWhen (\<lambda>P. isValidLsn (fPageLsn (pFrames P ! f)) \<and> l < fPageLsn (pFrames P ! f))
       (InvalidArgument ''pageLSN cannot move backward'')) (\<lambda>_.
     act_bind (act_modify (\<lambda>P. if fRetired (pFrames P ! f)
       then P\<lparr>pStats := (pStats P)\<lparr>dependenciesRenewed := dependenciesRenewed (pStats P) + 1\<rparr>\<rparr> else P)) (\<lambda>_.
     act_modify (setFrame f (\<lambda>fr. fr\<lparr>fPageLsn := l, fRetired := False, fPendingWal := False,
       fRecLsn := (if fDirty fr \<and> \<not> isValidLsn (fRecLsn fr) then l else fRecLsn fr)\<rparr>)))))"

definition prepareFrameForWrite :: "'e services \<Rightarrow> nat \<Rightarrow> ('e pool, unit) action" where
  "prepareFrameForWrite svc f P =
     (if \<not> fDirty (pFrames P ! f) then (Inr (), P)
      else case recoveryHook svc of
        None \<Rightarrow> (Inr (), P)
      | Some hook \<Rightarrow>
          if \<not> needsPreparation hook (pEnv P) then (Inr (), P)
          else case preparePageForWrite hook (fPageId (pFrames P ! f)) (fData (pFrames P ! f)) (pEnv P) of
            (r, after, env) \<Rightarrow>
              (let P1 = (setFrame f (\<lambda>fr. fr\<lparr>fData := after\<rparr>) P)\<lparr>pEnv := env\<rparr> in
               case r of
                 Inl e \<Rightarrow> (Inl e, P1)
               | Inr l \<Rightarrow>
                   act_bind (if isValidLsn l then assignPreparedLsn svc f l
                     else act_modify (setFrame f (\<lambda>fr.
                       if \<not> isValidLsn (fRecLsn fr) then fr\<lparr>fDirty := False\<rparr> else fr))) (\<lambda>_.
                   act_modify (setFrame f (\<lambda>fr. fr\<lparr>fPendingWal := False\<rparr>))) P1))"

definition validateWalDependency :: "'e services \<Rightarrow> frame \<Rightarrow> bool \<Rightarrow> ('e pool, unit) action" where
  "validateWalDependency svc fr forWrite P =
     (if fPendingWal fr \<and> (\<not> fDirty fr \<or> forWrite)
      then (Inl (LogicError ''Pending WAL write intent is not prepared for persistence''), P)
      else if fRetired fr \<and> fDirty fr \<and> \<not> fPendingWal fr
      then (Inl (LogicError ''Dirty frame cannot use a retired WAL dependency''), P)
      else if isValidLsn (fPageLsn fr) \<and> \<not> fRetired fr \<and> \<not> walContains svc (pEnv P) (fPageLsn fr)
      then (Inl (LogicError ''Buffer frame pageLSN is unknown to its WAL provider''),
            P\<lparr>pStats := (pStats P)\<lparr>liveMissingWal := liveMissingWal (pStats P) + 1\<rparr>\<rparr>)
      else if (\<not> fDirty fr \<and> isValidLsn (fRecLsn fr))
        \<or> (isValidLsn (fRecLsn fr) \<and> (\<not> isValidLsn (fPageLsn fr) \<or> fRecLsn fr > fPageLsn fr))
        \<or> (fDirty fr \<and> walProvider svc \<noteq> None \<and> \<not> fPendingWal fr
            \<and> (\<not> isValidLsn (fPageLsn fr) \<or> \<not> isValidLsn (fRecLsn fr)))
      then (Inl (LogicError ''Buffer frame recLSN is inconsistent with dirty state''), P)
      else if isValidLsn (fRecLsn fr) \<and> \<not> walContains svc (pEnv P) (fRecLsn fr)
      then (Inl (LogicError ''Buffer frame recLSN is unknown to its WAL provider''),
            P\<lparr>pStats := (pStats P)\<lparr>liveMissingWal := liveMissingWal (pStats P) + 1\<rparr>\<rparr>)
      else if fRetired fr \<and> isValidLsn (fPageLsn fr) \<and> walProvider svc \<noteq> None
        \<and> \<not> walContains svc (pEnv P) (fPageLsn fr)
      then (Inr (), P\<lparr>pStats := (pStats P)\<lparr>historicalMissingWal := historicalMissingWal (pStats P) + 1\<rparr>\<rparr>)
      else (Inr (), P))"

definition ensureWalDurable :: "'e services \<Rightarrow> lsn \<Rightarrow> ('e pool, unit) action" where
  "ensureWalDurable svc l P =
     (if \<not> isValidLsn l then (Inr (), P)
      else case walProvider svc of
        None \<Rightarrow> (Inl (LogicError ''A page has a valid pageLSN without a WAL provider''), P)
      | Some w \<Rightarrow>
          if \<not> containsLsn w (pEnv P) l
          then (Inl (LogicError ''A pageLSN no longer identifies a known WAL record''), P)
          else if isValidLsn (durableLsn w (pEnv P)) \<and> durableLsn w (pEnv P) \<ge> l then (Inr (), P)
          else act_bind (bump (\<lambda>s. s\<lparr>walFlushRequests := walFlushRequests s + 1\<rparr>)) (\<lambda>_.
            onEnv (flushUpTo w l)) P)"

definition ensureWalDurableBeforePageWrite :: "'e services \<Rightarrow> nat \<Rightarrow> ('e pool, unit) action" where
  "ensureWalDurableBeforePageWrite svc f P =
     act_bind (validateWalDependency svc (pFrames P ! f) True) (\<lambda>_.
       if \<not> fRetired (pFrames P ! f) then ensureWalDurable svc (fPageLsn (pFrames P ! f)) else act_return ()) P"

section \<open>Writing frames back\<close>

definition markWritten :: "nat \<Rightarrow> ('e pool, unit) action" where
  "markWritten f =
     act_bind (act_modify (setFrame f (\<lambda>fr. fr\<lparr>fDirty := False, fRecLsn := INVALID_LSN\<rparr>))) (\<lambda>_.
     bump (\<lambda>s. s\<lparr>physicalPageWrites := physicalPageWrites s + 1\<rparr>))"

definition writeFrame :: "nat \<Rightarrow> ('e pool, unit) action" where
  "writeFrame f P = act_bind (onDisk (writePage (fPageId (pFrames P ! f)) (fData (pFrames P ! f)))) (\<lambda>_.
     markWritten f) P"

definition flushUnpinnedDirtyFrame :: "'e services \<Rightarrow> nat \<Rightarrow> ('e pool, unit) action" where
  "flushUnpinnedDirtyFrame svc f =
     act_bind (prepareFrameForWrite svc f) (\<lambda>_.
     act_bind (ensureWalDurableBeforePageWrite svc f) (\<lambda>_.
     writeFrame f))"

definition flushVictimIfDirty :: "'e services \<Rightarrow> nat \<Rightarrow> ('e pool, unit) action" where
  "flushVictimIfDirty svc f =
     act_bind (requireFrame f) (\<lambda>_ P.
     if \<not> fValid (pFrames P ! f) then (Inr (), P)
     else if fPinCount (pFrames P ! f) \<noteq> 0
     then (Inl (LogicError ''Selected buffer victim is not evictable''), P)
     else if \<not> fDirty (pFrames P ! f) then (Inr (), P)
     else flushUnpinnedDirtyFrame svc f P)"

section \<open>Installing a page\<close>

definition releaseVictim :: "nat \<Rightarrow> ('e pool, unit) action" where
  "releaseVictim f =
     act_bind (onReplacer (remove f)) (\<lambda>removed.
     act_bind (throwWhen (\<lambda>_. \<not> removed) (LogicError ''Victim frame was absent from LRU-K replacer'')) (\<lambda>_.
     act_bind (throwWhen (\<lambda>P. fPageId (pFrames P ! f) \<notin> fst ` set (pTable P))
       (LogicError ''Victim frame was absent from page table'')) (\<lambda>_.
     act_bind (act_modify (\<lambda>P. P\<lparr>pTable := filter (\<lambda>(p, _). p \<noteq> fPageId (pFrames P ! f)) (pTable P)\<rparr>)) (\<lambda>_.
     bump (\<lambda>s. s\<lparr>evictions := evictions s + 1\<rparr>)))))"

definition takeFreeFrame :: "nat \<Rightarrow> ('e pool, unit) action" where
  "takeFreeFrame f =
     act_bind (throwWhen (\<lambda>P. pFree P = [] \<or> hd (pFree P) \<noteq> f)
       (LogicError ''Free-frame queue is inconsistent'')) (\<lambda>_.
     act_modify (\<lambda>P. P\<lparr>pFree := tl (pFree P)\<rparr>))"

definition installPage :: "nat \<Rightarrow> page_id \<Rightarrow> page \<Rightarrow> bool \<Rightarrow> ('e pool, unit) action" where
  "installPage f pid page dirty =
     act_bind (requireFrame f) (\<lambda>_.
     act_bind (throwWhen (\<lambda>P. fValid (pFrames P ! f) \<and> fDirty (pFrames P ! f))
       (LogicError ''Dirty victim was not flushed before reuse'')) (\<lambda>_.
     act_bind (\<lambda>P. if fValid (pFrames P ! f) then releaseVictim f P else takeFreeFrame f P) (\<lambda>_.
     act_bind (act_modify (setFrame f (\<lambda>_. \<lparr>fData = page, fPageId = pid, fPinCount = 1, fDirty = dirty,
       fValid = True, fPageLsn = INVALID_LSN, fRecLsn = INVALID_LSN, fRetired = False,
       fPendingWal = False\<rparr>))) (\<lambda>_.
     act_bind (throwWhen (\<lambda>P. pid \<in> fst ` set (pTable P))
       (LogicError ''Page already exists in buffer page table'')) (\<lambda>_.
     act_bind (act_modify (\<lambda>P. P\<lparr>pTable := pTable P @ [(pid, f)]\<rparr>)) (\<lambda>_.
     act_bind (onReplacer (recordAccess f)) (\<lambda>_.
     act_bind (onReplacer (setEvictable f False)) (\<lambda>_.
     bump (\<lambda>s. s\<lparr>pinOperations := pinOperations s + 1\<rparr>)))))))))"

section \<open>Pins and guard access\<close>

definition releasePin :: "nat \<Rightarrow> ('e pool, unit) action" where
  "releasePin f =
     act_bind (requireFrame f) (\<lambda>_.
     act_bind (throwWhen (\<lambda>P. \<not> fValid (pFrames P ! f) \<or> fPinCount (pFrames P ! f) = 0)
       (LogicError ''Buffer frame pin count underflow'')) (\<lambda>_.
     act_bind (act_modify (setFrame f (\<lambda>fr. fr\<lparr>fPinCount := fPinCount fr - 1\<rparr>))) (\<lambda>_.
     act_bind (bump (\<lambda>s. s\<lparr>unpinOperations := unpinOperations s + 1\<rparr>)) (\<lambda>_ P.
     if fPinCount (pFrames P ! f) = 0 then onReplacer (setEvictable f True) P else (Inr (), P)))))"

definition requireGuardFrame :: "nat \<Rightarrow> page_id \<Rightarrow> ('e pool, unit) action" where
  "requireGuardFrame f pid =
     act_bind (requireFrame f) (\<lambda>_.
     throwWhen (\<lambda>P. \<not> fValid (pFrames P ! f) \<or> fPageId (pFrames P ! f) \<noteq> pid \<or> fPinCount (pFrames P ! f) = 0)
       (LogicError ''Page guard no longer identifies a pinned frame''))"

definition markIntent :: "'e services \<Rightarrow> nat \<Rightarrow> ('e pool, unit) action" where
  "markIntent svc f = act_modify (setFrame f (\<lambda>fr. fr\<lparr>fDirty := True,
     fPendingWal := (if walProvider svc \<noteq> None then True else fPendingWal fr)\<rparr>))"

definition noteGuardWriteIntent :: "'e services \<Rightarrow> nat \<Rightarrow> page_id \<Rightarrow> ('e pool, unit) action" where
  "noteGuardWriteIntent svc f pid =
     act_bind (requireGuardFrame f pid) (\<lambda>_.
     act_bind (\<lambda>P. case recoveryHook svc of None \<Rightarrow> (Inr (), P)
       | Some hook \<Rightarrow> onEnv (notePageWriteIntent hook pid (fData (pFrames P ! f))) P) (\<lambda>_.
     markIntent svc f))"

definition readData :: "nat \<Rightarrow> page_id \<Rightarrow> ('e pool, page) action" where
  "readData f pid = act_bind (requireGuardFrame f pid) (\<lambda>_.
     act_lift (\<lambda>P. Inr (fData (pFrames P ! f))))"

text \<open>\<open>mutableData\<close>, and the bytes the client then stores through the span it returns.\<close>

definition mutableData :: "'e services \<Rightarrow> nat \<Rightarrow> page_id \<Rightarrow> page \<Rightarrow> ('e pool, unit) action" where
  "mutableData svc f pid page =
     act_bind (requireGuardFrame f pid) (\<lambda>_.
     act_bind (markIntent svc f) (\<lambda>_.
     act_modify (setFrame f (\<lambda>fr. fr\<lparr>fData := page\<rparr>))))"

definition guardPageLsn :: "nat \<Rightarrow> page_id \<Rightarrow> ('e pool, lsn) action" where
  "guardPageLsn f pid = act_bind (requireGuardFrame f pid) (\<lambda>_.
     act_lift (\<lambda>P. Inr (fPageLsn (pFrames P ! f))))"

definition setPageLsn :: "'e services \<Rightarrow> nat \<Rightarrow> page_id \<Rightarrow> lsn \<Rightarrow> ('e pool, unit) action" where
  "setPageLsn svc f pid l =
     act_bind (requireGuardFrame f pid) (\<lambda>_.
     act_bind (throwWhen (\<lambda>_. \<not> isValidLsn l)
       (InvalidArgument ''WritePageGuard cannot assign INVALID_LSN'')) (\<lambda>_.
     assignPreparedLsn svc f l))"

section \<open>Guards\<close>

text \<open>A guard that was dropped or moved from owns nothing: \<open>manager_\<close> is null.\<close>

record guard =
  gOwns :: bool
  gFrame :: nat
  gPage :: page_id
  gWritable :: bool

definition droppedGuard :: "bool \<Rightarrow> guard" where
  "droppedGuard writable = \<lparr>gOwns = False, gFrame = unat INVALID_FRAME_ID, gPage = INVALID_PAGE_ID,
     gWritable = writable\<rparr>"

definition lockContent :: "nat \<Rightarrow> bool \<Rightarrow> ('e pool, unit) action" where
  "lockContent f writable =
     act_bind (requireFrame f) (\<lambda>_.
     act_bind (throwWhen (\<lambda>P. f \<in> set (pWriters P))
       (LogicError ''Frame content leases are not recursively writable'')) (\<lambda>_.
     if writable then
       act_bind (throwWhen (\<lambda>P. f \<in> set (pReaders P))
         (LogicError ''Release read guards before acquiring write access to the same frame'')) (\<lambda>_.
       act_modify (\<lambda>P. P\<lparr>pWriters := f # pWriters P\<rparr>))
     else act_modify (\<lambda>P. P\<lparr>pReaders := f # pReaders P\<rparr>)))"

definition unlockContent :: "nat \<Rightarrow> bool \<Rightarrow> 'e pool \<Rightarrow> 'e pool" where
  "unlockContent f writable P = (if writable then P\<lparr>pWriters := remove1 f (pWriters P)\<rparr>
     else P\<lparr>pReaders := remove1 f (pReaders P)\<rparr>)"

definition BasicPageGuard :: "'e services \<Rightarrow> nat \<Rightarrow> page_id \<Rightarrow> bool \<Rightarrow> ('e pool, guard) action" where
  "BasicPageGuard svc f pid writable P =
     (let guard = \<lparr>gOwns = True, gFrame = f, gPage = pid, gWritable = writable\<rparr> in
      case lockContent f writable P of
        (Inl e, P) \<Rightarrow> act_bind (releasePin f) (\<lambda>_. act_throw e) P
      | (Inr _, P) \<Rightarrow>
          if \<not> writable then (Inr guard, P)
          else case noteGuardWriteIntent svc f pid P of
            (Inr _, P) \<Rightarrow> (Inr guard, P)
          | (Inl e, P) \<Rightarrow> act_bind (releasePin f) (\<lambda>_. act_throw e) (unlockContent f writable P))"

text \<open>\<open>drop\<close>; the guard it leaves is \<open>droppedGuard\<close>, also when it throws.\<close>

definition dropGuard :: "guard \<Rightarrow> ('e pool, unit) action" where
  "dropGuard g = (if \<not> gOwns g then act_return ()
     else act_bind (act_modify (unlockContent (gFrame g) (gWritable g))) (\<lambda>_. releasePin (gFrame g)))"

definition requireOwner :: "guard \<Rightarrow> ('e pool, unit) action" where
  "requireOwner g = throwWhen (\<lambda>_. \<not> gOwns g) (LogicError ''Page guard no longer owns a pin'')"

definition guardData :: "guard \<Rightarrow> ('e pool, page) action" where
  "guardData g = act_bind (requireOwner g) (\<lambda>_. readData (gFrame g) (gPage g))"

definition guardMutableData :: "'e services \<Rightarrow> guard \<Rightarrow> page \<Rightarrow> ('e pool, unit) action" where
  "guardMutableData svc g page = act_bind (requireOwner g) (\<lambda>_. mutableData svc (gFrame g) (gPage g) page)"

definition guardLsn :: "guard \<Rightarrow> ('e pool, lsn) action" where
  "guardLsn g = act_bind (requireOwner g) (\<lambda>_. guardPageLsn (gFrame g) (gPage g))"

definition guardSetPageLsn :: "'e services \<Rightarrow> guard \<Rightarrow> lsn \<Rightarrow> ('e pool, unit) action" where
  "guardSetPageLsn svc g l = act_bind (requireOwner g) (\<lambda>_. setPageLsn svc (gFrame g) (gPage g) l)"

section \<open>Fetching\<close>

datatype fetch_result = Fetched guard | NoFrame | MustWait

definition requirePoolPage :: "page_id \<Rightarrow> ('e pool, unit) action" where
  "requirePoolPage pid =
     act_bind (throwWhen (\<lambda>_. pid = METADATA_PAGE_ID)
       (InvalidArgument ''Page 0 is reserved for database metadata'')) (\<lambda>_.
     throwWhen (\<lambda>P. pid = INVALID_PAGE_ID \<or> pid \<ge> dPageCount (pDisk P)) (OutOfRange ''Page ID does not exist''))"

definition fetchHit :: "'e services \<Rightarrow> nat \<Rightarrow> page_id \<Rightarrow> bool \<Rightarrow> ('e pool, fetch_result) action" where
  "fetchHit svc f pid writable =
     act_bind (bump (\<lambda>s. s\<lparr>cacheHits := cacheHits s + 1\<rparr>)) (\<lambda>_.
     act_bind (throwWhen (\<lambda>P. fPinCount (pFrames P ! f) = 0xFFFFFFFF)
       (OverflowError ''Buffer frame pin count exhausted'')) (\<lambda>_.
     act_bind (\<lambda>P. if fPinCount (pFrames P ! f) = 0 then onReplacer (setEvictable f False) P
       else (Inr (), P)) (\<lambda>_.
     act_bind (act_modify (setFrame f (\<lambda>fr. fr\<lparr>fPinCount := fPinCount fr + 1\<rparr>))) (\<lambda>_.
     act_bind (onReplacer (recordAccess f)) (\<lambda>_.
     act_bind (bump (\<lambda>s. s\<lparr>pinOperations := pinOperations s + 1\<rparr>)) (\<lambda>_.
     act_bind (BasicPageGuard svc f pid writable) (\<lambda>g. act_return (Fetched g))))))))"

definition fetchMiss :: "'e services \<Rightarrow> nat \<Rightarrow> page_id \<Rightarrow> bool \<Rightarrow> ('e pool, fetch_result) action" where
  "fetchMiss svc f pid writable P =
     (let dirtyVictim = fValid (pFrames P ! f) \<and> fDirty (pFrames P ! f) in
      act_bind (flushVictimIfDirty svc f) (\<lambda>_.
      act_bind (onDisk (readPage pid)) (\<lambda>page.
      act_bind (bump (\<lambda>s. s\<lparr>physicalPageReads := physicalPageReads s + 1\<rparr>)) (\<lambda>_.
      act_bind (installPage f pid page False) (\<lambda>_.
      act_bind (bump (\<lambda>s. if dirtyVictim then s\<lparr>dirtyEvictions := dirtyEvictions s + 1\<rparr> else s)) (\<lambda>_.
      act_bind (BasicPageGuard svc f pid writable) (\<lambda>g. act_return (Fetched g))))))) P)"

definition fetchResume :: "'e services \<Rightarrow> page_id \<Rightarrow> bool \<Rightarrow> ('e pool, fetch_result) action" where
  "fetchResume svc pid writable P =
     (case map_of (pTable P) pid of
        Some f \<Rightarrow> fetchHit svc f pid writable P
      | None \<Rightarrow> (case availableFrame P of
          None \<Rightarrow>
            if \<not> writable \<and> pWaitForRead P
            then act_bind (bump (\<lambda>s. s\<lparr>frameAvailabilityWaits := frameAvailabilityWaits s + 1\<rparr>)) (\<lambda>_.
              act_return MustWait) P
            else act_bind (bump (\<lambda>s. s\<lparr>cacheMisses := cacheMisses s + 1\<rparr>)) (\<lambda>_. act_return NoFrame) P
        | Some f \<Rightarrow> act_bind (bump (\<lambda>s. s\<lparr>cacheMisses := cacheMisses s + 1\<rparr>)) (\<lambda>_.
              fetchMiss svc f pid writable) P))"

definition fetchPage :: "'e services \<Rightarrow> page_id \<Rightarrow> bool \<Rightarrow> ('e pool, fetch_result) action" where
  "fetchPage svc pid writable =
     act_bind (requirePoolPage pid) (\<lambda>_.
     act_bind (bump (\<lambda>s. s\<lparr>pageRequests := pageRequests s + 1\<rparr>)) (\<lambda>_.
     fetchResume svc pid writable))"

definition hookAppend ::
  "'e services \<Rightarrow> ('e recovery_hook \<Rightarrow> page_id \<Rightarrow> ('e, unit) action) \<Rightarrow> page_id \<Rightarrow> ('e pool, unit) action"
where
  "hookAppend svc call pid = (case recoveryHook svc of None \<Rightarrow> act_return ()
     | Some hook \<Rightarrow> onEnv (call hook pid))"

definition appendInto :: "'e services \<Rightarrow> page_id \<Rightarrow> nat \<Rightarrow> ('e pool, guard option) action" where
  "appendInto svc expectedPageId f P =
     (let dirtyVictim = fValid (pFrames P ! f) \<and> fDirty (pFrames P ! f) in
      act_bind (flushVictimIfDirty svc f) (\<lambda>_.
      act_bind (onDisk (appendPageAt expectedPageId)) (\<lambda>pid.
      act_bind (installPage f pid (replicate PAGE_SIZE 0) True) (\<lambda>_.
      act_bind (bump (\<lambda>s. if dirtyVictim then s\<lparr>dirtyEvictions := dirtyEvictions s + 1\<rparr> else s)) (\<lambda>_.
      act_bind (bump (\<lambda>s. s\<lparr>appendedPages := appendedPages s + 1\<rparr>)) (\<lambda>_.
      act_bind (hookAppend svc notePhysicalPageAppend pid) (\<lambda>_.
      act_bind (BasicPageGuard svc f pid True) (\<lambda>g. act_return (Some g)))))))) P)"

definition newPageWrite :: "'e services \<Rightarrow> ('e pool, guard option) action" where
  "newPageWrite svc P =
     (case availableFrame P of None \<Rightarrow> (Inr None, P)
      | Some _ \<Rightarrow>
        (let expectedPageId = dPageCount (pDisk P) in
         act_bind (hookAppend svc prepareForPhysicalPageAppend expectedPageId) (\<lambda>_ P.
         case availableFrame P of None \<Rightarrow> (Inr None, P)
         | Some f \<Rightarrow> appendInto svc expectedPageId f P) P))"

section \<open>Flushing\<close>

definition flushPage :: "'e services \<Rightarrow> page_id \<Rightarrow> ('e pool, bool) action" where
  "flushPage svc pid =
     act_bind (requirePoolPage pid) (\<lambda>_ P.
     case map_of (pTable P) pid of None \<Rightarrow> (Inr False, P)
     | Some f \<Rightarrow>
         if \<not> fDirty (pFrames P ! f) then (Inr True, P)
         else if fPinCount (pFrames P ! f) \<noteq> 0
         then (Inl (LogicError ''Cannot flush a dirty pinned page; release guards first''), P)
         else act_bind (flushUnpinnedDirtyFrame svc f) (\<lambda>_. act_return True) P)"

abbreviation isDirtyFrame :: "frame \<Rightarrow> bool" where
  "isDirtyFrame fr \<equiv> fValid fr \<and> fDirty fr"

definition prepareAll :: "'e services \<Rightarrow> nat list \<Rightarrow> ('e pool, unit) action" where
  "prepareAll svc fs = forEach fs (\<lambda>f P.
     if isDirtyFrame (pFrames P ! f) then prepareFrameForWrite svc f P else (Inr (), P))"

primrec maximumLsn :: "'e services \<Rightarrow> nat list \<Rightarrow> lsn \<Rightarrow> ('e pool, lsn) action" where
  "maximumLsn svc [] m = act_return m"
| "maximumLsn svc (f # fs) m = (\<lambda>P.
     if \<not> isDirtyFrame (pFrames P ! f) then maximumLsn svc fs m P
     else act_bind (validateWalDependency svc (pFrames P ! f) True) (\<lambda>_.
       maximumLsn svc fs
         (if isValidLsn (fPageLsn (pFrames P ! f))
            \<and> (\<not> isValidLsn m \<or> fPageLsn (pFrames P ! f) > m)
          then fPageLsn (pFrames P ! f) else m)) P)"

definition writeAll :: "nat list \<Rightarrow> ('e pool, unit) action" where
  "writeAll fs = forEach fs (\<lambda>f P. if isDirtyFrame (pFrames P ! f) then writeFrame f P else (Inr (), P))"

definition flushAll :: "'e services \<Rightarrow> ('e pool, unit) action" where
  "flushAll svc P =
     (let fs = [0..<length (pFrames P)] in
      act_bind (throwWhen (\<lambda>P. \<exists>fr\<in>set (pFrames P). isDirtyFrame fr \<and> fPinCount fr \<noteq> 0)
        (LogicError ''Cannot flush dirty pinned pages; release guards first'')) (\<lambda>_.
      act_bind (prepareAll svc fs) (\<lambda>_.
      act_bind (maximumLsn svc fs INVALID_LSN) (\<lambda>m.
      act_bind (ensureWalDurable svc m) (\<lambda>_.
      act_bind (writeAll fs) (\<lambda>_.
      onDisk flushDisk))))) P)"

text \<open>The destructor swallows what \<open>flushAll\<close> throws.\<close>

definition destroyPool :: "'e services \<Rightarrow> 'e pool \<Rightarrow> 'e pool" where
  "destroyPool svc P = (if \<not> pFlushOnDestruction P then P else snd (flushAll svc P))"

definition abandonForFailedShutdown :: "'e pool \<Rightarrow> 'e pool" where
  "abandonForFailedShutdown P = P\<lparr>pFlushOnDestruction := False\<rparr>"

section \<open>Commit and recovery\<close>

definition residentPageCopy :: "page_id \<Rightarrow> ('e pool, page option) action" where
  "residentPageCopy pid P = (case map_of (pTable P) pid of None \<Rightarrow> (Inr None, P)
     | Some f \<Rightarrow>
         if fPinCount (pFrames P ! f) \<noteq> 0
         then (Inl (LogicError ''Resident byte snapshot requires an unpinned page''), P)
         else (Inr (Some (fData (pFrames P ! f))), P))"

definition prepareResidentPageForCommit :: "'e services \<Rightarrow> page_id \<Rightarrow> ('e pool, unit) action" where
  "prepareResidentPageForCommit svc pid P = (case map_of (pTable P) pid of None \<Rightarrow> (Inr (), P)
     | Some f \<Rightarrow>
         if fPinCount (pFrames P ! f) \<noteq> 0
         then (Inl (LogicError ''Cannot finalize WAL state for a pinned page''), P)
         else prepareFrameForWrite svc f P)"

definition totalPinCount :: "'e pool \<Rightarrow> u64" where
  "totalPinCount P = sum_list (map (\<lambda>fr. if fValid fr then ucast (fPinCount fr) else 0) (pFrames P))"

definition discardPageForRecovery :: "page_id \<Rightarrow> ('e pool, unit) action" where
  "discardPageForRecovery pid P = (case map_of (pTable P) pid of None \<Rightarrow> (Inr (), P)
     | Some f \<Rightarrow>
         if fPinCount (pFrames P ! f) \<noteq> 0
         then (Inl (LogicError ''Cannot discard a pinned buffer page during recovery''), P)
         else act_bind (onReplacer (remove f)) (\<lambda>removed.
           act_bind (throwWhen (\<lambda>_. \<not> removed)
             (LogicError ''Recovery discard could not remove buffer frame'')) (\<lambda>_.
           act_modify (\<lambda>P. (setFrame f (\<lambda>_. emptyFrame) P)
             \<lparr>pTable := filter (\<lambda>(p, _). p \<noteq> pid) (pTable P), pFree := pFree P @ [f]\<rparr>))) P)"

primrec discardPages :: "page_id list \<Rightarrow> ('e pool, unit) action" where
  "discardPages [] = act_return ()"
| "discardPages (p # ps) = act_bind (discardPageForRecovery p) (\<lambda>_. discardPages ps)"

definition discardPagesAtOrAboveForRecovery :: "page_id \<Rightarrow> ('e pool, unit) action" where
  "discardPagesAtOrAboveForRecovery firstPageId P =
     discardPages (filter (\<lambda>p. p \<ge> firstPageId) (map fst (pTable P))) P"

section \<open>Observers\<close>

definition isResident :: "'e pool \<Rightarrow> page_id \<Rightarrow> bool" where
  "isResident P pid \<longleftrightarrow> map_of (pTable P) pid \<noteq> None"

definition frameIdForPage :: "'e pool \<Rightarrow> page_id \<Rightarrow> nat option" where
  "frameIdForPage P pid = map_of (pTable P) pid"

definition pinCount :: "'e pool \<Rightarrow> page_id \<Rightarrow> u32 option" where
  "pinCount P pid = map_option (\<lambda>f. fPinCount (pFrames P ! f)) (frameIdForPage P pid)"

definition isDirty :: "'e pool \<Rightarrow> page_id \<Rightarrow> bool option" where
  "isDirty P pid = map_option (\<lambda>f. fDirty (pFrames P ! f)) (frameIdForPage P pid)"

definition pageLsnOf :: "'e pool \<Rightarrow> page_id \<Rightarrow> lsn option" where
  "pageLsnOf P pid = map_option (\<lambda>f. fPageLsn (pFrames P ! f)) (frameIdForPage P pid)"

definition recLsnOf :: "'e pool \<Rightarrow> page_id \<Rightarrow> lsn option" where
  "recLsnOf P pid = map_option (\<lambda>f. fRecLsn (pFrames P ! f)) (frameIdForPage P pid)"

definition walDependencyRetired :: "'e pool \<Rightarrow> page_id \<Rightarrow> bool option" where
  "walDependencyRetired P pid = map_option (\<lambda>f. fRetired (pFrames P ! f)) (frameIdForPage P pid)"

definition pendingWalPreparation :: "'e pool \<Rightarrow> page_id \<Rightarrow> bool option" where
  "pendingWalPreparation P pid = map_option (\<lambda>f. fPendingWal (pFrames P ! f)) (frameIdForPage P pid)"

definition residentPageCount :: "'e pool \<Rightarrow> nat" where
  "residentPageCount P = length (pTable P)"

definition poolStats :: "'e pool \<Rightarrow> pool_stats" where
  "poolStats P = (pStats P)\<lparr>residentPagesStat := of_nat (length (pTable P)),
     evictableFramesStat := of_nat (length (candidates (pReplacer P))),
     capacityStat := of_nat (length (pFrames P)),
     pinnedFramesStat := of_nat (length (filter (\<lambda>fr. fValid fr \<and> fPinCount fr > 0) (pFrames P)))\<rparr>"

definition resetStats :: "'e pool \<Rightarrow> 'e pool" where
  "resetStats P = P\<lparr>pStats := zeroStats\<rparr>"

record dirty_page_entry =
  dpPageId :: page_id
  dpRecLsn :: lsn
  dpPageLsn :: lsn

primrec collectDirty :: "'e services \<Rightarrow> nat list \<Rightarrow> ('e pool, dirty_page_entry list) action" where
  "collectDirty svc [] = act_return []"
| "collectDirty svc (f # fs) = (\<lambda>P. let fr = pFrames P ! f in
     if \<not> isDirtyFrame fr then collectDirty svc fs P
     else act_bind (validateWalDependency svc fr True) (\<lambda>_.
       act_bind (throwWhen (\<lambda>_. \<not> isValidLsn (fRecLsn fr) \<or> \<not> isValidLsn (fPageLsn fr))
         (LogicError ''Dirty page recovery metadata is not fully prepared'')) (\<lambda>_.
       act_bind (collectDirty svc fs) (\<lambda>es.
       act_return (\<lparr>dpPageId = fPageId fr, dpRecLsn = fRecLsn fr, dpPageLsn = fPageLsn fr\<rparr> # es)))) P)"

definition dirtyPageTableSnapshot :: "'e services \<Rightarrow> ('e pool, dirty_page_entry list) action" where
  "dirtyPageTableSnapshot svc P =
     act_bind (collectDirty svc [0..<length (pFrames P)]) (\<lambda>es.
     act_return (sort_key dpPageId es)) P"

section \<open>Validation\<close>

fun validateFree :: "nat \<Rightarrow> nat list \<Rightarrow> nat set \<Rightarrow> nat set res" where
  "validateFree n [] seen = Inr seen"
| "validateFree n (f # fs) seen =
     (if f \<ge> n \<or> f \<in> seen then Inl (LogicError ''Free-frame queue contains invalid or duplicate frame'')
      else validateFree n fs (insert f seen))"

fun validateFrames ::
  "'e services \<Rightarrow> nat list \<Rightarrow> nat set \<Rightarrow> page_id set \<Rightarrow> nat \<Rightarrow> ('e pool, nat) action"
where
  "validateFrames svc [] free pages count P = (Inr count, P)"
| "validateFrames svc (f # fs) free pages count P =
     (let fr = pFrames P ! f in
      if \<not> fValid fr then
        act_bind (throwWhen (\<lambda>_. fPageId fr \<noteq> INVALID_PAGE_ID \<or> fPinCount fr \<noteq> 0 \<or> fDirty fr
          \<or> isValidLsn (fPageLsn fr) \<or> isValidLsn (fRecLsn fr) \<or> fRetired fr \<or> fPendingWal fr \<or> f \<notin> free)
          (LogicError ''Invalid/free buffer frame has live state'')) (\<lambda>_.
        act_bind (act_lift (\<lambda>P. isTracked (pReplacer P) f)) (\<lambda>trackedFrame.
        act_bind (throwWhen (\<lambda>_. trackedFrame)
          (LogicError ''Invalid/free buffer frame has live state'')) (\<lambda>_.
        validateFrames svc fs free pages count))) P
      else if fPageId fr = METADATA_PAGE_ID \<or> fPageId fr = INVALID_PAGE_ID
        \<or> fPageId fr \<ge> dPageCount (pDisk P) \<or> fPageId fr \<in> pages
      then (Inl (LogicError ''Valid buffer frame has illegal or duplicate PageId''), P)
      else act_bind (throwWhen (\<lambda>P. map_of (pTable P) (fPageId fr) \<noteq> Some f \<or> f \<in> free)
          (LogicError ''Buffer frame/page-table/replacer mapping is inconsistent'')) (\<lambda>_.
        act_bind (act_lift (\<lambda>P. isTracked (pReplacer P) f)) (\<lambda>trackedFrame.
        act_bind (throwWhen (\<lambda>_. \<not> trackedFrame)
          (LogicError ''Buffer frame/page-table/replacer mapping is inconsistent'')) (\<lambda>_.
        act_bind (act_lift (\<lambda>P. isEvictable (pReplacer P) f)) (\<lambda>evictableFrame.
        act_bind (throwWhen (\<lambda>_. (fPinCount fr > 0 \<and> evictableFrame) \<or> (fPinCount fr = 0 \<and> \<not> evictableFrame))
          (LogicError ''Buffer pin count disagrees with replacer evictability'')) (\<lambda>_.
        act_bind (validateWalDependency svc fr False) (\<lambda>_.
        validateFrames svc fs free (insert (fPageId fr) pages) (count + 1))))))) P)"

definition validateTotals :: "nat set \<Rightarrow> nat \<Rightarrow> ('e pool, unit) action" where
  "validateTotals free validCount =
     act_bind (throwWhen (\<lambda>P. \<exists>(p, f)\<in>set (pTable P). f \<ge> length (pFrames P) \<or> \<not> fValid (pFrames P ! f)
         \<or> fPageId (pFrames P ! f) \<noteq> p)
       (LogicError ''Page table points to an invalid buffer frame'')) (\<lambda>_.
     act_bind (throwWhen (\<lambda>P. validCount \<noteq> length (pTable P)
         \<or> validCount + card free \<noteq> length (pFrames P))
       (LogicError ''Buffer resident/free frame accounting is inconsistent'')) (\<lambda>_.
     throwWhen (\<lambda>P. residentPagesStat (poolStats P) \<noteq> of_nat validCount
         \<or> evictableFramesStat (poolStats P) \<noteq> of_nat (length (candidates (pReplacer P)))
         \<or> capacityStat (poolStats P) \<noteq> of_nat (length (pFrames P)))
       (LogicError ''Buffer statistics gauges are inconsistent'')))"

definition validatePool :: "'e services \<Rightarrow> ('e pool, unit) action" where
  "validatePool svc P =
     act_bind (act_lift (\<lambda>P. LRU_K.validate (pReplacer P))) (\<lambda>_.
     act_bind (throwWhen (\<lambda>P. length (pTable P) > length (pFrames P))
       (LogicError ''Buffer pool exceeds configured capacity'')) (\<lambda>_.
     act_bind (act_lift (\<lambda>P. validateFree (length (pFrames P)) (pFree P) {})) (\<lambda>free.
     act_bind (validateFrames svc [0..<length (pFrames P)] free {} 0) (\<lambda>validCount.
     validateTotals free validCount)))) P"

definition validateReplacer :: "'e pool \<Rightarrow> unit res" where
  "validateReplacer P = LRU_K.validate (pReplacer P)"

section \<open>Checkpoint retirement\<close>

definition durableThrough :: "'e services \<Rightarrow> 'e \<Rightarrow> lsn \<Rightarrow> bool" where
  "durableThrough svc e l = (case walProvider svc of None \<Rightarrow> False
     | Some w \<Rightarrow> isValidLsn (durableLsn w e) \<and> durableLsn w e \<ge> l)"

definition retireChecks :: "'e services \<Rightarrow> frame \<Rightarrow> ('e pool, unit) action" where
  "retireChecks svc fr =
     (if \<not> fValid fr then act_return ()
      else act_bind (throwWhen (\<lambda>_. fPendingWal fr)
        (LogicError ''Frame retirement requires a prepared checkpoint boundary'')) (\<lambda>_.
      throwWhen (\<lambda>P. \<not> fDirty fr \<and> \<not> fRetired fr \<and> isValidLsn (fPageLsn fr)
          \<and> \<not> durableThrough svc (pEnv P) (fPageLsn fr))
        (LogicError ''Frame retirement requires durable WAL'')))"

definition retireFrame :: "nat \<Rightarrow> ('e pool, unit) action" where
  "retireFrame f P =
     (let fr = pFrames P ! f in
      if \<not> fValid fr then (Inr (), P)
      else if fDirty fr then bump (\<lambda>s. s\<lparr>dirtyDependenciesPreserved := dirtyDependenciesPreserved s + 1\<rparr>) P
      else if \<not> fRetired fr \<and> isValidLsn (fPageLsn fr)
      then act_bind (act_modify (setFrame f (\<lambda>fr. fr\<lparr>fRetired := True\<rparr>))) (\<lambda>_.
        bump (\<lambda>s. s\<lparr>cleanDependenciesRetired := cleanDependenciesRetired s + 1\<rparr>)) P
      else (Inr (), P))"

definition retireCheckpointCoveredDependencies :: "'e services \<Rightarrow> ('e pool, unit) action" where
  "retireCheckpointCoveredDependencies svc P =
     (let fs = [0..<length (pFrames P)];
          P1 = P\<lparr>pStats := (pStats P)\<lparr>retirementCalls := retirementCalls (pStats P) + 1\<rparr>\<rparr> in
      case act_bind (throwWhen (\<lambda>P. pending (dWriteback (pDisk P)))
          (LogicError ''Frame retirement requires synchronized physical writebacks'')) (\<lambda>_.
        act_bind (validatePool svc) (\<lambda>_.
        act_bind (forEach fs (\<lambda>f P. retireChecks svc (pFrames P ! f) P)) (\<lambda>_.
        forEach fs retireFrame))) P1 of
        (Inr _, P) \<Rightarrow> (Inr (), P)
      | (Inl e, P) \<Rightarrow> (Inl e, P\<lparr>pStats := (pStats P)\<lparr>retirementFailures := retirementFailures (pStats P) + 1\<rparr>\<rparr>))"

section \<open>Weakest preconditions of the small steps\<close>

lemma wp_onDisk [wp_rules]:
  "wp (onDisk m) Q E P = wp m (\<lambda>x d. Q x (P\<lparr>pDisk := d\<rparr>)) (\<lambda>e d. E e (P\<lparr>pDisk := d\<rparr>)) (pDisk P)"
  by (auto simp: wp_def onDisk_def split: prod.splits sum.splits)

lemma wp_onReplacer [wp_rules]:
  "wp (onReplacer m) Q E P = wp m (\<lambda>x r. Q x (P\<lparr>pReplacer := r\<rparr>)) (\<lambda>e r. E e (P\<lparr>pReplacer := r\<rparr>)) (pReplacer P)"
  by (auto simp: wp_def onReplacer_def split: prod.splits sum.splits)

lemma wp_onEnv [wp_rules]:
  "wp (onEnv m) Q E P = wp m (\<lambda>x v. Q x (P\<lparr>pEnv := v\<rparr>)) (\<lambda>e v. E e (P\<lparr>pEnv := v\<rparr>)) (pEnv P)"
  by (auto simp: wp_def onEnv_def split: prod.splits sum.splits)

lemma wp_bump [wp_rules]: "wp (bump g) Q E P = Q () (P\<lparr>pStats := g (pStats P)\<rparr>)"
  by (simp add: bump_def wp_rules)

lemma wp_throwWhen [wp_rules]: "wp (throwWhen c e) Q E P = (if c P then E e P else Q () P)"
  by (simp add: throwWhen_def wp_rules throw_if_def)

lemma wp_requireFrame [wp_rules]:
  "wp (requireFrame f) Q E P = (if f \<ge> length (pFrames P) then E (OutOfRange ''vector::at'') P else Q () P)"
  by (simp add: requireFrame_def wp_rules)

lemma wp_case_option [wp_rules]:
  "wp (\<lambda>s. case t s of None \<Rightarrow> m s | Some x \<Rightarrow> n x s) Q E s =
     (case t s of None \<Rightarrow> wp m Q E s | Some x \<Rightarrow> wp (n x) Q E s)"
  by (auto simp: wp_def split: option.splits)

lemma wp_case_fixed [wp_rules]:
  "wp (case t of None \<Rightarrow> m | Some x \<Rightarrow> n x) Q E s = (case t of None \<Rightarrow> wp m Q E s | Some x \<Rightarrow> wp (n x) Q E s)"
  by (auto split: option.splits)

lemma wp_forEach:
  assumes "I s" "\<And>i s. i \<in> set is \<Longrightarrow> I s \<Longrightarrow> wp (body i) (\<lambda>_. I) (\<lambda>_. I) s"
  shows "wp (forEach is body) (\<lambda>_. I) (\<lambda>_. I) s"
  using assms
proof (induction "is" arbitrary: s)
  case Nil
  then show ?case by (simp add: wp_rules)
next
  case (Cons i "is")
  have "wp (body i) (\<lambda>_. I) (\<lambda>_. I) s" using Cons.prems by simp
  then show ?case
    unfolding forEach.simps wp_bind by (rule wp_conseq) (auto intro!: Cons.IH Cons.prems(2))
qed

lemma setFrame_fields [simp]:
  "pFrames (setFrame f g P) = (pFrames P)[f := g (pFrames P ! f)]"
  "pDisk (setFrame f g P) = pDisk P" "pTable (setFrame f g P) = pTable P" "pFree (setFrame f g P) = pFree P"
  "pReplacer (setFrame f g P) = pReplacer P" "pStats (setFrame f g P) = pStats P"
  "pWaitForRead (setFrame f g P) = pWaitForRead P" "pFlushOnDestruction (setFrame f g P) = pFlushOnDestruction P"
  "pReaders (setFrame f g P) = pReaders P" "pWriters (setFrame f g P) = pWriters P" "pEnv (setFrame f g P) = pEnv P"
  by (simp_all add: setFrame_def)

section \<open>The invariant and the logical pages\<close>

definition dataPage :: "disk \<Rightarrow> page_id \<Rightarrow> bool" where
  "dataPage d p \<longleftrightarrow> p \<noteq> METADATA_PAGE_ID \<and> p \<noteq> INVALID_PAGE_ID \<and> p < dPageCount d"

definition resident :: "'e pool \<Rightarrow> nat set" where
  "resident P = {f. f < length (pFrames P) \<and> fValid (pFrames P ! f)}"

definition idle :: "'e pool \<Rightarrow> nat set" where
  "idle P = {f \<in> resident P. fPinCount (pFrames P ! f) = 0}"

definition poolInv :: "'e pool \<Rightarrow> bool" where
  "poolInv P \<longleftrightarrow>
     lruInv (pReplacer P) \<and> length (entries (pReplacer P)) = length (pFrames P) \<and>
     trackedFrames (pReplacer P) = resident P \<and> evictableFrames (pReplacer P) = idle P \<and>
     distinct (pFree P) \<and> set (pFree P) = {..<length (pFrames P)} - resident P \<and>
     (\<forall>f\<in>set (pFree P). pFrames P ! f = emptyFrame) \<and>
     distinct (map fst (pTable P)) \<and> set (pTable P) = (\<lambda>f. (fPageId (pFrames P ! f), f)) ` resident P \<and>
     (\<forall>f\<in>resident P. dataPage (pDisk P) (fPageId (pFrames P ! f)) \<and> length (fData (pFrames P ! f)) = PAGE_SIZE) \<and>
     diskInv (pDisk P)"

text \<open>
  \<open>stored view C P\<close>: the pool holds the logical pages \<open>C\<close>, up to what \<open>view\<close> shows of a page. A
  cached page shows \<open>C\<close>; a page that is not cached dirty is on disk as \<open>C\<close> has it.
\<close>

definition stored :: "(page \<Rightarrow> 'v) \<Rightarrow> (page_id \<Rightarrow> 'v) \<Rightarrow> 'e pool \<Rightarrow> bool" where
  "stored view C P \<longleftrightarrow>
     (\<forall>f\<in>resident P. view (fData (pFrames P ! f)) = C (fPageId (pFrames P ! f))) \<and>
     (\<forall>p. dataPage (pDisk P) p \<and> (\<forall>f\<in>resident P. fPageId (pFrames P ! f) = p \<longrightarrow> \<not> fDirty (pFrames P ! f))
        \<longrightarrow> view (pageOf (pDisk P) p) = C p)"

definition poolOk :: "(page \<Rightarrow> 'v) \<Rightarrow> (page_id \<Rightarrow> 'v) \<Rightarrow> 'e pool \<Rightarrow> bool" where
  "poolOk view C P \<longleftrightarrow> poolInv P \<and> stored view C P"

lemma poolOkD: "poolOk view C P \<Longrightarrow> poolInv P"
  by (simp add: poolOk_def)

text \<open>Counters, leases and the state of the services do not matter to it.\<close>

lemma resident_other [simp]:
  "resident (P\<lparr>pStats := s\<rparr>) = resident P" "resident (P\<lparr>pEnv := v\<rparr>) = resident P"
  "resident (P\<lparr>pReaders := l\<rparr>) = resident P" "resident (P\<lparr>pWriters := l\<rparr>) = resident P"
  "resident (P\<lparr>pDisk := d\<rparr>) = resident P" "resident (P\<lparr>pReplacer := r\<rparr>) = resident P"
  "resident (P\<lparr>pTable := t\<rparr>) = resident P" "resident (P\<lparr>pFree := l\<rparr>) = resident P"
  "resident (P\<lparr>pFlushOnDestruction := b\<rparr>) = resident P"
  by (simp_all add: resident_def)

lemma idle_other [simp]:
  "idle (P\<lparr>pStats := s\<rparr>) = idle P" "idle (P\<lparr>pEnv := v\<rparr>) = idle P" "idle (P\<lparr>pReaders := l\<rparr>) = idle P"
  "idle (P\<lparr>pWriters := l\<rparr>) = idle P" "idle (P\<lparr>pDisk := d\<rparr>) = idle P" "idle (P\<lparr>pReplacer := r\<rparr>) = idle P"
  "idle (P\<lparr>pTable := t\<rparr>) = idle P" "idle (P\<lparr>pFree := l\<rparr>) = idle P" "idle (P\<lparr>pFlushOnDestruction := b\<rparr>) = idle P"
  by (simp_all add: idle_def)

lemma poolInv_other [simp]:
  "poolInv (P\<lparr>pStats := s\<rparr>) = poolInv P" "poolInv (P\<lparr>pEnv := v\<rparr>) = poolInv P"
  "poolInv (P\<lparr>pReaders := l\<rparr>) = poolInv P" "poolInv (P\<lparr>pWriters := l\<rparr>) = poolInv P"
  "poolInv (P\<lparr>pFlushOnDestruction := b\<rparr>) = poolInv P"
  by (simp_all add: poolInv_def)

lemma poolOk_other [simp]:
  "poolOk view C (P\<lparr>pStats := s\<rparr>) = poolOk view C P" "poolOk view C (P\<lparr>pEnv := v\<rparr>) = poolOk view C P"
  "poolOk view C (P\<lparr>pReaders := l\<rparr>) = poolOk view C P" "poolOk view C (P\<lparr>pWriters := l\<rparr>) = poolOk view C P"
  "poolOk view C (P\<lparr>pFlushOnDestruction := b\<rparr>) = poolOk view C P"
  by (simp_all add: poolOk_def stored_def)

section \<open>Facts of the invariant\<close>

lemma resident_bound: "f \<in> resident P \<Longrightarrow> f < length (pFrames P)"
  by (simp add: resident_def)

lemma table_lookup:
  assumes "poolInv P"
  shows "map_of (pTable P) p = Some f \<longleftrightarrow> f \<in> resident P \<and> fPageId (pFrames P ! f) = p"
proof -
  have "distinct (map fst (pTable P))" "set (pTable P) = (\<lambda>f. (fPageId (pFrames P ! f), f)) ` resident P"
    using assms by (simp_all add: poolInv_def)
  then show ?thesis by (auto simp: map_of_eq_Some_iff)
qed

lemma table_absent: "poolInv P \<Longrightarrow> map_of (pTable P) p = None \<longleftrightarrow> (\<forall>f\<in>resident P. fPageId (pFrames P ! f) \<noteq> p)"
  using table_lookup [of P p] by (cases "map_of (pTable P) p") auto

lemma resident_inj:
  "poolInv P \<Longrightarrow> f \<in> resident P \<Longrightarrow> f' \<in> resident P \<Longrightarrow> fPageId (pFrames P ! f) = fPageId (pFrames P ! f') \<Longrightarrow> f = f'"
  using table_lookup [of P "fPageId (pFrames P ! f)"] by (metis option.inject)

lemma available_cases:
  assumes "poolInv P" "availableFrame P = Some f"
  shows "(f \<in> idle P \<and> pFree P = []) \<or> (\<exists>fs. pFree P = f # fs \<and> f < length (pFrames P) \<and> f \<notin> resident P)"
proof (cases "pFree P")
  case Nil
  then have "victim (pReplacer P) = Some f" using assms(2) by (simp add: availableFrame_def)
  moreover have "lruInv (pReplacer P)" "evictableFrames (pReplacer P) = idle P" using assms(1) by (simp_all add: poolInv_def)
  ultimately show ?thesis using lru.pick_spec(2) Nil by blast
next
  case (Cons g gs)
  then have "g = f" using assms(2) by (simp add: availableFrame_def)
  moreover have "g \<in> {..<length (pFrames P)} - resident P" using Cons assms(1) by (metis list.set_intros(1) poolInv_def)
  ultimately show ?thesis using Cons by auto
qed

section \<open>The store of pages below the pool\<close>

definition agreeOutside ::
  "('d \<Rightarrow> page_id \<Rightarrow> bool) \<Rightarrow> ('d \<Rightarrow> page_id \<Rightarrow> page) \<Rightarrow> page_id set \<Rightarrow> 'd \<Rightarrow> 'd \<Rightarrow> bool"
where
  "agreeOutside ex pg S d d' \<longleftrightarrow> (\<forall>q. ex d' q = ex d q) \<and> (\<forall>q. ex d q \<and> q \<notin> S \<longrightarrow> pg d' q = pg d q)"

text \<open>
  What the pool relies on: a read returns the page, a write changes that page alone, also when it
  fails, and appending adds one page of zeros and changes none.
\<close>

locale page_store =
  fixes inv :: "'d \<Rightarrow> bool" and ex :: "'d \<Rightarrow> page_id \<Rightarrow> bool" and pg :: "'d \<Rightarrow> page_id \<Rightarrow> page"
    and rd :: "page_id \<Rightarrow> ('d, page) action" and wr :: "page_id \<Rightarrow> page \<Rightarrow> ('d, unit) action"
    and app :: "page_id \<Rightarrow> ('d, page_id) action" and fl :: "('d, unit) action"
  assumes read_law: "inv d \<Longrightarrow> wp (rd p)
      (\<lambda>x d'. inv d' \<and> agreeOutside ex pg {} d d' \<and> x = pg d p \<and> length x = PAGE_SIZE)
      (\<lambda>_ d'. inv d' \<and> agreeOutside ex pg {} d d') d"
    and write_law: "inv d \<Longrightarrow> ex d p \<Longrightarrow> length x = PAGE_SIZE \<Longrightarrow> wp (wr p x)
      (\<lambda>_ d'. inv d' \<and> agreeOutside ex pg {p} d d' \<and> pg d' p = x)
      (\<lambda>_ d'. inv d' \<and> agreeOutside ex pg {p} d d') d"
    and append_law: "inv d \<Longrightarrow> wp (app n)
      (\<lambda>p d'. inv d' \<and> p = n \<and> \<not> ex d p \<and> (\<forall>q. ex d' q \<longleftrightarrow> ex d q \<or> q = p) \<and>
        (\<forall>q. ex d q \<longrightarrow> pg d' q = pg d q) \<and> pg d' p = replicate PAGE_SIZE 0)
      (\<lambda>_ d'. inv d' \<and> agreeOutside ex pg {} d d') d"
    and flush_law: "inv d \<Longrightarrow> wp fl (\<lambda>_ d'. inv d' \<and> agreeOutside ex pg {} d d')
      (\<lambda>_ d'. inv d' \<and> agreeOutside ex pg {} d d') d"
begin

text \<open>A page written is read back, whatever is written to other pages in between.\<close>

lemma write_others_read:
  assumes "inv d" "ex d p" "ex d q" "p \<noteq> q" "length x = PAGE_SIZE" "length y = PAGE_SIZE"
  shows "wp (act_bind (wr p x) (\<lambda>_. act_bind (wr q y) (\<lambda>_. rd p))) (\<lambda>z _. z = x) (\<lambda>_ _. True) d"
proof -
  have second: "wp (act_bind (wr q y) (\<lambda>_. rd p)) (\<lambda>z _. z = x) (\<lambda>_ _. True) d1"
    if "inv d1" "agreeOutside ex pg {p} d d1" "pg d1 p = x" for d1
  proof -
    have "ex d1 q" "ex d1 p" using that(2) assms(2,3) by (simp_all add: agreeOutside_def)
    then have last: "pg d2 p = x" if "agreeOutside ex pg {q} d1 d2" for d2
      using that \<open>pg d1 p = x\<close> assms(4) by (simp add: agreeOutside_def)
    show ?thesis unfolding wp_bind
      by (rule wp_conseq [OF write_law [OF that(1) \<open>ex d1 q\<close> assms(6)]])
        (auto intro!: wp_conseq [OF read_law] simp: last)
  qed
  show ?thesis
    unfolding wp_bind [of "wr p x"]
    by (rule wp_conseq [OF write_law [OF assms(1,2,5)]]) (elim conjE, rule second, assumption+, simp)
qed

end

lemma streamWrite_file:
  "streamWrite off chunk d = (r, d') \<Longrightarrow> dFile d' = dFile d \<or> dOpen d \<and> (\<exists>n. dFile d' = writeAt (dFile d) off (take n chunk))"
  by (cases "dScript d") (auto simp: streamWrite_def nextOutcome_def split: io_outcome.splits if_splits
    intro: exI [of _ "length chunk"])

lemma writePageBytes_file:
  assumes "writePageBytes pid page fl d = (r, d')"
  shows "dFile d' = dFile d \<or> dOpen d \<and> \<not> writeFailure (dWriteback d) \<and>
    (\<exists>n. dFile d' = writeAt (dFile d) (unat pid * PAGE_SIZE) (take n page))"
proof (cases "requireWriteEpochAvailable d")
  case (Inl e)
  then show ?thesis using assms by (simp add: writePageBytes_def)
next
  case (Inr u)
  obtain ok1 d1 where w: "streamWrite (unat pid * PAGE_SIZE) page d = (ok1, d1)" by fastforce
  obtain ok2 d2 where fl: "(if fl \<and> ok1 then streamFlush d1 else (ok1, d1)) = (ok2, d2)" by fastforce
  have "dFile d2 = dFile d1" using fl streamFlush_script [of d1] by (auto split: if_splits)
  moreover have "dFile d' = dFile d2"
    using assms by (auto simp: writePageBytes_def Inr w Let_def fl split: if_splits)
  moreover have "\<not> writeFailure (dWriteback d)"
    using Inr by (auto simp: requireWriteEpochAvailable_def requireWritable_def res_simps split: if_splits)
  ultimately show ?thesis using streamWrite_file [OF w] by auto
qed

text \<open>Bytes stored at or behind the last page, in whatever number, leave the other pages alone.\<close>

lemma subspan_writeAt_short:
  assumes "length bytes = n * PAGE_SIZE" "length chunk \<le> PAGE_SIZE" "i \<le> n" "j < n" "i \<noteq> j"
  shows "subspan (writeAt bytes (i * PAGE_SIZE) chunk) (j * PAGE_SIZE) PAGE_SIZE = subspan bytes (j * PAGE_SIZE) PAGE_SIZE"
proof (cases "i = n")
  case True
  then show ?thesis
    using page_offset [OF assms(1,4)] assms(1) by (simp add: writeAt_end subspan_append_left)
next
  case False
  have i: "i * PAGE_SIZE + length chunk \<le> length bytes"
    using page_offset [OF assms(1), of i] assms(2,3) False by simp
  have "j * PAGE_SIZE + PAGE_SIZE \<le> i * PAGE_SIZE \<or> i * PAGE_SIZE + length chunk \<le> j * PAGE_SIZE"
    using assms(2,5) by (cases "i < j") auto
  then show ?thesis using i by (auto simp: writeAt_inside subspan_overwrite_disjoint)
qed

lemma writePageBytes_others:
  assumes "writePageBytes pid page fl d = (r, d')" "diskInv d" "length page = PAGE_SIZE"
    and "pid \<le> dPageCount d" "q < dPageCount d" "q \<noteq> pid"
  shows "pageOf d' q = pageOf d q"
  using writePageBytes_file [OF assms(1)]
proof (elim disjE conjE exE)
  fix n assume "dOpen d" "\<not> writeFailure (dWriteback d)"
    and f: "dFile d' = writeAt (dFile d) (unat pid * PAGE_SIZE) (take n page)"
  then have "length (dFile d) = unat (dPageCount d) * PAGE_SIZE" using assms(2) by (simp add: diskInv_def shapeOk_def)
  moreover have "unat pid \<noteq> unat q" using assms(6) by (simp add: word_unat_eq_iff)
  ultimately show ?thesis
    using subspan_writeAt_short [of "dFile d" "unat (dPageCount d)" "take n page" "unat pid" "unat q"] assms(3-5) f
    by (simp add: pageOf_def word_less_nat_alt word_le_nat_alt)
qed (simp add: pageOf_def)

lemma writePageBytes_meta: "writePageBytes pid page fl d = (r, d') \<Longrightarrow> dPageCount d' = dPageCount d"
  by (erule writePageBytes_cases) simp_all

lemma dataPage_less: "dataPage d p \<Longrightarrow> p < dPageCount d"
  by (simp add: dataPage_def)

lemma dataPage_script [simp]: "dataPage (d\<lparr>dScript := s\<rparr>) p = dataPage d p" "pageOf (d\<lparr>dScript := s\<rparr>) p = pageOf d p"
  by (simp_all add: dataPage_def pageOf_def)

lemma readPage_wp:
  assumes "diskInv d"
  shows "wp (readPage p) (\<lambda>x d'. diskInv d' \<and> agreeOutside dataPage pageOf {} d d' \<and> x = pageOf d p \<and> length x = PAGE_SIZE)
    (\<lambda>_ d'. diskInv d' \<and> agreeOutside dataPage pageOf {} d d') d"
proof -
  have inner: "wp (readBytesOf m p) (\<lambda>x d'. diskInv d' \<and> agreeOutside dataPage pageOf {} d d' \<and> x = pageOf d p \<and> length x = PAGE_SIZE)
    (\<lambda>_ d'. diskInv d' \<and> agreeOutside dataPage pageOf {} d d') d" for m
  proof -
    obtain r d' where run: "readBytesOf m p d = (r, d')" by fastforce
    obtain s where s: "d' = d\<lparr>dScript := s\<rparr>" using readBytesOf_script [OF run] by blast
    have "x = pageOf d p \<and> length x = PAGE_SIZE" if "r = Inr x" for x
    proof -
      obtain bytes d1 where sr: "streamRead (unat p * PAGE_SIZE) PAGE_SIZE d = (bytes, d1)" by fastforce
      with run that have x: "x = bytes" "length bytes = PAGE_SIZE"
        by (auto simp: readBytesOf_def Let_def split: if_splits)
      have "\<exists>n. bytes = take n (pageOf d p)"
        using sr x(2) by (cases "dScript d") (auto simp: streamRead_def nextOutcome_def pageOf_def
          split: if_splits io_outcome.splits intro: exI [of _ PAGE_SIZE])
      then obtain n where n: "bytes = take n (pageOf d p)" ..
      have "length (pageOf d p) \<le> PAGE_SIZE" by (simp add: pageOf_def subspan_def)
      then have "take n (pageOf d p) = pageOf d p" using x(2) n by simp
      with n x show ?thesis by simp
    qed
    then show ?thesis using run s assms by (auto simp: wp_def agreeOutside_def split: sum.splits)
  qed
  show ?thesis
    using inner assms by (auto simp: readPage_def wp_rules agreeOutside_def split: sum.splits)
qed

lemma writePage_wp:
  assumes "diskInv d" "dataPage d p" "length x = PAGE_SIZE"
  shows "wp (writePage p x) (\<lambda>_ d'. diskInv d' \<and> agreeOutside dataPage pageOf {p} d d' \<and> pageOf d' p = x)
    (\<lambda>_ d'. diskInv d' \<and> agreeOutside dataPage pageOf {p} d d') d"
proof -
  obtain r d' where w: "writePageBytes p x True d = (r, d')" by fastforce
  have req: "requireExistingDataPage p d = Inr ()"
    using assms(2) requireExistingDataPage_iff [of p d "()"] by (simp add: dataPage_def)
  have whole: "writePage p x d = (r, d')" using req w by (simp add: writePage_def act_bind_def)
  have inv: "diskInv d'" using writePage_inv [OF assms(1,3), of p] whole by simp
  have agree: "agreeOutside dataPage pageOf {p} d d'"
    using writePageBytes_others [OF w assms(1,3)] dataPage_less [OF assms(2)] writePageBytes_meta [OF w]
    by (auto simp: agreeOutside_def dataPage_def)
  have "pageOf d' p = x" if "r = Inr u" for u
    using w
  proof (cases rule: writePageBytes_cases)
    case (written s)
    then have "length (dFile d) = unat (dPageCount d) * PAGE_SIZE" using assms(1) by (simp add: diskInv_def shapeOk_def)
    then show ?thesis
      using subspan_writeAt [OF _ assms(3), of "dFile d" "unat (dPageCount d)" "unat p" "unat p"] dataPage_less [OF assms(2)] written
      by (simp add: pageOf_def word_less_nat_alt)
  qed (use that in auto)
  then show ?thesis using whole inv agree by (auto simp: wp_def split: sum.splits)
qed

lemma appendPageAt_wp:
  assumes "diskInv d"
  shows "wp (appendPageAt n)
      (\<lambda>p d'. diskInv d' \<and> p = n \<and> \<not> dataPage d p \<and> (\<forall>q. dataPage d' q \<longleftrightarrow> dataPage d q \<or> q = p) \<and>
        (\<forall>q. dataPage d q \<longrightarrow> pageOf d' q = pageOf d q) \<and> pageOf d' p = replicate PAGE_SIZE 0)
      (\<lambda>_ d'. diskInv d' \<and> agreeOutside dataPage pageOf {} d d') d"
proof -
  obtain r d' where run: "appendPageAt n d = (r, d')" by fastforce
  have inv: "diskInv d'" by (rule appendPageAt_inv [OF run assms])
  from run show ?thesis
  proof (cases rule: appendPageAt_cases)
    case (refused e)
    then show ?thesis using run inv by (simp add: wp_def agreeOutside_def)
  next
    case (failed e s f)
    obtain r1 d1 where w: "writePageBytes (dPageCount d) (replicate PAGE_SIZE 0) True d = (r1, d1)" by fastforce
    have "d' = d \<or> dFile d' = dFile d1"
      using run w by (auto simp: appendPageAt_def act_bind_def throw_if_def split: if_splits sum.splits)
    then have "pageOf d' q = pageOf d q" if "q < dPageCount d" for q
      using writePageBytes_others [OF w assms, of q] that by (auto simp: pageOf_def)
    then show ?thesis using run inv failed by (auto simp: wp_def agreeOutside_def dataPage_def)
  next
    case (appended s)
    let ?n = "unat (dPageCount d)"
    have shape: "length (dFile d) = ?n * PAGE_SIZE" "0 < dPageCount d"
      using assms appended by (auto simp: diskInv_def shapeOk_def)
    have m: "unat (dPageCount d + 1) = Suc ?n" using unat_succ_max(1) [of "dPageCount d"] appended by simp
    have f: "dFile d' = dFile d @ replicate PAGE_SIZE 0" using shape(1) by (simp add: appended writeAt_end)
    have old: "pageOf d' q = pageOf d q" if "q < dPageCount d" for q
      using page_offset [OF shape(1), of "unat q"] that unfolding pageOf_def f
      by (simp add: subspan_append_left word_less_nat_alt)
    have new: "pageOf d' n = replicate PAGE_SIZE 0"
      using shape(1) unfolding pageOf_def f by (simp add: appended subspan_def)
    have pc: "dPageCount d' = dPageCount d + 1" using appended by simp
    have lt: "q < dPageCount d' \<longleftrightarrow> q < dPageCount d \<or> q = dPageCount d" for q :: u32
    proof -
      have "q = dPageCount d \<longleftrightarrow> unat q = ?n" by (simp add: word_unat_eq_iff)
      then show ?thesis unfolding pc word_less_nat_alt m by auto
    qed
    have "dataPage d' q \<longleftrightarrow> dataPage d q \<or> q = n" for q
      using lt [of q] shape(2) appended by (auto simp: dataPage_def)
    moreover have "\<not> dataPage d n" using appended by (simp add: dataPage_def)
    ultimately show ?thesis
      using run inv old new appended by (auto simp: wp_def dataPage_less)
  qed
qed

lemma flushDisk_wp:
  assumes "diskInv d"
  shows "wp flushDisk (\<lambda>_ d'. diskInv d' \<and> agreeOutside dataPage pageOf {} d d')
    (\<lambda>_ d'. diskInv d' \<and> agreeOutside dataPage pageOf {} d d') d"
proof -
  obtain r d' where run: "flushDisk d = (r, d')" by fastforce
  have "diskInv d'" by (rule flushDisk_inv [OF run assms])
  moreover have "agreeOutside dataPage pageOf {} d d'"
    using run by (cases rule: flushDisk_cases) (simp_all add: agreeOutside_def dataPage_def pageOf_def)
  ultimately show ?thesis using run by (simp add: wp_def split: sum.splits)
qed

interpretation store: page_store diskInv dataPage pageOf readPage writePage appendPageAt flushDisk
  by unfold_locales (simp_all add: readPage_wp writePage_wp appendPageAt_wp flushDisk_wp)

end
