(* ===== verification/Buffer_Pool_Laws.thy ===== *)
theory Buffer_Pool_Laws
  imports Buffer_Pool "HOL-Library.Multiset"
begin

text \<open>
  The contracts of the buffer pool's operations: each keeps \<open>poolOk view C\<close>, the bookkeeping
  invariant together with the logical pages \<open>C\<close>, whether it returns or throws.
\<close>

section \<open>Writing frames back keeps the logical pages\<close>

text \<open>
  What writing back leaves as it was: which page is in which frame, the pins, the bookkeeping, the
  leases and the pages that exist.
\<close>

definition kept :: "'e pool \<Rightarrow> 'e pool \<Rightarrow> bool" where
  "kept P0 P \<longleftrightarrow> pTable P = pTable P0 \<and> pFree P = pFree P0 \<and> pReplacer P = pReplacer P0 \<and>
     pReaders P = pReaders P0 \<and> pWriters P = pWriters P0 \<and> length (pFrames P) = length (pFrames P0) \<and>
     (\<forall>f. fPageId (pFrames P ! f) = fPageId (pFrames P0 ! f) \<and> fPinCount (pFrames P ! f) = fPinCount (pFrames P0 ! f)
        \<and> fValid (pFrames P ! f) = fValid (pFrames P0 ! f)) \<and>
     dataPage (pDisk P) = dataPage (pDisk P0)"

definition sound :: "(page \<Rightarrow> 'v) \<Rightarrow> (page_id \<Rightarrow> 'v) \<Rightarrow> 'e pool \<Rightarrow> 'e pool \<Rightarrow> bool" where
  "sound view C P0 P \<longleftrightarrow> poolOk view C P \<and> kept P0 P"

lemma kept_refl [simp]: "kept P P"
  by (simp add: kept_def)

lemma kept_trans: "kept P Q \<Longrightarrow> kept Q R \<Longrightarrow> kept P R"
  by (simp add: kept_def)

lemma kept_resident: "kept P0 P \<Longrightarrow> resident P = resident P0" "kept P0 P \<Longrightarrow> idle P = idle P0"
  by (auto simp: kept_def resident_def idle_def)

lemma kept_other [simp]:
  "kept P0 (P\<lparr>pStats := s\<rparr>) = kept P0 P" "kept P0 (P\<lparr>pEnv := v\<rparr>) = kept P0 P"
  by (simp_all add: kept_def)

lemma sound_other [simp]:
  "sound view C P0 (P\<lparr>pStats := s\<rparr>) = sound view C P0 P" "sound view C P0 (P\<lparr>pEnv := v\<rparr>) = sound view C P0 P"
  by (simp_all add: sound_def)

lemma sound_refl: "poolOk view C P \<Longrightarrow> sound view C P P"
  by (simp add: sound_def)

lemma sound_resident: "sound view C P0 P \<Longrightarrow> resident P = resident P0"
  by (simp add: sound_def kept_resident)

text \<open>Changing the content or the log state of a cached frame.\<close>

lemma kept_setFrame:
  assumes "kept P0 P" "fPageId (g (pFrames P ! f)) = fPageId (pFrames P ! f)"
    and "fPinCount (g (pFrames P ! f)) = fPinCount (pFrames P ! f)" "fValid (g (pFrames P ! f)) = fValid (pFrames P ! f)"
  shows "kept P0 (setFrame f g P)"
proof -
  have "(pFrames P)[f := g (pFrames P ! f)] ! i = (if i = f \<and> f < length (pFrames P) then g (pFrames P ! f) else pFrames P ! i)" for i
    by (cases "f < length (pFrames P)") (auto simp: list_update_beyond)
  then show ?thesis using assms by (auto simp: kept_def)
qed

lemma poolInv_kept:
  assumes "poolInv P" "kept P P'" "\<forall>f\<in>resident P. length (fData (pFrames P' ! f)) = PAGE_SIZE"
    and "\<forall>f. f \<notin> resident P \<longrightarrow> pFrames P' ! f = pFrames P ! f" "diskInv (pDisk P')"
  shows "poolInv P'"
proof -
  have eq: "resident P' = resident P" "idle P' = idle P" using kept_resident [OF assms(2)] by auto
  have "set (pFree P) \<inter> resident P = {}" using assms(1) by (auto simp: poolInv_def)
  then have "\<forall>f\<in>set (pFree P). pFrames P' ! f = pFrames P ! f" using assms(4) by auto
  then show ?thesis
    using assms(1-3,5) eq by (simp add: poolInv_def kept_def)
qed

lemma sound_setFrame:
  assumes "sound view C P0 P" "f \<in> resident P0"
    and "fPageId (g (pFrames P ! f)) = fPageId (pFrames P ! f)"
    and "fPinCount (g (pFrames P ! f)) = fPinCount (pFrames P ! f)" "fValid (g (pFrames P ! f)) = fValid (pFrames P ! f)"
    and "length (fData (g (pFrames P ! f))) = PAGE_SIZE" "view (fData (g (pFrames P ! f))) = view (fData (pFrames P ! f))"
    and "fDirty (pFrames P ! f) \<longrightarrow> fDirty (g (pFrames P ! f)) \<or>
      view (pageOf (pDisk P) (fPageId (pFrames P ! f))) = view (fData (pFrames P ! f))"
  shows "sound view C P0 (setFrame f g P)"
proof -
  have k: "kept P0 P" "poolInv P" "stored view C P" using assms(1) by (simp_all add: sound_def poolOk_def)
  have f: "f \<in> resident P" "f < length (pFrames P)" using assms(2) kept_resident(1) [OF k(1)] by (auto simp: resident_def)
  have kp: "kept P (setFrame f g P)" by (rule kept_setFrame) (rule kept_refl assms(3-5))+
  have frame: "pFrames (setFrame f g P) ! i = (if i = f then g (pFrames P ! f) else pFrames P ! i)" for i
    using f(2) by simp
  have len: "\<forall>i\<in>resident P. length (fData (pFrames P ! i)) = PAGE_SIZE" and inv: "diskInv (pDisk P)"
    using k(2) by (simp_all add: poolInv_def)
  have "poolInv (setFrame f g P)"
  proof (rule poolInv_kept [OF k(2) kp])
    show "\<forall>i\<in>resident P. length (fData (pFrames (setFrame f g P) ! i)) = PAGE_SIZE"
      using len assms(6) unfolding frame by simp
    show "\<forall>i. i \<notin> resident P \<longrightarrow> pFrames (setFrame f g P) ! i = pFrames P ! i" using f(1) unfolding frame by auto
  qed (use inv in simp)
  moreover have "stored view C (setFrame f g P)"
    unfolding stored_def kept_resident(1) [OF kp] frame
  proof (intro conjI allI impI ballI, goal_cases)
    case (1 i)
    have "view (fData (pFrames P ! i)) = C (fPageId (pFrames P ! i))" using 1 k(3) by (simp add: stored_def)
    then show ?case using assms(3,7) by (cases "i = f") auto
  next
    case (2 p)
    have clean: "\<not> fDirty (if i = f then g (pFrames P ! f) else pFrames P ! i)"
      if "i \<in> resident P" "fPageId (pFrames P ! i) = p" for i
      using 2 that assms(3) by (cases "i = f") auto
    show ?case
    proof (cases "fPageId (pFrames P ! f) = p \<and> fDirty (pFrames P ! f)")
      case True
      then have "\<not> fDirty (g (pFrames P ! f))" using clean [OF f(1)] by simp
      then have "view (pageOf (pDisk P) p) = view (fData (pFrames P ! f))" using assms(8) True by auto
      then show ?thesis using k(3) f(1) True by (simp add: stored_def)
    next
      case False
      have "\<not> fDirty (pFrames P ! i)" if "i \<in> resident P" "fPageId (pFrames P ! i) = p" for i
        using clean [OF that] that(2) False by (cases "i = f") auto
      then show ?thesis using k(3) 2 by (simp add: stored_def)
    qed
  qed
  ultimately show ?thesis using kept_trans [OF k(1) kp] by (simp add: sound_def poolOk_def)
qed

text \<open>Any step of the disk that changes no page, or only the page of a dirty frame.\<close>

lemma sound_disk:
  assumes "sound view C P0 P" "diskInv d" "agreeOutside dataPage pageOf S (pDisk P) d"
    and "\<forall>p\<in>S. \<exists>f\<in>resident P. fPageId (pFrames P ! f) = p \<and> (fDirty (pFrames P ! f) \<or> view (pageOf d p) = C p)"
  shows "sound view C P0 (P\<lparr>pDisk := d\<rparr>)"
proof -
  have k: "kept P0 P" "poolInv P" "stored view C P" using assms(1) by (simp_all add: sound_def poolOk_def)
  have eq: "dataPage d = dataPage (pDisk P)" using assms(3) by (auto simp: agreeOutside_def)
  have kp: "kept P (P\<lparr>pDisk := d\<rparr>)" using eq by (simp add: kept_def)
  have "poolInv (P\<lparr>pDisk := d\<rparr>)"
    by (rule poolInv_kept [OF k(2) kp]) (use k(2) assms(2) in \<open>auto simp: poolInv_def\<close>)
  moreover have "stored view C (P\<lparr>pDisk := d\<rparr>)"
    unfolding stored_def
  proof (intro conjI allI impI, goal_cases)
    case 1
    then show ?case using k(3) by (simp add: stored_def)
  next
    case (2 p)
    then have clean: "dataPage (pDisk P) p" "\<forall>f\<in>resident P. fPageId (pFrames P ! f) = p \<longrightarrow> \<not> fDirty (pFrames P ! f)"
      by (simp_all add: eq)
    then have old: "view (pageOf (pDisk P) p) = C p" using k(3) by (auto simp: stored_def)
    show ?case
    proof (cases "p \<in> S")
      case True
      then show ?thesis using assms(4) clean(2) by auto
    next
      case False
      then show ?thesis using assms(3) clean(1) old by (simp add: agreeOutside_def)
    qed
  qed
  ultimately show ?thesis using kept_trans [OF k(1) kp] by (simp add: sound_def poolOk_def)
qed

text \<open>
  What is assumed of the recovery coordinator: a page it prepares is an array of the same size and
  shows the same, and it claims that a write intent changed nothing, by returning \<open>INVALID_LSN\<close>,
  only where no page shows anything else. With a view that shows nothing this is true of every
  coordinator.
\<close>

definition hookOk :: "(page \<Rightarrow> 'v) \<Rightarrow> 'e services \<Rightarrow> bool" where
  "hookOk view svc \<longleftrightarrow> (\<forall>hook pid page e r after e'. recoveryHook svc = Some hook \<longrightarrow> length page = PAGE_SIZE \<longrightarrow>
     preparePageForWrite hook pid page e = (r, after, e') \<longrightarrow>
       length after = PAGE_SIZE \<and> view after = view page \<and>
       (\<forall>l. r = Inr l \<and> \<not> isValidLsn l \<longrightarrow> (\<forall>x. view x = view page)))"

lemma sound_frame_facts:
  assumes "sound view C P0 P" "f \<in> resident P0"
  shows "f < length (pFrames P)" "fValid (pFrames P ! f)" "length (fData (pFrames P ! f)) = PAGE_SIZE"
    and "dataPage (pDisk P) (fPageId (pFrames P ! f))"
    and "view (fData (pFrames P ! f)) = C (fPageId (pFrames P ! f))"
proof -
  have f: "f \<in> resident P" using assms sound_resident [OF assms(1)] by simp
  have inv: "poolInv P" "stored view C P" using assms(1) by (simp_all add: sound_def poolOk_def)
  show "f < length (pFrames P)" "fValid (pFrames P ! f)" using f by (simp_all add: resident_def)
  show "length (fData (pFrames P ! f)) = PAGE_SIZE" "dataPage (pDisk P) (fPageId (pFrames P ! f))"
    using inv(1) f by (simp_all add: poolInv_def)
  show "view (fData (pFrames P ! f)) = C (fPageId (pFrames P ! f))" using inv(2) f by (simp add: stored_def)
qed

lemma assignPreparedLsn_sound:
  assumes "sound view C P0 P" "f \<in> resident P0"
  shows "wp (assignPreparedLsn svc f l) (\<lambda>_. sound view C P0) (\<lambda>_. sound view C P0) P"
  using assms sound_frame_facts [OF assms] by (auto simp: assignPreparedLsn_def wp_rules intro!: sound_setFrame)

lemma prepareFrameForWrite_sound:
  assumes "hookOk view svc" "sound view C P0 P" "f \<in> resident P0"
  shows "wp (prepareFrameForWrite svc f) (\<lambda>_. sound view C P0) (\<lambda>_. sound view C P0) P"
proof (cases "fDirty (pFrames P ! f) \<and> (\<exists>hook. recoveryHook svc = Some hook \<and> needsPreparation hook (pEnv P))")
  case False
  then show ?thesis using assms(2) by (auto simp: wp_def prepareFrameForWrite_def split: option.splits)
next
  case True
  then obtain hook where hook: "fDirty (pFrames P ! f)" "recoveryHook svc = Some hook" "needsPreparation hook (pEnv P)"
    by blast
  obtain r after env where prep: "preparePageForWrite hook (fPageId (pFrames P ! f)) (fData (pFrames P ! f)) (pEnv P) = (r, after, env)"
    by (metis prod_cases3)
  note facts = sound_frame_facts [OF assms(2,3)]
  have ok: "length after = PAGE_SIZE" "view after = view (fData (pFrames P ! f))"
    and noop: "\<And>l x. r = Inr l \<Longrightarrow> \<not> isValidLsn l \<Longrightarrow> view x = view (fData (pFrames P ! f))"
    using assms(1) hook(2) prep facts(3) unfolding hookOk_def by metis+
  let ?P = "(setFrame f (\<lambda>fr. fr\<lparr>fData := after\<rparr>) P)\<lparr>pEnv := env\<rparr>"
  have P1: "sound view C P0 ?P" using assms(2,3) ok by (simp add: sound_setFrame)
  have last: "wp (act_modify (setFrame f (\<lambda>fr. fr\<lparr>fPendingWal := False\<rparr>))) (\<lambda>_. sound view C P0) (\<lambda>_. sound view C P0) Q"
    if "sound view C P0 Q" for Q
    using that assms(3) sound_frame_facts [OF that assms(3)] by (simp add: wp_rules sound_setFrame)
  have step: "wp (if isValidLsn l then assignPreparedLsn svc f l
      else act_modify (setFrame f (\<lambda>fr. if \<not> isValidLsn (fRecLsn fr) then fr\<lparr>fDirty := False\<rparr> else fr)))
    (\<lambda>_. sound view C P0) (\<lambda>_. sound view C P0) ?P" if "r = Inr l" for l
  proof (cases "isValidLsn l")
    case True
    then show ?thesis using assignPreparedLsn_sound [OF P1 assms(3)] by simp
  next
    case False
    have same: "view x = view y" for x y using noop [OF that False, of x] noop [OF that False, of y] by simp
    show ?thesis
      unfolding if_not_P [OF False] wp_modify
      by (rule sound_setFrame [OF P1 assms(3)]) (use same sound_frame_facts(3) [OF P1 assms(3)] in \<open>simp_all only: split: if_split\<close>, simp_all)
  qed
  have "prepareFrameForWrite svc f P = (case r of Inl e \<Rightarrow> (Inl e, ?P) | Inr l \<Rightarrow>
      act_bind (if isValidLsn l then assignPreparedLsn svc f l
        else act_modify (setFrame f (\<lambda>fr. if \<not> isValidLsn (fRecLsn fr) then fr\<lparr>fDirty := False\<rparr> else fr)))
      (\<lambda>_. act_modify (setFrame f (\<lambda>fr. fr\<lparr>fPendingWal := False\<rparr>))) ?P)"
    using hook prep by (simp add: prepareFrameForWrite_def Let_def)
  moreover have "wp (act_bind (if isValidLsn l then assignPreparedLsn svc f l
        else act_modify (setFrame f (\<lambda>fr. if \<not> isValidLsn (fRecLsn fr) then fr\<lparr>fDirty := False\<rparr> else fr)))
      (\<lambda>_. act_modify (setFrame f (\<lambda>fr. fr\<lparr>fPendingWal := False\<rparr>)))) (\<lambda>_. sound view C P0) (\<lambda>_. sound view C P0) ?P"
    if "r = Inr l" for l
    unfolding wp_bind using step [OF that] by (rule wp_conseq) (use last in auto)
  ultimately show ?thesis using P1 by (auto simp: wp_def split: sum.splits)
qed

lemma stats_same: "P = P\<lparr>pStats := pStats P\<rparr>" "P = P\<lparr>pStats := pStats P, pEnv := pEnv P\<rparr>"
  by simp_all

lemma wp_same: "m s = n s \<Longrightarrow> wp n Q E s \<Longrightarrow> wp m Q E s"
  by (simp add: wp_def)

text \<open>Checking a log dependency changes counters only, forcing the log the state of the log too.\<close>

lemma validateWalDependency_wp:
  assumes "\<And>s. Q () (P\<lparr>pStats := s\<rparr>)" "\<And>e s. E e (P\<lparr>pStats := s\<rparr>)"
  shows "wp (validateWalDependency svc fr b) Q E P"
proof -
  have "Q () P" "\<And>e. E e P" using assms(1) [of "pStats P"] assms(2) [of _ "pStats P"] by simp_all
  then show ?thesis using assms by (simp add: wp_def validateWalDependency_def)
qed

lemma ensureWalDurable_wp:
  assumes "\<And>s v. Q () (P\<lparr>pStats := s, pEnv := v\<rparr>)" "\<And>e s v. E e (P\<lparr>pStats := s, pEnv := v\<rparr>)"
  shows "wp (ensureWalDurable svc l) Q E P"
proof -
  have same: "Q () P" "\<And>e. E e P" using assms(1) [of "pEnv P" "pStats P"] assms(2) [of _ "pEnv P" "pStats P"] by simp_all
  have "wp m (\<lambda>x v. Q x (P\<lparr>pStats := s, pEnv := v\<rparr>)) (\<lambda>e v. E e (P\<lparr>pStats := s, pEnv := v\<rparr>)) e"
    for m :: "('a, unit) action" and s e
    using assms by (auto simp: wp_iff)
  then show ?thesis
    using same by (auto simp: ensureWalDurable_def [abs_def] wp_rules split: option.splits)
qed

lemma ensureWalDurableBeforePageWrite_wp:
  assumes "\<And>s v. Q () (P\<lparr>pStats := s, pEnv := v\<rparr>)" "\<And>e s v. E e (P\<lparr>pStats := s, pEnv := v\<rparr>)"
  shows "wp (ensureWalDurableBeforePageWrite svc f) Q E P"
proof -
  have "wp (if \<not> fRetired (pFrames P ! f) then ensureWalDurable svc (fPageLsn (pFrames P ! f)) else act_return ()) Q E (P\<lparr>pStats := s\<rparr>)" for s
  proof (cases "fRetired (pFrames P ! f)")
    case True
    then show ?thesis using assms(1) [of "pEnv P" s] by (simp add: wp_rules)
  next
    case False
    then show ?thesis using assms by (auto intro!: ensureWalDurable_wp)
  qed
  moreover have "E e (P\<lparr>pStats := s\<rparr>)" for e s using assms(2) [of e "pEnv P" s] by simp
  ultimately have "wp (validateWalDependency svc (pFrames P ! f) True)
      (\<lambda>_. wp (if \<not> fRetired (pFrames P ! f) then ensureWalDurable svc (fPageLsn (pFrames P ! f)) else act_return ()) Q E) E P"
    by (rule validateWalDependency_wp)
  then show ?thesis by (intro wp_same [OF ensureWalDurableBeforePageWrite_def]) (simp only: wp_bind)
qed

text \<open>A page that is prepared for writing stays dirty, unless its content does not matter.\<close>

lemma prepareFrameForWrite_dirty:
  assumes "hookOk view svc" "f < length (pFrames P)" "length (fData (pFrames P ! f)) = PAGE_SIZE"
  shows "wp (prepareFrameForWrite svc f)
    (\<lambda>_ P'. fDirty (pFrames P ! f) \<longrightarrow> fDirty (pFrames P' ! f) \<or> (\<forall>x y. view x = view y)) (\<lambda>_ _. True) P"
proof -
  have "\<forall>x y. view x = view y" if "recoveryHook svc = Some hook" "preparePageForWrite hook (fPageId (pFrames P ! f)) (fData (pFrames P ! f)) e = (Inr l, after, e')"
    "\<not> isValidLsn l" for hook l after e e'
    using assms(1,3) that unfolding hookOk_def by metis
  then show ?thesis
    using assms(2)
    by (auto simp: wp_def prepareFrameForWrite_def assignPreparedLsn_def act_bind_def act_modify_def throwWhen_def act_lift_def
      throw_if_def Let_def split: option.splits prod.splits sum.splits if_splits)
qed

lemma writeFrame_sound:
  assumes "sound view C P0 P" "f \<in> resident P0" "fDirty (pFrames P ! f) \<or> (\<forall>x y. view x = view y)"
  shows "wp (writeFrame f) (\<lambda>_ P'. sound view C P0 P' \<and> \<not> fDirty (pFrames P' ! f)) (\<lambda>_. sound view C P0) P"
proof -
  let ?p = "fPageId (pFrames P ! f)" and ?x = "fData (pFrames P ! f)"
  note facts = sound_frame_facts [OF assms(1,2)]
  have f: "f \<in> resident P" using assms(2) sound_resident [OF assms(1)] by simp
  have dk: "diskInv (pDisk P)" using assms(1) by (simp add: sound_def poolOk_def poolInv_def)
  have view: "view (pageOf d ?p) = C ?p" if "\<not> fDirty (pFrames P ! f)" for d
    using assms(3) that facts(5) by metis
  have failed: "sound view C P0 (P\<lparr>pDisk := d\<rparr>)" if "diskInv d" "agreeOutside dataPage pageOf {?p} (pDisk P) d" for d
    by (rule sound_disk [OF assms(1) that]) (use f view in blast)
  have mark: "sound view C P0 (setFrame f (\<lambda>fr. fr\<lparr>fDirty := False, fRecLsn := INVALID_LSN\<rparr>) (P\<lparr>pDisk := d\<rparr>))"
    if "diskInv d" "agreeOutside dataPage pageOf {?p} (pDisk P) d" "pageOf d ?p = ?x" for d
    by (rule sound_setFrame [OF failed [OF that(1,2)] assms(2)]) (use facts(3) that(3) in simp_all)
  have fin: "wp (markWritten f) (\<lambda>_ P'. sound view C P0 P' \<and> \<not> fDirty (pFrames P' ! f)) (\<lambda>_. sound view C P0) (P\<lparr>pDisk := d\<rparr>)"
    if "diskInv d \<and> agreeOutside dataPage pageOf {?p} (pDisk P) d \<and> pageOf d ?p = ?x" for d
    using mark [of d] that facts(1) by (simp add: markWritten_def wp_rules)
  have "wp (writePage ?p ?x) (\<lambda>_ d. wp (markWritten f) (\<lambda>_ P'. sound view C P0 P' \<and> \<not> fDirty (pFrames P' ! f)) (\<lambda>_. sound view C P0) (P\<lparr>pDisk := d\<rparr>))
      (\<lambda>_ d. sound view C P0 (P\<lparr>pDisk := d\<rparr>)) (pDisk P)"
    by (rule wp_conseq [OF store.write_law [OF dk facts(4,3)]]) (rule fin, assumption, simp add: failed)
  then have "wp (act_bind (onDisk (writePage ?p ?x)) (\<lambda>_. markWritten f))
      (\<lambda>_ P'. sound view C P0 P' \<and> \<not> fDirty (pFrames P' ! f)) (\<lambda>_. sound view C P0) P"
    unfolding wp_bind wp_onDisk .
  then show ?thesis by (rule wp_same [OF writeFrame_def])
qed

lemma flushUnpinnedDirtyFrame_sound:
  assumes "hookOk view svc" "sound view C P0 P" "f \<in> resident P0" "fDirty (pFrames P ! f)"
  shows "wp (flushUnpinnedDirtyFrame svc f) (\<lambda>_ P'. sound view C P0 P' \<and> \<not> fDirty (pFrames P' ! f)) (\<lambda>_. sound view C P0) P"
proof -
  note facts = sound_frame_facts [OF assms(2,3)]
  have prep: "wp (prepareFrameForWrite svc f)
      (\<lambda>_ P'. sound view C P0 P' \<and> (fDirty (pFrames P ! f) \<longrightarrow> fDirty (pFrames P' ! f) \<or> (\<forall>x y. view x = view y)))
      (\<lambda>_ P'. sound view C P0 P' \<and> True) P"
    by (rule wp_and [OF prepareFrameForWrite_sound [OF assms(1-3)] prepareFrameForWrite_dirty [OF assms(1) facts(1,3)]])
  show ?thesis
    unfolding flushUnpinnedDirtyFrame_def wp_bind
  proof (rule wp_conseq [OF prep])
    fix P'
    assume P': "sound view C P0 P' \<and> (fDirty (pFrames P ! f) \<longrightarrow> fDirty (pFrames P' ! f) \<or> (\<forall>x y. view x = view y))"
    show "wp (ensureWalDurableBeforePageWrite svc f)
        (\<lambda>_. wp (writeFrame f) (\<lambda>_ P'. sound view C P0 P' \<and> \<not> fDirty (pFrames P' ! f)) (\<lambda>_. sound view C P0)) (\<lambda>_. sound view C P0) P'"
      by (rule ensureWalDurableBeforePageWrite_wp) (use P' assms(3,4) in \<open>auto intro!: writeFrame_sound\<close>)
  qed simp
qed

lemma flushVictimIfDirty_sound:
  assumes "hookOk view svc" "sound view C P0 P" "f < length (pFrames P0)" "f \<in> resident P0 \<longrightarrow> f \<in> idle P0"
  shows "wp (flushVictimIfDirty svc f) (\<lambda>_ P'. sound view C P0 P' \<and> (f \<in> resident P0 \<longrightarrow> \<not> fDirty (pFrames P' ! f)))
    (\<lambda>_. sound view C P0) P"
proof -
  have k: "kept P0 P" using assms(2) by (simp add: sound_def)
  then have len: "f < length (pFrames P)" "fValid (pFrames P ! f) \<longleftrightarrow> f \<in> resident P0"
    and pin: "f \<in> idle P0 \<Longrightarrow> fPinCount (pFrames P ! f) = 0"
    using assms(3) by (auto simp: kept_def resident_def idle_def)
  show ?thesis
    using assms(2,4) len pin flushUnpinnedDirtyFrame_sound [OF assms(1,2)]
    by (auto simp: flushVictimIfDirty_def wp_rules elim!: wp_conseq)
qed

section \<open>Installing a page\<close>

definition clockOk :: "'e pool \<Rightarrow> bool" where
  "clockOk P \<longleftrightarrow> currentTimestamp (pReplacer P) \<noteq> 0xFFFFFFFFFFFFFFFF"

lemma remove_wp:
  assumes "lruInv r" "f \<in> evictableFrames r"
    and "\<And>r'. lruInv r' \<Longrightarrow> length (entries r') = length (entries r) \<Longrightarrow> trackedFrames r' = trackedFrames r - {f} \<Longrightarrow>
      evictableFrames r' = evictableFrames r - {f} \<Longrightarrow>
      (currentTimestamp r' \<noteq> 0xFFFFFFFFFFFFFFFF) = (currentTimestamp r \<noteq> 0xFFFFFFFFFFFFFFFF) \<Longrightarrow> Q True r'"
  shows "wp (remove f) Q E r"
  using lru.rem_spec [OF assms(1,2)] assms(3) by (auto simp: wp_def)

lemma recordAccess_wp:
  assumes "lruInv r" "f < length (entries r)" "currentTimestamp r \<noteq> 0xFFFFFFFFFFFFFFFF"
    and "\<And>r'. lruInv r' \<Longrightarrow> length (entries r') = length (entries r) \<Longrightarrow> trackedFrames r' = insert f (trackedFrames r) \<Longrightarrow>
      evictableFrames r' = evictableFrames r \<Longrightarrow> Q () r'"
  shows "wp (recordAccess f) Q E r"
  using lru.access_spec [OF assms(1,2,3)] assms(4) by (auto simp: wp_def)

lemma setEvictable_wp:
  assumes "lruInv r" "f \<in> trackedFrames r"
    and "\<And>r'. lruInv r' \<Longrightarrow> length (entries r') = length (entries r) \<Longrightarrow> trackedFrames r' = trackedFrames r \<Longrightarrow>
      evictableFrames r' = (if b then insert f (evictableFrames r) else evictableFrames r - {f}) \<Longrightarrow>
      (currentTimestamp r' \<noteq> 0xFFFFFFFFFFFFFFFF) = (currentTimestamp r \<noteq> 0xFFFFFFFFFFFFFFFF) \<Longrightarrow> Q () r'"
  shows "wp (setEvictable f b) Q E r"
  using lru.setEv_spec [OF assms(1,2), of b] assms(3) by (auto simp: wp_def)

text \<open>The invariant with frame \<open>f\<close> taken out of the bookkeeping.\<close>

definition holeInv :: "nat \<Rightarrow> 'e pool \<Rightarrow> bool" where
  "holeInv f P \<longleftrightarrow> f < length (pFrames P) \<and>
     lruInv (pReplacer P) \<and> length (entries (pReplacer P)) = length (pFrames P) \<and>
     trackedFrames (pReplacer P) = resident P - {f} \<and> evictableFrames (pReplacer P) = idle P - {f} \<and>
     distinct (pFree P) \<and> set (pFree P) = {..<length (pFrames P)} - resident P - {f} \<and>
     (\<forall>i\<in>set (pFree P). pFrames P ! i = emptyFrame) \<and>
     distinct (map fst (pTable P)) \<and> set (pTable P) = (\<lambda>i. (fPageId (pFrames P ! i), i)) ` (resident P - {f}) \<and>
     (\<forall>i\<in>resident P - {f}. dataPage (pDisk P) (fPageId (pFrames P ! i)) \<and> length (fData (pFrames P ! i)) = PAGE_SIZE) \<and>
     diskInv (pDisk P)"

lemma holeInv_stats [simp]: "holeInv f (P\<lparr>pStats := s\<rparr>) = holeInv f P"
  by (simp add: holeInv_def)

abbreviation dropKey :: "page_id \<Rightarrow> (page_id \<times> nat) list \<Rightarrow> (page_id \<times> nat) list" where
  "dropKey pid \<equiv> filter (\<lambda>(p, _). p \<noteq> pid)"

lemma holeInv_released:
  assumes "poolInv P" "f \<in> idle P" "lruInv r" "length (entries r) = length (entries (pReplacer P))"
    and "trackedFrames r = trackedFrames (pReplacer P) - {f}" "evictableFrames r = evictableFrames (pReplacer P) - {f}"
  shows "holeInv f (P\<lparr>pReplacer := r, pTable := dropKey (fPageId (pFrames P ! f)) (pTable P)\<rparr>)"
proof -
  have f: "f \<in> resident P" "f < length (pFrames P)" using assms(2) by (auto simp: idle_def resident_def)
  let ?t = "dropKey (fPageId (pFrames P ! f)) (pTable P)"
  have t: "set ?t = (\<lambda>i. (fPageId (pFrames P ! i), i)) ` (resident P - {f})"
  proof -
    have "set (pTable P) = (\<lambda>i. (fPageId (pFrames P ! i), i)) ` resident P" using assms(1) by (simp add: poolInv_def)
    then show ?thesis using resident_inj [OF assms(1) _ f(1)] f(1) by (auto simp: image_iff)
  qed
  have "distinct (map fst ?t)" using assms(1) by (simp add: poolInv_def distinct_map_filter)
  then show ?thesis using assms f t by (auto simp: holeInv_def poolInv_def)
qed

lemma releaseVictim_wp:
  assumes "poolInv P" "f \<in> idle P"
    and "\<And>r t s. holeInv f (P\<lparr>pReplacer := r, pTable := t, pStats := s\<rparr>) \<Longrightarrow>
      (currentTimestamp r \<noteq> 0xFFFFFFFFFFFFFFFF) = clockOk P \<Longrightarrow> Q () (P\<lparr>pReplacer := r, pTable := t, pStats := s\<rparr>)"
  shows "wp (releaseVictim f) Q E P"
proof -
  have f: "f \<in> resident P" using assms(2) by (simp add: idle_def)
  have inv: "lruInv (pReplacer P)" "evictableFrames (pReplacer P) = idle P" using assms(1) by (auto simp: poolInv_def)
  have "(fPageId (pFrames P ! f), f) \<in> set (pTable P)" using assms(1) f by (simp add: poolInv_def)
  then have key: "fPageId (pFrames P ! f) \<in> fst ` set (pTable P)" by force
  show ?thesis
    unfolding releaseVictim_def wp_bind wp_onReplacer
    by (rule remove_wp) (use inv assms(2) key assms(3) holeInv_released [OF assms(1,2)] in \<open>simp_all add: wp_rules clockOk_def\<close>)
qed

text \<open>A hole becomes a free frame at the end of the queue.\<close>

lemma holeInv_free:
  assumes "holeInv f P" "pFrames P' = (pFrames P)[f := emptyFrame]" "pFree P' = pFree P @ [f]" "pTable P' = pTable P"
    and "pReplacer P' = pReplacer P" "pDisk P' = pDisk P"
  shows "poolInv P'"
proof -
  have f: "f < length (pFrames P)" using assms(1) by (simp add: holeInv_def)
  have frame: "pFrames P' ! i = (if i = f then emptyFrame else pFrames P ! i)" for i using f assms(2) by simp
  have res: "resident P' = resident P - {f}" using f assms(2) by (auto simp: resident_def nth_list_update emptyFrame_def)
  have idl: "idle P' = idle P - {f}" unfolding idle_def res by (auto simp: frame)
  have len: "length (pFrames P') = length (pFrames P)" using assms(2) by simp
  have img: "(\<lambda>i. (fPageId (pFrames P' ! i), i)) ` (resident P - {f}) = (\<lambda>i. (fPageId (pFrames P ! i), i)) ` (resident P - {f})"
    by (rule image_cong) (simp_all add: frame)
  show ?thesis
    using assms(1,3-6) f unfolding poolInv_def holeInv_def res idl len img by (auto simp: frame)
qed

lemma takeFreeFrame_wp:
  assumes "poolInv P" "pFree P = f # fs"
    and "holeInv f (P\<lparr>pFree := fs\<rparr>) \<Longrightarrow> Q () (P\<lparr>pFree := fs\<rparr>)"
  shows "wp (takeFreeFrame f) Q E P"
proof -
  have free: "insert f (set fs) = {..<length (pFrames P)} - resident P" "f \<notin> set fs" "distinct fs"
    using assms(1,2) by (auto simp: poolInv_def)
  then have f: "f < length (pFrames P)" "f \<notin> resident P" "set fs = {..<length (pFrames P)} - resident P - {f}" by auto
  then have "f \<notin> idle P" by (simp add: idle_def)
  then have "holeInv f (P\<lparr>pFree := fs\<rparr>)" using assms(1,2) f free(3) by (simp add: holeInv_def poolInv_def)
  then show ?thesis using assms(2,3) by (simp add: takeFreeFrame_def wp_rules)
qed

text \<open>Putting a pinned page into the hole.\<close>

lemma resident_replaced:
  assumes "f < length (pFrames P)" "fValid fr"
  shows "resident (setFrame f (\<lambda>_. fr) P) = insert f (resident P)"
    and "idle (setFrame f (\<lambda>_. fr) P) = (if fPinCount fr = 0 then insert f (idle P) else idle P - {f})"
  using assms by (auto simp: resident_def idle_def nth_list_update)

lemma holeInv_fill:
  assumes "holeInv f P" "fValid fr" "fPinCount fr \<noteq> 0" "dataPage (pDisk P) (fPageId fr)" "length (fData fr) = PAGE_SIZE"
    and "\<forall>i\<in>resident P - {f}. fPageId (pFrames P ! i) \<noteq> fPageId fr"
    and "lruInv r" "length (entries r) = length (pFrames P)" "trackedFrames r = insert f (resident P)"
    and "evictableFrames r = idle P - {f}"
  shows "poolInv ((setFrame f (\<lambda>_. fr) P)\<lparr>pTable := pTable P @ [(fPageId fr, f)], pReplacer := r, pStats := s\<rparr>)"
proof -
  have f: "f < length (pFrames P)" using assms(1) by (simp add: holeInv_def)
  have frame: "(pFrames P)[f := fr] ! i = (if i = f then fr else pFrames P ! i)" for i using f by simp
  have old: "(\<lambda>i. (fPageId (if i = f then fr else pFrames P ! i), i)) ` insert f (resident P) =
      insert (fPageId fr, f) ((\<lambda>i. (fPageId (pFrames P ! i), i)) ` (resident P - {f}))" by auto
  show ?thesis
    using assms(1,4-10) resident_replaced [OF f assms(2)] assms(3)
    by (auto simp: holeInv_def poolInv_def frame old image_iff split: if_splits)
qed

definition pinnedFrame :: "page_id \<Rightarrow> page \<Rightarrow> bool \<Rightarrow> frame" where
  "pinnedFrame pid page dirty = \<lparr>fData = page, fPageId = pid, fPinCount = 1, fDirty = dirty, fValid = True,
     fPageLsn = INVALID_LSN, fRecLsn = INVALID_LSN, fRetired = False, fPendingWal = False\<rparr>"

text \<open>\<open>installed f fr P P'\<close>: frame \<open>f\<close> now holds \<open>fr\<close>; disk, leases and services are as they were.\<close>

definition installed :: "nat \<Rightarrow> frame \<Rightarrow> 'e pool \<Rightarrow> 'e pool \<Rightarrow> bool" where
  "installed f fr P P' \<longleftrightarrow> pFrames P' = (pFrames P)[f := fr] \<and> pDisk P' = pDisk P \<and> pReaders P' = pReaders P \<and>
     pWriters P' = pWriters P \<and> pEnv P' = pEnv P"

lemma stored_installed:
  assumes "stored view C P" "installed f fr P P'" "f < length (pFrames P)" "fValid fr"
    and "f \<in> resident P \<longrightarrow> \<not> fDirty (pFrames P ! f)"
    and "view (fData fr) = C (fPageId fr)" "fDirty fr \<or> view (pageOf (pDisk P) (fPageId fr)) = C (fPageId fr)"
  shows "stored view C P'"
proof -
  have frame: "pFrames P' ! i = (if i = f then fr else pFrames P ! i)" for i
    using assms(2,3) by (simp add: installed_def)
  have res: "resident P' = insert f (resident P)"
    using assms(2-4) by (auto simp: resident_def installed_def nth_list_update)
  have dk: "pDisk P' = pDisk P" using assms(2) by (simp add: installed_def)
  show ?thesis
    unfolding stored_def res dk
  proof (intro conjI ballI allI impI, goal_cases)
    case (1 i)
    then show ?case using assms(1,6) by (auto simp: frame stored_def)
  next
    case (2 p)
    then have clean: "\<forall>i\<in>insert f (resident P). fPageId (pFrames P' ! i) = p \<longrightarrow> \<not> fDirty (pFrames P' ! i)"
      and p: "dataPage (pDisk P) p" by blast+
    show ?case
    proof (cases "fPageId fr = p")
      case True
      then show ?thesis using clean assms(7) by (auto simp: frame)
    next
      case False
      have "\<not> fDirty (pFrames P ! i)" if "i \<in> resident P" "fPageId (pFrames P ! i) = p" for i
        using clean that assms(5) by (cases "i = f") (auto simp: frame)
      then show ?thesis using assms(1) p by (simp add: stored_def)
    qed
  qed
qed

lemma installPage_tail:
  assumes "holeInv f P" "clockOk P" "dataPage (pDisk P) pid" "length page = PAGE_SIZE"
    and "\<forall>i\<in>resident P - {f}. fPageId (pFrames P ! i) \<noteq> pid"
  shows "wp (act_bind (act_modify (setFrame f (\<lambda>_. pinnedFrame pid page dirty))) (\<lambda>_.
     act_bind (throwWhen (\<lambda>P. pid \<in> fst ` set (pTable P)) e) (\<lambda>_.
     act_bind (act_modify (\<lambda>P. P\<lparr>pTable := pTable P @ [(pid, f)]\<rparr>)) (\<lambda>_.
     act_bind (onReplacer (recordAccess f)) (\<lambda>_.
     act_bind (onReplacer (setEvictable f False)) (\<lambda>_.
     bump g))))))
    (\<lambda>_ P'. poolInv P' \<and> installed f (pinnedFrame pid page dirty) P P') (\<lambda>_ _. False) P"
proof -
  let ?fr = "pinnedFrame pid page dirty"
  let ?P = "(setFrame f (\<lambda>_. ?fr) P)\<lparr>pTable := pTable P @ [(pid, f)]\<rparr>"
  have f: "f < length (pFrames P)" using assms(1) by (simp add: holeInv_def)
  have fr: "fPageId ?fr = pid" "fValid ?fr" "fPinCount ?fr \<noteq> 0" "fData ?fr = page" by (simp_all add: pinnedFrame_def)
  have new: "pid \<notin> fst ` set (pTable P)" using assms(1,5) by (auto simp: holeInv_def)
  have fill: "poolInv (?P\<lparr>pReplacer := r\<rparr>)"
    if "lruInv r" "length (entries r) = length (pFrames P)" "trackedFrames r = insert f (resident P)"
      "evictableFrames r = idle P - {f}" for r
    using holeInv_fill [OF assms(1) fr(2,3) _ _ _ that] assms(3-5) fr by simp
  have inst: "installed f ?fr P (?P\<lparr>pReplacer := r, pStats := s\<rparr>)" for r s by (simp add: installed_def)
  have ins: "insert f (resident P - {f}) = insert f (resident P)" by auto
  have access: "wp (recordAccess f)
      (\<lambda>x r. wp (setEvictable f False) (\<lambda>x r. (poolInv (?P\<lparr>pReplacer := r, pStats := g (pStats P)\<rparr>)
          \<and> installed f ?fr P (?P\<lparr>pReplacer := r, pStats := g (pStats P)\<rparr>)))
        (\<lambda>e r. False) r) (\<lambda>e r. False) (pReplacer P)"
  proof (rule recordAccess_wp)
    fix r assume r: "lruInv r" "length (entries r) = length (entries (pReplacer P))"
      "trackedFrames r = insert f (trackedFrames (pReplacer P))" "evictableFrames r = evictableFrames (pReplacer P)"
    show "wp (setEvictable f False) (\<lambda>x r. (poolInv (?P\<lparr>pReplacer := r, pStats := g (pStats P)\<rparr>)
          \<and> installed f ?fr P (?P\<lparr>pReplacer := r, pStats := g (pStats P)\<rparr>))) (\<lambda>e r. False) r"
      by (rule setEvictable_wp) (use r assms(1) inst in \<open>auto intro!: fill simp: holeInv_def ins\<close>)
  qed (use assms(1,2) f in \<open>auto simp: holeInv_def clockOk_def\<close>)
  show ?thesis using access new by (simp add: wp_rules)
qed

lemma free_head: "poolInv P \<Longrightarrow> pFree P = f # fs \<Longrightarrow> f < length (pFrames P) \<and> f \<notin> resident P"
  using available_cases [of P f] by (auto simp: availableFrame_def)

lemma installPage_ok:
  assumes "poolOk view C P" "clockOk P"
    and "f \<in> idle P \<and> \<not> fDirty (pFrames P ! f) \<or> (\<exists>fs. pFree P = f # fs)"
    and "dataPage (pDisk P) pid" "\<forall>i\<in>resident P. fPageId (pFrames P ! i) \<noteq> pid" "length page = PAGE_SIZE"
    and "view page = C pid" "dirty \<or> view (pageOf (pDisk P) pid) = C pid"
  shows "wp (installPage f pid page dirty)
    (\<lambda>_ P'. poolOk view C P' \<and> installed f (pinnedFrame pid page dirty) P P') (\<lambda>_ _. False) P"
proof -
  have inv: "poolInv P" "stored view C P" using assms(1) by (simp_all add: poolOk_def)
  have f: "f < length (pFrames P)"
    using assms(3) free_head [OF inv(1)] by (auto simp: idle_def resident_def)
  have clean: "f \<in> resident P \<longrightarrow> \<not> fDirty (pFrames P ! f)"
    using assms(3) free_head [OF inv(1)] by auto
  have valid: "fValid (pFrames P ! f) \<longleftrightarrow> f \<in> resident P" using f by (simp add: resident_def)
  have post: "poolOk view C P'" if "poolInv P'" "installed f (pinnedFrame pid page dirty) P P'" for P'
    using stored_installed [OF inv(2) that(2) f] that(1) clean assms(7,8) by (simp add: poolOk_def pinnedFrame_def)
  let ?Q = "\<lambda>_ P'. poolOk view C P' \<and> installed f (pinnedFrame pid page dirty) P P'"
  let ?rest = "act_bind (act_modify (setFrame f (\<lambda>_. pinnedFrame pid page dirty))) (\<lambda>_.
     act_bind (throwWhen (\<lambda>P. pid \<in> fst ` set (pTable P)) (LogicError ''Page already exists in buffer page table'')) (\<lambda>_.
     act_bind (act_modify (\<lambda>P. P\<lparr>pTable := pTable P @ [(pid, f)]\<rparr>)) (\<lambda>_.
     act_bind (onReplacer (recordAccess f)) (\<lambda>_.
     act_bind (onReplacer (setEvictable f False)) (\<lambda>_.
     bump (\<lambda>s. s\<lparr>pinOperations := pinOperations s + 1\<rparr>))))))"
  have tail: "wp ?rest ?Q (\<lambda>_ _. False) P'"
    if "holeInv f P'" "clockOk P'" "pFrames P' = pFrames P" "pDisk P' = pDisk P" "pReaders P' = pReaders P"
      "pWriters P' = pWriters P" "pEnv P' = pEnv P" for P'
  proof -
    have res: "resident P' = resident P" using that(3) by (simp add: resident_def)
    have inst: "installed f fr P P''" if "installed f fr P' P''" for fr P''
      using that \<open>pFrames P' = pFrames P\<close> \<open>pDisk P' = pDisk P\<close> \<open>pReaders P' = pReaders P\<close> \<open>pWriters P' = pWriters P\<close> \<open>pEnv P' = pEnv P\<close>
      by (simp add: installed_def)
    show ?thesis
      by (rule wp_conseq [OF installPage_tail [OF that(1,2)]])
        (use assms(4-6) that(3,4) res inst post in auto)
  qed
  have "wp (\<lambda>P. if fValid (pFrames P ! f) then releaseVictim f P else takeFreeFrame f P) (\<lambda>_. wp ?rest ?Q (\<lambda>_ _. False)) (\<lambda>_ _. False) P"
    unfolding wp_if
  proof (intro if_bool_eq_conj [THEN iffD2] conjI impI)
    assume "fValid (pFrames P ! f)"
    then have "f \<in> idle P" using assms(3) valid free_head [OF inv(1)] by auto
    then show "wp (releaseVictim f) (\<lambda>_. wp ?rest ?Q (\<lambda>_ _. False)) (\<lambda>_ _. False) P"
      by (rule releaseVictim_wp [OF inv(1)]) (rule tail, use assms(2) in \<open>simp_all add: clockOk_def\<close>)
  next
    assume "\<not> fValid (pFrames P ! f)"
    then obtain fs where "pFree P = f # fs" using assms(3) valid by (auto simp: idle_def)
    then show "wp (takeFreeFrame f) (\<lambda>_. wp ?rest ?Q (\<lambda>_ _. False)) (\<lambda>_ _. False) P"
      by (rule takeFreeFrame_wp [OF inv(1)]) (rule tail, use assms(2) in \<open>simp_all add: clockOk_def\<close>)
  qed
  then show ?thesis
    using f clean valid unfolding installPage_def pinnedFrame_def [symmetric] wp_bind [of "requireFrame f"] wp_requireFrame
      wp_bind [of "throwWhen c e" for c e] wp_throwWhen wp_bind [of "\<lambda>P. if fValid (pFrames P ! f) then releaseVictim f P else takeFreeFrame f P"]
    by simp
qed

section \<open>Pins and guards\<close>

lemma poolOk_pin:
  assumes "poolOk view C P" "f \<in> resident P" "pFrames P' = (pFrames P)[f := (pFrames P ! f)\<lparr>fPinCount := n\<rparr>]"
    and "pDisk P' = pDisk P" "pTable P' = pTable P" "pFree P' = pFree P"
    and "lruInv (pReplacer P')" "length (entries (pReplacer P')) = length (pFrames P)"
    and "trackedFrames (pReplacer P') = resident P"
    and "evictableFrames (pReplacer P') = (if n = 0 then insert f (idle P) else idle P - {f})"
  shows "poolOk view C P'"
proof -
  have f: "f < length (pFrames P)" using assms(2) by (rule resident_bound)
  have frame: "pFrames P' ! i = (if i = f then (pFrames P ! f)\<lparr>fPinCount := n\<rparr> else pFrames P ! i)" for i
    using f assms(3) by simp
  have len: "length (pFrames P') = length (pFrames P)" using assms(3) by simp
  have res: "resident P' = resident P" using assms(2) by (auto simp: resident_def len frame split: if_splits)
  have idl: "idle P' = (if n = 0 then insert f (idle P) else idle P - {f})"
    using assms(2) by (auto simp: idle_def res frame split: if_splits)
  have same: "fPageId (pFrames P' ! i) = fPageId (pFrames P ! i)" "fData (pFrames P' ! i) = fData (pFrames P ! i)"
    "fDirty (pFrames P' ! i) = fDirty (pFrames P ! i)" for i by (simp_all add: frame)
  have inv: "poolInv P" "stored view C P" using assms(1) by (simp_all add: poolOk_def)
  have free: "\<forall>i\<in>set (pFree P). pFrames P' ! i = emptyFrame"
    using inv(1) assms(2) by (auto simp: poolInv_def frame)
  have "poolInv P'"
    using inv(1) assms(4-10) res idl len free by (simp add: poolInv_def same)
  moreover have "stored view C P'" using inv(2) assms(4) by (simp add: stored_def res same)
  ultimately show ?thesis by (simp add: poolOk_def)
qed

text \<open>
  \<open>guardsOk gs P\<close>: \<open>gs\<close> are guards that are alive. Each pins its frame, which holds its page; the
  leases of the thread are exactly theirs, and a frame that is written has no other guard.
\<close>

definition guardCount :: "guard list \<Rightarrow> nat \<Rightarrow> nat" where
  "guardCount gs f = length (filter (\<lambda>g. gFrame g = f) gs)"

definition guardsOk :: "guard list \<Rightarrow> 'e pool \<Rightarrow> bool" where
  "guardsOk gs P \<longleftrightarrow>
     (\<forall>g\<in>set gs. gOwns g \<and> gFrame g \<in> resident P \<and> fPageId (pFrames P ! gFrame g) = gPage g) \<and>
     (\<forall>f\<in>resident P. guardCount gs f \<le> unat (fPinCount (pFrames P ! f))) \<and>
     mset (pReaders P) = mset (map gFrame (filter (\<lambda>g. \<not> gWritable g) gs)) \<and>
     mset (pWriters P) = mset (map gFrame (filter gWritable gs)) \<and>
     distinct (pWriters P) \<and> set (pReaders P) \<inter> set (pWriters P) = {}"

text \<open>
  The abstract state of the pool is a map from the data pages that exist to what they show, with the
  guards that are alive.
\<close>

definition pagesOk :: "(page \<Rightarrow> 'v) \<Rightarrow> (page_id \<rightharpoonup> 'v) \<Rightarrow> 'e pool \<Rightarrow> bool" where
  "pagesOk view M P \<longleftrightarrow> poolOk view (the \<circ> M) P \<and> dom M = {p. dataPage (pDisk P) p}"

definition poolGood :: "(page \<Rightarrow> 'v) \<Rightarrow> (page_id \<rightharpoonup> 'v) \<Rightarrow> guard list \<Rightarrow> 'e pool \<Rightarrow> bool" where
  "poolGood view M gs P \<longleftrightarrow> pagesOk view M P \<and> guardsOk gs P"

lemma pagesOk_other [simp]:
  "pagesOk view M (P\<lparr>pStats := s\<rparr>) = pagesOk view M P" "pagesOk view M (P\<lparr>pEnv := v\<rparr>) = pagesOk view M P"
  "pagesOk view M (P\<lparr>pReaders := l\<rparr>) = pagesOk view M P" "pagesOk view M (P\<lparr>pWriters := l\<rparr>) = pagesOk view M P"
  "pagesOk view M (P\<lparr>pFlushOnDestruction := b\<rparr>) = pagesOk view M P"
  by (simp_all add: pagesOk_def)

lemma pagesOk_sound: "pagesOk view M P \<Longrightarrow> sound view (the \<circ> M) P P' \<Longrightarrow> pagesOk view M P'"
  by (simp add: pagesOk_def sound_def kept_def)

lemma guardsOk_other [simp]:
  "guardsOk gs (P\<lparr>pStats := s\<rparr>) = guardsOk gs P" "guardsOk gs (P\<lparr>pEnv := v\<rparr>) = guardsOk gs P"
  "guardsOk gs (P\<lparr>pFlushOnDestruction := b\<rparr>) = guardsOk gs P"
  by (simp_all add: guardsOk_def)

lemma poolGood_other [simp]:
  "poolGood view M gs (P\<lparr>pStats := s\<rparr>) = poolGood view M gs P" "poolGood view M gs (P\<lparr>pEnv := v\<rparr>) = poolGood view M gs P"
  "poolGood view M gs (P\<lparr>pFlushOnDestruction := b\<rparr>) = poolGood view M gs P"
  by (simp_all add: poolGood_def)

lemma guardsOk_kept: "guardsOk gs P \<Longrightarrow> kept P P' \<Longrightarrow> guardsOk gs P'"
  by (simp add: guardsOk_def kept_def resident_def)

lemma sound_good: "poolGood view M gs P \<Longrightarrow> sound view (the \<circ> M) P P' \<Longrightarrow> poolGood view M gs P'"
  using pagesOk_sound by (auto simp: poolGood_def sound_def guardsOk_kept)

text \<open>Frame \<open>f\<close> has one pin more than it has guards.\<close>

definition spare :: "guard list \<Rightarrow> nat \<Rightarrow> 'e pool \<Rightarrow> bool" where
  "spare gs f P \<longleftrightarrow> f \<in> resident P \<and> guardCount gs f < unat (fPinCount (pFrames P ! f))"

lemma guardsOk_pin:
  assumes "guardsOk gs P" "f \<in> resident P" "pFrames P' = (pFrames P)[f := (pFrames P ! f)\<lparr>fPinCount := n\<rparr>]"
    and "guardCount gs f \<le> unat n" "pReaders P' = pReaders P" "pWriters P' = pWriters P"
  shows "guardsOk gs P'"
proof -
  have f: "f < length (pFrames P)" using assms(2) by (rule resident_bound)
  have frame: "pFrames P' ! i = (if i = f then (pFrames P ! f)\<lparr>fPinCount := n\<rparr> else pFrames P ! i)" for i
    using f assms(3) by simp
  have res: "resident P' = resident P" using assms(2,3) by (auto simp: resident_def nth_list_update split: if_splits)
  show ?thesis using assms(1,4-6) by (auto simp: guardsOk_def res frame)
qed

lemma releasePin_ok:
  assumes "pagesOk view M P" "guardsOk gs P" "spare gs f P"
  shows "wp (releasePin f) (\<lambda>_. poolGood view M gs) (\<lambda>_ _. False) P"
proof -
  have f: "f \<in> resident P" "f < length (pFrames P)" "fValid (pFrames P ! f)" and n: "guardCount gs f < unat (fPinCount (pFrames P ! f))"
    using assms(3) by (auto simp: spare_def resident_def)
  have pos: "fPinCount (pFrames P ! f) \<noteq> 0" using n by (metis not_less_zero unat_0)
  have ok: "poolOk view (the \<circ> M) P" using assms(1) by (simp add: pagesOk_def)
  then have inv: "poolInv P" by (rule poolOkD)
  then have lru: "lruInv (pReplacer P)" "length (entries (pReplacer P)) = length (pFrames P)"
    "trackedFrames (pReplacer P) = resident P" "evictableFrames (pReplacer P) = idle P" by (simp_all add: poolInv_def)
  have cnt: "guardCount gs f \<le> unat (fPinCount (pFrames P ! f) - 1)" using n unat_minus_one [OF pos] by simp
  have nidle: "f \<notin> idle P" using pos by (simp add: idle_def)
  have good: "poolGood view M gs P'"
    if "pFrames P' = (pFrames P)[f := (pFrames P ! f)\<lparr>fPinCount := fPinCount (pFrames P ! f) - 1\<rparr>]"
      "pDisk P' = pDisk P" "pTable P' = pTable P" "pFree P' = pFree P" "pReaders P' = pReaders P" "pWriters P' = pWriters P"
      "lruInv (pReplacer P')" "length (entries (pReplacer P')) = length (pFrames P)" "trackedFrames (pReplacer P') = resident P"
      "evictableFrames (pReplacer P') = (if fPinCount (pFrames P ! f) - 1 = 0 then insert f (idle P) else idle P - {f})" for P'
    unfolding poolGood_def pagesOk_def that(2)
    using assms(1) poolOk_pin [OF ok f(1) that(1-4,7-10)] guardsOk_pin [OF assms(2) f(1) that(1) cnt that(5,6)] by (simp add: pagesOk_def)
  show ?thesis
  proof (cases "fPinCount (pFrames P ! f) - 1 = 0")
    case True
    have "wp (setEvictable f True) (\<lambda>_ r. poolGood view M gs (setFrame f (\<lambda>fr. fr\<lparr>fPinCount := fPinCount fr - 1\<rparr>) P
        \<lparr>pStats := s, pReplacer := r\<rparr>)) (\<lambda>_ _. False) (pReplacer P)" for s
      by (rule setEvictable_wp) (use lru f True in \<open>auto intro!: good\<close>)
    then show ?thesis using f pos True by (simp add: releasePin_def wp_rules)
  next
    case False
    have "poolGood view M gs (setFrame f (\<lambda>fr. fr\<lparr>fPinCount := fPinCount fr - 1\<rparr>) P)"
      by (rule good) (use lru False nidle in simp_all)
    then show ?thesis using f pos False by (simp add: releasePin_def wp_rules)
  qed
qed

text \<open>Taking and giving back a lease.\<close>

definition guardFor :: "nat \<Rightarrow> page_id \<Rightarrow> bool \<Rightarrow> guard" where
  "guardFor f pid w = \<lparr>gOwns = True, gFrame = f, gPage = pid, gWritable = w\<rparr>"

lemma lease_added:
  assumes "guardsOk gs P" "spare gs f P" "fPageId (pFrames P ! f) = pid" "f \<notin> set (pWriters P)"
    and "w \<longrightarrow> f \<notin> set (pReaders P)"
  shows "guardsOk (guardFor f pid w # gs) (if w then P\<lparr>pWriters := f # pWriters P\<rparr> else P\<lparr>pReaders := f # pReaders P\<rparr>)"
  using assms by (cases w) (auto simp: guardsOk_def spare_def guardFor_def guardCount_def Suc_le_eq)

lemma guards_removed:
  assumes "g \<in> set gs"
  shows "mset (map gFrame (filter q (remove1 g gs))) = mset (map gFrame (filter q gs)) - (if q g then {#gFrame g#} else {#})"
proof -
  obtain as bs where gs: "gs = as @ g # bs" "g \<notin> set as" using split_list_first [OF assms] by blast
  then have "remove1 g gs = as @ bs" by (simp add: remove1_append)
  then show ?thesis using gs(1) by simp
qed

lemma guardCount_removed: "g \<in> set gs \<Longrightarrow> guardCount gs f = guardCount (remove1 g gs) f + (if gFrame g = f then 1 else 0)"
proof -
  assume "g \<in> set gs"
  then obtain as bs where "gs = as @ g # bs" "g \<notin> set as" using split_list_first by metis
  then show ?thesis by (simp add: guardCount_def remove1_append)
qed

lemma lease_removed:
  assumes "guardsOk gs P" "g \<in> set gs"
  shows "guardsOk (remove1 g gs) (unlockContent (gFrame g) (gWritable g) P)"
    and "spare (remove1 g gs) (gFrame g) (unlockContent (gFrame g) (gWritable g) P)"
proof -
  let ?P = "unlockContent (gFrame g) (gWritable g) P"
  have g: "gFrame g \<in> resident P" using assms by (auto simp: guardsOk_def)
  have same: "resident ?P = resident P" "pFrames ?P = pFrames P" by (auto simp: unlockContent_def resident_def)
  have "guardCount gs (gFrame g) \<le> unat (fPinCount (pFrames P ! gFrame g))" using assms(1) g by (simp add: guardsOk_def)
  then show "spare (remove1 g gs) (gFrame g) ?P"
    using guardCount_removed [OF assms(2), of "gFrame g"] g by (simp add: spare_def same)
  have all: "\<forall>g\<in>set (remove1 g gs). g \<in> set gs" by (meson notin_set_remove1)
  have le: "guardCount (remove1 g gs) f \<le> guardCount gs f" for f using guardCount_removed [OF assms(2), of f] by simp
  have rd: "mset (pReaders ?P) = mset (map gFrame (filter (\<lambda>g. \<not> gWritable g) (remove1 g gs)))"
    and wr: "mset (pWriters ?P) = mset (map gFrame (filter gWritable (remove1 g gs)))"
    using assms(1) unfolding guards_removed [OF assms(2)] by (auto simp: guardsOk_def unlockContent_def)
  have sub: "set (pReaders ?P) \<subseteq> set (pReaders P)" "set (pWriters ?P) \<subseteq> set (pWriters P)" "distinct (pWriters ?P)"
    using assms(1) by (simp_all add: unlockContent_def guardsOk_def set_remove1_subset)
  have old: "\<forall>g\<in>set gs. gOwns g \<and> gFrame g \<in> resident P \<and> fPageId (pFrames P ! gFrame g) = gPage g"
    "\<forall>f\<in>resident P. guardCount gs f \<le> unat (fPinCount (pFrames P ! f))" "set (pReaders P) \<inter> set (pWriters P) = {}"
    using assms(1) by (simp_all add: guardsOk_def)
  show "guardsOk (remove1 g gs) ?P"
    unfolding guardsOk_def same
  proof (intro conjI rd wr sub(3))
    show "\<forall>g\<in>set (remove1 g gs). gOwns g \<and> gFrame g \<in> resident P \<and> fPageId (pFrames P ! gFrame g) = gPage g"
      using old(1) all by blast
    show "\<forall>f\<in>resident P. guardCount (remove1 g gs) f \<le> unat (fPinCount (pFrames P ! f))"
      using old(2) le order.trans by blast
    show "set (pReaders ?P) \<inter> set (pWriters ?P) = {}" using old(3) sub(1,2) by blast
  qed
qed

lemma unlockContent_ok [simp]: "pagesOk view M (unlockContent f w P) = pagesOk view M P"
  by (simp add: unlockContent_def)

lemma dropGuard_ok:
  assumes "poolGood view M gs P" "g \<in> set gs"
  shows "wp (dropGuard g) (\<lambda>_. poolGood view M (remove1 g gs)) (\<lambda>_ _. False) P"
proof -
  have own: "gOwns g" using assms by (auto simp: poolGood_def guardsOk_def)
  have "wp (releasePin (gFrame g)) (\<lambda>_. poolGood view M (remove1 g gs)) (\<lambda>_ _. False) (unlockContent (gFrame g) (gWritable g) P)"
    using assms lease_removed [OF _ assms(2)] by (intro releasePin_ok) (auto simp: poolGood_def)
  then show ?thesis using own by (simp add: dropGuard_def wp_rules)
qed

lemma markIntent_sound:
  assumes "sound view C P0 P" "f \<in> resident P0"
  shows "wp (markIntent svc f) (\<lambda>_ P'. sound view C P0 P' \<and> fDirty (pFrames P' ! f)) (\<lambda>_ _. False) P"
  using assms sound_frame_facts [OF assms] by (auto simp: markIntent_def wp_rules intro!: sound_setFrame)

lemma env_wp:
  assumes "\<And>x v. Q x (P\<lparr>pEnv := v\<rparr>)" "\<And>e v. E e (P\<lparr>pEnv := v\<rparr>)"
  shows "wp (onEnv m) Q E P" "wp (\<lambda>P. onEnv (n P) P) Q E P"
proof -
  show "wp (onEnv m) Q E P" for m unfolding wp_onEnv using assms by (auto simp: wp_iff)
  then show "wp (\<lambda>P. onEnv (n P) P) Q E P" by (rule wp_same [OF refl])
qed

lemma noteGuardWriteIntent_sound:
  assumes "sound view C P0 P" "f \<in> resident P0"
  shows "wp (noteGuardWriteIntent svc f pid) (\<lambda>_ P'. sound view C P0 P' \<and> fDirty (pFrames P' ! f)) (\<lambda>_. sound view C P0) P"
proof -
  have mark: "wp (markIntent svc f) (\<lambda>_ P'. sound view C P0 P' \<and> fDirty (pFrames P' ! f)) (\<lambda>_. sound view C P0) P'"
    if "sound view C P0 P'" for P'
    by (rule wp_conseq [OF markIntent_sound [OF that assms(2)]]) auto
  show ?thesis
    unfolding noteGuardWriteIntent_def requireGuardFrame_def
    using assms(1) mark by (auto simp: wp_rules split: option.splits intro!: env_wp)
qed

lemma lockContent_result:
  assumes "f < length (pFrames P)"
  shows "lockContent f w P =
    (if f \<in> set (pWriters P) then (Inl (LogicError ''Frame content leases are not recursively writable''), P)
     else if w \<and> f \<in> set (pReaders P)
     then (Inl (LogicError ''Release read guards before acquiring write access to the same frame''), P)
     else (Inr (), if w then P\<lparr>pWriters := f # pWriters P\<rparr> else P\<lparr>pReaders := f # pReaders P\<rparr>))"
  using assms by (simp add: lockContent_def requireFrame_def throwWhen_def throw_if_def act_bind_def act_lift_def act_modify_def)

lemma BasicPageGuard_ok:
  fixes P :: "'e pool"
  assumes "pagesOk view M P" "guardsOk gs P" "spare gs f P" "fPageId (pFrames P ! f) = pid"
  shows "wp (BasicPageGuard svc f pid w)
    (\<lambda>g P'. poolGood view M (g # gs) P' \<and> g = guardFor f pid w \<and> (w \<longrightarrow> fDirty (pFrames P' ! f)))
    (\<lambda>_. poolGood view M gs) P"
proof -
  have f: "f \<in> resident P" "f < length (pFrames P)" using assms(3) by (auto simp: spare_def resident_def)
  have release: "wp (act_bind (releasePin f) (\<lambda>_. act_throw e)) Q (\<lambda>_. poolGood view M gs) P'"
    if "pagesOk view M P'" "guardsOk gs P'" "spare gs f P'" for P' :: "'e pool" and e and Q :: "guard \<Rightarrow> 'e pool \<Rightarrow> bool"
    unfolding wp_bind wp_throw by (rule wp_conseq [OF releasePin_ok [OF that]]) auto
  let ?P = "if w then P\<lparr>pWriters := f # pWriters P\<rparr> else P\<lparr>pReaders := f # pReaders P\<rparr>"
  show ?thesis
  proof (cases "f \<in> set (pWriters P) \<or> w \<and> f \<in> set (pReaders P)")
    case True
    then obtain e where "lockContent f w P = (Inl e, P)"
      unfolding lockContent_result [OF f(2)] by (metis (full_types))
    then show ?thesis
      by - (rule wp_same [where n = "act_bind (releasePin f) (\<lambda>_. act_throw e)"], simp add: BasicPageGuard_def,
        rule release [OF assms(1-3)])
  next
    case False
    then have lock: "lockContent f w P = (Inr (), ?P)"
      unfolding lockContent_result [OF f(2)] by auto
    have guards: "guardsOk (guardFor f pid w # gs) ?P" using lease_added [OF assms(2-4)] False by blast
    have ok: "pagesOk view M ?P" using assms(1) by simp
    show ?thesis
    proof (cases w)
      case False
      then show ?thesis using lock guards ok by (simp add: wp_def BasicPageGuard_def guardFor_def poolGood_def)
    next
      case True
      obtain r P2 where run: "noteGuardWriteIntent svc f pid ?P = (r, P2)" by fastforce
      have noted: "wp (noteGuardWriteIntent svc f pid) (\<lambda>_ P'. sound view (the \<circ> M) ?P P' \<and> fDirty (pFrames P' ! f)) (\<lambda>_. sound view (the \<circ> M) ?P) ?P"
        by (rule noteGuardWriteIntent_sound [OF sound_refl]) (use f ok in \<open>simp_all add: pagesOk_def\<close>)
      then have s: "sound view (the \<circ> M) ?P P2" using run by (auto simp: wp_def split: sum.splits)
      have dirty: "fDirty (pFrames P2 ! f)" if "r = Inr u" for u using noted run that by (simp add: wp_def)
      have k: "kept ?P P2" using s by (simp add: sound_def)
      have ok2: "pagesOk view M P2" by (rule pagesOk_sound [OF ok s])
      have g2: "guardsOk (guardFor f pid w # gs) P2" by (rule guardsOk_kept [OF guards k])
      have given: "guardsOk gs (unlockContent f w P2)" "spare gs f (unlockContent f w P2)"
        using lease_removed [OF g2, of "guardFor f pid w"] by (simp_all add: guardFor_def)
      show ?thesis
      proof (cases r)
        case (Inl e)
        have "BasicPageGuard svc f pid w P = act_bind (releasePin f) (\<lambda>_. act_throw e) (unlockContent f w P2)"
          using lock run Inl True by (simp add: BasicPageGuard_def)
        then show ?thesis
          using release [OF _ given, of e] ok2 by (simp add: wp_def)
      next
        case (Inr u)
        then have "BasicPageGuard svc f pid w P = (Inr (guardFor f pid w), P2)"
          using lock run True by (simp add: BasicPageGuard_def guardFor_def)
        then show ?thesis using ok2 g2 dirty [OF Inr] by (simp add: wp_def poolGood_def)
      qed
    qed
  qed
qed

end
