(* ===== verification/Buffer_Pool_Spec.thy ===== *)
theory Buffer_Pool_Spec
  imports Buffer_Pool_Laws
begin

text \<open>
  The buffer pool as its clients see it: a map from page ids to pages. Every operation is shown to
  act on that map as it should, on all its branches, and so do all sequences of operations.
\<close>

section \<open>Fetching\<close>

definition fetchPost ::
  "(page \<Rightarrow> 'v) \<Rightarrow> (page_id \<rightharpoonup> 'v) \<Rightarrow> guard list \<Rightarrow> page_id \<Rightarrow> bool \<Rightarrow> fetch_result \<Rightarrow> 'e pool \<Rightarrow> bool"
where
  "fetchPost view M gs pid w r P = (case r of
     Fetched g \<Rightarrow> poolGood view M (g # gs) P \<and> gPage g = pid \<and> gWritable g = w
   | _ \<Rightarrow> poolGood view M gs P)"

lemma wp_return_eq [wp_rules]: "wp (act_return x) Q E = Q x"
  by (rule ext) (rule wp_return)

lemma wp_bind_eq: "wp (act_bind m k) Q E = wp m (\<lambda>x. wp (k x) Q E) E"
  by (rule ext) (rule wp_bind)

lemma pin_taken:
  assumes "poolGood view M gs P" "f \<in> resident P" "fPinCount (pFrames P ! f) \<noteq> 0xFFFFFFFF"
    and "pFrames P' = (pFrames P)[f := (pFrames P ! f)\<lparr>fPinCount := fPinCount (pFrames P ! f) + 1\<rparr>]"
    and "pDisk P' = pDisk P" "pTable P' = pTable P" "pFree P' = pFree P" "pReaders P' = pReaders P" "pWriters P' = pWriters P"
    and "lruInv (pReplacer P')" "length (entries (pReplacer P')) = length (pFrames P)"
    and "trackedFrames (pReplacer P') = resident P" "evictableFrames (pReplacer P') = idle P - {f}"
  shows "pagesOk view M P'" "guardsOk gs P'" "spare gs f P'" "fPageId (pFrames P' ! f) = fPageId (pFrames P ! f)"
proof -
  let ?n = "fPinCount (pFrames P ! f)"
  have ok: "poolOk view (the \<circ> M) P" "dom M = {p. dataPage (pDisk P) p}" "guardsOk gs P"
    using assms(1) by (simp_all add: poolGood_def pagesOk_def)
  have n: "unat (?n + 1) = Suc (unat ?n)" by (rule unat_succ_max(1) [OF assms(3)])
  then have nz: "?n + 1 \<noteq> 0" by (metis nat.distinct(1) unat_0)
  have cnt: "guardCount gs f \<le> unat ?n" using ok(3) assms(2) by (simp add: guardsOk_def)
  have f: "f < length (pFrames P)" using assms(2) by (rule resident_bound)
  have "poolOk view (the \<circ> M) P'"
    by (rule poolOk_pin [OF ok(1) assms(2,4-7,10-12)]) (use nz assms(13) in simp)
  then show "pagesOk view M P'" using ok(2) assms(5) by (simp add: pagesOk_def)
  show "guardsOk gs P'" by (rule guardsOk_pin [OF ok(3) assms(2,4) _ assms(8,9)]) (use cnt n in simp)
  have "f \<in> resident P'" using assms(2,4) f by (simp add: resident_def)
  then show "spare gs f P'" using cnt n f assms(4) by (simp add: spare_def)
  show "fPageId (pFrames P' ! f) = fPageId (pFrames P ! f)" using f assms(4) by simp
qed

lemma fetched_wp:
  assumes "pagesOk view M P" "guardsOk gs P" "spare gs f P" "fPageId (pFrames P ! f) = pid"
  shows "wp (BasicPageGuard svc f pid w) (\<lambda>g. fetchPost view M gs pid w (Fetched g)) (\<lambda>_. poolGood view M gs) P"
  by (rule wp_conseq [OF BasicPageGuard_ok [OF assms]]) (auto simp: fetchPost_def guardFor_def)

lemma fetchHit_ok:
  assumes "poolGood view M gs P" "clockOk P" "f \<in> resident P" "fPageId (pFrames P ! f) = pid"
  shows "wp (fetchHit svc f pid w) (fetchPost view M gs pid w) (\<lambda>_. poolGood view M gs) P"
proof (cases "fPinCount (pFrames P ! f) = 0xFFFFFFFF")
  case True
  then show ?thesis using assms(1) by (simp add: fetchHit_def wp_rules)
next
  case False
  let ?n = "fPinCount (pFrames P ! f)"
  have "poolInv P" using assms(1) by (simp add: poolGood_def pagesOk_def poolOk_def)
  then have lru: "lruInv (pReplacer P)" "length (entries (pReplacer P)) = length (pFrames P)"
    "trackedFrames (pReplacer P) = resident P" "evictableFrames (pReplacer P) = idle P" by (simp_all add: poolInv_def)
  have f: "f < length (pFrames P)" using assms(3) by (rule resident_bound)
  have guarded: "wp (BasicPageGuard svc f pid w) (\<lambda>g. fetchPost view M gs pid w (Fetched g)) (\<lambda>_. poolGood view M gs) P'"
    if "pFrames P' = (pFrames P)[f := (pFrames P ! f)\<lparr>fPinCount := ?n + 1\<rparr>]"
      "pDisk P' = pDisk P" "pTable P' = pTable P" "pFree P' = pFree P" "pReaders P' = pReaders P" "pWriters P' = pWriters P"
      "lruInv (pReplacer P')" "length (entries (pReplacer P')) = length (pFrames P)"
      "trackedFrames (pReplacer P') = resident P" "evictableFrames (pReplacer P') = idle P - {f}" for P'
    using pin_taken [OF assms(1,3) False that] assms(4) by (intro fetched_wp) simp_all
  have nz: "idle P = idle P - {f}" if "?n \<noteq> 0" using that by (auto simp: idle_def)
  show ?thesis
    unfolding fetchHit_def
    using False f assms(2,3) lru nz
    by (auto simp: wp_rules clockOk_def intro!: setEvictable_wp recordAccess_wp guarded)
qed

lemma no_guard:
  assumes "guardsOk gs P" "f \<in> idle P \<or> f \<notin> resident P"
  shows "guardCount gs f = 0" "g \<in> set gs \<Longrightarrow> gFrame g \<noteq> f"
proof -
  show c: "guardCount gs f = 0"
  proof (cases "f \<in> resident P")
    case True
    then have "guardCount gs f \<le> unat (fPinCount (pFrames P ! f))" "fPinCount (pFrames P ! f) = 0"
      using assms by (auto simp: guardsOk_def idle_def)
    then show ?thesis by simp
  next
    case False
    then have "filter (\<lambda>g. gFrame g = f) gs = []" using assms(1) by (auto simp: guardsOk_def filter_empty_conv)
    then show ?thesis by (simp add: guardCount_def)
  qed
  show "g \<in> set gs \<Longrightarrow> gFrame g \<noteq> f" using c by (auto simp: guardCount_def filter_empty_conv)
qed

lemma guardsOk_installed:
  assumes "guardsOk gs P" "installed f fr P P'" "f < length (pFrames P)" "f \<in> idle P \<or> f \<notin> resident P" "fValid fr" "fPinCount fr = 1"
  shows "guardsOk gs P'" "spare gs f P'"
proof -
  have frame: "pFrames P' ! i = (if i = f then fr else pFrames P ! i)" for i
    using assms(2,3) by (simp add: installed_def)
  have res: "resident P' = insert f (resident P)"
    using assms(2,3,5) by (auto simp: resident_def installed_def nth_list_update)
  note none = no_guard [OF assms(1,4)]
  have lease: "pReaders P' = pReaders P" "pWriters P' = pWriters P" using assms(2) by (simp_all add: installed_def)
  have "\<forall>g\<in>set gs. gOwns g \<and> gFrame g \<in> resident P' \<and> fPageId (pFrames P' ! gFrame g) = gPage g"
    using assms(1) none(2) by (auto simp: guardsOk_def res frame)
  moreover have "\<forall>i\<in>resident P'. guardCount gs i \<le> unat (fPinCount (pFrames P' ! i))"
    using assms(1) none(1) by (auto simp: guardsOk_def res frame)
  ultimately show "guardsOk gs P'" using assms(1) lease by (simp add: guardsOk_def)
  show "spare gs f P'" using none(1) assms(6) by (simp add: spare_def res frame)
qed

text \<open>The frame that was made available takes the page, and a guard on it is handed out.\<close>

lemma install_wp:
  assumes "pagesOk view M P" "guardsOk gs P" "clockOk P"
    and "f \<in> idle P \<and> \<not> fDirty (pFrames P ! f) \<or> (\<exists>fs. pFree P = f # fs)"
    and "dataPage (pDisk P) pid" "\<forall>i\<in>resident P. fPageId (pFrames P ! i) \<noteq> pid" "length page = PAGE_SIZE"
    and "M pid = Some (view page)" "dirty \<or> view (pageOf (pDisk P) pid) = view page"
  shows "wp (installPage f pid page dirty)
    (\<lambda>_ P'. pagesOk view M P' \<and> guardsOk gs P' \<and> spare gs f P' \<and> fPageId (pFrames P' ! f) = pid) (\<lambda>_ _. False) P"
proof -
  have ok: "poolOk view (the \<circ> M) P" "dom M = {p. dataPage (pDisk P) p}" using assms(1) by (simp_all add: pagesOk_def)
  have av: "f < length (pFrames P)" "f \<in> idle P \<or> f \<notin> resident P"
    using assms(4) free_head [OF poolOkD [OF ok(1)]] by (auto simp: idle_def resident_def)
  show ?thesis
  proof (rule wp_conseq [OF installPage_ok [OF ok(1) assms(3-7)]])
    fix P' assume P': "poolOk view (the \<circ> M) P' \<and> installed f (pinnedFrame pid page dirty) P P'"
    have fr: "fValid (pinnedFrame pid page dirty)" "fPinCount (pinnedFrame pid page dirty) = 1" by (simp_all add: pinnedFrame_def)
    have "guardsOk gs P'" "spare gs f P'"
      using guardsOk_installed [OF assms(2) _ av fr] P' by blast+
    moreover have "pagesOk view M P'" using P' ok(2) by (simp add: pagesOk_def installed_def)
    moreover have "fPageId (pFrames P' ! f) = pid" using P' av(1) by (simp add: installed_def pinnedFrame_def)
    ultimately show "pagesOk view M P' \<and> guardsOk gs P' \<and> spare gs f P' \<and> fPageId (pFrames P' ! f) = pid" by simp
  qed (use assms(8,9) in simp_all)
qed

lemma available_after:
  assumes "poolInv P" "availableFrame P = Some f" "kept P P'" "f \<in> resident P \<longrightarrow> \<not> fDirty (pFrames P' ! f)"
  shows "f \<in> idle P' \<and> \<not> fDirty (pFrames P' ! f) \<or> (\<exists>fs. pFree P' = f # fs)"
proof -
  have "f \<in> idle P \<or> (\<exists>fs. pFree P = f # fs)" using available_cases [OF assms(1,2)] by blast
  moreover have "idle P' = idle P" "pFree P' = pFree P" using assms(3) kept_resident(2) by (auto simp: kept_def)
  ultimately show ?thesis using assms(4) by (auto simp: idle_def)
qed

lemma flushVictim_wp:
  assumes "hookOk view svc" "poolGood view M gs P" "availableFrame P = Some f"
  shows "wp (flushVictimIfDirty svc f)
    (\<lambda>_ P'. poolGood view M gs P' \<and> kept P P' \<and> (f \<in> idle P' \<and> \<not> fDirty (pFrames P' ! f) \<or> (\<exists>fs. pFree P' = f # fs)))
    (\<lambda>_. poolGood view M gs) P"
proof -
  have ok: "poolOk view (the \<circ> M) P" using assms(2) by (simp add: poolGood_def pagesOk_def)
  note inv = poolOkD [OF ok]
  have f: "f < length (pFrames P)" "f \<in> resident P \<longrightarrow> f \<in> idle P"
    using available_cases [OF inv assms(3)] by (auto simp: idle_def resident_def)
  show ?thesis
    by (rule wp_conseq [OF flushVictimIfDirty_sound [OF assms(1) sound_refl [OF ok] f]])
      (use sound_good [OF assms(2)] available_after [OF inv assms(3)] in \<open>auto simp: sound_def\<close>)
qed

lemma clockOk_kept: "kept P P' \<Longrightarrow> clockOk P' = clockOk P"
  by (simp add: kept_def clockOk_def)

lemma poolGood_parts: "poolGood view M gs P \<Longrightarrow> pagesOk view M P" "poolGood view M gs P \<Longrightarrow> guardsOk gs P"
  "poolGood view M gs P \<Longrightarrow> poolInv P" "poolGood view M gs P \<Longrightarrow> stored view (the \<circ> M) P"
  "poolGood view M gs P \<Longrightarrow> dom M = {p. dataPage (pDisk P) p}"
  by (simp_all add: poolGood_def pagesOk_def poolOk_def)

lemma unchanged_disk:
  assumes "poolGood view M gs P" "diskInv d" "agreeOutside dataPage pageOf {} (pDisk P) d"
  shows "poolGood view M gs (P\<lparr>pDisk := d\<rparr>)"
  using sound_disk [OF sound_refl assms(2,3), of view "the \<circ> M"] assms(1) sound_good [OF assms(1)]
  by (simp add: poolGood_def pagesOk_def)

lemma not_resident_page:
  assumes "poolGood view M gs P" "dataPage (pDisk P) pid" "\<forall>i\<in>resident P. fPageId (pFrames P ! i) \<noteq> pid"
  shows "M pid = Some (view (pageOf (pDisk P) pid))"
proof -
  have "view (pageOf (pDisk P) pid) = the (M pid)"
    using poolGood_parts(4) [OF assms(1)] assms(2,3) by (auto simp: stored_def)
  moreover have "pid \<in> dom M" using poolGood_parts(5) [OF assms(1)] assms(2) by simp
  ultimately show ?thesis by auto
qed

lemma fetchMiss_ok:
  assumes "hookOk view svc" "poolGood view M gs P" "clockOk P" "availableFrame P = Some f"
    and "dataPage (pDisk P) pid" "\<forall>i\<in>resident P. fPageId (pFrames P ! i) \<noteq> pid"
  shows "wp (fetchMiss svc f pid w) (fetchPost view M gs pid w) (\<lambda>_. poolGood view M gs) P"
proof -
  have inst: "wp (installPage f pid page False)
      (\<lambda>x P'. wp (BasicPageGuard svc f pid w) (\<lambda>g. fetchPost view M gs pid w (Fetched g)) (\<lambda>_. poolGood view M gs) (P'\<lparr>pStats := h P'\<rparr>))
      (\<lambda>_. poolGood view M gs) P2"
    if "poolGood view M gs P2" "kept P P2" "f \<in> idle P2 \<and> \<not> fDirty (pFrames P2 ! f) \<or> (\<exists>fs. pFree P2 = f # fs)"
      "page = pageOf (pDisk P2) pid" "length page = PAGE_SIZE" for P2 page h
  proof -
    have res: "dataPage (pDisk P2) pid" "\<forall>i\<in>resident P2. fPageId (pFrames P2 ! i) \<noteq> pid"
      using that(2) assms(5,6) kept_resident(1) [OF that(2)] by (auto simp: kept_def)
    have "M pid = Some (view page)" using not_resident_page [OF that(1) res] that(4) by simp
    then show ?thesis
      using poolGood_parts(1,2) [OF that(1)] that(3-5) res assms(3) clockOk_kept [OF that(2)]
      by (intro wp_conseq [OF install_wp [of view M P2 gs]]) (auto intro!: fetched_wp simp: spare_def)
  qed
  have read: "wp (readPage pid) (\<lambda>page d. wp (installPage f pid page False)
      (\<lambda>x P'. wp (BasicPageGuard svc f pid w) (\<lambda>g. fetchPost view M gs pid w (Fetched g)) (\<lambda>_. poolGood view M gs) (P'\<lparr>pStats := h P'\<rparr>))
      (\<lambda>_. poolGood view M gs) (P1\<lparr>pDisk := d, pStats := s d\<rparr>)) (\<lambda>_ d. poolGood view M gs (P1\<lparr>pDisk := d\<rparr>)) (pDisk P1)"
    if P1: "poolGood view M gs P1" "kept P P1" "f \<in> idle P1 \<and> \<not> fDirty (pFrames P1 ! f) \<or> (\<exists>fs. pFree P1 = f # fs)" for P1 h s
  proof -
    have dk: "diskInv (pDisk P1)" using poolGood_parts(3) [OF P1(1)] by (simp add: poolInv_def)
    have dp: "dataPage (pDisk P1) pid" using assms(5) P1(2) by (simp add: kept_def)
    show ?thesis
    proof (rule wp_conseq [OF store.read_law [OF dk]])
      fix page d assume d: "diskInv d \<and> agreeOutside dataPage pageOf {} (pDisk P1) d \<and> page = pageOf (pDisk P1) pid \<and> length page = PAGE_SIZE"
      have "kept P1 (P1\<lparr>pDisk := d\<rparr>)" using d by (auto simp: kept_def agreeOutside_def)
      then have "kept P (P1\<lparr>pDisk := d, pStats := s d\<rparr>)" using kept_trans [OF P1(2)] by simp
      moreover have "pageOf d pid = page" using d dp by (simp add: agreeOutside_def)
      ultimately show "wp (installPage f pid page False)
          (\<lambda>x P'. wp (BasicPageGuard svc f pid w) (\<lambda>g. fetchPost view M gs pid w (Fetched g)) (\<lambda>_. poolGood view M gs) (P'\<lparr>pStats := h P'\<rparr>))
          (\<lambda>_. poolGood view M gs) (P1\<lparr>pDisk := d, pStats := s d\<rparr>)"
        using d P1(3) unchanged_disk [OF P1(1)] by (intro inst) auto
    qed (use unchanged_disk [OF P1(1)] in auto)
  qed
  show ?thesis
    by (rule wp_same [OF fetchMiss_def [unfolded Let_def]], unfold wp_rules)
      (rule wp_conseq [OF flushVictim_wp [OF assms(1,2,4)]], elim conjE, rule read, assumption+)
qed

lemma availableFrame_other [simp]:
  "availableFrame (P\<lparr>pStats := s\<rparr>) = availableFrame P" "availableFrame (P\<lparr>pEnv := v\<rparr>) = availableFrame P"
  "clockOk (P\<lparr>pStats := s\<rparr>) = clockOk P" "clockOk (P\<lparr>pEnv := v\<rparr>) = clockOk P"
  by (simp_all add: availableFrame_def clockOk_def cong: list.case_cong)

lemma fetchResume_ok:
  assumes "hookOk view svc" "poolGood view M gs P" "clockOk P" "dataPage (pDisk P) pid"
  shows "wp (fetchResume svc pid w) (fetchPost view M gs pid w) (\<lambda>_. poolGood view M gs) P"
proof -
  have inv: "poolInv P" by (rule poolGood_parts(3) [OF assms(2)])
  let ?P = "P\<lparr>pStats := (pStats P)\<lparr>cacheMisses := cacheMisses (pStats P) + 1\<rparr>\<rparr>"
  have miss: "wp (fetchMiss svc f pid w) (fetchPost view M gs pid w) (\<lambda>_. poolGood view M gs) ?P"
    if "map_of (pTable P) pid = None" "availableFrame P = Some f" for f
    using assms that table_absent [OF inv, of pid] by (intro fetchMiss_ok) auto
  show ?thesis
  proof (cases "map_of (pTable P) pid")
    case (Some f)
    then have "f \<in> resident P" "fPageId (pFrames P ! f) = pid" using table_lookup [OF inv] by auto
    then show ?thesis using Some fetchHit_ok [OF assms(2,3)] by (auto simp: fetchResume_def [abs_def] wp_rules)
  next
    case None
    then show ?thesis
      using miss assms(2) by (auto simp: fetchResume_def [abs_def] wp_rules fetchPost_def split: option.splits)
  qed
qed

lemma requirePoolPage_wp:
  "wp (requirePoolPage pid) Q E P = (if pid = METADATA_PAGE_ID then E (InvalidArgument ''Page 0 is reserved for database metadata'') P
     else if \<not> dataPage (pDisk P) pid then E (OutOfRange ''Page ID does not exist'') P else Q () P)"
  by (auto simp: requirePoolPage_def wp_rules dataPage_def)

lemma fetchPage_ok:
  assumes "hookOk view svc" "poolGood view M gs P" "clockOk P"
  shows "wp (fetchPage svc pid w) (fetchPost view M gs pid w) (\<lambda>_. poolGood view M gs) P"
proof -
  have "wp (fetchResume svc pid w) (fetchPost view M gs pid w) (\<lambda>_. poolGood view M gs) (P\<lparr>pStats := s\<rparr>)"
    if "dataPage (pDisk P) pid" for s
    using assms that by (intro fetchResume_ok) auto
  then show ?thesis using assms(2) by (simp add: fetchPage_def wp_rules requirePoolPage_wp)
qed

section \<open>New pages\<close>

abbreviation zeroPage :: page where
  "zeroPage \<equiv> replicate PAGE_SIZE 0"

definition newPost :: "(page \<Rightarrow> 'v) \<Rightarrow> (page_id \<rightharpoonup> 'v) \<Rightarrow> guard list \<Rightarrow> guard option \<Rightarrow> 'e pool \<Rightarrow> bool" where
  "newPost view M gs r P = (case r of None \<Rightarrow> poolGood view M gs P
     | Some g \<Rightarrow> gPage g \<notin> dom M \<and> gWritable g \<and> poolGood view (M(gPage g \<mapsto> view zeroPage)) (g # gs) P)"

definition newFailed :: "(page \<Rightarrow> 'v) \<Rightarrow> (page_id \<rightharpoonup> 'v) \<Rightarrow> guard list \<Rightarrow> 'e pool \<Rightarrow> bool" where
  "newFailed view M gs P \<longleftrightarrow> poolGood view M gs P \<or> (\<exists>p. p \<notin> dom M \<and> poolGood view (M(p \<mapsto> view zeroPage)) gs P)"

lemma appended_good:
  assumes "poolGood view M gs P" "diskInv d" "\<not> dataPage (pDisk P) n" "\<forall>q. dataPage d q \<longleftrightarrow> dataPage (pDisk P) q \<or> q = n"
    and "\<forall>q. dataPage (pDisk P) q \<longrightarrow> pageOf d q = pageOf (pDisk P) q" "pageOf d n = zeroPage"
  shows "poolGood view (M(n \<mapsto> view zeroPage)) gs (P\<lparr>pDisk := d\<rparr>)"
proof -
  note parts = poolGood_parts [OF assms(1)]
  have old: "dataPage (pDisk P) (fPageId (pFrames P ! f))" if "f \<in> resident P" for f
    using parts(3) that by (simp add: poolInv_def)
  have "poolInv (P\<lparr>pDisk := d\<rparr>)" using parts(3) assms(2,4) by (simp add: poolInv_def)
  moreover have "stored view (the \<circ> M(n \<mapsto> view zeroPage)) (P\<lparr>pDisk := d\<rparr>)"
    unfolding stored_def
  proof (intro conjI ballI allI impI, goal_cases)
    case (1 f)
    then have "fPageId (pFrames P ! f) \<noteq> n" using old assms(3) by auto
    then show ?case using 1 parts(4) by (simp add: stored_def)
  next
    case (2 p)
    then show ?case
    proof (cases "p = n")
      case False
      then show ?thesis using 2 parts(4) assms(4,5) by (simp add: stored_def)
    qed (simp add: assms(6))
  qed
  moreover have "dom (M(n \<mapsto> view zeroPage)) = {p. dataPage d p}" using parts(5) assms(4) by auto
  ultimately show ?thesis using parts(2) by (simp add: poolGood_def pagesOk_def poolOk_def guardsOk_def)
qed

lemma hookAppend_wp:
  assumes "\<And>v. Q () (P\<lparr>pEnv := v\<rparr>)" "\<And>e v. E e (P\<lparr>pEnv := v\<rparr>)"
  shows "wp (hookAppend svc call pid) Q E P"
proof -
  have "Q () P" using assms(1) [of "pEnv P"] by simp
  then show ?thesis using assms by (auto simp: hookAppend_def wp_return split: option.splits intro!: env_wp)
qed

lemma newPage_tail:
  assumes "pagesOk view M P" "guardsOk gs P" "spare gs f P" "fPageId (pFrames P ! f) = pid" "n \<notin> dom M0"
    and "M = M0(n \<mapsto> view zeroPage)" "pid = n"
  shows "wp (act_bind (hookAppend svc notePhysicalPageAppend pid) (\<lambda>_.
      act_bind (BasicPageGuard svc f pid True) (\<lambda>g. act_return (Some g)))) (newPost view M0 gs) (\<lambda>_. newFailed view M0 gs) P"
proof -
  have guard: "wp (BasicPageGuard svc f pid True) (\<lambda>g. newPost view M0 gs (Some g)) (\<lambda>_. newFailed view M0 gs) (P\<lparr>pEnv := v\<rparr>)" for v
    by (rule wp_conseq [OF BasicPageGuard_ok [of view M _ gs]])
      (use assms in \<open>auto simp: newPost_def newFailed_def guardFor_def spare_def\<close>)
  have "poolGood view M gs (P\<lparr>pEnv := v\<rparr>)" for v using assms(1,2) by (simp add: poolGood_def)
  then have "newFailed view M0 gs (P\<lparr>pEnv := v\<rparr>)" for v using assms(5,6) by (auto simp: newFailed_def)
  then show ?thesis
    using guard by (auto simp: wp_bind wp_return_eq intro!: hookAppend_wp)
qed

lemma newPageWrite_ok:
  assumes "hookOk view svc" "poolGood view M gs P" "clockOk P"
  shows "wp (newPageWrite svc) (newPost view M gs) (\<lambda>_. newFailed view M gs) P"
proof (cases "availableFrame P")
  case None
  then show ?thesis using assms(2) by (simp add: wp_def newPageWrite_def newPost_def)
next
  case (Some f)
  let ?n = "dPageCount (pDisk P)"
  let ?rest = "\<lambda>dirtyVictim. act_bind (onDisk (appendPageAt ?n)) (\<lambda>pid.
            act_bind (installPage f pid zeroPage True) (\<lambda>_.
            act_bind (bump (\<lambda>s. if dirtyVictim then s\<lparr>dirtyEvictions := dirtyEvictions s + 1\<rparr> else s)) (\<lambda>_.
            act_bind (bump (\<lambda>s. s\<lparr>appendedPages := appendedPages s + 1\<rparr>)) (\<lambda>_.
            act_bind (hookAppend svc notePhysicalPageAppend pid) (\<lambda>_.
            act_bind (BasicPageGuard svc f pid True) (\<lambda>g. act_return (Some g)))))))"
  have good: "newFailed view M gs P'" if "poolGood view M gs P'" for P' :: "'b pool" using that by (simp add: newFailed_def)
  have rest: "wp (?rest dv) (newPost view M gs) (\<lambda>_. newFailed view M gs) P1"
    if P1: "poolGood view M gs P1" "clockOk P1" "f \<in> idle P1 \<and> \<not> fDirty (pFrames P1 ! f) \<or> (\<exists>fs. pFree P1 = f # fs)" for P1 dv
  proof -
    have dk: "diskInv (pDisk P1)" using poolGood_parts(3) [OF P1(1)] by (simp add: poolInv_def)
    show ?thesis
      unfolding wp_bind [of "onDisk m" for m] wp_onDisk
    proof (rule wp_conseq [OF store.append_law [OF dk]])
      fix pid d
      assume "diskInv d \<and> pid = ?n \<and> \<not> dataPage (pDisk P1) pid \<and> (\<forall>q. dataPage d q \<longleftrightarrow> dataPage (pDisk P1) q \<or> q = pid) \<and>
        (\<forall>q. dataPage (pDisk P1) q \<longrightarrow> pageOf d q = pageOf (pDisk P1) q) \<and> pageOf d pid = zeroPage"
      then have d: "diskInv d" "pid = ?n" "\<not> dataPage (pDisk P1) pid" "\<forall>q. dataPage d q \<longleftrightarrow> dataPage (pDisk P1) q \<or> q = pid"
        "\<forall>q. dataPage (pDisk P1) q \<longrightarrow> pageOf d q = pageOf (pDisk P1) q" "pageOf d pid = zeroPage" by blast+
      let ?M = "M(pid \<mapsto> view zeroPage)" and ?P = "P1\<lparr>pDisk := d\<rparr>"
      have P2: "poolGood view ?M gs ?P" by (rule appended_good [OF P1(1) d(1,3-6)])
      have fresh: "\<forall>i\<in>resident ?P. fPageId (pFrames ?P ! i) \<noteq> pid"
        using poolGood_parts(3) [OF P1(1)] d(3) by (auto simp: poolInv_def)
      have nd: "pid \<notin> dom M" using poolGood_parts(5) [OF P1(1)] d(3) by simp
      have "wp (installPage f pid zeroPage True)
          (\<lambda>_ P'. pagesOk view ?M P' \<and> guardsOk gs P' \<and> spare gs f P' \<and> fPageId (pFrames P' ! f) = pid) (\<lambda>_ _. False) ?P"
        by (rule install_wp [OF poolGood_parts(1,2) [OF P2]]) (use P1(2,3) d(4) fresh in \<open>auto simp: clockOk_def\<close>)
      then show "wp (act_bind (installPage f pid zeroPage True) (\<lambda>_.
            act_bind (bump (\<lambda>s. if dv then s\<lparr>dirtyEvictions := dirtyEvictions s + 1\<rparr> else s)) (\<lambda>_.
            act_bind (bump (\<lambda>s. s\<lparr>appendedPages := appendedPages s + 1\<rparr>)) (\<lambda>_.
            act_bind (hookAppend svc notePhysicalPageAppend pid) (\<lambda>_.
            act_bind (BasicPageGuard svc f pid True) (\<lambda>g. act_return (Some g))))))) (newPost view M gs) (\<lambda>_. newFailed view M gs) ?P"
        unfolding wp_bind [of "installPage f pid p b" for p b] wp_bind [of "bump g" for g] wp_bump
        by (rule wp_conseq) (rule newPage_tail [of view ?M], use nd in \<open>auto simp: spare_def\<close>)
    qed (use unchanged_disk [OF P1(1)] good in auto)
  qed
  have flush: "wp (appendInto svc ?n f) (newPost view M gs) (\<lambda>_. newFailed view M gs) (P\<lparr>pEnv := v\<rparr>)" for v
    by (rule wp_same [OF appendInto_def [unfolded Let_def]], unfold wp_bind [of "flushVictimIfDirty svc f"],
        rule wp_conseq [OF flushVictim_wp [OF assms(1), of M gs]])
      (use assms(2,3) Some clockOk_kept [of "P\<lparr>pEnv := v\<rparr>"] good in \<open>auto intro!: rest\<close>)
  have again: "wp (\<lambda>P. case availableFrame P of None \<Rightarrow> (Inr None, P) | Some f \<Rightarrow> appendInto svc ?n f P)
      (newPost view M gs) (\<lambda>_. newFailed view M gs) (P\<lparr>pEnv := v\<rparr>)" for v
    using flush [of v] Some by (simp add: wp_case_option)
  have "wp (act_bind (hookAppend svc prepareForPhysicalPageAppend ?n)
      (\<lambda>_ P. case availableFrame P of None \<Rightarrow> (Inr None, P) | Some f \<Rightarrow> appendInto svc ?n f P))
      (newPost view M gs) (\<lambda>_. newFailed view M gs) P"
    unfolding wp_bind by (rule hookAppend_wp) (use again assms(2) good in simp_all)
  then show ?thesis using Some by (simp add: wp_def newPageWrite_def Let_def)
qed

section \<open>Flushing\<close>

lemma page_on_disk:
  assumes "poolGood view M gs P" "dataPage (pDisk P) p" "\<forall>f\<in>resident P. fPageId (pFrames P ! f) = p \<longrightarrow> \<not> fDirty (pFrames P ! f)"
  shows "M p = Some (view (pageOf (pDisk P) p))"
proof -
  have "view (pageOf (pDisk P) p) = the (M p)" using poolGood_parts(4) [OF assms(1)] assms(2,3) by (auto simp: stored_def)
  moreover have "p \<in> dom M" using poolGood_parts(5) [OF assms(1)] assms(2) by simp
  ultimately show ?thesis by auto
qed

lemma goodD: "poolGood view M gs P \<Longrightarrow> sound view (the \<circ> M) P P"
  by (rule sound_refl) (simp add: poolGood_def pagesOk_def)

lemma flushPage_ok:
  assumes "hookOk view svc" "poolGood view M gs P"
  shows "wp (flushPage svc pid) (\<lambda>_ P'. poolGood view M gs P' \<and> M pid = Some (view (pageOf (pDisk P') pid))) (\<lambda>_. poolGood view M gs) P"
proof (cases "dataPage (pDisk P) pid")
  case False
  then show ?thesis using assms(2) by (auto simp: flushPage_def wp_rules requirePoolPage_wp)
next
  case True
  then have nz: "pid \<noteq> METADATA_PAGE_ID" by (simp add: dataPage_def)
  have inv: "poolInv P" by (rule poolGood_parts(3) [OF assms(2)])
  show ?thesis
  proof (cases "map_of (pTable P) pid")
    case None
    then have "M pid = Some (view (pageOf (pDisk P) pid))"
      using page_on_disk [OF assms(2) True] table_absent [OF inv] by blast
    then show ?thesis using None True nz assms(2) by (simp add: flushPage_def wp_rules requirePoolPage_wp)
  next
    case (Some f)
    then have f: "f \<in> resident P" "fPageId (pFrames P ! f) = pid" using table_lookup [OF inv] by auto
    have flushed: "poolGood view M gs P' \<and> M pid = Some (view (pageOf (pDisk P') pid))"
      if "sound view (the \<circ> M) P P'" "\<not> fDirty (pFrames P' ! f)" for P'
    proof -
      have good: "poolGood view M gs P'" by (rule sound_good [OF assms(2) that(1)])
      have k: "kept P P'" using that(1) by (simp add: sound_def)
      have "dataPage (pDisk P') pid" using True k by (simp add: kept_def)
      moreover have "i = f" if "i \<in> resident P'" "fPageId (pFrames P' ! i) = pid" for i
        using resident_inj [OF poolGood_parts(3) [OF good] that(1), of f] that(2) f k kept_resident(1) [OF k]
        by (simp add: kept_def)
      ultimately show ?thesis using page_on_disk [OF good] \<open>\<not> fDirty (pFrames P' ! f)\<close> good by blast
    qed
    have wr: "wp (flushUnpinnedDirtyFrame svc f) (\<lambda>_ P'. poolGood view M gs P' \<and> M pid = Some (view (pageOf (pDisk P') pid)))
        (\<lambda>_. poolGood view M gs) P" if "fDirty (pFrames P ! f)"
      by (rule wp_conseq [OF flushUnpinnedDirtyFrame_sound [OF assms(1) goodD [OF assms(2)] f(1) that]])
        (use flushed sound_good [OF assms(2)] in auto)
    show ?thesis
      using Some True nz assms(2) wr flushed [OF goodD [OF assms(2)]]
      by (auto simp: flushPage_def wp_rules requirePoolPage_wp)
  qed
qed

lemma dirty_resident:
  assumes "sound view C P0 P" "f < length (pFrames P0)" "fValid (pFrames P ! f)"
  shows "f \<in> resident P0"
proof -
  have "length (pFrames P) = length (pFrames P0)" using assms(1) by (simp add: sound_def kept_def)
  then show ?thesis using assms sound_resident [OF assms(1)] by (auto simp: resident_def)
qed

lemma prepareAll_sound:
  assumes "hookOk view svc" "sound view C P0 P" "set fs \<subseteq> {..<length (pFrames P0)}"
  shows "wp (prepareAll svc fs) (\<lambda>_. sound view C P0) (\<lambda>_. sound view C P0) P"
  unfolding prepareAll_def
proof (rule wp_forEach [where I = "sound view C P0", OF assms(2)])
  fix f Q assume f: "f \<in> set fs" and Q: "sound view C P0 Q"
  show "wp (\<lambda>P. if isDirtyFrame (pFrames P ! f) then prepareFrameForWrite svc f P else (Inr (), P))
      (\<lambda>_. sound view C P0) (\<lambda>_. sound view C P0) Q"
    using prepareFrameForWrite_sound [OF assms(1) Q] Q dirty_resident [OF Q, of f] f assms(3) by (auto simp: wp_rules)
qed

lemma maximumLsn_wp:
  assumes "I P" "\<And>P s. I P \<Longrightarrow> I (P\<lparr>pStats := s\<rparr>)"
  shows "wp (maximumLsn svc fs m) (\<lambda>_. I) (\<lambda>_. I) P"
  using assms(1)
proof (induction fs arbitrary: m P)
  case Nil
  then show ?case by (simp add: wp_rules)
next
  case (Cons f fs)
  show ?case
  proof (cases "isDirtyFrame (pFrames P ! f)")
    case True
    have "wp (act_bind (validateWalDependency svc (pFrames P ! f) True) (\<lambda>_. maximumLsn svc fs m')) (\<lambda>_. I) (\<lambda>_. I) P" for m'
      unfolding wp_bind by (rule validateWalDependency_wp) (use Cons assms(2) in auto)
    then show ?thesis using True by (simp add: wp_def)
  next
    case False
    then show ?thesis using Cons by (auto simp: wp_rules)
  qed
qed

lemma writeFrame_others: "wp (writeFrame f) (\<lambda>_ P'. \<forall>i. i \<noteq> f \<longrightarrow> pFrames P' ! i = pFrames P ! i) (\<lambda>_ _. True) P"
  by (rule wp_same [OF writeFrame_def], unfold markWritten_def wp_bind wp_onDisk wp_modify wp_bump) (simp add: wp_iff)

definition allClean :: "nat set \<Rightarrow> 'e pool \<Rightarrow> bool" where
  "allClean S P \<longleftrightarrow> (\<forall>i\<in>S. \<not> isDirtyFrame (pFrames P ! i))"

lemma writeAll_sound:
  assumes "sound view C P0 P" "set fs \<subseteq> {..<length (pFrames P0)}" "allClean S P"
  shows "wp (writeAll fs) (\<lambda>_ P'. sound view C P0 P' \<and> allClean (S \<union> set fs) P') (\<lambda>_. sound view C P0) P"
  using assms
proof (induction fs arbitrary: P S)
  case Nil
  then show ?case by (simp add: writeAll_def wp_rules)
next
  case (Cons f fs)
  let ?body = "\<lambda>f P. if isDirtyFrame (pFrames P ! f) then writeFrame f P else (Inr (), P)"
  have first: "wp (?body f) (\<lambda>_ P'. sound view C P0 P' \<and> allClean (insert f S) P') (\<lambda>_. sound view C P0) P"
  proof (cases "isDirtyFrame (pFrames P ! f)")
    case True
    then have f: "f \<in> resident P0" using dirty_resident [OF Cons.prems(1)] Cons.prems(2) by simp
    have "wp (writeFrame f) (\<lambda>_ P'. (sound view C P0 P' \<and> \<not> fDirty (pFrames P' ! f)) \<and> (\<forall>i. i \<noteq> f \<longrightarrow> pFrames P' ! i = pFrames P ! i))
        (\<lambda>_ P'. sound view C P0 P' \<and> True) P"
      using wp_and [OF writeFrame_sound [OF Cons.prems(1) f] writeFrame_others] True by blast
    then have "wp (writeFrame f) (\<lambda>_ P'. sound view C P0 P' \<and> allClean (insert f S) P') (\<lambda>_. sound view C P0) P"
      by (rule wp_conseq) (use Cons.prems(3) in \<open>auto simp: allClean_def\<close>)
    then show ?thesis using True by (simp add: wp_rules)
  next
    case False
    then show ?thesis using Cons.prems(1,3) by (auto simp: wp_rules allClean_def)
  qed
  have "wp (forEach fs ?body) (\<lambda>_ P'. sound view C P0 P' \<and> allClean (S \<union> set (f # fs)) P') (\<lambda>_. sound view C P0) P'"
    if "sound view C P0 P' \<and> allClean (insert f S) P'" for P'
    using Cons.IH [of P' "insert f S"] that Cons.prems(2) by (simp add: writeAll_def)
  then show ?case
    unfolding writeAll_def forEach.simps wp_bind by (intro wp_conseq [OF first]) auto
qed

lemma flushAll_ok:
  assumes "hookOk view svc" "poolGood view M gs P"
  shows "wp (flushAll svc) (\<lambda>_ P'. poolGood view M gs P' \<and> (\<forall>p\<in>dom M. M p = Some (view (pageOf (pDisk P') p))))
    (\<lambda>_. poolGood view M gs) P"
proof -
  let ?fs = "[0..<length (pFrames P)]" and ?C = "the \<circ> M"
  let ?Q = "\<lambda>_ P'. poolGood view M gs P' \<and> (\<forall>p\<in>dom M. M p = Some (view (pageOf (pDisk P') p)))"
    and ?E = "\<lambda>_::exn. poolGood view M gs"
  note good = sound_good [OF assms(2)]
  have flushed: "wp flushDisk (\<lambda>x d. ?Q x (P2\<lparr>pDisk := d\<rparr>)) (\<lambda>e d. ?E e (P2\<lparr>pDisk := d\<rparr>)) (pDisk P2)"
    if P2: "sound view ?C P P2" "allClean ({} \<union> set ?fs) P2" for P2
  proof -
    have dk: "diskInv (pDisk P2)" using poolGood_parts(3) [OF good [OF P2(1)]] by (simp add: poolInv_def)
    have len: "length (pFrames P2) = length (pFrames P)" using P2(1) by (simp add: sound_def kept_def)
    have stable: "M p = Some (view (pageOf (pDisk P') p))" if "p \<in> dom M" "poolGood view M gs P'" "pFrames P' = pFrames P2" for p P'
    proof (rule page_on_disk [OF that(2)])
      show "dataPage (pDisk P') p" using poolGood_parts(5) [OF that(2)] that(1) by auto
      show "\<forall>f\<in>resident P'. fPageId (pFrames P' ! f) = p \<longrightarrow> \<not> fDirty (pFrames P' ! f)"
        using P2(2) that(3) len by (auto simp: allClean_def resident_def)
    qed
    have fin: "?Q x (P2\<lparr>pDisk := d\<rparr>)" if "diskInv d \<and> agreeOutside dataPage pageOf {} (pDisk P2) d" for x d
      using unchanged_disk [OF good [OF P2(1)]] that stable [of _ "P2\<lparr>pDisk := d\<rparr>"] by simp
    show ?thesis by (rule wp_conseq [OF store.flush_law [OF dk]]) (use fin in auto)
  qed
  have wr: "wp (writeAll ?fs) (\<lambda>_. wp (onDisk flushDisk) ?Q ?E) ?E P1" if "sound view ?C P P1" for P1
    by (rule wp_conseq [OF writeAll_sound [OF that, of ?fs "{}"]])
      (use flushed good in \<open>auto simp: allClean_def wp_rules\<close>)
  have ensure: "wp (ensureWalDurable svc m) (\<lambda>_. wp (writeAll ?fs) (\<lambda>_. wp (onDisk flushDisk) ?Q ?E) ?E) ?E P1"
    if "sound view ?C P P1" for P1 m
    by (rule ensureWalDurable_wp) (use that wr good in auto)
  have maxi: "wp (maximumLsn svc ?fs m) (\<lambda>m. wp (ensureWalDurable svc m) (\<lambda>_. wp (writeAll ?fs) (\<lambda>_. wp (onDisk flushDisk) ?Q ?E) ?E) ?E) ?E P1"
    if "sound view ?C P P1" for P1 m
    by (rule wp_conseq [OF maximumLsn_wp [where I = "sound view ?C P"]]) (use that ensure good in auto)
  have prep: "wp (prepareAll svc ?fs) (\<lambda>_. wp (maximumLsn svc ?fs INVALID_LSN) (\<lambda>m. wp (ensureWalDurable svc m) (\<lambda>_. wp (writeAll ?fs) (\<lambda>_. wp (onDisk flushDisk) ?Q ?E) ?E) ?E) ?E) ?E P"
    by (rule wp_conseq [OF prepareAll_sound [OF assms(1) goodD [OF assms(2)]]]) (use maxi good in auto)
  then have "wp (act_bind (throwWhen (\<lambda>P. \<exists>fr\<in>set (pFrames P). isDirtyFrame fr \<and> fPinCount fr \<noteq> 0)
        (LogicError ''Cannot flush dirty pinned pages; release guards first'')) (\<lambda>_.
      act_bind (prepareAll svc ?fs) (\<lambda>_. act_bind (maximumLsn svc ?fs INVALID_LSN) (\<lambda>m.
      act_bind (ensureWalDurable svc m) (\<lambda>_. act_bind (writeAll ?fs) (\<lambda>_. onDisk flushDisk)))))) ?Q ?E P"
    using assms(2) by (simp add: wp_bind_eq wp_throwWhen)
  then show ?thesis by (simp add: wp_def flushAll_def Let_def)
qed

section \<open>Commit, recovery, guards\<close>

lemma prepareResidentPageForCommit_ok:
  assumes "hookOk view svc" "poolGood view M gs P"
  shows "wp (prepareResidentPageForCommit svc pid) (\<lambda>_. poolGood view M gs) (\<lambda>_. poolGood view M gs) P"
proof -
  have "wp (prepareFrameForWrite svc f) (\<lambda>_. poolGood view M gs) (\<lambda>_. poolGood view M gs) P" if "f \<in> resident P" for f
    by (rule wp_conseq [OF prepareFrameForWrite_sound [OF assms(1) goodD [OF assms(2)] that]]) (rule sound_good [OF assms(2)], assumption)+
  then show ?thesis
    using assms(2) table_lookup [OF poolGood_parts(3) [OF assms(2)], of pid]
    by (auto simp: prepareResidentPageForCommit_def [abs_def] wp_rules split: option.splits)
qed

text \<open>Discarding a page without writing it leaves the page as the disk has it.\<close>

lemma discardPageForRecovery_ok:
  assumes "poolGood view M gs P" "dataPage (pDisk P) pid"
  shows "wp (discardPageForRecovery pid)
    (\<lambda>_ P'. poolGood view (M(pid \<mapsto> view (pageOf (pDisk P) pid))) gs P' \<and> pDisk P' = pDisk P) (\<lambda>_ P'. P' = P) P"
proof (cases "map_of (pTable P) pid")
  case None
  have "M pid = Some (view (pageOf (pDisk P) pid))"
    using page_on_disk [OF assms] table_absent [OF poolGood_parts(3) [OF assms(1)]] None by blast
  then show ?thesis using None assms(1) by (simp add: discardPageForRecovery_def [abs_def] wp_rules map_upd_triv)
next
  case (Some f)
  note parts = poolGood_parts [OF assms(1)]
  have f: "f \<in> resident P" "fPageId (pFrames P ! f) = pid" using Some table_lookup [OF parts(3)] by auto
  show ?thesis
  proof (cases "fPinCount (pFrames P ! f) = 0")
    case False
    then show ?thesis using Some by (simp add: discardPageForRecovery_def [abs_def] wp_rules)
  next
    case True
    then have idl: "f \<in> idle P" using f by (simp add: idle_def)
    have lru: "lruInv (pReplacer P)" "f \<in> evictableFrames (pReplacer P)" using parts(3) idl by (simp_all add: poolInv_def)
    let ?M = "M(pid \<mapsto> view (pageOf (pDisk P) pid))"
    have good: "poolGood view ?M gs P'"
      if "poolInv P'" "pFrames P' = (pFrames P)[f := emptyFrame]" "pDisk P' = pDisk P" "pReaders P' = pReaders P" "pWriters P' = pWriters P" for P'
    proof -
      have bound: "f < length (pFrames P)" using f(1) by (rule resident_bound)
      have frame: "pFrames P' ! i = (if i = f then emptyFrame else pFrames P ! i)" for i using bound that(2) by simp
      have res: "resident P' = resident P - {f}" using bound that(2) by (auto simp: resident_def nth_list_update emptyFrame_def)
      have other: "fPageId (pFrames P ! i) \<noteq> pid" if "i \<in> resident P - {f}" for i
        using resident_inj [OF parts(3) _ f(1), of i] that f(2) by auto
      have "stored view (the \<circ> ?M) P'"
        unfolding stored_def res that(3)
      proof (intro conjI ballI allI impI, goal_cases)
        case (1 i)
        then show ?case using parts(4) other by (simp add: stored_def frame)
      next
        case (2 p)
        show ?case
        proof (cases "p = pid")
          case False
          have "\<forall>i\<in>resident P. fPageId (pFrames P ! i) = p \<longrightarrow> \<not> fDirty (pFrames P ! i)"
            using 2 False f(2) by (auto simp: frame split: if_splits)
          then show ?thesis using 2 False parts(4) by (simp add: stored_def)
        qed simp
      qed
      moreover have "guardsOk gs P'"
        using parts(2) no_guard(2) [OF parts(2), of f] idl that(4,5) unfolding guardsOk_def res by (auto simp: frame)
      moreover have "dom ?M = {p. dataPage (pDisk P') p}" using parts(5) assms(2) that(3) by auto
      ultimately show ?thesis using that(1) by (simp add: poolGood_def pagesOk_def poolOk_def)
    qed
    have "wp (remove f) (\<lambda>x r. x \<and> poolGood view ?M gs ((setFrame f (\<lambda>_. emptyFrame) (P\<lparr>pReplacer := r\<rparr>))
        \<lparr>pTable := dropKey pid (pTable P), pFree := pFree P @ [f]\<rparr>)) (\<lambda>_ _. False) (pReplacer P)"
    proof (rule remove_wp [OF lru], rule conjI [OF TrueI], rule good)
      fix r assume r: "lruInv r" "length (entries r) = length (entries (pReplacer P))"
        "trackedFrames r = trackedFrames (pReplacer P) - {f}" "evictableFrames r = evictableFrames (pReplacer P) - {f}"
      show "poolInv ((setFrame f (\<lambda>_. emptyFrame) (P\<lparr>pReplacer := r\<rparr>))\<lparr>pTable := dropKey pid (pTable P), pFree := pFree P @ [f]\<rparr>)"
        by (rule holeInv_free [OF holeInv_released [OF parts(3) idl r]]) (simp_all add: f(2))
    qed simp_all
    then have "wp (remove f) (\<lambda>x r. wp (act_bind (throwWhen (\<lambda>_. \<not> x) e) (\<lambda>_.
        act_modify (\<lambda>P. (setFrame f (\<lambda>_. emptyFrame) P)\<lparr>pTable := dropKey pid (pTable P), pFree := pFree P @ [f]\<rparr>)))
        (\<lambda>_ P'. poolGood view ?M gs P' \<and> pDisk P' = pDisk P) (\<lambda>_ P'. P' = P) (P\<lparr>pReplacer := r\<rparr>))
        (\<lambda>e r. P\<lparr>pReplacer := r\<rparr> = P) (pReplacer P)" for e
      by (rule wp_conseq) (simp_all add: wp_rules)
    then have "wp (act_bind (onReplacer (remove f)) (\<lambda>x. act_bind (throwWhen (\<lambda>_. \<not> x) e) (\<lambda>_.
        act_modify (\<lambda>P. (setFrame f (\<lambda>_. emptyFrame) P)\<lparr>pTable := dropKey pid (pTable P), pFree := pFree P @ [f]\<rparr>))))
        (\<lambda>_ P'. poolGood view ?M gs P' \<and> pDisk P' = pDisk P) (\<lambda>_ P'. P' = P) P" for e
      unfolding wp_bind [of "onReplacer m" for m] wp_onReplacer .
    then show ?thesis using Some True by (simp add: wp_def discardPageForRecovery_def)
  qed
qed

lemma discardPages_ok:
  fixes P :: "'e pool"
  assumes "poolGood view M gs P" "\<forall>p\<in>set ps. dataPage (pDisk P) p"
  shows "wp (discardPages ps)
    (\<lambda>_ P'. \<exists>M'. poolGood view M' gs P' \<and> (\<forall>p. p \<notin> set ps \<longrightarrow> M' p = M p) \<and> pDisk P' = pDisk P)
    (\<lambda>_ P'. \<exists>M'. poolGood view M' gs P' \<and> (\<forall>p. p \<notin> set ps \<longrightarrow> M' p = M p) \<and> pDisk P' = pDisk P) P"
  using assms
proof (induction ps arbitrary: M P)
  case Nil
  then show ?case by (auto simp: wp_rules)
next
  case (Cons q qs)
  let ?M = "M(q \<mapsto> view (pageOf (pDisk P) q))"
  have step: "wp (discardPageForRecovery q) (\<lambda>_ P'. poolGood view ?M gs P' \<and> pDisk P' = pDisk P) (\<lambda>_ P'. P' = P) P"
    using discardPageForRecovery_ok [OF Cons.prems(1)] Cons.prems(2) by simp
  show ?case
    unfolding discardPages.simps wp_bind
  proof (rule wp_conseq [OF step])
    fix P' :: "'e pool" assume P': "poolGood view ?M gs P' \<and> pDisk P' = pDisk P"
    then have "\<forall>p\<in>set qs. dataPage (pDisk P') p" using Cons.prems(2) by simp
    from Cons.IH [OF conjunct1 [OF P'] this]
    show "wp (discardPages qs)
        (\<lambda>_ P'. \<exists>M'. poolGood view M' gs P' \<and> (\<forall>p. p \<notin> set (q # qs) \<longrightarrow> M' p = M p) \<and> pDisk P' = pDisk P)
        (\<lambda>_ P'. \<exists>M'. poolGood view M' gs P' \<and> (\<forall>p. p \<notin> set (q # qs) \<longrightarrow> M' p = M p) \<and> pDisk P' = pDisk P) P'"
      by (rule wp_conseq) (use P' in \<open>auto split: if_splits\<close>)
  qed (use Cons.prems in auto)
qed

lemma guard_frame:
  assumes "poolGood view M gs P" "g \<in> set gs"
  shows "gOwns g" "gFrame g \<in> resident P" "gFrame g < length (pFrames P)" "fValid (pFrames P ! gFrame g)"
    "fPageId (pFrames P ! gFrame g) = gPage g" "fPinCount (pFrames P ! gFrame g) \<noteq> 0"
    "M (gPage g) = Some (view (fData (pFrames P ! gFrame g)))" "length (fData (pFrames P ! gFrame g)) = PAGE_SIZE"
proof -
  note parts = poolGood_parts [OF assms(1)]
  show g: "gOwns g" "gFrame g \<in> resident P" "fPageId (pFrames P ! gFrame g) = gPage g"
    using parts(2) assms(2) by (auto simp: guardsOk_def)
  then show "gFrame g < length (pFrames P)" "fValid (pFrames P ! gFrame g)" by (simp_all add: resident_def)
  have "guardCount gs (gFrame g) \<noteq> 0" using assms(2) by (auto simp: guardCount_def filter_empty_conv)
  moreover have "guardCount gs (gFrame g) \<le> unat (fPinCount (pFrames P ! gFrame g))" using parts(2) g by (simp add: guardsOk_def)
  ultimately show "fPinCount (pFrames P ! gFrame g) \<noteq> 0" by auto
  have "gPage g \<in> dom M" using parts(3,5) g by (auto simp: poolInv_def)
  moreover have "view (fData (pFrames P ! gFrame g)) = the (M (gPage g))" using parts(4) g by (auto simp: stored_def)
  ultimately show "M (gPage g) = Some (view (fData (pFrames P ! gFrame g)))" by auto
  show "length (fData (pFrames P ! gFrame g)) = PAGE_SIZE" using parts(3) g by (simp add: poolInv_def)
qed

lemma guardData_ok:
  assumes "poolGood view M gs P" "g \<in> set gs"
  shows "\<exists>x. guardData g P = (Inr x, P) \<and> M (gPage g) = Some (view x)"
  using guard_frame [OF assms]
  by (simp add: guardData_def requireOwner_def readData_def requireGuardFrame_def requireFrame_def throwWhen_def throw_if_def
    act_bind_def act_lift_def)

lemma guardMutableData_ok:
  assumes "poolGood view M gs P" "g \<in> set gs" "length x = PAGE_SIZE"
  shows "wp (guardMutableData svc g x) (\<lambda>_. poolGood view (M(gPage g \<mapsto> view x)) gs) (\<lambda>_ _. False) P"
proof -
  note parts = poolGood_parts [OF assms(1)] and gf = guard_frame [OF assms(1,2)]
  let ?f = "gFrame g"
  have written: "poolGood view (M(gPage g \<mapsto> view x)) gs (setFrame ?f (\<lambda>fr. fr\<lparr>fData := x\<rparr>) P1)"
    if "sound view (the \<circ> M) P P1" "fDirty (pFrames P1 ! ?f)" for P1
  proof -
    have good: "poolGood view M gs P1" by (rule sound_good [OF assms(1) that(1)])
    note parts1 = poolGood_parts [OF good] and gf1 = guard_frame [OF good assms(2)]
    let ?P = "setFrame ?f (\<lambda>fr. fr\<lparr>fData := x\<rparr>) P1"
    have frame: "pFrames ?P ! i = (if i = ?f then (pFrames P1 ! ?f)\<lparr>fData := x\<rparr> else pFrames P1 ! i)" for i using gf1(3) by simp
    have k: "kept P1 ?P" by (rule kept_setFrame) simp_all
    have "poolInv ?P"
    proof (rule poolInv_kept [OF parts1(3) k])
      show "\<forall>i\<in>resident P1. length (fData (pFrames ?P ! i)) = PAGE_SIZE"
        using parts1(3) assms(3) unfolding frame by (simp add: poolInv_def)
      show "\<forall>i. i \<notin> resident P1 \<longrightarrow> pFrames ?P ! i = pFrames P1 ! i" using gf1(2) unfolding frame by auto
      show "diskInv (pDisk ?P)" using parts1(3) by (simp add: poolInv_def)
    qed
    moreover have "stored view (the \<circ> M(gPage g \<mapsto> view x)) ?P"
      unfolding stored_def kept_resident(1) [OF k] frame
    proof (intro conjI ballI allI impI, goal_cases)
      case (1 i)
      have "fPageId (pFrames P1 ! i) \<noteq> gPage g" if "i \<noteq> ?f"
        using resident_inj [OF parts1(3) 1 gf1(2)] gf1(5) that by auto
      then show ?case using 1 parts1(4) gf1(5) by (simp add: stored_def)
    next
      case (2 p)
      have "p \<noteq> gPage g" using 2 gf1(2,5) that(2) by auto
      moreover have "\<forall>i\<in>resident P1. fPageId (pFrames P1 ! i) = p \<longrightarrow> \<not> fDirty (pFrames P1 ! i)"
        using 2 calculation gf1(5) by (auto split: if_splits)
      ultimately show ?case using 2 parts1(4) by (simp add: stored_def)
    qed
    moreover have "guardsOk gs ?P" by (rule guardsOk_kept [OF parts1(2) k])
    moreover have "dom (M(gPage g \<mapsto> view x)) = {p. dataPage (pDisk ?P) p}" using parts1(5) gf1(7) by auto
    ultimately show ?thesis by (simp add: poolGood_def pagesOk_def poolOk_def)
  qed
  have "wp (markIntent svc ?f) (\<lambda>_. wp (act_modify (setFrame ?f (\<lambda>fr. fr\<lparr>fData := x\<rparr>))) (\<lambda>_. poolGood view (M(gPage g \<mapsto> view x)) gs) (\<lambda>_ _. False)) (\<lambda>_ _. False) P"
    by (rule wp_conseq [OF markIntent_sound [OF goodD [OF assms(1)] gf(2)]]) (auto simp only: wp_modify intro!: written)
  then show ?thesis
    using gf(1,3-6) by (simp add: guardMutableData_def mutableData_def requireOwner_def requireGuardFrame_def wp_rules)
qed

lemma guardSetPageLsn_ok:
  assumes "poolGood view M gs P" "g \<in> set gs"
  shows "wp (guardSetPageLsn svc g l) (\<lambda>_. poolGood view M gs) (\<lambda>_. poolGood view M gs) P"
proof -
  have "wp (assignPreparedLsn svc (gFrame g) l) (\<lambda>_. poolGood view M gs) (\<lambda>_. poolGood view M gs) P"
    by (rule wp_conseq [OF assignPreparedLsn_sound [OF goodD [OF assms(1)] guard_frame(2) [OF assms]]]) (rule sound_good [OF assms(1)], assumption)+
  then show ?thesis
    using assms(1) by (simp add: guardSetPageLsn_def setPageLsn_def requireOwner_def requireGuardFrame_def wp_rules)
qed

end
