(* ===== verification/Field_Layout.thy ===== *)
theory Field_Layout
  imports Wal_Codec
begin

text \<open>
  Byte strings with a fixed layout. A layout is the list of its fields; two byte strings of the same
  length whose fields agree are equal. The lemma reduces the exactness of a codec to the equality of the
  fields a decoder reads, which simplification evaluates from the algebra of \<open>put_le\<close> and
  \<open>overwrite\<close>.
\<close>

datatype field = F8 | F16 | F32 | F64 | Raw nat

primrec fieldWidth :: "field \<Rightarrow> nat" where
  "fieldWidth F8 = 1"
| "fieldWidth F16 = 2"
| "fieldWidth F32 = 4"
| "fieldWidth F64 = 8"
| "fieldWidth (Raw n) = n"

primrec fieldEq :: "byte list \<Rightarrow> byte list \<Rightarrow> nat \<Rightarrow> field \<Rightarrow> bool" where
  "fieldEq p q off F8 \<longleftrightarrow> p ! off = q ! off"
| "fieldEq p q off F16 \<longleftrightarrow> get16 p off = get16 q off"
| "fieldEq p q off F32 \<longleftrightarrow> get32 p off = get32 q off"
| "fieldEq p q off F64 \<longleftrightarrow> get64 p off = get64 q off"
| "fieldEq p q off (Raw n) \<longleftrightarrow> subspan p off n = subspan q off n"

fun fieldsEq :: "byte list \<Rightarrow> byte list \<Rightarrow> nat \<Rightarrow> field list \<Rightarrow> bool" where
  "fieldsEq p q off [] \<longleftrightarrow> off = length p"
| "fieldsEq p q off (f # fs) \<longleftrightarrow> fieldEq p q off f \<and> fieldsEq p q (off + fieldWidth f) fs"

lemma subspan_1: "off < length p \<Longrightarrow> subspan p off (Suc 0) = [p ! off]"
  by (simp add: subspan_Suc)

lemma fieldEq_subspan:
  assumes "fieldEq p q off f" and "length p = length q" and "off + fieldWidth f \<le> length p"
  shows "subspan p off (fieldWidth f) = subspan q off (fieldWidth f)"
  using assms by (cases f) (auto simp: subspan_1 intro!: subspan_eq_of_get_le)

lemma fieldsEq_le: "fieldsEq p q off fs \<Longrightarrow> off \<le> length p"
  by (induction fs arbitrary: off) fastforce+

lemma fieldsEq_drop:
  "fieldsEq p q off fs \<Longrightarrow> length p = length q \<Longrightarrow> drop off p = drop off q"
proof (induction fs arbitrary: off)
  case (Cons f fs)
  have cut: "drop off xs = subspan xs off w @ drop (off + w) xs" for xs :: "byte list" and w
    using append_take_drop_id [of w "drop off xs"] by (simp add: subspan_def add.commute)
  have "off + fieldWidth f \<le> length p" using Cons.prems(1) fieldsEq_le by auto
  then have "subspan p off (fieldWidth f) = subspan q off (fieldWidth f)"
    using Cons.prems by (intro fieldEq_subspan) auto
  then show ?case using Cons cut [of p "fieldWidth f"] cut [of q "fieldWidth f"] by simp
qed simp

lemma fields_eqI: "length p = length q \<Longrightarrow> fieldsEq p q 0 fs \<Longrightarrow> p = q"
  using fieldsEq_drop [of p q 0 fs] by simp

lemma get_le_replicate_0 [simp]: "off + w \<le> n \<Longrightarrow> get_le w (replicate n 0) off = 0"
  by (rule get_le_zeros) simp

lemma nth_put_le_outside [simp]:
  "off + w \<le> length p \<Longrightarrow> i < length p \<Longrightarrow> i < off \<or> off + w \<le> i \<Longrightarrow> put_le w p off v ! i = p ! i"
  by (auto simp: nth_put_le)

lemma get_le_list_update [simp]: "i < off \<or> off + w \<le> i \<Longrightarrow> get_le w (p[i := x]) off = get_le w p off"
  by (rule get_le_cong) (auto simp: nth_list_update)

lemma subspan_all: "length p = n \<Longrightarrow> subspan p 0 n = p"
  by (simp add: subspan_def)

lemma subspan_zeros: "off + n \<le> m \<Longrightarrow> subspan (replicate m 0) off n = replicate n 0"
  by (simp add: subspan_def min_def)

text \<open>Offsets stay numerals; the rules below evaluate a layout.\<close>

declare add_2_eq_Suc [simp del] add_2_eq_Suc' [simp del]

lemmas layout_simps = subspan_overwrite_same subspan_overwrite_disjoint subspan_all Let_def

end
