(* ===== verification/Rollback_Log.thy ===== *)
theory Rollback_Log
  imports Field_Layout
begin

text \<open>
  The payloads of the log records of page reclamation and of owned rollback
  (\<open>src/page_reclaim.cpp\<close>, \<open>src/owned_rollback_log.cpp\<close>): the page reclaim record, the begin of an
  owned transaction, and the begin, intent and progress of the cleanup of a rolled back one.

  The lemmas show that each payload has one encoding and is read back from it.
\<close>

section \<open>Page reclaim records\<close>

record page_reclaim_payload =
  rcPage :: page_id
  rcHead :: page_id
  rcPageCount :: u64
  rcBeforePageLsn :: lsn
  rcBeforeMetadataLsn :: lsn
  rcBeforeCrc :: u32

abbreviation PAGE_RECLAIM_TYPE :: u16 where "PAGE_RECLAIM_TYPE \<equiv> 14"
abbreviation BEGIN_OWNED_TYPE :: u16 where "BEGIN_OWNED_TYPE \<equiv> 15"
abbreviation CLEANUP_BEGIN_TYPE :: u16 where "CLEANUP_BEGIN_TYPE \<equiv> 16"
abbreviation CLEANUP_INTENT_TYPE :: u16 where "CLEANUP_INTENT_TYPE \<equiv> 17"
abbreviation CLEANUP_PROGRESS_TYPE :: u16 where "CLEANUP_PROGRESS_TYPE \<equiv> 18"

definition requirePayload :: "page_reclaim_payload \<Rightarrow> wal_error_kind \<Rightarrow> unit res" where
  "requirePayload v kind =
     throw_if (rcPage v = 0 \<or> rcPage v = INVALID_PAGE_ID \<or> ucast (rcPage v) \<ge> rcPageCount v
       \<or> rcPageCount v > 0xFFFFFFFF \<or> rcHead v = rcPage v
       \<or> (rcHead v \<noteq> INVALID_PAGE_ID \<and> (rcHead v = 0 \<or> ucast (rcHead v) \<ge> rcPageCount v)))
       (WalError kind ''Invalid PAGE_RECLAIM target/head/extent'')"

definition encodePageReclaim :: "page_reclaim_payload \<Rightarrow> byte list res" where
  "encodePageReclaim v =
     res_bind (requirePayload v WalInvalidArgument) (\<lambda>_. Inr
     (let out0 = replicate 48 0;
          out1 = put32 out0 0 (rcPage v);
          out2 = put32 out1 4 (rcHead v);
          out3 = put16 out2 8 1;
          out4 = put64 out3 16 (rcPageCount v);
          out5 = put64 out4 24 (rcBeforePageLsn v);
          out6 = put64 out5 32 (rcBeforeMetadataLsn v)
      in put32 out6 40 (rcBeforeCrc v)))"

definition decodePageReclaim :: "log_record \<Rightarrow> page_reclaim_payload res" where
  "decodePageReclaim r =
     (let b = payload r in
      if recType r \<noteq> PAGE_RECLAIM_TYPE \<or> transactionId r \<noteq> 0
         \<or> isValidLsn (prevLsn r) \<or> \<not> isValidLsn (recLsn r) \<or> recLsn r < 64 \<or> length b \<noteq> 48
      then Inl (WalError WalCorruptRecord ''Malformed PAGE_RECLAIM ownership/length'')
      else if get16 b 8 \<noteq> 1 \<or> get16 b 10 \<noteq> 0 \<or> get32 b 12 \<noteq> 0 \<or> get32 b 44 \<noteq> 0
      then Inl (WalError WalCorruptRecord ''PAGE_RECLAIM version/flags/reserved'')
      else
        let v = \<lparr>rcPage = get32 b 0, rcHead = get32 b 4, rcPageCount = get64 b 16,
                 rcBeforePageLsn = get64 b 24, rcBeforeMetadataLsn = get64 b 32, rcBeforeCrc = get32 b 40\<rparr> in
        res_bind (requirePayload v WalCorruptRecord) (\<lambda>_.
        if (isValidLsn (rcBeforePageLsn v) \<and> (rcBeforePageLsn v < 64 \<or> rcBeforePageLsn v \<ge> recLsn r))
           \<or> (isValidLsn (rcBeforeMetadataLsn v) \<and> (rcBeforeMetadataLsn v < 64 \<or> rcBeforeMetadataLsn v \<ge> recLsn r))
        then Inl (WalError WalCorruptRecord ''PAGE_RECLAIM invalid before-LSN'')
        else Inr v))"

definition reclaimedPage :: "page_reclaim_payload \<Rightarrow> lsn \<Rightarrow> page res" where
  "reclaimedPage v l =
     (let page0 = overwrite (replicate PAGE_SIZE 0) 0 FREE_MAGIC;
          page1 = put32 page0 8 1;
          page2 = put32 page1 12 32;
          page3 = put32 page2 16 (rcHead v)
      in writePersistentPageLsn page3 l)"

section \<open>Owned rollback records\<close>

record owned_begin_payload =
  obStartPageCount :: u64

record cleanup_begin_payload =
  cbUndoEnd :: lsn
  cbReservationCount :: u64

record cleanup_intent_payload =
  ciReserveLsn :: lsn
  ciReclaimLsn :: lsn
  ciReclaim :: page_reclaim_payload

record cleanup_progress_payload =
  cpReserveLsn :: lsn
  cpReclaimLsn :: lsn
  cpPage :: page_id
  cpObservedExtent :: u64

definition requireWal :: "bool \<Rightarrow> string \<Rightarrow> wal_error_kind \<Rightarrow> unit res" where
  "requireWal valid message kind = throw_if (\<not> valid) (WalError kind message)"

definition reference :: "lsn \<Rightarrow> bool" where
  "reference l \<longleftrightarrow> isValidLsn l \<and> l \<ge> 64"

definition extent :: "u64 \<Rightarrow> bool" where
  "extent count \<longleftrightarrow> count \<noteq> 0 \<and> count \<le> 0xFFFFFFFF"

definition cleanupReclaimLsn :: "lsn \<Rightarrow> lsn res" where
  "cleanupReclaimLsn intentLsn =
     res_bind (requireWal (reference intentLsn \<and> intentLsn < INVALID_LSN - 120 - 96)
       ''Cleanup reclaim LSN overflow'' WalCorruptRecord) (\<lambda>_. Inr (intentLsn + 120))"

definition validateOwnedBegin :: "owned_begin_payload \<Rightarrow> wal_error_kind \<Rightarrow> unit res" where
  "validateOwnedBegin v kind = requireWal (extent (obStartPageCount v)) ''Invalid owned BEGIN extent'' kind"

definition validateCleanupBegin :: "cleanup_begin_payload \<Rightarrow> wal_error_kind \<Rightarrow> unit res" where
  "validateCleanupBegin v kind =
     requireWal (reference (cbUndoEnd v) \<and> cbReservationCount v < 0xFFFFFFFF)
       ''Invalid cleanup BEGIN reference/count'' kind"

definition validateCleanupIntent :: "cleanup_intent_payload \<Rightarrow> wal_error_kind \<Rightarrow> unit res" where
  "validateCleanupIntent v kind =
     res_bind (requireWal (reference (ciReserveLsn v) \<and> reference (ciReclaimLsn v)
         \<and> ciReclaimLsn v \<ge> 64 + 120 \<and> ciReserveLsn v < ciReclaimLsn v - 120)
       ''Invalid cleanup intent references'' kind) (\<lambda>_.
     res_bind (cleanupReclaimLsn (ciReclaimLsn v - 120)) (\<lambda>_.
     let intent = ciReclaimLsn v - 120 in
     res_bind (requireWal
       ((\<not> isValidLsn (rcBeforePageLsn (ciReclaim v)) \<or> rcBeforePageLsn (ciReclaim v) < intent)
        \<and> (\<not> isValidLsn (rcBeforeMetadataLsn (ciReclaim v)) \<or> rcBeforeMetadataLsn (ciReclaim v) < intent))
       ''Cleanup intent before-state must precede the intent'' kind) (\<lambda>_.
     res_bind (encodePageReclaim (ciReclaim v)) (\<lambda>bytes.
     res_bind (decodePageReclaim \<lparr>recType = PAGE_RECLAIM_TYPE, transactionId = 0, prevLsn = INVALID_LSN,
       payload = bytes, recLsn = ciReclaimLsn v\<rparr>) (\<lambda>_. Inr ())))))"

definition validateCleanupProgress :: "cleanup_progress_payload \<Rightarrow> wal_error_kind \<Rightarrow> unit res" where
  "validateCleanupProgress v kind =
     requireWal (reference (cpReserveLsn v) \<and> cpPage v \<noteq> 0 \<and> cpPage v \<noteq> INVALID_PAGE_ID \<and> extent (cpObservedExtent v)
       \<and> (if isValidLsn (cpReclaimLsn v)
          then reference (cpReclaimLsn v) \<and> cpReserveLsn v < cpReclaimLsn v \<and> ucast (cpPage v) < cpObservedExtent v
          else ucast (cpPage v) \<ge> cpObservedExtent v))
       ''Invalid cleanup progress references/page/extent'' kind"

definition ownedHeader :: "nat \<Rightarrow> byte list" where
  "ownedHeader n = put16 (put16 (replicate n 0) 0 1) 2 (of_nat n)"

definition checkOwned :: "log_record \<Rightarrow> u16 \<Rightarrow> nat \<Rightarrow> bool \<Rightarrow> unit res" where
  "checkOwned r type n begins =
     res_bind (requireWal (recType r = type \<and> transactionId r \<noteq> 0 \<and> reference (recLsn r) \<and> length (payload r) = n
         \<and> recLsn r < INVALID_LSN - 48 - of_nat n
         \<and> (if begins then \<not> isValidLsn (prevLsn r) else reference (prevLsn r) \<and> prevLsn r < recLsn r))
       ''Malformed owned rollback record identity/length/chain'' WalCorruptRecord) (\<lambda>_.
     requireWal (get16 (payload r) 0 = 1 \<and> get16 (payload r) 2 = of_nat n \<and> get32 (payload r) 4 = 0)
       ''Owned rollback version/size/flags'' WalCorruptRecord)"

definition encodeOwnedBegin :: "owned_begin_payload \<Rightarrow> byte list res" where
  "encodeOwnedBegin v =
     res_bind (validateOwnedBegin v WalInvalidArgument) (\<lambda>_.
     Inr (put64 (ownedHeader 24) 8 (obStartPageCount v)))"

definition decodeOwnedBegin :: "log_record \<Rightarrow> owned_begin_payload res" where
  "decodeOwnedBegin r =
     res_bind (checkOwned r BEGIN_OWNED_TYPE 24 True) (\<lambda>_.
     res_bind (requireWal (get64 (payload r) 16 = 0) ''Owned BEGIN reserved bytes'' WalCorruptRecord) (\<lambda>_.
     let v = \<lparr>obStartPageCount = get64 (payload r) 8\<rparr> in
     res_bind (validateOwnedBegin v WalCorruptRecord) (\<lambda>_. Inr v)))"

definition encodeCleanupBegin :: "cleanup_begin_payload \<Rightarrow> byte list res" where
  "encodeCleanupBegin v =
     res_bind (validateCleanupBegin v WalInvalidArgument) (\<lambda>_.
     Inr (put64 (put64 (ownedHeader 24) 8 (cbUndoEnd v)) 16 (cbReservationCount v)))"

definition decodeCleanupBegin :: "log_record \<Rightarrow> cleanup_begin_payload res" where
  "decodeCleanupBegin r =
     res_bind (checkOwned r CLEANUP_BEGIN_TYPE 24 False) (\<lambda>_.
     let v = \<lparr>cbUndoEnd = get64 (payload r) 8, cbReservationCount = get64 (payload r) 16\<rparr> in
     res_bind (validateCleanupBegin v WalCorruptRecord) (\<lambda>_.
     res_bind (requireWal (cbUndoEnd v < recLsn r) ''Cleanup BEGIN forward reference'' WalCorruptRecord) (\<lambda>_.
     Inr v)))"

definition encodeCleanupIntent :: "cleanup_intent_payload \<Rightarrow> byte list res" where
  "encodeCleanupIntent v =
     res_bind (validateCleanupIntent v WalInvalidArgument) (\<lambda>_.
     res_bind (encodePageReclaim (ciReclaim v)) (\<lambda>bytes.
     Inr (overwrite (put64 (put64 (ownedHeader 72) 8 (ciReserveLsn v)) 16 (ciReclaimLsn v)) 24 bytes)))"

definition decodeCleanupIntent :: "log_record \<Rightarrow> cleanup_intent_payload res" where
  "decodeCleanupIntent r =
     res_bind (checkOwned r CLEANUP_INTENT_TYPE 72 False) (\<lambda>_.
     let reserve = get64 (payload r) 8; reclaim = get64 (payload r) 16 in
     res_bind (if reference reserve \<and> reserve < recLsn r
       then res_bind (cleanupReclaimLsn (recLsn r)) (\<lambda>next.
         requireWal (reclaim = next) ''Cleanup intent reference/record boundary'' WalCorruptRecord)
       else requireWal False ''Cleanup intent reference/record boundary'' WalCorruptRecord) (\<lambda>_.
     res_bind (decodePageReclaim \<lparr>recType = PAGE_RECLAIM_TYPE, transactionId = 0, prevLsn = INVALID_LSN,
       payload = drop 24 (payload r), recLsn = reclaim\<rparr>) (\<lambda>decoded.
     let v = \<lparr>ciReserveLsn = reserve, ciReclaimLsn = reclaim, ciReclaim = decoded\<rparr> in
     res_bind (validateCleanupIntent v WalCorruptRecord) (\<lambda>_. Inr v))))"

definition encodeCleanupProgress :: "cleanup_progress_payload \<Rightarrow> byte list res" where
  "encodeCleanupProgress v =
     res_bind (validateCleanupProgress v WalInvalidArgument) (\<lambda>_.
     Inr (put64 (put32 (put64 (put64 (ownedHeader 40) 8 (cpReserveLsn v)) 16 (cpReclaimLsn v))
       24 (cpPage v)) 32 (cpObservedExtent v)))"

definition decodeCleanupProgress :: "log_record \<Rightarrow> cleanup_progress_payload res" where
  "decodeCleanupProgress r =
     res_bind (checkOwned r CLEANUP_PROGRESS_TYPE 40 False) (\<lambda>_.
     res_bind (requireWal (get32 (payload r) 28 = 0) ''Cleanup progress reserved bytes'' WalCorruptRecord) (\<lambda>_.
     let v = \<lparr>cpReserveLsn = get64 (payload r) 8, cpReclaimLsn = get64 (payload r) 16,
              cpPage = get32 (payload r) 24, cpObservedExtent = get64 (payload r) 32\<rparr> in
     res_bind (validateCleanupProgress v WalCorruptRecord) (\<lambda>_.
     res_bind (requireWal (cpReserveLsn v < recLsn r \<and> (\<not> isValidLsn (cpReclaimLsn v) \<or> cpReclaimLsn v < recLsn r))
       ''Cleanup progress forward reference'' WalCorruptRecord) (\<lambda>_. Inr v))))"

section \<open>Exactness\<close>

lemma requireWal_eq [simp, res_simps]:
  "requireWal c m k = Inr u \<longleftrightarrow> c"
  "res_bind (requireWal c m k) f = (if c then f () else Inl (WalError k m))"
  by (simp_all add: requireWal_def throw_if_def)

lemma requirePayload_kind: "requirePayload v k = Inr u \<longleftrightarrow> requirePayload v k' = Inr u"
  by (simp add: requirePayload_def)

text \<open>What a page reclaim record must satisfy beside its payload's own limits.\<close>

definition reclaimRecord :: "log_record \<Rightarrow> page_reclaim_payload \<Rightarrow> bool" where
  "reclaimRecord r v \<longleftrightarrow> recType r = PAGE_RECLAIM_TYPE \<and> transactionId r = 0 \<and> prevLsn r = INVALID_LSN
     \<and> isValidLsn (recLsn r) \<and> 64 \<le> recLsn r
     \<and> (isValidLsn (rcBeforePageLsn v) \<longrightarrow> 64 \<le> rcBeforePageLsn v \<and> rcBeforePageLsn v < recLsn r)
     \<and> (isValidLsn (rcBeforeMetadataLsn v) \<longrightarrow> 64 \<le> rcBeforeMetadataLsn v \<and> rcBeforeMetadataLsn v < recLsn r)"

lemma encodePageReclaim_length: "encodePageReclaim v = Inr b \<Longrightarrow> length b = 48"
  by (auto simp: encodePageReclaim_def Let_def res_simps)

lemma page_reclaim_exact:
  "decodePageReclaim r = Inr v \<longleftrightarrow> reclaimRecord r v \<and> encodePageReclaim v = Inr (payload r)"
proof
  assume d: "decodePageReclaim r = Inr v"
  then have f: "length (payload r) = 48" "get16 (payload r) 8 = 1" "get16 (payload r) 10 = 0"
      "get32 (payload r) 12 = 0" "get32 (payload r) 44 = 0" "requirePayload v WalCorruptRecord = Inr ()"
    and v: "v = \<lparr>rcPage = get32 (payload r) 0, rcHead = get32 (payload r) 4, rcPageCount = get64 (payload r) 16,
        rcBeforePageLsn = get64 (payload r) 24, rcBeforeMetadataLsn = get64 (payload r) 32,
        rcBeforeCrc = get32 (payload r) 40\<rparr>"
    by (auto simp: decodePageReclaim_def Let_def res_simps split: if_splits)
  have "reclaimRecord r v"
    using d by (auto simp: reclaimRecord_def decodePageReclaim_def Let_def res_simps isValidLsn_def split: if_splits)
  moreover obtain b where b: "encodePageReclaim v = Inr b"
    using f(6) requirePayload_kind [of v WalCorruptRecord _ WalInvalidArgument] by (simp add: encodePageReclaim_def)
  moreover have "payload r = b"
  proof (rule fields_eqI [where fs = "[F32, F32, F16, F16, F32, F64, F64, F64, F32, F32]"])
    show "length (payload r) = length b" using f(1) encodePageReclaim_length [OF b] by simp
  next
    from b have e: "b = put32 (put64 (put64 (put64 (put16 (put32 (put32 (replicate 48 0) 0 (rcPage v)) 4 (rcHead v)) 8 1)
        16 (rcPageCount v)) 24 (rcBeforePageLsn v)) 32 (rcBeforeMetadataLsn v)) 40 (rcBeforeCrc v)"
      by (auto simp: encodePageReclaim_def Let_def res_simps)
    show "fieldsEq (payload r) b 0 [F32, F32, F16, F16, F32, F64, F64, F64, F32, F32]"
      using f unfolding e v by simp
  qed
  ultimately show "reclaimRecord r v \<and> encodePageReclaim v = Inr (payload r)" by simp
next
  assume a: "reclaimRecord r v \<and> encodePageReclaim v = Inr (payload r)"
  then have e: "payload r = put32 (put64 (put64 (put64 (put16 (put32 (put32 (replicate 48 0) 0 (rcPage v)) 4 (rcHead v)) 8 1)
        16 (rcPageCount v)) 24 (rcBeforePageLsn v)) 32 (rcBeforeMetadataLsn v)) 40 (rcBeforeCrc v)"
    and "requirePayload v WalInvalidArgument = Inr ()"
    by (auto simp: encodePageReclaim_def Let_def res_simps)
  then have "requirePayload v WalCorruptRecord = Inr ()" by (simp add: requirePayload_def)
  then show "decodePageReclaim r = Inr v"
    using a unfolding decodePageReclaim_def e Let_def reclaimRecord_def
    by (cases v) (auto simp: isValidLsn_def)
qed

lemma page_reclaim_decodes:
  assumes "encodePageReclaim v = Inr b" and "reclaimRecord (r\<lparr>payload := b\<rparr>) v"
  shows "decodePageReclaim (r\<lparr>payload := b\<rparr>) = Inr v"
  using assms by (simp add: page_reclaim_exact)

text \<open>The identity, length and chain conditions every owned rollback record meets.\<close>

definition ownedRecord :: "log_record \<Rightarrow> u16 \<Rightarrow> nat \<Rightarrow> bool \<Rightarrow> bool" where
  "ownedRecord r type n begins \<longleftrightarrow> recType r = type \<and> transactionId r \<noteq> 0 \<and> reference (recLsn r) \<and> length (payload r) = n
     \<and> recLsn r < INVALID_LSN - 48 - of_nat n
     \<and> (if begins then prevLsn r = INVALID_LSN else reference (prevLsn r) \<and> prevLsn r < recLsn r)"

lemma checkOwned_iff:
  "checkOwned r type n begins = Inr u \<longleftrightarrow> ownedRecord r type n begins
     \<and> get16 (payload r) 0 = 1 \<and> get16 (payload r) 2 = of_nat n \<and> get32 (payload r) 4 = 0"
  by (cases begins) (auto simp: checkOwned_def ownedRecord_def isValidLsn_def split: if_splits)

lemma checkOwned_eq:
  "ownedRecord r type n begins \<Longrightarrow> get16 (payload r) 0 = 1 \<Longrightarrow> get16 (payload r) 2 = of_nat n \<Longrightarrow>
   get32 (payload r) 4 = 0 \<Longrightarrow> checkOwned r type n begins = Inr ()"
  by (simp add: checkOwned_iff)

lemma ownedRecord_length: "ownedRecord r type n begins \<Longrightarrow> length (payload r) = n"
  by (simp add: ownedRecord_def)

lemma validate_kinds:
  "validateOwnedBegin v k = Inr u \<longleftrightarrow> validateOwnedBegin v k' = Inr u"
  "validateCleanupBegin w k = Inr u \<longleftrightarrow> validateCleanupBegin w k' = Inr u"
  "validateCleanupProgress p k = Inr u \<longleftrightarrow> validateCleanupProgress p k' = Inr u"
  "validateCleanupIntent i k = Inr u \<longleftrightarrow> validateCleanupIntent i k' = Inr u"
  by (simp_all add: validateOwnedBegin_def validateCleanupBegin_def validateCleanupProgress_def
      validateCleanupIntent_def Let_def res_bind_eq_Inr del: requireWal_eq(2))

lemma validate_kinds_eq:
  "validateOwnedBegin v k = Inr () \<Longrightarrow> validateOwnedBegin v k' = Inr ()"
  "validateCleanupBegin w k = Inr () \<Longrightarrow> validateCleanupBegin w k' = Inr ()"
  "validateCleanupProgress p k = Inr () \<Longrightarrow> validateCleanupProgress p k' = Inr ()"
  "validateCleanupIntent i k = Inr () \<Longrightarrow> validateCleanupIntent i k' = Inr ()"
  using validate_kinds by blast+

lemma owned_begin_exact:
  "decodeOwnedBegin r = Inr v \<longleftrightarrow> ownedRecord r BEGIN_OWNED_TYPE 24 True \<and> encodeOwnedBegin v = Inr (payload r)"
proof
  assume d: "decodeOwnedBegin r = Inr v"
  then have f: "ownedRecord r BEGIN_OWNED_TYPE 24 True" "get16 (payload r) 0 = 1" "get16 (payload r) 2 = 24"
      "get32 (payload r) 4 = 0" "get64 (payload r) 16 = 0" "validateOwnedBegin v WalInvalidArgument = Inr ()"
    and v: "v = \<lparr>obStartPageCount = get64 (payload r) 8\<rparr>"
    by (auto simp: decodeOwnedBegin_def Let_def res_simps checkOwned_iff intro: validate_kinds_eq split: if_splits)
  have "payload r = put64 (ownedHeader 24) 8 (obStartPageCount v)"
    by (rule fields_eqI [where fs = "[F16, F16, F32, F64, F64]"])
      (use f ownedRecord_length [OF f(1)] in \<open>simp_all add: v ownedHeader_def\<close>)
  then show "ownedRecord r BEGIN_OWNED_TYPE 24 True \<and> encodeOwnedBegin v = Inr (payload r)"
    using f by (simp add: encodeOwnedBegin_def)
next
  assume a: "ownedRecord r BEGIN_OWNED_TYPE 24 True \<and> encodeOwnedBegin v = Inr (payload r)"
  then have e: "payload r = put64 (ownedHeader 24) 8 (obStartPageCount v)"
    and k: "validateOwnedBegin v WalCorruptRecord = Inr ()"
    by (auto simp: encodeOwnedBegin_def res_simps intro: validate_kinds_eq)
  have "checkOwned r BEGIN_OWNED_TYPE 24 True = Inr ()"
    using a by (intro checkOwned_eq) (simp_all add: e ownedHeader_def)
  then show "decodeOwnedBegin r = Inr v"
    using k by (cases v) (simp add: decodeOwnedBegin_def e ownedHeader_def Let_def)
qed

lemma cleanup_begin_exact:
  "decodeCleanupBegin r = Inr v \<longleftrightarrow> ownedRecord r CLEANUP_BEGIN_TYPE 24 False \<and> cbUndoEnd v < recLsn r
     \<and> encodeCleanupBegin v = Inr (payload r)"
proof
  assume d: "decodeCleanupBegin r = Inr v"
  then have f: "ownedRecord r CLEANUP_BEGIN_TYPE 24 False" "get16 (payload r) 0 = 1" "get16 (payload r) 2 = 24"
      "get32 (payload r) 4 = 0" "validateCleanupBegin v WalInvalidArgument = Inr ()" "cbUndoEnd v < recLsn r"
    and v: "v = \<lparr>cbUndoEnd = get64 (payload r) 8, cbReservationCount = get64 (payload r) 16\<rparr>"
    by (auto simp: decodeCleanupBegin_def Let_def res_simps checkOwned_iff intro: validate_kinds_eq split: if_splits)
  have "payload r = put64 (put64 (ownedHeader 24) 8 (cbUndoEnd v)) 16 (cbReservationCount v)"
    by (rule fields_eqI [where fs = "[F16, F16, F32, F64, F64]"])
      (use f ownedRecord_length [OF f(1)] in \<open>simp_all add: v ownedHeader_def\<close>)
  then show "ownedRecord r CLEANUP_BEGIN_TYPE 24 False \<and> cbUndoEnd v < recLsn r \<and> encodeCleanupBegin v = Inr (payload r)"
    using f by (simp add: encodeCleanupBegin_def)
next
  assume a: "ownedRecord r CLEANUP_BEGIN_TYPE 24 False \<and> cbUndoEnd v < recLsn r \<and> encodeCleanupBegin v = Inr (payload r)"
  then have e: "payload r = put64 (put64 (ownedHeader 24) 8 (cbUndoEnd v)) 16 (cbReservationCount v)"
    and k: "validateCleanupBegin v WalCorruptRecord = Inr ()"
    by (auto simp: encodeCleanupBegin_def res_simps intro: validate_kinds_eq)
  have "checkOwned r CLEANUP_BEGIN_TYPE 24 False = Inr ()"
    using a by (intro checkOwned_eq) (simp_all add: e ownedHeader_def)
  then show "decodeCleanupBegin r = Inr v"
    using k a by (cases v) (simp add: decodeCleanupBegin_def e ownedHeader_def Let_def)
qed

lemma cleanup_progress_exact:
  "decodeCleanupProgress r = Inr v \<longleftrightarrow> ownedRecord r CLEANUP_PROGRESS_TYPE 40 False \<and> cpReserveLsn v < recLsn r
     \<and> (isValidLsn (cpReclaimLsn v) \<longrightarrow> cpReclaimLsn v < recLsn r) \<and> encodeCleanupProgress v = Inr (payload r)"
    (is "?d \<longleftrightarrow> ?o \<and> ?r \<and> ?c \<and> ?e")
proof
  assume d: ?d
  then have f: "ownedRecord r CLEANUP_PROGRESS_TYPE 40 False" "get16 (payload r) 0 = 1" "get16 (payload r) 2 = 40"
      "get32 (payload r) 4 = 0" "get32 (payload r) 28 = 0" "validateCleanupProgress v WalInvalidArgument = Inr ()" "?r" "?c"
    and v: "v = \<lparr>cpReserveLsn = get64 (payload r) 8, cpReclaimLsn = get64 (payload r) 16,
        cpPage = get32 (payload r) 24, cpObservedExtent = get64 (payload r) 32\<rparr>"
    by (auto simp: decodeCleanupProgress_def Let_def res_simps checkOwned_iff intro: validate_kinds_eq split: if_splits)
  have "payload r = put64 (put32 (put64 (put64 (ownedHeader 40) 8 (cpReserveLsn v)) 16 (cpReclaimLsn v)) 24 (cpPage v)) 32 (cpObservedExtent v)"
    by (rule fields_eqI [where fs = "[F16, F16, F32, F64, F64, F32, F32, F64]"])
      (use f ownedRecord_length [OF f(1)] in \<open>simp_all add: v ownedHeader_def\<close>)
  then show "?o \<and> ?r \<and> ?c \<and> ?e" using f by (simp add: encodeCleanupProgress_def)
next
  assume a: "?o \<and> ?r \<and> ?c \<and> ?e"
  then have e: "payload r = put64 (put32 (put64 (put64 (ownedHeader 40) 8 (cpReserveLsn v)) 16 (cpReclaimLsn v)) 24 (cpPage v)) 32 (cpObservedExtent v)"
    and k: "validateCleanupProgress v WalCorruptRecord = Inr ()"
    by (auto simp: encodeCleanupProgress_def res_simps intro: validate_kinds_eq)
  have "checkOwned r CLEANUP_PROGRESS_TYPE 40 False = Inr ()"
    using a by (intro checkOwned_eq) (simp_all add: e ownedHeader_def)
  then show ?d using k a by (cases v) (simp add: decodeCleanupProgress_def e ownedHeader_def Let_def)
qed

lemma encodePageReclaim_inj:
  assumes "encodePageReclaim v = Inr b" and "encodePageReclaim w = Inr b"
  shows "v = w"
proof -
  have f: "get32 b 0 = rcPage u \<and> get32 b 4 = rcHead u \<and> get64 b 16 = rcPageCount u \<and> get64 b 24 = rcBeforePageLsn u
      \<and> get64 b 32 = rcBeforeMetadataLsn u \<and> get32 b 40 = rcBeforeCrc u" if "encodePageReclaim u = Inr b" for u
    using that by (auto simp: encodePageReclaim_def Let_def res_simps)
  show ?thesis using f [OF assms(1)] f [OF assms(2)] by (intro page_reclaim_payload.equality) simp_all
qed

lemma drop_24_intent: "length p = 72 \<Longrightarrow> length b = 48 \<Longrightarrow> drop 24 (overwrite p 24 b) = b"
  by (simp add: overwrite_def)

lemma cleanup_intent_exact:
  "decodeCleanupIntent r = Inr v \<longleftrightarrow> ownedRecord r CLEANUP_INTENT_TYPE 72 False \<and> ciReserveLsn v < recLsn r
     \<and> cleanupReclaimLsn (recLsn r) = Inr (ciReclaimLsn v) \<and> encodeCleanupIntent v = Inr (payload r)"
    (is "?d \<longleftrightarrow> ?o \<and> ?r \<and> ?c \<and> ?e")
proof
  let ?sys = "\<lparr>recType = PAGE_RECLAIM_TYPE, transactionId = 0, prevLsn = INVALID_LSN,
       payload = drop 24 (payload r), recLsn = get64 (payload r) 16\<rparr>"
  assume d: ?d
  then obtain w where f: ?o "get16 (payload r) 0 = 1" "get16 (payload r) 2 = 72"
      "get32 (payload r) 4 = 0" "validateCleanupIntent v WalInvalidArgument = Inr ()" ?r ?c
    and w: "decodePageReclaim ?sys = Inr w"
    and v: "v = \<lparr>ciReserveLsn = get64 (payload r) 8, ciReclaimLsn = get64 (payload r) 16, ciReclaim = w\<rparr>"
    by (auto simp: decodeCleanupIntent_def Let_def res_simps checkOwned_iff intro: validate_kinds_eq split: if_splits)
  have enc: "encodePageReclaim w = Inr (drop 24 (payload r))" using w by (simp add: page_reclaim_exact)
  have n: "length (payload r) = 72" using ownedRecord_length [OF f(1)] .
  have "payload r = overwrite (put64 (put64 (ownedHeader 72) 8 (ciReserveLsn v)) 16 (ciReclaimLsn v)) 24 (drop 24 (payload r))"
    by (rule fields_eqI [where fs = "[F16, F16, F32, F64, F64, Raw 48]"])
      (use f n in \<open>simp_all add: v ownedHeader_def subspan_overwrite_same subspan_def drop_24_intent\<close>)
  then show "?o \<and> ?r \<and> ?c \<and> ?e" using f enc by (simp add: encodeCleanupIntent_def v)
next
  assume a: "?o \<and> ?r \<and> ?c \<and> ?e"
  then obtain b where b: "encodePageReclaim (ciReclaim v) = Inr b"
    and e: "payload r = overwrite (put64 (put64 (ownedHeader 72) 8 (ciReserveLsn v)) 16 (ciReclaimLsn v)) 24 b"
    and k: "validateCleanupIntent v WalCorruptRecord = Inr ()"
    using validate_kinds_eq(4) by (auto simp: encodeCleanupIntent_def res_simps)
  have n: "length b = 48" by (rule encodePageReclaim_length [OF b])
  have f: "get64 (payload r) 8 = ciReserveLsn v" "get64 (payload r) 16 = ciReclaimLsn v" "drop 24 (payload r) = b"
    using n by (simp_all add: e ownedHeader_def drop_24_intent)
  have c: "checkOwned r CLEANUP_INTENT_TYPE 72 False = Inr ()"
    using a n by (intro checkOwned_eq) (simp_all add: e ownedHeader_def)
  have sys: "decodePageReclaim \<lparr>recType = PAGE_RECLAIM_TYPE, transactionId = 0, prevLsn = INVALID_LSN,
       payload = b, recLsn = ciReclaimLsn v\<rparr> = Inr (ciReclaim v)"
  proof -
    obtain w where "decodePageReclaim \<lparr>recType = PAGE_RECLAIM_TYPE, transactionId = 0, prevLsn = INVALID_LSN,
        payload = b, recLsn = ciReclaimLsn v\<rparr> = Inr w"
      using k b by (auto simp: validateCleanupIntent_def Let_def res_bind_eq_Inr simp del: requireWal_eq(2))
    then show ?thesis using encodePageReclaim_inj [OF b, of w] by (simp add: page_reclaim_exact)
  qed
  have "reference (ciReserveLsn v)" using k by (auto simp: validateCleanupIntent_def res_simps split: if_splits)
  then show ?d using a k sys unfolding decodeCleanupIntent_def c f Let_def by (cases v) simp
qed

end
