(* ===== verification/Recovery_Log.thy ===== *)
theory Recovery_Log
  imports Rollback_Log
begin

text \<open>
  The payloads of transactional log records (\<open>include/minidb/recovery_log.hpp\<close>,
  \<open>src/recovery_log.cpp\<close>): page reservations, begin records, full page updates and byte range updates
  in their two versions, compensation records, the computation and application of a page's byte
  ranges, and the choice between a full page and its ranges.

  The two versions of the byte range record differ in their header and in the name their messages
  carry; the loops they share take that name as an argument. Sizes are natural numbers, with the
  overflow checks of \<open>std::size_t\<close> written out. A page is a byte string of \<open>PAGE_SIZE\<close> bytes.

  The lemmas show that every payload has one encoding and is read back from it, that the ranges
  computed for a page redo and undo its change exactly, and that the adaptive choice is the shorter
  record.
\<close>

section \<open>Payloads\<close>

record page_reserve_payload =
  psPageId :: page_id
  psSource :: byte
  psOldPageCount :: u64

record begin_payload =
  bgStartPageCount :: u64

record page_update_payload =
  puPageId :: page_id
  puExisted :: bool
  puBefore :: page
  puAfter :: page

record page_byte_range =
  rgOffset :: u16
  rgLength :: u16
  rgBefore :: "byte list"
  rgAfter :: "byte list"

record page_delta_payload =
  pdPageId :: page_id
  pdExisted :: bool
  pdRanges :: "page_byte_range list"

record page_update_v2_payload =
  p2PageId :: page_id
  p2Existed :: bool
  p2BeforeLsn :: lsn
  p2Before :: page
  p2After :: page

record page_delta_v2_payload =
  d2PageId :: page_id
  d2Existed :: bool
  d2BeforeLsn :: lsn
  d2Ranges :: "page_byte_range list"

record compensation_payload =
  clPageId :: page_id
  clExisted :: bool
  clSupportsLsn :: bool
  clUndoNextLsn :: lsn
  clCompensatedLsn :: lsn
  clImage :: page

abbreviation BEGIN_TYPE :: u16 where "BEGIN_TYPE \<equiv> 1"
abbreviation PAGE_UPDATE_TYPE :: u16 where "PAGE_UPDATE_TYPE \<equiv> 2"
abbreviation COMMIT_TYPE :: u16 where "COMMIT_TYPE \<equiv> 3"
abbreviation ABORT_TYPE :: u16 where "ABORT_TYPE \<equiv> 4"
abbreviation COMPENSATION_TYPE :: u16 where "COMPENSATION_TYPE \<equiv> 5"
abbreviation PAGE_DELTA_UPDATE_TYPE :: u16 where "PAGE_DELTA_UPDATE_TYPE \<equiv> 8"
abbreviation PAGE_UPDATE_V2_TYPE :: u16 where "PAGE_UPDATE_V2_TYPE \<equiv> 9"
abbreviation PAGE_DELTA_UPDATE_V2_TYPE :: u16 where "PAGE_DELTA_UPDATE_V2_TYPE \<equiv> 10"
abbreviation PAGE_RESERVE_TYPE :: u16 where "PAGE_RESERVE_TYPE \<equiv> 13"

abbreviation APPENDED :: byte where "APPENDED \<equiv> 1"
abbreviation PAGE_UPDATE_PAYLOAD_SIZE :: nat where "PAGE_UPDATE_PAYLOAD_SIZE \<equiv> 8208"
abbreviation PAGE_UPDATE_V2_PAYLOAD_SIZE :: nat where "PAGE_UPDATE_V2_PAYLOAD_SIZE \<equiv> 8216"
abbreviation MAX_RANGE_COUNT :: nat where "MAX_RANGE_COUNT \<equiv> 2048"
abbreviation FULL_PAGE_UPDATE_RECORD_SIZE :: nat where "FULL_PAGE_UPDATE_RECORD_SIZE \<equiv> 8256"
abbreviation FULL_PAGE_UPDATE_V2_RECORD_SIZE :: nat where "FULL_PAGE_UPDATE_V2_RECORD_SIZE \<equiv> 8264"

section \<open>Reservations and begin records\<close>

definition validateReservation :: "page_reserve_payload \<Rightarrow> wal_error_kind \<Rightarrow> unit res" where
  "validateReservation v kind =
     throw_if (psPageId v = 0 \<or> psPageId v = INVALID_PAGE_ID \<or> psSource v \<noteq> APPENDED
       \<or> psOldPageCount v \<noteq> ucast (psPageId v)) (WalError kind ''Invalid APPENDED page reservation'')"

definition encodePageReserveLogPayload :: "page_reserve_payload \<Rightarrow> byte list res" where
  "encodePageReserveLogPayload v =
     res_bind (validateReservation v WalInvalidArgument) (\<lambda>_. Inr
     (let b1 = put32 (replicate 24 0) 0 (psPageId v);
          b2 = put16 b1 4 1;
          b3 = b2[6 := psSource v]
      in put64 b3 8 (psOldPageCount v)))"

definition decodePageReserveLogPayload :: "byte list \<Rightarrow> page_reserve_payload res" where
  "decodePageReserveLogPayload b =
     (if length b \<noteq> 24 then Inl (WalError WalCorruptRecord ''PAGE_RESERVE payload length'')
      else if get16 b 4 \<noteq> 1 \<or> b ! 7 \<noteq> 0 \<or> get64 b 16 \<noteq> 0
      then Inl (WalError WalCorruptRecord ''PAGE_RESERVE version/flags/reserved bytes'')
      else
        let v = \<lparr>psPageId = get32 b 0, psSource = b ! 6, psOldPageCount = get64 b 8\<rparr> in
        res_bind (validateReservation v WalCorruptRecord) (\<lambda>_. Inr v))"

definition decodeBeforePageLsn :: "byte list \<Rightarrow> nat \<Rightarrow> lsn res" where
  "decodeBeforePageLsn b offset =
     (let encoded = get64 b offset in
      if encoded = INVALID_LSN
      then Inl (WalError WalCorruptRecord ''PageLSN-aware WAL record has an invalid beforePageLsn'')
      else decodePersistentPageLsn encoded)"

definition encodeBeginLogPayload :: "begin_payload \<Rightarrow> byte list" where
  "encodeBeginLogPayload v = put64 (replicate 16 0) 0 (bgStartPageCount v)"

definition decodeBeginLogPayload :: "byte list \<Rightarrow> begin_payload res" where
  "decodeBeginLogPayload b =
     (if length b \<noteq> 16 then Inl (WalError WalCorruptRecord ''BEGIN payload has the wrong size'')
      else if get64 b 8 \<noteq> 0 then Inl (WalError WalCorruptRecord ''BEGIN payload reserved bytes are nonzero'')
      else
        let count = get64 b 0 in
        if count = 0 \<or> count > 0xFFFFFFFF
        then Inl (WalError WalCorruptRecord ''BEGIN start page count is invalid'')
        else Inr \<lparr>bgStartPageCount = count\<rparr>)"

section \<open>Full page updates\<close>

definition existedFlag :: "bool \<Rightarrow> u32" where
  "existedFlag existed = (if existed then 1 else 0)"

definition encodePageUpdateLogPayload :: "page_update_payload \<Rightarrow> byte list res" where
  "encodePageUpdateLogPayload v =
     (if puPageId v = INVALID_PAGE_ID
      then Inl (WalError WalInvalidArgument ''PAGE_UPDATE PageId is invalid'')
      else if \<not> puExisted v \<and> \<not> all_zero (puBefore v)
      then Inl (WalError WalInvalidArgument ''PAGE_UPDATE for a new page must use a zero before-image'')
      else Inr
        (let b1 = put32 (replicate PAGE_UPDATE_PAYLOAD_SIZE 0) 0 (puPageId v);
             b2 = put32 b1 4 (existedFlag (puExisted v));
             b3 = put32 b2 8 4096;
             b4 = overwrite b3 16 (puBefore v)
         in overwrite b4 4112 (puAfter v)))"

definition decodePageUpdateLogPayload :: "byte list \<Rightarrow> page_update_payload res" where
  "decodePageUpdateLogPayload b =
     (if length b \<noteq> PAGE_UPDATE_PAYLOAD_SIZE
      then Inl (WalError WalCorruptRecord ''PAGE_UPDATE payload has the wrong size'')
      else
        let flags = get32 b 4 in
        if flags AND NOT 1 \<noteq> 0 \<or> get32 b 8 \<noteq> 4096 \<or> get32 b 12 \<noteq> 0
        then Inl (WalError WalCorruptRecord ''PAGE_UPDATE header fields are malformed'')
        else
          let v = \<lparr>puPageId = get32 b 0, puExisted = (flags AND 1 \<noteq> 0),
                   puBefore = subspan b 16 PAGE_SIZE, puAfter = subspan b 4112 PAGE_SIZE\<rparr> in
          if puPageId v = INVALID_PAGE_ID
          then Inl (WalError WalCorruptRecord ''PAGE_UPDATE PageId is invalid'')
          else if \<not> puExisted v \<and> \<not> all_zero (puBefore v)
          then Inl (WalError WalCorruptRecord ''New-page before-image is not zero'')
          else Inr v)"

definition encodePageUpdateV2LogPayload :: "page_update_v2_payload \<Rightarrow> byte list res" where
  "encodePageUpdateV2LogPayload v =
     (if p2PageId v = INVALID_PAGE_ID
      then Inl (WalError WalInvalidArgument ''PAGE_UPDATE_V2 PageId is invalid'')
      else if \<not> p2Existed v \<and> (isValidLsn (p2BeforeLsn v) \<or> \<not> all_zero (p2Before v))
      then Inl (WalError WalInvalidArgument ''PAGE_UPDATE_V2 for a new page has noncanonical before state'')
      else
        let b1 = put32 (replicate PAGE_UPDATE_V2_PAYLOAD_SIZE 0) 0 (p2PageId v);
            b2 = put32 b1 4 (existedFlag (p2Existed v));
            b3 = put32 b2 8 4096;
            b4 = put16 b3 12 1;
            b5 = put16 b4 14 24 in
        res_bind (encodePersistentPageLsn (p2BeforeLsn v)) (\<lambda>encoded.
        let b6 = put64 b5 16 encoded;
            b7 = overwrite b6 24 (p2Before v)
        in Inr (overwrite b7 4120 (p2After v))))"

definition decodePageUpdateV2LogPayload :: "byte list \<Rightarrow> page_update_v2_payload res" where
  "decodePageUpdateV2LogPayload b =
     (if length b \<noteq> PAGE_UPDATE_V2_PAYLOAD_SIZE
      then Inl (WalError WalCorruptRecord ''PAGE_UPDATE_V2 payload has the wrong size'')
      else
        let flags = get32 b 4 in
        if flags AND NOT 1 \<noteq> 0 \<or> get32 b 8 \<noteq> 4096 \<or> get16 b 12 \<noteq> 1 \<or> get16 b 14 \<noteq> 24
        then Inl (WalError WalCorruptRecord ''PAGE_UPDATE_V2 header fields are malformed'')
        else
          res_bind (decodeBeforePageLsn b 16) (\<lambda>beforeLsn.
          let v = \<lparr>p2PageId = get32 b 0, p2Existed = (flags AND 1 \<noteq> 0), p2BeforeLsn = beforeLsn,
                   p2Before = subspan b 24 PAGE_SIZE, p2After = subspan b 4120 PAGE_SIZE\<rparr> in
          if p2PageId v = INVALID_PAGE_ID
          then Inl (WalError WalCorruptRecord ''PAGE_UPDATE_V2 PageId is invalid'')
          else if \<not> p2Existed v \<and> (isValidLsn (p2BeforeLsn v) \<or> \<not> all_zero (p2Before v))
          then Inl (WalError WalCorruptRecord ''New-page PAGE_UPDATE_V2 before state is not canonical'')
          else Inr v))"

section \<open>Byte ranges of a page\<close>

definition included :: "page \<Rightarrow> page \<Rightarrow> bool list \<Rightarrow> nat \<Rightarrow> bool" where
  "included before after required index \<longleftrightarrow>
     before ! index \<noteq> after ! index \<or> (required \<noteq> [] \<and> required ! index)"

function runEnd :: "(nat \<Rightarrow> bool) \<Rightarrow> nat \<Rightarrow> nat" where
  "runEnd inc offset = (if offset < PAGE_SIZE \<and> inc offset then runEnd inc (offset + 1) else offset)"
  by auto
termination by (relation "measure (\<lambda>(inc, offset). PAGE_SIZE - offset)") auto

declare runEnd.simps [simp del]

lemma runEnd_ge: "offset \<le> runEnd inc offset"
  by (induction inc offset rule: runEnd.induct) (subst runEnd.simps, auto)

lemma runEnd_gt: "offset < PAGE_SIZE \<Longrightarrow> inc offset \<Longrightarrow> offset < runEnd inc offset"
  using runEnd_ge [of "offset + 1" inc] by (subst runEnd.simps) simp

definition rangeAt :: "page \<Rightarrow> page \<Rightarrow> nat \<Rightarrow> nat \<Rightarrow> page_byte_range" where
  "rangeAt before after start stop =
     \<lparr>rgOffset = of_nat start, rgLength = of_nat (stop - start),
      rgBefore = subspan before start (stop - start), rgAfter = subspan after start (stop - start)\<rparr>"

function deltaLoop ::
  "(nat \<Rightarrow> bool) \<Rightarrow> page \<Rightarrow> page \<Rightarrow> nat \<Rightarrow> page_byte_range list \<Rightarrow> page_byte_range list" where
  "deltaLoop inc before after offset ranges =
     (if offset < PAGE_SIZE then
        if \<not> inc offset then deltaLoop inc before after (offset + 1) ranges
        else deltaLoop inc before after (runEnd inc offset) (ranges @ [rangeAt before after offset (runEnd inc offset)])
      else ranges)"
  by auto
termination
  by (relation "measure (\<lambda>(inc, before, after, offset, ranges). PAGE_SIZE - offset)")
    (auto dest: runEnd_gt intro: diff_less_mono2)

declare deltaLoop.simps [simp del]

definition computePageDelta :: "page \<Rightarrow> page \<Rightarrow> bool list \<Rightarrow> page_byte_range list res" where
  "computePageDelta before after required =
     (if required \<noteq> [] \<and> length required \<noteq> PAGE_SIZE
      then Inl (InvalidArgument ''Required delta-offset mask has the wrong size'')
      else Inr (deltaLoop (included before after required) before after 0 []))"

fun validateRangeLoop ::
  "bool \<Rightarrow> wal_error_kind \<Rightarrow> nat \<Rightarrow> bool \<Rightarrow> page_byte_range list \<Rightarrow> unit res" where
  "validateRangeLoop existed kind previousEnd first [] = Inr ()"
| "validateRangeLoop existed kind previousEnd first (rg # ranges) =
     (let offset = unat (rgOffset rg); len = unat (rgLength rg) in
      if len = 0 \<or> offset \<ge> PAGE_SIZE \<or> len > PAGE_SIZE - offset
      then Inl (WalError kind ''PAGE_DELTA_UPDATE range is outside the page'')
      else if \<not> first \<and> offset \<le> previousEnd
      then Inl (WalError kind ''PAGE_DELTA_UPDATE ranges are overlapping, adjacent, or out of order'')
      else if length (rgBefore rg) \<noteq> len \<or> length (rgAfter rg) \<noteq> len
      then Inl (WalError kind ''PAGE_DELTA_UPDATE range byte counts are inconsistent'')
      else if \<not> existed \<and> \<not> all_zero (rgBefore rg)
      then Inl (WalError kind ''New-page PAGE_DELTA_UPDATE before bytes are not zero'')
      else validateRangeLoop existed kind (offset + len) False ranges)"

definition validateDeltaRanges :: "page_delta_payload \<Rightarrow> wal_error_kind \<Rightarrow> unit res" where
  "validateDeltaRanges v kind =
     (if pdPageId v = INVALID_PAGE_ID then Inl (WalError kind ''PAGE_DELTA_UPDATE PageId is invalid'')
      else if pdRanges v = [] \<or> length (pdRanges v) > MAX_RANGE_COUNT
      then Inl (WalError kind ''PAGE_DELTA_UPDATE range count is invalid'')
      else validateRangeLoop (pdExisted v) kind 0 True (pdRanges v))"

definition checkedAdd :: "nat \<Rightarrow> nat \<Rightarrow> string \<Rightarrow> nat res" where
  "checkedAdd left right message =
     (if right > 2 ^ 64 - 1 - left then Inl (WalError WalInvalidArgument message) else Inr (left + right))"

definition checkedMultiply :: "nat \<Rightarrow> nat \<Rightarrow> string \<Rightarrow> nat res" where
  "checkedMultiply left right message =
     (if left \<noteq> 0 \<and> right > (2 ^ 64 - 1) div left then Inl (WalError WalInvalidArgument message)
      else Inr (left * right))"

text \<open>The size of a payload; \<open>name\<close> is the record's name in the messages.\<close>

fun sizeLoop :: "string \<Rightarrow> nat \<Rightarrow> nat \<Rightarrow> page_byte_range list \<Rightarrow> nat res" where
  "sizeLoop name copies payloadSize [] = Inr payloadSize"
| "sizeLoop name copies payloadSize (rg # ranges) =
     res_bind (checkedMultiply (unat (rgLength rg)) copies (name @ '' size calculation overflowed'')) (\<lambda>dataBytes.
     res_bind (checkedAdd payloadSize 4 (name @ '' size calculation overflowed'')) (\<lambda>s1.
     res_bind (checkedAdd s1 dataBytes (name @ '' size calculation overflowed'')) (\<lambda>s2.
     if s2 > MAX_PAYLOAD_SIZE then Inl (WalError WalInvalidArgument (name @ '' payload is too large''))
     else sizeLoop name copies s2 ranges)))"

definition copiesOf :: "bool \<Rightarrow> nat" where
  "copiesOf existed = (if existed then 2 else 1)"

definition pageDeltaUpdatePayloadEncodedSize :: "page_delta_payload \<Rightarrow> nat res" where
  "pageDeltaUpdatePayloadEncodedSize v =
     res_bind (validateDeltaRanges v WalInvalidArgument) (\<lambda>_.
     res_bind (sizeLoop ''PAGE_DELTA_UPDATE'' (copiesOf (pdExisted v)) 24 (pdRanges v)) (\<lambda>payloadSize.
     if payloadSize > 0xFFFFFFFF
     then Inl (WalError WalInvalidArgument ''PAGE_DELTA_UPDATE payload length is not encodable'')
     else Inr payloadSize))"

definition pageDeltaUpdateRecordEncodedSize :: "page_delta_payload \<Rightarrow> nat res" where
  "pageDeltaUpdateRecordEncodedSize v =
     res_bind (pageDeltaUpdatePayloadEncodedSize v) (\<lambda>payloadSize.
     res_bind (checkedAdd REC_HEADER_SIZE payloadSize ''PAGE_DELTA_UPDATE record size calculation overflowed'') (\<lambda>recordSize.
     if recordSize > MAX_RECORD_SIZE \<or> recordSize > 0xFFFFFFFF
     then Inl (WalError WalInvalidArgument ''PAGE_DELTA_UPDATE record length is not encodable'')
     else Inr recordSize))"

record adaptive_decision =
  adRecordType :: u16
  adFullPageRecordBytes :: nat
  adDeltaRecordBytes :: nat
  adRangeCount :: nat
  adChangedByteCount :: nat

definition isTie :: "adaptive_decision \<Rightarrow> bool" where
  "isTie d \<longleftrightarrow> adFullPageRecordBytes d = adDeltaRecordBytes d"

fun changedLoop :: "string \<Rightarrow> nat \<Rightarrow> page_byte_range list \<Rightarrow> nat res" where
  "changedLoop name changed [] = Inr changed"
| "changedLoop name changed (rg # ranges) =
     res_bind (checkedAdd changed (unat (rgLength rg)) (name @ '' changed-byte count overflowed'')) (\<lambda>c.
     changedLoop name c ranges)"

definition selectAdaptivePageUpdateEncoding :: "page_delta_payload \<Rightarrow> adaptive_decision res" where
  "selectAdaptivePageUpdateEncoding v =
     res_bind (pageDeltaUpdateRecordEncodedSize v) (\<lambda>deltaBytes.
     res_bind (changedLoop ''PAGE_DELTA_UPDATE'' 0 (pdRanges v)) (\<lambda>changedBytes.
     Inr \<lparr>adRecordType = (if deltaBytes < FULL_PAGE_UPDATE_RECORD_SIZE then PAGE_DELTA_UPDATE_TYPE else PAGE_UPDATE_TYPE),
          adFullPageRecordBytes = FULL_PAGE_UPDATE_RECORD_SIZE, adDeltaRecordBytes = deltaBytes,
          adRangeCount = length (pdRanges v), adChangedByteCount = changedBytes\<rparr>))"

section \<open>Byte range updates\<close>

fun writeRanges :: "bool \<Rightarrow> byte list \<Rightarrow> nat \<Rightarrow> page_byte_range list \<Rightarrow> byte list" where
  "writeRanges existed b cursor [] = b"
| "writeRanges existed b cursor (rg # ranges) =
     (let b1 = put16 b cursor (rgOffset rg);
          b2 = put16 b1 (cursor + 2) (rgLength rg);
          c2 = cursor + 4;
          b3 = (if existed then overwrite b2 c2 (rgBefore rg) else b2);
          c3 = (if existed then c2 + length (rgBefore rg) else c2);
          b4 = overwrite b3 c3 (rgAfter rg)
      in writeRanges existed b4 (c3 + length (rgAfter rg)) ranges)"

definition encodePageDeltaUpdateLogPayload :: "page_delta_payload \<Rightarrow> byte list res" where
  "encodePageDeltaUpdateLogPayload v =
     res_bind (pageDeltaUpdatePayloadEncodedSize v) (\<lambda>payloadSize. Inr
     (let b1 = put32 (replicate payloadSize 0) 0 (pdPageId v);
          b2 = put32 b1 4 (existedFlag (pdExisted v));
          b3 = put32 b2 8 4096;
          b4 = put32 b3 12 (of_nat (length (pdRanges v)));
          b5 = put16 b4 16 1;
          b6 = put16 b5 18 24
      in writeRanges (pdExisted v) b6 24 (pdRanges v)))"

text \<open>The loop of the decoders: \<open>count\<close> ranges from \<open>cursor\<close> on.\<close>

fun readRanges :: "string \<Rightarrow> bool \<Rightarrow> byte list \<Rightarrow> nat \<Rightarrow> nat \<Rightarrow> (page_byte_range list \<times> nat) res" where
  "readRanges name existed b 0 cursor = Inr ([], cursor)"
| "readRanges name existed b (Suc count) cursor =
     (if length b - cursor < 4
      then Inl (WalError WalCorruptRecord (name @ '' range header is truncated''))
      else
        let offset = get16 b cursor; lengthField = get16 b (cursor + 2);
            c2 = cursor + 4; len = unat lengthField in
        if len = 0 \<or> len > PAGE_SIZE \<or> c2 > length b \<or> len > (length b - c2) div copiesOf existed
        then Inl (WalError WalCorruptRecord (name @ '' range data is truncated or invalid''))
        else
          let before = (if existed then subspan b c2 len else replicate len 0);
              c3 = (if existed then c2 + len else c2) in
          res_bind (readRanges name existed b count (c3 + len)) (\<lambda>(ranges, stop).
          Inr (\<lparr>rgOffset = offset, rgLength = lengthField, rgBefore = before, rgAfter = subspan b c3 len\<rparr> # ranges, stop)))"

definition decodePageDeltaUpdateLogPayload :: "byte list \<Rightarrow> page_delta_payload res" where
  "decodePageDeltaUpdateLogPayload b =
     (if length b < 24 then Inl (WalError WalCorruptRecord ''PAGE_DELTA_UPDATE payload header is truncated'')
      else
        let flags = get32 b 4; rangeCount = unat (get32 b 12) in
        if flags AND NOT 1 \<noteq> 0 \<or> get32 b 8 \<noteq> 4096 \<or> get16 b 16 \<noteq> 1 \<or> get16 b 18 \<noteq> 24 \<or> get32 b 20 \<noteq> 0
           \<or> rangeCount = 0 \<or> rangeCount > MAX_RANGE_COUNT
        then Inl (WalError WalCorruptRecord ''PAGE_DELTA_UPDATE header fields are malformed'')
        else
          res_bind (readRanges ''PAGE_DELTA_UPDATE'' (flags AND 1 \<noteq> 0) b rangeCount 24) (\<lambda>(ranges, cursor).
          if cursor \<noteq> length b
          then Inl (WalError WalCorruptRecord ''PAGE_DELTA_UPDATE payload has trailing bytes'')
          else
            let v = \<lparr>pdPageId = get32 b 0, pdExisted = (flags AND 1 \<noteq> 0), pdRanges = ranges\<rparr> in
            res_bind (validateDeltaRanges v WalCorruptRecord) (\<lambda>_. Inr v)))"

definition applyPageDeltaAfter :: "page \<Rightarrow> page_delta_payload \<Rightarrow> page res" where
  "applyPageDeltaAfter page v =
     res_bind (validateDeltaRanges v WalCorruptRecord) (\<lambda>_.
     Inr (fold (\<lambda>rg p. overwrite p (unat (rgOffset rg)) (rgAfter rg)) (pdRanges v) page))"

definition applyPageDeltaBefore :: "page \<Rightarrow> page_delta_payload \<Rightarrow> page res" where
  "applyPageDeltaBefore page v =
     res_bind (validateDeltaRanges v WalCorruptRecord) (\<lambda>_.
     Inr (fold (\<lambda>rg p. overwrite p (unat (rgOffset rg)) (rgBefore rg)) (pdRanges v) page))"

definition logicalDelta :: "page_delta_v2_payload \<Rightarrow> page_delta_payload" where
  "logicalDelta v = \<lparr>pdPageId = d2PageId v, pdExisted = d2Existed v, pdRanges = d2Ranges v\<rparr>"

definition pageDeltaUpdateV2PayloadEncodedSize :: "page_delta_v2_payload \<Rightarrow> nat res" where
  "pageDeltaUpdateV2PayloadEncodedSize v =
     res_bind (validateDeltaRanges (logicalDelta v) WalInvalidArgument) (\<lambda>_.
     if \<not> d2Existed v \<and> isValidLsn (d2BeforeLsn v)
     then Inl (WalError WalInvalidArgument ''PAGE_DELTA_UPDATE_V2 for a new page has a before PageLSN'')
     else sizeLoop ''PAGE_DELTA_UPDATE_V2'' (copiesOf (d2Existed v)) 32 (d2Ranges v))"

definition pageDeltaUpdateV2RecordEncodedSize :: "page_delta_v2_payload \<Rightarrow> nat res" where
  "pageDeltaUpdateV2RecordEncodedSize v =
     res_bind (pageDeltaUpdateV2PayloadEncodedSize v) (\<lambda>payloadSize.
     checkedAdd REC_HEADER_SIZE payloadSize ''PAGE_DELTA_UPDATE_V2 record size calculation overflowed'')"

definition selectAdaptivePageUpdateV2Encoding :: "page_delta_v2_payload \<Rightarrow> adaptive_decision res" where
  "selectAdaptivePageUpdateV2Encoding v =
     res_bind (pageDeltaUpdateV2RecordEncodedSize v) (\<lambda>deltaBytes.
     res_bind (changedLoop ''PAGE_DELTA_UPDATE_V2'' 0 (d2Ranges v)) (\<lambda>changedBytes.
     Inr \<lparr>adRecordType = (if deltaBytes < FULL_PAGE_UPDATE_V2_RECORD_SIZE
            then PAGE_DELTA_UPDATE_V2_TYPE else PAGE_UPDATE_V2_TYPE),
          adFullPageRecordBytes = FULL_PAGE_UPDATE_V2_RECORD_SIZE, adDeltaRecordBytes = deltaBytes,
          adRangeCount = length (d2Ranges v), adChangedByteCount = changedBytes\<rparr>))"

definition encodePageDeltaUpdateV2LogPayload :: "page_delta_v2_payload \<Rightarrow> byte list res" where
  "encodePageDeltaUpdateV2LogPayload v =
     res_bind (pageDeltaUpdateV2PayloadEncodedSize v) (\<lambda>payloadSize.
     let b1 = put32 (replicate payloadSize 0) 0 (d2PageId v);
         b2 = put32 b1 4 (existedFlag (d2Existed v));
         b3 = put32 b2 8 4096;
         b4 = put32 b3 12 (of_nat (length (d2Ranges v)));
         b5 = put16 b4 16 1;
         b6 = put16 b5 18 32 in
     res_bind (encodePersistentPageLsn (d2BeforeLsn v)) (\<lambda>encoded.
     Inr (writeRanges (d2Existed v) (put64 b6 24 encoded) 32 (d2Ranges v))))"

definition decodePageDeltaUpdateV2LogPayload :: "byte list \<Rightarrow> page_delta_v2_payload res" where
  "decodePageDeltaUpdateV2LogPayload b =
     (if length b < 32 then Inl (WalError WalCorruptRecord ''PAGE_DELTA_UPDATE_V2 payload header is truncated'')
      else
        let flags = get32 b 4; rangeCount = unat (get32 b 12) in
        if flags AND NOT 1 \<noteq> 0 \<or> get32 b 8 \<noteq> 4096 \<or> get16 b 16 \<noteq> 1 \<or> get16 b 18 \<noteq> 32 \<or> get32 b 20 \<noteq> 0
           \<or> rangeCount = 0 \<or> rangeCount > MAX_RANGE_COUNT
        then Inl (WalError WalCorruptRecord ''PAGE_DELTA_UPDATE_V2 header fields are malformed'')
        else
          res_bind (decodeBeforePageLsn b 24) (\<lambda>beforeLsn.
          res_bind (readRanges ''PAGE_DELTA_UPDATE_V2'' (flags AND 1 \<noteq> 0) b rangeCount 32) (\<lambda>(ranges, cursor).
          if cursor \<noteq> length b
          then Inl (WalError WalCorruptRecord ''PAGE_DELTA_UPDATE_V2 payload has trailing bytes'')
          else
            let v = \<lparr>d2PageId = get32 b 0, d2Existed = (flags AND 1 \<noteq> 0), d2BeforeLsn = beforeLsn, d2Ranges = ranges\<rparr> in
            res_bind (validateDeltaRanges (logicalDelta v) WalCorruptRecord) (\<lambda>_.
            if \<not> d2Existed v \<and> isValidLsn (d2BeforeLsn v)
            then Inl (WalError WalCorruptRecord ''New-page PAGE_DELTA_UPDATE_V2 has a before PageLSN'')
            else Inr v))))"

section \<open>Compensation records\<close>

definition compensationRefsBad :: "compensation_payload \<Rightarrow> bool" where
  "compensationRefsBad v \<longleftrightarrow> clPageId v = INVALID_PAGE_ID
     \<or> \<not> isValidLsn (clCompensatedLsn v) \<or> clCompensatedLsn v < 64
     \<or> (isValidLsn (clUndoNextLsn v) \<and> clUndoNextLsn v < 64)
     \<or> (isValidLsn (clUndoNextLsn v) \<and> clUndoNextLsn v \<ge> clCompensatedLsn v)"

definition encodeCompensationLogPayload :: "compensation_payload \<Rightarrow> byte list res" where
  "encodeCompensationLogPayload v =
     (if compensationRefsBad v \<or> \<not> clExisted v
      then Inl (WalError WalInvalidArgument ''CLR payload references are invalid'')
      else Inr
        (let flags = (if clSupportsLsn v then 1 OR 2 else 1);
             b1 = put32 (replicate 4136 0) 0 (clPageId v);
             b2 = put32 b1 4 flags;
             b3 = put32 b2 8 4096;
             b4 = put16 b3 12 1;
             b5 = put16 b4 14 40;
             b6 = put64 b5 16 (clUndoNextLsn v);
             b7 = put64 b6 24 (clCompensatedLsn v)
         in overwrite b7 40 (clImage v)))"

definition decodeCompensationLogPayload :: "byte list \<Rightarrow> compensation_payload res" where
  "decodeCompensationLogPayload b =
     (if length b \<noteq> 4136 then Inl (WalError WalCorruptRecord ''CLR payload has the wrong size'')
      else
        let flags = get32 b 4 in
        if flags AND NOT (1 OR 2) \<noteq> 0 \<or> flags AND 1 = 0 \<or> get32 b 8 \<noteq> 4096 \<or> get16 b 12 \<noteq> 1 \<or> get16 b 14 \<noteq> 40
           \<or> get64 b 32 \<noteq> 0
        then Inl (WalError WalCorruptRecord ''CLR payload header is malformed'')
        else
          let v = \<lparr>clPageId = get32 b 0, clExisted = True, clSupportsLsn = (flags AND 2 \<noteq> 0),
                   clUndoNextLsn = get64 b 16, clCompensatedLsn = get64 b 24, clImage = subspan b 40 PAGE_SIZE\<rparr> in
          if compensationRefsBad v
          then Inl (WalError WalCorruptRecord ''CLR payload references are invalid'')
          else Inr v)"

section \<open>Records\<close>

definition isPageUpdateRecordType :: "u16 \<Rightarrow> bool" where
  "isPageUpdateRecordType t \<longleftrightarrow> t = PAGE_UPDATE_TYPE \<or> t = PAGE_DELTA_UPDATE_TYPE
     \<or> t = PAGE_UPDATE_V2_TYPE \<or> t = PAGE_DELTA_UPDATE_V2_TYPE"

definition decodePageUpdateIdentity :: "log_record \<Rightarrow> (page_id \<times> bool) res" where
  "decodePageUpdateIdentity r =
     (if recType r = PAGE_UPDATE_TYPE
      then res_bind (decodePageUpdateLogPayload (payload r)) (\<lambda>u. Inr (puPageId u, puExisted u))
      else if recType r = PAGE_DELTA_UPDATE_TYPE
      then res_bind (decodePageDeltaUpdateLogPayload (payload r)) (\<lambda>u. Inr (pdPageId u, pdExisted u))
      else if recType r = PAGE_UPDATE_V2_TYPE
      then res_bind (decodePageUpdateV2LogPayload (payload r)) (\<lambda>u. Inr (p2PageId u, p2Existed u))
      else if recType r = PAGE_DELTA_UPDATE_V2_TYPE
      then res_bind (decodePageDeltaUpdateV2LogPayload (payload r)) (\<lambda>u. Inr (d2PageId u, d2Existed u))
      else Inl (WalError WalCorruptRecord ''WAL record is not a page-update record''))"

text \<open>\<open>static_cast<void>(\<dots>)\<close>: what a decoder throws, without its value.\<close>

definition discard :: "'a res \<Rightarrow> unit res" where
  "discard m = res_bind m (\<lambda>_. Inr ())"

definition updatePayload :: "log_record \<Rightarrow> string \<Rightarrow> unit res \<Rightarrow> unit res" where
  "updatePayload r name decoded =
     (if \<not> isValidLsn (prevLsn r)
      then Inl (WalError WalCorruptRecord (name @ '' record lacks prevLSN''))
      else decoded)"

definition validateTransactionRecordPayload :: "log_record \<Rightarrow> unit res" where
  "validateTransactionRecordPayload r =
     (if transactionId r = 0 then Inl (WalError WalCorruptRecord ''Transaction record uses transaction ID zero'')
      else if recType r = BEGIN_OWNED_TYPE then discard (decodeOwnedBegin r)
      else if recType r = CLEANUP_BEGIN_TYPE then discard (decodeCleanupBegin r)
      else if recType r = CLEANUP_INTENT_TYPE then discard (decodeCleanupIntent r)
      else if recType r = CLEANUP_PROGRESS_TYPE then discard (decodeCleanupProgress r)
      else if recType r = PAGE_RESERVE_TYPE then
        if \<not> isValidLsn (prevLsn r) \<or> \<not> isValidLsn (recLsn r) \<or> prevLsn r < 64 \<or> prevLsn r \<ge> recLsn r
        then Inl (WalError WalCorruptRecord ''PAGE_RESERVE invalid prevLSN'')
        else discard (decodePageReserveLogPayload (payload r))
      else if recType r = BEGIN_TYPE then
        if isValidLsn (prevLsn r) then Inl (WalError WalCorruptRecord ''BEGIN record has a prevLSN'')
        else discard (decodeBeginLogPayload (payload r))
      else if recType r = PAGE_UPDATE_TYPE
      then updatePayload r ''PAGE_UPDATE'' (discard (decodePageUpdateLogPayload (payload r)))
      else if recType r = PAGE_DELTA_UPDATE_TYPE
      then updatePayload r ''PAGE_DELTA_UPDATE'' (discard (decodePageDeltaUpdateLogPayload (payload r)))
      else if recType r = PAGE_UPDATE_V2_TYPE
      then updatePayload r ''PAGE_UPDATE_V2'' (discard (decodePageUpdateV2LogPayload (payload r)))
      else if recType r = PAGE_DELTA_UPDATE_V2_TYPE
      then updatePayload r ''PAGE_DELTA_UPDATE_V2'' (discard (decodePageDeltaUpdateV2LogPayload (payload r)))
      else if recType r = COMPENSATION_TYPE then
        updatePayload r ''CLR'' (res_bind (decodeCompensationLogPayload (payload r)) (\<lambda>v.
          if \<not> isValidLsn (recLsn r) \<or> clCompensatedLsn v \<ge> recLsn r
             \<or> (isValidLsn (clUndoNextLsn v) \<and> clUndoNextLsn v \<ge> recLsn r)
          then Inl (WalError WalCorruptRecord ''CLR has a self/future WAL reference'')
          else Inr ()))
      else if recType r = COMMIT_TYPE \<or> recType r = ABORT_TYPE then
        if payload r \<noteq> [] \<or> \<not> isValidLsn (prevLsn r)
        then Inl (WalError WalCorruptRecord ''Transaction terminator is malformed'')
        else Inr ()
      else if recType r \<in> {6, 7, 11, 12, PAGE_RECLAIM_TYPE}
      then Inl (WalError WalCorruptRecord ''Unsupported WAL record type in recovery'')
      else Inl (WalError WalCorruptRecord ''Unknown WAL record type in recovery''))"

section \<open>Exactness of the fixed payloads\<close>

lemma and_not_mask_zero: "(f :: u32) AND NOT (mask n) = 0 \<Longrightarrow> f = take_bit n f"
proof -
  assume a: "f AND NOT (mask n) = 0"
  have "bit f k = bit (take_bit n f) k" if "k < LENGTH(32)" for k
  proof -
    have "bit (f AND NOT (mask n)) k = bit (0 :: u32) k" by (rule arg_cong [OF a])
    with that show ?thesis by (auto simp: bit_and_iff bit_not_iff bit_mask_iff bit_take_bit_iff possible_bit_word)
  qed
  then show ?thesis by (rule bit_word_eqI)
qed

lemma flags_below:
  assumes "(f :: u32) AND NOT (mask n) = 0" and "n < 32"
  shows "unat f < 2 ^ n"
proof -
  have "unat f = take_bit n (unat f)" using and_not_mask_zero [OF assms(1)] by (metis unsigned_take_bit_eq)
  then show ?thesis by (metis take_bit_nat_less_exp)
qed

lemma flags_1: "(f :: u32) AND NOT 1 = 0 \<Longrightarrow> f = existedFlag (f AND 1 \<noteq> 0)"
proof -
  assume "f AND NOT 1 = 0"
  then have "unat f < 2" using flags_below [of f 1] by (simp add: mask_eq_exp_minus_1)
  then have "unat f = 0 \<or> unat f = 1" by linarith
  then have "f = 0 \<or> f = 1" by (metis unsigned_0 unsigned_1 word_unat_eq_iff)
  then show ?thesis by (auto simp: existedFlag_def)
qed

lemma existedFlag_simps [simp]:
  "existedFlag e AND NOT 1 = 0" "existedFlag e AND - 2 = 0" "existedFlag e AND 1 = 0 \<longleftrightarrow> \<not> e"
  by (simp_all add: existedFlag_def)

lemma flags_3: "(f :: u32) AND NOT 3 = 0 \<Longrightarrow> f AND 1 \<noteq> 0 \<Longrightarrow> f = (if f AND 2 \<noteq> 0 then 3 else 1)"
proof -
  assume a: "f AND NOT 3 = 0" "f AND 1 \<noteq> 0"
  then have "unat f < 4" using flags_below [of f 2] by (simp add: mask_eq_exp_minus_1)
  then have "unat f = unat (0 :: u32) \<or> unat f = unat (1 :: u32) \<or> unat f = unat (2 :: u32) \<or> unat f = unat (3 :: u32)"
    by auto
  then have "f = 0 \<or> f = 1 \<or> f = 2 \<or> f = 3" by (simp only: word_unat_eq_iff)
  with a(2) show ?thesis by auto
qed

lemma page_reserve_exact:
  "decodePageReserveLogPayload b = Inr v \<longleftrightarrow> encodePageReserveLogPayload v = Inr b"
proof
  assume d: "decodePageReserveLogPayload b = Inr v"
  then have f: "length b = 24" "get16 b 4 = 1" "b ! 7 = 0" "get64 b 16 = 0" "validateReservation v WalInvalidArgument = Inr ()"
    and v: "v = \<lparr>psPageId = get32 b 0, psSource = b ! 6, psOldPageCount = get64 b 8\<rparr>"
    by (auto simp: decodePageReserveLogPayload_def validateReservation_def Let_def res_simps split: if_splits)
  have "b = put64 ((put16 (put32 (replicate 24 0) 0 (psPageId v)) 4 1)[6 := psSource v]) 8 (psOldPageCount v)"
    by (rule fields_eqI [where fs = "[F32, F16, F8, F8, F64, F64]"]) (use f in \<open>simp_all add: v\<close>)
  then show "encodePageReserveLogPayload v = Inr b" using f by (simp add: encodePageReserveLogPayload_def Let_def)
next
  assume e: "encodePageReserveLogPayload v = Inr b"
  then have b: "b = put64 ((put16 (put32 (replicate 24 0) 0 (psPageId v)) 4 1)[6 := psSource v]) 8 (psOldPageCount v)"
    and k: "validateReservation v WalCorruptRecord = Inr ()"
    by (auto simp: encodePageReserveLogPayload_def validateReservation_def Let_def res_simps split: if_splits)
  show "decodePageReserveLogPayload b = Inr v"
    using k by (cases v) (simp add: b decodePageReserveLogPayload_def Let_def)
qed

lemma begin_exact:
  "decodeBeginLogPayload b = Inr v \<longleftrightarrow>
     bgStartPageCount v \<noteq> 0 \<and> bgStartPageCount v \<le> 0xFFFFFFFF \<and> b = encodeBeginLogPayload v"
proof
  assume d: "decodeBeginLogPayload b = Inr v"
  then have f: "length b = 16" "get64 b 8 = 0" "v = \<lparr>bgStartPageCount = get64 b 0\<rparr>"
      "bgStartPageCount v \<noteq> 0" "bgStartPageCount v \<le> 0xFFFFFFFF"
    by (auto simp: decodeBeginLogPayload_def Let_def not_less split: if_splits)
  then have "b = encodeBeginLogPayload v"
    by (intro fields_eqI [where fs = "[F64, F64]"]) (simp_all add: encodeBeginLogPayload_def)
  with f(4,5) show "bgStartPageCount v \<noteq> 0 \<and> bgStartPageCount v \<le> 0xFFFFFFFF \<and> b = encodeBeginLogPayload v" by blast
next
  assume "bgStartPageCount v \<noteq> 0 \<and> bgStartPageCount v \<le> 0xFFFFFFFF \<and> b = encodeBeginLogPayload v"
  then show "decodeBeginLogPayload b = Inr v"
    by (cases v) (simp add: decodeBeginLogPayload_def encodeBeginLogPayload_def Let_def not_less)
qed

lemma page_update_exact:
  "decodePageUpdateLogPayload b = Inr v \<longleftrightarrow>
     length (puBefore v) = PAGE_SIZE \<and> length (puAfter v) = PAGE_SIZE \<and> encodePageUpdateLogPayload v = Inr b"
proof
  assume d: "decodePageUpdateLogPayload b = Inr v"
  then have f: "length b = 8208" "get32 b 4 AND NOT 1 = 0" "get32 b 8 = 4096" "get32 b 12 = 0"
      "puPageId v \<noteq> INVALID_PAGE_ID" "puExisted v \<or> all_zero (puBefore v)"
    and v: "v = \<lparr>puPageId = get32 b 0, puExisted = (get32 b 4 AND 1 \<noteq> 0),
        puBefore = subspan b 16 PAGE_SIZE, puAfter = subspan b 4112 PAGE_SIZE\<rparr>"
    by (auto simp: decodePageUpdateLogPayload_def Let_def split: if_splits)
  have len: "length (puBefore v) = PAGE_SIZE" "length (puAfter v) = PAGE_SIZE" using f(1) by (simp_all add: v)
  have "b = overwrite (overwrite (put32 (put32 (put32 (replicate 8208 0) 0 (puPageId v)) 4 (existedFlag (puExisted v))) 8 4096)
      16 (puBefore v)) 4112 (puAfter v)"
    by (rule fields_eqI [where fs = "[F32, F32, F32, F32, Raw 4096, Raw 4096]"])
      (use f flags_1 [OF f(2)] in \<open>simp_all add: v layout_simps\<close>)
  then show "length (puBefore v) = PAGE_SIZE \<and> length (puAfter v) = PAGE_SIZE \<and> encodePageUpdateLogPayload v = Inr b"
    using f len by (simp add: encodePageUpdateLogPayload_def Let_def)
next
  assume a: "length (puBefore v) = PAGE_SIZE \<and> length (puAfter v) = PAGE_SIZE \<and> encodePageUpdateLogPayload v = Inr b"
  then have b: "b = overwrite (overwrite (put32 (put32 (put32 (replicate 8208 0) 0 (puPageId v)) 4 (existedFlag (puExisted v))) 8 4096)
      16 (puBefore v)) 4112 (puAfter v)"
    and k: "puPageId v \<noteq> INVALID_PAGE_ID" "puExisted v \<or> all_zero (puBefore v)"
    by (auto simp: encodePageUpdateLogPayload_def Let_def split: if_splits)
  show "decodePageUpdateLogPayload b = Inr v"
    using k a by (cases v) (simp add: b decodePageUpdateLogPayload_def layout_simps)
qed

text \<open>The persistent form of a before-LSN.\<close>

lemma before_lsn_exact:
  assumes "off + 8 \<le> length b"
  shows "decodeBeforePageLsn b off = Inr l \<longleftrightarrow> encodePersistentPageLsn l = Inr (get64 b off)"
  by (auto simp: decodeBeforePageLsn_def decodePersistentPageLsn_def encodePersistentPageLsn_def isValidLsn_def Let_def)

lemma page_update_v2_exact:
  "decodePageUpdateV2LogPayload b = Inr v \<longleftrightarrow>
     length (p2Before v) = PAGE_SIZE \<and> length (p2After v) = PAGE_SIZE \<and> encodePageUpdateV2LogPayload v = Inr b"
proof
  assume d: "decodePageUpdateV2LogPayload b = Inr v"
  then have f: "length b = 8216" "get32 b 4 AND NOT 1 = 0" "get32 b 8 = 4096" "get16 b 12 = 1" "get16 b 14 = 24"
      "decodeBeforePageLsn b 16 = Inr (p2BeforeLsn v)" "p2PageId v \<noteq> INVALID_PAGE_ID"
      "p2Existed v \<or> \<not> isValidLsn (p2BeforeLsn v) \<and> all_zero (p2Before v)"
    and v: "v = \<lparr>p2PageId = get32 b 0, p2Existed = (get32 b 4 AND 1 \<noteq> 0), p2BeforeLsn = p2BeforeLsn v,
        p2Before = subspan b 24 PAGE_SIZE, p2After = subspan b 4120 PAGE_SIZE\<rparr>"
    by (auto simp: decodePageUpdateV2LogPayload_def Let_def res_simps split: if_splits)
  have g: "p2PageId v = get32 b 0" "p2Existed v = (get32 b 4 AND 1 \<noteq> 0)" "p2Before v = subspan b 24 PAGE_SIZE"
    "p2After v = subspan b 4120 PAGE_SIZE"
    by (subst v, simp)+
  have len: "length (p2Before v) = PAGE_SIZE" "length (p2After v) = PAGE_SIZE" using f(1) by (simp_all add: g)
  have l: "encodePersistentPageLsn (p2BeforeLsn v) = Inr (get64 b 16)" using f(1,6) by (simp add: before_lsn_exact)
  have "b = overwrite (overwrite (put64 (put16 (put16 (put32 (put32 (put32 (replicate 8216 0) 0 (p2PageId v))
      4 (existedFlag (p2Existed v))) 8 4096) 12 1) 14 24) 16 (get64 b 16)) 24 (p2Before v)) 4120 (p2After v)"
    by (rule fields_eqI [where fs = "[F32, F32, F32, F16, F16, F64, Raw 4096, Raw 4096]"])
      (use f flags_1 [OF f(2)] in \<open>simp_all add: g layout_simps\<close>)
  then show "length (p2Before v) = PAGE_SIZE \<and> length (p2After v) = PAGE_SIZE \<and> encodePageUpdateV2LogPayload v = Inr b"
    using f len l by (simp add: encodePageUpdateV2LogPayload_def Let_def)
next
  assume a: "length (p2Before v) = PAGE_SIZE \<and> length (p2After v) = PAGE_SIZE \<and> encodePageUpdateV2LogPayload v = Inr b"
  then obtain x where b: "b = overwrite (overwrite (put64 (put16 (put16 (put32 (put32 (put32 (replicate 8216 0) 0 (p2PageId v))
      4 (existedFlag (p2Existed v))) 8 4096) 12 1) 14 24) 16 x) 24 (p2Before v)) 4120 (p2After v)"
    and x: "encodePersistentPageLsn (p2BeforeLsn v) = Inr x"
    and k: "p2PageId v \<noteq> INVALID_PAGE_ID" "p2Existed v \<or> \<not> isValidLsn (p2BeforeLsn v) \<and> all_zero (p2Before v)"
    by (auto simp: encodePageUpdateV2LogPayload_def Let_def res_simps split: if_splits)
  have "decodeBeforePageLsn b 16 = Inr (p2BeforeLsn v)"
    using a x by (subst before_lsn_exact) (simp_all add: b)
  then show "decodePageUpdateV2LogPayload b = Inr v"
    using k a by (cases v) (simp add: b decodePageUpdateV2LogPayload_def layout_simps)
qed

lemma compensation_exact:
  "decodeCompensationLogPayload b = Inr v \<longleftrightarrow> length (clImage v) = PAGE_SIZE \<and> encodeCompensationLogPayload v = Inr b"
proof
  assume d: "decodeCompensationLogPayload b = Inr v"
  then have f: "length b = 4136" "get32 b 4 AND NOT 3 = 0" "get32 b 4 AND 1 \<noteq> 0" "get32 b 8 = 4096" "get16 b 12 = 1" "get16 b 14 = 40"
      "get64 b 32 = 0" "\<not> compensationRefsBad v"
    and v: "v = \<lparr>clPageId = get32 b 0, clExisted = True, clSupportsLsn = (get32 b 4 AND 2 \<noteq> 0),
        clUndoNextLsn = get64 b 16, clCompensatedLsn = get64 b 24, clImage = subspan b 40 PAGE_SIZE\<rparr>"
    by (auto simp: decodeCompensationLogPayload_def Let_def split: if_splits)
  have len: "length (clImage v) = PAGE_SIZE" using f(1) by (simp add: v)
  have ex: "clExisted v" by (simp add: v)
  have "b = overwrite (put64 (put64 (put16 (put16 (put32 (put32 (put32 (replicate 4136 0) 0 (clPageId v))
      4 (if clSupportsLsn v then 3 else 1)) 8 4096) 12 1) 14 40) 16 (clUndoNextLsn v)) 24 (clCompensatedLsn v)) 40 (clImage v)"
    by (rule fields_eqI [where fs = "[F32, F32, F32, F16, F16, F64, F64, F64, Raw 4096]"])
      (use f flags_3 [OF f(2,3)] in \<open>simp_all add: v layout_simps\<close>)
  then show "length (clImage v) = PAGE_SIZE \<and> encodeCompensationLogPayload v = Inr b"
    using f(8) len ex by (simp add: encodeCompensationLogPayload_def Let_def)
next
  assume a: "length (clImage v) = PAGE_SIZE \<and> encodeCompensationLogPayload v = Inr b"
  then have b: "b = overwrite (put64 (put64 (put16 (put16 (put32 (put32 (put32 (replicate 4136 0) 0 (clPageId v))
      4 (if clSupportsLsn v then 3 else 1)) 8 4096) 12 1) 14 40) 16 (clUndoNextLsn v)) 24 (clCompensatedLsn v)) 40 (clImage v)"
    and k: "\<not> compensationRefsBad v" "clExisted v"
    by (auto simp: encodeCompensationLogPayload_def Let_def split: if_splits)
  show "decodeCompensationLogPayload b = Inr v"
    using k a by (cases v, cases "clSupportsLsn v") (simp_all add: b decodeCompensationLogPayload_def layout_simps)
qed

section \<open>Redo and undo by byte ranges\<close>

lemma runEnd_le: "offset \<le> PAGE_SIZE \<Longrightarrow> runEnd inc offset \<le> PAGE_SIZE"
  by (induction inc offset rule: runEnd.induct) (subst runEnd.simps, auto)

lemma runEnd_inc: "offset \<le> j \<Longrightarrow> j < runEnd inc offset \<Longrightarrow> inc j"
proof (induction inc offset rule: runEnd.induct)
  case (1 inc offset)
  then show ?case
    by (cases "offset < PAGE_SIZE \<and> inc offset"; cases "j = offset") (simp_all add: runEnd.simps [of inc offset])
qed

lemma runEnd_stop: "runEnd inc offset < PAGE_SIZE \<Longrightarrow> \<not> inc (runEnd inc offset)"
proof (induction inc offset rule: runEnd.induct)
  case (1 inc offset)
  then show ?case
    by (cases "offset < PAGE_SIZE \<and> inc offset") (simp_all add: runEnd.simps [of inc offset])
qed

text \<open>The loop without its accumulator.\<close>

function deltaFrom :: "(nat \<Rightarrow> bool) \<Rightarrow> page \<Rightarrow> page \<Rightarrow> nat \<Rightarrow> page_byte_range list" where
  "deltaFrom inc before after offset =
     (if offset < PAGE_SIZE then
        if \<not> inc offset then deltaFrom inc before after (offset + 1)
        else rangeAt before after offset (runEnd inc offset) # deltaFrom inc before after (runEnd inc offset)
      else [])"
  by auto
termination
  by (relation "measure (\<lambda>(inc, before, after, offset). PAGE_SIZE - offset)")
    (auto dest: runEnd_gt intro: diff_less_mono2)

declare deltaFrom.simps [simp del]

lemma deltaFrom_unfold:
  "PAGE_SIZE \<le> off \<Longrightarrow> deltaFrom inc b a off = []"
  "off < PAGE_SIZE \<Longrightarrow> \<not> inc off \<Longrightarrow> deltaFrom inc b a off = deltaFrom inc b a (off + 1)"
  "off < PAGE_SIZE \<Longrightarrow> inc off \<Longrightarrow>
     deltaFrom inc b a off = rangeAt b a off (runEnd inc off) # deltaFrom inc b a (runEnd inc off)"
  by (subst deltaFrom.simps, simp)+

lemma deltaLoop_from: "deltaLoop inc b a off acc = acc @ deltaFrom inc b a off"
proof (induction inc b a off acc rule: deltaLoop.induct)
  case (1 inc b a off acc)
  then show ?case
    by (cases "off < PAGE_SIZE"; cases "inc off") (simp_all add: deltaLoop.simps [of inc b a off] deltaFrom_unfold)
qed

text \<open>The shape of the ranges: within the page, apart, of the right lengths.\<close>

lemma rangeAt_fields:
  assumes "s < e" "e \<le> PAGE_SIZE" "length b = PAGE_SIZE" "length a = PAGE_SIZE"
  shows "unat (rgOffset (rangeAt b a s e)) = s" "unat (rgLength (rangeAt b a s e)) = e - s"
    "length (rgBefore (rangeAt b a s e)) = e - s" "length (rgAfter (rangeAt b a s e)) = e - s"
  using assms by (simp_all add: rangeAt_def del: of_nat_diff)

lemma deltaFrom_valid:
  assumes "length b = PAGE_SIZE" "length a = PAGE_SIZE" "existed \<or> all_zero b"
    and "first \<or> prev < off \<or> prev = off \<and> (off < PAGE_SIZE \<longrightarrow> \<not> inc off)"
  shows "validateRangeLoop existed k prev first (deltaFrom inc b a off) = Inr ()"
  using assms
proof (induction inc b a off arbitrary: prev first rule: deltaFrom.induct)
  case (1 inc b a off)
  consider "PAGE_SIZE \<le> off" | "off < PAGE_SIZE" "\<not> inc off" | "off < PAGE_SIZE" "inc off" by linarith
  then show ?case
  proof cases
    case 2
    then have "validateRangeLoop existed k prev first (deltaFrom inc b a (off + 1)) = Inr ()"
      using 1(3-6) by (intro 1(1)) auto
    then show ?thesis using 2 by (simp add: deltaFrom_unfold)
  next
    case 3
    let ?e = "runEnd inc off"
    have e: "off < ?e" "?e \<le> PAGE_SIZE" using 3 runEnd_gt runEnd_le by simp_all
    note f = rangeAt_fields [OF e 1(3,4)]
    have z: "existed \<or> all_zero (rgBefore (rangeAt b a off ?e))"
      using 1(3,5) e by (auto simp: rangeAt_def all_zero_nth nth_subspan)
    have "validateRangeLoop existed k ?e False (deltaFrom inc b a ?e) = Inr ()"
      using 3 1(3-5) runEnd_stop [of inc off] by (intro 1(2)) auto
    then show ?thesis using 3 1(6) f z e by (auto simp: deltaFrom_unfold Let_def)
  qed (simp add: deltaFrom_unfold)
qed

lemma deltaFrom_count_strong:
  "2 * length (deltaFrom inc b a off) \<le> PAGE_SIZE - off + (if off < PAGE_SIZE \<and> inc off then 1 else 0)"
proof (induction inc b a off rule: deltaFrom.induct)
  case (1 inc b a off)
  consider "PAGE_SIZE \<le> off" | "off < PAGE_SIZE" "\<not> inc off" | "off < PAGE_SIZE" "inc off" by linarith
  then show ?case
  proof cases
    case 2
    have "2 * length (deltaFrom inc b a (off + 1)) \<le> PAGE_SIZE - (off + 1) + 1"
      using 1(1) [OF 2] by (simp split: if_splits)
    then show ?thesis using 2 by (simp add: deltaFrom_unfold)
  next
    case 3
    have "2 * length (deltaFrom inc b a (runEnd inc off)) \<le> PAGE_SIZE - runEnd inc off"
      using 1(2) 3 runEnd_stop [of inc off] by (simp split: if_splits)
    then show ?thesis using 3 runEnd_gt [of off inc] runEnd_le [of off inc] by (simp add: deltaFrom_unfold)
  qed (simp add: deltaFrom_unfold)
qed

lemma deltaFrom_count: "length (deltaFrom inc b a 0) \<le> MAX_RANGE_COUNT"
  using deltaFrom_count_strong [of inc b a 0] by (simp split: if_splits)

lemma deltaFrom_Nil: "deltaFrom inc b a off = [] \<longleftrightarrow> (\<forall>i. off \<le> i \<and> i < PAGE_SIZE \<longrightarrow> \<not> inc i)"
proof (induction inc b a off rule: deltaFrom.induct)
  case (1 inc b a off)
  consider "PAGE_SIZE \<le> off" | "off < PAGE_SIZE" "\<not> inc off" | "off < PAGE_SIZE" "inc off" by linarith
  then show ?case
  proof cases
    case 2
    have "off \<le> i \<longleftrightarrow> i = off \<or> off + 1 \<le> i" for i by linarith
    moreover have "deltaFrom inc b a off = deltaFrom inc b a (off + 1)" using 2 by (simp add: deltaFrom_unfold)
    ultimately show ?thesis using 1(1) 2 by metis
  qed (auto simp: deltaFrom_unfold)
qed

text \<open>Copying one side of the ranges sets exactly the included bytes to that side.\<close>

abbreviation copyRanges :: "(page_byte_range \<Rightarrow> byte list) \<Rightarrow> page_byte_range list \<Rightarrow> page \<Rightarrow> page" where
  "copyRanges side ranges \<equiv> fold (\<lambda>rg p. overwrite p (unat (rgOffset rg)) (side rg)) ranges"

lemma copyRanges_delta:
  assumes side: "\<And>s e. s < e \<Longrightarrow> e \<le> PAGE_SIZE \<Longrightarrow> side (rangeAt b a s e) = subspan q s (e - s)"
    and len: "length b = PAGE_SIZE" "length a = PAGE_SIZE" "length q = PAGE_SIZE" "length p = PAGE_SIZE"
  shows "copyRanges side (deltaFrom inc b a off) p = map (\<lambda>i. if off \<le> i \<and> inc i then q ! i else p ! i) [0..<PAGE_SIZE]"
  using len(4)
proof (induction "PAGE_SIZE - off" arbitrary: off p rule: less_induct)
  case less
  consider "PAGE_SIZE \<le> off" | "off < PAGE_SIZE" "\<not> inc off" | "off < PAGE_SIZE" "inc off" by linarith
  then show ?case
  proof cases
    case 1
    then show ?thesis using less(2) by (intro nth_equalityI) (simp_all add: deltaFrom_unfold)
  next
    case 2
    then have "copyRanges side (deltaFrom inc b a (off + 1)) p = map (\<lambda>i. if off + 1 \<le> i \<and> inc i then q ! i else p ! i) [0..<PAGE_SIZE]"
      using less(2) by (intro less(1)) simp_all
    then show ?thesis using 2 by (auto simp: deltaFrom_unfold Suc_le_eq le_less)
  next
    case 3
    let ?e = "runEnd inc off" and ?p = "overwrite p off (subspan q off (runEnd inc off - off))"
    have e: "off < ?e" "?e \<le> PAGE_SIZE" using 3 runEnd_gt runEnd_le by simp_all
    then have l: "length (subspan q off (?e - off)) = ?e - off" using len(3) by simp
    have "copyRanges side (deltaFrom inc b a off) p = copyRanges side (deltaFrom inc b a ?e) ?p"
      using 3 e rangeAt_fields(1) [OF e len(1,2)] by (simp add: deltaFrom_unfold side)
    also have "\<dots> = map (\<lambda>i. if ?e \<le> i \<and> inc i then q ! i else ?p ! i) [0..<PAGE_SIZE]"
      using e l less(2) by (intro less(1)) simp_all
    also have "\<dots> = map (\<lambda>i. if off \<le> i \<and> inc i then q ! i else p ! i) [0..<PAGE_SIZE]"
      using e l less(2) len(3) runEnd_inc [of off _ inc] by (auto simp: nth_overwrite nth_subspan)
    finally show ?thesis .
  qed
qed

lemma delta_applies:
  assumes d: "computePageDelta before after required = Inr ranges"
    and len: "length before = PAGE_SIZE" "length after = PAGE_SIZE"
    and v: "pdPageId v \<noteq> INVALID_PAGE_ID" "pdExisted v \<or> all_zero before" "pdRanges v = ranges" "ranges \<noteq> []"
    and p: "length p = PAGE_SIZE"
  shows "applyPageDeltaAfter p v =
      Inr (map (\<lambda>i. if included before after required i then after ! i else p ! i) [0..<PAGE_SIZE])"
    and "applyPageDeltaBefore p v =
      Inr (map (\<lambda>i. if included before after required i then before ! i else p ! i) [0..<PAGE_SIZE])"
    and "validateDeltaRanges v k = Inr ()"
proof -
  let ?d = "deltaFrom (included before after required) before after 0"
  have r: "ranges = ?d" using d by (auto simp: computePageDelta_def deltaLoop_from split: if_splits)
  have ok: "validateDeltaRanges v k = Inr ()" for k
    using v r deltaFrom_count deltaFrom_valid [OF len v(2), of True] by (simp add: validateDeltaRanges_def not_less)
  show "validateDeltaRanges v k = Inr ()" by (rule ok)
  have "copyRanges rgAfter ?d p = map (\<lambda>i. if 0 \<le> i \<and> included before after required i then after ! i else p ! i) [0..<PAGE_SIZE]"
    by (rule copyRanges_delta) (simp_all add: len p rangeAt_def)
  then show "applyPageDeltaAfter p v =
      Inr (map (\<lambda>i. if included before after required i then after ! i else p ! i) [0..<PAGE_SIZE])"
    using ok v(3) r by (simp add: applyPageDeltaAfter_def)
  have "copyRanges rgBefore ?d p = map (\<lambda>i. if 0 \<le> i \<and> included before after required i then before ! i else p ! i) [0..<PAGE_SIZE]"
    by (rule copyRanges_delta) (simp_all add: len p rangeAt_def)
  then show "applyPageDeltaBefore p v =
      Inr (map (\<lambda>i. if included before after required i then before ! i else p ! i) [0..<PAGE_SIZE])"
    using ok v(3) r by (simp add: applyPageDeltaBefore_def)
qed

section \<open>The byte range codec\<close>

definition rangeBytes :: "bool \<Rightarrow> page_byte_range \<Rightarrow> byte list" where
  "rangeBytes existed rg = le_bytes 2 (rgOffset rg) @ le_bytes 2 (rgLength rg) @
     (if existed then rgBefore rg else []) @ rgAfter rg"

abbreviation rangesBytes :: "bool \<Rightarrow> page_byte_range list \<Rightarrow> byte list" where
  "rangesBytes existed ranges \<equiv> concat (map (rangeBytes existed) ranges)"

text \<open>What the validation loop guarantees of each range.\<close>

definition rangeOk :: "bool \<Rightarrow> page_byte_range \<Rightarrow> bool" where
  "rangeOk existed rg \<longleftrightarrow> 0 < unat (rgLength rg) \<and> unat (rgLength rg) \<le> PAGE_SIZE \<and>
     length (rgBefore rg) = unat (rgLength rg) \<and> length (rgAfter rg) = unat (rgLength rg) \<and>
     (existed \<or> all_zero (rgBefore rg))"

lemma validateRangeLoop_ok:
  assumes "validateRangeLoop existed k prev first ranges = Inr ()"
  shows "list_all (rangeOk existed) ranges"
    and "sum_list (map (\<lambda>rg. unat (rgLength rg)) ranges) \<le> PAGE_SIZE - (if first then 0 else prev)"
  using assms
proof (induction existed k prev first ranges rule: validateRangeLoop.induct)
  case (2 existed k prev first rg ranges)
  case 1
  with 2 show ?case by (auto simp: rangeOk_def Let_def split: if_splits)
next
  case (2 existed k prev first rg ranges)
  case 2
  then have "sum_list (map (\<lambda>rg. unat (rgLength rg)) ranges) \<le> PAGE_SIZE - (unat (rgOffset rg) + unat (rgLength rg))"
    using "2.IH" by (auto simp: Let_def split: if_splits)
  moreover have "first \<or> prev < unat (rgOffset rg)" "unat (rgLength rg) \<le> PAGE_SIZE - unat (rgOffset rg)"
      "unat (rgOffset rg) < PAGE_SIZE"
    using 2 by (auto simp: Let_def split: if_splits)
  ultimately show ?case by auto
qed simp_all

lemma length_rangeBytes: "rangeOk existed rg \<Longrightarrow> length (rangeBytes existed rg) = 4 + copiesOf existed * unat (rgLength rg)"
  by (simp add: rangeOk_def rangeBytes_def copiesOf_def)

lemma length_rangesBytes:
  "list_all (rangeOk existed) ranges \<Longrightarrow>
   length (rangesBytes existed ranges) = 4 * length ranges + copiesOf existed * sum_list (map (\<lambda>rg. unat (rgLength rg)) ranges)"
  by (induction ranges) (simp_all add: length_rangeBytes algebra_simps)

lemma writeRanges_eq:
  "list_all (rangeOk existed) ranges \<Longrightarrow> cursor + length (rangesBytes existed ranges) \<le> length b \<Longrightarrow>
   writeRanges existed b cursor ranges = overwrite b cursor (rangesBytes existed ranges)"
proof (induction existed b cursor ranges rule: writeRanges.induct)
  case (1 existed b cursor)
  then show ?case by (simp add: overwrite_def)
next
  case (2 existed b cursor rg ranges)
  have n: "length (rangeBytes existed rg) = 4 + (if existed then length (rgBefore rg) else 0) + length (rgAfter rg)"
    by (simp add: rangeBytes_def)
  have fits: "cursor + (4 + (if existed then length (rgBefore rg) else 0) + length (rgAfter rg)) + length (rangesBytes existed ranges) \<le> length b"
    using 2(3) n by simp
  let ?b2 = "put16 (put16 b cursor (rgOffset rg)) (cursor + 2) (rgLength rg)"
  have b2: "?b2 = overwrite b cursor (le_bytes 2 (rgOffset rg) @ le_bytes 2 (rgLength rg))"
    using fits by (simp add: put_le_overwrite overwrite_overwrite)
  let ?b3 = "if existed then overwrite ?b2 (cursor + 4) (rgBefore rg) else ?b2"
  have b3: "?b3 = overwrite b cursor (le_bytes 2 (rgOffset rg) @ le_bytes 2 (rgLength rg) @ (if existed then rgBefore rg else []))"
    unfolding b2 using fits by (auto simp: overwrite_overwrite)
  let ?c3 = "if existed then cursor + 4 + length (rgBefore rg) else cursor + 4"
  have b4: "overwrite ?b3 ?c3 (rgAfter rg) = overwrite b cursor (rangeBytes existed rg)"
    unfolding b3 using fits by (subst overwrite_overwrite) (auto simp: rangeBytes_def)
  have c4: "?c3 + length (rgAfter rg) = cursor + length (rangeBytes existed rg)" using n by simp
  have "writeRanges existed b cursor (rg # ranges) =
      writeRanges existed (overwrite b cursor (rangeBytes existed rg)) (cursor + length (rangeBytes existed rg)) ranges"
    unfolding writeRanges.simps Let_def b4 c4 ..
  also have "\<dots> = overwrite (overwrite b cursor (rangeBytes existed rg)) (cursor + length (rangeBytes existed rg)) (rangesBytes existed ranges)"
    using 2(1) [OF refl refl refl refl refl refl, unfolded b4 c4] 2(2) fits n by simp
  also have "\<dots> = overwrite b cursor (rangesBytes existed (rg # ranges))"
    using fits n by (simp add: overwrite_overwrite)
  finally show ?case .
qed

lemma readRanges_bytes:
  "list_all (rangeOk existed) ranges \<Longrightarrow> length pre = cursor \<Longrightarrow> b = pre @ rangesBytes existed ranges @ post \<Longrightarrow>
   readRanges name existed b (length ranges) cursor = Inr (ranges, cursor + length (rangesBytes existed ranges))"
proof (induction ranges arbitrary: pre cursor)
  case (Cons rg ranges)
  let ?n = "unat (rgLength rg)"
  have rg: "rangeOk existed rg" using Cons.prems by simp
  then have n: "0 < ?n" "?n \<le> PAGE_SIZE" "length (rgBefore rg) = ?n" "length (rgAfter rg) = ?n"
    and z: "existed \<or> rgBefore rg = replicate ?n 0"
    by (auto simp: rangeOk_def all_zero_iff_replicate)
  note lb = length_rangeBytes [OF rg]
  have b: "b = pre @ rangeBytes existed rg @ (rangesBytes existed ranges @ post)" using Cons.prems(3) by simp
  have bl: "length b = cursor + (4 + copiesOf existed * ?n) + length (rangesBytes existed ranges @ post)"
    using Cons.prems(2) lb by (simp add: b)
  have o: "get16 b cursor = rgOffset rg" "get16 b (cursor + 2) = rgLength rg"
    unfolding b rangeBytes_def using Cons.prems(2) by (simp_all add: get_le_skip get_le_append_right)
  have data: "subspan b (cursor + 4) (copiesOf existed * ?n) = (if existed then rgBefore rg else []) @ rgAfter rg"
    unfolding b rangeBytes_def using Cons.prems(2) n by (simp add: subspan_def copiesOf_def)
  have after: "subspan b (if existed then cursor + 4 + ?n else cursor + 4) ?n = rgAfter rg"
    unfolding b rangeBytes_def using Cons.prems(2) n by (simp add: subspan_def)
  have before: "(if existed then subspan b (cursor + 4) ?n else replicate ?n 0) = rgBefore rg"
    unfolding b rangeBytes_def using Cons.prems(2) n z by (auto simp: subspan_def)
  have fits: "?n \<le> (length b - (cursor + 4)) div copiesOf existed" using bl by (simp add: copiesOf_def)
  have rest: "readRanges name existed b (length ranges) (cursor + (4 + copiesOf existed * ?n))
      = Inr (ranges, cursor + (4 + copiesOf existed * ?n) + length (rangesBytes existed ranges))"
    using Cons.prems lb by (intro Cons.IH [of "pre @ rangeBytes existed rg"]) simp_all
  have cur: "(if existed then cursor + 4 + ?n else cursor + 4) + ?n = cursor + (4 + copiesOf existed * ?n)"
    by (simp add: copiesOf_def)
  have h: "\<not> length b - cursor < 4" "\<not> (?n = 0 \<or> PAGE_SIZE < ?n \<or> length b < cursor + 4 \<or> (length b - (cursor + 4)) div copiesOf existed < ?n)"
    using bl n fits by simp_all
  show ?case
    unfolding list.size add_0_right add_Suc_right readRanges.simps Let_def o
    using h by (simp only: if_False after before cur rest res_bind_simps split) (simp add: lb)
qed simp

lemma readRanges_inv:
  "readRanges name existed b n cursor = Inr (ranges, stop) \<Longrightarrow> cursor \<le> length b \<Longrightarrow>
   length ranges = n \<and> stop = cursor + length (rangesBytes existed ranges) \<and> stop \<le> length b \<and>
   subspan b cursor (length (rangesBytes existed ranges)) = rangesBytes existed ranges"
proof (induction name existed b n cursor arbitrary: ranges rule: readRanges.induct)
  case (2 name existed b n cursor)
  let ?o = "get16 b cursor" and ?l = "get16 b (cursor + 2)"
  let ?n = "unat ?l" and ?c3 = "if existed then cursor + 4 + unat ?l else cursor + 4"
  from "2.prems"(1) have g: "\<not> length b - cursor < 4" "\<not> (?n = 0 \<or> PAGE_SIZE < ?n \<or> length b < cursor + 4 \<or> (length b - (cursor + 4)) div copiesOf existed < ?n)"
    by (auto simp: Let_def split: if_splits)
  with "2.prems"(1) obtain rest where rest: "readRanges name existed b n (?c3 + ?n) = Inr (rest, stop)"
    and r: "ranges = \<lparr>rgOffset = ?o, rgLength = ?l, rgBefore = (if existed then subspan b (cursor + 4) ?n else replicate ?n 0),
        rgAfter = subspan b ?c3 ?n\<rparr> # rest"
    by (auto simp: Let_def res_simps split: if_splits prod.splits)
  have fits: "?c3 + ?n \<le> length b"
  proof -
    have "?n * copiesOf existed \<le> length b - (cursor + 4)" using g(2) by (simp add: less_eq_div_iff_mult_less_eq copiesOf_def not_less split: if_splits)
    then show ?thesis using g(2) by (auto simp: copiesOf_def split: if_splits)
  qed
  have IH: "length rest = n \<and> stop = ?c3 + ?n + length (rangesBytes existed rest) \<and> stop \<le> length b \<and>
      subspan b (?c3 + ?n) (length (rangesBytes existed rest)) = rangesBytes existed rest"
    using g rest fits by (intro "2.IH") auto
  let ?rg = "hd ranges"
  have len: "length (rangeBytes existed ?rg) = ?c3 + ?n - cursor" using r fits by (cases existed) (simp_all add: rangeBytes_def)
  have "subspan b cursor (?c3 + ?n - cursor) = rangeBytes existed ?rg"
  proof -
    have "le_bytes 2 ?o = subspan b cursor 2" "le_bytes 2 ?l = subspan b (cursor + 2) 2"
      using g by (simp_all add: le_bytes_get_le)
    then show ?thesis
      using r fits subspan_add [of b cursor 2 2] subspan_add [of b cursor 4 ?n] subspan_add [of b cursor "4 + ?n" ?n]
      by (cases existed) (simp_all add: rangeBytes_def add.assoc)
  qed
  then have "subspan b cursor (?c3 + ?n - cursor + length (rangesBytes existed rest)) = rangeBytes existed ?rg @ rangesBytes existed rest"
    using IH unfolding subspan_add by (cases existed) (simp_all add: add.assoc)
  then show ?case using IH r len by simp
qed simp

lemma sizeLoop_eq:
  "list_all (rangeOk existed) ranges \<Longrightarrow> s + length (rangesBytes existed ranges) \<le> MAX_PAYLOAD_SIZE \<Longrightarrow>
   sizeLoop name (copiesOf existed) s ranges = Inr (s + length (rangesBytes existed ranges))"
proof (induction ranges arbitrary: s)
  case (Cons rg ranges)
  let ?n = "unat (rgLength rg)"
  have rg: "rangeOk existed rg" using Cons.prems by simp
  have n: "?n \<le> PAGE_SIZE" using rg by (simp add: rangeOk_def)
  have m: "checkedMultiply ?n (copiesOf existed) msg = Inr (?n * copiesOf existed)" for msg
  proof -
    have "copiesOf existed * ?n \<le> 2 ^ 64 - 1" using n by (simp add: copiesOf_def)
    then have "copiesOf existed \<le> (2 ^ 64 - 1) div ?n" if "?n \<noteq> 0" using that by (simp add: less_eq_div_iff_mult_less_eq)
    then show ?thesis by (cases "?n = 0") (simp_all add: checkedMultiply_def not_less)
  qed
  have l: "length (rangeBytes existed rg) = 4 + ?n * copiesOf existed" using length_rangeBytes [OF rg] by (simp add: mult.commute)
  have b: "s + 4 + ?n * copiesOf existed + length (rangesBytes existed ranges) \<le> MAX_PAYLOAD_SIZE" using Cons.prems(2) l by simp
  have a: "checkedAdd x y msg = Inr (x + y)" if "x + y \<le> MAX_PAYLOAD_SIZE" for x y msg
    using that by (simp add: checkedAdd_def)
  have "sizeLoop name (copiesOf existed) (s + 4 + ?n * copiesOf existed) ranges
      = Inr (s + 4 + ?n * copiesOf existed + length (rangesBytes existed ranges))"
    using b Cons.prems by (intro Cons.IH) simp_all
  then show ?case using b l by (simp add: m a)
qed simp

lemma valid_ranges:
  assumes "validateDeltaRanges v k = Inr ()"
  shows "list_all (rangeOk (pdExisted v)) (pdRanges v)" "length (pdRanges v) \<le> MAX_RANGE_COUNT" "pdRanges v \<noteq> []"
    "length (rangesBytes (pdExisted v) (pdRanges v)) \<le> 16384" "pdPageId v \<noteq> INVALID_PAGE_ID"
proof -
  have l: "validateRangeLoop (pdExisted v) k 0 True (pdRanges v) = Inr ()"
    using assms by (simp add: validateDeltaRanges_def split: if_splits)
  note r = validateRangeLoop_ok [OF l]
  show ok: "list_all (rangeOk (pdExisted v)) (pdRanges v)" by (rule r(1))
  show c: "length (pdRanges v) \<le> MAX_RANGE_COUNT" "pdRanges v \<noteq> []" "pdPageId v \<noteq> INVALID_PAGE_ID"
    using assms by (simp_all add: validateDeltaRanges_def split: if_splits)
  show "length (rangesBytes (pdExisted v) (pdRanges v)) \<le> 16384"
    using r(2) c(1) unfolding length_rangesBytes [OF ok] by (cases "pdExisted v") (simp_all add: copiesOf_def)
qed

lemma validateRangeLoop_kind:
  "validateRangeLoop existed k prev first ranges = Inr u \<longleftrightarrow> validateRangeLoop existed k' prev first ranges = Inr u"
  by (cases existed; induction ranges arbitrary: prev first) (simp_all add: Let_def)

lemma validateDeltaRanges_kind: "validateDeltaRanges v k = Inr u \<longleftrightarrow> validateDeltaRanges v k' = Inr u"
  using validateRangeLoop_kind [of "pdExisted v" k 0 True "pdRanges v" u k'] by (simp add: validateDeltaRanges_def)

lemma delta_size:
  assumes "validateDeltaRanges v WalInvalidArgument = Inr ()"
  shows "pageDeltaUpdatePayloadEncodedSize v = Inr (24 + length (rangesBytes (pdExisted v) (pdRanges v)))"
  using assms valid_ranges [OF assms] by (simp add: pageDeltaUpdatePayloadEncodedSize_def sizeLoop_eq)

lemma delta_encodes:
  "encodePageDeltaUpdateLogPayload v = Inr b \<longleftrightarrow> validateDeltaRanges v WalInvalidArgument = Inr () \<and>
   b = overwrite (put16 (put16 (put32 (put32 (put32 (put32
     (replicate (24 + length (rangesBytes (pdExisted v) (pdRanges v))) 0) 0 (pdPageId v)) 4 (existedFlag (pdExisted v))) 8 4096)
     12 (of_nat (length (pdRanges v)))) 16 1) 18 24) 24 (rangesBytes (pdExisted v) (pdRanges v))"
    (is "_ \<longleftrightarrow> ?v \<and> b = ?b")
proof (cases ?v)
  case True
  then show ?thesis using valid_ranges [OF True]
    by (auto simp: encodePageDeltaUpdateLogPayload_def delta_size writeRanges_eq Let_def)
next
  case False
  then show ?thesis
    by (auto simp: encodePageDeltaUpdateLogPayload_def pageDeltaUpdatePayloadEncodedSize_def res_simps split: sum.splits)
qed

lemma delta_exact: "decodePageDeltaUpdateLogPayload b = Inr v \<longleftrightarrow> encodePageDeltaUpdateLogPayload v = Inr b"
proof
  assume d: "decodePageDeltaUpdateLogPayload b = Inr v"
  then obtain ranges where f: "24 \<le> length b" "get32 b 4 AND NOT 1 = 0" "get32 b 8 = 4096" "get16 b 16 = 1" "get16 b 18 = 24" "get32 b 20 = 0"
    and r: "readRanges ''PAGE_DELTA_UPDATE'' (get32 b 4 AND 1 \<noteq> 0) b (unat (get32 b 12)) 24 = Inr (ranges, length b)"
    and v: "v = \<lparr>pdPageId = get32 b 0, pdExisted = (get32 b 4 AND 1 \<noteq> 0), pdRanges = ranges\<rparr>"
    and k: "validateDeltaRanges v WalCorruptRecord = Inr ()"
    by (auto simp: decodePageDeltaUpdateLogPayload_def Let_def res_simps not_less split: if_splits prod.splits)
  let ?rb = "rangesBytes (pdExisted v) (pdRanges v)"
  have i: "length ranges = unat (get32 b 12)" "length b = 24 + length ?rb" "subspan b 24 (length ?rb) = ?rb"
    using readRanges_inv [OF r f(1)] by (simp_all add: v)
  have c: "of_nat (length ranges) = get32 b 12" using i(1) by simp
  have "b = overwrite (put16 (put16 (put32 (put32 (put32 (put32 (replicate (24 + length ?rb) 0) 0 (pdPageId v))
      4 (existedFlag (pdExisted v))) 8 4096) 12 (of_nat (length (pdRanges v)))) 16 1) 18 24) 24 ?rb"
    by (rule fields_eqI [where fs = "[F32, F32, F32, F32, F16, F16, F32, Raw (length ?rb)]"])
      (use f i c flags_1 [OF f(2)] in \<open>simp_all add: layout_simps v\<close>)
  moreover have "validateDeltaRanges v WalInvalidArgument = Inr ()" using k validateDeltaRanges_kind by blast
  ultimately show "encodePageDeltaUpdateLogPayload v = Inr b" unfolding delta_encodes by blast
next
  assume e: "encodePageDeltaUpdateLogPayload v = Inr b"
  let ?rb = "rangesBytes (pdExisted v) (pdRanges v)"
  from e have k: "validateDeltaRanges v WalInvalidArgument = Inr ()"
    and b: "b = overwrite (put16 (put16 (put32 (put32 (put32 (put32 (replicate (24 + length ?rb) 0) 0 (pdPageId v))
      4 (existedFlag (pdExisted v))) 8 4096) 12 (of_nat (length (pdRanges v)))) 16 1) 18 24) 24 ?rb"
    by (simp_all add: delta_encodes)
  note ok = valid_ranges [OF k]
  have c: "unat (of_nat (length (pdRanges v)) :: u32) = length (pdRanges v)" using ok(2) by (simp add: unat_of_nat_small)
  have split: "b = take 24 b @ ?rb @ []" by (simp add: b overwrite_def)
  have r: "readRanges ''PAGE_DELTA_UPDATE'' (pdExisted v) b (length (pdRanges v)) 24 = Inr (pdRanges v, 24 + length ?rb)"
    by (rule readRanges_bytes [OF ok(1) _ split]) (simp add: b)
  have k': "validateDeltaRanges v WalCorruptRecord = Inr ()" using k validateDeltaRanges_kind by blast
  have f: "get32 b 0 = pdPageId v" "get32 b 4 = existedFlag (pdExisted v)" "get32 b 8 = 4096" "get32 b 12 = of_nat (length (pdRanges v))"
    "get16 b 16 = 1" "get16 b 18 = 24" "get32 b 20 = 0" "length b = 24 + length ?rb"
    by (simp_all add: b)
  show "decodePageDeltaUpdateLogPayload b = Inr v"
    unfolding decodePageDeltaUpdateLogPayload_def Let_def f c using r k' ok by (cases v) (simp add: f)
qed

lemma delta_v2_size:
  assumes "validateDeltaRanges (logicalDelta v) WalInvalidArgument = Inr ()" and "d2Existed v \<or> \<not> isValidLsn (d2BeforeLsn v)"
  shows "pageDeltaUpdateV2PayloadEncodedSize v = Inr (32 + length (rangesBytes (d2Existed v) (d2Ranges v)))"
  using assms valid_ranges [OF assms(1)]
  by (auto simp: pageDeltaUpdateV2PayloadEncodedSize_def sizeLoop_eq logicalDelta_def)

lemma delta_v2_encodes:
  "encodePageDeltaUpdateV2LogPayload v = Inr b \<longleftrightarrow> validateDeltaRanges (logicalDelta v) WalInvalidArgument = Inr () \<and>
   (d2Existed v \<or> \<not> isValidLsn (d2BeforeLsn v)) \<and>
   (\<exists>x. encodePersistentPageLsn (d2BeforeLsn v) = Inr x \<and>
   b = overwrite (put64 (put16 (put16 (put32 (put32 (put32 (put32
     (replicate (32 + length (rangesBytes (d2Existed v) (d2Ranges v))) 0) 0 (d2PageId v)) 4 (existedFlag (d2Existed v))) 8 4096)
     12 (of_nat (length (d2Ranges v)))) 16 1) 18 32) 24 x) 32 (rangesBytes (d2Existed v) (d2Ranges v)))"
    (is "_ \<longleftrightarrow> ?v \<and> ?n \<and> _")
proof (cases "?v \<and> ?n")
  case True
  then have ok: "list_all (rangeOk (d2Existed v)) (d2Ranges v)"
    using valid_ranges(1) [of "logicalDelta v" WalInvalidArgument] by (auto simp: logicalDelta_def)
  show ?thesis using True
    by (auto simp: encodePageDeltaUpdateV2LogPayload_def delta_v2_size writeRanges_eq [OF ok] Let_def res_simps)
next
  case False
  then show ?thesis
    by (auto simp: encodePageDeltaUpdateV2LogPayload_def pageDeltaUpdateV2PayloadEncodedSize_def res_simps split: sum.splits if_splits)
qed

lemma delta_v2_exact: "decodePageDeltaUpdateV2LogPayload b = Inr v \<longleftrightarrow> encodePageDeltaUpdateV2LogPayload v = Inr b"
proof
  assume d: "decodePageDeltaUpdateV2LogPayload b = Inr v"
  then obtain ranges l where f: "32 \<le> length b" "get32 b 4 AND NOT 1 = 0" "get32 b 8 = 4096" "get16 b 16 = 1" "get16 b 18 = 32" "get32 b 20 = 0"
    and r: "readRanges ''PAGE_DELTA_UPDATE_V2'' (get32 b 4 AND 1 \<noteq> 0) b (unat (get32 b 12)) 32 = Inr (ranges, length b)"
    and l: "decodeBeforePageLsn b 24 = Inr l"
    and v: "v = \<lparr>d2PageId = get32 b 0, d2Existed = (get32 b 4 AND 1 \<noteq> 0), d2BeforeLsn = l, d2Ranges = ranges\<rparr>"
    and k: "validateDeltaRanges (logicalDelta v) WalCorruptRecord = Inr ()" "d2Existed v \<or> \<not> isValidLsn (d2BeforeLsn v)"
    by (auto simp: decodePageDeltaUpdateV2LogPayload_def Let_def res_simps not_less split: if_splits prod.splits)
  let ?rb = "rangesBytes (d2Existed v) (d2Ranges v)"
  have i: "length ranges = unat (get32 b 12)" "length b = 32 + length ?rb" "subspan b 32 (length ?rb) = ?rb"
    using readRanges_inv [OF r f(1)] by (simp_all add: v)
  have c: "of_nat (length ranges) = get32 b 12" using i(1) by simp
  have "b = overwrite (put64 (put16 (put16 (put32 (put32 (put32 (put32 (replicate (32 + length ?rb) 0) 0 (d2PageId v))
      4 (existedFlag (d2Existed v))) 8 4096) 12 (of_nat (length (d2Ranges v)))) 16 1) 18 32) 24 (get64 b 24)) 32 ?rb"
    by (rule fields_eqI [where fs = "[F32, F32, F32, F32, F16, F16, F32, F64, Raw (length ?rb)]"])
      (use f i c flags_1 [OF f(2)] in \<open>simp_all add: layout_simps v\<close>)
  moreover have "validateDeltaRanges (logicalDelta v) WalInvalidArgument = Inr ()" using k(1) validateDeltaRanges_kind by blast
  moreover have "encodePersistentPageLsn (d2BeforeLsn v) = Inr (get64 b 24)" using l f(1) by (simp add: v before_lsn_exact)
  ultimately show "encodePageDeltaUpdateV2LogPayload v = Inr b" unfolding delta_v2_encodes using k(2) by blast
next
  assume e: "encodePageDeltaUpdateV2LogPayload v = Inr b"
  let ?rb = "rangesBytes (d2Existed v) (d2Ranges v)"
  from e obtain x where k: "validateDeltaRanges (logicalDelta v) WalInvalidArgument = Inr ()" "d2Existed v \<or> \<not> isValidLsn (d2BeforeLsn v)"
    and x: "encodePersistentPageLsn (d2BeforeLsn v) = Inr x"
    and b: "b = overwrite (put64 (put16 (put16 (put32 (put32 (put32 (put32 (replicate (32 + length ?rb) 0) 0 (d2PageId v))
      4 (existedFlag (d2Existed v))) 8 4096) 12 (of_nat (length (d2Ranges v)))) 16 1) 18 32) 24 x) 32 ?rb"
    by (auto simp: delta_v2_encodes)
  have ok: "list_all (rangeOk (d2Existed v)) (d2Ranges v)" "length (d2Ranges v) \<le> MAX_RANGE_COUNT" "d2Ranges v \<noteq> []"
    using valid_ranges [OF k(1)] by (simp_all add: logicalDelta_def)
  have c: "unat (of_nat (length (d2Ranges v)) :: u32) = length (d2Ranges v)" using ok(2) by (simp add: unat_of_nat_small)
  have split: "b = take 32 b @ ?rb @ []" by (simp add: b overwrite_def)
  have r: "readRanges ''PAGE_DELTA_UPDATE_V2'' (d2Existed v) b (length (d2Ranges v)) 32 = Inr (d2Ranges v, 32 + length ?rb)"
    by (rule readRanges_bytes [OF ok(1) _ split]) (simp add: b)
  have k': "validateDeltaRanges (logicalDelta v) WalCorruptRecord = Inr ()" using k(1) validateDeltaRanges_kind by blast
  have f: "get32 b 0 = d2PageId v" "get32 b 4 = existedFlag (d2Existed v)" "get32 b 8 = 4096" "get32 b 12 = of_nat (length (d2Ranges v))"
    "get16 b 16 = 1" "get16 b 18 = 32" "get32 b 20 = 0" "get64 b 24 = x" "length b = 32 + length ?rb"
    by (simp_all add: b)
  have l: "decodeBeforePageLsn b 24 = Inr (d2BeforeLsn v)" using x by (subst before_lsn_exact) (simp_all add: f)
  show "decodePageDeltaUpdateV2LogPayload b = Inr v"
    unfolding decodePageDeltaUpdateV2LogPayload_def Let_def f c l using r k' k(2) ok by (cases v) (auto simp: f)
qed

section \<open>The adaptive choice\<close>

lemma changedLoop_eq:
  "n + sum_list (map (\<lambda>rg. unat (rgLength rg)) ranges) \<le> PAGE_SIZE \<Longrightarrow>
   changedLoop name n ranges = Inr (n + sum_list (map (\<lambda>rg. unat (rgLength rg)) ranges))"
  by (induction ranges arbitrary: n) (simp_all add: checkedAdd_def)

lemma valid_changed:
  assumes "validateDeltaRanges v k = Inr ()"
  shows "changedLoop name 0 (pdRanges v) = Inr (sum_list (map (\<lambda>rg. unat (rgLength rg)) (pdRanges v)))"
proof -
  have "validateRangeLoop (pdExisted v) k 0 True (pdRanges v) = Inr ()"
    using assms by (simp add: validateDeltaRanges_def split: if_splits)
  then show ?thesis using changedLoop_eq [of 0] validateRangeLoop_ok(2) by fastforce
qed

lemma select_eq:
  assumes "validateDeltaRanges v WalInvalidArgument = Inr ()"
  shows "selectAdaptivePageUpdateEncoding v = Inr
    \<lparr>adRecordType = (if 72 + length (rangesBytes (pdExisted v) (pdRanges v)) < FULL_PAGE_UPDATE_RECORD_SIZE
       then PAGE_DELTA_UPDATE_TYPE else PAGE_UPDATE_TYPE),
     adFullPageRecordBytes = FULL_PAGE_UPDATE_RECORD_SIZE,
     adDeltaRecordBytes = 72 + length (rangesBytes (pdExisted v) (pdRanges v)),
     adRangeCount = length (pdRanges v),
     adChangedByteCount = sum_list (map (\<lambda>rg. unat (rgLength rg)) (pdRanges v))\<rparr>"
  using valid_ranges(4) [OF assms]
  by (simp add: selectAdaptivePageUpdateEncoding_def pageDeltaUpdateRecordEncodedSize_def delta_size [OF assms]
      valid_changed [OF assms] checkedAdd_def)

section \<open>Properties\<close>

text \<open>
  C11: The byte ranges logged for a page redo and undo its change exactly. Whatever mask of required
  offsets is given, the ranges computed from a before and an after image are accepted by the
  validation, survive their encoding, and turn every page that agrees with the after image outside the
  ranges into the after image, and every page that agrees with the before image outside them into the
  before image; no ranges are computed only when the images are equal.
\<close>

theorem page_delta_redo_undo:
  assumes "length before = PAGE_SIZE" and "length after = PAGE_SIZE"
    and "computePageDelta before after required = Inr ranges"
    and "pdPageId v \<noteq> INVALID_PAGE_ID" and "pdExisted v \<or> all_zero before" and "pdRanges v = ranges"
  shows "if ranges = [] then before = after
    else (\<forall>p. length p = PAGE_SIZE \<and> (\<forall>i<PAGE_SIZE. included before after required i \<or> p ! i = after ! i)
             \<longrightarrow> applyPageDeltaAfter p v = Inr after)
       \<and> (\<forall>p. length p = PAGE_SIZE \<and> (\<forall>i<PAGE_SIZE. included before after required i \<or> p ! i = before ! i)
             \<longrightarrow> applyPageDeltaBefore p v = Inr before)
       \<and> (\<exists>bytes. encodePageDeltaUpdateLogPayload v = Inr bytes \<and> decodePageDeltaUpdateLogPayload bytes = Inr v)"
proof (cases "ranges = []")
  case True
  have "ranges = deltaFrom (included before after required) before after 0"
    using assms(3) by (auto simp: computePageDelta_def deltaLoop_from split: if_splits)
  with True have "\<not> included before after required i" if "i < PAGE_SIZE" for i
    using that deltaFrom_Nil [of "included before after required" before after 0] by simp
  then have "before = after" using assms(1,2) by (intro nth_equalityI) (auto simp: included_def)
  with True show ?thesis by simp
next
  case False
  note ap = delta_applies [OF assms(3,1,2,4,5,6) False]
  have pick: "map (\<lambda>i. if included before after required i then q ! i else p ! i) [0..<PAGE_SIZE] = q"
    if "length q = PAGE_SIZE" "\<forall>i<PAGE_SIZE. included before after required i \<or> p ! i = q ! i" for p q
    using that by (intro nth_equalityI) auto
  have "\<exists>bytes. encodePageDeltaUpdateLogPayload v = Inr bytes"
    using ap(3) [OF assms(1)] by (simp add: delta_encodes)
  then show ?thesis
    using False assms(1,2) ap(1,2) pick by (auto simp: delta_exact)
qed

definition samplePage :: page where
  "samplePage = (replicate PAGE_SIZE 0)[5 := 1]"

theorem page_delta_redo_undo_witness:
  "\<exists>ranges. computePageDelta (replicate PAGE_SIZE 0) samplePage [] = Inr ranges \<and> ranges \<noteq> []
     \<and> applyPageDeltaAfter (replicate PAGE_SIZE 0) \<lparr>pdPageId = 7, pdExisted = True, pdRanges = ranges\<rparr> = Inr samplePage
     \<and> applyPageDeltaBefore samplePage \<lparr>pdPageId = 7, pdExisted = True, pdRanges = ranges\<rparr> = Inr (replicate PAGE_SIZE 0)"
proof -
  obtain ranges where r: "computePageDelta (replicate PAGE_SIZE 0) samplePage [] = Inr ranges" by (simp add: computePageDelta_def)
  let ?v = "\<lparr>pdPageId = 7, pdExisted = True, pdRanges = ranges\<rparr>"
  have len: "length (replicate PAGE_SIZE (0 :: byte)) = PAGE_SIZE" "length samplePage = PAGE_SIZE" by (simp_all add: samplePage_def)
  have ne: "replicate PAGE_SIZE 0 \<noteq> samplePage"
  proof
    assume "replicate PAGE_SIZE 0 = samplePage"
    then have "replicate PAGE_SIZE 0 ! 5 = samplePage ! 5" by (rule arg_cong)
    then show False by (simp add: samplePage_def)
  qed
  note t = page_delta_redo_undo [OF len r, of ?v]
  have n: "ranges \<noteq> []" using t ne by auto
  have "applyPageDeltaAfter (replicate PAGE_SIZE 0) ?v = Inr samplePage" "applyPageDeltaBefore samplePage ?v = Inr (replicate PAGE_SIZE 0)"
    using t n len by (simp_all add: included_def)
  with r n show ?thesis by blast
qed

text \<open>
  The adaptive mode logs the shorter record. When it has decided, the byte range payload encodes, both
  sizes it reports are the sizes of the records, and it chooses the byte range record exactly when that
  record is shorter than the full page record.
\<close>

theorem adaptive_choice_is_shorter:
  assumes "selectAdaptivePageUpdateEncoding v = Inr d"
    and "length (puBefore u) = PAGE_SIZE" and "length (puAfter u) = PAGE_SIZE" and "encodePageUpdateLogPayload u = Inr full"
  shows "\<exists>delta. encodePageDeltaUpdateLogPayload v = Inr delta
    \<and> adDeltaRecordBytes d = REC_HEADER_SIZE + length delta \<and> adFullPageRecordBytes d = REC_HEADER_SIZE + length full
    \<and> adRecordType d = (if length delta < length full then PAGE_DELTA_UPDATE_TYPE else PAGE_UPDATE_TYPE)"
proof -
  have ok: "validateDeltaRanges v WalInvalidArgument = Inr ()"
    using assms(1) by (auto simp: selectAdaptivePageUpdateEncoding_def pageDeltaUpdateRecordEncodedSize_def
      pageDeltaUpdatePayloadEncodedSize_def res_simps)
  obtain delta where delta: "encodePageDeltaUpdateLogPayload v = Inr delta" using ok by (simp add: delta_encodes)
  then have "length delta = 24 + length (rangesBytes (pdExisted v) (pdRanges v))" by (auto simp: delta_encodes)
  moreover have "length full = PAGE_UPDATE_PAYLOAD_SIZE"
    using assms(2-4) by (auto simp: encodePageUpdateLogPayload_def Let_def split: if_splits)
  ultimately show ?thesis using assms(1) delta unfolding select_eq [OF ok] by auto
qed

theorem adaptive_choice_is_shorter_witness:
  "\<exists>d delta. selectAdaptivePageUpdateEncoding
      \<lparr>pdPageId = 7, pdExisted = True, pdRanges = [\<lparr>rgOffset = 5, rgLength = 1, rgBefore = [0], rgAfter = [1]\<rparr>]\<rparr> = Inr d
    \<and> encodePageDeltaUpdateLogPayload
      \<lparr>pdPageId = 7, pdExisted = True, pdRanges = [\<lparr>rgOffset = 5, rgLength = 1, rgBefore = [0], rgAfter = [1]\<rparr>]\<rparr> = Inr delta
    \<and> adRecordType d = PAGE_DELTA_UPDATE_TYPE"
proof -
  let ?v = "\<lparr>pdPageId = 7, pdExisted = True, pdRanges = [\<lparr>rgOffset = 5, rgLength = 1, rgBefore = [0], rgAfter = [1]\<rparr>]\<rparr>"
  let ?u = "\<lparr>puPageId = 7, puExisted = True, puBefore = replicate PAGE_SIZE 0, puAfter = samplePage\<rparr>"
  have ok: "validateDeltaRanges ?v WalInvalidArgument = Inr ()" by (simp add: validateDeltaRanges_def Let_def)
  obtain full where full: "encodePageUpdateLogPayload ?u = Inr full" "length full = PAGE_UPDATE_PAYLOAD_SIZE"
    by (simp add: encodePageUpdateLogPayload_def Let_def samplePage_def)
  obtain d where d: "selectAdaptivePageUpdateEncoding ?v = Inr d" using select_eq [OF ok] by blast
  obtain delta where e: "encodePageDeltaUpdateLogPayload ?v = Inr delta"
      "adRecordType d = (if length delta < length full then PAGE_DELTA_UPDATE_TYPE else PAGE_UPDATE_TYPE)"
    using adaptive_choice_is_shorter [OF d _ _ full(1)] by (auto simp: samplePage_def)
  have "length delta = 30" using e(1) by (auto simp: delta_encodes rangeBytes_def)
  with d e full(2) show ?thesis by auto
qed

text \<open>
  C16: Every transactional log payload has exactly one encoding: its decoder returns a value for a byte string
  precisely when its encoder produces that byte string for that value, for page reservations, begin records,
  full page and byte range updates of both versions, and compensation records.
\<close>

theorem log_payload_encodings_exact:
  "(decodePageReserveLogPayload b = Inr reserve \<longleftrightarrow> encodePageReserveLogPayload reserve = Inr b)
   \<and> (decodeBeginLogPayload b = Inr begins \<longleftrightarrow>
        bgStartPageCount begins \<noteq> 0 \<and> bgStartPageCount begins \<le> 0xFFFFFFFF \<and> b = encodeBeginLogPayload begins)
   \<and> (decodePageUpdateLogPayload b = Inr update \<longleftrightarrow> length (puBefore update) = PAGE_SIZE
        \<and> length (puAfter update) = PAGE_SIZE \<and> encodePageUpdateLogPayload update = Inr b)
   \<and> (decodePageUpdateV2LogPayload b = Inr update2 \<longleftrightarrow> length (p2Before update2) = PAGE_SIZE
        \<and> length (p2After update2) = PAGE_SIZE \<and> encodePageUpdateV2LogPayload update2 = Inr b)
   \<and> (decodePageDeltaUpdateLogPayload b = Inr delta \<longleftrightarrow> encodePageDeltaUpdateLogPayload delta = Inr b)
   \<and> (decodePageDeltaUpdateV2LogPayload b = Inr delta2 \<longleftrightarrow> encodePageDeltaUpdateV2LogPayload delta2 = Inr b)
   \<and> (decodeCompensationLogPayload b = Inr clr \<longleftrightarrow>
        length (clImage clr) = PAGE_SIZE \<and> encodeCompensationLogPayload clr = Inr b)"
  by (intro conjI page_reserve_exact begin_exact page_update_exact page_update_v2_exact delta_exact delta_v2_exact compensation_exact)

end
