(* ===== verification/Checkpoint_Log.thy ===== *)
theory Checkpoint_Log
  imports Field_Layout Buffer_Pool
begin

text \<open>
  The payloads of checkpoint records (\<open>include/minidb/checkpoint_types.hpp\<close>,
  \<open>include/minidb/checkpoint_log.hpp\<close>, \<open>src/checkpoint_log.cpp\<close>): the begin and end of a sharp checkpoint, and
  the begin and end of a fuzzy one, whose end carries the dirty page table and the active transaction
  table. A transaction's status is its 16-bit value, because the decoder casts any stored value to the
  enumeration before it validates it. The entries of the dirty page table are those of the pool's snapshot.

  The lemmas show that each payload has one encoding and is read back from it. The decoder of a sharp
  checkpoint's end is stricter than its encoder: it bounds the page count.
\<close>

declare add_2_eq_Suc [simp del] add_2_eq_Suc' [simp del]

section \<open>Payloads\<close>

record checkpoint_transaction_entry =
  ctTransactionId :: transaction_id
  ctStatus :: u16
  ctBeginLsn :: lsn
  ctLastLsn :: lsn
  ctStartPageCount :: u64

record checkpoint_begin_payload =
  kbCheckpointId :: u64
  kbPreviousEndLsn :: lsn
  kbWalStartOffset :: u64

record checkpoint_end_payload =
  keCheckpointId :: u64
  keBeginLsn :: lsn
  keDatabasePageCount :: u64
  keNextTransactionId :: transaction_id
  keRecoveryStartOffset :: u64

record fuzzy_begin_payload =
  fbCheckpointId :: u64
  fbPreviousEndLsn :: lsn

record fuzzy_end_payload =
  feCheckpointId :: u64
  feBeginLsn :: lsn
  feDatabasePageCount :: u64
  feNextTransactionId :: transaction_id
  feDirtyPages :: "dirty_page_entry list"
  feActiveTransactions :: "checkpoint_transaction_entry list"

abbreviation CHECKPOINT_BEGIN_TYPE :: u16 where "CHECKPOINT_BEGIN_TYPE \<equiv> 6"
abbreviation CHECKPOINT_END_TYPE :: u16 where "CHECKPOINT_END_TYPE \<equiv> 7"
abbreviation FUZZY_CHECKPOINT_BEGIN_TYPE :: u16 where "FUZZY_CHECKPOINT_BEGIN_TYPE \<equiv> 11"
abbreviation FUZZY_CHECKPOINT_END_TYPE :: u16 where "FUZZY_CHECKPOINT_END_TYPE \<equiv> 12"

abbreviation STATUS_ACTIVE :: u16 where "STATUS_ACTIVE \<equiv> 1"
abbreviation INVALID_CHECKPOINT_ID :: u64 where "INVALID_CHECKPOINT_ID \<equiv> 0"
abbreviation INVALID_TRANSACTION_ID :: u64 where "INVALID_TRANSACTION_ID \<equiv> 0"
abbreviation INVALID_WAL_OFFSET :: u64 where "INVALID_WAL_OFFSET \<equiv> 0xFFFFFFFFFFFFFFFF"
abbreviation DPT_ENTRY_SIZE :: nat where "DPT_ENTRY_SIZE \<equiv> 16"
abbreviation ATT_ENTRY_SIZE :: nat where "ATT_ENTRY_SIZE \<equiv> 48"
abbreviation FUZZY_END_HEADER_SIZE :: nat where "FUZZY_END_HEADER_SIZE \<equiv> 64"

section \<open>Sharp checkpoints\<close>

definition encodeCheckpointBeginLogPayload :: "checkpoint_begin_payload \<Rightarrow> byte list res" where
  "encodeCheckpointBeginLogPayload v =
     (if kbCheckpointId v = INVALID_CHECKPOINT_ID \<or> kbWalStartOffset v < 64 \<or> kbWalStartOffset v = INVALID_WAL_OFFSET
      then Inl (WalError WalInvalidArgument ''Invalid CHECKPOINT_BEGIN payload'')
      else Inr
        (let b0 = replicate 32 0;
             b1 = put64 b0 0 (kbCheckpointId v);
             b2 = put64 b1 8 (kbPreviousEndLsn v)
         in put64 b2 16 (kbWalStartOffset v)))"

definition decodeCheckpointBeginLogPayload :: "byte list \<Rightarrow> checkpoint_begin_payload res" where
  "decodeCheckpointBeginLogPayload b =
     (if length b \<noteq> 32 \<or> get64 b 24 \<noteq> 0
      then Inl (WalError WalCorruptRecord ''Malformed CHECKPOINT_BEGIN payload'')
      else
        let v = \<lparr>kbCheckpointId = get64 b 0, kbPreviousEndLsn = get64 b 8, kbWalStartOffset = get64 b 16\<rparr> in
        if kbCheckpointId v = INVALID_CHECKPOINT_ID \<or> kbWalStartOffset v < 64 \<or> kbWalStartOffset v = INVALID_WAL_OFFSET
        then Inl (WalError WalCorruptRecord ''Invalid CHECKPOINT_BEGIN fields'')
        else Inr v)"

definition encodeCheckpointEndLogPayload :: "checkpoint_end_payload \<Rightarrow> byte list res" where
  "encodeCheckpointEndLogPayload v =
     (if keCheckpointId v = INVALID_CHECKPOINT_ID \<or> \<not> isValidLsn (keBeginLsn v) \<or> keDatabasePageCount v = 0
         \<or> keNextTransactionId v = INVALID_TRANSACTION_ID \<or> keRecoveryStartOffset v = INVALID_WAL_OFFSET
      then Inl (WalError WalInvalidArgument ''Invalid CHECKPOINT_END payload'')
      else Inr
        (let b0 = replicate 48 0;
             b1 = put64 b0 0 (keCheckpointId v);
             b2 = put64 b1 8 (keBeginLsn v);
             b3 = put64 b2 16 (keDatabasePageCount v);
             b4 = put64 b3 24 (keNextTransactionId v)
         in put64 b4 32 (keRecoveryStartOffset v)))"

definition decodeCheckpointEndLogPayload :: "byte list \<Rightarrow> checkpoint_end_payload res" where
  "decodeCheckpointEndLogPayload b =
     (if length b \<noteq> 48 \<or> get64 b 40 \<noteq> 0
      then Inl (WalError WalCorruptRecord ''Malformed CHECKPOINT_END payload'')
      else
        let v = \<lparr>keCheckpointId = get64 b 0, keBeginLsn = get64 b 8, keDatabasePageCount = get64 b 16,
                 keNextTransactionId = get64 b 24, keRecoveryStartOffset = get64 b 32\<rparr> in
        if keCheckpointId v = INVALID_CHECKPOINT_ID \<or> \<not> isValidLsn (keBeginLsn v) \<or> keDatabasePageCount v = 0
           \<or> keDatabasePageCount v > 0xFFFFFFFF
           \<or> keNextTransactionId v = INVALID_TRANSACTION_ID \<or> keRecoveryStartOffset v = INVALID_WAL_OFFSET
        then Inl (WalError WalCorruptRecord ''Invalid CHECKPOINT_END fields'')
        else Inr v)"

section \<open>Fuzzy checkpoints\<close>

definition encodeFuzzyCheckpointBeginLogPayload :: "fuzzy_begin_payload \<Rightarrow> byte list res" where
  "encodeFuzzyCheckpointBeginLogPayload v =
     (if fbCheckpointId v = INVALID_CHECKPOINT_ID \<or> (isValidLsn (fbPreviousEndLsn v) \<and> fbPreviousEndLsn v < 64)
      then Inl (WalError WalInvalidArgument ''Invalid FUZZY_CHECKPOINT_BEGIN payload'')
      else Inr
        (let b0 = replicate 32 0;
             b1 = put16 b0 0 1;
             b2 = put16 b1 2 32;
             b3 = put64 b2 8 (fbCheckpointId v)
         in put64 b3 16 (fbPreviousEndLsn v)))"

definition decodeFuzzyCheckpointBeginLogPayload :: "byte list \<Rightarrow> fuzzy_begin_payload res" where
  "decodeFuzzyCheckpointBeginLogPayload b =
     (if length b \<noteq> 32 \<or> get16 b 0 \<noteq> 1 \<or> get16 b 2 \<noteq> 32 \<or> get32 b 4 \<noteq> 0 \<or> get64 b 24 \<noteq> 0
      then Inl (WalError WalCorruptRecord ''Malformed FUZZY_CHECKPOINT_BEGIN payload'')
      else
        let v = \<lparr>fbCheckpointId = get64 b 8, fbPreviousEndLsn = get64 b 16\<rparr> in
        if fbCheckpointId v = INVALID_CHECKPOINT_ID \<or> (isValidLsn (fbPreviousEndLsn v) \<and> fbPreviousEndLsn v < 64)
        then Inl (WalError WalCorruptRecord ''Invalid FUZZY_CHECKPOINT_BEGIN fields'')
        else Inr v)"

text \<open>The loop of \<open>validateDirtyPages\<close>; \<open>previous\<close> is \<open>None\<close> in the first round.\<close>

fun dirtyPagesFrom :: "page_id option \<Rightarrow> wal_error_kind \<Rightarrow> dirty_page_entry list \<Rightarrow> unit res" where
  "dirtyPagesFrom previous kind [] = Inr ()"
| "dirtyPagesFrom previous kind (entry # es) =
     (if dpPageId entry = METADATA_PAGE_ID \<or> dpPageId entry = INVALID_PAGE_ID \<or> \<not> isValidLsn (dpRecLsn entry)
         \<or> dpRecLsn entry < 64 \<or> (case previous of None \<Rightarrow> False | Some p \<Rightarrow> dpPageId entry \<le> p)
      then Inl (WalError kind ''Invalid or noncanonical fuzzy-checkpoint DPT'')
      else dirtyPagesFrom (Some (dpPageId entry)) kind es)"

definition validateDirtyPages :: "dirty_page_entry list \<Rightarrow> wal_error_kind \<Rightarrow> unit res" where
  "validateDirtyPages es kind = dirtyPagesFrom None kind es"

fun transactionsFrom :: "transaction_id \<Rightarrow> wal_error_kind \<Rightarrow> checkpoint_transaction_entry list \<Rightarrow> unit res" where
  "transactionsFrom previous kind [] = Inr ()"
| "transactionsFrom previous kind (entry # es) =
     (if ctTransactionId entry = INVALID_TRANSACTION_ID \<or> ctStatus entry \<noteq> STATUS_ACTIVE
         \<or> \<not> isValidLsn (ctBeginLsn entry) \<or> \<not> isValidLsn (ctLastLsn entry) \<or> ctBeginLsn entry < 64
         \<or> ctLastLsn entry < ctBeginLsn entry \<or> ctStartPageCount entry = 0 \<or> ctStartPageCount entry > 0xFFFFFFFF
         \<or> (previous \<noteq> INVALID_TRANSACTION_ID \<and> ctTransactionId entry \<le> previous)
      then Inl (WalError kind ''Invalid or noncanonical fuzzy-checkpoint ATT'')
      else transactionsFrom (ctTransactionId entry) kind es)"

definition validateActiveTransactions :: "checkpoint_transaction_entry list \<Rightarrow> wal_error_kind \<Rightarrow> unit res" where
  "validateActiveTransactions es kind = transactionsFrom INVALID_TRANSACTION_ID kind es"

fun writeDirtyPages :: "byte list \<Rightarrow> nat \<Rightarrow> dirty_page_entry list \<Rightarrow> byte list" where
  "writeDirtyPages b cursor [] = b"
| "writeDirtyPages b cursor (entry # es) =
     (let b1 = put32 b cursor (dpPageId entry);
          b2 = put64 b1 (cursor + 8) (dpRecLsn entry)
      in writeDirtyPages b2 (cursor + DPT_ENTRY_SIZE) es)"

fun writeTransactions :: "byte list \<Rightarrow> nat \<Rightarrow> checkpoint_transaction_entry list \<Rightarrow> byte list" where
  "writeTransactions b cursor [] = b"
| "writeTransactions b cursor (entry # es) =
     (let b1 = put64 b cursor (ctTransactionId entry);
          b2 = put16 b1 (cursor + 8) (ctStatus entry);
          b3 = put64 b2 (cursor + 16) (ctBeginLsn entry);
          b4 = put64 b3 (cursor + 24) (ctLastLsn entry);
          b5 = put64 b4 (cursor + 32) (ctStartPageCount entry)
      in writeTransactions b5 (cursor + ATT_ENTRY_SIZE) es)"

definition encodeFuzzyCheckpointEndLogPayload :: "fuzzy_end_payload \<Rightarrow> byte list res" where
  "encodeFuzzyCheckpointEndLogPayload v =
     (if feCheckpointId v = INVALID_CHECKPOINT_ID \<or> \<not> isValidLsn (feBeginLsn v) \<or> feBeginLsn v < 64
         \<or> feDatabasePageCount v = 0 \<or> feDatabasePageCount v > 0xFFFFFFFF
         \<or> feNextTransactionId v = INVALID_TRANSACTION_ID
         \<or> length (feDirtyPages v) > 0xFFFFFFFF \<or> length (feActiveTransactions v) > 0xFFFFFFFF
      then Inl (WalError WalInvalidArgument ''Invalid FUZZY_CHECKPOINT_END payload'')
      else
        res_bind (validateDirtyPages (feDirtyPages v) WalInvalidArgument) (\<lambda>_.
        res_bind (validateActiveTransactions (feActiveTransactions v) WalInvalidArgument) (\<lambda>_.
        let dptBytes = length (feDirtyPages v) * DPT_ENTRY_SIZE;
            attBytes = length (feActiveTransactions v) * ATT_ENTRY_SIZE in
        if dptBytes > MAX_PAYLOAD_SIZE - FUZZY_END_HEADER_SIZE
           \<or> attBytes > MAX_PAYLOAD_SIZE - FUZZY_END_HEADER_SIZE - dptBytes
        then Inl (WalError WalInvalidArgument ''FUZZY_CHECKPOINT_END payload is too large'')
        else Inr
          (let b0 = replicate (FUZZY_END_HEADER_SIZE + dptBytes + attBytes) 0;
               b1 = put16 b0 0 1;
               b2 = put16 b1 2 64;
               b3 = put16 b2 4 16;
               b4 = put16 b3 6 48;
               b5 = put64 b4 8 (feCheckpointId v);
               b6 = put64 b5 16 (feBeginLsn v);
               b7 = put64 b6 24 (feDatabasePageCount v);
               b8 = put64 b7 32 (feNextTransactionId v);
               b9 = put32 b8 40 (of_nat (length (feDirtyPages v)));
               b10 = put32 b9 44 (of_nat (length (feActiveTransactions v)));
               b11 = writeDirtyPages b10 FUZZY_END_HEADER_SIZE (feDirtyPages v)
           in writeTransactions b11 (FUZZY_END_HEADER_SIZE + dptBytes) (feActiveTransactions v)))))"

fun readDirtyPages :: "byte list \<Rightarrow> nat \<Rightarrow> nat \<Rightarrow> dirty_page_entry list res" where
  "readDirtyPages b cursor 0 = Inr []"
| "readDirtyPages b cursor (Suc count) =
     (if get32 b (cursor + 4) \<noteq> 0
      then Inl (WalError WalCorruptRecord ''Nonzero fuzzy-checkpoint DPT reserved field'')
      else res_bind (readDirtyPages b (cursor + DPT_ENTRY_SIZE) count) (\<lambda>es.
        Inr (\<lparr>dpPageId = get32 b cursor, dpRecLsn = get64 b (cursor + 8), dpPageLsn = INVALID_LSN\<rparr> # es)))"

fun readTransactions :: "byte list \<Rightarrow> nat \<Rightarrow> nat \<Rightarrow> checkpoint_transaction_entry list res" where
  "readTransactions b cursor 0 = Inr []"
| "readTransactions b cursor (Suc count) =
     (if get16 b (cursor + 10) \<noteq> 0 \<or> get32 b (cursor + 12) \<noteq> 0 \<or> get64 b (cursor + 40) \<noteq> 0
      then Inl (WalError WalCorruptRecord ''Nonzero fuzzy-checkpoint ATT reserved field'')
      else res_bind (readTransactions b (cursor + ATT_ENTRY_SIZE) count) (\<lambda>es.
        Inr (\<lparr>ctTransactionId = get64 b cursor, ctStatus = get16 b (cursor + 8), ctBeginLsn = get64 b (cursor + 16),
              ctLastLsn = get64 b (cursor + 24), ctStartPageCount = get64 b (cursor + 32)\<rparr> # es)))"

definition decodeFuzzyCheckpointEndLogPayload :: "byte list \<Rightarrow> fuzzy_end_payload res" where
  "decodeFuzzyCheckpointEndLogPayload b =
     (if length b < FUZZY_END_HEADER_SIZE \<or> length b > MAX_PAYLOAD_SIZE \<or> get16 b 0 \<noteq> 1 \<or> get16 b 2 \<noteq> 64
         \<or> get16 b 4 \<noteq> 16 \<or> get16 b 6 \<noteq> 48 \<or> \<not> all_zero (subspan b 48 16)
      then Inl (WalError WalCorruptRecord ''Malformed FUZZY_CHECKPOINT_END header'')
      else
        let dptCount = unat (get32 b 40);
            attCount = unat (get32 b 44);
            available = length b - FUZZY_END_HEADER_SIZE in
        if dptCount > available div DPT_ENTRY_SIZE
        then Inl (WalError WalCorruptRecord ''FUZZY_CHECKPOINT_END DPT count is excessive'')
        else
          let dptBytes = dptCount * DPT_ENTRY_SIZE in
          if attCount > (available - dptBytes) div ATT_ENTRY_SIZE
             \<or> FUZZY_END_HEADER_SIZE + dptBytes + attCount * ATT_ENTRY_SIZE \<noteq> length b
          then Inl (WalError WalCorruptRecord ''FUZZY_CHECKPOINT_END size is inconsistent'')
          else
            res_bind (readDirtyPages b FUZZY_END_HEADER_SIZE dptCount) (\<lambda>dirty.
            res_bind (readTransactions b (FUZZY_END_HEADER_SIZE + dptBytes) attCount) (\<lambda>active.
            let v = \<lparr>feCheckpointId = get64 b 8, feBeginLsn = get64 b 16, feDatabasePageCount = get64 b 24,
                     feNextTransactionId = get64 b 32, feDirtyPages = dirty, feActiveTransactions = active\<rparr> in
            if feCheckpointId v = INVALID_CHECKPOINT_ID \<or> \<not> isValidLsn (feBeginLsn v) \<or> feBeginLsn v < 64
               \<or> feDatabasePageCount v = 0 \<or> feDatabasePageCount v > 0xFFFFFFFF
               \<or> feNextTransactionId v = INVALID_TRANSACTION_ID
            then Inl (WalError WalCorruptRecord ''Invalid FUZZY_CHECKPOINT_END fields'')
            else
              res_bind (validateDirtyPages dirty WalCorruptRecord) (\<lambda>_.
              res_bind (validateActiveTransactions active WalCorruptRecord) (\<lambda>_. Inr v)))))"

definition validateCheckpointRecord :: "log_record \<Rightarrow> unit res" where
  "validateCheckpointRecord r =
     (if transactionId r \<noteq> INVALID_TRANSACTION_ID \<or> isValidLsn (prevLsn r)
      then Inl (WalError WalCorruptRecord ''Checkpoint WAL record is not a system record'')
      else if recType r = CHECKPOINT_BEGIN_TYPE then
        res_bind (decodeCheckpointBeginLogPayload (payload r)) (\<lambda>v.
        throw_if (kbWalStartOffset v \<noteq> recLsn r)
          (WalError WalCorruptRecord ''CHECKPOINT_BEGIN start offset disagrees with its LSN''))
      else if recType r = CHECKPOINT_END_TYPE then
        res_bind (decodeCheckpointEndLogPayload (payload r)) (\<lambda>_. Inr ())
      else if recType r = FUZZY_CHECKPOINT_BEGIN_TYPE then
        res_bind (decodeFuzzyCheckpointBeginLogPayload (payload r)) (\<lambda>_. Inr ())
      else if recType r = FUZZY_CHECKPOINT_END_TYPE then
        res_bind (decodeFuzzyCheckpointEndLogPayload (payload r)) (\<lambda>_. Inr ())
      else Inl (WalError WalCorruptRecord ''Record is not a checkpoint record''))"

section \<open>One encoding per payload\<close>

lemma checkpoint_begin_exact:
  "decodeCheckpointBeginLogPayload b = Inr v \<longleftrightarrow> encodeCheckpointBeginLogPayload v = Inr b"
proof
  assume "decodeCheckpointBeginLogPayload b = Inr v"
  then have f: "length b = 32" "get64 b 24 = 0" "encodeCheckpointBeginLogPayload v
      = Inr (put64 (put64 (put64 (replicate 32 0) 0 (get64 b 0)) 8 (get64 b 8)) 16 (get64 b 16))"
    by (auto simp: decodeCheckpointBeginLogPayload_def encodeCheckpointBeginLogPayload_def Let_def split: if_splits)
  have "b = put64 (put64 (put64 (replicate 32 0) 0 (get64 b 0)) 8 (get64 b 8)) 16 (get64 b 16)"
    by (rule fields_eqI [where fs = "[F64, F64, F64, F64]"]) (use f(1,2) in simp_all)
  then show "encodeCheckpointBeginLogPayload v = Inr b" using f(3) by simp
next
  assume "encodeCheckpointBeginLogPayload v = Inr b"
  then have b: "b = put64 (put64 (put64 (replicate 32 0) 0 (kbCheckpointId v)) 8 (kbPreviousEndLsn v)) 16 (kbWalStartOffset v)"
    and k: "kbCheckpointId v \<noteq> 0" "\<not> kbWalStartOffset v < 64" "kbWalStartOffset v \<noteq> INVALID_WAL_OFFSET"
    by (auto simp: encodeCheckpointBeginLogPayload_def Let_def split: if_splits)
  show "decodeCheckpointBeginLogPayload b = Inr v"
    using k by (cases v) (simp add: b decodeCheckpointBeginLogPayload_def Let_def)
qed

lemma checkpoint_end_exact:
  "decodeCheckpointEndLogPayload b = Inr v \<longleftrightarrow>
     keDatabasePageCount v \<le> 0xFFFFFFFF \<and> encodeCheckpointEndLogPayload v = Inr b"
proof
  let ?e = "\<lambda>v. put64 (put64 (put64 (put64 (put64 (replicate 48 0) 0 (keCheckpointId v)) 8 (keBeginLsn v))
      16 (keDatabasePageCount v)) 24 (keNextTransactionId v)) 32 (keRecoveryStartOffset v)"
  assume "decodeCheckpointEndLogPayload b = Inr v"
  then have f: "length b = 48" "get64 b 40 = 0" "encodeCheckpointEndLogPayload v = Inr (?e v)" "keDatabasePageCount v \<le> 0xFFFFFFFF"
    and v: "v = \<lparr>keCheckpointId = get64 b 0, keBeginLsn = get64 b 8, keDatabasePageCount = get64 b 16,
                 keNextTransactionId = get64 b 24, keRecoveryStartOffset = get64 b 32\<rparr>"
    by (auto simp: decodeCheckpointEndLogPayload_def encodeCheckpointEndLogPayload_def Let_def split: if_splits)
  have "b = ?e v"
    by (rule fields_eqI [where fs = "[F64, F64, F64, F64, F64, F64]"]) (use f(1,2) in \<open>simp_all add: v\<close>)
  then show "keDatabasePageCount v \<le> 0xFFFFFFFF \<and> encodeCheckpointEndLogPayload v = Inr b" using f(3,4) by simp
next
  assume a: "keDatabasePageCount v \<le> 0xFFFFFFFF \<and> encodeCheckpointEndLogPayload v = Inr b"
  then have b: "b = put64 (put64 (put64 (put64 (put64 (replicate 48 0) 0 (keCheckpointId v)) 8 (keBeginLsn v))
      16 (keDatabasePageCount v)) 24 (keNextTransactionId v)) 32 (keRecoveryStartOffset v)"
    and k: "keCheckpointId v \<noteq> 0" "isValidLsn (keBeginLsn v)" "keDatabasePageCount v \<noteq> 0"
      "keNextTransactionId v \<noteq> 0" "keRecoveryStartOffset v \<noteq> INVALID_WAL_OFFSET"
    by (auto simp: encodeCheckpointEndLogPayload_def Let_def split: if_splits)
  show "decodeCheckpointEndLogPayload b = Inr v"
    using k a by (cases v) (simp add: b decodeCheckpointEndLogPayload_def Let_def not_less)
qed

lemma fuzzy_begin_exact:
  "decodeFuzzyCheckpointBeginLogPayload b = Inr v \<longleftrightarrow> encodeFuzzyCheckpointBeginLogPayload v = Inr b"
proof
  let ?e = "\<lambda>v. put64 (put64 (put16 (put16 (replicate 32 0) 0 1) 2 32) 8 (fbCheckpointId v)) 16 (fbPreviousEndLsn v)"
  assume "decodeFuzzyCheckpointBeginLogPayload b = Inr v"
  then have f: "length b = 32" "get16 b 0 = 1" "get16 b 2 = 32" "get32 b 4 = 0" "get64 b 24 = 0"
      "encodeFuzzyCheckpointBeginLogPayload v = Inr (?e v)"
    and v: "v = \<lparr>fbCheckpointId = get64 b 8, fbPreviousEndLsn = get64 b 16\<rparr>"
    by (auto simp: decodeFuzzyCheckpointBeginLogPayload_def encodeFuzzyCheckpointBeginLogPayload_def Let_def split: if_splits)
  have "b = ?e v"
    by (rule fields_eqI [where fs = "[F16, F16, F32, F64, F64, F64]"]) (use f(1-5) in \<open>simp_all add: v\<close>)
  then show "encodeFuzzyCheckpointBeginLogPayload v = Inr b" using f(6) by simp
next
  assume a: "encodeFuzzyCheckpointBeginLogPayload v = Inr b"
  then have b: "b = put64 (put64 (put16 (put16 (replicate 32 0) 0 1) 2 32) 8 (fbCheckpointId v)) 16 (fbPreviousEndLsn v)"
    and k: "fbCheckpointId v \<noteq> 0" "isValidLsn (fbPreviousEndLsn v) \<longrightarrow> \<not> fbPreviousEndLsn v < 64"
    by (auto simp: encodeFuzzyCheckpointBeginLogPayload_def Let_def split: if_splits)
  show "decodeFuzzyCheckpointBeginLogPayload b = Inr v"
    using k by (cases v) (auto simp add: b decodeFuzzyCheckpointBeginLogPayload_def Let_def)
qed

section \<open>The tables of a fuzzy checkpoint\<close>

text \<open>The bytes of one entry.\<close>

definition dirtyPageBytes :: "dirty_page_entry \<Rightarrow> byte list" where
  "dirtyPageBytes e = put64 (put32 (replicate 16 0) 0 (dpPageId e)) 8 (dpRecLsn e)"

definition transactionBytes :: "checkpoint_transaction_entry \<Rightarrow> byte list" where
  "transactionBytes e = put64 (put64 (put64 (put16 (put64 (replicate 48 0) 0 (ctTransactionId e)) 8 (ctStatus e))
     16 (ctBeginLsn e)) 24 (ctLastLsn e)) 32 (ctStartPageCount e)"

lemma entry_lengths [simp]: "length (dirtyPageBytes e) = 16" "length (transactionBytes t) = 48"
  by (simp_all add: dirtyPageBytes_def transactionBytes_def)

lemma put_le_overwrite_inside:
  assumes "off + length xs \<le> length b" "i + w \<le> length xs"
  shows "put_le w (overwrite b off xs) (off + i) v = overwrite b off (put_le w xs i v)"
  by (rule nth_equalityI) (use assms in \<open>auto simp: nth_put_le nth_overwrite\<close>)

lemma zeros_overwrite: "off + n \<le> length b \<Longrightarrow> subspan b off n = replicate n 0 \<Longrightarrow> overwrite b off (replicate n 0) = b"
  using overwrite_id by metis

lemma dirty_entry_write:
  assumes "cursor + 16 \<le> length b" "subspan b cursor 16 = replicate 16 0"
  shows "put64 (put32 b cursor x) (cursor + 8) y = overwrite b cursor (put64 (put32 (replicate 16 0) 0 x) 8 y)"
proof -
  have b: "b = overwrite b cursor (replicate 16 0)" by (rule zeros_overwrite [OF assms, symmetric])
  have "put32 b cursor x = overwrite b cursor (put32 (replicate 16 0) 0 x)"
    using put_le_overwrite_inside [of cursor "replicate 16 0" b 0 4 x] assms(1) b by simp
  then show ?thesis using put_le_overwrite_inside [of cursor "put32 (replicate 16 0) 0 x" b 8 8 y] assms(1) by simp
qed

lemma transaction_entry_write:
  assumes "cursor + 48 \<le> length b" "subspan b cursor 48 = replicate 48 0"
  shows "put64 (put64 (put64 (put16 (put64 b cursor x) (cursor + 8) s) (cursor + 16) y) (cursor + 24) z) (cursor + 32) w
    = overwrite b cursor (put64 (put64 (put64 (put16 (put64 (replicate 48 0) 0 x) 8 s) 16 y) 24 z) 32 w)"
proof -
  have b: "b = overwrite b cursor (replicate 48 0)" by (rule zeros_overwrite [OF assms, symmetric])
  have "put64 b cursor x = overwrite b cursor (put64 (replicate 48 0) 0 x)"
    using put_le_overwrite_inside [of cursor "replicate 48 0" b 0 8 x] assms(1) b by simp
  then show ?thesis using assms(1) by (simp add: put_le_overwrite_inside)
qed

lemma subspan_zeros_split:
  assumes "cursor + m + n \<le> length (b :: byte list)" "subspan b cursor (m + n) = replicate (m + n) 0" "length xs = m"
  shows "subspan b cursor m = replicate m 0" "subspan (overwrite b cursor xs) (cursor + m) n = replicate n 0"
proof -
  have "subspan b cursor m @ subspan b (cursor + m) n = replicate m 0 @ replicate n 0"
    using assms(2) by (simp only: subspan_add replicate_add)
  then have "subspan b cursor m = replicate m 0 \<and> subspan b (cursor + m) n = replicate n 0"
    using assms(1) by (subst (asm) append_eq_append_conv) simp_all
  then show "subspan b cursor m = replicate m 0" "subspan (overwrite b cursor xs) (cursor + m) n = replicate n 0"
    using assms(1,3) by (simp_all add: subspan_overwrite_disjoint)
qed

lemma writeDirtyPages_eq:
  "cursor + 16 * length es \<le> length b \<Longrightarrow> subspan b cursor (16 * length es) = replicate (16 * length es) 0 \<Longrightarrow>
   writeDirtyPages b cursor es = overwrite b cursor (concat (map dirtyPageBytes es))"
proof (induction b cursor es rule: writeDirtyPages.induct)
  case (2 b cursor e es)
  have len: "cursor + 16 + 16 * length es \<le> length b" using "2.prems"(1) by simp
  have z: "subspan b cursor (16 + 16 * length es) = replicate (16 + 16 * length es) 0" using "2.prems"(2) by simp
  note split = subspan_zeros_split [OF len z entry_lengths(1) [of e]]
  let ?b = "overwrite b cursor (dirtyPageBytes e)"
  have w: "put64 (put32 b cursor (dpPageId e)) (cursor + 8) (dpRecLsn e) = ?b"
    using dirty_entry_write [OF _ split(1)] len by (simp add: dirtyPageBytes_def)
  have "writeDirtyPages ?b (cursor + 16) es = overwrite ?b (cursor + 16) (concat (map dirtyPageBytes es))"
    using "2.IH" [OF refl refl] split(2) len by (simp add: w)
  moreover have "length (concat (map dirtyPageBytes es)) = 16 * length es"
    by (simp add: length_concat comp_def sum_list_triv)
  ultimately show ?case using len by (simp add: w overwrite_overwrite)
qed (simp add: overwrite_def)

lemma writeTransactions_eq:
  "cursor + 48 * length es \<le> length b \<Longrightarrow> subspan b cursor (48 * length es) = replicate (48 * length es) 0 \<Longrightarrow>
   writeTransactions b cursor es = overwrite b cursor (concat (map transactionBytes es))"
proof (induction b cursor es rule: writeTransactions.induct)
  case (2 b cursor e es)
  have len: "cursor + 48 + 48 * length es \<le> length b" using "2.prems"(1) by simp
  have z: "subspan b cursor (48 + 48 * length es) = replicate (48 + 48 * length es) 0" using "2.prems"(2) by simp
  note split = subspan_zeros_split [OF len z entry_lengths(2) [of e]]
  let ?b = "overwrite b cursor (transactionBytes e)"
  have w: "put64 (put64 (put64 (put16 (put64 b cursor (ctTransactionId e)) (cursor + 8) (ctStatus e))
      (cursor + 16) (ctBeginLsn e)) (cursor + 24) (ctLastLsn e)) (cursor + 32) (ctStartPageCount e) = ?b"
    using transaction_entry_write [OF _ split(1)] len by (simp add: transactionBytes_def)
  have "writeTransactions ?b (cursor + 48) es = overwrite ?b (cursor + 48) (concat (map transactionBytes es))"
    using "2.IH" [OF refl refl refl refl refl] split(2) len by (simp add: w)
  moreover have "length (concat (map transactionBytes es)) = 48 * length es"
    by (simp add: length_concat comp_def sum_list_triv)
  ultimately show ?case using len by (simp add: w overwrite_overwrite)
qed (simp add: overwrite_def)

lemma get_le_cursor: "cursor + n \<le> length b \<Longrightarrow> i + w \<le> n \<Longrightarrow> get_le w (subspan b cursor n) i = get_le w b (cursor + i)"
  by (simp add: get_le_subspan)

lemma dirty_entry_read:
  assumes "cursor + 16 \<le> length b"
  shows "subspan b cursor 16 = dirtyPageBytes e \<longleftrightarrow>
    get32 b cursor = dpPageId e \<and> get32 b (cursor + 4) = 0 \<and> get64 b (cursor + 8) = dpRecLsn e"
proof
  assume eq: "subspan b cursor 16 = dirtyPageBytes e"
  have "get32 (subspan b cursor 16) 0 = dpPageId e" "get32 (subspan b cursor 16) 4 = 0" "get64 (subspan b cursor 16) 8 = dpRecLsn e"
    by (simp_all add: eq dirtyPageBytes_def)
  then show "get32 b cursor = dpPageId e \<and> get32 b (cursor + 4) = 0 \<and> get64 b (cursor + 8) = dpRecLsn e"
    using assms by (simp add: get_le_cursor)
next
  assume f: "get32 b cursor = dpPageId e \<and> get32 b (cursor + 4) = 0 \<and> get64 b (cursor + 8) = dpRecLsn e"
    show "subspan b cursor 16 = dirtyPageBytes e"
      by (rule fields_eqI [where fs = "[F32, F32, F64]"])
        (use f assms in \<open>simp_all add: dirtyPageBytes_def get_le_cursor\<close>)
qed

lemma transaction_entry_read:
  assumes "cursor + 48 \<le> length b"
  shows "subspan b cursor 48 = transactionBytes e \<longleftrightarrow>
    get64 b cursor = ctTransactionId e \<and> get16 b (cursor + 8) = ctStatus e \<and> get16 b (cursor + 10) = 0
    \<and> get32 b (cursor + 12) = 0 \<and> get64 b (cursor + 16) = ctBeginLsn e \<and> get64 b (cursor + 24) = ctLastLsn e
    \<and> get64 b (cursor + 32) = ctStartPageCount e \<and> get64 b (cursor + 40) = 0"
    (is "_ \<longleftrightarrow> ?f")
proof
  assume eq: "subspan b cursor 48 = transactionBytes e"
  let ?s = "subspan b cursor 48"
  have "get64 ?s 0 = ctTransactionId e" "get16 ?s 8 = ctStatus e" "get16 ?s 10 = 0" "get32 ?s 12 = 0"
    "get64 ?s 16 = ctBeginLsn e" "get64 ?s 24 = ctLastLsn e" "get64 ?s 32 = ctStartPageCount e" "get64 ?s 40 = 0"
    by (simp_all add: eq transactionBytes_def)
  then show ?f using assms by (simp add: get_le_cursor)
next
  assume f: ?f
    show "subspan b cursor 48 = transactionBytes e"
      by (rule fields_eqI [where fs = "[F64, F16, F16, F32, F64, F64, F64, F64]"])
        (use f assms in \<open>simp_all add: transactionBytes_def get_le_cursor\<close>)
qed

lemma readDirtyPages_iff:
  "cursor + 16 * n \<le> length b \<Longrightarrow> readDirtyPages b cursor n = Inr es \<longleftrightarrow>
     length es = n \<and> (\<forall>e\<in>set es. dpPageLsn e = INVALID_LSN)
     \<and> subspan b cursor (16 * n) = concat (map dirtyPageBytes es)"
proof (induction b cursor n arbitrary: es rule: readDirtyPages.induct)
  case (2 b cursor n)
  have len: "cursor + 16 \<le> length b" "cursor + 16 + 16 * n \<le> length b" using "2.prems" by simp_all
  have cut: "subspan b cursor (16 * Suc n) = subspan b cursor 16 @ subspan b (cursor + 16) (16 * n)"
    using subspan_add [of b cursor 16 "16 * n"] by simp
  show ?case
  proof (cases es)
    case Nil
    then show ?thesis by (auto simp: res_simps)
  next
    case (Cons e rest)
    have "readDirtyPages b cursor (Suc n) = Inr (e # rest) \<longleftrightarrow>
      subspan b cursor 16 = dirtyPageBytes e \<and> dpPageLsn e = INVALID_LSN \<and> readDirtyPages b (cursor + 16) n = Inr rest"
      by (cases e) (auto simp: dirty_entry_read [OF len(1)] res_simps)
    moreover have "readDirtyPages b (cursor + 16) n = Inr rest \<longleftrightarrow> length rest = n
        \<and> (\<forall>e\<in>set rest. dpPageLsn e = INVALID_LSN) \<and> subspan b (cursor + 16) (16 * n) = concat (map dirtyPageBytes rest)"
      if "get32 b (cursor + 4) = 0"
      using "2.IH" [of rest] that len(2) by simp
    moreover have "get32 b (cursor + 4) = 0" if "subspan b cursor 16 = dirtyPageBytes e"
      using that dirty_entry_read [OF len(1), of e] by simp
    ultimately show ?thesis using len(1) unfolding Cons cut by (auto simp: append_eq_append_conv)
  qed
qed auto

lemma readTransactions_iff:
  "cursor + 48 * n \<le> length b \<Longrightarrow> readTransactions b cursor n = Inr es \<longleftrightarrow>
     length es = n \<and> subspan b cursor (48 * n) = concat (map transactionBytes es)"
proof (induction b cursor n arbitrary: es rule: readTransactions.induct)
  case (2 b cursor n)
  have len: "cursor + 48 \<le> length b" "cursor + 48 + 48 * n \<le> length b" using "2.prems" by simp_all
  have cut: "subspan b cursor (48 * Suc n) = subspan b cursor 48 @ subspan b (cursor + 48) (48 * n)"
    using subspan_add [of b cursor 48 "48 * n"] by simp
  show ?case
  proof (cases es)
    case Nil
    then show ?thesis by (auto simp: res_simps)
  next
    case (Cons e rest)
    have "readTransactions b cursor (Suc n) = Inr (e # rest) \<longleftrightarrow>
      subspan b cursor 48 = transactionBytes e \<and> readTransactions b (cursor + 48) n = Inr rest"
      by (cases e) (auto simp: transaction_entry_read [OF len(1)] res_simps)
    moreover have "readTransactions b (cursor + 48) n = Inr rest \<longleftrightarrow> length rest = n
        \<and> subspan b (cursor + 48) (48 * n) = concat (map transactionBytes rest)"
      if "subspan b cursor 48 = transactionBytes e"
      using "2.IH" [of rest] that transaction_entry_read [OF len(1), of e] len(2) by simp
    ultimately show ?thesis using len(1) unfolding Cons cut by (auto simp: append_eq_append_conv)
  qed
qed auto

lemma validate_kind_free:
  "validateDirtyPages es k = Inr u \<longleftrightarrow> validateDirtyPages es WalCorruptRecord = Inr ()"
  "validateActiveTransactions ts k = Inr u \<longleftrightarrow> validateActiveTransactions ts WalCorruptRecord = Inr ()"
proof -
  have "dirtyPagesFrom p k es = Inr u \<longleftrightarrow> dirtyPagesFrom p WalCorruptRecord es = Inr ()" for p
    by (induction p k es rule: dirtyPagesFrom.induct) auto
  then show "validateDirtyPages es k = Inr u \<longleftrightarrow> validateDirtyPages es WalCorruptRecord = Inr ()"
    by (simp add: validateDirtyPages_def)
  have "transactionsFrom p k ts = Inr u \<longleftrightarrow> transactionsFrom p WalCorruptRecord ts = Inr ()" for p
    by (induction p k ts rule: transactionsFrom.induct) auto
  then show "validateActiveTransactions ts k = Inr u \<longleftrightarrow> validateActiveTransactions ts WalCorruptRecord = Inr ()"
    by (simp add: validateActiveTransactions_def)
qed

text \<open>What both sides check, and the bytes in between.\<close>

definition fuzzyEndOk :: "fuzzy_end_payload \<Rightarrow> bool" where
  "fuzzyEndOk v \<longleftrightarrow> feCheckpointId v \<noteq> INVALID_CHECKPOINT_ID \<and> isValidLsn (feBeginLsn v) \<and> \<not> feBeginLsn v < 64
     \<and> feDatabasePageCount v \<noteq> 0 \<and> \<not> feDatabasePageCount v > 0xFFFFFFFF
     \<and> feNextTransactionId v \<noteq> INVALID_TRANSACTION_ID
     \<and> validateDirtyPages (feDirtyPages v) WalCorruptRecord = Inr ()
     \<and> validateActiveTransactions (feActiveTransactions v) WalCorruptRecord = Inr ()
     \<and> 64 + 16 * length (feDirtyPages v) + 48 * length (feActiveTransactions v) \<le> MAX_PAYLOAD_SIZE"

definition fuzzyHeader :: "fuzzy_end_payload \<Rightarrow> nat \<Rightarrow> nat \<Rightarrow> byte list" where
  "fuzzyHeader v n m = put32 (put32 (put64 (put64 (put64 (put64 (put16 (put16 (put16 (put16
     (replicate (64 + 16 * n + 48 * m) 0) 0 1) 2 64) 4 16) 6 48) 8 (feCheckpointId v)) 16 (feBeginLsn v))
     24 (feDatabasePageCount v)) 32 (feNextTransactionId v)) 40 (of_nat n)) 44 (of_nat m)"

definition fuzzyBytes :: "fuzzy_end_payload \<Rightarrow> byte list" where
  "fuzzyBytes v = overwrite (overwrite (fuzzyHeader v (length (feDirtyPages v)) (length (feActiveTransactions v)))
     64 (concat (map dirtyPageBytes (feDirtyPages v))))
     (64 + 16 * length (feDirtyPages v)) (concat (map transactionBytes (feActiveTransactions v)))"

lemma table_lengths [simp]:
  "length (concat (map dirtyPageBytes es)) = 16 * length es"
  "length (concat (map transactionBytes ts)) = 48 * length ts"
  by (simp_all add: length_concat comp_def sum_list_triv)

lemma length_fuzzyHeader [simp]: "length (fuzzyHeader v n m) = 64 + 16 * n + 48 * m"
  by (simp add: fuzzyHeader_def)

lemma fuzzyHeader_tables: "64 \<le> off \<Longrightarrow> off + k \<le> 64 + 16 * n + 48 * m \<Longrightarrow> subspan (fuzzyHeader v n m) off k = replicate k 0"
  by (simp add: fuzzyHeader_def subspan_zeros)

lemma encode_fuzzy_end:
  "encodeFuzzyCheckpointEndLogPayload v = Inr b \<longleftrightarrow> fuzzyEndOk v \<and> b = fuzzyBytes v"
proof -
  let ?n = "length (feDirtyPages v)" and ?m = "length (feActiveTransactions v)"
  have w: "writeTransactions (writeDirtyPages (fuzzyHeader v ?n ?m) 64 (feDirtyPages v)) (64 + ?n * 16) (feActiveTransactions v) = fuzzyBytes v"
    by (simp add: writeDirtyPages_eq writeTransactions_eq fuzzyHeader_tables subspan_overwrite_disjoint fuzzyBytes_def mult.commute)
  have hd: "replicate (64 + ?n * 16 + ?m * 48) 0 = replicate (64 + 16 * ?n + 48 * ?m) (0 :: byte)" by (simp add: mult.commute)
  show ?thesis
    unfolding encodeFuzzyCheckpointEndLogPayload_def Let_def hd
    unfolding fuzzyHeader_def [symmetric] w fuzzyEndOk_def
    by (auto simp: res_simps validate_kind_free(1) [of _ WalInvalidArgument] validate_kind_free(2) [of _ WalInvalidArgument])
qed

lemma fuzzyHeader_fields [simp]:
  "get16 (fuzzyHeader v n m) 0 = 1" "get16 (fuzzyHeader v n m) 2 = 64" "get16 (fuzzyHeader v n m) 4 = 16"
  "get16 (fuzzyHeader v n m) 6 = 48" "get64 (fuzzyHeader v n m) 8 = feCheckpointId v"
  "get64 (fuzzyHeader v n m) 16 = feBeginLsn v" "get64 (fuzzyHeader v n m) 24 = feDatabasePageCount v"
  "get64 (fuzzyHeader v n m) 32 = feNextTransactionId v" "get32 (fuzzyHeader v n m) 40 = of_nat n"
  "get32 (fuzzyHeader v n m) 44 = of_nat m" "subspan (fuzzyHeader v n m) 48 16 = replicate 16 0"
  by (simp_all add: fuzzyHeader_def subspan_zeros)

lemma fuzzyBytes_fields:
  defines "n \<equiv> \<lambda>v. length (feDirtyPages v)" and "m \<equiv> \<lambda>v. length (feActiveTransactions v)"
  shows "length (fuzzyBytes v) = 64 + 16 * n v + 48 * m v"
    and "off + w \<le> 64 \<Longrightarrow> get_le w (fuzzyBytes v) off = get_le w (fuzzyHeader v (n v) (m v)) off"
    and "subspan (fuzzyBytes v) 48 16 = replicate 16 0"
    and "subspan (fuzzyBytes v) 64 (16 * n v) = concat (map dirtyPageBytes (feDirtyPages v))"
    and "subspan (fuzzyBytes v) (64 + 16 * n v) (48 * m v) = concat (map transactionBytes (feActiveTransactions v))"
  by (simp_all add: fuzzyBytes_def n_def m_def subspan_overwrite_same subspan_overwrite_disjoint)

lemma fuzzy_end_exact:
  "decodeFuzzyCheckpointEndLogPayload b = Inr v \<longleftrightarrow>
     (\<forall>e\<in>set (feDirtyPages v). dpPageLsn e = INVALID_LSN) \<and> encodeFuzzyCheckpointEndLogPayload v = Inr b"
proof
  let ?n = "unat (get32 b 40)" and ?m = "unat (get32 b 44)"
  assume "decodeFuzzyCheckpointEndLogPayload b = Inr v"
  then have f: "64 + 16 * ?n + 48 * ?m = length b" "length b \<le> MAX_PAYLOAD_SIZE"
      "get16 b 0 = 1" "get16 b 2 = 64" "get16 b 4 = 16" "get16 b 6 = 48" "all_zero (subspan b 48 16)"
    and r: "readDirtyPages b 64 ?n = Inr (feDirtyPages v)" "readTransactions b (64 + 16 * ?n) ?m = Inr (feActiveTransactions v)"
    and g: "feCheckpointId v = get64 b 8" "feBeginLsn v = get64 b 16" "feDatabasePageCount v = get64 b 24" "feNextTransactionId v = get64 b 32"
    and k: "feCheckpointId v \<noteq> INVALID_CHECKPOINT_ID" "isValidLsn (feBeginLsn v)" "\<not> feBeginLsn v < 64"
      "feDatabasePageCount v \<noteq> 0" "\<not> feDatabasePageCount v > 0xFFFFFFFF" "feNextTransactionId v \<noteq> INVALID_TRANSACTION_ID"
      "validateDirtyPages (feDirtyPages v) WalCorruptRecord = Inr ()" "validateActiveTransactions (feActiveTransactions v) WalCorruptRecord = Inr ()"
    by (auto simp: decodeFuzzyCheckpointEndLogPayload_def Let_def res_simps mult.commute split: if_splits)
  have d: "length (feDirtyPages v) = ?n" "\<forall>e\<in>set (feDirtyPages v). dpPageLsn e = INVALID_LSN"
      "subspan b 64 (16 * ?n) = concat (map dirtyPageBytes (feDirtyPages v))"
    using r(1) f(1) by (simp_all add: readDirtyPages_iff)
  have t: "length (feActiveTransactions v) = ?m"
      "subspan b (64 + 16 * ?n) (48 * ?m) = concat (map transactionBytes (feActiveTransactions v))"
    using r(2) f(1) by (simp_all add: readTransactions_iff)
  have z: "subspan b 48 16 = replicate 16 0" using f(1,7) by (simp add: all_zero_iff_replicate)
  note fb = fuzzyBytes_fields [where v = v, unfolded d(1) t(1)]
  have "b = fuzzyBytes v"
    by (rule fields_eqI [where fs = "[F16, F16, F16, F16, F64, F64, F64, F64, F32, F32, Raw 16, Raw (16 * ?n), Raw (48 * ?m)]"])
      (use f(1,3-6) z d(3) t(2) in \<open>simp_all add: fb g\<close>)
  moreover have "fuzzyEndOk v" using k f(1,2) d(1) t(1) by (simp add: fuzzyEndOk_def)
  ultimately show "(\<forall>e\<in>set (feDirtyPages v). dpPageLsn e = INVALID_LSN) \<and> encodeFuzzyCheckpointEndLogPayload v = Inr b"
    using d(2) by (simp add: encode_fuzzy_end)
next
  let ?n = "length (feDirtyPages v)" and ?m = "length (feActiveTransactions v)"
  assume a: "(\<forall>e\<in>set (feDirtyPages v). dpPageLsn e = INVALID_LSN) \<and> encodeFuzzyCheckpointEndLogPayload v = Inr b"
  then have b: "b = fuzzyBytes v" and ok: "fuzzyEndOk v" by (simp_all add: encode_fuzzy_end)
  note fb = fuzzyBytes_fields [where v = v, folded b]
  have small: "unat (of_nat ?n :: u32) = ?n" "unat (of_nat ?m :: u32) = ?m"
    using ok by (auto simp: fuzzyEndOk_def intro!: unat_of_nat_small)
  have r: "readDirtyPages b 64 ?n = Inr (feDirtyPages v)" "readTransactions b (64 + ?n * 16) ?m = Inr (feActiveTransactions v)"
    using a fb by (simp_all add: readDirtyPages_iff readTransactions_iff mult.commute)
  show "decodeFuzzyCheckpointEndLogPayload b = Inr v"
    using ok unfolding decodeFuzzyCheckpointEndLogPayload_def Let_def
    by (simp add: fb fuzzyEndOk_def small r all_zero_replicate not_less)
qed

end
