(* ===== verification/Table_Definition.thy ===== *)
theory Table_Definition
  imports Field_Layout Schema Slotted_Page
begin

text \<open>
  Table definitions (\<open>include/minidb/table_definition.hpp\<close>, \<open>src/table_definition.cpp\<close>): what the catalog stores
  per table, and its encoding as a catalog tuple.

  The lemmas show that a definition has one encoding and is read back from it.
\<close>

section \<open>Definitions and their encoding\<close>

record table_definition =
  tdTableId :: u64
  tdName :: string
  tdSchema :: schema
  tdHeapMetadataPageId :: page_id
  tdPrimaryIndexMetadataPageId :: page_id

abbreviation INVALID_TABLE_ID :: u64 where "INVALID_TABLE_ID \<equiv> 0"
abbreviation TABLE_DEFINITION_MAGIC :: "byte list" where "TABLE_DEFINITION_MAGIC \<equiv> magic_bytes ''MDBTBLDF''"
abbreviation TABLE_DEFINITION_HEADER_SIZE :: nat where "TABLE_DEFINITION_HEADER_SIZE \<equiv> 48"

definition validateDefinition :: "table_definition \<Rightarrow> unit res" where
  "validateDefinition d =
     (if tdTableId d = INVALID_TABLE_ID
      then Inl (InvalidArgument ''Table definition uses the invalid table ID.'')
      else res_bind (normalizeIdentifier (tdName d)) (\<lambda>name.
        if name \<noteq> tdName d then Inl (InvalidArgument ''Table definition name is not normalized.'')
        else if tdHeapMetadataPageId d = METADATA_PAGE_ID \<or> tdHeapMetadataPageId d = INVALID_PAGE_ID
        then Inl (InvalidArgument ''Table definition has an invalid heap metadata PageId.'')
        else if tdPrimaryIndexMetadataPageId d = METADATA_PAGE_ID
        then Inl (InvalidArgument ''Table definition has an invalid index metadata PageId.'')
        else throw_if ((primaryKeyColumn (tdSchema d) \<noteq> None) \<noteq> (tdPrimaryIndexMetadataPageId d \<noteq> INVALID_PAGE_ID))
          (InvalidArgument ''Table definition primary-index presence disagrees with schema.'')))"

definition encodeTableDefinition :: "table_definition \<Rightarrow> byte list res" where
  "encodeTableDefinition d =
     res_bind (validateDefinition d) (\<lambda>_.
     res_bind (encodeSchema (tdSchema d)) (\<lambda>encodedSchema.
     let encodedSize = TABLE_DEFINITION_HEADER_SIZE + length (tdName d) + length encodedSchema in
     if encodedSize > MAX_TUPLE_SIZE
     then Inl (InvalidArgument ''Table definition exceeds catalog inline tuple capacity.'')
     else Inr
       (let b0 = overwrite (replicate encodedSize 0) 0 TABLE_DEFINITION_MAGIC;
            b1 = put32 b0 8 1;
            b2 = put32 b1 12 48;
            b3 = put32 b2 16 (of_nat encodedSize);
            b4 = put64 b3 24 (tdTableId d);
            b5 = put32 b4 32 (tdHeapMetadataPageId d);
            b6 = put32 b5 36 (tdPrimaryIndexMetadataPageId d);
            b7 = put16 b6 40 (of_nat (length (tdName d)));
            b8 = put32 b7 44 (of_nat (length encodedSchema));
            b9 = overwrite b8 TABLE_DEFINITION_HEADER_SIZE (map char_byte (tdName d))
        in overwrite b9 (TABLE_DEFINITION_HEADER_SIZE + length (tdName d)) encodedSchema)))"

definition decodeTableDefinition :: "byte list \<Rightarrow> table_definition res" where
  "decodeTableDefinition b =
     (if length b < TABLE_DEFINITION_HEADER_SIZE \<or> subspan b 0 8 \<noteq> TABLE_DEFINITION_MAGIC
      then Inl (RuntimeError ''Invalid table-definition magic or size.'')
      else if get32 b 8 \<noteq> 1 then Inl (RuntimeError ''Unsupported table-definition version.'')
      else if get32 b 12 \<noteq> 48 \<or> unat (get32 b 16) \<noteq> length b \<or> get32 b 20 \<noteq> 0 \<or> get16 b 42 \<noteq> 0
      then Inl (RuntimeError ''Table-definition header is malformed.'')
      else
        let nameLength = unat (get16 b 40);
            schemaSize = unat (get32 b 44);
            variableSize = nameLength + schemaSize in
        if variableSize > length b - TABLE_DEFINITION_HEADER_SIZE \<or> TABLE_DEFINITION_HEADER_SIZE + variableSize \<noteq> length b
        then Inl (RuntimeError ''Table-definition variable fields are malformed.'')
        else
          let name = map byte_char (subspan b TABLE_DEFINITION_HEADER_SIZE nameLength) in
          catchInvalidArgument ''Decoded table definition is invalid: ''
            (res_bind (decodeSchema (subspan b (TABLE_DEFINITION_HEADER_SIZE + nameLength) schemaSize)) (\<lambda>schema.
             let d = \<lparr>tdTableId = get64 b 24, tdName = name, tdSchema = schema,
                      tdHeapMetadataPageId = get32 b 32, tdPrimaryIndexMetadataPageId = get32 b 36\<rparr> in
             res_bind (validateDefinition d) (\<lambda>_.
             res_bind (encodeTableDefinition d) (\<lambda>encoded.
             if encoded \<noteq> b then Inl (RuntimeError ''Table-definition encoding is not canonical.'')
             else Inr d)))))"

section \<open>One encoding per definition\<close>

lemma decode_schema_of_encoding:
  assumes "create s = Inr s" "encodeSchema s = Inr b"
  shows "decodeSchema b = Inr s"
  using assms create_ok(1) [of s s] encodeSchema_eq [of s] decode_encode_schema [of s] by auto

lemma encodeTableDefinition_ok:
  assumes "encodeTableDefinition d = Inr b"
  obtains e where "encodeSchema (tdSchema d) = Inr e" "validateDefinition d = Inr ()"
    "length b = 48 + length (tdName d) + length e" "length b \<le> MAX_TUPLE_SIZE"
    "subspan b 0 8 = TABLE_DEFINITION_MAGIC" "get32 b 8 = 1" "get32 b 12 = 48" "get32 b 16 = of_nat (length b)" "get32 b 20 = 0"
    "get64 b 24 = tdTableId d" "get32 b 32 = tdHeapMetadataPageId d" "get32 b 36 = tdPrimaryIndexMetadataPageId d"
    "get16 b 40 = of_nat (length (tdName d))" "get16 b 42 = 0" "get32 b 44 = of_nat (length e)"
    "subspan b 48 (length (tdName d)) = map char_byte (tdName d)" "subspan b (48 + length (tdName d)) (length e) = e"
proof -
  from assms obtain e where e: "encodeSchema (tdSchema d) = Inr e" "validateDefinition d = Inr ()"
      "48 + length (tdName d) + length e \<le> MAX_TUPLE_SIZE"
    and b: "b = overwrite (overwrite (put32 (put16 (put32 (put32 (put64 (put32 (put32 (put32 (overwrite
        (replicate (48 + length (tdName d) + length e) 0) 0 TABLE_DEFINITION_MAGIC) 8 1) 12 48)
        16 (of_nat (48 + length (tdName d) + length e))) 24 (tdTableId d)) 32 (tdHeapMetadataPageId d))
        36 (tdPrimaryIndexMetadataPageId d)) 40 (of_nat (length (tdName d)))) 44 (of_nat (length e)))
        48 (map char_byte (tdName d))) (48 + length (tdName d)) e"
    by (auto simp: encodeTableDefinition_def Let_def res_simps split: if_splits)
  show thesis
    by (rule that [of e]) (use e in \<open>simp_all add: b layout_simps\<close>)
qed

text \<open>
  C27: A byte string decodes to a table definition exactly when the definition's schema is one that \<open>create\<close> accepts
  and the byte string is the encoding of the definition.
\<close>

theorem table_definition_encoding_exact:
  "decodeTableDefinition b = Inr d \<longleftrightarrow> create (tdSchema d) = Inr (tdSchema d) \<and> encodeTableDefinition d = Inr b"
proof
  assume "decodeTableDefinition b = Inr d"
  then obtain n m where e: "encodeTableDefinition d = Inr b" and s: "decodeSchema (subspan b n m) = Inr (tdSchema d)"
    by (auto simp: decodeTableDefinition_def Let_def catchInvalidArgument_Inr res_simps split: if_splits)
  from decodeSchema_ok(1) [OF s] e show "create (tdSchema d) = Inr (tdSchema d) \<and> encodeTableDefinition d = Inr b"
    by (simp add: create_id)
next
  assume a: "create (tdSchema d) = Inr (tdSchema d) \<and> encodeTableDefinition d = Inr b"
  from encodeTableDefinition_ok [OF conjunct2 [OF a]] obtain e where
    f: "encodeSchema (tdSchema d) = Inr e" "validateDefinition d = Inr ()"
    "length b = 48 + length (tdName d) + length e" "length b \<le> MAX_TUPLE_SIZE"
    "subspan b 0 8 = TABLE_DEFINITION_MAGIC" "get32 b 8 = 1" "get32 b 12 = 48" "get32 b 16 = of_nat (length b)" "get32 b 20 = 0"
    "get64 b 24 = tdTableId d" "get32 b 32 = tdHeapMetadataPageId d" "get32 b 36 = tdPrimaryIndexMetadataPageId d"
    "get16 b 40 = of_nat (length (tdName d))" "get16 b 42 = 0" "get32 b 44 = of_nat (length e)"
    "subspan b 48 (length (tdName d)) = map char_byte (tdName d)" "subspan b (48 + length (tdName d)) (length e) = e" .
  have n: "unat (of_nat (length b) :: u32) = length b" "unat (of_nat (length (tdName d)) :: u16) = length (tdName d)"
      "unat (of_nat (length e) :: u32) = length e"
  proof -
    have "length b < 2 ^ LENGTH(32)" "length (tdName d) < 2 ^ LENGTH(16)" "length e < 2 ^ LENGTH(32)" using f(3,4) by simp_all
    then show "unat (of_nat (length b) :: u32) = length b" "unat (of_nat (length (tdName d)) :: u16) = length (tdName d)"
      "unat (of_nat (length e) :: u32) = length e" by (intro unat_of_nat_small; simp)+
  qed
  have s: "decodeSchema e = Inr (tdSchema d)" using decode_schema_of_encoding a f(1) by blast
  have d: "\<lparr>tdTableId = tdTableId d, tdName = tdName d, tdSchema = tdSchema d, tdHeapMetadataPageId = tdHeapMetadataPageId d,
      tdPrimaryIndexMetadataPageId = tdPrimaryIndexMetadataPageId d\<rparr> = d" by (cases d) simp
  show "decodeTableDefinition b = Inr d"
    using a f(3,4)
    unfolding decodeTableDefinition_def Let_def f(5-15) n f(16,17) s
    by (simp add: d f(2) comp_def catchInvalidArgument_def)
qed

end
