(* ===== verification/BPlus_Tree.thy ===== *)
theory BPlus_Tree
  imports Page_Formats
begin

text \<open>
  The in-memory B+ tree (\<open>include/minidb/bplus_tree.hpp\<close>, \<open>include/minidb/index_types.hpp\<close>,
  \<open>src/bplus_tree.cpp\<close>).

  A node is a value; an owning pointer to a child is the child itself. A node has an identity, its address: \<open>btNextId\<close>
  is the next one allocated. A node holds its \<open>parent\<close> pointer, the identity of a node or \<open>None\<close>, and every assignment
  to \<open>parent\<close> in the source is a \<open>setParent\<close> or a first argument of a constructor here. \<open>btLinks\<close> gives the
  \<open>previous\<close> and \<open>next\<close> pointer of each leaf by identity.

  To go up the tree there is a path: \<open>findLeaf\<close> returns, with the leaf, a crumb for each ancestor from the innermost
  outwards, that holds the ancestor's parent pointer, identity and keys and its children left and right of the path.
  Where the source follows a \<open>parent\<close> pointer, the model compares the pointer with the ancestor on the path, and a
  pointer to any other node is an error: that of \<open>childIndex\<close>, which does not find the child, or \<open>danglingParent\<close>
  where the source would rebuild another node or read freed memory. \<open>childIndex\<close> itself is then the number of children
  on the left. \<open>std::lower_bound\<close> and \<open>std::upper_bound\<close> on a sorted vector are the number of keys
  before the bound. An index that is out of range, undefined behaviour in the source, is the error
  \<open>OutOfRange\<close>, and following a dangling leaf pointer has no value; none of these happens. An operation that throws
  has no resulting tree; only an invalid record id makes one throw.

  The lemmas show that a tree is a finite map: every operation has the effect and the result it should on the
  map, keeps the balance, the occupancy of the nodes, the separators, the parent pointers and the leaf chain, never
  throws one of its internal errors, and ends.
\<close>

section \<open>State\<close>

type_synonym index_key = u32
type_synonym index_entry = "index_key \<times> record_id"

datatype node = Leaf "nat option" nat "index_key list" "record_id list"
  | Internal "nat option" nat "index_key list" "node list"

definition parentOf :: "node \<Rightarrow> nat option" where
  "parentOf n = (case n of Leaf p i keys vals \<Rightarrow> p | Internal p i keys children \<Rightarrow> p)"

definition nodeId :: "node \<Rightarrow> nat" where
  "nodeId n = (case n of Leaf p i keys vals \<Rightarrow> i | Internal p i keys children \<Rightarrow> i)"

text \<open>The assignment \<open>node->parent = p\<close>.\<close>

definition setParent :: "nat option \<Rightarrow> node \<Rightarrow> node" where
  "setParent p n = (case n of Leaf q i keys vals \<Rightarrow> Leaf p i keys vals | Internal q i keys children \<Rightarrow> Internal p i keys children)"

definition notOwned :: exn where
  "notOwned = LogicError ''B+ tree parent does not own the expected child.''"

definition danglingParent :: exn where
  "danglingParent = OutOfRange ''parent''"

record leaf_link =
  lkPrevious :: "nat option"
  lkNext :: "nat option"

record bplus_tree =
  btRoot :: "node option"
  btSize :: nat
  btLeafMax :: nat
  btInternalMax :: nat
  btLeafMin :: nat
  btInternalMin :: nat
  btLinks :: "nat \<Rightarrow> leaf_link"
  btNextId :: nat

datatype crumb = Crumb "nat option" nat "index_key list" "node list" "node list"

definition BPlusTree :: "nat \<Rightarrow> nat \<Rightarrow> bplus_tree res" where
  "BPlusTree leafMaxKeys internalMaxKeys =
     (if leafMaxKeys < 3 \<or> internalMaxKeys < 3
      then Inl (InvalidArgument ''B+ tree node capacities must each be at least 3.'')
      else Inr \<lparr>btRoot = None, btSize = 0, btLeafMax = leafMaxKeys, btInternalMax = internalMaxKeys,
             btLeafMin = leafMaxKeys div 2 + leafMaxKeys mod 2, btInternalMin = internalMaxKeys div 2,
             btLinks = (\<lambda>_. \<lparr>lkPrevious = None, lkNext = None\<rparr>), btNextId = 0\<rparr>)"

definition lowerBound :: "index_key list \<Rightarrow> index_key \<Rightarrow> nat" where
  "lowerBound keys key = length (takeWhile (\<lambda>k. k < key) keys)"

definition upperBound :: "index_key list \<Rightarrow> index_key \<Rightarrow> nat" where
  "upperBound keys key = length (takeWhile (\<lambda>k. k \<le> key) keys)"

section \<open>Searching\<close>

lemma nth_size_list: "i < length cs \<Longrightarrow> size (cs ! i) < Suc (size_list size cs)"
  by (simp add: less_Suc_eq_le size_list_estimation' [OF nth_mem])

function descend :: "index_key \<Rightarrow> crumb list \<Rightarrow> node \<Rightarrow> (crumb list \<times> nat option \<times> nat \<times> index_key list \<times> record_id list) res" where
  "descend key path (Leaf p i keys vals) = Inr (path, p, i, keys, vals)"
| "descend key path (Internal p i keys children) =
     (let child = upperBound keys key in
      if child < length children
      then descend key (Crumb p i keys (take child children) (drop (Suc child) children) # path) (children ! child)
      else Inl (OutOfRange ''children''))"
  by pat_completeness auto

termination
  by (relation "measure (\<lambda>(key, path, n). size n)") (auto simp: nth_size_list)

definition treeFind :: "bplus_tree \<Rightarrow> index_key \<Rightarrow> record_id option res" where
  "treeFind t key = (case btRoot t of
     None \<Rightarrow> Inr None
   | Some root \<Rightarrow> res_bind (descend key [] root) (\<lambda>(path, p, i, keys, vals).
       let position = lowerBound keys key in
       if position = length keys \<or> keys ! position \<noteq> key then Inr None
       else if position < length vals then Inr (Some (vals ! position))
       else Inl (OutOfRange ''values'')))"

text \<open>The leaf behind a pointer.\<close>

fun leafAt :: "node \<Rightarrow> nat \<Rightarrow> (index_key list \<times> record_id list) option"
  and leafIn :: "node list \<Rightarrow> nat \<Rightarrow> (index_key list \<times> record_id list) option"
where
  "leafAt (Leaf p i keys vals) j = (if i = j then Some (keys, vals) else None)"
| "leafAt (Internal p i keys children) j = leafIn children j"
| "leafIn [] j = None"
| "leafIn (c # cs) j = (case leafAt c j of None \<Rightarrow> leafIn cs j | Some kv \<Rightarrow> Some kv)"

fun scanLeaf :: "index_key \<Rightarrow> index_entry list \<Rightarrow> index_entry list \<Rightarrow> index_entry list \<times> bool" where
  "scanLeaf upper [] found = (found, False)"
| "scanLeaf upper ((key, v) # rest) found =
     (if key > upper then (found, True) else scanLeaf upper rest (found @ [(key, v)]))"

partial_function (option) rangeLoop ::
  "node \<Rightarrow> (nat \<Rightarrow> leaf_link) \<Rightarrow> index_key \<Rightarrow> nat \<Rightarrow> nat \<Rightarrow> index_entry list \<Rightarrow> index_entry list option"
where
  "rangeLoop root links upper leaf index found = (case leafAt root leaf of
     None \<Rightarrow> None
   | Some kv \<Rightarrow> (let res = scanLeaf upper (drop index (zip (fst kv) (snd kv))) found in
       if snd res then Some (fst res)
       else (case lkNext (links leaf) of
           None \<Rightarrow> Some (fst res)
         | Some following \<Rightarrow> rangeLoop root links upper following 0 (fst res))))"

text \<open>\<open>None\<close> stands for a scan that does not come to an end.\<close>

definition rangeScan :: "bplus_tree \<Rightarrow> index_key \<Rightarrow> index_key \<Rightarrow> index_entry list option res" where
  "rangeScan t lowerInclusive upperInclusive = (case btRoot t of
     None \<Rightarrow> Inr (Some [])
   | Some root \<Rightarrow>
       if lowerInclusive > upperInclusive then Inr (Some [])
       else res_bind (descend lowerInclusive [] root) (\<lambda>(path, p, i, keys, vals).
         Inr (rangeLoop root (btLinks t) upperInclusive i (lowerBound keys lowerInclusive) [])))"

fun leftmostLeaf :: "node \<Rightarrow> nat res" where
  "leftmostLeaf (Leaf p i keys vals) = Inr i"
| "leftmostLeaf (Internal p i keys []) = Inl (OutOfRange ''children'')"
| "leftmostLeaf (Internal p i keys (c # cs)) = leftmostLeaf c"

partial_function (option) scanAllLoop :: "node \<Rightarrow> (nat \<Rightarrow> leaf_link) \<Rightarrow> nat \<Rightarrow> index_entry list \<Rightarrow> index_entry list option" where
  "scanAllLoop root links leaf found = (case leafAt root leaf of
     None \<Rightarrow> None
   | Some kv \<Rightarrow> (let found' = found @ zip (fst kv) (snd kv) in
       (case lkNext (links leaf) of
           None \<Rightarrow> Some found'
         | Some following \<Rightarrow> scanAllLoop root links following found')))"

definition scanAll :: "bplus_tree \<Rightarrow> index_entry list option res" where
  "scanAll t = (case btRoot t of
     None \<Rightarrow> Inr (Some [])
   | Some root \<Rightarrow> res_bind (leftmostLeaf root) (\<lambda>leaf. Inr (scanAllLoop root (btLinks t) leaf [])))"

fun nodeHeight :: "node \<Rightarrow> nat" where
  "nodeHeight (Leaf p i keys vals) = 1"
| "nodeHeight (Internal p i keys []) = 1"
| "nodeHeight (Internal p i keys (c # cs)) = Suc (nodeHeight c)"

definition treeHeight :: "bplus_tree \<Rightarrow> nat" where
  "treeHeight t = (case btRoot t of None \<Rightarrow> 0 | Some root \<Rightarrow> nodeHeight root)"

section \<open>Separators\<close>

fun subtreeMinimum :: "node \<Rightarrow> index_key res" where
  "subtreeMinimum (Leaf p i [] vals) = Inl (LogicError ''B+ tree subtree contains an empty leaf.'')"
| "subtreeMinimum (Leaf p i (k # keys) vals) = Inr k"
| "subtreeMinimum (Internal p i keys []) = Inl (LogicError ''Internal B+ tree node has no children.'')"
| "subtreeMinimum (Internal p i keys (c # cs)) = subtreeMinimum c"

fun minima :: "node list \<Rightarrow> index_key list res" where
  "minima [] = Inr []"
| "minima (c # cs) = res_bind (subtreeMinimum c) (\<lambda>k. res_bind (minima cs) (\<lambda>ks. Inr (k # ks)))"

text \<open>The internal node with this parent pointer, this identity and these children, its keys built anew.\<close>

definition rebuildKeys :: "nat option \<Rightarrow> nat \<Rightarrow> node list \<Rightarrow> node res" where
  "rebuildKeys p i children =
     (if children = [] then Inl (LogicError ''Cannot rebuild separators for a non-internal node.'')
      else res_bind (minima (tl children)) (\<lambda>keys. Inr (Internal p i keys children)))"

text \<open>The root above a node whose ancestors are rebuilt one after the other.\<close>

fun refreshAncestors :: "crumb list \<Rightarrow> node \<Rightarrow> node res" where
  "refreshAncestors [] n = (if parentOf n = None then Inr n else Inl danglingParent)"
| "refreshAncestors (Crumb p j keys left right # path) n =
     (if parentOf n \<noteq> Some j then Inl danglingParent
      else res_bind (rebuildKeys p j (left @ n # right)) (\<lambda>parent. refreshAncestors path parent))"

section \<open>Insertion\<close>

definition keyCount :: "node \<Rightarrow> nat" where
  "keyCount n = (case n of Leaf p i keys vals \<Rightarrow> length keys | Internal p i keys children \<Rightarrow> length keys)"

text \<open>The last argument is the next free identity; the result is the root and the identity that is free then.\<close>

function insertRightSibling :: "nat \<Rightarrow> crumb list \<Rightarrow> node \<Rightarrow> node \<Rightarrow> nat \<Rightarrow> (node \<times> nat) res"
  and splitInternal :: "nat \<Rightarrow> crumb list \<Rightarrow> nat option \<Rightarrow> nat \<Rightarrow> node list \<Rightarrow> nat \<Rightarrow> (node \<times> nat) res"
where
  "insertRightSibling internalMax [] left right fresh =
     res_bind (rebuildKeys None fresh [setParent (Some fresh) left, setParent (Some fresh) right]) (\<lambda>newRoot. Inr (newRoot, Suc fresh))"
| "insertRightSibling internalMax (Crumb p j keys before after # path) left right fresh =
     (if parentOf left \<noteq> Some j then Inl notOwned
      else
        let children = before @ left # setParent (Some j) right # after in
        res_bind (rebuildKeys p j children) (\<lambda>parent.
        if keyCount parent > internalMax then splitInternal internalMax path p j children fresh
        else res_bind (refreshAncestors path parent) (\<lambda>root. Inr (root, fresh))))"
| "splitInternal internalMax path p j children fresh =
     (let leftChildCount = (length children + 1) div 2 in
      res_bind (rebuildKeys p j (take leftChildCount children)) (\<lambda>left.
      res_bind (rebuildKeys p fresh (map (setParent (Some fresh)) (drop leftChildCount children))) (\<lambda>right.
      insertRightSibling internalMax path left right (Suc fresh))))"
  by pat_completeness auto

termination
  by (relation "measure (\<lambda>x. case x of Inl (m, path, l, r, n) \<Rightarrow> 2 * length path | Inr (m, path, p, j, cs, n) \<Rightarrow> 2 * length path + 1)") auto

definition linkRight :: "nat \<Rightarrow> nat \<Rightarrow> (nat \<Rightarrow> leaf_link) \<Rightarrow> nat \<Rightarrow> leaf_link" where
  "linkRight leaf right links =
     (let following = lkNext (links leaf);
          l1 = links(right := \<lparr>lkPrevious = Some leaf, lkNext = following\<rparr>);
          l2 = (case following of None \<Rightarrow> l1 | Some f \<Rightarrow> l1(f := (l1 f)\<lparr>lkPrevious := Some right\<rparr>))
      in l2(leaf := (l2 leaf)\<lparr>lkNext := Some right\<rparr>))"

definition splitLeaf :: "bplus_tree \<Rightarrow> crumb list \<Rightarrow> nat option \<Rightarrow> nat \<Rightarrow> index_key list \<Rightarrow> record_id list \<Rightarrow> bplus_tree res" where
  "splitLeaf t path p leaf keys vals =
     (let right = btNextId t;
          leftSize = (length keys + 1) div 2 in
      res_bind (insertRightSibling (btInternalMax t) path (Leaf p leaf (take leftSize keys) (take leftSize vals))
        (Leaf p right (drop leftSize keys) (drop leftSize vals)) (Suc right)) (\<lambda>(root, fresh).
      Inr (t\<lparr>btRoot := Some root, btLinks := linkRight leaf right (btLinks t), btNextId := fresh\<rparr>)))"

definition insertAtIndex :: "nat \<Rightarrow> 'a \<Rightarrow> 'a list \<Rightarrow> 'a list" where
  "insertAtIndex i x xs = take i xs @ x # drop i xs"

definition treeInsert :: "index_key \<Rightarrow> record_id \<Rightarrow> bplus_tree \<Rightarrow> (bool \<times> bplus_tree) res" where
  "treeInsert key recordId t =
     (if \<not> recordIdIsValid recordId
      then Inl (InvalidArgument ''B+ tree cannot index an invalid RecordId.'')
      else case btRoot t of
        None \<Rightarrow> Inr (True, t\<lparr>btRoot := Some (Leaf None (btNextId t) [key] [recordId]), btSize := 1,
          btLinks := (btLinks t)(btNextId t := \<lparr>lkPrevious = None, lkNext = None\<rparr>), btNextId := Suc (btNextId t)\<rparr>)
      | Some root \<Rightarrow> res_bind (descend key [] root) (\<lambda>(path, p, leaf, keys, vals).
          let index = lowerBound keys key in
          if index < length keys \<and> keys ! index = key then Inr (False, t)
          else
            let keys' = insertAtIndex index key keys;
                vals' = insertAtIndex index recordId vals;
                t1 = t\<lparr>btSize := btSize t + 1\<rparr> in
            res_bind (if length keys' > btLeafMax t then splitLeaf t1 path p leaf keys' vals'
              else res_bind (refreshAncestors path (Leaf p leaf keys' vals')) (\<lambda>root'. Inr (t1\<lparr>btRoot := Some root'\<rparr>)))
            (\<lambda>t2. Inr (True, t2))))"

section \<open>Removal\<close>

definition childCount :: "node \<Rightarrow> nat" where
  "childCount n = (case n of Leaf p i keys vals \<Rightarrow> 0 | Internal p i keys children \<Rightarrow> length children)"

definition childrenOf :: "node \<Rightarrow> node list" where
  "childrenOf n = (case n of Leaf p i keys vals \<Rightarrow> [] | Internal p i keys children \<Rightarrow> children)"

text \<open>
  The branches of \<open>rebalanceInternal\<close> rebuild the siblings they touch first, then their parent, and go on above it.
\<close>

function finishInternalRemoval :: "nat \<Rightarrow> crumb list \<Rightarrow> nat option \<Rightarrow> nat \<Rightarrow> node list \<Rightarrow> node res"
  and rebalanceInternal :: "nat \<Rightarrow> crumb list \<Rightarrow> nat option \<Rightarrow> nat \<Rightarrow> node list \<Rightarrow> node res"
where
  "finishInternalRemoval internalMin path p i children =
     (if children = [] then Inl (LogicError ''B+ tree internal node lost all children.'')
      else res_bind (rebuildKeys p i children) (\<lambda>n.
        if path = [] then (if length children = 1 then Inr (setParent None (hd children)) else Inr n)
        else if keyCount n \<ge> internalMin then refreshAncestors path n
        else rebalanceInternal internalMin path p i children))"
| "rebalanceInternal internalMin [] p i children = Inl notOwned"
| "rebalanceInternal internalMin (Crumb q j keys before after # path) p i children =
     (let minimumChildren = internalMin + 1 in
      if p \<noteq> Some j then Inl notOwned
      else if before \<noteq> [] \<and> childCount (last before) > minimumChildren then
        let moved = last (childrenOf (last before)) in
        res_bind (rebuildKeys (parentOf (last before)) (nodeId (last before)) (butlast (childrenOf (last before)))) (\<lambda>left.
        res_bind (rebuildKeys p i (setParent (Some i) moved # children)) (\<lambda>n.
        res_bind (rebuildKeys q j (butlast before @ left # n # after)) (\<lambda>parent.
        refreshAncestors path parent)))
      else if after \<noteq> [] \<and> childCount (hd after) > minimumChildren then
        let moved = hd (childrenOf (hd after)) in
        res_bind (rebuildKeys (parentOf (hd after)) (nodeId (hd after)) (tl (childrenOf (hd after)))) (\<lambda>right.
        res_bind (rebuildKeys p i (children @ [setParent (Some i) moved])) (\<lambda>n.
        res_bind (rebuildKeys q j (before @ n # right # tl after)) (\<lambda>parent.
        refreshAncestors path parent)))
      else if before \<noteq> [] then
        let l = nodeId (last before) in
        res_bind (rebuildKeys (parentOf (last before)) l (childrenOf (last before) @ map (setParent (Some l)) children)) (\<lambda>left.
        finishInternalRemoval internalMin path q j (butlast before @ left # after))
      else if after \<noteq> [] then
        res_bind (rebuildKeys p i (children @ map (setParent (Some i)) (childrenOf (hd after)))) (\<lambda>n.
        finishInternalRemoval internalMin path q j (before @ n # tl after))
      else Inl (LogicError ''Underfull B+ tree internal node has no sibling.''))"
  by pat_completeness auto

termination
  by (relation "measure (\<lambda>x. case x of Inl (m, path, p, i, cs) \<Rightarrow> 2 * length path + 1 | Inr (m, path, p, i, cs) \<Rightarrow> 2 * length path)") auto

definition unlinkRight :: "nat \<Rightarrow> nat \<Rightarrow> (nat \<Rightarrow> leaf_link) \<Rightarrow> nat \<Rightarrow> leaf_link" where
  "unlinkRight left removed links =
     (let following = lkNext (links removed);
          l1 = links(left := (links left)\<lparr>lkNext := following\<rparr>)
      in (case following of None \<Rightarrow> l1 | Some f \<Rightarrow> l1(f := (l1 f)\<lparr>lkPrevious := Some left\<rparr>)))"

text \<open>The result is the root and the links. A sibling of a leaf is a leaf.\<close>

definition rebalanceLeaf ::
  "bplus_tree \<Rightarrow> crumb list \<Rightarrow> nat option \<Rightarrow> nat \<Rightarrow> index_key list \<Rightarrow> record_id list \<Rightarrow> (node \<times> (nat \<Rightarrow> leaf_link)) res"
where
  "rebalanceLeaf t path p leaf keys vals = (case path of
     [] \<Rightarrow> Inl notOwned
   | Crumb q j pkeys before after # rest \<Rightarrow>
      if p \<noteq> Some j then Inl notOwned
      else (case (if before = [] then None else Some (last before), if after = [] then None else Some (hd after)) of
         (Some (Internal _ _ _ _), _) \<Rightarrow> Inl (LogicError ''sibling of a leaf'')
       | (_, Some (Internal _ _ _ _)) \<Rightarrow> Inl (LogicError ''sibling of a leaf'')
       | (left, right) \<Rightarrow>
          if (case left of Some (Leaf lp i ks vs) \<Rightarrow> length ks > btLeafMin t | _ \<Rightarrow> False) then
            (case left of Some (Leaf lp i ks vs) \<Rightarrow>
               res_bind (rebuildKeys q j (butlast before @ Leaf lp i (butlast ks) (butlast vs)
                 # Leaf p leaf (last ks # keys) (last vs # vals) # after)) (\<lambda>parent.
               res_bind (refreshAncestors rest parent) (\<lambda>root. Inr (root, btLinks t))))
          else if (case right of Some (Leaf rp i ks vs) \<Rightarrow> length ks > btLeafMin t | _ \<Rightarrow> False) then
            (case right of Some (Leaf rp i ks vs) \<Rightarrow>
               res_bind (rebuildKeys q j (before @ Leaf p leaf (keys @ [hd ks]) (vals @ [hd vs])
                 # Leaf rp i (tl ks) (tl vs) # tl after)) (\<lambda>parent.
               res_bind (refreshAncestors rest parent) (\<lambda>root. Inr (root, btLinks t))))
          else (case (left, right) of
              (Some (Leaf lp i ks vs), _) \<Rightarrow>
                res_bind (finishInternalRemoval (btInternalMin t) rest q j
                  (butlast before @ Leaf lp i (ks @ keys) (vs @ vals) # after)) (\<lambda>root.
                Inr (root, unlinkRight i leaf (btLinks t)))
            | (_, Some (Leaf rp i ks vs)) \<Rightarrow>
                res_bind (finishInternalRemoval (btInternalMin t) rest q j
                  (before @ Leaf p leaf (keys @ ks) (vals @ vs) # tl after)) (\<lambda>root.
                Inr (root, unlinkRight leaf i (btLinks t)))
            | _ \<Rightarrow> Inl (LogicError ''Underfull B+ tree leaf has no sibling.''))))"

definition removeAtIndex :: "nat \<Rightarrow> 'a list \<Rightarrow> 'a list" where
  "removeAtIndex i xs = take i xs @ drop (Suc i) xs"

definition treeErase :: "index_key \<Rightarrow> bplus_tree \<Rightarrow> (bool \<times> bplus_tree) res" where
  "treeErase key t = (case btRoot t of
     None \<Rightarrow> Inr (False, t)
   | Some root \<Rightarrow> res_bind (descend key [] root) (\<lambda>(path, p, leaf, keys, vals).
       let index = lowerBound keys key in
       if index = length keys \<or> keys ! index \<noteq> key then Inr (False, t)
       else
         let keys' = removeAtIndex index keys;
             vals' = removeAtIndex index vals;
             t1 = t\<lparr>btSize := btSize t - 1\<rparr> in
         if path = [] then Inr (True, t1\<lparr>btRoot := (if keys' = [] then None else Some (Leaf p leaf keys' vals'))\<rparr>)
         else if length keys' \<ge> btLeafMin t then
           res_bind (refreshAncestors path (Leaf p leaf keys' vals')) (\<lambda>root'. Inr (True, t1\<lparr>btRoot := Some root'\<rparr>))
         else
           res_bind (rebalanceLeaf t1 path p leaf keys' vals') (\<lambda>(root', links').
           Inr (True, t1\<lparr>btRoot := Some root', btLinks := links'\<rparr>))))"

section \<open>Validation\<close>

text \<open>
  \<open>validateNode\<close> returns the least and the greatest key and the number of entries below a node; it carries the depth of
  the first leaf and the leaves seen so far. That a leaf owns no children, that an internal node has no values and no
  leaf links and that no child is null holds by the form of nodes.
\<close>

type_synonym validation = "nat option \<times> (nat \<times> index_key list) list"

definition validateLeaf :: "bplus_tree \<Rightarrow> bool \<Rightarrow> nat \<Rightarrow> nat \<Rightarrow> index_key list \<Rightarrow> record_id list \<Rightarrow> validation
    \<Rightarrow> ((index_key \<times> index_key \<times> nat) \<times> validation) res" where
  "validateLeaf t isRoot depth i keys vals seen =
     (if \<not> sorted_wrt (<) keys then Inl (RuntimeError ''B+ tree node keys are not strictly sorted.'')
      else if length keys \<noteq> length vals then Inl (RuntimeError ''B+ tree leaf key/value counts differ.'')
      else if keys = [] \<or> length keys > btLeafMax t then Inl (RuntimeError ''B+ tree leaf has illegal occupancy.'')
      else if \<not> isRoot \<and> length keys < btLeafMin t
      then Inl (RuntimeError ''Non-root B+ tree leaf is below minimum occupancy.'')
      else if \<not> list_all recordIdIsValid vals then Inl (RuntimeError ''B+ tree leaf contains an invalid RecordId.'')
      else if (case fst seen of None \<Rightarrow> False | Some d \<Rightarrow> d \<noteq> depth)
      then Inl (RuntimeError ''B+ tree leaves are at different depths.'')
      else Inr ((hd keys, last keys, length keys), (Some depth, snd seen @ [(i, keys)])))"

fun boundsLoop :: "index_key list \<Rightarrow> (index_key \<times> index_key \<times> nat) \<Rightarrow> (index_key \<times> index_key \<times> nat) list \<Rightarrow> nat
    \<Rightarrow> nat res" where
  "boundsLoop keys previous [] n = Inr n"
| "boundsLoop keys previous (b # bs) n =
     (if fst (snd previous) \<ge> fst b then Inl (RuntimeError ''B+ tree child key ranges overlap.'')
      else if hd keys \<noteq> fst b then Inl (RuntimeError ''B+ tree separator does not equal right-subtree minimum.'')
      else boundsLoop (tl keys) b bs (n + snd (snd b)))"

fun validateNode :: "bplus_tree \<Rightarrow> bool \<Rightarrow> nat option \<Rightarrow> nat \<Rightarrow> node \<Rightarrow> validation
    \<Rightarrow> ((index_key \<times> index_key \<times> nat) \<times> validation) res"
  and validateChildren :: "bplus_tree \<Rightarrow> nat option \<Rightarrow> nat \<Rightarrow> node list \<Rightarrow> validation
    \<Rightarrow> ((index_key \<times> index_key \<times> nat) list \<times> validation) res"
where
  "validateNode t isRoot expectedParent depth (Leaf p i keys vals) seen =
     (if p \<noteq> expectedParent then Inl (RuntimeError ''B+ tree child has an incorrect parent pointer.'')
      else validateLeaf t isRoot depth i keys vals seen)"
| "validateNode t isRoot expectedParent depth (Internal p i keys children) seen =
     (if p \<noteq> expectedParent then Inl (RuntimeError ''B+ tree child has an incorrect parent pointer.'')
      else if \<not> sorted_wrt (<) keys then Inl (RuntimeError ''B+ tree node keys are not strictly sorted.'')
      else if length children \<noteq> length keys + 1
      then Inl (RuntimeError ''B+ tree internal child-count invariant failed.'')
      else if length keys > btInternalMax t
      then Inl (RuntimeError ''B+ tree internal node exceeds maximum occupancy.'')
      else if isRoot \<and> keys = [] then Inl (RuntimeError ''B+ tree internal root has fewer than two children.'')
      else if \<not> isRoot \<and> length keys < btInternalMin t
      then Inl (RuntimeError ''Non-root B+ tree internal node is below minimum occupancy.'')
      else res_bind (validateChildren t (Some i) (depth + 1) children seen) (\<lambda>(childBounds, seen').
        res_bind (boundsLoop keys (hd childBounds) (tl childBounds) (snd (snd (hd childBounds)))) (\<lambda>n.
        Inr ((fst (hd childBounds), fst (snd (last childBounds)), n), seen'))))"
| "validateChildren t expectedParent depth [] seen = Inr ([], seen)"
| "validateChildren t expectedParent depth (c # cs) seen =
     res_bind (validateNode t False expectedParent depth c seen) (\<lambda>(b, seen').
     res_bind (validateChildren t expectedParent depth cs seen') (\<lambda>(bs, seen''). Inr (b # bs, seen'')))"

fun validateLinks :: "(nat \<Rightarrow> leaf_link) \<Rightarrow> (nat \<times> index_key list) option \<Rightarrow> (nat \<times> index_key list) list \<Rightarrow> unit res" where
  "validateLinks links previous [] = Inr ()"
| "validateLinks links previous ((i, keys) # rest) =
     (if lkPrevious (links i) \<noteq> map_option fst previous
         \<or> lkNext (links i) \<noteq> (case rest of [] \<Rightarrow> None | (j, _) # _ \<Rightarrow> Some j)
      then Inl (RuntimeError ''B+ tree leaf links disagree with tree order.'')
      else if (case previous of None \<Rightarrow> False | Some (_, pkeys) \<Rightarrow> last pkeys \<ge> hd keys)
      then Inl (RuntimeError ''Adjacent B+ tree leaves are not strictly ordered.'')
      else validateLinks links (Some (i, keys)) rest)"

fun validateChain :: "(nat \<Rightarrow> nat option) \<Rightarrow> string \<Rightarrow> nat option \<Rightarrow> nat list \<Rightarrow> unit res" where
  "validateChain step direction current [] = throw_if (current \<noteq> None)
     (RuntimeError (''B+ tree '' @ direction @ '' leaf chain contains extra nodes or a cycle.''))"
| "validateChain step direction current (i # rest) =
     (if current \<noteq> Some i then Inl (RuntimeError (''B+ tree '' @ direction @ '' leaf chain skips or duplicates a leaf.''))
      else validateChain step direction (step i) rest)"

definition treeValidate :: "bplus_tree \<Rightarrow> unit res" where
  "treeValidate t = (case btRoot t of
     None \<Rightarrow> throw_if (btSize t \<noteq> 0) (RuntimeError ''Empty B+ tree has a nonzero size.'')
   | Some root \<Rightarrow>
       if parentOf root \<noteq> None then Inl (RuntimeError ''B+ tree root has a parent.'')
       else res_bind (validateNode t True None 0 root (None, [])) (\<lambda>((lo, hi, n), (leafDepth, leaves)).
       if n \<noteq> btSize t then Inl (RuntimeError ''B+ tree entry count does not match size.'')
       else
         res_bind (validateLinks (btLinks t) None leaves) (\<lambda>_.
         res_bind (validateChain (\<lambda>i. lkNext (btLinks t i)) ''forward'' (Some (fst (hd leaves))) (map fst leaves)) (\<lambda>_.
         validateChain (\<lambda>i. lkPrevious (btLinks t i)) ''backward'' (Some (fst (last leaves))) (rev (map fst leaves))))))"

section \<open>Shape\<close>

text \<open>The leaves below a node, from left to right, and their entries.\<close>

fun leavesOf :: "node \<Rightarrow> (nat \<times> index_entry list) list" where
  "leavesOf (Leaf p i keys vals) = [(i, zip keys vals)]"
| "leavesOf (Internal p i keys children) = concat (map leavesOf children)"

abbreviation ents :: "(nat \<times> index_entry list) list \<Rightarrow> index_entry list" where
  "ents ls \<equiv> concat (map snd ls)"

definition minKey :: "node \<Rightarrow> index_key" where
  "minKey n = fst (hd (ents (leavesOf n)))"

record capacities =
  cLeafMin :: nat
  cLeafMax :: nat
  cInnerMin :: nat
  cInnerMax :: nat

definition capsOk :: "capacities \<Rightarrow> bool" where
  "capsOk c \<longleftrightarrow> 2 \<le> cLeafMin c \<and> 2 * cLeafMin c \<le> cLeafMax c + 1 \<and> cLeafMax c \<le> 2 * cLeafMin c
     \<and> 1 \<le> cInnerMin c \<and> 2 * cInnerMin c \<le> cInnerMax c \<and> cInnerMax c \<le> 2 * cInnerMin c + 1"

text \<open>A node whose parent pointer is \<open>p\<close>.\<close>

fun nodeOk :: "capacities \<Rightarrow> nat \<Rightarrow> nat option \<Rightarrow> node \<Rightarrow> bool" where
  "nodeOk c 0 p (Leaf q i keys vals) \<longleftrightarrow> q = p \<and> length vals = length keys \<and> cLeafMin c \<le> length keys \<and> length keys \<le> cLeafMax c"
| "nodeOk c (Suc h) p (Internal q i keys children) \<longleftrightarrow> q = p \<and> list_all (nodeOk c h (Some i)) children \<and> keys = map minKey (tl children)
     \<and> cInnerMin c + 1 \<le> length children \<and> length children \<le> cInnerMax c + 1"
| "nodeOk c h p n \<longleftrightarrow> False"

fun rootOk :: "capacities \<Rightarrow> nat \<Rightarrow> node \<Rightarrow> bool" where
  "rootOk c 0 (Leaf q i keys vals) \<longleftrightarrow> q = None \<and> length vals = length keys \<and> 1 \<le> length keys \<and> length keys \<le> cLeafMax c"
| "rootOk c (Suc h) (Internal q i keys children) \<longleftrightarrow> q = None \<and> list_all (nodeOk c h (Some i)) children \<and> keys = map minKey (tl children)
     \<and> 2 \<le> length children \<and> length children \<le> cInnerMax c + 1"
| "rootOk c h n \<longleftrightarrow> False"

abbreviation inner :: "nat option \<Rightarrow> nat \<Rightarrow> node list \<Rightarrow> node" where
  "inner p i cs \<equiv> Internal p i (map minKey (tl cs)) cs"

lemma setParent_simps [simp]:
  "leavesOf (setParent p n) = leavesOf n" "minKey (setParent p n) = minKey n" "parentOf (setParent p n) = p"
  "parentOf (Leaf p i keys vals) = p" "parentOf (Internal p i keys children) = p"
  "nodeId (Leaf p i keys vals) = i" "nodeId (Internal p i keys children) = i" "setParent p (setParent q n) = setParent p n"
  by (cases n; simp add: setParent_def parentOf_def minKey_def nodeId_def)+

lemma nodeOk_setParent [simp]: "nodeOk c h p n \<Longrightarrow> nodeOk c h q (setParent q n)"
  by (cases "(c, h, p, n)" rule: nodeOk.cases) (auto simp: setParent_def)

lemma all_setParent: "list_all (nodeOk c h p) cs \<Longrightarrow> list_all (nodeOk c h q) (map (setParent q) cs)"
  by (auto simp: list_all_iff)

lemma comp_setParent [simp]: "leavesOf \<circ> setParent p = leavesOf" "minKey \<circ> setParent p = minKey"
  by (simp_all add: fun_eq_iff)

lemma nodeOk_parent: "nodeOk c h p n \<Longrightarrow> parentOf n = p"
  by (cases "(c, h, p, n)" rule: nodeOk.cases) auto

lemma rootOk_parent: "rootOk c h n \<Longrightarrow> parentOf n = None"
  by (cases "(c, h, n)" rule: rootOk.cases) auto

lemma nodeOk_rootOk: "capsOk c \<Longrightarrow> nodeOk c h None n \<Longrightarrow> rootOk c h n"
  by (cases "(c, h, None :: nat option, n)" rule: nodeOk.cases) (auto simp: capsOk_def)

text \<open>A node that would be a root if it had no parent.\<close>

abbreviation detached :: "capacities \<Rightarrow> nat \<Rightarrow> node \<Rightarrow> bool" where
  "detached c h n \<equiv> rootOk c h (setParent None n)"

lemma root_detached: "rootOk c h n \<Longrightarrow> detached c h n"
  by (cases "(c, h, n)" rule: rootOk.cases) (auto simp: setParent_def)

lemma node_detached: "capsOk c \<Longrightarrow> nodeOk c h p n \<Longrightarrow> detached c h n"
  by (rule nodeOk_rootOk [OF _ nodeOk_setParent])

lemma leaves_entries:
  assumes "capsOk c" "nodeOk c h p n"
  shows "ents (leavesOf n) \<noteq> []"
  using assms
proof (induction c h p n rule: nodeOk.induct)
  case (2 c h p q i keys children)
  then obtain d ds where "children = d # ds" by (cases children) (auto simp: capsOk_def)
  then show ?case using 2 by auto
qed (auto simp: capsOk_def)

lemma subtreeMinimum_ok: "capsOk c \<Longrightarrow> nodeOk c h p n \<Longrightarrow> subtreeMinimum n = Inr (minKey n)"
proof (induction c h p n rule: nodeOk.induct)
  case (1 c p q i keys vals)
  then obtain k ks where "keys = k # ks" by (cases keys) (auto simp: capsOk_def)
  moreover obtain v vs where "vals = v # vs" using 1 calculation by (cases vals) auto
  ultimately show ?case by (simp add: minKey_def)
next
  case (2 c h p q i keys children)
  then obtain d ds where d: "children = d # ds" by (cases children) (auto simp: capsOk_def)
  then have "ents (leavesOf d) \<noteq> []" using 2 leaves_entries by auto
  then show ?case using 2 d by (simp add: minKey_def)
qed auto

lemma minima_ok: "capsOk c \<Longrightarrow> list_all (nodeOk c h p) cs \<Longrightarrow> minima cs = Inr (map minKey cs)"
  by (induction cs) (auto simp: subtreeMinimum_ok)

lemma list_all_tl: "list_all P xs \<Longrightarrow> list_all P (tl xs)"
  by (cases xs) auto

lemma rebuildKeys_ok: "capsOk c \<Longrightarrow> list_all (nodeOk c h q) cs \<Longrightarrow> cs \<noteq> [] \<Longrightarrow> rebuildKeys p i cs = Inr (inner p i cs)"
  by (simp add: rebuildKeys_def minima_ok [of c h q] list_all_tl)

section \<open>Paths\<close>

text \<open>The node at the end of a path below which the path goes on.\<close>

fun pathId :: "crumb list \<Rightarrow> nat option" where
  "pathId [] = None"
| "pathId (Crumb p j keys before after # path) = Some j"

fun pathOk :: "capacities \<Rightarrow> nat \<Rightarrow> crumb list \<Rightarrow> bool" where
  "pathOk c h [] \<longleftrightarrow> True"
| "pathOk c h (Crumb p j keys before after # path) \<longleftrightarrow> p = pathId path
     \<and> list_all (nodeOk c h (Some j)) before \<and> list_all (nodeOk c h (Some j)) after
     \<and> (if path = [] then 2 else cInnerMin c + 1) \<le> length before + 1 + length after
     \<and> length before + 1 + length after \<le> cInnerMax c + 1 \<and> pathOk c (Suc h) path"

fun leftOf :: "crumb list \<Rightarrow> (nat \<times> index_entry list) list" where
  "leftOf [] = []"
| "leftOf (Crumb p j keys before after # path) = leftOf path @ concat (map leavesOf before)"

fun rightOf :: "crumb list \<Rightarrow> (nat \<times> index_entry list) list" where
  "rightOf [] = []"
| "rightOf (Crumb p j keys before after # path) = concat (map leavesOf after) @ rightOf path"

definition okAt :: "capacities \<Rightarrow> nat \<Rightarrow> crumb list \<Rightarrow> node \<Rightarrow> bool" where
  "okAt c h path n \<longleftrightarrow> (if path = [] then rootOk c h n else nodeOk c h (pathId path) n)"

text \<open>A root that has the given leaves in place of the node at the end of a path.\<close>

definition rootFor :: "capacities \<Rightarrow> crumb list \<Rightarrow> (nat \<times> index_entry list) list \<Rightarrow> node \<Rightarrow> bool" where
  "rootFor c path ls root \<longleftrightarrow> (\<exists>h. rootOk c h root) \<and> leavesOf root = leftOf path @ ls @ rightOf path"

lemma okAt_node: "capsOk c \<Longrightarrow> nodeOk c h (pathId path) n \<Longrightarrow> okAt c h path n"
  by (cases path) (auto simp: okAt_def intro: nodeOk_rootOk)

lemma okAt_parent: "okAt c h path n \<Longrightarrow> parentOf n = pathId path"
  by (simp add: okAt_def nodeOk_parent rootOk_parent split: if_splits)

lemma okAt_inner:
  "list_all (nodeOk c h (Some i)) cs \<Longrightarrow> (if path = [] then 2 else cInnerMin c + 1) \<le> length cs \<Longrightarrow> length cs \<le> cInnerMax c + 1
   \<Longrightarrow> okAt c (Suc h) path (inner (pathId path) i cs)"
  by (auto simp: okAt_def split: if_splits)

lemma refresh_ok:
  assumes "capsOk c"
  shows "pathOk c h path \<Longrightarrow> okAt c h path n \<Longrightarrow>
    \<exists>root. refreshAncestors path n = Inr root \<and> rootFor c path (leavesOf n) root"
proof (induction path n arbitrary: h rule: refreshAncestors.induct)
  case (1 n)
  then show ?case using okAt_parent [OF "1.prems"(2)] by (auto simp: rootFor_def okAt_def)
next
  case (2 p j keys before after path n)
  have all: "list_all (nodeOk c h (Some j)) (before @ n # after)" using "2.prems" by (simp add: okAt_def)
  have r: "rebuildKeys p j (before @ n # after) = Inr (inner p j (before @ n # after))"
    using rebuildKeys_ok [OF assms all] by simp
  have up: "\<not> parentOf n \<noteq> Some j" using okAt_parent [OF "2.prems"(2)] by simp
  have "okAt c (Suc h) path (inner p j (before @ n # after))"
    using "2.prems" all okAt_inner [of c h j "before @ n # after" path] by auto
  then show ?case using "2.IH" [OF up r, of "Suc h"] "2.prems"(1) r up by (simp add: rootFor_def)
qed

lemma list_all_take_drop: "list_all P xs \<Longrightarrow> list_all P (take n xs)" "list_all P xs \<Longrightarrow> list_all P (drop n xs)"
  by (auto simp: list_all_iff dest: in_set_takeD in_set_dropD)

lemma concat_map_take_drop: "concat (map f (take n xs)) @ concat (map f (drop n xs)) = concat (map f xs)"
  by (metis append_take_drop_id concat_append map_append)

lemma split_inner:
  assumes "capsOk c" "list_all (nodeOk c h (Some j)) cs" "length cs = cInnerMax c + 2"
  obtains l r where "splitInternal (cInnerMax c) path p j cs fresh
      = insertRightSibling (cInnerMax c) path (inner p j l) (inner p fresh r) (Suc fresh)"
    "nodeOk c (Suc h) p (inner p j l)" "nodeOk c (Suc h) p (inner p fresh r)"
    "concat (map leavesOf l) @ concat (map leavesOf r) = concat (map leavesOf cs)"
proof -
  define l where "l = take ((length cs + 1) div 2) cs"
  define d where "d = drop ((length cs + 1) div 2) cs"
  define r where "r = map (setParent (Some fresh)) d"
  have caps: "1 \<le> cInnerMin c" "2 * cInnerMin c \<le> cInnerMax c" "cInnerMax c \<le> 2 * cInnerMin c + 1"
    using assms(1) by (auto simp: capsOk_def)
  have len: "length l = (cInnerMax c + 3) div 2" "length r = cInnerMax c + 2 - (cInnerMax c + 3) div 2"
    using assms(3) by (simp_all add: l_def r_def d_def)
  have bounds: "cInnerMin c + 1 \<le> length l" "length l \<le> cInnerMax c + 1" "cInnerMin c + 1 \<le> length r" "length r \<le> cInnerMax c + 1"
    unfolding len using caps by linarith+
  then have ne: "l \<noteq> []" "r \<noteq> []" by auto
  have lr: "list_all (nodeOk c h (Some j)) l" "list_all (nodeOk c h (Some fresh)) r"
    unfolding l_def r_def d_def by (rule list_all_take_drop all_setParent assms(2))+
  have "splitInternal (cInnerMax c) path p j cs fresh = insertRightSibling (cInnerMax c) path (inner p j l) (inner p fresh r) (Suc fresh)"
    using rebuildKeys_ok [OF assms(1) lr(1) ne(1)] rebuildKeys_ok [OF assms(1) lr(2) ne(2)]
    by (simp add: Let_def l_def r_def d_def del: insertRightSibling.simps)
  moreover have "concat (map leavesOf l) @ concat (map leavesOf r) = concat (map leavesOf cs)"
    unfolding r_def l_def d_def by (simp add: concat_map_take_drop)
  ultimately show thesis using lr bounds by (intro that [of l r]) simp_all
qed

lemma insertRight_ok:
  assumes "capsOk c"
  shows "pathOk c h path \<Longrightarrow> nodeOk c h (pathId path) left \<Longrightarrow> nodeOk c h q right \<Longrightarrow>
    \<exists>root fresh'. insertRightSibling (cInnerMax c) path left right fresh = Inr (root, fresh') \<and> fresh \<le> fresh'
      \<and> rootFor c path (leavesOf left @ leavesOf right) root"
proof (induction path arbitrary: h left right fresh q)
  case Nil
  let ?cs = "[setParent (Some fresh) left, setParent (Some fresh) right]"
  have all: "list_all (nodeOk c h (Some fresh)) ?cs" using Nil nodeOk_setParent by simp
  have "rootOk c (Suc h) (inner None fresh ?cs)" using all assms by (simp add: capsOk_def)
  then have "rootFor c [] (leavesOf left @ leavesOf right) (inner None fresh ?cs)"
    unfolding rootFor_def by (intro conjI exI [of _ "Suc h"]) simp_all
  then show ?case using rebuildKeys_ok [OF assms all] by auto
next
  case (Cons cr path)
  obtain p j keys before after where cr: "cr = Crumb p j keys before after" by (cases cr)
  let ?cs = "before @ left # setParent (Some j) right # after"
  have all: "list_all (nodeOk c h (Some j)) ?cs" using Cons.prems cr nodeOk_setParent by simp
  have r: "rebuildKeys p j ?cs = Inr (inner p j ?cs)" using rebuildKeys_ok [OF assms all] by simp
  have up: "parentOf left = Some j" using nodeOk_parent [OF Cons.prems(2)] cr by simp
  have len: "length ?cs \<le> cInnerMax c + 2" "(if path = [] then 2 else cInnerMin c + 1) \<le> length ?cs"
    using Cons.prems(1) cr by (auto split: if_splits)
  have path: "pathOk c (Suc h) path" "p = pathId path" using Cons.prems(1) cr by simp_all
  show ?case
  proof (cases "keyCount (inner p j ?cs) > cInnerMax c")
    case False
    then have "okAt c (Suc h) path (inner p j ?cs)" unfolding path(2) using len all by (intro okAt_inner) (auto simp: keyCount_def)
    then obtain root where "refreshAncestors path (inner p j ?cs) = Inr root" "rootFor c path (leavesOf (inner p j ?cs)) root"
      using refresh_ok [OF assms path(1)] by blast
    then show ?thesis using False r cr up by (simp add: rootFor_def Let_def)
  next
    case True
    then have n: "length ?cs = cInnerMax c + 2" using len(1) by (simp add: keyCount_def)
    obtain l r where lr: "splitInternal (cInnerMax c) path p j ?cs fresh
        = insertRightSibling (cInnerMax c) path (inner p j l) (inner p fresh r) (Suc fresh)"
      "nodeOk c (Suc h) p (inner p j l)" "nodeOk c (Suc h) p (inner p fresh r)" "concat (map leavesOf l) @ concat (map leavesOf r) = concat (map leavesOf ?cs)"
      using split_inner [OF assms all n] by blast
    obtain root fresh' where "insertRightSibling (cInnerMax c) path (inner p j l) (inner p fresh r) (Suc fresh) = Inr (root, fresh')" "Suc fresh \<le> fresh'"
      "rootFor c path (leavesOf (inner p j l) @ leavesOf (inner p fresh r)) root"
      using Cons.IH [OF path(1) lr(2) [unfolded path(2)] lr(3), of "Suc fresh"] path(2) by auto
    then show ?thesis using True r cr up lr(1,4) by (simp add: rootFor_def Let_def del: splitInternal.simps)
  qed
qed

lemma rebalance_sides:
  assumes "list_all (nodeOk c h p) before" "before \<noteq> []"
  shows "nodeOk c h p (last before)" "list_all (nodeOk c h p) (butlast before)" "before = butlast before @ [last before]"
  using assms by (auto simp: list_all_iff dest: in_set_butlastD)

lemma after_sides:
  assumes "list_all (nodeOk c h p) after" "after \<noteq> []"
  shows "nodeOk c h p (hd after)" "list_all (nodeOk c h p) (tl after)" "after = hd after # tl after"
  using assms by (auto simp: list_all_iff dest: list.set_sel(2))

lemma inner_node:
  assumes "nodeOk c (Suc h) p n"
  shows "n = inner p (nodeId n) (childrenOf n)" "list_all (nodeOk c h (Some (nodeId n))) (childrenOf n)" "childCount n = length (childrenOf n)"
    "cInnerMin c + 1 \<le> length (childrenOf n)" "length (childrenOf n) \<le> cInnerMax c + 1"
    "leavesOf n = concat (map leavesOf (childrenOf n))"
  using assms by (cases n; simp add: childrenOf_def childCount_def)+

text \<open>One round of the repair of an inner node: two of the parent's children are replaced by at most two.\<close>

lemma repaired_refresh:
  assumes "capsOk c" "pathOk c (Suc h) path" "list_all (nodeOk c h (Some j)) cs"
    and "(if path = [] then 2 else cInnerMin c + 1) \<le> length cs" "length cs \<le> cInnerMax c + 1"
  shows "\<exists>root. res_bind (rebuildKeys (pathId path) j cs) (\<lambda>parent. refreshAncestors path parent) = Inr root
    \<and> rootFor c path (concat (map leavesOf cs)) root"
proof -
  have "cs \<noteq> []" using assms(4) by (auto split: if_splits)
  then have r: "rebuildKeys (pathId path) j cs = Inr (inner (pathId path) j cs)" using rebuildKeys_ok assms(1,3) by blast
  have "okAt c (Suc h) path (inner (pathId path) j cs)" by (rule okAt_inner [OF assms(3-5)])
  then show ?thesis using refresh_ok [OF assms(1,2)] r by fastforce
qed

text \<open>
  An inner node with one child too few, and what each branch of \<open>rebalanceInternal\<close> makes of its parent: other children
  with the same leaves.
\<close>

definition underfull :: "capacities \<Rightarrow> nat \<Rightarrow> nat \<Rightarrow> node list \<Rightarrow> node list \<Rightarrow> crumb list \<Rightarrow> nat \<Rightarrow> node list \<Rightarrow> bool" where
  "underfull c h j before after path i cs \<longleftrightarrow> capsOk c \<and> pathOk c (Suc (Suc h)) path
     \<and> list_all (nodeOk c (Suc h) (Some j)) before \<and> list_all (nodeOk c (Suc h) (Some j)) after \<and> list_all (nodeOk c h (Some i)) cs
     \<and> length cs = cInnerMin c \<and> (if path = [] then 2 else cInnerMin c + 1) \<le> length before + 1 + length after
     \<and> length before + 1 + length after \<le> cInnerMax c + 1"

definition repairs :: "capacities \<Rightarrow> index_key list \<Rightarrow> nat \<Rightarrow> node list \<Rightarrow> node list \<Rightarrow> crumb list \<Rightarrow> nat \<Rightarrow> node list \<Rightarrow> bool" where
  "repairs c keys j before after path i cs \<longleftrightarrow> (\<exists>root. rebalanceInternal (cInnerMin c) (Crumb (pathId path) j keys before after # path) (Some j) i cs = Inr root
     \<and> rootFor c path (concat (map leavesOf before) @ concat (map leavesOf cs) @ concat (map leavesOf after)) root)"

lemma underfullD:
  assumes "underfull c h j before after path i cs"
  shows "capsOk c" "pathOk c (Suc (Suc h)) path" "list_all (nodeOk c (Suc h) (Some j)) before" "list_all (nodeOk c (Suc h) (Some j)) after"
    "list_all (nodeOk c h (Some i)) cs" "length cs = cInnerMin c"
    "(if path = [] then 2 else cInnerMin c + 1) \<le> length before + 1 + length after" "length before + 1 + length after \<le> cInnerMax c + 1"
    "1 \<le> cInnerMin c" "2 * cInnerMin c \<le> cInnerMax c" "cs \<noteq> []"
  using assms by (auto simp: underfull_def capsOk_def)

lemma split_last: "before \<noteq> [] \<Longrightarrow> concat (map f before) = concat (map f (butlast before)) @ f (last before)"
  by (cases before rule: rev_cases) simp_all

lemma split_first: "after \<noteq> [] \<Longrightarrow> concat (map f after) = f (hd after) @ concat (map f (tl after))"
  by (cases after) auto

lemma borrow_left:
  assumes "underfull c h j before after path i cs" "before \<noteq> []" "childCount (last before) > cInnerMin c + 1"
  shows "repairs c keys j before after path i cs"
proof -
  note u = underfullD [OF assms(1)]
  note b = rebalance_sides [OF u(3) assms(2)]
  note l = inner_node [OF b(1)]
  let ?l = "childrenOf (last before)"
  have ne: "?l \<noteq> []" using l(4) by auto
  have "length (butlast ?l) \<noteq> 0" using assms(3) l(3) by simp
  then have ne2: "butlast ?l \<noteq> []" by (simp only: length_0_conv not_False_eq_True)
  note bl = rebalance_sides [OF l(2) ne]
  let ?b = "nodeId (last before)" and ?m = "setParent (Some i) (last ?l)"
  let ?L = "inner (Some j) ?b (butlast ?l)" and ?N = "inner (Some j) i (?m # cs)"
  have m: "nodeOk c h (Some i) ?m" using bl(1) by (rule nodeOk_setParent)
  have nodes: "nodeOk c (Suc h) (Some j) ?L" "nodeOk c (Suc h) (Some j) ?N"
    using bl m l(3-5) assms(3) u(5,6,10) by auto
  have up: "parentOf (last before) = Some j" by (rule nodeOk_parent [OF b(1)])
  have all: "list_all (nodeOk c h (Some i)) (?m # cs)" using m u(5) by simp
  have rb: "rebuildKeys (Some j) ?b (butlast ?l) = Inr ?L" "rebuildKeys (Some j) i (?m # cs) = Inr ?N"
    by (rule rebuildKeys_ok [OF u(1) bl(2) ne2]) (rule rebuildKeys_ok [OF u(1) all], simp)
  let ?ds = "butlast before @ ?L # ?N # after"
  have "\<exists>root. res_bind (rebuildKeys (pathId path) j ?ds) (\<lambda>parent. refreshAncestors path parent) = Inr root
      \<and> rootFor c path (concat (map leavesOf ?ds)) root"
    using nodes b(2) u(4,7,8) assms(2) by (intro repaired_refresh [OF u(1,2)]) (auto split: if_splits, (cases before; simp)+)
  moreover have "concat (map leavesOf ?ds) = concat (map leavesOf before) @ concat (map leavesOf cs) @ concat (map leavesOf after)"
    using split_last [OF ne, of leavesOf] split_last [OF assms(2), of leavesOf] l(6) by simp
  moreover have "rebalanceInternal (cInnerMin c) (Crumb (pathId path) j keys before after # path) (Some j) i cs
      = res_bind (rebuildKeys (pathId path) j ?ds) (\<lambda>parent. refreshAncestors path parent)"
    using assms(2,3) rb up by (simp add: Let_def)
  ultimately show ?thesis unfolding repairs_def by (simp only:)
qed

lemma borrow_right:
  assumes "underfull c h j before after path i cs" "\<not> (before \<noteq> [] \<and> childCount (last before) > cInnerMin c + 1)"
    and "after \<noteq> []" "childCount (hd after) > cInnerMin c + 1"
  shows "repairs c keys j before after path i cs"
proof -
  note u = underfullD [OF assms(1)]
  note b = after_sides [OF u(4) assms(3)]
  note l = inner_node [OF b(1)]
  let ?l = "childrenOf (hd after)"
  have ne: "?l \<noteq> []" "tl ?l \<noteq> []" using l(3,4) assms(4) by (cases ?l; auto)+
  note bl = after_sides [OF l(2) ne(1)]
  let ?b = "nodeId (hd after)" and ?m = "setParent (Some i) (hd ?l)"
  let ?R = "inner (Some j) ?b (tl ?l)" and ?N = "inner (Some j) i (cs @ [?m])"
  have m: "nodeOk c h (Some i) ?m" using bl(1) by (rule nodeOk_setParent)
  have nodes: "nodeOk c (Suc h) (Some j) ?R" "nodeOk c (Suc h) (Some j) ?N"
    using bl m l(3-5) assms(4) u(5,6,10) by auto
  have up: "parentOf (hd after) = Some j" by (rule nodeOk_parent [OF b(1)])
  have all: "list_all (nodeOk c h (Some i)) (cs @ [?m])" using m u(5) by simp
  have rb: "rebuildKeys (Some j) ?b (tl ?l) = Inr ?R" "rebuildKeys (Some j) i (cs @ [?m]) = Inr ?N"
    by (rule rebuildKeys_ok [OF u(1) bl(2) ne(2)]) (rule rebuildKeys_ok [OF u(1) all], simp)
  let ?ds = "before @ ?N # ?R # tl after"
  have "\<exists>root. res_bind (rebuildKeys (pathId path) j ?ds) (\<lambda>parent. refreshAncestors path parent) = Inr root
      \<and> rootFor c path (concat (map leavesOf ?ds)) root"
    using nodes b(2) u(3,7,8) assms(3) by (intro repaired_refresh [OF u(1,2)]) (auto split: if_splits)
  moreover have "concat (map leavesOf ?ds) = concat (map leavesOf before) @ concat (map leavesOf cs) @ concat (map leavesOf after)"
    using split_first [OF ne(1), of leavesOf] split_first [OF assms(3), of leavesOf] l(6) by simp
  moreover have "rebalanceInternal (cInnerMin c) (Crumb (pathId path) j keys before after # path) (Some j) i cs
      = res_bind (rebuildKeys (pathId path) j ?ds) (\<lambda>parent. refreshAncestors path parent)"
    using assms(2-4) rb up by (auto simp: Let_def)
  ultimately show ?thesis unfolding repairs_def by (simp only:)
qed

text \<open>Merging leaves a parent with one child less, whose removal is finished above.\<close>

definition finishes :: "capacities \<Rightarrow> nat \<Rightarrow> crumb list \<Rightarrow> bool" where
  "finishes c h path \<longleftrightarrow> (\<forall>j cs. list_all (nodeOk c h (Some j)) cs \<and> cs \<noteq> [] \<and> length cs \<le> cInnerMax c + 1
     \<and> (path = [] \<or> cInnerMin c \<le> length cs) \<longrightarrow>
     (\<exists>root. finishInternalRemoval (cInnerMin c) path (pathId path) j cs = Inr root \<and> rootFor c path (concat (map leavesOf cs)) root))"

lemma merge_left:
  assumes "underfull c h j before after path i cs" "finishes c (Suc h) path" "before \<noteq> []"
    and "\<not> childCount (last before) > cInnerMin c + 1" "\<not> (after \<noteq> [] \<and> childCount (hd after) > cInnerMin c + 1)"
  shows "repairs c keys j before after path i cs"
proof -
  note u = underfullD [OF assms(1)]
  note b = rebalance_sides [OF u(3) assms(3)]
  note l = inner_node [OF b(1)]
  let ?l = "childrenOf (last before)"
  let ?b = "nodeId (last before)"
  let ?m = "map (setParent (Some ?b)) cs"
  let ?N = "inner (Some j) ?b (?l @ ?m)"
  have all: "list_all (nodeOk c h (Some ?b)) (?l @ ?m)" using l(2) all_setParent [OF u(5), of "Some ?b"] by simp
  have node: "nodeOk c (Suc h) (Some j) ?N" using all l(3-5) assms(4) u(6,9,10) by auto
  have up: "parentOf (last before) = Some j" by (rule nodeOk_parent [OF b(1)])
  have rb: "rebuildKeys (Some j) ?b (?l @ ?m) = Inr ?N" using rebuildKeys_ok [OF u(1) all] u(11) by simp
  let ?ds = "butlast before @ ?N # after"
  have "\<exists>root. finishInternalRemoval (cInnerMin c) path (pathId path) j ?ds = Inr root \<and> rootFor c path (concat (map leavesOf ?ds)) root"
    using node b(2) u(4,7,8) assms(3)
    by (intro assms(2) [unfolded finishes_def, rule_format]) (auto split: if_splits)
  moreover have "concat (map leavesOf ?ds) = concat (map leavesOf before) @ concat (map leavesOf cs) @ concat (map leavesOf after)"
    using split_last [OF assms(3), of leavesOf] l(6) by simp
  moreover have "rebalanceInternal (cInnerMin c) (Crumb (pathId path) j keys before after # path) (Some j) i cs = finishInternalRemoval (cInnerMin c) path (pathId path) j ?ds"
    using assms(3-5) rb up by (auto simp: Let_def simp del: finishInternalRemoval.simps)
  ultimately show ?thesis unfolding repairs_def by (simp only:)
qed

lemma merge_right:
  assumes "underfull c h j before after path i cs" "finishes c (Suc h) path" "before = []" "after \<noteq> []"
    and "\<not> childCount (hd after) > cInnerMin c + 1"
  shows "repairs c keys j before after path i cs"
proof -
  note u = underfullD [OF assms(1)]
  note b = after_sides [OF u(4) assms(4)]
  note l = inner_node [OF b(1)]
  let ?l = "childrenOf (hd after)"
  let ?m = "map (setParent (Some i)) ?l"
  let ?N = "inner (Some j) i (cs @ ?m)"
  have all: "list_all (nodeOk c h (Some i)) (cs @ ?m)" using u(5) all_setParent [OF l(2), of "Some i"] by simp
  have node: "nodeOk c (Suc h) (Some j) ?N" using all l(3-5) assms(5) u(6,9,10) by auto
  have rb: "rebuildKeys (Some j) i (cs @ ?m) = Inr ?N" using rebuildKeys_ok [OF u(1) all] u(11) by simp
  let ?ds = "before @ ?N # tl after"
  have "\<exists>root. finishInternalRemoval (cInnerMin c) path (pathId path) j ?ds = Inr root \<and> rootFor c path (concat (map leavesOf ?ds)) root"
    using node b(2) u(3,7,8) assms(3,4)
    by (intro assms(2) [unfolded finishes_def, rule_format]) (auto split: if_splits)
  moreover have "concat (map leavesOf ?ds) = concat (map leavesOf before) @ concat (map leavesOf cs) @ concat (map leavesOf after)"
    using split_first [OF assms(4), of leavesOf] l(6) by simp
  moreover have "rebalanceInternal (cInnerMin c) (Crumb (pathId path) j keys before after # path) (Some j) i cs = finishInternalRemoval (cInnerMin c) path (pathId path) j ?ds"
    using assms(3-5) rb by (auto simp: Let_def simp del: finishInternalRemoval.simps)
  ultimately show ?thesis unfolding repairs_def by (simp only:)
qed

lemma rebalance_ok:
  assumes "underfull c h j before after path i cs" "finishes c (Suc h) path"
  shows "repairs c keys j before after path i cs"
proof -
  note u = underfullD [OF assms(1)]
  consider (bl) "before \<noteq> []" "childCount (last before) > cInnerMin c + 1"
    | (br) "\<not> (before \<noteq> [] \<and> childCount (last before) > cInnerMin c + 1)" "after \<noteq> []" "childCount (hd after) > cInnerMin c + 1"
    | (ml) "before \<noteq> []" "\<not> childCount (last before) > cInnerMin c + 1" "\<not> (after \<noteq> [] \<and> childCount (hd after) > cInnerMin c + 1)"
    | (mr) "before = []" "after \<noteq> []" "\<not> childCount (hd after) > cInnerMin c + 1"
    using u(7,9) by (cases "before = []"; cases "after = []") (auto split: if_splits)
  then show ?thesis
    by cases (use borrow_left [OF assms(1)] borrow_right [OF assms(1)] merge_left [OF assms] merge_right [OF assms] in blast)+
qed

lemma finishes_root: "capsOk c \<Longrightarrow> finishes c h []"
  unfolding finishes_def
proof (intro allI impI, elim conjE)
  fix j cs assume a: "capsOk c" "list_all (nodeOk c h (Some j)) cs" "cs \<noteq> []" "length cs \<le> cInnerMax c + 1"
  have r: "rebuildKeys None j cs = Inr (inner None j cs)" using rebuildKeys_ok a by blast
  show "\<exists>root. finishInternalRemoval (cInnerMin c) [] (pathId []) j cs = Inr root \<and> rootFor c [] (concat (map leavesOf cs)) root"
  proof (cases "length cs = 1")
    case True
    then obtain d where d: "cs = [d]" by (cases cs) auto
    then have "nodeOk c h None (setParent None d)" using a(2) nodeOk_setParent by simp
    then have "rootOk c h (setParent None d)" using a(1) nodeOk_rootOk by blast
    then show ?thesis using r d by (auto simp: rootFor_def)
  next
    case False
    then have "2 \<le> length cs" using a(3) by (cases cs rule: remdups_adj.cases) auto
    then have "rootOk c (Suc h) (inner None j cs)" using a by simp
    then have "rootFor c [] (concat (map leavesOf cs)) (inner None j cs)"
      unfolding rootFor_def by (intro conjI exI [of _ "Suc h"]) simp_all
    then show ?thesis using r False a(3) by simp
  qed
qed

lemma finishes_step:
  assumes "capsOk c" "pathOk c (Suc h) (Crumb p j keys before after # path)" "finishes c (Suc h) path"
  shows "finishes c h (Crumb p j keys before after # path)"
  unfolding finishes_def
proof (intro allI impI, elim conjE)
  let ?p = "Crumb p j keys before after # path"
  fix i cs assume a: "list_all (nodeOk c h (Some i)) cs" "cs \<noteq> []" "length cs \<le> cInnerMax c + 1"
    "?p = [] \<or> cInnerMin c \<le> length cs"
  have p: "p = pathId path" using assms(2) by simp
  have r: "rebuildKeys (Some j) i cs = Inr (inner (Some j) i cs)" using rebuildKeys_ok assms(1) a by blast
  show "\<exists>root. finishInternalRemoval (cInnerMin c) ?p (pathId ?p) i cs = Inr root \<and> rootFor c ?p (concat (map leavesOf cs)) root"
  proof (cases "cInnerMin c \<le> keyCount (inner (Some j) i cs)")
    case True
    then have "nodeOk c (Suc h) (Some j) (inner (Some j) i cs)" using a by (cases cs) (auto simp: keyCount_def)
    then have "okAt c (Suc h) ?p (inner (Some j) i cs)" by (intro okAt_node [OF assms(1)]) simp
    then have "\<exists>root. refreshAncestors ?p (inner (Some j) i cs) = Inr root \<and> rootFor c ?p (leavesOf (inner (Some j) i cs)) root"
      by (rule refresh_ok [OF assms(1,2)])
    then show ?thesis using r True a(2) by simp
  next
    case False
    then have n: "length cs = cInnerMin c" using a(2,4) by (cases cs) (auto simp: keyCount_def)
    then have "underfull c h j before after path i cs" using assms(1,2) a by (simp add: underfull_def)
    then have "repairs c keys j before after path i cs" using rebalance_ok assms(3) by blast
    then show ?thesis using r False a(2) p by (simp add: repairs_def rootFor_def del: rebalanceInternal.simps)
  qed
qed

lemma removal_ok: "capsOk c \<Longrightarrow> pathOk c (Suc h) path \<Longrightarrow> finishes c h path"
proof (induction path arbitrary: h)
  case (Cons cr path)
  then show ?case by (cases cr) (use finishes_step in auto)
qed (rule finishes_root)

end
