(* ===== verification/BPlus_Tree_Laws.thy ===== *)
theory BPlus_Tree_Laws
  imports BPlus_Tree
begin

text \<open>
  The in-memory B+ tree under insertion and removal: \<open>treeInv\<close> is the invariant of a tree, \<open>treeMap\<close> the finite map it
  stands for. The search finds the value of the map; insertion and removal update the map, report whether they did,
  keep the invariant and never throw one of their internal errors.
\<close>

section \<open>Descending\<close>

lemma separators_split:
  assumes "sorted_wrt (<) (concat xss)" "\<forall>xs\<in>set xss. xs \<noteq> []" "n = length (takeWhile (\<lambda>k. k \<le> key) (map hd (tl xss)))"
  shows "(\<forall>x\<in>set (concat (take n xss)). x < (key :: index_key)) \<and> (\<forall>x\<in>set (concat (drop (Suc n) xss)). key < x)"
  using assms
proof (induction xss arbitrary: n)
  case (Cons xs yss)
  show ?case
  proof (cases yss)
    case (Cons ys zss)
    have ys: "ys \<noteq> []" "hd ys \<in> set ys" using Cons.prems(2) Cons by auto
    have sorted: "sorted_wrt (<) (concat yss)" "\<forall>x\<in>set xs. x < hd ys"
      using Cons.prems(1) ys Cons by (auto simp: sorted_wrt_append)
    show ?thesis
    proof (cases "hd ys \<le> key")
      case True
      let ?m = "length (takeWhile (\<lambda>k. k \<le> key) (map hd (tl yss)))"
      have n: "n = Suc ?m" using Cons.prems(3) True Cons by simp
      have "(\<forall>x\<in>set (concat (take ?m yss)). x < key) \<and> (\<forall>x\<in>set (concat (drop (Suc ?m) yss)). key < x)"
        by (rule Cons.IH [OF sorted(1) _ refl]) (use Cons.prems(2) in auto)
      then show ?thesis using sorted(2) True n by fastforce
    next
      case False
      then have "n = 0" using Cons.prems(3) Cons by simp
      moreover have "\<forall>x\<in>set (concat yss). hd ys \<le> x"
        using sorted(1) ys Cons by (cases ys) (auto simp: sorted_wrt_append intro: order.strict_implies_order)
      ultimately show ?thesis using False by fastforce
    qed
  qed (use Cons.prems in simp)
qed simp

definition keysOf :: "(nat \<times> index_entry list) list \<Rightarrow> index_key list" where
  "keysOf ls = map fst (ents ls)"

lemma keysOf_append [simp]: "keysOf (ls @ ls') = keysOf ls @ keysOf ls'"
  by (simp add: keysOf_def)

lemma keysOf_nil [simp]: "keysOf [] = []"
  by (simp add: keysOf_def)

lemma keysOf_cons [simp]: "keysOf (l # ls) = map fst (snd l) @ keysOf ls"
  by (simp add: keysOf_def)

lemma keysOf_concat: "keysOf (concat lss) = concat (map keysOf lss)"
  by (induction lss) simp_all

lemma keysOf_node:
  assumes "capsOk c" "nodeOk c h p n"
  shows "keysOf (leavesOf n) \<noteq> []" "hd (keysOf (leavesOf n)) = minKey n"
  using leaves_entries [OF assms] by (simp_all add: keysOf_def minKey_def hd_map)

lemma children_split:
  assumes "capsOk c" "list_all (nodeOk c h p) cs" "sorted_wrt (<) (keysOf (concat (map leavesOf cs)))" "n = upperBound (map minKey (tl cs)) key"
  shows "\<forall>x\<in>set (keysOf (concat (map leavesOf (take n cs)))). x < key"
    and "\<forall>x\<in>set (keysOf (concat (map leavesOf (drop (Suc n) cs)))). key < x"
proof -
  let ?f = "\<lambda>d. keysOf (leavesOf d)"
  have k: "\<forall>d\<in>set cs. ?f d \<noteq> [] \<and> hd (?f d) = minKey d" using assms(1,2) keysOf_node by (auto simp: list_all_iff)
  have m: "keysOf (concat (map leavesOf ds)) = concat (map ?f ds)" for ds by (simp add: keysOf_concat comp_def)
  have "map minKey (tl cs) = map hd (tl (map ?f cs))" using k by (cases cs) auto
  then have n: "n = length (takeWhile (\<lambda>k. k \<le> key) (map hd (tl (map ?f cs))))" using assms(4) by (simp add: upperBound_def)
  have "sorted_wrt (<) (concat (map ?f cs))" "\<forall>xs\<in>set (map ?f cs). xs \<noteq> []" using assms(3) k m by auto
  from separators_split [OF this n]
  show "\<forall>x\<in>set (keysOf (concat (map leavesOf (take n cs)))). x < key"
    "\<forall>x\<in>set (keysOf (concat (map leavesOf (drop (Suc n) cs)))). key < x"
    unfolding m by (simp_all add: take_map drop_map)
qed

text \<open>What \<open>findLeaf\<close> arrives at: the leaf in which the key is, if it is anywhere.\<close>

definition arrives :: "capacities \<Rightarrow> index_key \<Rightarrow> (nat \<times> index_entry list) list \<Rightarrow> crumb list \<times> nat option \<times> nat \<times> index_key list \<times> record_id list \<Rightarrow> bool" where
  "arrives c key ls = (\<lambda>(path, p, i, keys, vals). pathOk c 0 path \<and> okAt c 0 path (Leaf p i keys vals)
     \<and> ls = leftOf path @ (i, zip keys vals) # rightOf path
     \<and> (\<forall>x\<in>set (keysOf (leftOf path)). x < key) \<and> (\<forall>x\<in>set (keysOf (rightOf path)). key < x))"

lemma okAt_cases:
  assumes "okAt c h path n"
  obtains (Leaf) i keys vals where "n = Leaf (pathId path) i keys vals" "h = 0"
    | (Internal) h' i cs where "n = inner (pathId path) i cs" "h = Suc h'" "list_all (nodeOk c h' (Some i)) cs"
      "(if path = [] then 2 else cInnerMin c + 1) \<le> length cs" "length cs \<le> cInnerMax c + 1"
  using assms by (cases "(c, h, n)" rule: rootOk.cases) (auto simp: okAt_def split: if_splits)

lemma descend_ok:
  assumes "capsOk c" "sorted_wrt (<) (keysOf ls)"
  shows "pathOk c h path \<Longrightarrow> okAt c h path n \<Longrightarrow> ls = leftOf path @ leavesOf n @ rightOf path
    \<Longrightarrow> \<forall>x\<in>set (keysOf (leftOf path)). x < key \<Longrightarrow> \<forall>x\<in>set (keysOf (rightOf path)). key < x
    \<Longrightarrow> \<exists>r. descend key path n = Inr r \<and> arrives c key ls r"
proof (induction h arbitrary: path n)
  case 0
  from "0.prems"(2) show ?case by (cases rule: okAt_cases) (use "0.prems" in \<open>auto simp: arrives_def\<close>)
next
  case (Suc h)
  from Suc.prems(2) show ?case
  proof (cases rule: okAt_cases)
    case (Internal h' j cs)
    then have h: "list_all (nodeOk c h (Some j)) cs" by simp
    let ?i = "upperBound (map minKey (tl cs)) key"
    have "?i \<le> length (tl cs)" unfolding upperBound_def using length_takeWhile_le [of _ "map minKey (tl cs)"] by simp
    then have i: "?i < length cs" using Internal(4) by (cases cs) (auto split: if_splits)
    have cs: "cs = take ?i cs @ cs ! ?i # drop (Suc ?i) cs" by (rule id_take_nth_drop [OF i])
    let ?cr = "Crumb (pathId path) j (map minKey (tl cs)) (take ?i cs) (drop (Suc ?i) cs)"
    have s: "sorted_wrt (<) (keysOf (concat (map leavesOf cs)))"
      using assms(2) Suc.prems(3) Internal(1) by (simp add: sorted_wrt_append)
    note split = children_split [OF assms(1) h s refl, of key]
    have leaves: "concat (map leavesOf cs) = concat (map leavesOf (take ?i cs)) @ leavesOf (cs ! ?i) @ concat (map leavesOf (drop (Suc ?i) cs))"
      by (subst cs) simp
    have "\<exists>r. descend key (?cr # path) (cs ! ?i) = Inr r \<and> arrives c key ls r"
    proof (rule Suc.IH)
      have "length (take ?i cs) + 1 + length (drop (Suc ?i) cs) = length cs" using i by simp
      then show "pathOk c h (?cr # path)"
        using Internal(4,5) h Suc.prems(1) by (simp add: list_all_take_drop del: length_take length_drop)
      show "okAt c h (?cr # path) (cs ! ?i)" using h i by (simp add: okAt_def list_all_length)
      show "ls = leftOf (?cr # path) @ leavesOf (cs ! ?i) @ rightOf (?cr # path)" using Suc.prems(3) Internal(1) leaves by simp
    qed (use split Suc.prems(4,5) in auto)
    then show ?thesis using i Internal(1) by (simp add: Let_def)
  qed simp
qed

section \<open>The leaf chain\<close>

text \<open>A segment of the chain between the given neighbours.\<close>

fun chained :: "(nat \<Rightarrow> leaf_link) \<Rightarrow> nat option \<Rightarrow> nat list \<Rightarrow> nat option \<Rightarrow> bool" where
  "chained links p [] q \<longleftrightarrow> True"
| "chained links p (i # is) q \<longleftrightarrow> links i = \<lparr>lkPrevious = p, lkNext = (case is of [] \<Rightarrow> q | j # _ \<Rightarrow> Some j)\<rparr>
     \<and> chained links (Some i) is q"

lemma chained_append:
  "chained links p (xs @ ys) q \<longleftrightarrow> chained links p xs (case ys of [] \<Rightarrow> q | y # _ \<Rightarrow> Some y)
     \<and> chained links (if xs = [] then p else Some (last xs)) ys q"
  by (induction xs arbitrary: p) (auto split: list.splits)

lemma chained_cong: "(\<And>i. i \<in> set xs \<Longrightarrow> links i = links' i) \<Longrightarrow> chained links p xs q = chained links' p xs q"
  by (induction xs arbitrary: p) auto

lemma chained_linkRight:
  assumes "chained links None (xs @ i # ys) None" "distinct (xs @ i # ys)" "r \<notin> set (xs @ i # ys)"
  shows "chained (linkRight i r links) None (xs @ i # r # ys) None"
proof (cases ys)
  case Nil
  then have "chained links None xs (Some i)" using assms(1) by (simp add: chained_append)
  moreover have "chained (linkRight i r links) None xs (Some i) = chained links None xs (Some i)"
    by (rule chained_cong) (use assms Nil in \<open>auto simp: linkRight_def Let_def chained_append\<close>)
  ultimately show ?thesis using assms Nil by (auto simp: chained_append linkRight_def Let_def)
next
  case (Cons y zs)
  have f: "lkNext (links i) = Some y" using assms(1) Cons by (simp add: chained_append)
  have "chained (linkRight i r links) None xs (Some i) = chained links None xs (Some i)"
    by (rule chained_cong) (use assms Cons f in \<open>auto simp: linkRight_def Let_def\<close>)
  moreover have "chained (linkRight i r links) (Some y) zs None = chained links (Some y) zs None"
    by (rule chained_cong) (use assms Cons f in \<open>auto simp: linkRight_def Let_def\<close>)
  ultimately show ?thesis using assms Cons f by (auto simp: chained_append linkRight_def Let_def)
qed

lemma chained_unlinkRight:
  assumes "chained links None (xs @ i # r # ys) None" "distinct (xs @ i # r # ys)"
  shows "chained (unlinkRight i r links) None (xs @ i # ys) None"
proof (cases ys)
  case Nil
  then have "chained (unlinkRight i r links) None xs (Some i) = chained links None xs (Some i)"
    by (intro chained_cong) (use assms Nil in \<open>auto simp: unlinkRight_def Let_def chained_append\<close>)
  then show ?thesis using assms Nil by (auto simp: chained_append unlinkRight_def Let_def)
next
  case (Cons y zs)
  have f: "lkNext (links r) = Some y" using assms(1) Cons by (simp add: chained_append)
  have "chained (unlinkRight i r links) None xs (Some i) = chained links None xs (Some i)"
    by (rule chained_cong) (use assms Cons f in \<open>auto simp: unlinkRight_def Let_def\<close>)
  moreover have "chained (unlinkRight i r links) (Some y) zs None = chained links (Some y) zs None"
    by (rule chained_cong) (use assms Cons f in \<open>auto simp: unlinkRight_def Let_def\<close>)
  ultimately show ?thesis using assms Cons f by (auto simp: chained_append unlinkRight_def Let_def)
qed

section \<open>Invariant and abstraction\<close>

definition capsOf :: "bplus_tree \<Rightarrow> capacities" where
  "capsOf t = \<lparr>cLeafMin = btLeafMin t, cLeafMax = btLeafMax t, cInnerMin = btInternalMin t, cInnerMax = btInternalMax t\<rparr>"

lemma capsOf_simps [simp]:
  "cLeafMin (capsOf t) = btLeafMin t" "cLeafMax (capsOf t) = btLeafMax t"
  "cInnerMin (capsOf t) = btInternalMin t" "cInnerMax (capsOf t) = btInternalMax t"
  by (simp_all add: capsOf_def)

lemma capsOf_update [simp]:
  "capsOf (t\<lparr>btRoot := r\<rparr>) = capsOf t" "capsOf (t\<lparr>btSize := n\<rparr>) = capsOf t"
  "capsOf (t\<lparr>btLinks := l\<rparr>) = capsOf t" "capsOf (t\<lparr>btNextId := n\<rparr>) = capsOf t"
  by (simp_all add: capsOf_def)

definition treeLeaves :: "bplus_tree \<Rightarrow> (nat \<times> index_entry list) list" where
  "treeLeaves t = (case btRoot t of None \<Rightarrow> [] | Some root \<Rightarrow> leavesOf root)"

definition treeEntries :: "bplus_tree \<Rightarrow> index_entry list" where
  "treeEntries t = ents (treeLeaves t)"

definition treeMap :: "bplus_tree \<Rightarrow> index_key \<Rightarrow> record_id option" where
  "treeMap t = map_of (treeEntries t)"

definition idsOk :: "(nat \<Rightarrow> leaf_link) \<Rightarrow> nat \<Rightarrow> nat list \<Rightarrow> bool" where
  "idsOk links fresh ids \<longleftrightarrow> distinct ids \<and> (\<forall>i\<in>set ids. i < fresh) \<and> chained links None ids None"

lemma idsOk_fresh: "idsOk links n ids \<Longrightarrow> n \<le> m \<Longrightarrow> idsOk links m ids"
  by (auto simp: idsOk_def)

definition entriesOk :: "nat \<Rightarrow> index_entry list \<Rightarrow> bool" where
  "entriesOk n es \<longleftrightarrow> sorted_wrt (<) (map fst es) \<and> list_all recordIdIsValid (map snd es) \<and> n = length es"

definition treeInv :: "bplus_tree \<Rightarrow> bool" where
  "treeInv t \<longleftrightarrow> capsOk (capsOf t) \<and> (\<forall>root. btRoot t = Some root \<longrightarrow> (\<exists>h. rootOk (capsOf t) h root))
     \<and> entriesOk (btSize t) (treeEntries t) \<and> idsOk (btLinks t) (btNextId t) (map fst (treeLeaves t))"

lemma treeInvD:
  assumes "treeInv t" "btRoot t = Some root"
  obtains h where "capsOk (capsOf t)" "rootOk (capsOf t) h root" "entriesOk (btSize t) (ents (leavesOf root))"
    "idsOk (btLinks t) (btNextId t) (map fst (leavesOf root))" "sorted_wrt (<) (keysOf (leavesOf root))"
    "treeEntries t = ents (leavesOf root)"
  using assms by (auto simp: treeInv_def treeEntries_def treeLeaves_def entriesOk_def keysOf_def)

lemma tree_descend:
  assumes "treeInv t" "btRoot t = Some root"
  obtains path p i keys vals where "descend key [] root = Inr (path, p, i, keys, vals)"
    "arrives (capsOf t) key (leavesOf root) (path, p, i, keys, vals)"
proof -
  obtain h where "capsOk (capsOf t)" "rootOk (capsOf t) h root" "sorted_wrt (<) (keysOf (leavesOf root))"
    using treeInvD [OF assms] by metis
  then show thesis using descend_ok [of "capsOf t" "leavesOf root" h "[]" root key] that by (auto simp: okAt_def)
qed

section \<open>One leaf\<close>

lemma lowerBound_zip:
  "length vals = length keys \<Longrightarrow> lowerBound keys key = length (takeWhile (\<lambda>e. fst e < key) (zip keys vals))"
  by (induction keys vals rule: list_induct2') (auto simp: lowerBound_def)

text \<open>The entry of the key is in a leaf exactly if the key is at its lower bound.\<close>

lemma leaf_position:
  assumes "length vals = length keys" "sorted_wrt (<) keys"
  obtains (missing) A B where "zip keys vals = A @ B" "lowerBound keys key = length A"
      "\<forall>e\<in>set A. fst e < key" "\<forall>e\<in>set B. key < fst e"
      "\<not> (lowerBound keys key < length keys \<and> keys ! lowerBound keys key = key)"
    | (present) A v B where "zip keys vals = A @ (key, v) # B" "lowerBound keys key = length A"
      "\<forall>e\<in>set A. fst e < key" "\<forall>e\<in>set B. key < fst e"
      "lowerBound keys key < length keys" "keys ! lowerBound keys key = key" "vals ! lowerBound keys key = v"
proof -
  let ?es = "zip keys vals"
  define A where "A = takeWhile (\<lambda>e. fst e < key) ?es"
  define D where "D = dropWhile (\<lambda>e. fst e < key) ?es"
  have es: "?es = A @ D" by (simp add: A_def D_def)
  have n: "lowerBound keys key = length A" using lowerBound_zip [OF assms(1)] by (simp add: A_def)
  have a: "\<forall>e\<in>set A. fst e < key" by (auto simp: A_def dest: set_takeWhileD)
  have keys: "keys = map fst A @ map fst D" using arg_cong [OF es, of "map fst"] assms(1) by simp
  have vals: "vals = map snd A @ map snd D" using arg_cong [OF es, of "map snd"] assms(1) by simp
  show thesis
  proof (cases D)
    case Nil
    then show thesis using missing [of A "[]"] es n a keys by simp
  next
    case (Cons d B)
    have "\<not> fst d < key" using Cons hd_dropWhile [of "\<lambda>e. fst e < key" ?es] by (simp add: D_def)
    moreover have "\<forall>e\<in>set B. fst d < fst e" using assms(2) keys Cons by (auto simp: sorted_wrt_append)
    ultimately have b: "\<forall>e\<in>set B. key < fst e" "fst d = key \<or> key < fst d" by auto
    have nth: "keys ! length A = fst d" "vals ! length A = snd d" "length A < length keys"
      using Cons by (simp_all add: keys vals nth_append)
    show thesis
    proof (cases "fst d = key")
      case True
      then have "d = (key, snd d)" by (metis prod.collapse)
      then show thesis using present [of A "snd d" B] es n a b(1) nth True Cons by simp
    next
      case False
      then show thesis using missing [of A D] es n a b nth Cons by auto
    qed
  qed
qed

lemma zip_eq_append:
  assumes "zip keys vals = A @ B" "length vals = length keys"
  shows "keys = map fst A @ map fst B" "vals = map snd A @ map snd B"
  using arg_cong [OF assms(1), of "map fst"] arg_cong [OF assms(1), of "map snd"] assms(2) by simp_all

lemma leaf_insert:
  assumes "zip keys vals = A @ B" "length vals = length keys"
  shows "zip (insertAtIndex (length A) k keys) (insertAtIndex (length A) v vals) = A @ (k, v) # B"
    and "length (insertAtIndex i k keys) = Suc (length keys)" "length (insertAtIndex i v vals) = Suc (length vals)"
  using zip_eq_append [OF assms] by (simp_all add: insertAtIndex_def zip_map_fst_snd)

lemma leaf_remove:
  assumes "zip keys vals = A @ e # B" "length vals = length keys"
  shows "zip (removeAtIndex (length A) keys) (removeAtIndex (length A) vals) = A @ B"
    and "length (removeAtIndex (length A) keys) = length keys - 1" "length (removeAtIndex (length A) vals) = length vals - 1"
  using zip_eq_append [OF assms] by (simp_all add: removeAtIndex_def zip_map_fst_snd)

section \<open>Searching\<close>

text \<open>Where a key is, or would be, among all entries: between those before and those after.\<close>

lemma around_key:
  assumes "\<forall>e\<in>set A. fst e < (key :: index_key)" "\<forall>e\<in>set B. key < fst e"
  shows "map_of (A @ B) key = (None :: record_id option)" "map_of (A @ (key, v) # B) = (map_of (A @ B))(key \<mapsto> v)"
    "map_of (A @ B) = (map_of (A @ (key, v) # B))(key := None)"
proof -
  have k: "key \<notin> fst ` set A" "key \<notin> fst ` set B" using assms by force+
  then show m: "map_of (A @ B) key = None" by (auto simp: map_add_def map_of_eq_None_iff split: option.splits)
  show i: "map_of (A @ (key, v) # B) = (map_of (A @ B))(key \<mapsto> v)"
    using map_add_upd_left [of key "map_of A" "map_of B" v] k by (simp add: dom_map_of_conv_image_fst)
  show "map_of (A @ B) = (map_of (A @ (key, v) # B))(key := None)" unfolding i using m by (simp add: fun_eq_iff)
qed

text \<open>The leaf that \<open>findLeaf\<close> arrives at decides whether the key is in the tree.\<close>

lemma tree_position:
  assumes "treeInv t" "btRoot t = Some root"
  obtains path p i keys vals A B where "descend key [] root = Inr (path, p, i, keys, vals)"
    "arrives (capsOf t) key (leavesOf root) (path, p, i, keys, vals)" "length vals = length keys"
    "\<forall>e\<in>set (ents (leftOf path) @ A). fst e < key" "\<forall>e\<in>set (B @ ents (rightOf path)). key < fst e"
    "lowerBound keys key = length A"
    "zip keys vals = A @ B \<and> \<not> (lowerBound keys key < length keys \<and> keys ! lowerBound keys key = key) \<and> treeMap t key = None
     \<or> (\<exists>v. zip keys vals = A @ (key, v) # B \<and> lowerBound keys key < length keys \<and> keys ! lowerBound keys key = key
          \<and> vals ! lowerBound keys key = v \<and> treeMap t key = Some v)"
proof -
  obtain path p i keys vals where d: "descend key [] root = Inr (path, p, i, keys, vals)"
    "arrives (capsOf t) key (leavesOf root) (path, p, i, keys, vals)" using tree_descend [OF assms] .
  obtain h where inv: "capsOk (capsOf t)" "sorted_wrt (<) (keysOf (leavesOf root))" "treeEntries t = ents (leavesOf root)"
    using treeInvD [OF assms] by metis
  have ls: "leavesOf root = leftOf path @ (i, zip keys vals) # rightOf path" and len: "length vals = length keys"
    and sides: "\<forall>e\<in>set (ents (leftOf path)). fst e < key" "\<forall>e\<in>set (ents (rightOf path)). key < fst e"
    using d(2) by (auto simp: arrives_def okAt_def keysOf_def split: if_splits)
  have es: "treeMap t = map_of (ents (leftOf path) @ zip keys vals @ ents (rightOf path))"
    using inv(3) ls by (simp add: treeMap_def)
  have sk: "sorted_wrt (<) keys" using inv(2) ls len by (simp add: sorted_wrt_append)
  from len sk show thesis
  proof (cases rule: leaf_position [of vals keys key])
    case (missing A B)
    have b: "\<forall>e\<in>set (ents (leftOf path) @ A). fst e < key" "\<forall>e\<in>set (B @ ents (rightOf path)). key < fst e"
      using sides missing(3,4) by auto
    have "treeMap t = map_of ((ents (leftOf path) @ A) @ B @ ents (rightOf path))" using es missing(1) by simp
    then have "treeMap t key = None" by (simp only: around_key(1) [OF b])
    then show thesis using that [OF d len b missing(2)] missing(1,5) by blast
  next
    case (present A v B)
    have b: "\<forall>e\<in>set (ents (leftOf path) @ A). fst e < key" "\<forall>e\<in>set (B @ ents (rightOf path)). key < fst e"
      using sides present(3,4) by auto
    have "treeMap t = map_of ((ents (leftOf path) @ A) @ (key, v) # B @ ents (rightOf path))" using es present(1) by simp
    then have "treeMap t key = Some v" by (simp only: around_key(2) [OF b] fun_upd_same)
    then show thesis using that [OF d len b present(2)] present(1,5-7) by blast
  qed
qed

lemma find_ok:
  assumes "treeInv t"
  shows "treeFind t key = Inr (treeMap t key)"
proof (cases "btRoot t")
  case None
  then show ?thesis by (simp add: treeFind_def treeMap_def treeEntries_def treeLeaves_def)
next
  case (Some root)
  obtain path p i keys vals A B where "descend key [] root = Inr (path, p, i, keys, vals)" "length vals = length keys"
    "zip keys vals = A @ B \<and> \<not> (lowerBound keys key < length keys \<and> keys ! lowerBound keys key = key) \<and> treeMap t key = None
     \<or> (\<exists>v. zip keys vals = A @ (key, v) # B \<and> lowerBound keys key < length keys \<and> keys ! lowerBound keys key = key
          \<and> vals ! lowerBound keys key = v \<and> treeMap t key = Some v)"
    using tree_position [OF assms Some, of key] by metis
  moreover have "lowerBound keys key \<le> length keys" unfolding lowerBound_def by (rule length_takeWhile_le)
  ultimately show ?thesis using Some by (auto simp: treeFind_def)
qed

section \<open>Insertion\<close>

lemma entriesOk_insert:
  assumes "entriesOk n (A @ B)" "\<forall>e\<in>set A. fst e < key" "\<forall>e\<in>set B. key < fst e" "recordIdIsValid v"
  shows "entriesOk (Suc n) (A @ (key, v) # B)"
  using assms by (auto simp: entriesOk_def sorted_wrt_append)

lemma entriesOk_remove: "entriesOk n (A @ e # B) \<Longrightarrow> entriesOk (n - 1) (A @ B)"
  by (auto simp: entriesOk_def sorted_wrt_append)

lemma treeInvI:
  assumes "capsOk (capsOf t)" "btRoot t = Some root" "rootFor (capsOf t) path ls root" "lls = leftOf path @ ls @ rightOf path"
    "entriesOk (btSize t) (ents lls)" "idsOk (btLinks t) (btNextId t) (map fst lls)"
  shows "treeInv t \<and> treeEntries t = ents lls"
  using assms by (auto simp: treeInv_def treeEntries_def treeLeaves_def rootFor_def)

definition splitPoint :: "nat \<Rightarrow> nat" where
  "splitPoint n = (n + 1) div 2"

lemma split_leaf_nodes:
  assumes "capsOk c" "length keys = cLeafMax c + 1" "length vals = length keys"
  shows "nodeOk c 0 p (Leaf p i (take (splitPoint (length keys)) keys) (take (splitPoint (length keys)) vals))"
    "nodeOk c 0 p (Leaf p j (drop (splitPoint (length keys)) keys) (drop (splitPoint (length keys)) vals))"
  using assms by (auto simp: splitPoint_def capsOk_def)

lemma splitLeaf_ok:
  assumes "capsOk (capsOf t)" "pathOk (capsOf t) 0 path" "length keys = btLeafMax t + 1" "length vals = length keys"
    "idsOk (btLinks t) (btNextId t) (map fst (leftOf path) @ leaf # map fst (rightOf path))"
    "entriesOk (btSize t) (ents (leftOf path) @ zip keys vals @ ents (rightOf path))"
  obtains t' where "splitLeaf t path (pathId path) leaf keys vals = Inr t'" "treeInv t'" "capsOf t' = capsOf t"
    "treeEntries t' = ents (leftOf path) @ zip keys vals @ ents (rightOf path)"
proof -
  let ?n = "splitPoint (length keys)" and ?j = "btNextId t"
  let ?l = "Leaf (pathId path) leaf (take ?n keys) (take ?n vals)" and ?r = "Leaf (pathId path) ?j (drop ?n keys) (drop ?n vals)"
  have "length keys = cLeafMax (capsOf t) + 1" using assms(3) by simp
  from split_leaf_nodes [OF assms(1) this assms(4)]
  have nodes: "nodeOk (capsOf t) 0 (pathId path) ?l" "nodeOk (capsOf t) 0 (pathId path) ?r" .
  obtain root fr where root: "insertRightSibling (btInternalMax t) path ?l ?r (Suc ?j) = Inr (root, fr)"
    "rootFor (capsOf t) path (leavesOf ?l @ leavesOf ?r) root"
    and fr: "Suc ?j \<le> fr"
    using insertRight_ok [OF assms(1,2) nodes, of "Suc ?j"] by auto
  define t' where "t' = t\<lparr>btRoot := Some root, btLinks := linkRight leaf ?j (btLinks t), btNextId := fr\<rparr>"
  have split: "splitLeaf t path (pathId path) leaf keys vals = Inr t'"
    using root(1) by (simp add: splitLeaf_def splitPoint_def t'_def Let_def)
  have caps: "capsOf t' = capsOf t" by (simp add: t'_def capsOf_def)
  let ?lls = "leftOf path @ [(leaf, zip (take ?n keys) (take ?n vals)), (?j, zip (drop ?n keys) (drop ?n vals))] @ rightOf path"
  have ents: "ents ?lls = ents (leftOf path) @ zip keys vals @ ents (rightOf path)"
    by (simp flip: take_zip drop_zip append_assoc)
  have fresh: "?j \<notin> set (map fst (leftOf path) @ leaf # map fst (rightOf path))" using assms(5) by (auto simp: idsOk_def)
  have "idsOk (btLinks t') (Suc ?j) (map fst ?lls)"
    using assms(5) fresh chained_linkRight [of "btLinks t" "map fst (leftOf path)" leaf "map fst (rightOf path)" ?j]
    by (auto simp: idsOk_def t'_def less_Suc_eq)
  then have ids: "idsOk (btLinks t') (btNextId t') (map fst ?lls)"
    by (rule idsOk_fresh) (simp add: t'_def fr)
  have "rootFor (capsOf t') path [(leaf, zip (take ?n keys) (take ?n vals)), (?j, zip (drop ?n keys) (drop ?n vals))] root"
    using root(2) caps by simp
  moreover have "capsOk (capsOf t')" "btRoot t' = Some root" "entriesOk (btSize t') (ents ?lls)"
    using assms(1,6) caps unfolding ents by (simp_all add: t'_def)
  ultimately have "treeInv t' \<and> treeEntries t' = ents ?lls" using treeInvI [OF _ _ _ refl _ ids] by blast
  then show thesis using that [OF split _ caps] ents by simp
qed

lemma refresh_leaf:
  assumes "capsOk (capsOf t)" "pathOk (capsOf t) 0 path" "okAt (capsOf t) 0 path (Leaf p leaf keys vals)"
    "idsOk (btLinks t) (btNextId t) (map fst (leftOf path) @ leaf # map fst (rightOf path))"
    "entriesOk (btSize t) (ents (leftOf path) @ zip keys vals @ ents (rightOf path))"
  obtains root where "refreshAncestors path (Leaf p leaf keys vals) = Inr root" "treeInv (t\<lparr>btRoot := Some root\<rparr>)"
    "treeEntries (t\<lparr>btRoot := Some root\<rparr>) = ents (leftOf path) @ zip keys vals @ ents (rightOf path)"
proof -
  obtain root where root: "refreshAncestors path (Leaf p leaf keys vals) = Inr root"
    "rootFor (capsOf t) path [(leaf, zip keys vals)] root"
    using refresh_ok [OF assms(1-3)] by auto
  have "capsOf (t\<lparr>btRoot := Some root\<rparr>) = capsOf t" by (simp add: capsOf_def)
  then have "treeInv (t\<lparr>btRoot := Some root\<rparr>) \<and> treeEntries (t\<lparr>btRoot := Some root\<rparr>) = ents (leftOf path @ [(leaf, zip keys vals)] @ rightOf path)"
    using assms(1,4,5) root(2) by (intro treeInvI [of _ root path]) simp_all
  then show thesis using that [OF root(1)] by simp
qed

lemma insert_new:
  assumes "treeInv t" "recordIdIsValid v" "treeMap t key = None"
  obtains t' where "treeInsert key v t = Inr (True, t')" "treeInv t'" "capsOf t' = capsOf t" "treeMap t' = (treeMap t)(key \<mapsto> v)"
proof (cases "btRoot t")
  case None
  let ?t = "t\<lparr>btRoot := Some (Leaf None (btNextId t) [key] [v]), btSize := 1,
    btLinks := (btLinks t)(btNextId t := \<lparr>lkPrevious = None, lkNext = None\<rparr>), btNextId := Suc (btNextId t)\<rparr>"
  have caps: "capsOf ?t = capsOf t" by (simp add: capsOf_def)
  have c: "capsOk (capsOf t)" using assms(1) by (simp add: treeInv_def)
  then have "rootOk (capsOf t) 0 (Leaf None (btNextId t) [key] [v])" by (simp add: capsOk_def)
  then have "\<exists>h. rootOk (capsOf t) h (Leaf None (btNextId t) [key] [v])" by blast
  then have "treeInv ?t" unfolding treeInv_def caps using c assms(2)
    by (simp add: treeEntries_def treeLeaves_def entriesOk_def idsOk_def)
  moreover have "treeMap ?t = (treeMap t)(key \<mapsto> v)" using None by (auto simp: treeMap_def treeEntries_def treeLeaves_def)
  ultimately show thesis using that [OF _ _ caps] None assms(2) by (simp add: treeInsert_def)
next
  case (Some root)
  obtain path p i keys vals A B where d: "descend key [] root = Inr (path, p, i, keys, vals)"
    "arrives (capsOf t) key (leavesOf root) (path, p, i, keys, vals)" "length vals = length keys"
    "\<forall>e\<in>set (ents (leftOf path) @ A). fst e < key" "\<forall>e\<in>set (B @ ents (rightOf path)). key < fst e"
    "lowerBound keys key = length A" "zip keys vals = A @ B"
    "\<not> (lowerBound keys key < length keys \<and> keys ! lowerBound keys key = key)"
    by (rule tree_position [OF assms(1) Some, of key]) (use assms(3) in auto)
  obtain h where inv: "capsOk (capsOf t)" "entriesOk (btSize t) (ents (leavesOf root))"
    "idsOk (btLinks t) (btNextId t) (map fst (leavesOf root))" "treeEntries t = ents (leavesOf root)"
    using treeInvD [OF assms(1) Some] by metis
  have ls: "leavesOf root = leftOf path @ (i, A @ B) # rightOf path" and p: "pathOk (capsOf t) 0 path" "okAt (capsOf t) 0 path (Leaf p i keys vals)"
    using d(2,7) by (auto simp: arrives_def)
  let ?ks = "insertAtIndex (length A) key keys" and ?vs = "insertAtIndex (length A) v vals"
  let ?t = "t\<lparr>btSize := btSize t + 1\<rparr>"
  note zip = leaf_insert [OF d(7,3)]
  let ?es = "ents (leftOf path) @ zip ?ks ?vs @ ents (rightOf path)"
  have es: "?es = (ents (leftOf path) @ A) @ (key, v) # B @ ents (rightOf path)" by (simp add: zip(1))
  have "entriesOk (btSize t) ((ents (leftOf path) @ A) @ B @ ents (rightOf path))" using inv(2) ls by simp
  from entriesOk_insert [OF this d(4,5) assms(2)] have ok: "entriesOk (btSize ?t) ?es" unfolding es by simp
  have ids: "idsOk (btLinks ?t) (btNextId ?t) (map fst (leftOf path) @ i # map fst (rightOf path))" using inv(3) ls by simp
  have caps: "capsOf ?t = capsOf t" by (simp add: capsOf_def)
  have "treeMap t = map_of ((ents (leftOf path) @ A) @ B @ ents (rightOf path))" using inv(4) ls by (simp add: treeMap_def)
  then have m: "map_of ?es = (treeMap t)(key \<mapsto> v)" unfolding es using around_key(2) [OF d(4,5)] by (simp only:)
  have len: "length ?ks = Suc (length keys)" "length ?vs = length ?ks" "length keys \<le> btLeafMax t"
    using zip(2,3) d(3) p(2) by (auto simp: okAt_def split: if_splits)
  have ins: "treeInsert key v t = res_bind (if length ?ks > btLeafMax t then splitLeaf ?t path p i ?ks ?vs
      else res_bind (refreshAncestors path (Leaf p i ?ks ?vs)) (\<lambda>root'. Inr (?t\<lparr>btRoot := Some root'\<rparr>))) (\<lambda>t2. Inr (True, t2))"
    using Some d(1,6,8) assms(2) by (auto simp: treeInsert_def Let_def)
  show thesis
  proof (cases "length ?ks > btLeafMax t")
    case True
    then have "length ?ks = btLeafMax ?t + 1" using len by simp
    from splitLeaf_ok [of ?t path ?ks ?vs i, unfolded caps, OF inv(1) p(1) this len(2) ids ok]
    obtain t' where "splitLeaf ?t path p i ?ks ?vs = Inr t'" "treeInv t'" "capsOf t' = capsOf t" "treeEntries t' = ?es"
      unfolding okAt_parent [OF p(2), simplified] by blast
    then show thesis using that [of t'] ins True m by (simp add: treeMap_def)
  next
    case False
    have "okAt (capsOf t) 0 path (Leaf p i ?ks ?vs)" using False len p(2) by (auto simp: okAt_def)
    from refresh_leaf [of ?t path p i ?ks ?vs, unfolded caps, OF inv(1) p(1) this ids ok]
    obtain root' where r: "refreshAncestors path (Leaf p i ?ks ?vs) = Inr root'" "treeInv (?t\<lparr>btRoot := Some root'\<rparr>)"
      "treeEntries (?t\<lparr>btRoot := Some root'\<rparr>) = ?es" by blast
    have "capsOf (?t\<lparr>btRoot := Some root'\<rparr>) = capsOf t" by (simp add: capsOf_def)
    then show thesis using that [OF _ r(2)] r ins False m by (simp add: treeMap_def)
  qed
qed

lemma insert_existing:
  assumes "treeInv t" "recordIdIsValid v" "treeMap t key = Some w"
  shows "treeInsert key v t = Inr (False, t)"
proof (cases "btRoot t")
  case None
  then show ?thesis using assms(3) by (simp add: treeMap_def treeEntries_def treeLeaves_def)
next
  case (Some root)
  obtain path p i keys vals where "descend key [] root = Inr (path, p, i, keys, vals)"
    "lowerBound keys key < length keys" "keys ! lowerBound keys key = key"
    by (rule tree_position [OF assms(1) Some, of key]) (use assms(3) in auto)
  then show ?thesis using Some assms(2) by (simp add: treeInsert_def)
qed

section \<open>Removal\<close>

lemma res_bind_assoc: "res_bind (res_bind m f) g = res_bind m (\<lambda>x. res_bind (f x) g)"
  by (cases m) simp_all

text \<open>A leaf below a parent that has one entry too few.\<close>

definition underLeaf :: "bplus_tree \<Rightarrow> nat \<Rightarrow> node list \<Rightarrow> node list \<Rightarrow> crumb list \<Rightarrow> nat \<Rightarrow> index_key list \<Rightarrow> record_id list \<Rightarrow> bool" where
  "underLeaf t j before after path leaf keys vals \<longleftrightarrow> capsOk (capsOf t) \<and> pathOk (capsOf t) (Suc 0) path
     \<and> list_all (nodeOk (capsOf t) 0 (Some j)) before \<and> list_all (nodeOk (capsOf t) 0 (Some j)) after
     \<and> (if path = [] then 2 else btInternalMin t + 1) \<le> length before + 1 + length after
     \<and> length before + 1 + length after \<le> btInternalMax t + 1
     \<and> length vals = length keys \<and> length keys + 1 = btLeafMin t"

lemma underLeafD:
  assumes "underLeaf t j before after path leaf keys vals"
  shows "capsOk (capsOf t)" "pathOk (capsOf t) (Suc 0) path" "list_all (nodeOk (capsOf t) 0 (Some j)) before"
    "list_all (nodeOk (capsOf t) 0 (Some j)) after" "(if path = [] then 2 else btInternalMin t + 1) \<le> length before + 1 + length after"
    "length before + 1 + length after \<le> btInternalMax t + 1" "length vals = length keys" "length keys + 1 = btLeafMin t"
    "1 \<le> btInternalMin t" "2 * btLeafMin t \<le> btLeafMax t + 1" "2 \<le> btLeafMin t"
  using assms by (auto simp: underLeaf_def capsOk_def)

lemma leaf_siblings:
  assumes "underLeaf t j before after path leaf keys vals"
  shows "before \<noteq> [] \<Longrightarrow> \<exists>bs i ks vs. before = bs @ [Leaf (Some j) i ks vs] \<and> length vs = length ks \<and> btLeafMin t \<le> length ks \<and> length ks \<le> btLeafMax t"
    and "after \<noteq> [] \<Longrightarrow> \<exists>as i ks vs. after = Leaf (Some j) i ks vs # as \<and> length vs = length ks \<and> btLeafMin t \<le> length ks \<and> length ks \<le> btLeafMax t"
proof -
  have n: "nodeOk (capsOf t) 0 (Some j) n \<Longrightarrow> \<exists>i ks vs. n = Leaf (Some j) i ks vs \<and> length vs = length ks \<and> btLeafMin t \<le> length ks \<and> length ks \<le> btLeafMax t" for n
    by (cases n) auto
  note u = underLeafD [OF assms]
  show "before \<noteq> [] \<Longrightarrow> \<exists>bs i ks vs. before = bs @ [Leaf (Some j) i ks vs] \<and> length vs = length ks \<and> btLeafMin t \<le> length ks \<and> length ks \<le> btLeafMax t"
    using u(3) n [of "last before"] rebalance_sides [of "capsOf t" 0 "Some j" before] by metis
  show "after \<noteq> [] \<Longrightarrow> \<exists>as i ks vs. after = Leaf (Some j) i ks vs # as \<and> length vs = length ks \<and> btLeafMin t \<le> length ks \<and> length ks \<le> btLeafMax t"
    using u(4) n [of "hd after"] by (cases after) auto
qed

text \<open>Its repair: a parent of the same entries, and leaves that are a chain.\<close>

definition leafRepaired :: "bplus_tree \<Rightarrow> nat \<Rightarrow> index_key list \<Rightarrow> node list \<Rightarrow> node list \<Rightarrow> crumb list \<Rightarrow> nat \<Rightarrow> index_key list \<Rightarrow> record_id list \<Rightarrow> bool" where
  "leafRepaired t j pkeys before after path leaf keys vals \<longleftrightarrow>
     (\<exists>root links ls. rebalanceLeaf t (Crumb (pathId path) j pkeys before after # path) (Some j) leaf keys vals = Inr (root, links)
       \<and> rootFor (capsOf t) path ls root
       \<and> ents ls = ents (concat (map leavesOf before)) @ zip keys vals @ ents (concat (map leavesOf after))
       \<and> (\<forall>xs ys n. idsOk (btLinks t) n (xs @ map fst (concat (map leavesOf before)) @ leaf # map fst (concat (map leavesOf after)) @ ys)
            \<longrightarrow> idsOk links n (xs @ map fst ls @ ys)))"

lemma leaf_borrow_left:
  assumes "underLeaf t j (bs @ [Leaf (Some j) i ks vs]) after path leaf keys vals" "length vs = length ks" "length ks \<le> btLeafMax t" "length ks > btLeafMin t"
  shows "leafRepaired t j pkeys (bs @ [Leaf (Some j) i ks vs]) after path leaf keys vals"
proof -
  note u = underLeafD [OF assms(1)]
  obtain ks' k where ks: "ks = ks' @ [k]" using assms(4) by (cases ks rule: rev_cases) auto
  obtain vs' v where vs: "vs = vs' @ [v]" using assms(2) ks by (cases vs rule: rev_cases) auto
  have len: "length vs' = length ks'" using assms(2) ks vs by simp
  let ?ds = "bs @ [Leaf (Some j) i ks' vs', Leaf (Some j) leaf (k # keys) (v # vals)] @ after"
  have "\<exists>root. res_bind (rebuildKeys (pathId path) j ?ds) (\<lambda>parent. refreshAncestors path parent) = Inr root
      \<and> rootFor (capsOf t) path (concat (map leavesOf ?ds)) root"
    using u assms(3,4) ks len by (intro repaired_refresh [OF u(1,2)]) (auto split: if_splits)
  then obtain root where root: "res_bind (rebuildKeys (pathId path) j ?ds) (\<lambda>parent. refreshAncestors path parent) = Inr root"
    "rootFor (capsOf t) path (concat (map leavesOf ?ds)) root" by blast
  have "rebalanceLeaf t (Crumb (pathId path) j pkeys (bs @ [Leaf (Some j) i ks vs]) after # path) (Some j) leaf keys vals
      = res_bind (res_bind (rebuildKeys (pathId path) j ?ds) (\<lambda>parent. refreshAncestors path parent)) (\<lambda>root. Inr (root, btLinks t))"
    using leaf_siblings(2) [OF assms(1)] assms(4) ks vs by (cases "after = []") (auto simp: rebalanceLeaf_def res_bind_assoc)
  then show ?thesis unfolding leafRepaired_def root(1) using root(2) len ks vs
    by (intro exI [of _ root] exI [of _ "btLinks t"] exI [of _ "concat (map leavesOf ?ds)"]) simp
qed

lemma leaf_borrow_right:
  assumes "underLeaf t j before (Leaf (Some j) i ks vs # as) path leaf keys vals" "length vs = length ks" "length ks \<le> btLeafMax t" "length ks > btLeafMin t"
    and "\<forall>bs m ks vs. before = bs @ [Leaf (Some j) m ks vs] \<longrightarrow> \<not> length ks > btLeafMin t"
  shows "leafRepaired t j pkeys before (Leaf (Some j) i ks vs # as) path leaf keys vals"
proof -
  note u = underLeafD [OF assms(1)]
  obtain k ks' where ks: "ks = k # ks'" using assms(4) by (cases ks) auto
  obtain v vs' where vs: "vs = v # vs'" using assms(2) ks by (cases vs) auto
  have len: "length vs' = length ks'" using assms(2) ks vs by simp
  let ?ds = "before @ [Leaf (Some j) leaf (keys @ [k]) (vals @ [v]), Leaf (Some j) i ks' vs'] @ as"
  have "\<exists>root. res_bind (rebuildKeys (pathId path) j ?ds) (\<lambda>parent. refreshAncestors path parent) = Inr root
      \<and> rootFor (capsOf t) path (concat (map leavesOf ?ds)) root"
    using u assms(3,4) ks len by (intro repaired_refresh [OF u(1,2)]) (auto split: if_splits)
  then obtain root where root: "res_bind (rebuildKeys (pathId path) j ?ds) (\<lambda>parent. refreshAncestors path parent) = Inr root"
    "rootFor (capsOf t) path (concat (map leavesOf ?ds)) root" by blast
  have "rebalanceLeaf t (Crumb (pathId path) j pkeys before (Leaf (Some j) i ks vs # as) # path) (Some j) leaf keys vals
      = res_bind (res_bind (rebuildKeys (pathId path) j ?ds) (\<lambda>parent. refreshAncestors path parent)) (\<lambda>root. Inr (root, btLinks t))"
    using leaf_siblings(1) [OF assms(1)] assms(4,5) ks vs by (cases "before = []") (auto simp: rebalanceLeaf_def res_bind_assoc)
  then show ?thesis unfolding leafRepaired_def root(1) using root(2) len ks vs u(7)
    by (intro exI [of _ root] exI [of _ "btLinks t"] exI [of _ "concat (map leavesOf ?ds)"]) simp
qed

lemma idsOk_unlink:
  "idsOk links n (xs @ i # r # ys) \<Longrightarrow> idsOk (unlinkRight i r links) n (xs @ i # ys)"
  using chained_unlinkRight by (auto simp: idsOk_def)

lemma finish_removal:
  assumes "capsOk c" "pathOk c (Suc 0) path" "list_all (nodeOk c 0 (Some j)) ds" "ds \<noteq> []" "length ds \<le> cInnerMax c + 1"
    "path = [] \<or> cInnerMin c \<le> length ds"
  obtains root where "finishInternalRemoval (cInnerMin c) path (pathId path) j ds = Inr root" "rootFor c path (concat (map leavesOf ds)) root"
  using removal_ok [OF assms(1,2)] assms(3-6) unfolding finishes_def by blast

lemma leaf_merge_left:
  assumes "underLeaf t j (bs @ [Leaf (Some j) i ks vs]) after path leaf keys vals" "length vs = length ks" "length ks = btLeafMin t"
    and "\<forall>as m ks vs. after = Leaf (Some j) m ks vs # as \<longrightarrow> \<not> length ks > btLeafMin t"
  shows "leafRepaired t j pkeys (bs @ [Leaf (Some j) i ks vs]) after path leaf keys vals"
proof -
  note u = underLeafD [OF assms(1)]
  let ?ds = "bs @ Leaf (Some j) i (ks @ keys) (vs @ vals) # after"
  have "list_all (nodeOk (capsOf t) 0 (Some j)) ?ds" using u assms(2,3) by auto
  from finish_removal [OF u(1,2) this] obtain root
    where root: "finishInternalRemoval (btInternalMin t) path (pathId path) j ?ds = Inr root" "rootFor (capsOf t) path (concat (map leavesOf ?ds)) root"
    using u(5,6) by (auto split: if_splits)
  have "rebalanceLeaf t (Crumb (pathId path) j pkeys (bs @ [Leaf (Some j) i ks vs]) after # path) (Some j) leaf keys vals
      = res_bind (finishInternalRemoval (btInternalMin t) path (pathId path) j ?ds) (\<lambda>root. Inr (root, unlinkRight i leaf (btLinks t)))"
    using leaf_siblings(2) [OF assms(1)] assms(3,4)
    by (cases "after = []") (auto simp: rebalanceLeaf_def simp del: finishInternalRemoval.simps)
  moreover have "idsOk (unlinkRight i leaf (btLinks t)) n (xs @ map fst (concat (map leavesOf ?ds)) @ ys)"
    if "idsOk (btLinks t) n (xs @ map fst (concat (map leavesOf (bs @ [Leaf (Some j) i ks vs]))) @ leaf # map fst (concat (map leavesOf after)) @ ys)" for xs ys n
    using idsOk_unlink [of "btLinks t" n "xs @ map fst (concat (map leavesOf bs))" i leaf "map fst (concat (map leavesOf after)) @ ys"] that by simp
  ultimately show ?thesis unfolding leafRepaired_def root(1) using root(2) assms(2)
    by (intro exI [of _ root] exI [of _ "unlinkRight i leaf (btLinks t)"] exI [of _ "concat (map leavesOf ?ds)"]) simp
qed

lemma leaf_merge_right:
  assumes "underLeaf t j [] (Leaf (Some j) i ks vs # as) path leaf keys vals" "length vs = length ks" "length ks = btLeafMin t"
  shows "leafRepaired t j pkeys [] (Leaf (Some j) i ks vs # as) path leaf keys vals"
proof -
  note u = underLeafD [OF assms(1)]
  let ?ds = "Leaf (Some j) leaf (keys @ ks) (vals @ vs) # as"
  have "list_all (nodeOk (capsOf t) 0 (Some j)) ?ds" using u assms(2,3) by auto
  from finish_removal [OF u(1,2) this] obtain root
    where root: "finishInternalRemoval (btInternalMin t) path (pathId path) j ?ds = Inr root" "rootFor (capsOf t) path (concat (map leavesOf ?ds)) root"
    using u(5,6) by (auto split: if_splits)
  have "rebalanceLeaf t (Crumb (pathId path) j pkeys [] (Leaf (Some j) i ks vs # as) # path) (Some j) leaf keys vals
      = res_bind (finishInternalRemoval (btInternalMin t) path (pathId path) j ?ds) (\<lambda>root. Inr (root, unlinkRight leaf i (btLinks t)))"
    using assms(3) by (simp add: rebalanceLeaf_def del: finishInternalRemoval.simps)
  moreover have "idsOk (unlinkRight leaf i (btLinks t)) n (xs @ map fst (concat (map leavesOf ?ds)) @ ys)"
    if "idsOk (btLinks t) n (xs @ map fst (concat (map leavesOf [])) @ leaf # map fst (concat (map leavesOf (Leaf (Some j) i ks vs # as))) @ ys)" for xs ys n
    using idsOk_unlink [of "btLinks t" n xs leaf i "map fst (concat (map leavesOf as)) @ ys"] that by simp
  ultimately show ?thesis unfolding leafRepaired_def root(1) using root(2) assms(2) u(7)
    by (intro exI [of _ root] exI [of _ "unlinkRight leaf i (btLinks t)"] exI [of _ "concat (map leavesOf ?ds)"]) simp
qed

lemma leaf_repaired:
  assumes "underLeaf t j before after path leaf keys vals"
  shows "leafRepaired t j pkeys before after path leaf keys vals"
proof (cases "before = []")
  case True
  then have "after \<noteq> []" using underLeafD [OF assms] by (auto split: if_splits)
  then obtain as i ks vs where a: "after = Leaf (Some j) i ks vs # as" "length vs = length ks" "btLeafMin t \<le> length ks" "length ks \<le> btLeafMax t"
    using leaf_siblings(2) [OF assms] by blast
  then show ?thesis
    using leaf_borrow_right [OF assms [unfolded a(1)] a(2,4)] leaf_merge_right [OF assms [unfolded a(1) True] a(2)] True
    by (cases "length ks > btLeafMin t") auto
next
  case False
  then obtain bs i ks vs where b: "before = bs @ [Leaf (Some j) i ks vs]" "length vs = length ks" "btLeafMin t \<le> length ks" "length ks \<le> btLeafMax t"
    using leaf_siblings(1) [OF assms] by blast
  show ?thesis
  proof (cases "length ks > btLeafMin t")
    case True
    then show ?thesis using leaf_borrow_left [OF assms [unfolded b(1)] b(2,4)] b(1) by blast
  next
    case poor: False
    show ?thesis
    proof (cases "\<exists>as m ks vs. after = Leaf (Some j) m ks vs # as \<and> length ks > btLeafMin t")
      case True
      then obtain as m ks' vs' where a: "after = Leaf (Some j) m ks' vs' # as" "length ks' > btLeafMin t" by blast
      then have "length vs' = length ks'" "length ks' \<le> btLeafMax t" using leaf_siblings(2) [OF assms] by auto
      then show ?thesis using leaf_borrow_right [OF assms [unfolded a(1)] _ _ a(2)] poor b(1) a(1) by auto
    next
      case False
      then have "\<forall>as m ks vs. after = Leaf (Some j) m ks vs # as \<longrightarrow> \<not> length ks > btLeafMin t" by blast
      moreover have "length ks = btLeafMin t" using poor b(3) by simp
      ultimately show ?thesis unfolding b(1) by (intro leaf_merge_left [OF assms [unfolded b(1)] b(2)])
    qed
  qed
qed

lemma erase_found:
  assumes "treeInv t" "treeMap t key = Some v"
  obtains t' where "treeErase key t = Inr (True, t')" "treeInv t'" "capsOf t' = capsOf t" "treeMap t' = (treeMap t)(key := None)"
proof -
  obtain root where Some: "btRoot t = Some root"
    using assms(2) by (cases "btRoot t") (auto simp: treeMap_def treeEntries_def treeLeaves_def)
  obtain path p i keys vals A B where d: "descend key [] root = Inr (path, p, i, keys, vals)"
    "arrives (capsOf t) key (leavesOf root) (path, p, i, keys, vals)" "length vals = length keys"
    "\<forall>e\<in>set (ents (leftOf path) @ A). fst e < key" "\<forall>e\<in>set (B @ ents (rightOf path)). key < fst e"
    "lowerBound keys key = length A" "zip keys vals = A @ (key, v) # B"
    "lowerBound keys key < length keys" "keys ! lowerBound keys key = key"
    by (rule tree_position [OF assms(1) Some, of key]) (use assms(2) in auto)
  obtain h where inv: "capsOk (capsOf t)" "entriesOk (btSize t) (ents (leavesOf root))"
    "idsOk (btLinks t) (btNextId t) (map fst (leavesOf root))" "treeEntries t = ents (leavesOf root)"
    using treeInvD [OF assms(1) Some] by metis
  have ls: "leavesOf root = leftOf path @ (i, A @ (key, v) # B) # rightOf path" and p: "pathOk (capsOf t) 0 path" "okAt (capsOf t) 0 path (Leaf p i keys vals)"
    using d(2,7) by (auto simp: arrives_def)
  let ?ks = "removeAtIndex (length A) keys" and ?vs = "removeAtIndex (length A) vals"
  let ?t = "t\<lparr>btSize := btSize t - 1\<rparr>"
  note zip = leaf_remove [OF d(7,3)]
  let ?es = "ents (leftOf path) @ zip ?ks ?vs @ ents (rightOf path)"
  have es: "?es = (ents (leftOf path) @ A) @ B @ ents (rightOf path)" by (simp add: zip(1))
  have "entriesOk (btSize t) ((ents (leftOf path) @ A) @ (key, v) # B @ ents (rightOf path))" using inv(2) ls by simp
  from entriesOk_remove [OF this] have ok: "entriesOk (btSize ?t) ?es" unfolding es by simp
  have ids: "idsOk (btLinks ?t) (btNextId ?t) (map fst (leftOf path) @ i # map fst (rightOf path))" using inv(3) ls by simp
  have "treeMap t = map_of ((ents (leftOf path) @ A) @ (key, v) # B @ ents (rightOf path))" using inv(4) ls by (simp add: treeMap_def)
  then have m: "map_of ?es = (treeMap t)(key := None)" unfolding es using around_key(3) [OF d(4,5)] by (simp only:)
  have len: "length ?vs = length ?ks" "length ?ks = length keys - 1" using zip(2,3) d(3) by simp_all
  have er: "treeErase key t = (if path = [] then Inr (True, ?t\<lparr>btRoot := (if ?ks = [] then None else Some (Leaf p i ?ks ?vs))\<rparr>)
       else if length ?ks \<ge> btLeafMin t then
         res_bind (refreshAncestors path (Leaf p i ?ks ?vs)) (\<lambda>root'. Inr (True, ?t\<lparr>btRoot := Some root'\<rparr>))
       else res_bind (rebalanceLeaf ?t path p i ?ks ?vs) (\<lambda>(root', links'). Inr (True, ?t\<lparr>btRoot := Some root', btLinks := links'\<rparr>)))"
    using Some d(1,6,8,9) by (simp add: treeErase_def Let_def)
  consider (empty) "path = []" "?ks = []" | (root) "path = []" "?ks \<noteq> []" | (enough) "path \<noteq> []" "length ?ks \<ge> btLeafMin t"
    | (few) "path \<noteq> []" "\<not> length ?ks \<ge> btLeafMin t" by blast
  then show thesis
  proof cases
    case empty
    then have e: "?es = []" by simp
    let ?t' = "?t\<lparr>btRoot := None\<rparr>"
    have "treeInv ?t'" using inv(1) ok e unfolding treeInv_def by (simp add: treeEntries_def treeLeaves_def idsOk_def entriesOk_def)
    moreover have "treeMap ?t' = (treeMap t)(key := None)" using m e by (simp add: treeMap_def treeEntries_def treeLeaves_def)
    ultimately show thesis using that [of ?t'] er empty by simp
  next
    case root
    then have "length ?ks \<noteq> 0" by simp
    then have ok': "okAt (capsOf ?t) 0 path (Leaf p i ?ks ?vs)" using p(2) root(1) len d(3) by (auto simp: okAt_def)
    have c: "capsOk (capsOf ?t)" "pathOk (capsOf ?t) 0 path" using inv(1) p(1) by simp_all
    obtain root' where r: "refreshAncestors path (Leaf p i ?ks ?vs) = Inr root'" "treeInv (?t\<lparr>btRoot := Some root'\<rparr>)"
      "treeEntries (?t\<lparr>btRoot := Some root'\<rparr>) = ?es"
      using refresh_leaf [OF c ok' ids ok] .
    have "root' = Leaf p i ?ks ?vs" using r(1) root(1) okAt_parent [OF ok'] by simp
    then have "treeInv (?t\<lparr>btRoot := Some (Leaf p i ?ks ?vs)\<rparr>)" "treeEntries (?t\<lparr>btRoot := Some (Leaf p i ?ks ?vs)\<rparr>) = ?es"
      using r(2,3) by simp_all
    then show thesis using that [of "?t\<lparr>btRoot := Some (Leaf p i ?ks ?vs)\<rparr>"] er root m by (simp add: treeMap_def)
  next
    case enough
    have ok': "okAt (capsOf ?t) 0 path (Leaf p i ?ks ?vs)" using p(2) enough len by (auto simp: okAt_def)
    obtain root' where "refreshAncestors path (Leaf p i ?ks ?vs) = Inr root'" "treeInv (?t\<lparr>btRoot := Some root'\<rparr>)"
      "treeEntries (?t\<lparr>btRoot := Some root'\<rparr>) = ?es"
      using refresh_leaf [of ?t path p i ?ks ?vs, OF _ _ ok' ids ok] inv(1) p(1) by auto
    then show thesis using that [of "?t\<lparr>btRoot := Some root'\<rparr>"] er enough m by (simp add: treeMap_def)
  next
    case few
    then obtain q j pk before after rest where path: "path = Crumb q j pk before after # rest" by (cases path; metis crumb.exhaust)
    have "underLeaf ?t j before after rest i ?ks ?vs"
      using p path inv(1) few(2) len by (auto simp: underLeaf_def okAt_def)
    moreover have "p = Some j" "q = pathId rest" using okAt_parent [OF p(2)] p(1) path by simp_all
    ultimately have "leafRepaired ?t j pk before after rest i ?ks ?vs" "path = Crumb (pathId rest) j pk before after # rest" "p = Some j"
      using leaf_repaired path by blast+
    then obtain root' links' ls' where r: "rebalanceLeaf ?t path p i ?ks ?vs = Inr (root', links')"
      "rootFor (capsOf t) rest ls' root'"
      "ents ls' = ents (concat (map leavesOf before)) @ zip ?ks ?vs @ ents (concat (map leavesOf after))"
      "\<forall>xs ys n. idsOk (btLinks t) n (xs @ map fst (concat (map leavesOf before)) @ i # map fst (concat (map leavesOf after)) @ ys)
            \<longrightarrow> idsOk links' n (xs @ map fst ls' @ ys)"
      unfolding leafRepaired_def by auto
    let ?t' = "?t\<lparr>btRoot := Some root', btLinks := links'\<rparr>"
    have e: "ents (leftOf rest @ ls' @ rightOf rest) = ?es" using r(3) path by simp
    have "idsOk links' (btNextId t) (map fst (leftOf rest) @ map fst ls' @ map fst (rightOf rest))"
      by (rule r(4) [rule_format]) (use ids path in simp)
    then have "treeInv ?t' \<and> treeEntries ?t' = ents (leftOf rest @ ls' @ rightOf rest)"
      using inv(1) r(2) ok unfolding e [symmetric] by (intro treeInvI [of ?t' root' rest ls']) simp_all
    then show thesis using that [of ?t'] er few r(1) m unfolding e by (simp add: treeMap_def)
  qed
qed

lemma erase_missing:
  assumes "treeInv t" "treeMap t key = None"
  shows "treeErase key t = Inr (False, t)"
proof (cases "btRoot t")
  case (Some root)
  obtain path p i keys vals where "descend key [] root = Inr (path, p, i, keys, vals)"
    "\<not> (lowerBound keys key < length keys \<and> keys ! lowerBound keys key = key)"
    by (rule tree_position [OF assms(1) Some, of key]) (use assms(2) in auto)
  moreover have "lowerBound keys key \<le> length keys" unfolding lowerBound_def by (rule length_takeWhile_le)
  ultimately show ?thesis using Some by (auto simp: treeErase_def)
qed (simp add: treeErase_def)

end
