(* ===== verification/BPlus_Tree_Map.thy ===== *)
theory BPlus_Tree_Map
  imports BPlus_Tree_Laws
begin

text \<open>
  The in-memory B+ tree as a finite map. The scans come to an end and list the map in the order of the keys; the
  tree's own \<open>validate\<close> has nothing to object to; the height is logarithmic in the number of entries; and a
  sequence of insertions and removals has the results and the effect it has on a map.
\<close>

section \<open>Scans\<close>

lemma leafAt_map_of:
  "map_option (\<lambda>kv. zip (fst kv) (snd kv)) (leafAt n j) = map_of (leavesOf n) j"
  "map_option (\<lambda>kv. zip (fst kv) (snd kv)) (leafIn ns j) = map_of (concat (map leavesOf ns)) j"
proof (induction n j and ns j rule: leafAt_leafIn.induct)
  case (4 c cs j)
  then show ?case by (cases "leafAt c j"; cases "map_of (leavesOf c) j") (auto simp: map_add_def split: option.splits)
qed auto

lemma leafAt_leaf:
  assumes "distinct (map fst (leavesOf root))" "(i, es) \<in> set (leavesOf root)"
  obtains ks vs where "leafAt root i = Some (ks, vs)" "zip ks vs = es"
proof -
  have "map_option (\<lambda>kv. zip (fst kv) (snd kv)) (leafAt root i) = Some es"
    using leafAt_map_of(1) [of root i] map_of_is_SomeI [OF assms] by simp
  then show thesis using that by auto
qed

lemma scanAllLoop_ok:
  assumes "distinct (map fst (leavesOf root))"
  shows "set ((i, es) # ls) \<subseteq> set (leavesOf root) \<Longrightarrow> chained links p (map fst ((i, es) # ls)) None
    \<Longrightarrow> scanAllLoop root links i acc = Some (acc @ es @ ents ls)"
proof (induction ls arbitrary: i es p acc)
  case Nil
  obtain ks vs where "leafAt root i = Some (ks, vs)" "zip ks vs = es" by (rule leafAt_leaf [OF assms, of i es]) (use Nil in auto)
  then show ?case using Nil by (subst scanAllLoop.simps) simp
next
  case (Cons l ls)
  obtain ks vs where "leafAt root i = Some (ks, vs)" "zip ks vs = es" by (rule leafAt_leaf [OF assms, of i es]) (use Cons.prems in auto)
  moreover have "scanAllLoop root links (fst l) (acc @ es) = Some ((acc @ es) @ snd l @ ents ls)"
    by (rule Cons.IH [of _ _ "Some i"]) (use Cons.prems in auto)
  ultimately show ?case using Cons.prems by (subst scanAllLoop.simps) (simp add: Let_def)
qed

lemma scanLeaf_ok:
  "scanLeaf upper es acc = (acc @ takeWhile (\<lambda>e. fst e \<le> upper) es, \<exists>e\<in>set es. upper < fst e)"
  by (induction upper es acc rule: scanLeaf.induct) (auto simp: not_less)

lemma rangeLoop_ok:
  assumes "distinct (map fst (leavesOf root))"
  shows "set ((i, es) # ls) \<subseteq> set (leavesOf root) \<Longrightarrow> chained links p (map fst ((i, es) # ls)) None
    \<Longrightarrow> rangeLoop root links upper i n acc = Some (acc @ takeWhile (\<lambda>e. fst e \<le> upper) (drop n es @ ents ls))"
proof (induction ls arbitrary: i es p acc n)
  case Nil
  obtain ks vs where "leafAt root i = Some (ks, vs)" "zip ks vs = es" by (rule leafAt_leaf [OF assms, of i es]) (use Nil in auto)
  then show ?case using Nil by (subst rangeLoop.simps) (simp add: Let_def scanLeaf_ok)
next
  case (Cons l ls)
  obtain ks vs where l: "leafAt root i = Some (ks, vs)" "zip ks vs = es" by (rule leafAt_leaf [OF assms, of i es]) (use Cons.prems in auto)
  show ?case
  proof (cases "\<exists>e\<in>set (drop n es). upper < fst e")
    case True
    then obtain e where "e \<in> set (drop n es)" "\<not> fst e \<le> upper" by auto
    then have "takeWhile (\<lambda>e. fst e \<le> upper) (drop n es @ ents (l # ls)) = takeWhile (\<lambda>e. fst e \<le> upper) (drop n es)"
      by (rule takeWhile_append1)
    then show ?thesis using l True Cons.prems by (subst rangeLoop.simps) (simp add: Let_def scanLeaf_ok)
  next
    case False
    then have all: "\<forall>e\<in>set (drop n es). fst e \<le> upper" by auto
    have "rangeLoop root links upper (fst l) 0 (acc @ drop n es)
        = Some ((acc @ drop n es) @ takeWhile (\<lambda>e. fst e \<le> upper) (drop 0 (snd l) @ ents ls))"
      by (rule Cons.IH [of _ _ "Some i"]) (use Cons.prems in auto)
    moreover have tw: "takeWhile (\<lambda>e. fst e \<le> upper) (drop n es) = drop n es" using all by (simp add: takeWhile_eq_all_conv)
    ultimately show ?thesis using l False Cons.prems all
      by (subst rangeLoop.simps) (simp add: Let_def scanLeaf_ok takeWhile_append2 tw)
  qed
qed

lemma leftmost_ok: "capsOk c \<Longrightarrow> detached c h root \<Longrightarrow> leftmostLeaf root = Inr (fst (hd (leavesOf root))) \<and> leavesOf root \<noteq> []"
proof (induction root arbitrary: h)
  case (Leaf p i keys vals)
  then show ?case by simp
next
  case (Internal p j keys cs)
  then obtain h' where h: "h = Suc h'" by (cases h) (auto simp: setParent_def)
  then obtain d ds where d: "cs = d # ds" using Internal.prems by (cases cs) (auto simp: setParent_def)
  then have "nodeOk c h' (Some j) d" using Internal.prems h by (simp add: setParent_def)
  then have "detached c h' d" using node_detached [OF Internal.prems(1)] by blast
  then show ?case using Internal.IH [of d h'] Internal.prems(1) d by (simp add: hd_append)
qed

lemma scanAll_ok:
  assumes "treeInv t"
  shows "scanAll t = Inr (Some (treeEntries t))"
proof (cases "btRoot t")
  case (Some root)
  obtain h where inv: "capsOk (capsOf t)" "rootOk (capsOf t) h root" "idsOk (btLinks t) (btNextId t) (map fst (leavesOf root))"
    "treeEntries t = ents (leavesOf root)"
    using treeInvD [OF assms Some] by metis
  obtain i es ls where l: "leavesOf root = (i, es) # ls" "leftmostLeaf root = Inr i"
    using leftmost_ok [OF inv(1) root_detached [OF inv(2)]] by (cases "leavesOf root") auto
  have "scanAllLoop root (btLinks t) i [] = Some ([] @ es @ ents ls)"
    by (rule scanAllLoop_ok [of root i es ls _ None]) (use inv(3) l in \<open>simp_all add: idsOk_def\<close>)
  then show ?thesis using Some l inv(4) by (simp add: scanAll_def)
qed (simp add: scanAll_def treeEntries_def treeLeaves_def)

lemma takeWhile_sorted:
  "sorted_wrt (<) (map fst es) \<Longrightarrow> takeWhile (\<lambda>e. fst e \<le> (u :: index_key)) es = filter (\<lambda>e. fst e \<le> u) es"
proof (induction es)
  case (Cons e es)
  then have "\<not> fst e \<le> u \<Longrightarrow> filter (\<lambda>e. fst e \<le> u) es = []" by (fastforce simp: filter_empty_conv)
  then show ?case using Cons by auto
qed simp

lemma range_in_tree:
  assumes "treeInv t" "btRoot t = Some root"
  obtains path p i keys vals where "descend lo [] root = Inr (path, p, i, keys, vals)"
    "leavesOf root = leftOf path @ (i, zip keys vals) # rightOf path"
    "drop (lowerBound keys lo) (zip keys vals) @ ents (rightOf path) = filter (\<lambda>e. lo \<le> fst e) (treeEntries t)"
proof -
  obtain path p i keys vals A B where d: "descend lo [] root = Inr (path, p, i, keys, vals)"
    "arrives (capsOf t) lo (leavesOf root) (path, p, i, keys, vals)"
    "\<forall>e\<in>set (ents (leftOf path) @ A). fst e < lo" "\<forall>e\<in>set (B @ ents (rightOf path)). lo < fst e"
    "lowerBound keys lo = length A" "zip keys vals = A @ B \<or> (\<exists>v. zip keys vals = A @ (lo, v) # B)"
    by (rule tree_position [OF assms, of lo]) auto
  have ls: "leavesOf root = leftOf path @ (i, zip keys vals) # rightOf path" using d(2) by (simp add: arrives_def)
  then have es: "treeEntries t = (ents (leftOf path) @ A) @ drop (length A) (zip keys vals) @ ents (rightOf path)"
    using d(6) assms(2) by (auto simp: treeEntries_def treeLeaves_def)
  have "filter (\<lambda>e. lo \<le> fst e) (ents (leftOf path) @ A) = []" unfolding filter_empty_conv using d(3) by (simp only: not_le simp_thms)
  moreover have "filter (\<lambda>e. lo \<le> fst e) (drop (length A) (zip keys vals) @ ents (rightOf path)) = drop (length A) (zip keys vals) @ ents (rightOf path)"
    unfolding filter_id_conv using d(4,6) by (auto simp: order.strict_iff_order)
  ultimately show thesis using that [OF d(1) ls] d(5) es by (simp only: filter_append append_Nil)
qed

lemma rangeScan_ok:
  assumes "treeInv t"
  shows "rangeScan t lo hi = Inr (Some (filter (\<lambda>e. lo \<le> fst e \<and> fst e \<le> hi) (treeEntries t)))"
proof (cases "btRoot t")
  case (Some root)
  obtain h where inv: "idsOk (btLinks t) (btNextId t) (map fst (leavesOf root))" "entriesOk (btSize t) (treeEntries t)"
    using treeInvD [OF assms Some] by metis
  obtain path p i keys vals where d: "descend lo [] root = Inr (path, p, i, keys, vals)"
    "leavesOf root = leftOf path @ (i, zip keys vals) # rightOf path"
    "drop (lowerBound keys lo) (zip keys vals) @ ents (rightOf path) = filter (\<lambda>e. lo \<le> fst e) (treeEntries t)"
    using range_in_tree [OF assms Some] .
  have "rangeLoop root (btLinks t) hi i (lowerBound keys lo) [] = Some ([] @ takeWhile (\<lambda>e. fst e \<le> hi) (filter (\<lambda>e. lo \<le> fst e) (treeEntries t)))"
    unfolding d(3) [symmetric]
    by (rule rangeLoop_ok [of root i _ _ _ "if leftOf path = [] then None else Some (fst (last (leftOf path)))"])
      (use inv(1) d(2) in \<open>auto simp: idsOk_def chained_append last_map\<close>)
  moreover have "sorted_wrt (<) (map fst (filter (\<lambda>e. lo \<le> fst e) (treeEntries t)))"
    using inv(2) by (auto simp: entriesOk_def sorted_wrt_map sorted_wrt_filter)
  moreover have "lo > hi \<Longrightarrow> filter (\<lambda>e. lo \<le> fst e \<and> fst e \<le> hi) (treeEntries t) = []" by (auto simp: filter_empty_conv)
  ultimately show ?thesis using Some d(1) by (simp add: rangeScan_def takeWhile_sorted conj_commute)
qed (simp add: rangeScan_def treeEntries_def treeLeaves_def)

section \<open>Validation\<close>

definition boundsOf :: "node \<Rightarrow> index_key \<times> index_key \<times> nat" where
  "boundsOf n = (minKey n, last (keysOf (leavesOf n)), length (keysOf (leavesOf n)))"

definition seenLeaves :: "node \<Rightarrow> (nat \<times> index_key list) list" where
  "seenLeaves n = map (\<lambda>l. (fst l, map fst (snd l))) (leavesOf n)"

text \<open>What the entries below some nodes must be for \<open>validate\<close> to accept them.\<close>

definition contentOk :: "(nat \<times> index_entry list) list \<Rightarrow> bool" where
  "contentOk ls \<longleftrightarrow> sorted_wrt (<) (keysOf ls) \<and> list_all recordIdIsValid (map snd (ents ls))"

lemma contentOk_append: "contentOk (ls @ ls') \<Longrightarrow> contentOk ls \<and> contentOk ls'"
  by (auto simp: contentOk_def sorted_wrt_append)

lemma keysOf_bounds:
  assumes "capsOk c" "nodeOk c h p n"
  shows "minKey n \<in> set (keysOf (leavesOf n))" "last (keysOf (leavesOf n)) \<in> set (keysOf (leavesOf n))"
  using keysOf_node [OF assms] by (metis hd_in_set) (simp add: keysOf_node [OF assms])

lemma boundsLoop_ok:
  assumes "capsOk c"
  shows "list_all (nodeOk c h p) (d # ds) \<Longrightarrow> contentOk (concat (map leavesOf (d # ds)))
    \<Longrightarrow> boundsLoop (map minKey ds) (boundsOf d) (map boundsOf ds) n = Inr (n + length (keysOf (concat (map leavesOf ds))))"
proof (induction ds arbitrary: d n)
  case (Cons e ds)
  have "last (keysOf (leavesOf d)) < minKey e"
    using Cons.prems(2) keysOf_bounds [OF assms, of h p] Cons.prems(1) by (auto simp: contentOk_def sorted_wrt_append)
  moreover have "contentOk (concat (map leavesOf (e # ds)))" using contentOk_append [of "leavesOf d"] Cons.prems(2) by auto
  ultimately show ?case using Cons by (simp add: boundsOf_def)
qed simp

lemma minKeys_sorted:
  assumes "capsOk c"
  shows "list_all (nodeOk c h p) cs \<Longrightarrow> contentOk (concat (map leavesOf cs)) \<Longrightarrow> sorted_wrt (<) (map minKey cs)"
proof (induction cs)
  case (Cons d ds)
  have "\<forall>e\<in>set ds. minKey d < minKey e"
    using Cons.prems keysOf_bounds(1) [OF assms, of h p] by (fastforce simp: contentOk_def sorted_wrt_append list_all_iff keysOf_concat)
  moreover have "contentOk (concat (map leavesOf ds))" using contentOk_append [of "leavesOf d"] Cons.prems(2) by auto
  ultimately show ?case using Cons by auto
qed simp

definition validates :: "bplus_tree \<Rightarrow> bool \<Rightarrow> nat option \<Rightarrow> nat \<Rightarrow> node \<Rightarrow> bool" where
  "validates t isRoot p h n \<longleftrightarrow> (\<forall>d seen. fst seen \<in> {None, Some (d + h)} \<longrightarrow>
     validateNode t isRoot p d n seen = Inr (boundsOf n, (Some (d + h), snd seen @ seenLeaves n)))"

lemma validateChildren_ok:
  "\<forall>n\<in>set cs. validates t False p h n \<Longrightarrow> fst seen \<in> {None, Some (d + h)}
   \<Longrightarrow> validateChildren t p d cs seen = Inr (map boundsOf cs,
         (if cs = [] then fst seen else Some (d + h), snd seen @ concat (map seenLeaves cs)))"
proof (induction cs arbitrary: seen)
  case (Cons n cs)
  then have "validates t False p h n" by simp
  then have "validateNode t False p d n seen = Inr (boundsOf n, (Some (d + h), snd seen @ seenLeaves n))"
    using Cons.prems(2) unfolding validates_def by blast
  then show ?case using Cons.IH [of "(Some (d + h), snd seen @ seenLeaves n)"] Cons.prems(1) by simp
qed (simp add: prod_eq_iff)

lemma validates_leaf:
  assumes "length vals = length keys" "1 \<le> length keys" "length keys \<le> btLeafMax t" "isRoot \<or> btLeafMin t \<le> length keys"
    "contentOk [(i, zip keys vals)]"
  shows "validates t isRoot p 0 (Leaf p i keys vals)"
proof -
  have "keys \<noteq> []" using assms(2) by auto
  then have "zip keys vals \<noteq> []" using assms(1) by auto
  then show ?thesis using assms
    by (auto simp: validates_def validateLeaf_def contentOk_def boundsOf_def seenLeaves_def minKey_def hd_map [symmetric] not_less)
qed

lemma validates_inner:
  assumes "capsOk (capsOf t)" "list_all (nodeOk (capsOf t) h (Some j)) cs" "\<forall>n\<in>set cs. validates t False (Some j) h n" "contentOk (leavesOf (inner p j cs))"
    "length cs \<le> btInternalMax t + 1" "2 \<le> length cs" "isRoot \<or> btInternalMin t + 1 \<le> length cs"
  shows "validates t isRoot p (Suc h) (inner p j cs)"
proof -
  obtain d ds where cs: "cs = d # ds" "ds \<noteq> []" using assms(6) by (cases cs rule: remdups_adj.cases) auto
  have "sorted_wrt (<) (map minKey (tl cs))" using minKeys_sorted [OF assms(1,2)] assms(4) cs(1) by simp
  moreover have "boundsLoop (map minKey ds) (boundsOf d) (map boundsOf ds) (snd (snd (boundsOf d)))
      = Inr (length (keysOf (leavesOf (inner p j cs))))"
    using boundsLoop_ok [OF assms(1), of h "Some j" d ds] assms(2,4) cs(1) by (simp add: boundsOf_def)
  moreover have "boundsOf (inner p j cs) = (minKey d, fst (snd (boundsOf (last cs))), length (keysOf (leavesOf (inner p j cs))))"
  proof -
    have k: "list_all (nodeOk (capsOf t) h (Some j)) [d]" "nodeOk (capsOf t) h (Some j) (last cs)" "nodeOk (capsOf t) h (Some j) d" using assms(2) cs by (auto simp: list_all_iff)
    have "minKey (inner p j cs) = minKey d" using leaves_entries [OF assms(1) k(3)] cs(1) by (simp add: minKey_def)
    moreover have "last (keysOf (leavesOf (inner p j cs))) = last (keysOf (leavesOf (last cs)))"
      using keysOf_node(1) [OF assms(1) k(2)] cs(1) by (subst append_butlast_last_id [of cs, symmetric]) (simp_all del: append_butlast_last_id)
    ultimately show ?thesis by (simp add: boundsOf_def)
  qed
  moreover have "seenLeaves (inner p j cs) = concat (map seenLeaves cs)" by (simp add: seenLeaves_def [abs_def] map_concat comp_def)
  ultimately have res: "validateNode t isRoot p d' (inner p j cs) seen = Inr (boundsOf (inner p j cs), (Some (d' + Suc h), snd seen @ seenLeaves (inner p j cs)))"
    if "fst seen \<in> {None, Some (d' + Suc h)}" for d' seen
    using validateChildren_ok [OF assms(3), of seen "Suc d'"] that assms(5,7) cs
    by (auto simp: boundsOf_def [of d] last_map simp del: validateChildren.simps)
  then show ?thesis unfolding validates_def by blast
qed

lemma validates_node:
  assumes "capsOk (capsOf t)"
  shows "nodeOk (capsOf t) h p n \<Longrightarrow> contentOk (leavesOf n) \<Longrightarrow> validates t False p h n"
proof (induction h arbitrary: p n)
  case 0
  then show ?case using assms by (cases n) (auto intro!: validates_leaf simp: capsOk_def)
next
  case (Suc h)
  note n = inner_node [OF Suc.prems(1)]
  let ?cs = "childrenOf n"
  have "contentOk (leavesOf m)" if m: "m \<in> set ?cs" for m
  proof -
    obtain xs ys where "?cs = xs @ m # ys" using split_list [OF m] by blast
    then have "leavesOf n = concat (map leavesOf xs) @ leavesOf m @ concat (map leavesOf ys)" using n(6) by simp
    then show ?thesis using contentOk_append Suc.prems(2) by metis
  qed
  then have "\<forall>m\<in>set ?cs. validates t False (Some (nodeId n)) h m" using Suc.IH n(2) by (auto simp: list_all_iff)
  then have "validates t False p (Suc h) (inner p (nodeId n) ?cs)"
    using n Suc.prems(2) assms by (intro validates_inner) (auto simp: capsOk_def)
  then show ?case using n(1) by simp
qed

lemma leaves_filled: "capsOk c \<Longrightarrow> detached c h root \<Longrightarrow> \<forall>l\<in>set (leavesOf root). snd l \<noteq> []"
proof (induction root arbitrary: h)
  case (Leaf p i keys vals)
  then show ?case by (cases h; cases keys; cases vals) (auto simp: setParent_def)
next
  case (Internal p j keys cs)
  then obtain h' where h: "h = Suc h'" by (cases h) (auto simp: setParent_def)
  have "\<forall>l\<in>set (leavesOf d). snd l \<noteq> []" if d: "d \<in> set cs" for d
  proof (rule Internal.IH [OF d Internal.prems(1)])
    have "nodeOk c h' (Some j) d" using Internal.prems h d by (auto simp: list_all_iff setParent_def)
    then show "detached c h' d" by (rule node_detached [OF Internal.prems(1)])
  qed
  then show ?case by auto
qed

lemma validateLinks_ok:
  "chained links (map_option fst prev) (map fst ls) None \<Longrightarrow> \<forall>l\<in>set ls. snd l \<noteq> [] \<Longrightarrow> \<forall>p ks. prev = Some (p, ks) \<longrightarrow> ks \<noteq> []
   \<Longrightarrow> sorted_wrt (<) ((case prev of None \<Rightarrow> [] | Some pk \<Rightarrow> snd pk) @ keysOf ls)
   \<Longrightarrow> validateLinks links prev (map (\<lambda>l. (fst l, map fst (snd l))) ls) = Inr ()"
proof (induction ls arbitrary: prev)
  case (Cons l ls)
  let ?ks = "map fst (snd l)"
  have ne: "?ks \<noteq> []" using Cons.prems(2) by simp
  have "last pks < hd ?ks" if "prev = Some (p, pks)" for p pks
    using Cons.prems(3,4) that ne last_in_set [of pks] hd_in_set [of ?ks] by (auto simp: sorted_wrt_append)
  then have order: "\<not> (case prev of None \<Rightarrow> False | Some (_, pkeys) \<Rightarrow> hd ?ks \<le> last pkeys)"
    by (auto simp: not_le split: option.splits)
  have "validateLinks links (Some (fst l, ?ks)) (map (\<lambda>l. (fst l, map fst (snd l))) ls) = Inr ()"
    by (rule Cons.IH) (use Cons.prems ne in \<open>auto simp: sorted_wrt_append\<close>)
  then show ?case using Cons.prems(1) order by (cases ls) auto
qed simp

lemma forward_chain: "chained links p ids None
  \<Longrightarrow> validateChain (\<lambda>i. lkNext (links i)) dir (case ids of [] \<Rightarrow> None | i # _ \<Rightarrow> Some i) ids = Inr ()"
  by (induction ids arbitrary: p) auto

lemma backward_chain: "chained links None ids q
  \<Longrightarrow> validateChain (\<lambda>i. lkPrevious (links i)) dir (if ids = [] then None else Some (last ids)) (rev ids) = Inr ()"
  by (induction ids arbitrary: q rule: rev_induct) (auto simp: chained_append)

lemma validates_root:
  assumes "capsOk (capsOf t)" "rootOk (capsOf t) h root" "contentOk (leavesOf root)"
  shows "validates t True None h root"
proof (cases h)
  case 0
  then show ?thesis using assms by (cases root) (auto intro!: validates_leaf)
next
  case (Suc h')
  then obtain j cs where r: "root = inner None j cs" "list_all (nodeOk (capsOf t) h' (Some j)) cs" "2 \<le> length cs" "length cs \<le> btInternalMax t + 1"
    using assms(2) by (cases root) auto
  have "contentOk (leavesOf m)" if m: "m \<in> set cs" for m
  proof -
    obtain xs ys where "cs = xs @ m # ys" using split_list [OF m] by blast
    then have "leavesOf root = concat (map leavesOf xs) @ leavesOf m @ concat (map leavesOf ys)" using r(1) by simp
    then show ?thesis using contentOk_append assms(3) by metis
  qed
  then have "\<forall>m\<in>set cs. validates t False (Some j) h' m" using validates_node [OF assms(1)] r(2) by (auto simp: list_all_iff)
  then show ?thesis unfolding Suc using r assms(1,3) by (intro validates_inner [of t h' j cs None True, folded r(1)]) auto
qed

lemma validate_ok:
  assumes "treeInv t"
  shows "treeValidate t = Inr ()"
proof (cases "btRoot t")
  case (Some root)
  obtain h where inv: "capsOk (capsOf t)" "rootOk (capsOf t) h root" "entriesOk (btSize t) (ents (leavesOf root))"
    "idsOk (btLinks t) (btNextId t) (map fst (leavesOf root))" "sorted_wrt (<) (keysOf (leavesOf root))"
    using treeInvD [OF assms Some] by metis
  have "contentOk (leavesOf root)" using inv(3,5) by (simp add: contentOk_def entriesOk_def)
  then have v: "validateNode t True None 0 root (None, []) = Inr (boundsOf root, (Some h, seenLeaves root))"
    using validates_root [OF inv(1,2)] by (simp add: validates_def)
  have ne: "leavesOf root \<noteq> []" using leftmost_ok [OF inv(1) root_detached [OF inv(2)]] by simp
  have ch: "chained (btLinks t) None (map fst (leavesOf root)) None" using inv(4) by (simp add: idsOk_def)
  have ids: "map fst (seenLeaves root) = map fst (leavesOf root)" by (simp add: seenLeaves_def comp_def)
  have ends: "fst (hd (seenLeaves root)) = hd (map fst (leavesOf root))" "fst (last (seenLeaves root)) = last (map fst (leavesOf root))"
    using ne by (simp_all add: seenLeaves_def hd_map last_map)
  have "validateLinks (btLinks t) None (seenLeaves root) = Inr ()"
    unfolding seenLeaves_def by (rule validateLinks_ok) (use ch inv(5) leaves_filled [OF inv(1) root_detached [OF inv(2)]] in auto)
  moreover have "validateChain (\<lambda>i. lkNext (btLinks t i)) ''forward'' (Some (fst (hd (seenLeaves root)))) (map fst (seenLeaves root)) = Inr ()"
    using forward_chain [OF ch, of "''forward''"] ne unfolding ids ends by (cases "leavesOf root") auto
  moreover have "validateChain (\<lambda>i. lkPrevious (btLinks t i)) ''backward'' (Some (fst (last (seenLeaves root)))) (rev (map fst (seenLeaves root))) = Inr ()"
    using backward_chain [OF ch, of "''backward''"] ne unfolding ids ends by simp
  moreover have "snd (snd (boundsOf root)) = btSize t" using inv(3) by (simp add: boundsOf_def entriesOk_def keysOf_def)
  ultimately show ?thesis using Some v rootOk_parent [OF inv(2)] by (auto simp: treeValidate_def split: prod.splits)
qed (use assms in \<open>simp add: treeValidate_def treeInv_def treeEntries_def treeLeaves_def entriesOk_def throw_if_def\<close>)

section \<open>Height\<close>

lemma ents_at_least:
  "\<forall>d\<in>set cs. k \<le> length (ents (leavesOf d)) \<Longrightarrow> length cs * k \<le> length (ents (concat (map leavesOf cs)))"
  by (induction cs) auto

lemma node_entries: "capsOk c \<Longrightarrow> nodeOk c h p n \<Longrightarrow> cLeafMin c * (cInnerMin c + 1) ^ h \<le> length (ents (leavesOf n))"
proof (induction h arbitrary: p n)
  case 0
  then show ?case by (cases n) auto
next
  case (Suc h)
  note n = inner_node [OF Suc.prems(2)]
  let ?k = "cLeafMin c * (cInnerMin c + 1) ^ h"
  have "\<forall>d\<in>set (childrenOf n). ?k \<le> length (ents (leavesOf d))" using Suc.IH [OF Suc.prems(1)] n(2) by (auto simp: list_all_iff)
  then have "length (childrenOf n) * ?k \<le> length (ents (leavesOf n))" unfolding n(6) by (rule ents_at_least)
  moreover have "(cInnerMin c + 1) * ?k \<le> length (childrenOf n) * ?k" using n(4) by (intro mult_right_mono) auto
  ultimately show ?case by (simp add: algebra_simps)
qed

lemma root_height: "detached c h root \<Longrightarrow> capsOk c \<Longrightarrow> nodeHeight root = Suc h"
proof (induction root arbitrary: h)
  case (Leaf p i keys vals)
  then show ?case by (cases h) (auto simp: setParent_def)
next
  case (Internal p j keys cs)
  then obtain h' where h: "h = Suc h'" by (cases h) (auto simp: setParent_def)
  then obtain d ds where d: "cs = d # ds" using Internal.prems by (cases cs) (auto simp: setParent_def)
  then have "nodeOk c h' (Some j) d" using Internal.prems h by (simp add: setParent_def)
  then show ?case using Internal.IH [of d h'] node_detached [OF Internal.prems(2)] Internal.prems(2) d h by simp
qed

lemma height_bound:
  assumes "treeInv t" "2 \<le> treeHeight t"
  shows "2 * btLeafMin t * (btInternalMin t + 1) ^ (treeHeight t - 2) \<le> btSize t"
proof -
  obtain root where Some: "btRoot t = Some root" using assms(2) by (cases "btRoot t") (auto simp: treeHeight_def)
  obtain h where inv: "capsOk (capsOf t)" "rootOk (capsOf t) h root" "entriesOk (btSize t) (ents (leavesOf root))"
    using treeInvD [OF assms(1) Some] by metis
  have h: "treeHeight t = Suc h" using root_height [OF root_detached [OF inv(2)] inv(1)] Some by (simp add: treeHeight_def)
  then obtain h' where h': "h = Suc h'" using assms(2) by (cases h) auto
  then obtain j cs where cs: "root = inner None j cs" "list_all (nodeOk (capsOf t) h' (Some j)) cs" "2 \<le> length cs"
    using inv(2) by (cases root) auto
  let ?k = "btLeafMin t * (btInternalMin t + 1) ^ h'"
  have "\<forall>d\<in>set cs. ?k \<le> length (ents (leavesOf d))"
    using node_entries [OF inv(1), of h'] cs(2) by (auto simp: list_all_iff)
  then have "length cs * ?k \<le> length (ents (leavesOf root))" using ents_at_least [of cs ?k] cs(1) by simp
  moreover have "2 * ?k \<le> length cs * ?k" using cs(3) by (intro mult_right_mono) auto
  ultimately have "2 * ?k \<le> length (ents (leavesOf root))" by (rule order_trans [rotated])
  moreover have "btSize t = length (ents (leavesOf root))" using inv(3) by (simp add: entriesOk_def)
  ultimately show ?thesis using h h' by (simp add: mult.assoc)
qed

section \<open>Sequences of updates\<close>

datatype index_call = InsertKey index_key record_id | EraseKey index_key

text \<open>A call that rejects its argument changes nothing and the caller goes on; another exception ends the run.\<close>

definition callTree :: "index_call \<Rightarrow> bplus_tree \<Rightarrow> (bool res \<times> bplus_tree) res" where
  "callTree call t = (case (case call of InsertKey key v \<Rightarrow> treeInsert key v t | EraseKey key \<Rightarrow> treeErase key t) of
     Inl (InvalidArgument m) \<Rightarrow> Inr (Inl (InvalidArgument m), t)
   | Inl e \<Rightarrow> Inl e
   | Inr (b, t') \<Rightarrow> Inr (Inr b, t'))"

fun runCalls :: "(index_call \<Rightarrow> 't \<Rightarrow> (bool res \<times> 't) res) \<Rightarrow> index_call list \<Rightarrow> 't \<Rightarrow> (bool res list \<times> 't) res" where
  "runCalls f [] t = Inr ([], t)"
| "runCalls f (call # calls) t = res_bind (f call t) (\<lambda>(b, t'). res_bind (runCalls f calls t') (\<lambda>(bs, t''). Inr (b # bs, t'')))"

definition runTree :: "index_call list \<Rightarrow> bplus_tree \<Rightarrow> (bool res list \<times> bplus_tree) res" where
  "runTree = runCalls callTree"

text \<open>The same calls on a map.\<close>

definition callMap :: "index_call \<Rightarrow> (index_key \<Rightarrow> record_id option) \<Rightarrow> bool res \<times> (index_key \<Rightarrow> record_id option)" where
  "callMap call m = (case call of
     InsertKey key v \<Rightarrow> if \<not> recordIdIsValid v then (Inl (InvalidArgument ''B+ tree cannot index an invalid RecordId.''), m)
       else if m key \<noteq> None then (Inr False, m) else (Inr True, m(key \<mapsto> v))
   | EraseKey key \<Rightarrow> (Inr (m key \<noteq> None), m(key := None)))"

fun runMap :: "index_call list \<Rightarrow> (index_key \<Rightarrow> record_id option) \<Rightarrow> bool res list \<times> (index_key \<Rightarrow> record_id option)" where
  "runMap [] m = ([], m)"
| "runMap (call # calls) m = (let r = callMap call m; rs = runMap calls (snd r) in (fst r # fst rs, snd rs))"

text \<open>What an index promises its clients: each call does what it does on the map the index stands for.\<close>

locale map_index =
  fixes inv :: "'t \<Rightarrow> bool"
    and abs :: "'t \<Rightarrow> index_key \<Rightarrow> record_id option"
    and config :: "'t \<Rightarrow> 'c"
    and call :: "index_call \<Rightarrow> 't \<Rightarrow> (bool res \<times> 't) res"
  assumes call_refines: "inv t \<Longrightarrow> \<exists>t'. call c t = Inr (fst (callMap c (abs t)), t') \<and> inv t' \<and> config t' = config t
    \<and> abs t' = snd (callMap c (abs t))"
begin

lemma run_refines:
  "inv t \<Longrightarrow> \<exists>t'. runCalls call calls t = Inr (fst (runMap calls (abs t)), t') \<and> inv t' \<and> config t' = config t
     \<and> abs t' = snd (runMap calls (abs t))"
proof (induction calls arbitrary: t)
  case (Cons c calls)
  obtain t1 where t1: "call c t = Inr (fst (callMap c (abs t)), t1)" "inv t1" "config t1 = config t" "abs t1 = snd (callMap c (abs t))"
    using call_refines [OF Cons.prems] by blast
  show ?case using Cons.IH [OF t1(2)] t1 by (auto simp: Let_def)
qed simp

end

lemma call_tree_ok:
  assumes "treeInv t"
  obtains t' where "callTree call t = Inr (fst (callMap call (treeMap t)), t')" "treeInv t'" "capsOf t' = capsOf t"
    "treeMap t' = snd (callMap call (treeMap t))"
proof (cases call)
  case (InsertKey key v)
  consider (bad) "\<not> recordIdIsValid v" | (old) w where "recordIdIsValid v" "treeMap t key = Some w" | (new) "recordIdIsValid v" "treeMap t key = None"
    by (cases "treeMap t key") auto
  then show thesis
  proof cases
    case bad
    then show thesis using that [of t] InsertKey assms by (simp add: callTree_def callMap_def treeInsert_def)
  next
    case old
    then show thesis using that [of t] InsertKey assms insert_existing [OF assms] by (simp add: callTree_def callMap_def)
  next
    case new
    obtain t' where "treeInsert key v t = Inr (True, t')" "treeInv t'" "capsOf t' = capsOf t" "treeMap t' = (treeMap t)(key \<mapsto> v)"
      using insert_new [OF assms new] .
    then show thesis using that [of t'] InsertKey new by (simp add: callTree_def callMap_def)
  qed
next
  case (EraseKey key)
  show thesis
  proof (cases "treeMap t key")
    case None
    moreover have "(treeMap t)(key := None) = treeMap t" using None by (simp add: fun_eq_iff)
    ultimately show thesis using that [of t] EraseKey assms erase_missing [OF assms] by (simp add: callTree_def callMap_def)
  next
    case (Some v)
    obtain t' where "treeErase key t = Inr (True, t')" "treeInv t'" "capsOf t' = capsOf t" "treeMap t' = (treeMap t)(key := None)"
      using erase_found [OF assms Some] .
    then show thesis using that [of t'] EraseKey Some by (simp add: callTree_def callMap_def)
  qed
qed

interpretation bt: map_index treeInv treeMap capsOf callTree
  by unfold_locales (use call_tree_ok in metis)

lemma empty_tree:
  assumes "BPlusTree leafMax internalMax = Inr t"
  shows "treeInv t" "treeMap t = Map.empty" "btLeafMin t = (leafMax + 1) div 2" "btInternalMin t = internalMax div 2"
    "capsOf t = \<lparr>cLeafMin = (leafMax + 1) div 2, cLeafMax = leafMax, cInnerMin = internalMax div 2, cInnerMax = internalMax\<rparr>"
proof -
  have m: "leafMax div 2 + leafMax mod 2 = (leafMax + 1) div 2" by presburger
  have t: "3 \<le> leafMax" "3 \<le> internalMax" "btRoot t = None" "btSize t = 0"
    "btLeafMin t = (leafMax + 1) div 2" "btInternalMin t = internalMax div 2" "btLeafMax t = leafMax" "btInternalMax t = internalMax"
    using assms m by (auto simp: BPlusTree_def split: if_splits)
  show "btLeafMin t = (leafMax + 1) div 2" "btInternalMin t = internalMax div 2" by (fact t)+
  show c: "capsOf t = \<lparr>cLeafMin = (leafMax + 1) div 2, cLeafMax = leafMax, cInnerMin = internalMax div 2, cInnerMax = internalMax\<rparr>"
    using t by (simp add: capsOf_def)
  have "capsOk (capsOf t)" unfolding c capsOk_def using t(1,2) by (simp, presburger)
  then show "treeInv t" "treeMap t = Map.empty" using t(3,4)
    by (auto simp: treeInv_def treeMap_def treeEntries_def treeLeaves_def entriesOk_def idsOk_def)
qed

lemma tree_size:
  assumes "treeInv t"
  shows "btSize t = card (dom (treeMap t))"
proof -
  have e: "sorted_wrt (<) (map fst (treeEntries t))" "btSize t = length (treeEntries t)"
    using assms by (auto simp: treeInv_def entriesOk_def)
  then have "distinct (map fst (treeEntries t))" by (simp add: strict_sorted_iff)
  then show ?thesis using e(2) distinct_card [of "map fst (treeEntries t)"] by (simp add: treeMap_def dom_map_of_conv_image_fst)
qed

text \<open>The trees a program can hold: those that calls have made from an empty one.\<close>

lemma reached_tree:
  assumes "BPlusTree leafMax internalMax = Inr t0" "runTree calls t0 = Inr (results, t)"
  shows "treeInv t" "treeMap t = snd (runMap calls Map.empty)" "results = fst (runMap calls Map.empty)"
    "btLeafMin t = (leafMax + 1) div 2" "btInternalMin t = internalMax div 2"
proof -
  note e = empty_tree [OF assms(1)]
  obtain t' where t': "runTree calls t0 = Inr (fst (runMap calls (treeMap t0)), t')" "treeInv t'" "capsOf t' = capsOf t0"
    "treeMap t' = snd (runMap calls (treeMap t0))" using bt.run_refines [OF e(1), of calls] unfolding runTree_def by blast
  moreover have "t' = t" using t'(1) assms(2) by simp
  ultimately show "treeInv t" "treeMap t = snd (runMap calls Map.empty)" "results = fst (runMap calls Map.empty)"
    "btLeafMin t = (leafMax + 1) div 2" "btInternalMin t = internalMax div 2"
    using assms(2) e(2,5) by (simp_all add: capsOf_def)
qed

text \<open>A short run, for examples.\<close>

definition sampleId :: record_id where
  "sampleId = \<lparr>pageId = 1, slotId = 0\<rparr>"

definition sampleCalls :: "index_call list" where
  "sampleCalls = [InsertKey 5 sampleId, InsertKey 1 sampleId, InsertKey 3 sampleId, InsertKey 4 sampleId, InsertKey 3 sampleId,
     EraseKey 3, EraseKey 9]"

lemma sample_map:
  "runMap sampleCalls Map.empty = ([Inr True, Inr True, Inr True, Inr True, Inr False, Inr True, Inr False],
     [5 \<mapsto> sampleId, 1 \<mapsto> sampleId, 4 \<mapsto> sampleId])"
proof -
  have "recordIdIsValid sampleId" by (simp add: sampleId_def recordIdIsValid_def)
  then show ?thesis by (auto simp: sampleCalls_def callMap_def fun_eq_iff)
qed

lemma sample_run:
  obtains t0 t where "BPlusTree 3 3 = Inr t0"
    "runTree sampleCalls t0 = Inr ([Inr True, Inr True, Inr True, Inr True, Inr False, Inr True, Inr False], t)"
proof -
  obtain t0 where t0: "BPlusTree 3 3 = Inr t0" by (simp add: BPlusTree_def)
  note e = empty_tree [OF t0]
  obtain t where "runTree sampleCalls t0 = Inr (fst (runMap sampleCalls (treeMap t0)), t)"
    using bt.run_refines [OF e(1), of sampleCalls] unfolding runTree_def by blast
  then show thesis using that [OF t0] e(2) sample_map by simp
qed

section \<open>Properties\<close>

text \<open>
  C4: Inserting and erasing keys in an in-memory B+ tree, in any order and with any two node capacities the constructor
  accepts, has the results it has on a finite map, and no call throws one of the tree's internal errors. Afterwards a
  search for any key finds what the map has, and the size is the number of keys of the map.
\<close>

theorem bplus_tree_refines_map:
  assumes "BPlusTree leafMax internalMax = Inr t0" "runMap calls Map.empty = (results, m)"
  shows "\<exists>t. runTree calls t0 = Inr (results, t) \<and> (\<forall>key. treeFind t key = Inr (m key)) \<and> btSize t = card (dom m)"
proof -
  note e = empty_tree [OF assms(1)]
  obtain t where t: "runTree calls t0 = Inr (results, t)" "treeInv t" "treeMap t = m"
    using bt.run_refines [OF e(1), of calls] assms(2) unfolding runTree_def e(2) by auto
  then show ?thesis using find_ok tree_size by blast
qed

theorem bplus_tree_refines_map_witness:
  "\<exists>t0 t. BPlusTree 3 3 = Inr t0
     \<and> runTree sampleCalls t0 = Inr ([Inr True, Inr True, Inr True, Inr True, Inr False, Inr True, Inr False], t)
     \<and> treeFind t 4 = Inr (Some sampleId) \<and> treeFind t 3 = Inr None"
proof -
  obtain t0 where t0: "BPlusTree 3 3 = Inr t0" by (simp add: BPlusTree_def)
  show ?thesis using bplus_tree_refines_map [OF t0 sample_map] t0 by fastforce
qed

text \<open>
  C18: The scans of an in-memory B+ tree come to an end, although they follow the pointers of the leaves: after any calls,
  a scan of everything returns the entries of the map in the order of their keys, and a scan of a range those with a key
  in the range.
\<close>

theorem bplus_tree_scans_end:
  assumes "BPlusTree leafMax internalMax = Inr t0" "runTree calls t0 = Inr (results, t)"
  shows "\<exists>es. scanAll t = Inr (Some es) \<and> sorted_wrt (<) (map fst es) \<and> map_of es = snd (runMap calls Map.empty)
    \<and> (\<forall>lo hi. rangeScan t lo hi = Inr (Some (filter (\<lambda>e. lo \<le> fst e \<and> fst e \<le> hi) es)))"
proof -
  note r = reached_tree [OF assms]
  have "sorted_wrt (<) (map fst (treeEntries t))" using r(1) by (simp add: treeInv_def entriesOk_def)
  moreover have "map_of (treeEntries t) = snd (runMap calls Map.empty)" using r(2) by (simp add: treeMap_def)
  ultimately show ?thesis using scanAll_ok [OF r(1)] rangeScan_ok [OF r(1)] by blast
qed

theorem bplus_tree_scans_end_witness:
  "\<exists>t0 results t es. BPlusTree 3 3 = Inr t0 \<and> runTree sampleCalls t0 = Inr (results, t)
     \<and> scanAll t = Inr (Some es) \<and> map_of es 5 = Some sampleId"
proof -
  obtain t0 t where r: "BPlusTree 3 3 = Inr t0" "runTree sampleCalls t0 = Inr ([Inr True, Inr True, Inr True, Inr True, Inr False, Inr True, Inr False], t)"
    by (rule sample_run)
  show ?thesis using bplus_tree_scans_end [OF r] r sample_map by fastforce
qed

text \<open>
  C19: After any calls an in-memory B+ tree passes its own \<open>validate\<close>: the parent pointer of every node, sorted keys,
  occupancy of every node, equal depth of the leaves, separators, links and chain of the leaves, number of entries. Its height is logarithmic: a tree of height
  \<open>h + 2\<close> has at least \<open>2 * leafMin * (internalMin + 1) ^ h\<close> entries.
\<close>

theorem bplus_tree_stays_balanced:
  assumes "BPlusTree leafMax internalMax = Inr t0" "runTree calls t0 = Inr (results, t)"
  shows "treeValidate t = Inr () \<and> (2 \<le> treeHeight t \<longrightarrow>
      2 * ((leafMax + 1) div 2) * (internalMax div 2 + 1) ^ (treeHeight t - 2) \<le> card (dom (snd (runMap calls Map.empty))))"
proof -
  note r = reached_tree [OF assms]
  have "2 \<le> treeHeight t \<Longrightarrow>
      2 * ((leafMax + 1) div 2) * (internalMax div 2 + 1) ^ (treeHeight t - 2) \<le> card (dom (snd (runMap calls Map.empty)))"
    using height_bound [OF r(1)] tree_size [OF r(1)] r(2,4,5) by simp
  then show ?thesis using validate_ok [OF r(1)] by blast
qed

theorem bplus_tree_stays_balanced_witness:
  "\<exists>t0 results t. BPlusTree 3 3 = Inr t0 \<and> runTree sampleCalls t0 = Inr (results, t) \<and> treeValidate t = Inr ()"
proof -
  obtain t0 t where "BPlusTree 3 3 = Inr t0" "runTree sampleCalls t0 = Inr ([Inr True, Inr True, Inr True, Inr True, Inr False, Inr True, Inr False], t)"
    by (rule sample_run)
  then show ?thesis using bplus_tree_stays_balanced [of 3 3 t0 sampleCalls _ t] by blast
qed

end
