(* ===== verification/Spec2Isabelle.thy ===== *)
theory Spec2Isabelle
  imports Slotted_Page LRU_K Tuple_Codec Wal_Codec Access_Gate Sql_Print Sql_Errors Wire_Protocol Buffer_Pool_Wal Recovery_Log
    Checkpoint_Control Table_Definition BPlus_Tree_Map
begin

text \<open>
  A verification of MiniDB++, a single-file relational database engine in C++20.

  The development is layered like the program: byte codecs, page formats, slotted pages.
\<close>

end
